(* ===== verification/Prelude.thy ===== *)
theory Prelude
  imports Main "HOL-Library.Word" "HOL-Library.Monad_Syntax"
begin

text \<open>
  Shared vocabulary of the development: the C integer types of \<^verbatim>\<open>types.h\<close> as fixed-width
  words, characters as bytes, address ranges, and the generic facts on words and lists that
  the component theories use.
\<close>

unbundle bit_operations_syntax

section \<open>Types\<close>

type_synonym u8 = "8 word"
type_synonym u16 = "16 word"
type_synonym u32 = "32 word"

text \<open>A C character literal, as the byte it denotes.\<close>

abbreviation ch :: "char \<Rightarrow> u8" where
  "ch c \<equiv> of_char c"

text \<open>The bytes of a string literal, without its terminating zero.\<close>

abbreviation chars :: "string \<Rightarrow> u8 list" where
  "chars s \<equiv> map of_char s"

section \<open>Automation\<close>

text \<open>
  \<open>mem_simps\<close> collects the load/store laws of the memory, \<open>unfold_k\<close> the definitions of
  the kernel operations that a proof about a whole handler unfolds.
\<close>

named_theorems mem_simps
named_theorems unfold_k

section \<open>Words as offsets\<close>

lemma of_nat_u32_inj:
  assumes "i < 2 ^ 32" "j < 2 ^ 32"
  shows "(of_nat i :: u32) = of_nat j \<longleftrightarrow> i = j"
  using assms by (simp add: word_of_nat_eq_iff take_bit_nat_eq_self)

lemma off_u32_inj:
  assumes "i < 2 ^ 32" "j < 2 ^ 32"
  shows "(a :: u32) + of_nat i = a + of_nat j \<longleftrightarrow> i = j"
  using of_nat_u32_inj [OF assms] by simp

lemma off_eq_self_u32:
  assumes "i < 2 ^ 32"
  shows "(a :: u32) + of_nat i = a \<longleftrightarrow> i = 0"
  using off_u32_inj [OF assms, of 0 a] by simp

lemma off_Suc_u32: "(a :: u32) + of_nat (Suc i) = (a + 1) + of_nat i"
  by (simp add: algebra_simps)

lemma unat_of_nat_small:
  "n < 2 ^ LENGTH('a) \<Longrightarrow> unat (of_nat n :: 'a :: len word) = n"
  by (simp add: unsigned_of_nat take_bit_nat_eq_self)

lemma unat_minus_one_u32:
  assumes "(x :: u32) \<noteq> 0"
  shows "unat (x - 1) = unat x - 1"
  using assms by (simp add: unat_minus_one)

lemma unat_pos_u32: "(x :: u32) \<noteq> 0 \<Longrightarrow> 0 < unat x"
  by (simp add: unat_gt_0)

lemma unat_lt_u32: "unat (x :: u32) < 2 ^ 32"
  by (rule order.strict_trans2 [OF unsigned_less]) simp

text \<open>Signed readings of 32-bit values below \<open>2 ^ 31\<close>.\<close>

lemma uint_small:
  assumes "unat (w :: u32) < 2 ^ 31"
  shows "0 \<le> uint w" "uint w < 2147483648"
proof -
  have "int (unat w) < int (2 ^ 31)" using assms by (simp only: of_nat_less_iff)
  then show "uint w < 2147483648" by simp
qed simp

lemma signed_take_bit_31_self: "- 2147483648 \<le> x \<Longrightarrow> x < 2147483648 \<Longrightarrow> signed_take_bit 31 x = (x :: int)"
  by (rule signed_take_bit_int_eq_self) simp_all

lemma sint_small:
  assumes "unat (w :: u32) < 2 ^ 31"
  shows "sint w = int (unat w)"
proof -
  have "signed_take_bit 31 (uint w) = uint w"
    using uint_small [OF assms] by (intro signed_take_bit_31_self) linarith+
  then show ?thesis by (simp add: sint_uint)
qed

lemma sint_diff:
  assumes "unat (a :: u32) < 2 ^ 31" "unat b < 2 ^ 31"
  shows "sint (a - b) = int (unat a) - int (unat b)"
proof -
  have "sint (a - b) = signed_take_bit 31 (uint a - uint b)"
    using sint_word_diff [of a b] sint_small [OF assms(1)] sint_small [OF assms(2)] by simp
  also have "\<dots> = uint a - uint b"
    using uint_small [OF assms(1)] uint_small [OF assms(2)] by (intro signed_take_bit_31_self) linarith+
  finally show ?thesis by simp
qed

section \<open>Loops\<close>

text \<open>
  A C loop \<^verbatim>\<open>for (i = a; i < b; i++) body\<close> whose body neither exits nor changes \<open>i\<close> is
  the fold of the body over the index range.
\<close>

definition for_range :: "nat \<Rightarrow> nat \<Rightarrow> (nat \<Rightarrow> 's \<Rightarrow> 's) \<Rightarrow> 's \<Rightarrow> 's" where
  "for_range a b body s = fold body [a..<b] s"

lemma for_range_empty [simp]: "b \<le> a \<Longrightarrow> for_range a b f s = s"
  by (simp add: for_range_def)

lemma for_range_Suc: "a \<le> b \<Longrightarrow> for_range a (Suc b) f s = f b (for_range a b f s)"
  by (simp add: for_range_def)

lemma for_range_cong:
  assumes "\<And>i s. a \<le> i \<Longrightarrow> i < b \<Longrightarrow> f i s = g i s"
  shows "for_range a b f s = for_range a b g s"
  unfolding for_range_def by (rule fold_cong) (use assms in auto)

lemma for_range_invariant:
  assumes "P s" and "\<And>i s. a \<le> i \<Longrightarrow> i < b \<Longrightarrow> P s \<Longrightarrow> P (f i s)"
  shows "P (for_range a b f s)"
  using assms(2)
proof (induction b)
  case 0
  then show ?case using assms(1) by simp
next
  case (Suc b)
  then show ?case using assms(1) by (cases "a \<le> b") (auto simp: for_range_Suc)
qed

lemma for_range_append:
  assumes "a \<le> b" "b \<le> c"
  shows "for_range a c f s = for_range b c f (for_range a b f s)"
  using assms upt_add_eq_append [of a b "c - b"] by (simp add: for_range_def)

text \<open>A row-by-column loop nest is one loop over the flat index.\<close>

lemma for_range_shift: "for_range 0 n (\<lambda>i. f (a + i)) s = for_range a (a + n) f s"
  by (induction n) (simp_all add: for_range_Suc)

lemma for_range_nested:
  "for_range 0 n (\<lambda>y. for_range 0 w (\<lambda>x. f (w * y + x))) s = for_range 0 (w * n) f s"
proof (induction n)
  case (Suc n)
  have "for_range 0 (Suc n) (\<lambda>y. for_range 0 w (\<lambda>x. f (w * y + x))) s =
      for_range 0 w (\<lambda>x. f (w * n + x)) (for_range 0 (w * n) f s)"
    unfolding for_range_Suc [OF le0] Suc.IH ..
  also have "\<dots> = for_range (w * n) (w * n + w) f (for_range 0 (w * n) f s)"
    by (rule for_range_shift)
  also have "\<dots> = for_range 0 (w * Suc n) f s"
    using for_range_append [of 0 "w * n" "w * n + w" f s] by (simp add: add.commute)
  finally show ?case .
qed simp

text \<open>A loop that writes one array slot per iteration, each independent of the others.\<close>

lemma fold_fun_upd_range:
  "fold (\<lambda>i (f :: nat \<Rightarrow> 'a). f(i := g i)) [a..<b] f x = (if a \<le> x \<and> x < b then g x else f x)"
  by (induction b) auto

end
