(* ===== verification/ByteMemory.thy ===== *)
theory ByteMemory
  imports Prelude
begin

text \<open>
  Byte-addressed memory as the kernel's C code sees it: loads and stores of linear addresses
  that go through an address translation to physical memory. The locale \<open>byte_memory\<close> is the
  interface every memory routine relies on; it is interpreted on the translated memory.
\<close>

section \<open>Loads and stores\<close>

type_synonym pmem = "u32 \<Rightarrow> u8"
type_synonym xlate = "u32 \<Rightarrow> u32 option"

text \<open>
  An access to an address that the translation does not map is a page fault, whose handler
  never returns; here it has no effect and reads zero, and every theorem that promises a
  result asks for mapped addresses.
\<close>

definition ld :: "xlate \<Rightarrow> pmem \<Rightarrow> u32 \<Rightarrow> u8" where
  "ld tr p a = (case tr a of Some pa \<Rightarrow> p pa | None \<Rightarrow> 0)"

definition st :: "xlate \<Rightarrow> pmem \<Rightarrow> u32 \<Rightarrow> u8 \<Rightarrow> pmem" where
  "st tr p a v = (case tr a of Some pa \<Rightarrow> p(pa := v) | None \<Rightarrow> p)"

text \<open>Storing a list of bytes at consecutive addresses, lowest first.\<close>

fun store_list :: "('m \<Rightarrow> u32 \<Rightarrow> u8 \<Rightarrow> 'm) \<Rightarrow> 'm \<Rightarrow> u32 \<Rightarrow> u8 list \<Rightarrow> 'm" where
  "store_list wr m a [] = m"
| "store_list wr m a (v # vs) = store_list wr (wr m a v) (a + 1) vs"

definition load_list :: "('m \<Rightarrow> u32 \<Rightarrow> u8) \<Rightarrow> 'm \<Rightarrow> u32 \<Rightarrow> nat \<Rightarrow> u8 list" where
  "load_list rd m a n = map (\<lambda>i. rd m (a + of_nat i)) [0..<n]"

lemma length_load_list [simp]: "length (load_list rd m a n) = n"
  by (simp add: load_list_def)

lemma nth_load_list [simp]: "i < n \<Longrightarrow> load_list rd m a n ! i = rd m (a + of_nat i)"
  by (simp add: load_list_def)

lemma load_list_0 [simp]: "load_list rd m a 0 = []"
  by (simp add: load_list_def)

lemma load_list_Suc: "load_list rd m a (Suc n) = rd m a # load_list rd m (a + 1) n"
  unfolding load_list_def
  by (simp only: upt_conv_Cons [OF zero_less_Suc] map_Suc_upt [symmetric] list.map map_map)
     (simp add: o_def algebra_simps)

lemma store_list_append:
  "store_list wr m a (xs @ ys) = store_list wr (store_list wr m a xs) (a + of_nat (length xs)) ys"
  by (induction xs arbitrary: m a) (simp_all add: algebra_simps)

lemma load_list_add:
  "load_list rd m a (n + k) = load_list rd m a n @ load_list rd m (a + of_nat n) k"
  by (rule nth_equalityI) (auto simp: nth_append algebra_simps)

section \<open>The memory interface\<close>

text \<open>
  \<open>loc\<close> says which storage cell an address names: two addresses with the same cell alias.
\<close>

locale byte_memory =
  fixes rd :: "'m \<Rightarrow> u32 \<Rightarrow> u8"
    and wr :: "'m \<Rightarrow> u32 \<Rightarrow> u8 \<Rightarrow> 'm"
    and loc :: "u32 \<Rightarrow> u32 option"
  assumes rd_wr: "rd (wr m a v) b = (if loc a = loc b \<and> loc b \<noteq> None then v else rd m b)"
begin

lemma rd_store_list_frame:
  assumes "\<And>i. i < length vs \<Longrightarrow> loc (a + of_nat i) \<noteq> loc b"
  shows "rd (store_list wr m a vs) b = rd m b"
  using assms
proof (induction vs arbitrary: m a)
  case Nil
  then show ?case by simp
next
  case (Cons v vs)
  have "loc a \<noteq> loc b"
    using Cons.prems [of 0] by simp
  moreover have "loc (a + 1 + of_nat i) \<noteq> loc b" if "i < length vs" for i
    using Cons.prems [of "Suc i"] that by (simp add: algebra_simps)
  ultimately show ?case
    using Cons.IH [of "a + 1" "wr m a v"] by (simp add: rd_wr)
qed

lemma rd_store_list_in:
  assumes "i < length vs"
    and "\<And>j. j < length vs \<Longrightarrow> loc (a + of_nat j) \<noteq> None"
    and "\<And>j k. j < length vs \<Longrightarrow> k < length vs \<Longrightarrow>
               loc (a + of_nat j) = loc (a + of_nat k) \<Longrightarrow> j = k"
  shows "rd (store_list wr m a vs) (a + of_nat i) = vs ! i"
  using assms
proof (induction vs arbitrary: m a i)
  case Nil
  then show ?case by simp
next
  case (Cons v vs)
  show ?case
  proof (cases i)
    case 0
    have "loc (a + 1 + of_nat k) \<noteq> loc a" if "k < length vs" for k
      using Cons.prems(3) [of "Suc k" 0] that by (auto simp: algebra_simps)
    then have "rd (store_list wr (wr m a v) (a + 1) vs) a = rd (wr m a v) a"
      by (rule rd_store_list_frame)
    then show ?thesis
      using 0 Cons.prems(2) [of 0] by (simp add: rd_wr)
  next
    case (Suc i')
    have "rd (store_list wr (wr m a v) (a + 1) vs) (a + 1 + of_nat i') = vs ! i'"
    proof (rule Cons.IH)
      show "i' < length vs" using Suc Cons.prems(1) by simp
      show "loc (a + 1 + of_nat j) \<noteq> None" if "j < length vs" for j
        using Cons.prems(2) [of "Suc j"] that by (auto simp: algebra_simps)
      show "j = k" if "j < length vs" "k < length vs"
        "loc (a + 1 + of_nat j) = loc (a + 1 + of_nat k)" for j k
        using Cons.prems(3) [of "Suc j" "Suc k"] that by (auto simp: algebra_simps)
    qed
    then show ?thesis using Suc by (simp add: algebra_simps)
  qed
qed

text \<open>A block that is written with one value everywhere reads as that value, aliased or not.\<close>

lemma rd_store_list_replicate:
  assumes "i < n" and "loc (a + of_nat i) \<noteq> None"
  shows "rd (store_list wr m a (replicate n v)) (a + of_nat i) = v"
  using assms
proof (induction n arbitrary: m a i)
  case 0
  then show ?case by simp
next
  case (Suc n)
  have keep: "rd (store_list wr m' b (replicate k v)) x = v"
    if "rd m' x = v" "loc x \<noteq> None" for m' b k x
    using that
  proof (induction k arbitrary: m' b)
    case 0
    then show ?case by simp
  next
    case (Suc k)
    then show ?case by (simp add: rd_wr)
  qed
  show ?case
  proof (cases i)
    case 0
    then show ?thesis using Suc.prems keep [of "wr m a v" a] by (simp add: rd_wr)
  next
    case (Suc i')
    then show ?thesis
      using Suc.prems Suc.IH [of i' "a + 1" "wr m a v"] by (simp add: algebra_simps)
  qed
qed

end

interpretation mmu: byte_memory "ld tr" "st tr" tr for tr :: xlate
  by unfold_locales (auto simp: ld_def st_def split: option.splits)

lemmas ld_st [mem_simps] = mmu.rd_wr

section \<open>Address ranges\<close>

text \<open>
  \<open>block tr a n\<close>: the \<open>n\<close> bytes from \<open>a\<close> are mapped, each to a cell of its own.
  \<open>apart tr a n b k\<close>: no byte of the first range shares a cell with one of the second.
\<close>

definition block :: "xlate \<Rightarrow> u32 \<Rightarrow> nat \<Rightarrow> bool" where
  "block tr a n \<longleftrightarrow> (\<forall>i<n. tr (a + of_nat i) \<noteq> None) \<and>
     (\<forall>i<n. \<forall>j<n. tr (a + of_nat i) = tr (a + of_nat j) \<longrightarrow> i = j)"

definition apart :: "xlate \<Rightarrow> u32 \<Rightarrow> nat \<Rightarrow> u32 \<Rightarrow> nat \<Rightarrow> bool" where
  "apart tr a n b k \<longleftrightarrow> (\<forall>i<n. \<forall>j<k. tr (a + of_nat i) \<noteq> tr (b + of_nat j))"

lemma block_mono: "block tr a n \<Longrightarrow> k \<le> n \<Longrightarrow> block tr a k"
  unfolding block_def by (meson less_le_trans)

lemma block_off:
  assumes "block tr a (k + n)"
  shows "block tr (a + of_nat k) n"
  unfolding block_def
proof (intro conjI allI impI)
  fix i j assume "i < n" "j < n"
    and eq: "tr (a + of_nat k + of_nat i) = tr (a + of_nat k + of_nat j)"
  then have "k + i = k + j"
    using assms unfolding block_def by (metis add.assoc nat_add_left_cancel_less of_nat_add)
  then show "i = j" by simp
next
  fix i assume "i < n"
  then show "tr (a + of_nat k + of_nat i) \<noteq> None"
    using assms unfolding block_def by (metis add.assoc nat_add_left_cancel_less of_nat_add)
qed

lemma apart_mono: "apart tr a n b k \<Longrightarrow> n' \<le> n \<Longrightarrow> k' \<le> k \<Longrightarrow> apart tr a n' b k'"
  unfolding apart_def by (meson less_le_trans)

lemma apart_off:
  assumes "apart tr a (k + n) b (l + m)"
  shows "apart tr (a + of_nat k) n (b + of_nat l) m"
  unfolding apart_def
proof (intro allI impI)
  fix i j assume "i < n" "j < m"
  then have "k + i < k + n" "l + j < l + m" by simp_all
  then have "tr (a + of_nat (k + i)) \<noteq> tr (b + of_nat (l + j))"
    using assms unfolding apart_def by blast
  then show "tr (a + of_nat k + of_nat i) \<noteq> tr (b + of_nat l + of_nat j)"
    by (simp add: add.assoc)
qed

lemma apartD: "apart tr a n b k \<Longrightarrow> i < n \<Longrightarrow> j < k \<Longrightarrow> tr (a + of_nat i) \<noteq> tr (b + of_nat j)"
  by (simp add: apart_def)

lemma apart_headD: "apart tr a n b k \<Longrightarrow> 0 < n \<Longrightarrow> j < k \<Longrightarrow> tr a \<noteq> tr (b + of_nat j)"
  using apartD [of tr a n b k 0 j] by simp

lemma apart_sym: "apart tr a n b k \<Longrightarrow> apart tr b k a n"
  unfolding apart_def by metis

lemma load_store_list_same:
  assumes "block tr a (length vs)"
  shows "load_list (ld tr) (store_list (st tr) p a vs) a (length vs) = vs"
proof (rule nth_equalityI)
  fix i assume "i < length (load_list (ld tr) (store_list (st tr) p a vs) a (length vs))"
  then have i: "i < length vs" by simp
  have "ld tr (store_list (st tr) p a vs) (a + of_nat i) = vs ! i"
    using assms i by (intro mmu.rd_store_list_in) (auto simp: block_def)
  then show "load_list (ld tr) (store_list (st tr) p a vs) a (length vs) ! i = vs ! i"
    using i by simp
qed simp

lemma load_store_list_apart:
  assumes "apart tr a (length vs) b n"
  shows "load_list (ld tr) (store_list (st tr) p a vs) b n = load_list (ld tr) p b n"
proof (rule nth_equalityI)
  fix i assume "i < length (load_list (ld tr) (store_list (st tr) p a vs) b n)"
  then have i: "i < n" by simp
  have "ld tr (store_list (st tr) p a vs) (b + of_nat i) = ld tr p (b + of_nat i)"
    using assms i by (intro mmu.rd_store_list_frame) (auto simp: apart_def)
  then show "load_list (ld tr) (store_list (st tr) p a vs) b n ! i = load_list (ld tr) p b n ! i"
    using i by simp
qed simp

section \<open>Little-endian words\<close>

text \<open>Byte \<open>i\<close> of a 32-bit word, and the word stored at an address.\<close>

definition byte_of :: "u32 \<Rightarrow> nat \<Rightarrow> u8" where
  "byte_of w i = ucast (drop_bit (8 * i) w)"

definition word_of_bytes :: "u8 \<Rightarrow> u8 \<Rightarrow> u8 \<Rightarrow> u8 \<Rightarrow> u32" where
  "word_of_bytes b0 b1 b2 b3 =
     ucast b0 OR push_bit 8 (ucast b1) OR push_bit 16 (ucast b2) OR push_bit 24 (ucast b3)"

definition ld32 :: "xlate \<Rightarrow> pmem \<Rightarrow> u32 \<Rightarrow> u32" where
  "ld32 tr p a = word_of_bytes (ld tr p a) (ld tr p (a + 1)) (ld tr p (a + 2)) (ld tr p (a + 3))"

definition st32 :: "xlate \<Rightarrow> pmem \<Rightarrow> u32 \<Rightarrow> u32 \<Rightarrow> pmem" where
  "st32 tr p a w = store_list (st tr) p a [byte_of w 0, byte_of w 1, byte_of w 2, byte_of w 3]"

lemma byte_of_word_of_bytes [simp]:
  "byte_of (word_of_bytes b0 b1 b2 b3) 0 = b0"
  "byte_of (word_of_bytes b0 b1 b2 b3) (Suc 0) = b1"
  "byte_of (word_of_bytes b0 b1 b2 b3) 2 = b2"
  "byte_of (word_of_bytes b0 b1 b2 b3) 3 = b3"
  unfolding byte_of_def word_of_bytes_def
  by (rule bit_word_eqI;
      auto simp: bit_simps dest: bit_imp_le_length)+

lemma st32_ld32:
  "st32 tr p d (ld32 tr q s) = store_list (st tr) p d (load_list (ld tr) q s 4)"
  by (simp add: st32_def ld32_def load_list_def upt_rec)

lemma word_of_byte_of [simp]:
  "word_of_bytes (byte_of w 0) (byte_of w (Suc 0)) (byte_of w 2) (byte_of w 3) = w"
proof (rule bit_word_eqI)
  fix n assume "n < LENGTH(32)"
  then consider "n < 8" | "8 \<le> n" "n < 16" | "16 \<le> n" "n < 24" | "24 \<le> n" "n < 32" by force
  then show "bit (word_of_bytes (byte_of w 0) (byte_of w (Suc 0)) (byte_of w 2) (byte_of w 3)) n = bit w n"
    by cases (auto simp: word_of_bytes_def byte_of_def bit_simps)
qed

lemma ld32_st32:
  assumes "block tr a 4"
  shows "ld32 tr (st32 tr p a w) a = w"
proof -
  have "load_list (ld tr) (st32 tr p a w) a 4 = [byte_of w 0, byte_of w (Suc 0), byte_of w 2, byte_of w 3]"
    using load_store_list_same [of tr a "[byte_of w 0, byte_of w (Suc 0), byte_of w 2, byte_of w 3]" p] assms
    by (simp add: st32_def numeral_eq_Suc)
  then show ?thesis by (simp add: ld32_def load_list_def upt_rec)
qed

end
