(* ===== verification/CLib.thy ===== *)
theory CLib
  imports ByteMemory
begin

text \<open>
  The string and memory routines of \<^verbatim>\<open>student-distrib/lib.c\<close>: the block routines written in
  inline assembly (\<^verbatim>\<open>memset\<close>, \<^verbatim>\<open>memset_word\<close>, \<^verbatim>\<open>memset_dword\<close>, \<^verbatim>\<open>memcpy\<close>, \<^verbatim>\<open>memmove\<close>),
  modelled instruction by instruction on the registers \<^verbatim>\<open>edi\<close>, \<^verbatim>\<open>esi\<close>, \<^verbatim>\<open>ecx\<close> and \<^verbatim>\<open>edx\<close>,
  and the string routines as their C loops. A loop that stops only at a zero byte is a
  \<^verbatim>\<open>partial_function\<close>: the value \<open>None\<close> means that it does not return.
\<close>

section \<open>memset and its wide variants\<close>

text \<open>\<^verbatim>\<open>rep stosl\<close>, \<^verbatim>\<open>rep stosw\<close>: store \<^verbatim>\<open>eax\<close> (\<^verbatim>\<open>ax\<close>) at \<^verbatim>\<open>edi\<close> and advance, \<^verbatim>\<open>ecx\<close> times.\<close>

fun rep_stosl :: "xlate \<Rightarrow> pmem \<Rightarrow> u32 \<Rightarrow> u32 \<Rightarrow> nat \<Rightarrow> pmem \<times> u32" where
  "rep_stosl tr p eax edi 0 = (p, edi)"
| "rep_stosl tr p eax edi (Suc n) = rep_stosl tr (st32 tr p edi eax) eax (edi + 4) n"

fun rep_stosw :: "xlate \<Rightarrow> pmem \<Rightarrow> u32 \<Rightarrow> u32 \<Rightarrow> nat \<Rightarrow> pmem \<times> u32" where
  "rep_stosw tr p eax edi 0 = (p, edi)"
| "rep_stosw tr p eax edi (Suc n) =
     rep_stosw tr (store_list (st tr) p edi [byte_of eax 0, byte_of eax 1]) eax (edi + 2) n"

text \<open>The loop \<^verbatim>\<open>.memset_bottom\<close>: the bytes left over after the double words.\<close>

fun memset_bottom :: "xlate \<Rightarrow> pmem \<Rightarrow> u8 \<Rightarrow> u32 \<Rightarrow> nat \<Rightarrow> pmem" where
  "memset_bottom tr p al edi 0 = p"
| "memset_bottom tr p al edi (Suc edx) = memset_bottom tr (st tr p edi al) al (edi + 1) edx"

text \<open>
  The loop \<^verbatim>\<open>.memset_top\<close>: bytes until \<^verbatim>\<open>edi\<close> is a multiple of four, then \<^verbatim>\<open>ecx >> 2\<close>
  double words, then \<^verbatim>\<open>ecx & 3\<close> bytes.
\<close>

function memset_top :: "xlate \<Rightarrow> pmem \<Rightarrow> u32 \<Rightarrow> u32 \<Rightarrow> u32 \<Rightarrow> pmem" where
  "memset_top tr p eax edi ecx =
     (if ecx = 0 then p
      else if edi AND 3 = 0 then
        (let edx = ecx AND 3; (p', edi') = rep_stosl tr p eax edi (unat (drop_bit 2 ecx))
         in memset_bottom tr p' (ucast eax) edi' (unat edx))
      else memset_top tr (st tr p edi (ucast eax)) eax (edi + 1) (ecx - 1))"
  by pat_completeness auto
termination
  by (relation "measure (\<lambda>(tr, p, eax, edi, ecx). unat ecx)")
     (auto simp: unat_minus_one_u32 unat_pos_u32)

declare memset_top.simps [simp del]

definition memset_p :: "xlate \<Rightarrow> pmem \<Rightarrow> u32 \<Rightarrow> u32 \<Rightarrow> u32 \<Rightarrow> pmem" where
  "memset_p tr p s c n =
     (let c = c AND 0xFF
      in memset_top tr p (push_bit 24 c OR push_bit 16 c OR push_bit 8 c OR c) s n)"

definition memset_word_p :: "xlate \<Rightarrow> pmem \<Rightarrow> u32 \<Rightarrow> u32 \<Rightarrow> u32 \<Rightarrow> pmem" where
  "memset_word_p tr p s c n = fst (rep_stosw tr p c s (unat n))"

definition memset_dword_p :: "xlate \<Rightarrow> pmem \<Rightarrow> u32 \<Rightarrow> u32 \<Rightarrow> u32 \<Rightarrow> pmem" where
  "memset_dword_p tr p s c n = fst (rep_stosl tr p c s (unat n))"

section \<open>memcpy and memmove\<close>

text \<open>\<^verbatim>\<open>rep movsl\<close> with the direction flag clear.\<close>

fun rep_movsl :: "xlate \<Rightarrow> pmem \<Rightarrow> u32 \<Rightarrow> u32 \<Rightarrow> nat \<Rightarrow> pmem \<times> u32 \<times> u32" where
  "rep_movsl tr p edi esi 0 = (p, edi, esi)"
| "rep_movsl tr p edi esi (Suc n) =
     rep_movsl tr (st32 tr p edi (ld32 tr p esi)) (edi + 4) (esi + 4) n"

fun memcpy_bottom :: "xlate \<Rightarrow> pmem \<Rightarrow> u32 \<Rightarrow> u32 \<Rightarrow> nat \<Rightarrow> pmem" where
  "memcpy_bottom tr p edi esi 0 = p"
| "memcpy_bottom tr p edi esi (Suc edx) =
     memcpy_bottom tr (st tr p edi (ld tr p esi)) (edi + 1) (esi + 1) edx"

function memcpy_top :: "xlate \<Rightarrow> pmem \<Rightarrow> u32 \<Rightarrow> u32 \<Rightarrow> u32 \<Rightarrow> pmem" where
  "memcpy_top tr p edi esi ecx =
     (if ecx = 0 then p
      else if edi AND 3 = 0 then
        (let edx = ecx AND 3; (p', edi', esi') = rep_movsl tr p edi esi (unat (drop_bit 2 ecx))
         in memcpy_bottom tr p' edi' esi' (unat edx))
      else memcpy_top tr (st tr p edi (ld tr p esi)) (edi + 1) (esi + 1) (ecx - 1))"
  by pat_completeness auto
termination
  by (relation "measure (\<lambda>(tr, p, edi, esi, ecx). unat ecx)")
     (auto simp: unat_minus_one_u32 unat_pos_u32)

declare memcpy_top.simps [simp del]

definition memcpy_p :: "xlate \<Rightarrow> pmem \<Rightarrow> u32 \<Rightarrow> u32 \<Rightarrow> u32 \<Rightarrow> pmem" where
  "memcpy_p tr p dest src n = memcpy_top tr p dest src n"

text \<open>\<^verbatim>\<open>rep movsb\<close> upwards (direction flag clear) and downwards (set).\<close>

fun rep_movsb_up :: "xlate \<Rightarrow> pmem \<Rightarrow> u32 \<Rightarrow> u32 \<Rightarrow> nat \<Rightarrow> pmem" where
  "rep_movsb_up tr p edi esi 0 = p"
| "rep_movsb_up tr p edi esi (Suc n) =
     rep_movsb_up tr (st tr p edi (ld tr p esi)) (edi + 1) (esi + 1) n"

fun rep_movsb_down :: "xlate \<Rightarrow> pmem \<Rightarrow> u32 \<Rightarrow> u32 \<Rightarrow> nat \<Rightarrow> pmem" where
  "rep_movsb_down tr p edi esi 0 = p"
| "rep_movsb_down tr p edi esi (Suc n) =
     rep_movsb_down tr (st tr p edi (ld tr p esi)) (edi - 1) (esi - 1) n"

definition memmove_p :: "xlate \<Rightarrow> pmem \<Rightarrow> u32 \<Rightarrow> u32 \<Rightarrow> u32 \<Rightarrow> pmem" where
  "memmove_p tr p dest src n =
     (if src \<ge> dest then rep_movsb_up tr p dest src (unat n)
      else rep_movsb_down tr p (dest + n - 1) (src + n - 1) (unat n))"

section \<open>memset fills\<close>

lemma memset_bottom_eq:
  "memset_bottom tr p al edi n = store_list (st tr) p edi (replicate n al)"
  by (induction n arbitrary: p edi) simp_all

lemma rep_stosl_eq:
  assumes "\<And>i. i < 4 \<Longrightarrow> byte_of eax i = v"
  shows "rep_stosl tr p eax edi n =
    (store_list (st tr) p edi (replicate (4 * n) v), edi + of_nat (4 * n))"
proof (induction n arbitrary: p edi)
  case 0
  then show ?case by simp
next
  case (Suc n)
  have "replicate (4 * Suc n) v = [v, v, v, v] @ replicate (4 * n) v"
    by (simp add: numeral_eq_Suc)
  then show ?case
    using assms [of 0] assms [of 1] assms [of 2] assms [of 3]
    by (simp add: Suc.IH st32_def store_list_append algebra_simps del: replicate.simps)
qed

lemma unat_split4: "unat (ecx :: u32) = 4 * unat (drop_bit 2 ecx) + unat (ecx AND 3)"
proof -
  have "ecx AND 3 = take_bit 2 ecx"
    by (simp add: take_bit_eq_mask mask_numeral)
  then show ?thesis
    by (simp add: drop_bit_eq_div take_bit_eq_mod unat_div_distrib unat_mod_distrib)
qed

lemma memset_top_eq:
  assumes "\<And>i. i < 4 \<Longrightarrow> byte_of eax i = v"
  shows "memset_top tr p eax edi ecx = store_list (st tr) p edi (replicate (unat ecx) v)"
  using assms
proof (induction tr p eax edi ecx rule: memset_top.induct)
  case (1 tr p eax edi ecx)
  have al: "ucast eax = v"
    using "1.prems" [of 0] by (simp add: byte_of_def)
  consider "ecx = 0" | "ecx \<noteq> 0" "edi AND 3 = 0" | "ecx \<noteq> 0" "edi AND 3 \<noteq> 0" by blast
  then show ?case
  proof cases
    case 1
    then show ?thesis by (simp add: memset_top.simps)
  next
    case 2
    then show ?thesis
      using rep_stosl_eq [OF "1.prems", of tr p edi "unat (drop_bit 2 ecx)"] al
      by (simp add: memset_top.simps [of tr p eax edi ecx] memset_bottom_eq
          unat_split4 [of ecx] replicate_add store_list_append)
  next
    case 3
    then obtain k where k: "unat ecx = Suc k"
      using unat_pos_u32 [of ecx] gr0_implies_Suc by blast
    with 3 have "unat (ecx - 1) = k" by (simp add: unat_minus_one_u32)
    then show ?thesis
      using 3 "1.IH" "1.prems" al k by (simp add: memset_top.simps [of tr p eax edi ecx])
  qed
qed

lemma byte_of_splat:
  assumes "i < 4"
  shows "byte_of (push_bit 24 (c AND 0xFF) OR push_bit 16 (c AND 0xFF) OR
           push_bit 8 (c AND 0xFF) OR c AND 0xFF) i = ucast c"
proof -
  have ff: "c AND 0xFF = take_bit 8 c"
    by (simp add: take_bit_eq_mask mask_numeral)
  have i: "8 * i \<le> 24" "\<And>n. n < 8 \<Longrightarrow> 8 * i + n < 32" using assms by simp_all
  show ?thesis
    unfolding byte_of_def ff
  proof (rule bit_word_eqI)
    fix n assume "n < LENGTH(8)"
    then have n: "n < 8" by simp
    consider "i = 0" | "i = 1" | "i = 2" | "i = 3" using assms by linarith
    then show "bit (ucast (drop_bit (8 * i) (push_bit 24 (take_bit 8 c) OR
        push_bit 16 (take_bit 8 c) OR push_bit 8 (take_bit 8 c) OR take_bit 8 c)) :: u8) n =
        bit (ucast c :: u8) n"
      by cases (insert n, simp_all add: bit_simps)
  qed
qed

lemma memset_p_eq:
  "memset_p tr p s c n = store_list (st tr) p s (replicate (unat n) (ucast c))"
  unfolding memset_p_def Let_def
  by (rule memset_top_eq) (rule byte_of_splat)

lemma memset_dword_p_eq:
  "memset_dword_p tr p s c n = store_list (st tr) p s
     (concat (replicate (unat n) [byte_of c 0, byte_of c 1, byte_of c 2, byte_of c 3]))"
proof -
  have "fst (rep_stosl tr p c s k) = store_list (st tr) p s
     (concat (replicate k [byte_of c 0, byte_of c 1, byte_of c 2, byte_of c 3]))" for k
    by (induction k arbitrary: p s) (simp_all add: st32_def algebra_simps)
  then show ?thesis by (simp add: memset_dword_p_def)
qed

lemma memset_word_p_eq:
  "memset_word_p tr p s c n = store_list (st tr) p s
     (concat (replicate (unat n) [byte_of c 0, byte_of c 1]))"
proof -
  have "fst (rep_stosw tr p c s k) = store_list (st tr) p s
     (concat (replicate k [byte_of c 0, byte_of c 1]))" for k
    by (induction k arbitrary: p s) (simp_all add: algebra_simps)
  then show ?thesis by (simp add: memset_word_p_def)
qed

section \<open>memcpy copies disjoint ranges\<close>

text \<open>The reference copy: read the whole source, then store it.\<close>

definition copy_p :: "xlate \<Rightarrow> pmem \<Rightarrow> u32 \<Rightarrow> u32 \<Rightarrow> nat \<Rightarrow> pmem" where
  "copy_p tr p d s n = store_list (st tr) p d (load_list (ld tr) p s n)"

lemma copy_p_0 [simp]: "copy_p tr p d s 0 = p"
  by (simp add: copy_p_def)

lemma copy_p_append:
  assumes "apart tr d (a + b) s (a + b)"
  shows "copy_p tr (copy_p tr p d s a) (d + of_nat a) (s + of_nat a) b = copy_p tr p d s (a + b)"
proof -
  have "apart tr d a (s + of_nat a) b"
    using apart_off [of tr d 0 "a + b" s a b] assms
    by (auto elim: apart_mono)
  then have "load_list (ld tr) (copy_p tr p d s a) (s + of_nat a) b =
      load_list (ld tr) p (s + of_nat a) b"
    unfolding copy_p_def by (intro load_store_list_apart) simp
  then show ?thesis
    by (simp add: copy_p_def load_list_add store_list_append)
qed

lemma apart_take:
  assumes "apart tr d (a + n) s (a + n)"
  shows "apart tr (d + of_nat a) n (s + of_nat a) n"
  using apart_off [of tr d a n s a n] assms by simp

lemma copy_p_1: "copy_p tr p d s (Suc 0) = st tr p d (ld tr p s)"
  by (simp add: copy_p_def load_list_def)

lemma copy_p_4: "copy_p tr p d s 4 = st32 tr p d (ld32 tr p s)"
  by (simp add: copy_p_def st32_ld32)

lemma memcpy_bottom_eq:
  assumes "apart tr d n s n"
  shows "memcpy_bottom tr p d s n = copy_p tr p d s n"
  using assms
proof (induction n arbitrary: p d s)
  case 0
  then show ?case by simp
next
  case (Suc n)
  have ap: "apart tr d (1 + n) s (1 + n)" using Suc.prems by simp
  show ?case
    using Suc.IH [OF apart_take [OF ap], of "copy_p tr p d s 1"] copy_p_append [OF ap, of p]
    by (simp add: copy_p_1)
qed

lemma rep_movsl_eq:
  assumes "apart tr d (4 * n) s (4 * n)"
  shows "rep_movsl tr p d s n = (copy_p tr p d s (4 * n), d + of_nat (4 * n), s + of_nat (4 * n))"
  using assms
proof (induction n arbitrary: p d s)
  case 0
  then show ?case by simp
next
  case (Suc n)
  have ap: "apart tr d (4 + 4 * n) s (4 + 4 * n)" using Suc.prems by simp
  show ?case
    using Suc.IH [OF apart_take [OF ap], of "copy_p tr p d s 4"] copy_p_append [OF ap, of p]
    by (simp add: copy_p_4 algebra_simps)
qed

lemma memcpy_top_eq:
  assumes "apart tr d (unat n) s (unat n)"
  shows "memcpy_top tr p d s n = copy_p tr p d s (unat n)"
  using assms
proof (induction tr p d s n rule: memcpy_top.induct)
  case (1 tr p edi esi ecx)
  consider "ecx = 0" | "ecx \<noteq> 0" "edi AND 3 = 0" | "ecx \<noteq> 0" "edi AND 3 \<noteq> 0" by blast
  then show ?case
  proof cases
    case 1
    then show ?thesis by (simp add: memcpy_top.simps)
  next
    case 2
    let ?q = "unat (drop_bit 2 ecx)" and ?r = "unat (ecx AND 3)"
    have ap: "apart tr edi (4 * ?q + ?r) esi (4 * ?q + ?r)"
      using "1.prems" by (simp only: unat_split4 [of ecx])
    have ap1: "apart tr edi (4 * ?q) esi (4 * ?q)"
      using ap by (rule apart_mono) simp_all
    show ?thesis
      using 2 rep_movsl_eq [OF ap1, of p] memcpy_bottom_eq [OF apart_take [OF ap]]
        copy_p_append [OF ap, of p]
      by (simp add: memcpy_top.simps [of tr p edi esi ecx] unat_split4 [of ecx])
  next
    case 3
    then obtain k where k: "unat ecx = 1 + k"
      using unat_pos_u32 [of ecx] gr0_implies_Suc by fastforce
    with 3 have "unat (ecx - 1) = k" by (simp add: unat_minus_one_u32)
    moreover have ap: "apart tr edi (1 + k) esi (1 + k)"
      using "1.prems" k by simp
    ultimately show ?thesis
      using 3 "1.IH" apart_take [OF ap] copy_p_append [OF ap, of p] k
      by (simp add: memcpy_top.simps [of tr p edi esi ecx] copy_p_1)
  qed
qed

lemma memcpy_p_eq:
  assumes "apart tr d (unat n) s (unat n)"
  shows "memcpy_p tr p d s n = copy_p tr p d s (unat n)"
  using memcpy_top_eq [OF assms] by (simp add: memcpy_p_def)

section \<open>memmove copies overlapping ranges\<close>

text \<open>The bytes of a range that does not wrap around the address space.\<close>

definition span :: "u32 \<Rightarrow> nat \<Rightarrow> u32 set" where
  "span a n = (\<lambda>i. a + of_nat i) ` {..<n}"

definition own_cells :: "xlate \<Rightarrow> u32 set \<Rightarrow> bool" where
  "own_cells tr A \<longleftrightarrow> inj_on tr A \<and> None \<notin> tr ` A"

lemma unat_off:
  assumes "unat (a :: u32) + i < 2 ^ 32"
  shows "unat (a + of_nat i) = unat a + i"
  using assms by (simp add: unat_word_ariths take_bit_nat_eq_self unat_of_nat)

lemma span_mem [simp]: "i < n \<Longrightarrow> a + of_nat i \<in> span a n"
  by (simp add: span_def)

lemma span_Suc_low: "span a (Suc n) = insert a (span (a + 1) n)"
proof -
  have "{..<Suc n} = insert 0 (Suc ` {..<n})" by (auto simp: lessThan_Suc_eq_insert_0)
  then show ?thesis by (simp add: span_def image_image algebra_simps)
qed

lemma span_Suc_high: "span a (Suc n) = insert (a + of_nat n) (span a n)"
  by (simp add: span_def lessThan_Suc)

lemma rep_movsb_up_correct:
  assumes "own_cells tr (span d n \<union> span s n)"
    and "unat d \<le> unat s" and "unat s + n \<le> 2 ^ 32"
  shows "(\<forall>i<n. ld tr (rep_movsb_up tr p d s n) (d + of_nat i) = ld tr p (s + of_nat i)) \<and>
         (\<forall>b. (\<forall>x \<in> span d n. tr x \<noteq> tr b) \<longrightarrow> ld tr (rep_movsb_up tr p d s n) b = ld tr p b)"
  using assms
proof (induction n arbitrary: p d s)
  case 0
  then show ?case by simp
next
  case (Suc n)
  let ?p1 = "st tr p d (ld tr p s)"
  have le: "unat d + Suc n \<le> 2 ^ 32" "unat s + Suc n \<le> 2 ^ 32" using Suc.prems by simp_all
  have mem: "span (d + 1) n \<subseteq> span d (Suc n)" "span (s + 1) n \<subseteq> span s (Suc n)"
    "d \<in> span d (Suc n)" by (auto simp: span_Suc_low)
  have own: "own_cells tr (span (d + 1) n \<union> span (s + 1) n)"
    using Suc.prems(1) mem by (auto simp: own_cells_def intro: inj_on_subset)
  show ?case
  proof (cases "n = 0")
    case True
    have "tr d \<noteq> None" using Suc.prems(1) mem(3) by (metis UnI1 imageI own_cells_def)
    then show ?thesis using True by (auto simp: ld_st span_Suc_low span_def)
  next
    case False
    then have wrap: "unat (d + 1) = unat d + 1" "unat (s + 1) = unat s + 1"
      using le unat_off [of d 1] unat_off [of s 1] by simp_all
    have IH: "(\<forall>i<n. ld tr (rep_movsb_up tr ?p1 (d + 1) (s + 1) n) (d + 1 + of_nat i) =
          ld tr ?p1 (s + 1 + of_nat i)) \<and>
        (\<forall>b. (\<forall>x \<in> span (d + 1) n. tr x \<noteq> tr b) \<longrightarrow>
          ld tr (rep_movsb_up tr ?p1 (d + 1) (s + 1) n) b = ld tr ?p1 b)"
      using Suc.IH [OF own] wrap Suc.prems by simp
    have ne: "d \<noteq> s + of_nat (Suc i)" if "i < n" for i
      using unat_off [of s "Suc i"] le that Suc.prems(2) by auto
    have keep: "ld tr ?p1 (s + of_nat (Suc i)) = ld tr p (s + of_nat (Suc i))" if "i < n" for i
      using ne [OF that] Suc.prems(1) mem span_mem [of "Suc i" "Suc n" s] that
      by (auto simp: ld_st own_cells_def simp del: of_nat_Suc dest: inj_onD)
    have d_out: "tr x \<noteq> tr d" if x: "x \<in> span (d + 1) n" for x
    proof -
      obtain i where i: "i < n" "x = d + 1 + of_nat i"
        using x by (auto simp: span_def)
      then have "x = d + of_nat (Suc i)" by (simp add: algebra_simps)
      then have "unat x \<noteq> unat d" using i unat_off [of d "Suc i"] le by (simp add: add.assoc)
      then have "x \<noteq> d" by blast
      then show ?thesis
        using Suc.prems(1) x mem by (auto simp: own_cells_def dest: inj_onD)
    qed
    have "tr d \<noteq> None" using Suc.prems(1) mem(3) by (metis UnI1 imageI own_cells_def)
    then have first: "ld tr (rep_movsb_up tr ?p1 (d + 1) (s + 1) n) d = ld tr p s"
      using IH d_out by (simp add: ld_st)
    show ?thesis
    proof (intro conjI allI impI)
      fix i assume "i < Suc n"
      then show "ld tr (rep_movsb_up tr p d s (Suc n)) (d + of_nat i) = ld tr p (s + of_nat i)"
        using IH keep first by (cases i) (auto simp: algebra_simps)
    next
      fix b assume "\<forall>x \<in> span d (Suc n). tr x \<noteq> tr b"
      then show "ld tr (rep_movsb_up tr p d s (Suc n)) b = ld tr p b"
        using IH by (simp add: span_Suc_low ld_st)
    qed
  qed
qed

lemma rep_movsb_down_correct:
  assumes "own_cells tr (span d n \<union> span s n)"
    and "unat s < unat d" and "unat d + n \<le> 2 ^ 32"
  shows "(\<forall>i<n. ld tr (rep_movsb_down tr p (d + of_nat n - 1) (s + of_nat n - 1) n)
            (d + of_nat i) = ld tr p (s + of_nat i)) \<and>
         (\<forall>b. (\<forall>x \<in> span d n. tr x \<noteq> tr b) \<longrightarrow>
            ld tr (rep_movsb_down tr p (d + of_nat n - 1) (s + of_nat n - 1) n) b = ld tr p b)"
  using assms
proof (induction n arbitrary: p)
  case 0
  then show ?case by simp
next
  case (Suc n)
  let ?e = "d + of_nat n" and ?f = "s + of_nat n"
  let ?p1 = "st tr p ?e (ld tr p ?f)"
  let ?q = "rep_movsb_down tr ?p1 (?e - 1) (?f - 1) n"
  have mem: "span d n \<subseteq> span d (Suc n)" "span s n \<subseteq> span s (Suc n)" "?e \<in> span d (Suc n)"
    by (auto simp: span_Suc_high)
  have own: "own_cells tr (span d n \<union> span s n)"
    using Suc.prems(1) mem by (auto simp: own_cells_def intro: inj_on_subset)
  have unf: "rep_movsb_down tr p (d + of_nat (Suc n) - 1) (s + of_nat (Suc n) - 1) (Suc n) = ?q"
    by simp
  have IH: "(\<forall>i<n. ld tr ?q (d + of_nat i) = ld tr ?p1 (s + of_nat i)) \<and>
      (\<forall>b. (\<forall>x \<in> span d n. tr x \<noteq> tr b) \<longrightarrow> ld tr ?q b = ld tr ?p1 b)"
    using Suc.IH [OF own] Suc.prems by simp
  have ne: "?e \<noteq> s + of_nat i" if "i < n" for i
    using unat_off [of s i] unat_off [of d n] that Suc.prems by auto
  have keep: "ld tr ?p1 (s + of_nat i) = ld tr p (s + of_nat i)" if "i < n" for i
    using ne [OF that] Suc.prems(1) mem span_mem [of i n s] that
    by (auto simp: ld_st own_cells_def dest: inj_onD)
  have e_out: "tr x \<noteq> tr ?e" if x: "x \<in> span d n" for x
  proof -
    obtain i where "i < n" "x = d + of_nat i" using x by (auto simp: span_def)
    then have "unat x \<noteq> unat ?e" using unat_off [of d i] unat_off [of d n] Suc.prems by simp
    then have "x \<noteq> ?e" by blast
    then show ?thesis using Suc.prems(1) x mem by (auto simp: own_cells_def dest: inj_onD)
  qed
  have "tr ?e \<noteq> None" using Suc.prems(1) mem(3) by (metis UnI1 imageI own_cells_def)
  then have last: "ld tr ?q ?e = ld tr p ?f"
    using IH e_out by (simp add: ld_st)
  show ?case
    unfolding unf
  proof (intro conjI allI impI)
    fix i assume "i < Suc n"
    then show "ld tr ?q (d + of_nat i) = ld tr p (s + of_nat i)"
      using IH keep last by (cases "i = n") auto
  next
    fix b assume "\<forall>x \<in> span d (Suc n). tr x \<noteq> tr b"
    then show "ld tr ?q b = ld tr p b"
      using IH by (simp add: span_Suc_high ld_st)
  qed
qed

lemma memmove_p_correct:
  assumes "own_cells tr (span d (unat n) \<union> span s (unat n))"
    and "unat d + unat n \<le> 2 ^ 32" and "unat s + unat n \<le> 2 ^ 32"
  shows "load_list (ld tr) (memmove_p tr p d s n) d (unat n) = load_list (ld tr) p s (unat n)"
    and "(\<forall>x \<in> span d (unat n). tr x \<noteq> tr b) \<Longrightarrow> ld tr (memmove_p tr p d s n) b = ld tr p b"
proof -
  have n: "(of_nat (unat n) :: u32) = n" by simp
  have "(\<forall>i<unat n. ld tr (memmove_p tr p d s n) (d + of_nat i) = ld tr p (s + of_nat i)) \<and>
     (\<forall>b. (\<forall>x \<in> span d (unat n). tr x \<noteq> tr b) \<longrightarrow> ld tr (memmove_p tr p d s n) b = ld tr p b)"
  proof (cases "s \<ge> d")
    case True
    then show ?thesis
      using rep_movsb_up_correct [OF assms(1) _ assms(3)]
      by (simp add: memmove_p_def word_le_nat_alt)
  next
    case False
    then show ?thesis
      using rep_movsb_down_correct [OF assms(1) _ assms(2), of p]
      by (simp add: memmove_p_def word_le_nat_alt n)
  qed
  then show "load_list (ld tr) (memmove_p tr p d s n) d (unat n) = load_list (ld tr) p s (unat n)"
    and "(\<forall>x \<in> span d (unat n). tr x \<noteq> tr b) \<Longrightarrow> ld tr (memmove_p tr p d s n) b = ld tr p b"
    by (auto intro!: nth_equalityI)
qed

end
