(* ===== verification/CString.thy ===== *)
theory CString
  imports CLib
begin

text \<open>
  The string routines of \<^verbatim>\<open>student-distrib/lib.c\<close>: \<^verbatim>\<open>strlen\<close>, \<^verbatim>\<open>strncmp\<close>, \<^verbatim>\<open>strcpy\<close>,
  \<^verbatim>\<open>strncpy\<close>, \<^verbatim>\<open>strrev\<close> and \<^verbatim>\<open>itoa\<close>, over the byte memory. \<^verbatim>\<open>char\<close> is signed, so a
  difference of characters is taken on the signed values.
\<close>

section \<open>Zero-terminated strings\<close>

text \<open>\<open>cstring f s cs\<close>: the bytes \<open>cs\<close>, none of them zero, and then a zero, stand at \<open>s\<close>.\<close>

definition cstring :: "(u32 \<Rightarrow> u8) \<Rightarrow> u32 \<Rightarrow> u8 list \<Rightarrow> bool" where
  "cstring f s cs \<longleftrightarrow> length cs < 2 ^ 32 \<and> 0 \<notin> set cs \<and>
     (\<forall>i<length cs. f (s + of_nat i) = cs ! i) \<and> f (s + of_nat (length cs)) = 0"

lemma cstring_Nil [simp]: "cstring f s [] \<longleftrightarrow> f s = 0"
  by (simp add: cstring_def)

lemma cstringD:
  assumes "cstring f s cs"
  shows "length cs < 2 ^ 32" "0 \<notin> set cs" "f (s + of_nat (length cs)) = 0"
    and "i < length cs \<Longrightarrow> f (s + of_nat i) = cs ! i"
    and "i < length cs \<Longrightarrow> f (s + of_nat i) \<noteq> 0"
  using assms by (auto simp: cstring_def dest: nth_mem)

lemma cstring_cong:
  assumes "\<And>k. k \<le> length cs \<Longrightarrow> f (s + of_nat k) = g (s + of_nat k)"
  shows "cstring f s cs \<longleftrightarrow> cstring g s cs"
  using assms by (auto simp: cstring_def)

lemma cstring_Cons:
  assumes "cstring f s (c # cs)"
  shows "f s = c" "c \<noteq> 0" "cstring f (s + 1) cs"
proof -
  have "f (s + 1 + of_nat i) = cs ! i" if "i < length cs" for i
    using cstringD(4) [OF assms, of "Suc i"] that by (simp add: algebra_simps)
  then show "f s = c" "c \<noteq> 0" "cstring f (s + 1) cs"
    using cstringD [OF assms] cstringD(4) [OF assms, of 0]
    by (auto simp: cstring_def algebra_simps)
qed

lemma cstring_Cons_iff:
  "cstring f s (c # cs) \<longleftrightarrow> length cs + 1 < 2 ^ 32 \<and> c \<noteq> 0 \<and> f s = c \<and> cstring f (s + 1) cs"
  by (auto simp: cstring_def All_less_Suc2 add.assoc)

lemma cstring_unique:
  assumes "cstring f s cs" "cstring f s ds"
  shows "cs = ds"
  using assms
proof (induction cs arbitrary: s ds)
  case Nil
  then show ?case by (cases ds) (auto dest: cstring_Cons)
next
  case (Cons c cs)
  then show ?case by (cases ds) (auto dest: cstring_Cons)
qed

section \<open>The routines\<close>

partial_function (option) strlen_from :: "(u32 \<Rightarrow> u8) \<Rightarrow> u32 \<Rightarrow> u32 \<Rightarrow> u32 option" where
  "strlen_from f s len = (if f (s + len) \<noteq> 0 then strlen_from f s (len + 1) else Some len)"

definition strlen_p :: "xlate \<Rightarrow> pmem \<Rightarrow> u32 \<Rightarrow> u32 option" where
  "strlen_p tr p s = strlen_from (ld tr p) s 0"

text \<open>The loop of \<^verbatim>\<open>strncmp\<close>; the index is compared with \<^verbatim>\<open>n\<close> as an unsigned number.\<close>

function strncmp_from :: "(u32 \<Rightarrow> u8) \<Rightarrow> u32 \<Rightarrow> u32 \<Rightarrow> u32 \<Rightarrow> u32 \<Rightarrow> int" where
  "strncmp_from f s1 s2 n i =
     (if i < n then
        (if f (s1 + i) \<noteq> f (s2 + i) \<or> f (s1 + i) = 0
         then sint (f (s1 + i)) - sint (f (s2 + i))
         else strncmp_from f s1 s2 n (i + 1))
      else 0)"
  by pat_completeness auto
termination
proof (relation "measure (\<lambda>(f, s1, s2, n, i). unat (n - i))", simp, clarsimp)
  fix n i :: u32 assume "i < n"
  then have "n - i \<noteq> 0" by simp
  then have "unat (n - i - 1) < unat (n - i)" using unat_pos_u32 unat_minus_one_u32 by fastforce
  then show "unat (n - (i + 1)) < unat (n - i)" by (simp add: algebra_simps)
qed

declare strncmp_from.simps [simp del]

definition strncmp_p :: "xlate \<Rightarrow> pmem \<Rightarrow> u32 \<Rightarrow> u32 \<Rightarrow> u32 \<Rightarrow> int" where
  "strncmp_p tr p s1 s2 n = strncmp_from (ld tr p) s1 s2 n 0"

partial_function (option) strcpy_from :: "xlate \<Rightarrow> pmem \<Rightarrow> u32 \<Rightarrow> u32 \<Rightarrow> u32 \<Rightarrow> pmem option" where
  "strcpy_from tr p dest src i =
     (if ld tr p (src + i) \<noteq> 0
      then strcpy_from tr (st tr p (dest + i) (ld tr p (src + i))) dest src (i + 1)
      else Some (st tr p (dest + i) 0))"

definition strcpy_p :: "xlate \<Rightarrow> pmem \<Rightarrow> u32 \<Rightarrow> u32 \<Rightarrow> pmem option" where
  "strcpy_p tr p dest src = strcpy_from tr p dest src 0"

text \<open>The two loops of \<^verbatim>\<open>strncpy\<close>: copy up to the zero or \<^verbatim>\<open>n\<close> bytes, then pad with zeroes.\<close>

function strncpy_copy :: "xlate \<Rightarrow> pmem \<Rightarrow> u32 \<Rightarrow> u32 \<Rightarrow> nat \<Rightarrow> nat \<Rightarrow> pmem \<times> nat" where
  "strncpy_copy tr p dest src n i =
     (if ld tr p (src + of_nat i) \<noteq> 0 \<and> i < n
      then strncpy_copy tr (st tr p (dest + of_nat i) (ld tr p (src + of_nat i))) dest src n (i + 1)
      else (p, i))"
  by pat_completeness auto
termination
  by (relation "measure (\<lambda>(tr, p, dest, src, n, i). n - i)") auto

declare strncpy_copy.simps [simp del]

function strncpy_pad :: "xlate \<Rightarrow> pmem \<Rightarrow> u32 \<Rightarrow> nat \<Rightarrow> nat \<Rightarrow> pmem" where
  "strncpy_pad tr p dest n i =
     (if i < n then strncpy_pad tr (st tr p (dest + of_nat i) 0) dest n (i + 1) else p)"
  by pat_completeness auto
termination
  by (relation "measure (\<lambda>(tr, p, dest, n, i). n - i)") auto

declare strncpy_pad.simps [simp del]

definition strncpy_p :: "xlate \<Rightarrow> pmem \<Rightarrow> u32 \<Rightarrow> u32 \<Rightarrow> u32 \<Rightarrow> pmem" where
  "strncpy_p tr p dest src n =
     (let (p', i) = strncpy_copy tr p dest src (unat n) 0
      in strncpy_pad tr p' dest (unat n) i)"

function strrev_loop :: "xlate \<Rightarrow> pmem \<Rightarrow> u32 \<Rightarrow> int \<Rightarrow> int \<Rightarrow> pmem" where
  "strrev_loop tr p s beg end' =
     (if beg < end' then
        (let tmp = ld tr p (s + word_of_int end');
             p1 = st tr p (s + word_of_int end') (ld tr p (s + word_of_int beg));
             p2 = st tr p1 (s + word_of_int beg) tmp
         in strrev_loop tr p2 s (beg + 1) (end' - 1))
      else p)"
  by pat_completeness auto
termination
  by (relation "measure (\<lambda>(tr, p, s, beg, end'). nat (end' - beg))") auto

declare strrev_loop.simps [simp del]

definition strrev_p :: "xlate \<Rightarrow> pmem \<Rightarrow> u32 \<Rightarrow> pmem option" where
  "strrev_p tr p s = do {
     len \<leftarrow> strlen_p tr p s;
     Some (strrev_loop tr p s 0 (sint (len - 1))) }"

text \<open>The digit table of \<^verbatim>\<open>itoa\<close>; an index past its terminating zero reads outside the array.\<close>

definition lookup :: "u8 list" where
  "lookup = chars ''0123456789ABCDEFGHIJKLMNOPQRSTUVWXYZ'' @ [0]"

text \<open>\<^verbatim>\<open>newval % radix\<close> with \<^verbatim>\<open>radix\<close> zero raises the divide exception, which never returns.\<close>

partial_function (option) itoa_loop :: "xlate \<Rightarrow> pmem \<Rightarrow> u32 \<Rightarrow> u32 \<Rightarrow> u32 \<Rightarrow> pmem option" where
  "itoa_loop tr p newbuf newval radix =
     (if 0 < newval then
        (if radix = 0 then None
         else itoa_loop tr (st tr p newbuf (lookup ! unat (newval mod radix)))
                (newbuf + 1) (newval div radix) radix)
      else Some (st tr p newbuf 0))"

definition itoa_p :: "xlate \<Rightarrow> pmem \<Rightarrow> u32 \<Rightarrow> u32 \<Rightarrow> u32 \<Rightarrow> pmem option" where
  "itoa_p tr p value buf radix =
     (if value = 0 then Some (st tr (st tr p buf (ch CHR ''0'')) (buf + 1) 0)
      else do {
        p' \<leftarrow> itoa_loop tr p buf value radix;
        strrev_p tr p' buf })"

section \<open>strlen\<close>

lemma strlen_from_Some:
  assumes "cstring f (s + len) cs"
  shows "strlen_from f s len = Some (len + of_nat (length cs))"
  using assms
proof (induction cs arbitrary: len)
  case Nil
  then show ?case by (subst strlen_from.simps) simp
next
  case (Cons c cs)
  from cstring_Cons [OF Cons.prems] have "f (s + len) \<noteq> 0" "cstring f (s + (len + 1)) cs"
    by (simp_all add: algebra_simps)
  then show ?case
    using Cons.IH [of "len + 1"] by (subst strlen_from.simps) (simp add: algebra_simps)
qed

lemma strlen_p_cstring:
  assumes "cstring (ld tr p) s cs"
  shows "strlen_p tr p s = Some (of_nat (length cs))"
  using strlen_from_Some [of "ld tr p" s 0 cs] assms by (simp add: strlen_p_def)

lemma strlen_from_zero:
  assumes "strlen_from f s len = Some r"
  shows "f (s + r) = 0"
proof (rule strlen_from.raw_induct [where P = "\<lambda>f s len r. f (s + r) = 0", OF _ assms])
  fix g f :: "(u32 \<Rightarrow> u8) \<Rightarrow> u32 \<Rightarrow> u32 \<Rightarrow> u32 option"
  fix h s len r
  assume IH: "\<And>h s len r. g h s len = Some r \<Longrightarrow> h (s + r) = 0"
    and eq: "(if h (s + len) \<noteq> 0 then g h s (len + 1) else Some len) = Some r"
  show "h (s + r) = 0"
    using IH [of h s "len + 1" r] eq by (cases "h (s + len) = 0") auto
qed

lemma strlen_p_None:
  assumes "\<And>a. ld tr p a \<noteq> 0"
  shows "strlen_p tr p s = None"
  using strlen_from_zero [of "ld tr p" s 0] assms
  by (cases "strlen_p tr p s") (auto simp: strlen_p_def)

section \<open>strncmp\<close>

lemma sint_diff_zero: "sint (a :: u8) - sint b = 0 \<longleftrightarrow> a = b"
  by (metis eq_iff_diff_eq_0 signed_word_eqI)

lemma unat_Suc_less:
  assumes "(i :: u32) < n"
  shows "unat (i + 1) = Suc (unat i)"
  using assms unat_lt_u32 [of n] unat_off [of i 1] by (simp add: word_less_nat_alt)

lemma strncmp_from_zero_iff:
  assumes "\<And>k. unat i \<le> k \<Longrightarrow> k < unat n \<Longrightarrow> f (s1 + of_nat k) \<noteq> 0"
  shows "strncmp_from f s1 s2 n i = 0 \<longleftrightarrow>
    (\<forall>k. unat i \<le> k \<and> k < unat n \<longrightarrow> f (s1 + of_nat k) = f (s2 + of_nat k))"
  using assms
proof (induction f s1 s2 n i rule: strncmp_from.induct)
  case (1 f s1 s2 n i)
  show ?case
  proof (cases "i < n")
    case False
    then show ?thesis by (subst strncmp_from.simps) (auto simp: word_less_nat_alt)
  next
    case True
    have nz: "f (s1 + i) \<noteq> 0"
      using "1.prems" [of "unat i"] True by (simp add: word_less_nat_alt)
    have step: "unat (i + 1) = Suc (unat i)" using True by (rule unat_Suc_less)
    have split: "(\<forall>k. unat i \<le> k \<and> k < unat n \<longrightarrow> Q k) \<longleftrightarrow>
        Q (unat i) \<and> (\<forall>k. unat (i + 1) \<le> k \<and> k < unat n \<longrightarrow> Q k)" for Q
      using True step by (metis Suc_leD Suc_leI le_less order_refl word_less_nat_alt)
    show ?thesis
    proof (cases "f (s1 + i) = f (s2 + i)")
      case False
      then show ?thesis
        using True sint_diff_zero [of "f (s1 + i)" "f (s2 + i)"]
        by (subst strncmp_from.simps) (auto simp: split)
    next
      case eq: True
      have "strncmp_from f s1 s2 n (i + 1) = 0 \<longleftrightarrow>
          (\<forall>k. unat (i + 1) \<le> k \<and> k < unat n \<longrightarrow> f (s1 + of_nat k) = f (s2 + of_nat k))"
        using "1.IH" [OF True] eq nz "1.prems" step by simp
      then show ?thesis
        using True eq nz by (subst strncmp_from.simps) (simp add: split)
    qed
  qed
qed

lemma strncmp_p_zero_iff:
  assumes "\<And>k. k < unat n \<Longrightarrow> ld tr p (s1 + of_nat k) \<noteq> 0"
  shows "strncmp_p tr p s1 s2 n = 0 \<longleftrightarrow> load_list (ld tr) p s1 (unat n) = load_list (ld tr) p s2 (unat n)"
  using strncmp_from_zero_iff [of 0 n "ld tr p" s1 s2] assms
  by (auto simp: strncmp_p_def load_list_def)

section \<open>strcpy and strncpy\<close>

lemma strcpy_from_eq:
  assumes "cstring (ld tr p) (src + of_nat i) cs"
    and "apart tr (dest + of_nat i) (length cs + 1) (src + of_nat i) (length cs + 1)"
  shows "strcpy_from tr p dest src (of_nat i) =
    Some (store_list (st tr) p (dest + of_nat i) (cs @ [0]))"
  using assms
proof (induction cs arbitrary: p i)
  case Nil
  then show ?case by (subst strcpy_from.simps) simp
next
  case (Cons c cs)
  let ?p1 = "st tr p (dest + of_nat i) c"
  have c: "ld tr p (src + of_nat i) = c" "c \<noteq> 0"
    and tl: "cstring (ld tr p) (src + of_nat (Suc i)) cs"
    using cstring_Cons [OF Cons.prems(1)] by (simp_all add: algebra_simps)
  have same: "ld tr ?p1 (src + of_nat (Suc i) + of_nat k) = ld tr p (src + of_nat (Suc i) + of_nat k)"
    if "k \<le> length cs" for k
    using apart_headD [OF Cons.prems(2), of "Suc k"] that by (simp add: ld_st algebra_simps)
  have "cstring (ld tr ?p1) (src + of_nat (Suc i)) cs"
    using tl cstring_cong [of cs "ld tr ?p1" _ "ld tr p", OF same] by simp
  moreover have "apart tr (dest + of_nat (Suc i)) (length cs + 1) (src + of_nat (Suc i)) (length cs + 1)"
    using apart_take [of tr "dest + of_nat i" 1 "length cs + 1" "src + of_nat i"] Cons.prems(2)
    by (simp add: algebra_simps)
  ultimately have "strcpy_from tr ?p1 dest src (of_nat (Suc i)) =
      Some (store_list (st tr) ?p1 (dest + of_nat (Suc i)) (cs @ [0]))"
    by (rule Cons.IH)
  then show ?case
    using c by (subst strcpy_from.simps) (simp add: algebra_simps)
qed

lemma strcpy_p_eq:
  assumes "cstring (ld tr p) src cs" and "apart tr dest (length cs + 1) src (length cs + 1)"
  shows "strcpy_p tr p dest src = Some (store_list (st tr) p dest (cs @ [0]))"
  using strcpy_from_eq [of tr p src 0 cs dest] assms by (simp add: strcpy_p_def)

lemma strncpy_pad_eq:
  assumes "i \<le> n"
  shows "strncpy_pad tr p dest n i = store_list (st tr) p (dest + of_nat i) (replicate (n - i) 0)"
  using assms
proof (induction tr p dest n i rule: strncpy_pad.induct)
  case (1 tr p dest n i)
  show ?case
  proof (cases "i < n")
    case True
    then have "n - i = Suc (n - Suc i)" by simp
    then show ?thesis
      using True "1.IH" by (subst strncpy_pad.simps) (simp add: algebra_simps)
  next
    case False
    then show ?thesis using "1.prems" by (subst strncpy_pad.simps) simp
  qed
qed

lemma strncpy_copy_eq:
  assumes "cstring (ld tr p) (src + of_nat i) cs" and "i \<le> n"
    and "apart tr (dest + of_nat i) (n - i) (src + of_nat i) (length cs + 1)"
  shows "strncpy_copy tr p dest src n i =
    (store_list (st tr) p (dest + of_nat i) (take (n - i) cs), i + min (n - i) (length cs))"
  using assms
proof (induction cs arbitrary: p i)
  case Nil
  then show ?case by (subst strncpy_copy.simps) simp
next
  case (Cons c cs)
  let ?p1 = "st tr p (dest + of_nat i) c"
  show ?case
  proof (cases "i < n")
    case False
    then show ?thesis using Cons.prems by (subst strncpy_copy.simps) simp
  next
    case True
    have c: "ld tr p (src + of_nat i) = c" "c \<noteq> 0"
      and tl: "cstring (ld tr p) (src + of_nat (Suc i)) cs"
      using cstring_Cons [OF Cons.prems(1)] by (simp_all add: algebra_simps)
    have same: "ld tr ?p1 (src + of_nat (Suc i) + of_nat k) = ld tr p (src + of_nat (Suc i) + of_nat k)"
      if "k \<le> length cs" for k
      using apart_headD [OF Cons.prems(3), of "Suc k"] that True by (simp add: ld_st algebra_simps)
    have "cstring (ld tr ?p1) (src + of_nat (Suc i)) cs"
      using tl cstring_cong [of cs "ld tr ?p1" _ "ld tr p", OF same] by simp
    moreover have "apart tr (dest + of_nat (Suc i)) (n - Suc i) (src + of_nat (Suc i)) (length cs + 1)"
    proof -
      have "apart tr (dest + of_nat i) (1 + (n - Suc i)) (src + of_nat i) (1 + (length cs + 1))"
        using Cons.prems(3) True by (simp add: Suc_diff_Suc)
      from apart_off [OF this] show ?thesis by (simp add: algebra_simps)
    qed
    ultimately have "strncpy_copy tr ?p1 dest src n (Suc i) =
        (store_list (st tr) ?p1 (dest + of_nat (Suc i)) (take (n - Suc i) cs),
         Suc i + min (n - Suc i) (length cs))"
      using True by (intro Cons.IH) simp_all
    moreover have "n - i = Suc (n - Suc i)" using True by simp
    ultimately show ?thesis
      using c True by (subst strncpy_copy.simps) (simp add: algebra_simps)
  qed
qed

lemma strncpy_p_eq:
  assumes "cstring (ld tr p) src cs" and "apart tr dest (unat n) src (length cs + 1)"
  shows "strncpy_p tr p dest src n =
    store_list (st tr) p dest (take (unat n) cs @ replicate (unat n - length cs) 0)"
proof -
  have "strncpy_copy tr p dest src (unat n) 0 =
      (store_list (st tr) p dest (take (unat n) cs), min (unat n) (length cs))"
    using strncpy_copy_eq [of tr p src 0 cs "unat n" dest] assms by simp
  moreover have "unat n - min (unat n) (length cs) = unat n - length cs" by simp
  ultimately show ?thesis
    by (simp add: strncpy_p_def strncpy_pad_eq store_list_append min.commute)
qed

section \<open>strrev reverses in place\<close>

lemma block_neq:
  assumes "block tr s n" "i < n" "j < n" "i \<noteq> j"
  shows "tr (s + of_nat i) \<noteq> tr (s + of_nat j)"
  using assms by (auto simp: block_def)

lemma block_mapped: "block tr s n \<Longrightarrow> i < n \<Longrightarrow> tr (s + of_nat i) \<noteq> None"
  by (auto simp: block_def)

text \<open>Two stores that swap two bytes of a block.\<close>

lemma swap_load:
  assumes "block tr s n" "b < n" "e < n" "b \<noteq> e" "i < n"
  shows "ld tr (st tr (st tr p (s + of_nat e) (ld tr p (s + of_nat b))) (s + of_nat b)
           (ld tr p (s + of_nat e))) (s + of_nat i) =
         ld tr p (s + of_nat (if i = b then e else if i = e then b else i))"
  using assms block_neq [OF assms(1,2,5)] block_neq [OF assms(1,3,5)] block_mapped [OF assms(1,5)]
  by (auto simp: ld_st)

lemma strrev_loop_correct:
  assumes "block tr s n" and "0 \<le> b" and "e < int n"
  shows "\<forall>i<n. ld tr (strrev_loop tr p s b e) (s + of_nat i) =
           ld tr p (s + of_nat (if b \<le> int i \<and> int i \<le> e then nat (b + e - int i) else i))"
    and "(\<forall>i<n. tr (s + of_nat i) \<noteq> tr x) \<longrightarrow> ld tr (strrev_loop tr p s b e) x = ld tr p x"
proof -
  have "(\<forall>i<n. ld tr (strrev_loop tr p s b e) (s + of_nat i) =
           ld tr p (s + of_nat (if b \<le> int i \<and> int i \<le> e then nat (b + e - int i) else i))) \<and>
        ((\<forall>i<n. tr (s + of_nat i) \<noteq> tr x) \<longrightarrow> ld tr (strrev_loop tr p s b e) x = ld tr p x)"
    using assms
  proof (induction tr p s b e rule: strrev_loop.induct)
    case (1 tr p s b e)
    show ?case
    proof (cases "b < e")
      case False
      moreover have "(if b \<le> int i \<and> int i \<le> e then nat (b + e - int i) else i) = i" for i
        using False by auto
      ultimately show ?thesis by (subst (1 2) strrev_loop.simps) simp
    next
      case True
      define bn en where "bn = nat b" and "en = nat e"
      have be: "b = int bn" "e = int en" "bn < en" "bn < n" "en < n"
        using True "1.prems" by (auto simp: bn_def en_def)
      let ?q = "st tr (st tr p (s + of_nat en) (ld tr p (s + of_nat bn))) (s + of_nat bn)
           (ld tr p (s + of_nat en))"
      have unf: "strrev_loop tr p s b e = strrev_loop tr ?q s (b + 1) (e - 1)"
        using True be by (subst strrev_loop.simps) (simp add: Let_def)
      have IH: "(\<forall>i<n. ld tr (strrev_loop tr ?q s (b + 1) (e - 1)) (s + of_nat i) =
           ld tr ?q (s + of_nat (if b + 1 \<le> int i \<and> int i \<le> e - 1 then nat (b + e - int i) else i))) \<and>
        ((\<forall>i<n. tr (s + of_nat i) \<noteq> tr x) \<longrightarrow>
           ld tr (strrev_loop tr ?q s (b + 1) (e - 1)) x = ld tr ?q x)"
        using "1.IH" [OF True refl refl refl] "1.prems" True be by (simp add: Let_def)
      note sw = swap_load [OF "1.prems"(1) be(4,5), of _ p]
      have "ld tr (strrev_loop tr p s b e) (s + of_nat i) =
           ld tr p (s + of_nat (if b \<le> int i \<and> int i \<le> e then nat (b + e - int i) else i))"
        if i: "i < n" for i
      proof -
        let ?j = "if b + 1 \<le> int i \<and> int i \<le> e - 1 then nat (b + e - int i) else i"
        have j: "?j < n" using i be by auto
        have "(if ?j = bn then en else if ?j = en then bn else ?j) =
            (if b \<le> int i \<and> int i \<le> e then nat (b + e - int i) else i)"
          using be by auto
        then show ?thesis
          using IH i sw [OF _ j] be unf by simp
      qed
      moreover have "ld tr ?q x = ld tr p x" if "\<forall>i<n. tr (s + of_nat i) \<noteq> tr x"
        using that be by (simp add: ld_st)
      ultimately show ?thesis using IH unf by simp
    qed
  qed
  then show "\<forall>i<n. ld tr (strrev_loop tr p s b e) (s + of_nat i) =
           ld tr p (s + of_nat (if b \<le> int i \<and> int i \<le> e then nat (b + e - int i) else i))"
    and "(\<forall>i<n. tr (s + of_nat i) \<noteq> tr x) \<longrightarrow> ld tr (strrev_loop tr p s b e) x = ld tr p x"
    by blast+
qed

lemma sint_len_minus_1:
  assumes "n < 2 ^ 31"
  shows "sint ((of_nat n :: u32) - 1) = int n - 1"
proof (cases n)
  case 0
  then show ?thesis by simp
next
  case (Suc k)
  have "sint (of_nat k :: u32) = int k"
    using assms Suc by (simp add: signed_of_nat signed_take_bit_int_eq_self)
  then show ?thesis using Suc by simp
qed

lemma strrev_p_correct:
  assumes cs: "cstring (ld tr p) s cs" and len: "length cs < 2 ^ 31"
    and blk: "block tr s (length cs + 1)"
  shows "\<exists>p'. strrev_p tr p s = Some p' \<and> cstring (ld tr p') s (rev cs) \<and>
     (\<forall>x. (\<forall>i < length cs. tr (s + of_nat i) \<noteq> tr x) \<longrightarrow> ld tr p' x = ld tr p x)"
proof -
  let ?n = "length cs"
  let ?p' = "strrev_loop tr p s 0 (int ?n - 1)"
  have eq: "strrev_p tr p s = Some ?p'"
    using strlen_p_cstring [OF cs] sint_len_minus_1 [OF len] by (simp add: strrev_p_def)
  have blk': "block tr s ?n" using blk by (rule block_mono) simp
  have ld': "ld tr ?p' (s + of_nat i) = ld tr p (s + of_nat (?n - 1 - i))" if "i < ?n" for i
    using strrev_loop_correct(1) [OF blk', of 0 "int ?n - 1" p] that by (auto simp: nat_diff_distrib)
  have frame: "ld tr ?p' x = ld tr p x" if "\<forall>i < ?n. tr (s + of_nat i) \<noteq> tr x" for x
    using strrev_loop_correct(2) [OF blk', of 0 "int ?n - 1" x p] that by simp
  have "ld tr ?p' (s + of_nat ?n) = 0"
    using frame [of "s + of_nat ?n"] block_neq [OF blk, of _ ?n] cstringD(3) [OF cs] by simp
  moreover have "ld tr ?p' (s + of_nat i) = rev cs ! i" if "i < ?n" for i
    using ld' [OF that] cstringD(4) [OF cs, of "?n - 1 - i"] that by (simp add: rev_nth)
  ultimately have "cstring (ld tr ?p') s (rev cs)"
    using cstringD [OF cs] by (simp add: cstring_def)
  then show ?thesis using eq frame by blast
qed

section \<open>itoa writes the numeral\<close>

text \<open>The digits of a number, lowest first, and the numeral they spell.\<close>

fun digits :: "nat \<Rightarrow> nat \<Rightarrow> nat list" where
  "digits r v = (if v = 0 \<or> r < 2 then [] else v mod r # digits r (v div r))"

declare digits.simps [simp del]

definition numeral_string :: "nat \<Rightarrow> nat \<Rightarrow> u8 list" where
  "numeral_string r v = (if v = 0 then [ch CHR ''0''] else rev (map ((!) lookup) (digits r v)))"

text \<open>Reading a numeral back: the value of a digit character, and of a string of them.\<close>

definition digit_value :: "u8 \<Rightarrow> nat" where
  "digit_value c = (if c < ch CHR '':'' then unat c - 48 else unat c - 55)"

definition parse_numeral :: "nat \<Rightarrow> u8 list \<Rightarrow> nat" where
  "parse_numeral r cs = foldl (\<lambda>a c. a * r + digit_value c) 0 cs"

lemma digits_0 [simp]: "digits r 0 = []"
  by (simp add: digits.simps)

lemma digits_step: "v \<noteq> 0 \<Longrightarrow> 2 \<le> r \<Longrightarrow> digits r v = v mod r # digits r (v div r)"
  by (subst digits.simps) simp

lemma digits_less: "2 \<le> r \<Longrightarrow> d \<in> set (digits r v) \<Longrightarrow> d < r"
proof (induction r v rule: digits.induct)
  case (1 r v)
  then show ?case by (cases "v = 0") (auto simp: digits_step)
qed

lemma length_digits_le:
  assumes "2 \<le> r" "v < 2 ^ k"
  shows "length (digits r v) \<le> k"
  using assms(2)
proof (induction k arbitrary: v)
  case 0
  then show ?case by simp
next
  case (Suc k)
  show ?case
  proof (cases "v = 0")
    case False
    have "v div r \<le> v div 2" using assms(1) by (simp add: div_le_mono2)
    also have "\<dots> < 2 ^ k" using Suc.prems by (simp add: less_mult_imp_div_less)
    finally show ?thesis using Suc.IH False assms(1) by (simp add: digits_step)
  qed simp
qed

lemma parse_numeral_snoc: "parse_numeral r (cs @ [c]) = parse_numeral r cs * r + digit_value c"
  by (simp add: parse_numeral_def)

lemma lookup_digit:
  assumes "d < 36"
  shows "digit_value (lookup ! d) = d" and "lookup ! d \<noteq> 0"
proof -
  have "list_all (\<lambda>d. digit_value (lookup ! d) = d \<and> lookup ! d \<noteq> 0) [0..<36]"
    by code_simp
  then show "digit_value (lookup ! d) = d" and "lookup ! d \<noteq> 0"
    using assms by (auto simp: list_all_iff)
qed

lemma parse_digits:
  assumes "2 \<le> r" "r \<le> 36"
  shows "parse_numeral r (rev (map ((!) lookup) (digits r v))) = v"
proof (induction v rule: less_induct)
  case (less v)
  show ?case
  proof (cases "v = 0")
    case True
    then show ?thesis by (simp add: parse_numeral_def)
  next
    case False
    have "v mod r < 36" using assms mod_less_divisor [of r v] by linarith
    then have "digit_value (lookup ! (v mod r)) = v mod r" by (rule lookup_digit)
    moreover have "v div r < v" using False assms by simp
    ultimately show ?thesis
      using less.IH False assms by (simp add: digits_step parse_numeral_snoc)
  qed
qed

lemma parse_numeral_string:
  assumes "2 \<le> r" "r \<le> 36"
  shows "parse_numeral r (numeral_string r v) = v"
  using parse_digits [OF assms]
  by (simp add: numeral_string_def) (simp add: parse_numeral_def digit_value_def)

lemma itoa_loop_eq:
  assumes "2 \<le> unat radix"
  shows "itoa_loop tr p newbuf v radix =
    Some (store_list (st tr) p newbuf (map ((!) lookup) (digits (unat radix) (unat v)) @ [0]))"
proof (induction "unat v" arbitrary: p newbuf v rule: less_induct)
  case less
  show ?case
  proof (cases "v = 0")
    case True
    then show ?thesis by (subst itoa_loop.simps) simp
  next
    case False
    have r: "radix \<noteq> 0" using assms by auto
    have u: "unat (v div radix) = unat v div unat radix" "unat (v mod radix) = unat v mod unat radix"
      by (simp_all add: unat_div_distrib unat_mod_distrib)
    have "unat (v div radix) < unat v"
      using False assms u by (simp add: unat_gt_0)
    from less [OF this, of "st tr p newbuf (lookup ! unat (v mod radix))" "newbuf + 1"]
    show ?thesis
      using False assms r u digits_step [of "unat v" "unat radix"]
      by (subst itoa_loop.simps) (simp add: unat_eq_0 word_neq_0_conv)
  qed
qed

lemma cstring_stored:
  assumes "block tr s (length cs + 1)" and "0 \<notin> set cs" and "length cs < 2 ^ 32"
  shows "cstring (ld tr (store_list (st tr) p s (cs @ [0]))) s cs"
proof -
  have "ld tr (store_list (st tr) p s (cs @ [0])) (s + of_nat i) = (cs @ [0]) ! i"
    if "i < length cs + 1" for i
    using assms(1) that by (intro mmu.rd_store_list_in) (auto simp: block_def)
  then show ?thesis
    using assms by (auto simp: cstring_def nth_append)
qed

lemma itoa_p_correct:
  assumes r: "2 \<le> unat radix" "unat radix \<le> 36" and blk: "block tr buf 33"
  shows "\<exists>p'. itoa_p tr p v buf radix = Some p' \<and>
     cstring (ld tr p') buf (numeral_string (unat radix) (unat v)) \<and>
     (\<forall>x. (\<forall>i<33. tr (buf + of_nat i) \<noteq> tr x) \<longrightarrow> ld tr p' x = ld tr p x)"
proof (cases "v = 0")
  case True
  have b2: "block tr buf (length [ch CHR ''0''] + 1)" using blk by (rule block_mono) simp
  have "cstring (ld tr (store_list (st tr) p buf ([ch CHR ''0''] @ [0]))) buf [ch CHR ''0'']"
    by (rule cstring_stored [OF b2]) simp_all
  moreover have "ld tr (store_list (st tr) p buf ([ch CHR ''0''] @ [0])) x = ld tr p x"
    if "\<forall>i<33. tr (buf + of_nat i) \<noteq> tr x" for x
    using that by (intro mmu.rd_store_list_frame) auto
  ultimately show ?thesis
    using True by (auto simp: itoa_p_def numeral_string_def)
next
  case False
  let ?cs = "map ((!) lookup) (digits (unat radix) (unat v))"
  let ?p1 = "store_list (st tr) p buf (?cs @ [0])"
  have len: "length ?cs \<le> 32"
    using length_digits_le [OF r(1), of "unat v" 32] unat_lt_u32 [of v] by simp
  then have blk': "block tr buf (length ?cs + 1)"
    using blk by (auto intro: block_mono)
  have nz: "0 \<notin> set ?cs"
    using digits_less [OF r(1)] lookup_digit(2) r(2) by fastforce
  have "cstring (ld tr ?p1) buf ?cs"
    using len by (intro cstring_stored [OF blk' nz]) simp
  from strrev_p_correct [OF this _ blk'] obtain p' where
    p': "strrev_p tr ?p1 buf = Some p'" "cstring (ld tr p') buf (rev ?cs)"
      "\<forall>x. (\<forall>i < length ?cs. tr (buf + of_nat i) \<noteq> tr x) \<longrightarrow> ld tr p' x = ld tr ?p1 x"
    using len by auto
  have "ld tr p' x = ld tr p x" if "\<forall>i<33. tr (buf + of_nat i) \<noteq> tr x" for x
  proof -
    have "ld tr ?p1 x = ld tr p x"
      using that len by (intro mmu.rd_store_list_frame) auto
    then show ?thesis using p'(3) that len by auto
  qed
  then show ?thesis
    using False p' itoa_loop_eq [OF r(1), of tr p buf v]
    by (simp add: itoa_p_def numeral_string_def unat_eq_0)
qed

end
