(* ===== verification/LibSpec.thy ===== *)
theory LibSpec
  imports CString
begin

text \<open>
  What the memory and string routines of \<^verbatim>\<open>student-distrib/lib.c\<close> promise, over any address
  translation: the block operations with their frames, the string copies and the round trip of
  \<^verbatim>\<open>itoa\<close>. The instances use the identity translation and a memory whose byte at address
  \<open>a\<close> is the low byte of \<open>a\<close>.
\<close>

section \<open>A concrete memory\<close>

definition ident_mem :: pmem where
  "ident_mem a = ucast a"

text \<open>The ranges below are small, so that a range is a block and two ranges are apart by their offsets.\<close>

lemma block_ident:
  assumes "n < 2 ^ 32"
  shows "block Some a n"
  using assms off_u32_inj [of _ _ a] by (auto simp: block_def)

lemma apart_ident:
  assumes "unat a + n \<le> unat b \<or> unat b + m \<le> unat a" "unat a + n \<le> 2 ^ 32" "unat b + m \<le> 2 ^ 32"
  shows "apart Some a n b m"
proof -
  have "a + of_nat i \<noteq> b + of_nat j" if "i < n" "j < m" for i j
  proof
    assume "a + of_nat i = b + of_nat j"
    then have "unat (a + of_nat i) = unat (b + of_nat j)" by simp
    moreover have "unat (a + of_nat i) = unat a + i" using assms that by (intro unat_off) simp
    moreover have "unat (b + of_nat j) = unat b + j" using assms that by (intro unat_off) simp
    ultimately show False using assms(1) that by linarith
  qed
  then show ?thesis by (simp add: apart_def)
qed

lemma own_cells_ident: "own_cells Some A"
  by (simp add: own_cells_def inj_on_def)

lemma store_list_other:
  assumes "\<forall>i<length vs. tr (d + of_nat i) \<noteq> tr b"
  shows "ld tr (store_list (st tr) p d vs) b = ld tr p b"
  using assms by (intro mmu.rd_store_list_frame) simp

section \<open>Block operations\<close>

text \<open>
  \<^verbatim>\<open>memset\<close>, with its aligned word stores and byte tail, fills
  exactly the given range with the given byte.
\<close>

theorem memset_fills:
  assumes "block tr s (unat n)"
  shows "load_list (ld tr) (memset_p tr p s c n) s (unat n) = replicate (unat n) (ucast c) \<and>
    (\<forall>b. (\<forall>i<unat n. tr (s + of_nat i) \<noteq> tr b) \<longrightarrow> ld tr (memset_p tr p s c n) b = ld tr p b)"
  using load_store_list_same [of tr s "replicate (unat n) (ucast c)" p] assms
  by (auto simp: memset_p_eq intro!: store_list_other)

theorem memset_fills_witness:
  "load_list (ld Some) (memset_p Some ident_mem 0x1003 0x41 6) 0x1003 6 = replicate 6 0x41 \<and>
   ld Some (memset_p Some ident_mem 0x1003 0x41 6) 0x1009 = 9"
proof -
  have "(0x1003 :: u32) + of_nat i \<noteq> 0x1009" if "i < 6" for i
    using apart_ident [of "0x1003" 6 "0x1009" 1] that by (auto simp: apart_def)
  then have "ld Some (memset_p Some ident_mem 0x1003 0x41 6) 0x1009 = ld Some ident_mem 0x1009"
    using memset_fills [of Some "0x1003" 6 ident_mem "0x41"] block_ident [of 6 "0x1003"] by simp
  moreover have "ld Some ident_mem 0x1009 = 9" by (simp add: ld_def ident_mem_def)
  moreover have "load_list (ld Some) (memset_p Some ident_mem 0x1003 0x41 6) 0x1003 6 = replicate 6 0x41"
    using memset_fills [of Some "0x1003" 6 ident_mem "0x41"] block_ident [of 6 "0x1003"] by simp
  ultimately show ?thesis by simp
qed

text \<open>
  C39: \<^verbatim>\<open>memcpy\<close>, with its aligned word copies and byte tail, leaves at
  the destination what a disjoint source holds and changes nothing else.
\<close>

theorem memcpy_copies:
  assumes "block tr d (unat n)" "apart tr d (unat n) s (unat n)"
  shows "load_list (ld tr) (memcpy_p tr p d s n) d (unat n) = load_list (ld tr) p s (unat n) \<and>
    (\<forall>b. (\<forall>i<unat n. tr (d + of_nat i) \<noteq> tr b) \<longrightarrow> ld tr (memcpy_p tr p d s n) b = ld tr p b)"
  using load_store_list_same [of tr d "load_list (ld tr) p s (unat n)" p] assms
  by (auto simp: memcpy_p_eq copy_p_def intro!: store_list_other)

theorem memcpy_copies_witness:
  "load_list (ld Some) (memcpy_p Some ident_mem 0x2001 0x1003 5) 0x2001 5 = [3, 4, 5, 6, 7]"
  using memcpy_copies [of Some "0x2001" 5 "0x1003" ident_mem] block_ident [of 5 "0x2001"]
    apart_ident [of "0x2001" 5 "0x1003" 5]
  by (simp add: ident_mem_def ld_def load_list_def upt_rec)

text \<open>
  C38: \<^verbatim>\<open>memmove\<close> leaves at the destination what the source held before,
  also when the two ranges overlap, and changes nothing else.
\<close>

theorem memmove_copies:
  assumes "own_cells tr (span d (unat n) \<union> span s (unat n))"
    and "unat d + unat n \<le> 2 ^ 32" "unat s + unat n \<le> 2 ^ 32"
  shows "load_list (ld tr) (memmove_p tr p d s n) d (unat n) = load_list (ld tr) p s (unat n) \<and>
    (\<forall>b. (\<forall>x\<in>span d (unat n). tr x \<noteq> tr b) \<longrightarrow> ld tr (memmove_p tr p d s n) b = ld tr p b)"
  using memmove_p_correct [OF assms] by blast

theorem memmove_copies_witness:
  "load_list (ld Some) (memmove_p Some ident_mem 0x1005 0x1003 5) 0x1005 5 = [3, 4, 5, 6, 7]"
  using memmove_copies [of Some "0x1005" 5 "0x1003" ident_mem]
  by (simp add: own_cells_ident ident_mem_def ld_def load_list_def upt_rec)

section \<open>Strings\<close>

text \<open>A memory holding one string.\<close>

definition string_mem :: "u8 list \<Rightarrow> pmem" where
  "string_mem cs = store_list (st Some) (\<lambda>_. 0) 0x1000 (cs @ [0])"

lemma cstring_string_mem:
  assumes "0 \<notin> set cs" "length cs + 1 < 2 ^ 32"
  shows "cstring (ld Some (string_mem cs)) 0x1000 cs"
  unfolding string_mem_def using assms by (intro cstring_stored block_ident) simp_all

text \<open>
  \<^verbatim>\<open>strcpy\<close> of a string returns, with the string and its terminator
  at the destination and nothing else changed; \<^verbatim>\<open>strlen\<close> of the copy is
  the length of the string.
\<close>

theorem strcpy_copies:
  assumes "cstring (ld tr p) src cs" "block tr dest (length cs + 1)"
    and "apart tr dest (length cs + 1) src (length cs + 1)"
  shows "\<exists>p'. strcpy_p tr p dest src = Some p' \<and> cstring (ld tr p') dest cs \<and> cstring (ld tr p') src cs \<and>
    strlen_p tr p' dest = Some (of_nat (length cs)) \<and>
    (\<forall>b. (\<forall>i<length cs + 1. tr (dest + of_nat i) \<noteq> tr b) \<longrightarrow> ld tr p' b = ld tr p b)"
proof -
  define p' where "p' = store_list (st tr) p dest (cs @ [0])"
  have "strcpy_p tr p dest src = Some p'" using strcpy_p_eq [OF assms(1,3)] by (simp add: p'_def)
  moreover have d: "cstring (ld tr p') dest cs"
    unfolding p'_def using assms(1,2) by (intro cstring_stored) (auto simp: cstring_def)
  moreover have fr: "\<forall>b. (\<forall>i<length cs + 1. tr (dest + of_nat i) \<noteq> tr b) \<longrightarrow> ld tr p' b = ld tr p b"
    unfolding p'_def by (auto intro!: store_list_other)
  moreover have "ld tr p' (src + of_nat i) = ld tr p (src + of_nat i)" if "i \<le> length cs" for i
    using fr assms(3) that by (auto simp: apart_def)
  then have "cstring (ld tr p') src cs" using assms(1) by (simp add: cstring_def)
  ultimately show ?thesis using strlen_p_cstring [OF d] by blast
qed

theorem strcpy_copies_witness:
  "\<exists>p'. strcpy_p Some (string_mem (map ch ''shell'')) 0x2000 0x1000 = Some p' \<and>
    cstring (ld Some p') 0x2000 (map ch ''shell'')"
proof -
  have "cstring (ld Some (string_mem (map ch ''shell''))) 0x1000 (map ch ''shell'')"
    by (rule cstring_string_mem) simp_all
  from strcpy_copies [OF this block_ident apart_ident, of "0x2000"] show ?thesis by auto
qed

text \<open>
  \<^verbatim>\<open>strncpy\<close> leaves the first n characters of the string at the
  destination, padded with zeros up to n, and changes nothing else.
\<close>

theorem strncpy_copies:
  assumes "cstring (ld tr p) src cs" "block tr dest (unat n)" "apart tr dest (unat n) src (length cs + 1)"
  shows "load_list (ld tr) (strncpy_p tr p dest src n) dest (unat n) =
      take (unat n) cs @ replicate (unat n - length cs) 0 \<and>
    (\<forall>b. (\<forall>i<unat n. tr (dest + of_nat i) \<noteq> tr b) \<longrightarrow> ld tr (strncpy_p tr p dest src n) b = ld tr p b)"
proof -
  let ?vs = "take (unat n) cs @ replicate (unat n - length cs) (0 :: u8)"
  have "length ?vs = unat n" by simp
  then show ?thesis
    using load_store_list_same [of tr dest ?vs p] assms(2)
    by (auto simp: strncpy_p_eq [OF assms(1,3)] simp del: length_append intro!: store_list_other)
qed

theorem strncpy_copies_witness:
  "load_list (ld Some) (strncpy_p Some (string_mem (map ch ''ls'')) 0x2000 0x1000 4) 0x2000 4 = map ch ''ls'' @ replicate 2 0"
proof -
  have "cstring (ld Some (string_mem (map ch ''ls''))) 0x1000 (map ch ''ls'')"
    by (rule cstring_string_mem) simp_all
  from strncpy_copies [OF this block_ident apart_ident, of 4 "0x2000"] show ?thesis by simp
qed

text \<open>
  C40: For every radix from 2 to 36 \<^verbatim>\<open>itoa\<close> returns with a numeral of at
  most 32 digits in the buffer that denotes the value, and changes only the 33 bytes of the
  buffer.
\<close>

theorem itoa_parses_back:
  assumes "2 \<le> unat radix" "unat radix \<le> 36" "block tr buf 33"
  shows "\<exists>p' cs. itoa_p tr p v buf radix = Some p' \<and> cstring (ld tr p') buf cs \<and>
    parse_numeral (unat radix) cs = unat v \<and> length cs \<le> 32 \<and>
    (\<forall>x. (\<forall>i<33. tr (buf + of_nat i) \<noteq> tr x) \<longrightarrow> ld tr p' x = ld tr p x)"
proof -
  from itoa_p_correct [OF assms] obtain p' where "itoa_p tr p v buf radix = Some p'"
    "cstring (ld tr p') buf (numeral_string (unat radix) (unat v))"
    "\<forall>x. (\<forall>i<33. tr (buf + of_nat i) \<noteq> tr x) \<longrightarrow> ld tr p' x = ld tr p x" by blast
  moreover have "length (numeral_string (unat radix) (unat v)) \<le> 32"
    using length_digits_le [OF assms(1), of "unat v" 32] unat_lt_u32 [of v]
    by (auto simp: numeral_string_def)
  ultimately show ?thesis using parse_numeral_string [OF assms(1,2)] by blast
qed

theorem itoa_parses_back_witness:
  "\<exists>p' cs. itoa_p Some ident_mem 0xFFFFFFFF 0x1000 2 = Some p' \<and> cstring (ld Some p') 0x1000 cs \<and>
    parse_numeral 2 cs = 4294967295 \<and> length cs \<le> 32"
  using itoa_parses_back [of 2 Some "0x1000" ident_mem "0xFFFFFFFF"] block_ident [of 33 "0x1000"] by auto

end
