(* ===== verification/Machine.thy ===== *)
theory Machine
  imports CString
begin

text \<open>
  The machine the kernel runs on: physical memory, the paging structures of
  \<^verbatim>\<open>student-distrib/x86_desc.h\<close> with the address translation the processor performs on them,
  the interrupt flag and the history of port accesses. The record \<open>machine\<close> is extended by
  the later theories with the global variables of each source file, so that every routine
  here applies to the whole kernel state.
\<close>

section \<open>Paging structures\<close>

text \<open>The bit fields keep their widths, so an assignment truncates as it does in C.\<close>

record page_directory_t =
  pd_present :: "1 word"
  pd_read_write :: "1 word"
  pd_user_supervisor :: "1 word"
  pd_write_through :: "1 word"
  pd_cache_disabled :: "1 word"
  pd_accessed :: "1 word"
  pd_reserved :: "1 word"
  pd_size :: "1 word"
  pd_zero :: "1 word"
  pd_avail :: "3 word"
  pd_aligned_address :: "20 word"

record page_table_t =
  pt_present :: "1 word"
  pt_read_write :: "1 word"
  pt_user_supervisor :: "1 word"
  pt_write_through :: "1 word"
  pt_cache_disabled :: "1 word"
  pt_accessed :: "1 word"
  pt_dirty :: "1 word"
  pt_zero :: "1 word"
  pt_global :: "1 word"
  pt_avail :: "3 word"
  pt_page_address :: "20 word"

text \<open>
  The page directory, the two page tables, the link-time addresses of the three arrays, and
  the control registers.
\<close>

record paging =
  page_dir :: "nat \<Rightarrow> page_directory_t"
  page_table :: "nat \<Rightarrow> page_table_t"
  user_video_page_table :: "nat \<Rightarrow> page_table_t"
  page_dir_addr :: u32
  page_table_addr :: u32
  user_video_page_table_addr :: u32
  cr0 :: u32
  cr3 :: u32
  cr4 :: u32

section \<open>Address translation\<close>

text \<open>The page table that a directory entry's frame number refers to, if it is one of ours.\<close>

definition table_at :: "paging \<Rightarrow> 20 word \<Rightarrow> (nat \<Rightarrow> page_table_t) option" where
  "table_at g frame =
     (if frame = ucast (drop_bit 12 (page_table_addr g)) then Some (page_table g)
      else if frame = ucast (drop_bit 12 (user_video_page_table_addr g))
      then Some (user_video_page_table g)
      else None)"

text \<open>
  The walk of a supervisor access: the identity while paging is off; otherwise a 4 MB page
  (\<open>pd_size\<close>, with the page-size extension of \<^verbatim>\<open>cr4\<close>) or a 4 KB page of a page table.
  \<open>None\<close> is a page fault.
\<close>

definition walk :: "paging \<Rightarrow> xlate" where
  "walk g va =
     (if \<not> bit (cr0 g) 31 then Some va
      else if cr3 g \<noteq> page_dir_addr g then None
      else let e = page_dir g (unat (drop_bit 22 va)) in
        if pd_present e = 0 then None
        else if pd_size e = 1 \<and> bit (cr4 g) 4
        then Some (push_bit 22 (ucast (drop_bit 10 (pd_aligned_address e))) OR take_bit 22 va)
        else case table_at g (pd_aligned_address e) of
            None \<Rightarrow> None
          | Some t \<Rightarrow>
              let f = t (unat (take_bit 10 (drop_bit 12 va))) in
              if pt_present f = 0 then None
              else Some (push_bit 12 (ucast (pt_page_address f)) OR take_bit 12 va))"

text \<open>A user-mode access also needs the user bit at both levels.\<close>

definition user_may :: "paging \<Rightarrow> u32 \<Rightarrow> bool" where
  "user_may g va \<longleftrightarrow> walk g va \<noteq> None \<and>
     (let e = page_dir g (unat (drop_bit 22 va)) in
        pd_user_supervisor e = 1 \<and>
        (pd_size e = 1 \<and> bit (cr4 g) 4 \<or>
         (case table_at g (pd_aligned_address e) of
            None \<Rightarrow> False
          | Some t \<Rightarrow> pt_user_supervisor (t (unat (take_bit 10 (drop_bit 12 va)))) = 1)))"

section \<open>The machine state\<close>

datatype io_event = Outb u16 u8 | Inb u16 u8

text \<open>Newest port event first.\<close>

record machine =
  phys :: pmem
  pg :: paging
  iflag :: bool
  io :: "io_event list"

abbreviation translate :: "'a machine_scheme \<Rightarrow> xlate" where
  "translate k \<equiv> walk (pg k)"

text \<open>
  The devices answer an \<^verbatim>\<open>inb\<close> from the history of the port accesses: \<open>dev h port\<close> is the
  byte read. What a device answers is a parameter of every routine that reads a port.
\<close>

type_synonym device = "io_event list \<Rightarrow> u16 \<Rightarrow> u8"

definition outb :: "u8 \<Rightarrow> u16 \<Rightarrow> 'a machine_scheme \<Rightarrow> 'a machine_scheme" where
  "outb data port k = k\<lparr>io := Outb port data # io k\<rparr>"

definition inb :: "device \<Rightarrow> u16 \<Rightarrow> 'a machine_scheme \<Rightarrow> u8 \<times> 'a machine_scheme" where
  "inb dev port k = (let v = dev (io k) port in (v, k\<lparr>io := Inb port v # io k\<rparr>))"

definition cli :: "'a machine_scheme \<Rightarrow> 'a machine_scheme" where
  "cli k = k\<lparr>iflag := False\<rparr>"

definition sti :: "'a machine_scheme \<Rightarrow> 'a machine_scheme" where
  "sti k = k\<lparr>iflag := True\<rparr>"

declare outb_def [unfold_k] inb_def [unfold_k] cli_def [unfold_k] sti_def [unfold_k]

text \<open>Memory accesses of the kernel at a linear address.\<close>

definition ldb :: "'a machine_scheme \<Rightarrow> u32 \<Rightarrow> u8" where
  "ldb k a = ld (translate k) (phys k) a"

definition stb :: "'a machine_scheme \<Rightarrow> u32 \<Rightarrow> u8 \<Rightarrow> 'a machine_scheme" where
  "stb k a v = k\<lparr>phys := st (translate k) (phys k) a v\<rparr>"

definition ldw :: "'a machine_scheme \<Rightarrow> u32 \<Rightarrow> u32" where
  "ldw k a = ld32 (translate k) (phys k) a"

definition memcpy :: "'a machine_scheme \<Rightarrow> u32 \<Rightarrow> u32 \<Rightarrow> u32 \<Rightarrow> 'a machine_scheme" where
  "memcpy k dest src n = k\<lparr>phys := memcpy_p (translate k) (phys k) dest src n\<rparr>"

definition memset :: "'a machine_scheme \<Rightarrow> u32 \<Rightarrow> u32 \<Rightarrow> u32 \<Rightarrow> 'a machine_scheme" where
  "memset k s c n = k\<lparr>phys := memset_p (translate k) (phys k) s c n\<rparr>"

definition strlen :: "'a machine_scheme \<Rightarrow> u32 \<Rightarrow> u32 option" where
  "strlen k s = strlen_p (translate k) (phys k) s"

definition strncmp :: "'a machine_scheme \<Rightarrow> u32 \<Rightarrow> u32 \<Rightarrow> u32 \<Rightarrow> int" where
  "strncmp k s1 s2 n = strncmp_p (translate k) (phys k) s1 s2 n"

definition itoa :: "'a machine_scheme \<Rightarrow> u32 \<Rightarrow> u32 \<Rightarrow> u32 \<Rightarrow> 'a machine_scheme option" where
  "itoa k value buf radix =
     map_option (\<lambda>p. k\<lparr>phys := p\<rparr>) (itoa_p (translate k) (phys k) value buf radix)"

section \<open>Page arithmetic\<close>

lemma or_page_eq_add:
  "push_bit 12 (ucast (f :: 20 word)) OR take_bit 12 (va :: u32) =
     push_bit 12 (ucast f) + take_bit 12 va"
  by (rule disjunctive_add [symmetric]) (auto simp: bit_simps)

lemma unat_ucast_20 [simp]: "unat (ucast (v :: 20 word) :: u32) = unat v"
proof -
  have "unat v < 2 ^ 20" by (rule order.strict_trans2 [OF unsigned_less]) simp
  then have "take_bit 32 (unat v) = unat v" by (simp add: take_bit_nat_eq_self)
  then show ?thesis by (simp add: unsigned_ucast_eq)
qed

text \<open>The address of byte \<open>off\<close> of the 4 KB page number \<open>v\<close>.\<close>

definition in_page :: "20 word \<Rightarrow> nat \<Rightarrow> u32" where
  "in_page v off = push_bit 12 (ucast v) + of_nat off"

lemma in_page_bits:
  assumes "off < 4096"
  shows "take_bit 12 (in_page v off) = of_nat off"
    and "drop_bit 12 (in_page v off) = ucast v"
    and "drop_bit 22 (in_page v off) = ucast (drop_bit 10 v)"
proof -
  have "take_bit 12 off = off" using assms by (simp add: take_bit_nat_eq_self)
  then have bit_o: "bit off n \<Longrightarrow> n < 12" for n
    by (metis bit_take_bit_iff)
  have eq: "in_page v off = push_bit 12 (ucast v) OR (of_nat off :: u32)"
    unfolding in_page_def by (rule disjunctive_add) (auto simp: bit_simps dest: bit_o)
  show "take_bit 12 (in_page v off) = of_nat off"
    unfolding eq using bit_o by (intro bit_word_eqI) (auto simp: bit_simps)
  show d: "drop_bit 12 (in_page v off) = ucast v"
    unfolding eq using bit_o by (intro bit_word_eqI) (auto simp: bit_simps dest: bit_imp_le_length)
  have v: "bit v n \<Longrightarrow> n < 20" for n
    using bit_imp_le_length [of v n] by simp
  have "drop_bit 22 (in_page v off) = drop_bit 10 (drop_bit 12 (in_page v off))"
    by simp
  also have "\<dots> = ucast (drop_bit 10 v)"
    unfolding d by (intro bit_word_eqI) (auto simp: bit_simps dest: v)
  finally show "drop_bit 22 (in_page v off) = ucast (drop_bit 10 v)" .
qed

lemma in_page_inj:
  assumes "off < 4096" "off' < 4096"
  shows "in_page v off = in_page w off' \<longleftrightarrow> v = w \<and> off = off'"
proof
  assume eq: "in_page v off = in_page w off'"
  have "(of_nat off :: u32) = of_nat off'"
    using in_page_bits(1) [OF assms(1), of v] in_page_bits(1) [OF assms(2), of w] eq by simp
  moreover have "unat v = unat w"
    using in_page_bits(2) [OF assms(1), of v] in_page_bits(2) [OF assms(2), of w] eq
    by (metis unat_ucast_20)
  ultimately show "v = w \<and> off = off'"
    using of_nat_u32_inj [of off off'] assms by (simp add: word_unat_eq_iff)
qed simp

text \<open>Translation through a page table, page by page.\<close>

lemma walk_in_page:
  assumes "bit (cr0 g) 31" "cr3 g = page_dir_addr g" "off < 4096"
    and "pd_present (page_dir g (unat (drop_bit 10 v))) = 1"
    and "pd_size (page_dir g (unat (drop_bit 10 v))) = 0"
    and "table_at g (pd_aligned_address (page_dir g (unat (drop_bit 10 v)))) = Some t"
  shows "walk g (in_page v off) =
    (if pt_present (t (unat (take_bit 10 v))) = 0 then None
     else Some (in_page (pt_page_address (t (unat (take_bit 10 v)))) off))"
proof -
  have u: "unat (drop_bit 22 (in_page v off)) = unat (drop_bit 10 v)"
    "unat (take_bit 10 (drop_bit 12 (in_page v off))) = unat (take_bit 10 v)"
    using assms(3) by (simp_all add: in_page_bits unsigned_take_bit_eq)
  show ?thesis
    unfolding walk_def Let_def u or_page_eq_add
    using assms by (simp add: in_page_bits) (simp add: in_page_def)
qed

end
