(* ===== verification/Paging.thy ===== *)
theory Paging
  imports Machine
begin

text \<open>
  \<^verbatim>\<open>student-distrib/paging.c\<close>: building the page directory and the two page tables, giving a
  process its 4 MB page, and pointing the video window of the active terminal at the screen
  or at the terminal's backing page.
\<close>

section \<open>Constants and entry initialisation\<close>

definition SINGLE_PAGE_DIR_OFFSET :: int where "SINGLE_PAGE_DIR_OFFSET = 1024"
definition USER_LEVEL_OFFSET :: int where "USER_LEVEL_OFFSET = 2 * 1024"
definition USER_SPACE_START :: nat where "USER_SPACE_START = 32"
definition USER_VIDEO_START :: nat where "USER_VIDEO_START = 40"
definition VIDEO_IND :: nat where "VIDEO_IND = 0xB8"
definition STATIC_VIDEO_IND :: nat where "STATIC_VIDEO_IND = 0xB8 + 4"
definition PAGE_TABLE_SIZE :: nat where "PAGE_TABLE_SIZE = 1024"
definition PAGE_DIRECTORY_SIZE :: nat where "PAGE_DIRECTORY_SIZE = 1024"

lemmas paging_consts =
  SINGLE_PAGE_DIR_OFFSET_def USER_LEVEL_OFFSET_def USER_SPACE_START_def USER_VIDEO_START_def
  VIDEO_IND_def STATIC_VIDEO_IND_def PAGE_TABLE_SIZE_def PAGE_DIRECTORY_SIZE_def

definition page_table_init :: "nat \<Rightarrow> paging \<Rightarrow> paging" where
  "page_table_init ind g = g\<lparr>page_table := (page_table g)(ind :=
     \<lparr>pt_present = 0, pt_read_write = 0, pt_user_supervisor = 0, pt_write_through = 0,
      pt_cache_disabled = 0, pt_accessed = 0, pt_dirty = 0, pt_zero = 0, pt_global = 0,
      pt_avail = 0, pt_page_address = 0\<rparr>)\<rparr>"

definition user_video_page_table_init :: "nat \<Rightarrow> paging \<Rightarrow> paging" where
  "user_video_page_table_init ind g = g\<lparr>user_video_page_table := (user_video_page_table g)(ind :=
     \<lparr>pt_present = 0, pt_read_write = 0, pt_user_supervisor = 0, pt_write_through = 0,
      pt_cache_disabled = 0, pt_accessed = 0, pt_dirty = 0, pt_zero = 0, pt_global = 0,
      pt_avail = 0, pt_page_address = 0\<rparr>)\<rparr>"

definition page_directory_init :: "nat \<Rightarrow> paging \<Rightarrow> paging" where
  "page_directory_init ind g = g\<lparr>page_dir := (page_dir g)(ind :=
     \<lparr>pd_present = 0, pd_read_write = 1, pd_user_supervisor = 0, pd_write_through = 0,
      pd_cache_disabled = 0, pd_accessed = 0, pd_reserved = 0, pd_size = 0, pd_zero = 0,
      pd_avail = 0, pd_aligned_address = 0\<rparr>)\<rparr>"

text \<open>Assignments to one field of one entry.\<close>

definition upd_dir :: "nat \<Rightarrow> (page_directory_t \<Rightarrow> page_directory_t) \<Rightarrow> paging \<Rightarrow> paging" where
  "upd_dir i f g = g\<lparr>page_dir := (page_dir g)(i := f (page_dir g i))\<rparr>"

definition upd_table :: "nat \<Rightarrow> (page_table_t \<Rightarrow> page_table_t) \<Rightarrow> paging \<Rightarrow> paging" where
  "upd_table i f g = g\<lparr>page_table := (page_table g)(i := f (page_table g i))\<rparr>"

definition upd_uvtable :: "nat \<Rightarrow> (page_table_t \<Rightarrow> page_table_t) \<Rightarrow> paging \<Rightarrow> paging" where
  "upd_uvtable i f g =
     g\<lparr>user_video_page_table := (user_video_page_table g)(i := f (user_video_page_table g i))\<rparr>"

text \<open>
  The inline assembly that ends \<^verbatim>\<open>paging_init\<close>, \<^verbatim>\<open>setup_task_page\<close> and
  \<^verbatim>\<open>set_active_terminal_paging\<close>: load \<^verbatim>\<open>cr3\<close>, set the page-size bit of \<^verbatim>\<open>cr4\<close> and the
  paging and protection bits of \<^verbatim>\<open>cr0\<close>.
\<close>

definition reload_cr3 :: "paging \<Rightarrow> paging" where
  "reload_cr3 g = g\<lparr>cr3 := page_dir_addr g, cr4 := cr4 g OR 0x10, cr0 := cr0 g OR 0x80000001\<rparr>"

section \<open>The operations\<close>

definition setupt_video_user_level :: "paging \<Rightarrow> paging" where
  "setupt_video_user_level g0 =
     (let g = for_range 0 PAGE_TABLE_SIZE (\<lambda>i g.
            let g = user_video_page_table_init i g;
                g = (if i \<noteq> 0 then upd_uvtable i (pt_present_update (\<lambda>_. 1)) g else g);
                g = upd_uvtable i (pt_user_supervisor_update (\<lambda>_. 1)) g;
                g = upd_uvtable i (pt_read_write_update (\<lambda>_. 1)) g
            in upd_uvtable i (pt_page_address_update (\<lambda>_. of_nat i)) g) g0;
          g = page_directory_init USER_VIDEO_START g;
          g = upd_dir USER_VIDEO_START (pd_present_update (\<lambda>_. 1)) g;
          g = upd_dir USER_VIDEO_START (pd_user_supervisor_update (\<lambda>_. 1)) g;
          g = upd_dir USER_VIDEO_START (pd_size_update (\<lambda>_. 0)) g
      in upd_dir USER_VIDEO_START
           (pd_aligned_address_update (\<lambda>_. ucast (drop_bit 12 (user_video_page_table_addr g)))) g)"

definition set_active_terminal_paging :: "int \<Rightarrow> int \<Rightarrow> paging \<Rightarrow> paging" where
  "set_active_terminal_paging terminal_id display g =
     (let page = (if display = 0 then word_of_int (int VIDEO_IND + terminal_id + 1)
                  else of_nat VIDEO_IND);
          g = upd_table VIDEO_IND (pt_page_address_update (\<lambda>_. page)) g;
          g = upd_uvtable VIDEO_IND (pt_page_address_update (\<lambda>_. page)) g
      in reload_cr3 g)"

definition paging_init :: "paging \<Rightarrow> paging" where
  "paging_init g0 =
     (let g = for_range 2 PAGE_DIRECTORY_SIZE (\<lambda>i g.
            let g = page_directory_init i g;
                g = upd_dir i (pd_read_write_update (\<lambda>_. 1)) g;
                g = upd_dir i (pd_aligned_address_update (\<lambda>_. of_nat (i * 1024))) g
            in upd_dir i (pd_size_update (\<lambda>_. 1)) g) g0;
          g = for_range 0 PAGE_TABLE_SIZE (\<lambda>i g.
            let g = page_table_init i g;
                g = (if i \<noteq> 0 then upd_table i (pt_present_update (\<lambda>_. 1)) g else g);
                g = upd_table i (pt_read_write_update (\<lambda>_. 1)) g
            in upd_table i (pt_page_address_update (\<lambda>_. of_nat i)) g) g;
          g = upd_table STATIC_VIDEO_IND (pt_page_address_update (\<lambda>_. of_nat VIDEO_IND)) g;
          g = page_directory_init 0 g;
          g = upd_dir 0 (pd_aligned_address_update (\<lambda>_. ucast (drop_bit 12 (page_table_addr g)))) g;
          g = upd_dir 0 (pd_present_update (\<lambda>_. 1)) g;
          g = page_directory_init 1 g;
          g = upd_dir 1 (pd_present_update (\<lambda>_. 1)) g;
          g = upd_dir 1 (pd_aligned_address_update (\<lambda>_. 1024)) g;
          g = upd_dir 1 (pd_size_update (\<lambda>_. 1)) g;
          g = upd_dir 1 (pd_user_supervisor_update (\<lambda>_. 0)) g;
          g = setupt_video_user_level g;
          g = set_active_terminal_paging 0 1 g
      in reload_cr3 g)"

definition setup_task_page :: "int \<Rightarrow> paging \<Rightarrow> paging" where
  "setup_task_page ind g =
     (let g = page_directory_init USER_SPACE_START g;
          g = upd_dir USER_SPACE_START (pd_present_update (\<lambda>_. 1)) g;
          g = upd_dir USER_SPACE_START (pd_user_supervisor_update (\<lambda>_. 1)) g;
          g = upd_dir USER_SPACE_START (pd_size_update (\<lambda>_. 1)) g;
          g = upd_dir USER_SPACE_START (pd_aligned_address_update
                (\<lambda>_. word_of_int (ind * SINGLE_PAGE_DIR_OFFSET + USER_LEVEL_OFFSET))) g
      in reload_cr3 g)"

lemmas paging_updates = page_table_init_def user_video_page_table_init_def page_directory_init_def
  upd_dir_def upd_table_def upd_uvtable_def reload_cr3_def

section \<open>The tables after initialisation\<close>

text \<open>An identity-mapped entry of the kernel's and of the user's page table, and of the directory.\<close>

definition kernel_pte :: "nat \<Rightarrow> page_table_t" where
  "kernel_pte i =
     \<lparr>pt_present = (if i = 0 then 0 else 1), pt_read_write = 1, pt_user_supervisor = 0,
      pt_write_through = 0, pt_cache_disabled = 0, pt_accessed = 0, pt_dirty = 0, pt_zero = 0,
      pt_global = 0, pt_avail = 0, pt_page_address = of_nat i\<rparr>"

definition user_pte :: "nat \<Rightarrow> page_table_t" where
  "user_pte i = (kernel_pte i)\<lparr>pt_user_supervisor := 1\<rparr>"

definition unused_pde :: "nat \<Rightarrow> page_directory_t" where
  "unused_pde i =
     \<lparr>pd_present = 0, pd_read_write = 1, pd_user_supervisor = 0, pd_write_through = 0,
      pd_cache_disabled = 0, pd_accessed = 0, pd_reserved = 0, pd_size = 1, pd_zero = 0,
      pd_avail = 0, pd_aligned_address = of_nat (i * 1024)\<rparr>"

lemma for_range_page_dir:
  "for_range a b (\<lambda>i g. let g = page_directory_init i g;
       g = upd_dir i (pd_read_write_update (\<lambda>_. 1)) g;
       g = upd_dir i (pd_aligned_address_update (\<lambda>_. of_nat (i * 1024))) g
     in upd_dir i (pd_size_update (\<lambda>_. 1)) g) g =
   g\<lparr>page_dir := (\<lambda>i. if a \<le> i \<and> i < b then unused_pde i else page_dir g i)\<rparr>"
proof (induction b)
  case 0
  then show ?case by simp
next
  case (Suc b)
  show ?case
  proof (cases "a \<le> b")
    case True
    show ?thesis
      unfolding for_range_Suc [OF True] Suc.IH
      using True by (simp add: paging_updates unused_pde_def fun_eq_iff)
  next
    case False
    then have "(\<lambda>i. if a \<le> i \<and> i < Suc b then unused_pde i else page_dir g i) = page_dir g"
      by (auto simp: fun_eq_iff)
    then show ?thesis using False by simp
  qed
qed

lemma for_range_page_table:
  "for_range 0 n (\<lambda>i g. let g = page_table_init i g;
       g = (if i \<noteq> 0 then upd_table i (pt_present_update (\<lambda>_. 1)) g else g);
       g = upd_table i (pt_read_write_update (\<lambda>_. 1)) g
     in upd_table i (pt_page_address_update (\<lambda>_. of_nat i)) g) g =
   g\<lparr>page_table := (\<lambda>i. if i < n then kernel_pte i else page_table g i)\<rparr>"
proof (induction n)
  case 0
  then show ?case by simp
next
  case (Suc n)
  show ?case
    unfolding for_range_Suc [OF le0] Suc.IH
    by (cases "n = 0") (auto simp: Let_def paging_updates kernel_pte_def fun_eq_iff)
qed

lemma for_range_uvtable:
  "for_range 0 n (\<lambda>i g. let g = user_video_page_table_init i g;
       g = (if i \<noteq> 0 then upd_uvtable i (pt_present_update (\<lambda>_. 1)) g else g);
       g = upd_uvtable i (pt_user_supervisor_update (\<lambda>_. 1)) g;
       g = upd_uvtable i (pt_read_write_update (\<lambda>_. 1)) g
     in upd_uvtable i (pt_page_address_update (\<lambda>_. of_nat i)) g) g =
   g\<lparr>user_video_page_table := (\<lambda>i. if i < n then user_pte i else user_video_page_table g i)\<rparr>"
proof (induction n)
  case 0
  then show ?case by simp
next
  case (Suc n)
  show ?case
    unfolding for_range_Suc [OF le0] Suc.IH
    by (cases "n = 0") (auto simp: Let_def paging_updates kernel_pte_def user_pte_def fun_eq_iff)
qed

section \<open>The kernel's map\<close>

text \<open>
  The two page tables are distinct page-aligned arrays, so the directory tells them apart by
  their frame numbers.
\<close>

definition layout_ok :: "paging \<Rightarrow> bool" where
  "layout_ok g \<longleftrightarrow> (ucast (drop_bit 12 (page_table_addr g)) :: 20 word) \<noteq>
     ucast (drop_bit 12 (user_video_page_table_addr g))"

text \<open>
  What \<^verbatim>\<open>paging_init\<close> establishes and every later operation keeps. The frame the video
  window shows is the only part that changes, so it is a parameter: \<open>maps_video v\<close> says that
  page \<open>0xB8\<close> of the kernel and of the user's video window is frame \<open>v\<close>. \<open>kernel_tables\<close> is
  the fixed part: paging is on; the first 4 MB go through the page table with page zero
  absent, the physical-screen window at page \<open>0xBC\<close> and every other page identity-mapped; the
  kernel's 4 MB are identity-mapped; every other directory entry but the task page is absent.
\<close>

definition maps_video :: "20 word \<Rightarrow> paging \<Rightarrow> bool" where
  "maps_video v g \<longleftrightarrow>
     page_table g VIDEO_IND = (kernel_pte VIDEO_IND)\<lparr>pt_page_address := v\<rparr> \<and>
     user_video_page_table g VIDEO_IND = (user_pte VIDEO_IND)\<lparr>pt_page_address := v\<rparr>"

definition low_pde :: "paging \<Rightarrow> page_directory_t" where
  "low_pde g = (unused_pde 0)\<lparr>pd_present := 1, pd_size := 0,
     pd_aligned_address := ucast (drop_bit 12 (page_table_addr g))\<rparr>"

definition user_video_pde :: "paging \<Rightarrow> page_directory_t" where
  "user_video_pde g = (unused_pde 0)\<lparr>pd_present := 1, pd_size := 0, pd_user_supervisor := 1,
     pd_aligned_address := ucast (drop_bit 12 (user_video_page_table_addr g))\<rparr>"

definition kernel_tables :: "paging \<Rightarrow> bool" where
  "kernel_tables g \<longleftrightarrow> layout_ok g \<and> bit (cr0 g) 31 \<and> cr3 g = page_dir_addr g \<and> bit (cr4 g) 4 \<and>
     page_dir g 0 = low_pde g \<and>
     page_dir g 1 = (unused_pde 1)\<lparr>pd_present := 1\<rparr> \<and>
     page_dir g USER_VIDEO_START = user_video_pde g \<and>
     (\<forall>i<1024. i \<notin> {0, 1, USER_SPACE_START, USER_VIDEO_START} \<longrightarrow> page_dir g i = unused_pde i) \<and>
     (\<forall>i<1024. i \<noteq> VIDEO_IND \<longrightarrow> page_table g i =
        (if i = STATIC_VIDEO_IND then (kernel_pte i)\<lparr>pt_page_address := of_nat VIDEO_IND\<rparr>
         else kernel_pte i)) \<and>
     (\<forall>i<1024. i \<noteq> VIDEO_IND \<longrightarrow> user_video_page_table g i = user_pte i)"

definition kernel_map :: "20 word \<Rightarrow> paging \<Rightarrow> bool" where
  "kernel_map v g \<longleftrightarrow> kernel_tables g \<and> maps_video v g"

lemma bit_or_cr [simp]: "bit (x OR 0x80000001 :: u32) 31" "bit (x OR 0x10 :: u32) 4"
  by (simp_all add: bit_simps)

text \<open>\<^verbatim>\<open>paging_init\<close> in closed form, stage by stage.\<close>

lemma reload_cr3_sel [simp]:
  "page_dir (reload_cr3 g) = page_dir g" "page_table (reload_cr3 g) = page_table g"
  "user_video_page_table (reload_cr3 g) = user_video_page_table g"
  "page_dir_addr (reload_cr3 g) = page_dir_addr g"
  "page_table_addr (reload_cr3 g) = page_table_addr g"
  "user_video_page_table_addr (reload_cr3 g) = user_video_page_table_addr g"
  "cr3 (reload_cr3 g) = page_dir_addr g" "bit (cr0 (reload_cr3 g)) 31"
  "bit (cr4 (reload_cr3 g)) 4"
  by (simp_all add: reload_cr3_def)

lemma setupt_video_user_level_eq:
  "setupt_video_user_level g =
     g\<lparr>user_video_page_table := (\<lambda>i. if i < 1024 then user_pte i else user_video_page_table g i),
       page_dir := (page_dir g)(USER_VIDEO_START := user_video_pde g)\<rparr>"
  unfolding setupt_video_user_level_def for_range_uvtable
  by (simp add: Let_def page_directory_init_def upd_dir_def user_video_pde_def unused_pde_def
      PAGE_TABLE_SIZE_def)

definition dir_initialised :: "paging \<Rightarrow> nat \<Rightarrow> page_directory_t" where
  "dir_initialised g i =
     (if i = 0 then low_pde g else if i = 1 then (unused_pde 1)\<lparr>pd_present := 1\<rparr>
      else if i < 1024 then unused_pde i else page_dir g i)"

definition table_initialised :: "paging \<Rightarrow> nat \<Rightarrow> page_table_t" where
  "table_initialised g i =
     (if i = STATIC_VIDEO_IND then (kernel_pte i)\<lparr>pt_page_address := of_nat VIDEO_IND\<rparr>
      else if i < 1024 then kernel_pte i else page_table g i)"

lemma paging_init_eq:
  "paging_init g = reload_cr3 (set_active_terminal_paging 0 1 (setupt_video_user_level
     (g\<lparr>page_table := table_initialised g, page_dir := dir_initialised g\<rparr>)))"
proof -
  have dir: "dir_initialised g =
    (\<lambda>i. if 2 \<le> i \<and> i < PAGE_DIRECTORY_SIZE then unused_pde i else page_dir g i)
      (0 := low_pde g, 1 := (unused_pde 1)\<lparr>pd_present := 1\<rparr>)"
    by (auto simp: fun_eq_iff dir_initialised_def PAGE_DIRECTORY_SIZE_def)
  have tab: "table_initialised g =
    (\<lambda>i. if i < PAGE_TABLE_SIZE then kernel_pte i else page_table g i)
      (STATIC_VIDEO_IND := (kernel_pte STATIC_VIDEO_IND)\<lparr>pt_page_address := of_nat VIDEO_IND\<rparr>)"
    by (auto simp: fun_eq_iff table_initialised_def PAGE_TABLE_SIZE_def)
  have s: "STATIC_VIDEO_IND < PAGE_TABLE_SIZE"
    by (simp add: STATIC_VIDEO_IND_def PAGE_TABLE_SIZE_def)
  show ?thesis
    unfolding paging_init_def for_range_page_dir for_range_page_table dir tab
    using s by (simp add: Let_def page_directory_init_def upd_dir_def upd_table_def low_pde_def
        unused_pde_def cong: if_cong)
qed

lemma set_active_terminal_paging_eq:
  "set_active_terminal_paging t d g =
     (let v = (if d = 0 then word_of_int (int VIDEO_IND + t + 1) else of_nat VIDEO_IND) in
      reload_cr3 (g\<lparr>page_table := (page_table g)(VIDEO_IND :=
          (page_table g VIDEO_IND)\<lparr>pt_page_address := v\<rparr>),
        user_video_page_table := (user_video_page_table g)(VIDEO_IND :=
          (user_video_page_table g VIDEO_IND)\<lparr>pt_page_address := v\<rparr>)\<rparr>))"
  by (simp add: set_active_terminal_paging_def upd_table_def upd_uvtable_def Let_def)

lemma setup_task_page_eq:
  "setup_task_page ind g = reload_cr3 (g\<lparr>page_dir := (page_dir g)(USER_SPACE_START :=
     (unused_pde 0)\<lparr>pd_present := 1, pd_user_supervisor := 1,
       pd_aligned_address := word_of_int (ind * SINGLE_PAGE_DIR_OFFSET + USER_LEVEL_OFFSET)\<rparr>)\<rparr>)"
  by (simp add: setup_task_page_def page_directory_init_def upd_dir_def unused_pde_def Let_def)

lemma low_pde_upd [simp]:
  "low_pde (g\<lparr>page_dir := d\<rparr>) = low_pde g" "low_pde (g\<lparr>page_table := t\<rparr>) = low_pde g"
  "low_pde (g\<lparr>user_video_page_table := t\<rparr>) = low_pde g" "low_pde (reload_cr3 g) = low_pde g"
  "user_video_pde (g\<lparr>page_dir := d\<rparr>) = user_video_pde g"
  "user_video_pde (g\<lparr>page_table := t\<rparr>) = user_video_pde g"
  "user_video_pde (g\<lparr>user_video_page_table := t\<rparr>) = user_video_pde g"
  "user_video_pde (reload_cr3 g) = user_video_pde g"
  by (simp_all add: low_pde_def user_video_pde_def)

lemma ind_less [simp]:
  "VIDEO_IND < 1024" "STATIC_VIDEO_IND < 1024" "STATIC_VIDEO_IND \<noteq> VIDEO_IND"
  "VIDEO_IND \<noteq> STATIC_VIDEO_IND"
  "USER_SPACE_START < 1024" "USER_VIDEO_START < 1024" "USER_VIDEO_START \<noteq> USER_SPACE_START"
  "USER_SPACE_START \<noteq> USER_VIDEO_START" "USER_SPACE_START \<noteq> 0" "USER_VIDEO_START \<noteq> 0"
  "USER_SPACE_START \<noteq> 1" "USER_VIDEO_START \<noteq> 1"
  "USER_SPACE_START \<noteq> Suc 0" "USER_VIDEO_START \<noteq> Suc 0"
  "Suc 0 \<noteq> USER_SPACE_START" "Suc 0 \<noteq> USER_VIDEO_START"
  by (simp_all add: paging_consts)

lemma kernel_map_set_active_terminal_paging:
  assumes "kernel_map w g"
  shows "kernel_map (if d = 0 then word_of_int (int VIDEO_IND + t + 1) else of_nat VIDEO_IND)
           (set_active_terminal_paging t d g)"
  using assms unfolding kernel_map_def kernel_tables_def maps_video_def
    set_active_terminal_paging_eq Let_def layout_ok_def
  by simp

lemma kernel_map_setup_task_page:
  assumes "kernel_map v g"
  shows "kernel_map v (setup_task_page ind g)"
  using assms unfolding kernel_map_def kernel_tables_def maps_video_def setup_task_page_eq layout_ok_def
  by (elim conjE, intro conjI) simp_all

lemma paging_init_kernel_map:
  assumes "layout_ok g"
  shows "kernel_map (of_nat VIDEO_IND) (paging_init g)"
proof -
  have v: "kernel_pte VIDEO_IND = (kernel_pte VIDEO_IND)\<lparr>pt_page_address := of_nat VIDEO_IND\<rparr>"
    "user_pte VIDEO_IND = (user_pte VIDEO_IND)\<lparr>pt_page_address := of_nat VIDEO_IND\<rparr>"
    by (simp_all add: kernel_pte_def user_pte_def)
  show ?thesis
    using assms unfolding kernel_map_def kernel_tables_def maps_video_def paging_init_eq
      set_active_terminal_paging_eq Let_def setupt_video_user_level_eq layout_ok_def
    by (simp add: dir_initialised_def table_initialised_def)
qed

section \<open>Translation under the kernel's map\<close>

text \<open>Translation through a 4 MB page.\<close>

lemma walk_big_page:
  assumes "bit (cr0 g) 31" "cr3 g = page_dir_addr g" "bit (cr4 g) 4"
    and "i < 1024" "n < 1024" "off < 2 ^ 22"
    and "pd_present (page_dir g i) = 1" "pd_size (page_dir g i) = 1"
    and "pd_aligned_address (page_dir g i) = of_nat (n * 1024)"
  shows "walk g (of_nat (i * 2 ^ 22 + off)) = Some (of_nat (n * 2 ^ 22 + off))"
proof -
  let ?a = "of_nat (i * 2 ^ 22 + off) :: u32"
  have ua: "unat ?a = i * 2 ^ 22 + off"
    using assms by (simp add: unat_of_nat_small del: of_nat_mult of_nat_add)
  have d: "unat (drop_bit 22 ?a) = i"
    using assms(6) by (simp only: unat_drop_bit_eq ua) (simp add: drop_bit_eq_div)
  have "unat (take_bit 22 ?a) = off"
    using assms(6) by (simp only: unsigned_take_bit_eq ua) (simp add: take_bit_eq_mod)
  then have t: "take_bit 22 ?a = of_nat off"
    by (metis of_nat_unat ucast_id)
  have f: "push_bit 22 (ucast (drop_bit 10 (of_nat (n * 1024) :: 20 word)) :: u32) = of_nat (n * 2 ^ 22)"
  proof -
    have "unat (drop_bit 10 (of_nat (n * 1024) :: 20 word)) = n"
      using assms(5) by (simp add: unat_drop_bit_eq unat_of_nat_small del: of_nat_mult)
        (simp add: drop_bit_eq_div)
    then have "ucast (drop_bit 10 (of_nat (n * 1024) :: 20 word)) = (of_nat n :: u32)"
      by (metis of_nat_unat)
    then show ?thesis
      by (simp add: push_bit_eq_mult)
  qed
  have "take_bit 22 off = off"
    using assms(6) by (simp add: take_bit_nat_eq_self)
  then have bit_o: "bit off k \<Longrightarrow> k < 22" for k
    by (metis bit_take_bit_iff)
  have "push_bit 22 w OR (of_nat off :: u32) = push_bit 22 w + of_nat off" for w
    by (rule disjunctive_add [symmetric]) (auto simp: bit_simps dest: bit_o)
  then have "push_bit 22 (ucast (drop_bit 10 (of_nat (n * 1024) :: 20 word))) OR of_nat off =
      (of_nat (n * 2 ^ 22 + off) :: u32)"
    unfolding f [symmetric] of_nat_add .
  then show ?thesis
    unfolding walk_def Let_def d t using assms by simp
qed

text \<open>The low 4 MB, page by page.\<close>

lemma kernel_mapD:
  assumes "kernel_map v g"
  shows "layout_ok g" "bit (cr0 g) 31" "cr3 g = page_dir_addr g" "bit (cr4 g) 4"
    "page_dir g 0 = low_pde g" "page_dir g 1 = (unused_pde 1)\<lparr>pd_present := 1\<rparr>"
    "page_dir g USER_VIDEO_START = user_video_pde g"
  using assms by (simp_all add: kernel_map_def kernel_tables_def)

lemma table_at_low:
  "table_at g (pd_aligned_address (low_pde g)) = Some (page_table g)"
  by (simp add: table_at_def low_pde_def)

lemma table_at_user_video:
  "layout_ok g \<Longrightarrow> table_at g (pd_aligned_address (user_video_pde g)) = Some (user_video_page_table g)"
  by (auto simp: table_at_def user_video_pde_def layout_ok_def)

lemma low_pde_flags [simp]:
  "pd_present (low_pde g) = 1" "pd_size (low_pde g) = 0" "pd_user_supervisor (low_pde g) = 0"
  "pd_present (user_video_pde g) = 1" "pd_size (user_video_pde g) = 0"
  "pd_user_supervisor (user_video_pde g) = 1"
  by (simp_all add: low_pde_def user_video_pde_def unused_pde_def)

lemma low_page_number:
  assumes "n < 1024"
  shows "unat (drop_bit 10 (of_nat n :: 20 word)) = 0" "unat (take_bit 10 (of_nat n :: 20 word)) = n"
  using assms
  by (simp_all add: unat_drop_bit_eq unsigned_take_bit_eq unat_of_nat_small take_bit_nat_eq_self)
    (simp add: drop_bit_eq_div)

lemma walk_low:
  assumes "kernel_map v g" "n < 1024" "off < 4096"
  shows "walk g (in_page (of_nat n) off) =
    (if n = 0 then None
     else Some (in_page (if n = VIDEO_IND then v else if n = STATIC_VIDEO_IND then of_nat VIDEO_IND
                         else of_nat n) off))"
proof -
  have w: "walk g (in_page (of_nat n) off) =
      (if pt_present (page_table g n) = 0 then None
       else Some (in_page (pt_page_address (page_table g n)) off))"
    using assms walk_in_page [of g off "of_nat n" "page_table g"]
    by (simp add: low_page_number table_at_low kernel_map_def kernel_tables_def)
  consider "n = VIDEO_IND" | "n \<noteq> VIDEO_IND" by blast
  then show ?thesis
  proof cases
    case 1
    with w assms show ?thesis
      by (simp add: kernel_map_def maps_video_def kernel_pte_def VIDEO_IND_def)
  next
    case 2
    with w assms show ?thesis
      by (simp add: kernel_map_def kernel_tables_def kernel_pte_def STATIC_VIDEO_IND_def)
  qed
qed

text \<open>The kernel's own 4 MB.\<close>

lemma walk_kernel_page:
  assumes "kernel_map v g" "off < 2 ^ 22"
  shows "walk g (of_nat (2 ^ 22 + off)) = Some (of_nat (2 ^ 22 + off))"
  using assms walk_big_page [of g 1 1 off]
  by (simp add: kernel_map_def kernel_tables_def unused_pde_def)

text \<open>The page of a process.\<close>

lemma walk_task_page:
  assumes "kernel_map v g" "pid < 1022" "off < 2 ^ 22"
  shows "walk (setup_task_page (int pid) g) (of_nat (0x8000000 + off)) =
           Some (of_nat (0x800000 + pid * 0x400000 + off))"
proof -
  have "kernel_map v (setup_task_page (int pid) g)"
    using assms(1) by (rule kernel_map_setup_task_page)
  note g = kernel_mapD(2-4) [OF this]
  have d: "page_dir (setup_task_page (int pid) g) 32 =
    (unused_pde 0)\<lparr>pd_present := 1, pd_user_supervisor := 1,
       pd_aligned_address := of_nat ((pid + 2) * 1024)\<rparr>"
    unfolding setup_task_page_eq
    by (simp add: paging_consts algebra_simps)
  show ?thesis
    using walk_big_page [OF g, of 32 "pid + 2" off] assms d
    by (simp add: unused_pde_def algebra_simps)
qed

text \<open>Apart from its own 4 MB page, giving a process its page changes no translation.\<close>

lemma walk_setup_task_page_other:
  assumes "kernel_map v g" "unat (drop_bit 22 a) \<noteq> USER_SPACE_START"
  shows "walk (setup_task_page ind g) a = walk g a"
proof -
  note g = kernel_mapD(2-4) [OF kernel_map_setup_task_page [OF assms(1)], of ind]
  have "table_at (setup_task_page ind g) = table_at g"
    by (simp add: fun_eq_iff table_at_def setup_task_page_eq)
  moreover have "page_dir (setup_task_page ind g) (unat (drop_bit 22 a)) =
      page_dir g (unat (drop_bit 22 a))"
    using assms(2) by (simp add: setup_task_page_eq)
  ultimately show ?thesis
    using g kernel_mapD(2-4) [OF assms(1)] by (simp add: walk_def Let_def)
qed

text \<open>What user code may touch: the page of the running process and the video window.\<close>

lemma user_may_iff:
  assumes "kernel_map v g"
  shows "user_may (setup_task_page ind g) a \<longleftrightarrow>
    unat (drop_bit 22 a) = USER_SPACE_START \<or>
    unat (drop_bit 22 a) = USER_VIDEO_START \<and> take_bit 10 (drop_bit 12 a) \<noteq> 0"
proof -
  define g' where "g' = setup_task_page ind g"
  define i where "i = unat (drop_bit 22 a)"
  define j where "j = unat (take_bit 10 (drop_bit 12 a))"
  have km: "kernel_map v g'"
    unfolding g'_def using assms by (rule kernel_map_setup_task_page)
  note g = kernel_mapD [OF km]
  have i: "i < 1024"
    using unat_lt_u32 [of a] by (simp only: i_def unat_drop_bit_eq) (simp add: drop_bit_eq_div)
  have j: "j < 1024" "take_bit 10 (drop_bit 12 a) \<noteq> 0 \<longleftrightarrow> j \<noteq> 0"
    by (simp only: j_def unsigned_take_bit_eq, simp add: take_bit_eq_mod)
      (simp add: j_def flip: unat_eq_0)
  have task: "page_dir g' USER_SPACE_START = (unused_pde 0)\<lparr>pd_present := 1, pd_user_supervisor := 1,
       pd_aligned_address := word_of_int (ind * SINGLE_PAGE_DIR_OFFSET + USER_LEVEL_OFFSET)\<rparr>"
    by (simp add: g'_def setup_task_page_eq)
  have uv: "pt_user_supervisor (user_video_page_table g' j) = 1"
    "pt_present (user_video_page_table g' j) = (if j = 0 then 0 else 1)"
    using km j(1) by (cases "j = VIDEO_IND";
        simp add: kernel_map_def kernel_tables_def maps_video_def user_pte_def kernel_pte_def VIDEO_IND_def)+
  consider "i = 0" | "i = 1" | "i = USER_SPACE_START" | "i = USER_VIDEO_START"
    | "i \<notin> {0, 1, USER_SPACE_START, USER_VIDEO_START}" by blast
  then have "user_may g' a \<longleftrightarrow> i = USER_SPACE_START \<or> i = USER_VIDEO_START \<and> j \<noteq> 0"
  proof cases
    case 5
    then have "page_dir g' i = unused_pde i"
      using km i by (simp add: kernel_map_def kernel_tables_def)
    then show ?thesis
      using 5 g by (simp add: user_may_def walk_def flip: i_def) (simp add: unused_pde_def)
  qed (use g task uv table_at_low [of g'] table_at_user_video [of g'] in
      \<open>simp_all add: user_may_def walk_def flip: i_def j_def\<close>, simp_all add: unused_pde_def)
  then show ?thesis
    by (simp add: g'_def i_def j(2))
qed

end
