(* ===== verification/Screen.thy ===== *)
theory Screen
  imports Paging "HOL-Library.Signed_Division"
begin

text \<open>
  The terminals of \<^verbatim>\<open>student-distrib/lib.c\<close>: three text screens of 25 rows by 80 columns, one
  of which is displayed and one of which belongs to the running process. A screen is an array
  of character/attribute pairs in video memory; the displayed terminal lives in the physical
  screen and the others in a backing page each. The kernel writes through two windows: the
  page at \<open>VIDEO\<close>, which paging points at the active terminal, and the page at
  \<open>VIDEO_PHYSICAL\<close>, which always shows the physical screen.
\<close>

section \<open>State and constants\<close>

definition VIDEO :: u32 where "VIDEO = 0xB8000"
definition VIDEO_PHYSICAL :: u32 where "VIDEO_PHYSICAL = 0xB8000 + 0x4000"
definition NUM_COLS :: nat where "NUM_COLS = 80"
definition NUM_ROWS :: nat where "NUM_ROWS = 25"
definition ATTRIB :: u8 where "ATTRIB = 0x7"
definition KB_4 :: u32 where "KB_4 = 0x1000"

definition TERMINAL_MEM :: "int \<Rightarrow> u32" where
  "TERMINAL_MEM t = VIDEO + 0x1000 * (word_of_int t + 1)"

record screen = machine +
  screen_x :: int
  screen_y :: int
  screen_x_multi :: "int \<Rightarrow> int"
  screen_y_multi :: "int \<Rightarrow> int"
  screen_x_before_input :: int
  screen_y_before_input :: int
  display_terminal :: int
  active_terminal :: int

definition get_active_terminal :: "'a screen_scheme \<Rightarrow> int" where
  "get_active_terminal k = active_terminal k"

definition get_display_terminal :: "'a screen_scheme \<Rightarrow> int" where
  "get_display_terminal k = display_terminal k"

text \<open>Assignments to one slot of the cursor arrays.\<close>

definition set_x :: "int \<Rightarrow> int \<Rightarrow> 'a screen_scheme \<Rightarrow> 'a screen_scheme" where
  "set_x t x k = k\<lparr>screen_x_multi := (screen_x_multi k)(t := x)\<rparr>"

definition set_y :: "int \<Rightarrow> int \<Rightarrow> 'a screen_scheme \<Rightarrow> 'a screen_scheme" where
  "set_y t y k = k\<lparr>screen_y_multi := (screen_y_multi k)(t := y)\<rparr>"

section \<open>Cells\<close>

text \<open>
  The cell of row \<open>y\<close>, column \<open>x\<close> is at byte \<^verbatim>\<open>(NUM_COLS * y + x) << 1\<close> of the window; the
  character comes first, the attribute second.
\<close>

definition cell_addr :: "u32 \<Rightarrow> int \<Rightarrow> u32" where
  "cell_addr base i = base + word_of_int (2 * i)"

definition put_cell :: "u32 \<Rightarrow> int \<Rightarrow> u8 \<Rightarrow> 'a machine_scheme \<Rightarrow> 'a machine_scheme" where
  "put_cell base i c k = stb (stb k (cell_addr base i) c) (cell_addr base i + 1) ATTRIB"

definition cell_index :: "int \<Rightarrow> int \<Rightarrow> int" where
  "cell_index y x = int NUM_COLS * y + x"

definition update_cursor :: "int \<Rightarrow> int \<Rightarrow> 'a machine_scheme \<Rightarrow> 'a machine_scheme" where
  "update_cursor x y k =
     (let pos = word_of_int (y * int NUM_COLS + x) :: u16;
          k = outb 0x0F 0x3D4 k;
          k = outb (ucast (pos AND 0xFF)) 0x3D5 k;
          k = outb 0x0E 0x3D4 k
      in outb (ucast (drop_bit 8 pos AND 0xFF)) 0x3D5 k)"

section \<open>Switching terminals\<close>

definition set_active_terminal :: "int \<Rightarrow> 'a screen_scheme \<Rightarrow> 'a screen_scheme" where
  "set_active_terminal terminal_id k =
     (let k = (if terminal_id = display_terminal k
               then k\<lparr>pg := set_active_terminal_paging terminal_id 1 (pg k)\<rparr>
               else k\<lparr>pg := set_active_terminal_paging terminal_id 0 (pg k)\<rparr>)
      in k\<lparr>active_terminal := terminal_id\<rparr>)"

definition set_disiplay_terminal :: "int \<Rightarrow> 'a screen_scheme \<Rightarrow> 'a screen_scheme" where
  "set_disiplay_terminal terminal_id k =
     (let k = memcpy k (TERMINAL_MEM (display_terminal k)) VIDEO_PHYSICAL KB_4;
          k = memcpy k VIDEO_PHYSICAL (TERMINAL_MEM terminal_id) KB_4;
          k = k\<lparr>display_terminal := terminal_id\<rparr>;
          k = set_active_terminal (active_terminal k) k
      in update_cursor (screen_x_multi k terminal_id) (screen_y_multi k terminal_id) k)"

definition clear :: "'a screen_scheme \<Rightarrow> 'a screen_scheme" where
  "clear k =
     (let d = display_terminal k;
          k = set_x d 0 (set_y d 0 k);
          k = for_range 0 (NUM_ROWS * NUM_COLS)
                (\<lambda>i k. put_cell VIDEO_PHYSICAL (int i) (ch CHR '' '') k) k
      in update_cursor (screen_x_multi k d) (screen_y_multi k d) k)"

section \<open>The unscrolled console\<close>

text \<open>C's integer \<^verbatim>\<open>/\<close> and \<^verbatim>\<open>%\<close> truncate towards zero.\<close>

definition putc :: "u8 \<Rightarrow> 'a screen_scheme \<Rightarrow> 'a screen_scheme" where
  "putc c k =
     (if c = 10 \<or> c = 13
      then let k = k\<lparr>screen_y := screen_y k + 1\<rparr> in k\<lparr>screen_x := 0\<rparr>
      else let k = put_cell VIDEO (cell_index (screen_y k) (screen_x k)) c k;
               k = k\<lparr>screen_x := screen_x k + 1\<rparr>;
               k = k\<lparr>screen_x := screen_x k smod int NUM_COLS\<rparr>
           in k\<lparr>screen_y := (screen_y k + screen_x k sdiv int NUM_COLS) smod int NUM_ROWS\<rparr>)"

partial_function (option) puts_from ::
  "u32 \<Rightarrow> u32 \<Rightarrow> 'a screen_scheme \<Rightarrow> ('a screen_scheme \<times> u32) option" where
  "puts_from s index k =
     (if ldb k (s + index) \<noteq> 0 then puts_from s (index + 1) (putc (ldb k (s + index)) k)
      else Some (k, index))"

definition puts :: "u32 \<Rightarrow> 'a screen_scheme \<Rightarrow> ('a screen_scheme \<times> u32) option" where
  "puts s k = puts_from s 0 k"

text \<open>
  \<^verbatim>\<open>printf\<close>: \<open>esp\<close> is the address of the next variadic argument and \<open>conv_buf\<close> that of the
  conversion buffer on the stack. \<open>format_flags\<close> is the loop made by the \<^verbatim>\<open>goto\<close> on \<^verbatim>\<open>#\<close>.
\<close>

partial_function (option) format_flags :: "'a machine_scheme \<Rightarrow> u32 \<Rightarrow> bool \<Rightarrow> (u32 \<times> bool) option" where
  "format_flags k buf alternate =
     (if ldb k buf = ch CHR ''#'' then format_flags k (buf + 1) True else Some (buf, alternate))"

text \<open>The loop that pads a hexadecimal number with zeros up to index 8.\<close>

definition pad_zeros :: "u32 \<Rightarrow> nat \<Rightarrow> 'a machine_scheme \<Rightarrow> 'a machine_scheme" where
  "pad_zeros conv_buf start k =
     for_range start 8 (\<lambda>i k. stb k (conv_buf + of_nat i) (ch CHR ''0'')) k"

definition format_char_switch ::
  "u32 \<Rightarrow> bool \<Rightarrow> u32 \<Rightarrow> u32 \<Rightarrow> 'a screen_scheme \<Rightarrow> ('a screen_scheme \<times> u32) option" where
  "format_char_switch buf alternate esp conv_buf k =
     (let c = ldb k buf in
      if c = ch CHR ''%'' then Some (putc (ch CHR ''%'') k, esp)
      else if c = ch CHR ''x'' then
        (if \<not> alternate
         then do {
           k \<leftarrow> itoa k (ldw k esp) conv_buf 16;
           (k, _) \<leftarrow> puts conv_buf k;
           Some (k, esp + 4)
         }
         else do {
           k \<leftarrow> itoa k (ldw k esp) (conv_buf + 8) 16;
           starting_index \<leftarrow> strlen k (conv_buf + 8);
           k \<leftarrow> Some (pad_zeros conv_buf (unat starting_index) k);
           (k, _) \<leftarrow> puts (conv_buf + starting_index) k;
           Some (k, esp + 4)
         })
      else if c = ch CHR ''u'' then do {
          k \<leftarrow> itoa k (ldw k esp) conv_buf 10;
          (k, _) \<leftarrow> puts conv_buf k;
          Some (k, esp + 4)
        }
      else if c = ch CHR ''d'' then do {
          let value = ldw k esp;
          k \<leftarrow> (if value <s 0
               then itoa (stb k conv_buf (ch CHR ''-'')) (- value) (conv_buf + 1) 10
               else itoa k value conv_buf 10);
          (k, _) \<leftarrow> puts conv_buf k;
          Some (k, esp + 4)
        }
      else if c = ch CHR ''c'' then Some (putc (ucast (ldw k esp)) k, esp + 4)
      else if c = ch CHR ''s'' then do {
          (k, _) \<leftarrow> puts (ldw k esp) k;
          Some (k, esp + 4)
        }
      else Some (k, esp))"

partial_function (option) printf_from ::
  "u32 \<Rightarrow> u32 \<Rightarrow> u32 \<Rightarrow> 'a screen_scheme \<Rightarrow> ('a screen_scheme \<times> u32) option" where
  "printf_from buf esp conv_buf k =
     (if ldb k buf = 0 then Some (k, buf)
      else if ldb k buf = ch CHR ''%'' then do {
          (buf, alternate) \<leftarrow> format_flags k (buf + 1) False;
          (k, esp) \<leftarrow> format_char_switch buf alternate esp conv_buf k;
          printf_from (buf + 1) esp conv_buf k
        }
      else printf_from (buf + 1) esp conv_buf (putc (ldb k buf) k))"

definition printf :: "u32 \<Rightarrow> u32 \<Rightarrow> u32 \<Rightarrow> 'a screen_scheme \<Rightarrow> ('a screen_scheme \<times> u32) option" where
  "printf format esp conv_buf k =
     do { (k, buf) \<leftarrow> printf_from format esp conv_buf k; Some (k, buf - format) }"

section \<open>The scrolling terminals\<close>

text \<open>
  The two nested loops that \<^verbatim>\<open>shift_up\<close> and \<^verbatim>\<open>shift_up_display\<close> share: rows 0 to 23 take the
  characters of the row below, row 24 becomes blank.
\<close>

definition shift_window :: "u32 \<Rightarrow> 'a machine_scheme \<Rightarrow> 'a machine_scheme" where
  "shift_window base k =
     (let k = for_range 0 (NUM_ROWS - 1) (\<lambda>y. for_range 0 NUM_COLS (\<lambda>x k.
            put_cell base (cell_index (int y) (int x))
              (ldb k (cell_addr base (cell_index (int y + 1) (int x)))) k)) k;
          y = NUM_ROWS - 1
      in for_range 0 NUM_COLS (\<lambda>x k.
            put_cell base (cell_index (int y) (int x)) (ch CHR '' '') k) k)"

definition shift_up :: "'a screen_scheme \<Rightarrow> 'a screen_scheme" where
  "shift_up k =
     (let k = shift_window VIDEO k;
          k = set_y (active_terminal k) (int NUM_ROWS - 1) k
      in set_x (active_terminal k) 0 k)"

definition shift_up_display :: "'a screen_scheme \<Rightarrow> 'a screen_scheme" where
  "shift_up_display k =
     (let k = shift_window VIDEO_PHYSICAL k;
          k = set_y (display_terminal k) (int NUM_ROWS - 1) k
      in set_x (display_terminal k) 0 k)"

text \<open>Field access after the window operations, which only change memory.\<close>

lemma set_xy_sel [simp]:
  "screen_x_multi (set_x t x k) = (screen_x_multi k)(t := x)"
  "screen_y_multi (set_x t x k) = screen_y_multi k"
  "screen_x_multi (set_y t x k) = screen_x_multi k"
  "screen_y_multi (set_y t x k) = (screen_y_multi k)(t := x)"
  "active_terminal (set_x t x k) = active_terminal k"
  "active_terminal (set_y t x k) = active_terminal k"
  "display_terminal (set_x t x k) = display_terminal k"
  "display_terminal (set_y t x k) = display_terminal k"
  "phys (set_x t x k) = phys k" "phys (set_y t x k) = phys k"
  "pg (set_x t x k) = pg k" "pg (set_y t x k) = pg k"
  by (simp_all add: set_x_def set_y_def)

text \<open>\<open>mem_only k k'\<close>: the two states differ in physical memory only.\<close>

definition mem_only :: "'a machine_scheme \<Rightarrow> 'a machine_scheme \<Rightarrow> bool" where
  "mem_only k k' \<longleftrightarrow> k' = k\<lparr>phys := phys k'\<rparr>"

lemma mem_only_refl [simp]: "mem_only k k"
  by (simp add: mem_only_def)

lemma mem_only_trans: "mem_only k k' \<Longrightarrow> mem_only k' k'' \<Longrightarrow> mem_only k k''"
  unfolding mem_only_def by (metis machine.surjective machine.update_convs(1))

lemma mem_only_stb [simp]: "mem_only k (stb k a v)"
  by (simp add: mem_only_def stb_def)

lemma mem_only_put_cell [simp]: "mem_only k (put_cell base i c k)"
  unfolding put_cell_def by (blast intro: mem_only_trans mem_only_stb)

lemma mem_only_for_range:
  assumes "\<And>i k. mem_only k (f i k)"
  shows "mem_only k (for_range a b f k)"
proof (rule for_range_invariant)
  show "mem_only k (f i s)" if "mem_only k s" for i s
    using that assms by (rule mem_only_trans)
qed simp

lemma mem_only_shift_window [simp]: "mem_only k (shift_window base k)"
  unfolding shift_window_def Let_def
  by (rule mem_only_trans [OF mem_only_for_range mem_only_for_range])
    (rule mem_only_for_range mem_only_put_cell)+

lemma mem_only_sel:
  assumes "mem_only k k'"
  shows "pg k' = pg k" "io k' = io k" "iflag k' = iflag k"
  using assms unfolding mem_only_def by (metis machine.surjective machine.update_convs(1) machine.select_convs)+

lemma mem_only_screen_sel:
  fixes k k' :: "'a screen_scheme"
  assumes "mem_only k k'"
  shows "screen_x_multi k' = screen_x_multi k" "screen_y_multi k' = screen_y_multi k"
    "active_terminal k' = active_terminal k" "display_terminal k' = display_terminal k"
    "screen_x k' = screen_x k" "screen_y k' = screen_y k"
  by (subst assms [unfolded mem_only_def], simp)+

lemma shift_up_sel [simp]:
  "active_terminal (shift_up k) = active_terminal k"
  "display_terminal (shift_up k) = display_terminal k"
  "screen_y_multi (shift_up k) = (screen_y_multi k)(active_terminal k := 24)"
  "screen_x_multi (shift_up k) = (screen_x_multi k)(active_terminal k := 0)"
  "pg (shift_up k) = pg k"
  by (simp_all add: shift_up_def NUM_ROWS_def mem_only_screen_sel [OF mem_only_shift_window]
      mem_only_sel [OF mem_only_shift_window])

lemma shift_up_display_sel [simp]:
  "active_terminal (shift_up_display k) = active_terminal k"
  "display_terminal (shift_up_display k) = display_terminal k"
  "screen_y_multi (shift_up_display k) = (screen_y_multi k)(display_terminal k := 24)"
  "screen_x_multi (shift_up_display k) = (screen_x_multi k)(display_terminal k := 0)"
  "pg (shift_up_display k) = pg k"
  by (simp_all add: shift_up_display_def NUM_ROWS_def mem_only_screen_sel [OF mem_only_shift_window]
      mem_only_sel [OF mem_only_shift_window])

text \<open>The \<^verbatim>\<open>while\<close> loops that scroll until the row is on the screen.\<close>

function scroll :: "'a screen_scheme \<Rightarrow> 'a screen_scheme" where
  "scroll k = (if screen_y_multi k (active_terminal k) \<ge> int NUM_ROWS then scroll (shift_up k) else k)"
  by pat_completeness auto
termination
  by (relation "measure (\<lambda>k. if screen_y_multi k (active_terminal k) \<ge> int NUM_ROWS then 1 else 0)")
    (simp_all add: NUM_ROWS_def)

function scroll_display :: "'a screen_scheme \<Rightarrow> 'a screen_scheme" where
  "scroll_display k = (if screen_y_multi k (display_terminal k) \<ge> int NUM_ROWS
     then scroll_display (shift_up_display k) else k)"
  by pat_completeness auto
termination
  by (relation "measure (\<lambda>k. if screen_y_multi k (display_terminal k) \<ge> int NUM_ROWS then 1 else 0)")
    (simp_all add: NUM_ROWS_def)

declare scroll.simps [simp del] scroll_display.simps [simp del]

definition putc_scroll :: "u8 \<Rightarrow> 'a screen_scheme \<Rightarrow> 'a screen_scheme" where
  "putc_scroll c k =
     (let t = active_terminal k;
          k = (if c = 10 \<or> c = 13
               then let k = set_y t (screen_y_multi k t + 1) k;
                        k = set_x t 0 k
                    in scroll k
               else let k = scroll k;
                        k = put_cell VIDEO (cell_index (screen_y_multi k t) (screen_x_multi k t)) c k;
                        k = set_x t (screen_x_multi k t + 1) k;
                        k = set_y t (screen_y_multi k t + screen_x_multi k t sdiv int NUM_COLS) k
                    in set_x t (screen_x_multi k t smod int NUM_COLS) k)
      in if t = display_terminal k
         then update_cursor (screen_x_multi k t) (screen_y_multi k t) k else k)"

definition erase_last_ch :: "'a screen_scheme \<Rightarrow> 'a screen_scheme" where
  "erase_last_ch k =
     (let t = active_terminal k;
          k = (if screen_x_multi k t = 0
               then set_y t (screen_y_multi k t - 1) (set_x t (int NUM_COLS - 1) k)
               else set_x t (screen_x_multi k t - 1) k);
          k = put_cell VIDEO (cell_index (screen_y_multi k t) (screen_x_multi k t)) (ch CHR '' '') k
      in if t = display_terminal k
         then update_cursor (screen_x_multi k t) (screen_y_multi k t) k else k)"

definition putc_scroll_display :: "u8 \<Rightarrow> 'a screen_scheme \<Rightarrow> 'a screen_scheme" where
  "putc_scroll_display c k =
     (let t = display_terminal k;
          k = (if c = 10 \<or> c = 13
               then let k = set_y t (screen_y_multi k t + 1) k;
                        k = set_x t 0 k
                    in scroll_display k
               else let k = scroll_display k;
                        k = put_cell VIDEO_PHYSICAL
                              (cell_index (screen_y_multi k t) (screen_x_multi k t)) c k;
                        k = set_x t (screen_x_multi k t + 1) k;
                        k = set_y t (screen_y_multi k t + screen_x_multi k t sdiv int NUM_COLS) k
                    in set_x t (screen_x_multi k t smod int NUM_COLS) k)
      in update_cursor (screen_x_multi k t) (screen_y_multi k t) k)"

definition erase_last_ch_display :: "'a screen_scheme \<Rightarrow> 'a screen_scheme" where
  "erase_last_ch_display k =
     (let t = display_terminal k;
          k = (if screen_x_multi k t = 0
               then set_y t (screen_y_multi k t - 1) (set_x t (int NUM_COLS - 1) k)
               else set_x t (screen_x_multi k t - 1) k);
          k = put_cell VIDEO_PHYSICAL
                (cell_index (screen_y_multi k t) (screen_x_multi k t)) (ch CHR '' '') k
      in update_cursor (screen_x_multi k t) (screen_y_multi k t) k)"

definition enable_cursor :: "u8 \<Rightarrow> u8 \<Rightarrow> 'a screen_scheme \<Rightarrow> 'a screen_scheme" where
  "enable_cursor cursor_start cursor_end k = k"

definition puts_scroll :: "u32 \<Rightarrow> int \<Rightarrow> 'a screen_scheme \<Rightarrow> ('a screen_scheme \<times> int) option" where
  "puts_scroll s len k =
     do {
       lim \<leftarrow> (if len = -1 then map_option sint (strlen k s) else Some len);
       let k = for_range 0 (nat lim) (\<lambda>index k. putc_scroll (ldb k (s + of_nat index)) k) k;
       let k = k\<lparr>screen_x_before_input := screen_x k\<rparr>;
       let k = k\<lparr>screen_y_before_input := screen_y k\<rparr>;
       Some (k, max 0 lim)
     }"

partial_function (option) refresh_from ::
  "u32 \<Rightarrow> u32 \<Rightarrow> 'a screen_scheme \<Rightarrow> ('a screen_scheme \<times> u32) option" where
  "refresh_from s index k =
     (if ldb k (s + index) \<noteq> 0 then refresh_from s (index + 1) (putc_scroll (ldb k (s + index)) k)
      else Some (k, index))"

definition puts_scroll_refresh :: "u32 \<Rightarrow> 'a screen_scheme \<Rightarrow> ('a screen_scheme \<times> u32) option" where
  "puts_scroll_refresh s k =
     do {
       let k = fold (\<lambda>y. for_range 0 NUM_COLS (\<lambda>x k.
                 put_cell VIDEO (cell_index y (int x)) (ch CHR '' '') k))
                 [screen_y_before_input k..screen_y k] k;
       let k = k\<lparr>screen_x := 0\<rparr>;
       let k = k\<lparr>screen_y := screen_y_before_input k\<rparr>;
       (k, index) \<leftarrow> refresh_from s 0 k;
       let k = update_cursor (screen_x k) (screen_y k) k;
       Some (k, index)
     }"

definition test_interrupts :: "'a screen_scheme \<Rightarrow> 'a screen_scheme" where
  "test_interrupts k =
     for_range 0 (NUM_ROWS * NUM_COLS)
       (\<lambda>i k. stb k (cell_addr VIDEO (int i)) (ldb k (cell_addr VIDEO (int i)) + 1)) k"

end
