(* ===== verification/TerminalSwitch.thy ===== *)
theory TerminalSwitch
  imports ScreenSpec
begin

text \<open>
  The three terminals under the kernel's page map: which physical page holds which terminal,
  that output to the active or displayed terminal changes no other, and that switching the
  displayed terminal moves pages around without changing what any terminal shows.
\<close>

section \<open>Windows onto physical pages\<close>

text \<open>The page at \<open>base\<close> is mapped to the physical page \<open>v\<close>.\<close>

definition shows_frame :: "u32 \<Rightarrow> 20 word \<Rightarrow> paging \<Rightarrow> bool" where
  "shows_frame base v g \<longleftrightarrow> (\<forall>off<4096. walk g (base + of_nat off) = Some (in_page v off))"

definition page_cells :: "20 word \<Rightarrow> u32 set" where
  "page_cells v = in_page v ` {..<4096}"

lemma page_cells_disjoint: "v \<noteq> w \<Longrightarrow> off < 4096 \<Longrightarrow> in_page w off \<notin> page_cells v"
  by (auto simp: page_cells_def in_page_inj)

lemma windows_in_page:
  "VIDEO + of_nat off = in_page (of_nat VIDEO_IND) off"
  "VIDEO_PHYSICAL + of_nat off = in_page (of_nat STATIC_VIDEO_IND) off"
  "t \<in> {0, 1, 2} \<Longrightarrow> TERMINAL_MEM t + of_nat off = in_page (of_nat (VIDEO_IND + 1 + nat t)) off"
  by (auto simp: VIDEO_def VIDEO_PHYSICAL_def TERMINAL_MEM_def in_page_def VIDEO_IND_def
      STATIC_VIDEO_IND_def)

lemma shows_frame_windows:
  assumes "kernel_map v g"
  shows "shows_frame VIDEO v g" "shows_frame VIDEO_PHYSICAL (of_nat VIDEO_IND) g"
    "t \<in> {0, 1, 2} \<Longrightarrow> shows_frame (TERMINAL_MEM t) (of_nat (VIDEO_IND + 1 + nat t)) g"
proof -
  have ind: "VIDEO_IND \<noteq> 0" "STATIC_VIDEO_IND \<noteq> 0"
    by (simp_all add: paging_consts)
  show "shows_frame VIDEO v g" "shows_frame VIDEO_PHYSICAL (of_nat VIDEO_IND) g"
    using ind by (simp_all add: shows_frame_def windows_in_page walk_low [OF assms])
  assume t: "t \<in> {0, 1, 2}"
  then have "VIDEO_IND + 1 + nat t < 1024" "VIDEO_IND + 1 + nat t \<noteq> VIDEO_IND"
    "VIDEO_IND + 1 + nat t \<noteq> STATIC_VIDEO_IND"
    by (auto simp: paging_consts)
  then show "shows_frame (TERMINAL_MEM t) (of_nat (VIDEO_IND + 1 + nat t)) g"
    using t by (simp add: shows_frame_def windows_in_page walk_low [OF assms] del: of_nat_add of_nat_Suc)
qed

lemma shows_frame_block:
  assumes "shows_frame base v g" "n \<le> 4096"
  shows "block (walk g) base n"
  using assms unfolding shows_frame_def block_def by (auto simp: in_page_inj)

lemma shows_frame_apart:
  assumes "shows_frame base v g" "shows_frame base' w g" "v \<noteq> w" "n \<le> 4096" "m \<le> 4096"
  shows "apart (walk g) base n base' m"
  using assms unfolding shows_frame_def apart_def by (auto simp: in_page_inj)

lemma window_ok_shows: "shows_frame base v (pg k) \<Longrightarrow> window_ok base k"
  unfolding window_ok_def by (rule shows_frame_block) simp_all

section \<open>What an operation leaves alone\<close>

definition keeps :: "20 word \<Rightarrow> 'a machine_scheme \<Rightarrow> 'a machine_scheme \<Rightarrow> bool" where
  "keeps v k k' \<longleftrightarrow> pg k' = pg k \<and> (\<forall>p. p \<notin> page_cells v \<longrightarrow> phys k' p = phys k p)"

lemma keeps_refl [simp]: "keeps v k k"
  by (simp add: keeps_def)

lemma keeps_trans: "keeps v k k' \<Longrightarrow> keeps v k' k'' \<Longrightarrow> keeps v k k''"
  by (simp add: keeps_def)

lemma keeps_stb:
  assumes "shows_frame base v (pg k)" "off < 4096"
  shows "keeps v k (stb k (base + of_nat off) c)"
  using assms unfolding keeps_def stb_def st_def shows_frame_def page_cells_def by auto

lemma keeps_put_cell:
  assumes "shows_frame base v (pg k)" "i < 2000"
  shows "keeps v k (put_cell base (int i) c k)"
  unfolding put_cell_nat
  by (rule keeps_trans; rule keeps_stb) (use assms in auto)

lemma keeps_loop:
  assumes "shows_frame base v (pg k)" "b \<le> 2000"
  shows "keeps v k (for_range a b (\<lambda>i k. put_cell base (int i) (f i k) k) k)"
proof (rule for_range_invariant)
  fix i s assume "i < b" "keeps v k s"
  moreover from this have "pg s = pg k" by (simp add: keeps_def)
  ultimately show "keeps v k (put_cell base (int i) (f i s) s)"
    using assms keeps_put_cell [of base v s i "f i s"] keeps_trans by fastforce
qed simp

lemma keeps_shift_window:
  assumes "shows_frame base v (pg k)"
  shows "keeps v k (shift_window base k)"
  unfolding shift_window_flat
  by (rule keeps_trans; rule keeps_loop) (use assms keeps_loop [OF assms, of 1920] in \<open>auto simp: keeps_def\<close>)

lemma keeps_same: "pg k' = pg k \<Longrightarrow> phys k' = phys k \<Longrightarrow> keeps v k k'"
  by (simp add: keeps_def)

section \<open>The terminals\<close>

text \<open>The physical page that holds terminal \<open>t\<close> while terminal \<open>d\<close> is displayed.\<close>

definition term_frame :: "int \<Rightarrow> int \<Rightarrow> 20 word" where
  "term_frame d t = (if t = d then of_nat VIDEO_IND else of_nat (VIDEO_IND + 1 + nat t))"

definition frame_grid :: "20 word \<Rightarrow> pmem \<Rightarrow> (u8 \<times> u8) list" where
  "frame_grid v p = map (\<lambda>i. (p (in_page v (2 * i)), p (in_page v (2 * i + 1)))) [0..<2000]"

definition terminal :: "'a screen_scheme \<Rightarrow> int \<Rightarrow> aterm" where
  "terminal k t = \<lparr>agrid = frame_grid (term_frame (display_terminal k) t) (phys k),
     ax = screen_x_multi k t, ay = screen_y_multi k t\<rparr>"

text \<open>
  The invariant of the terminal subsystem: the displayed and the active terminal exist, and
  the video window shows the page of the active one.
\<close>

definition video_inv :: "'a screen_scheme \<Rightarrow> bool" where
  "video_inv k \<longleftrightarrow> display_terminal k \<in> {0, 1, 2} \<and> active_terminal k \<in> {0, 1, 2} \<and>
     kernel_map (term_frame (display_terminal k) (active_terminal k)) (pg k)"

lemma term_frame_inj:
  "t \<in> {0, 1, 2} \<Longrightarrow> t' \<in> {0, 1, 2} \<Longrightarrow> term_frame d t = term_frame d t' \<longleftrightarrow> t = t'"
  by (auto simp: term_frame_def VIDEO_IND_def)

lemma window_grid_shows:
  assumes "shows_frame base v (pg k)"
  shows "window_grid base k = frame_grid v (phys k)"
proof -
  have "get_cell base k i = (phys k (in_page v (2 * i)), phys k (in_page v (2 * i + 1)))" if "i < 2000" for i
    using assms that unfolding get_cell_nat shows_frame_def ldb_def ld_def
    by (simp del: of_nat_add of_nat_mult of_nat_Suc)
  then show ?thesis by (simp add: window_grid_def frame_grid_def)
qed

lemma frame_grid_cong:
  assumes "\<And>off. off < 4096 \<Longrightarrow> p (in_page v off) = q (in_page w off)"
  shows "frame_grid v p = frame_grid w q"
  using assms by (auto simp: frame_grid_def)

lemma video_invD:
  assumes "video_inv k"
  shows "shows_frame VIDEO (term_frame (display_terminal k) (active_terminal k)) (pg k)"
    "shows_frame VIDEO_PHYSICAL (term_frame (display_terminal k) (display_terminal k)) (pg k)"
  using assms shows_frame_windows [of _ "pg k"] by (auto simp: video_inv_def term_frame_def)

lemma view_terminal:
  assumes "video_inv k"
  shows "view VIDEO (active_terminal k) k = terminal k (active_terminal k)"
    "view VIDEO_PHYSICAL (display_terminal k) k = terminal k (display_terminal k)"
  using video_invD [OF assms] by (simp_all add: view_def terminal_def window_grid_shows)

text \<open>An operation that keeps to the page of one terminal, and to its cursor, keeps the others.\<close>

lemma terminal_keeps:
  assumes "keeps (term_frame (display_terminal k) t) k k'" "t \<in> {0, 1, 2}" "u \<in> {0, 1, 2}" "u \<noteq> t"
    "display_terminal k' = display_terminal k"
    "screen_x_multi k' u = screen_x_multi k u" "screen_y_multi k' u = screen_y_multi k u"
  shows "terminal k' u = terminal k u"
proof -
  have "frame_grid (term_frame (display_terminal k) u) (phys k') =
      frame_grid (term_frame (display_terminal k) u) (phys k)"
  proof (rule frame_grid_cong)
    fix off :: nat assume "off < 4096"
    then have "in_page (term_frame (display_terminal k) u) off \<notin> page_cells (term_frame (display_terminal k) t)"
      using assms term_frame_inj page_cells_disjoint by metis
    then show "phys k' (in_page (term_frame (display_terminal k) u) off) =
        phys k (in_page (term_frame (display_terminal k) u) off)"
      using assms(1) by (simp add: keeps_def)
  qed
  then show ?thesis using assms by (simp add: terminal_def)
qed

text \<open>The output routines keep to the page they write.\<close>

lemma keeps_shift_up:
  "shows_frame VIDEO v (pg k) \<Longrightarrow> keeps v k (shift_up k)"
  using keeps_shift_window [of VIDEO v k] by (simp add: shift_up_def Let_def keeps_def)

lemma keeps_shift_up_display:
  "shows_frame VIDEO_PHYSICAL v (pg k) \<Longrightarrow> keeps v k (shift_up_display k)"
  using keeps_shift_window [of VIDEO_PHYSICAL v k] by (simp add: shift_up_display_def Let_def keeps_def)

lemma keeps_put_advance:
  assumes "shows_frame base v (pg k)" "aterm_ok (view base t k)" "screen_y_multi k t < 25"
  shows "keeps v k (put_advance base t c k)"
proof -
  define i where "i = nat (80 * screen_y_multi k t + screen_x_multi k t)"
  have "cell_index (screen_y_multi k t) (screen_x_multi k t) = int i" "i < 2000"
    using assms by (auto simp: i_def cell_index_def NUM_COLS_def aterm_ok_def)
  then show ?thesis
    using keeps_put_cell [OF assms(1), of i c] by (simp add: put_advance_def Let_def keeps_def)
qed

lemma keeps_if_cursor [simp]:
  "keeps v k (if b then update_cursor x y k' else k') = keeps v k k'"
  "keeps v k (update_cursor x y k') = keeps v k k'"
  "keeps v k (set_x t' x' k'') = keeps v k k''"
  "keeps v (set_x t' x' k) k'' = keeps v k k''"
  "keeps v k (set_y t' x' k'') = keeps v k k''"
  "keeps v (set_y t' x' k) k'' = keeps v k k''"
  by (simp_all add: keeps_def)

lemma keeps_putc_scroll:
  assumes "shows_frame VIDEO v (pg k)" "aterm_ok (view VIDEO (active_terminal k) k)"
  shows "keeps v k (putc_scroll c k)"
proof (cases "c = 10 \<or> c = 13")
  case True
  then show ?thesis
    using assms keeps_shift_up [of v "set_x (active_terminal k) 0
        (set_y (active_terminal k) (screen_y_multi k (active_terminal k) + 1) k)"]
    by (simp add: putc_scroll_def Let_def scroll_eq)
next
  case False
  have ok: "aterm_ok (view VIDEO (active_terminal k) (scroll k))"
    "screen_y_multi (scroll k) (active_terminal k) < 25"
    using view_scroll [OF window_ok_shows [OF assms(1)]] aterm_ok_fit [OF assms(2)]
    by (simp_all) (metis view_sel(3))
  have "keeps v k (scroll k)"
    using assms by (simp add: scroll_eq keeps_shift_up)
  moreover have "keeps v (scroll k) (put_advance VIDEO (active_terminal k) c (scroll k))"
    by (rule keeps_put_advance) (use assms ok in simp_all)
  ultimately have "keeps v k (put_advance VIDEO (active_terminal k) c (scroll k))"
    by (rule keeps_trans)
  then show ?thesis
    using False by (simp add: putc_scroll_def put_advance_def Let_def)
qed

lemma keeps_putc_scroll_display:
  assumes "shows_frame VIDEO_PHYSICAL v (pg k)" "aterm_ok (view VIDEO_PHYSICAL (display_terminal k) k)"
  shows "keeps v k (putc_scroll_display c k)"
proof (cases "c = 10 \<or> c = 13")
  case True
  then show ?thesis
    using assms keeps_shift_up_display [of v "set_x (display_terminal k) 0
        (set_y (display_terminal k) (screen_y_multi k (display_terminal k) + 1) k)"]
    by (simp add: putc_scroll_display_def Let_def scroll_display_eq)
next
  case False
  have ok: "aterm_ok (view VIDEO_PHYSICAL (display_terminal k) (scroll_display k))"
    "screen_y_multi (scroll_display k) (display_terminal k) < 25"
    using view_scroll_display [OF window_ok_shows [OF assms(1)]] aterm_ok_fit [OF assms(2)]
    by (simp_all) (metis view_sel(3))
  have "keeps v k (scroll_display k)"
    using assms by (simp add: scroll_display_eq keeps_shift_up_display)
  moreover have "keeps v (scroll_display k)
      (put_advance VIDEO_PHYSICAL (display_terminal k) c (scroll_display k))"
    by (rule keeps_put_advance) (use assms ok in simp_all)
  ultimately have "keeps v k (put_advance VIDEO_PHYSICAL (display_terminal k) c (scroll_display k))"
    by (rule keeps_trans)
  then show ?thesis
    using False by (simp add: putc_scroll_display_def put_advance_def Let_def)
qed

lemma putc_scroll_sel [simp]:
  "active_terminal (putc_scroll c k) = active_terminal k"
  "display_terminal (putc_scroll c k) = display_terminal k"
  "pg (putc_scroll c k) = pg k"
  "t \<noteq> active_terminal k \<Longrightarrow> screen_x_multi (putc_scroll c k) t = screen_x_multi k t"
  "t \<noteq> active_terminal k \<Longrightarrow> screen_y_multi (putc_scroll c k) t = screen_y_multi k t"
  by (simp_all add: putc_scroll_def Let_def scroll_eq)

lemma putc_scroll_display_sel [simp]:
  "active_terminal (putc_scroll_display c k) = active_terminal k"
  "display_terminal (putc_scroll_display c k) = display_terminal k"
  "pg (putc_scroll_display c k) = pg k"
  "t \<noteq> display_terminal k \<Longrightarrow> screen_x_multi (putc_scroll_display c k) t = screen_x_multi k t"
  "t \<noteq> display_terminal k \<Longrightarrow> screen_y_multi (putc_scroll_display c k) t = screen_y_multi k t"
  by (simp_all add: putc_scroll_display_def Let_def scroll_display_eq)

lemma video_inv_cong:
  "pg k' = pg k \<Longrightarrow> active_terminal k' = active_terminal k \<Longrightarrow>
     display_terminal k' = display_terminal k \<Longrightarrow> video_inv k' = video_inv k"
  by (simp add: video_inv_def)

text \<open>Output to the active terminal, and the echo on the displayed one.\<close>

lemma terminal_putc_scroll:
  assumes "video_inv k" "aterm_ok (terminal k (active_terminal k))" "t \<in> {0, 1, 2}"
  shows "terminal (putc_scroll c k) t =
    (if t = active_terminal k then aterm_putc c (terminal k t) else terminal k t)"
proof (cases "t = active_terminal k")
  case True
  have "video_inv (putc_scroll c k)"
    using assms(1) by (simp add: video_inv_cong [of "putc_scroll c k" k])
  from view_terminal(1) [OF this] have "terminal (putc_scroll c k) t = view VIDEO t (putc_scroll c k)"
    using True by simp
  then show ?thesis
    using True assms(2) view_putc_scroll [OF window_ok_shows [OF video_invD(1) [OF assms(1)]]]
      view_terminal(1) [OF assms(1)] by simp
next
  case False
  have "keeps (term_frame (display_terminal k) (active_terminal k)) k (putc_scroll c k)"
    by (rule keeps_putc_scroll) (use assms(2) video_invD [OF assms(1)] view_terminal [OF assms(1)] in auto)
  then have "terminal (putc_scroll c k) t = terminal k t"
    by (rule terminal_keeps) (use assms False in \<open>auto simp: video_inv_def\<close>)
  then show ?thesis using False by simp
qed

lemma terminal_on_display:
  assumes "video_inv k" "keeps (term_frame (display_terminal k) (display_terminal k)) k k'"
    and k': "display_terminal k' = display_terminal k" "active_terminal k' = active_terminal k"
      "\<And>u. u \<noteq> display_terminal k \<Longrightarrow> screen_x_multi k' u = screen_x_multi k u"
      "\<And>u. u \<noteq> display_terminal k \<Longrightarrow> screen_y_multi k' u = screen_y_multi k u"
    and "t \<in> {0, 1, 2}"
  shows "terminal k' t = (if t = display_terminal k then view VIDEO_PHYSICAL t k' else terminal k t)"
proof (cases "t = display_terminal k")
  case True
  have "video_inv k'" using assms(1,2) k' by (subst video_inv_cong [of k' k]) (simp_all add: keeps_def)
  from view_terminal(2) [OF this] show ?thesis using True k'(1) by simp
next
  case False
  have "terminal k' t = terminal k t"
    by (rule terminal_keeps [OF assms(2)]) (use assms False in \<open>auto simp: video_inv_def\<close>)
  then show ?thesis using False by simp
qed

lemma terminal_putc_scroll_display:
  assumes "video_inv k" "aterm_ok (terminal k (display_terminal k))" "t \<in> {0, 1, 2}"
  shows "terminal (putc_scroll_display c k) t =
    (if t = display_terminal k then aterm_putc c (terminal k t) else terminal k t)"
proof -
  note f = video_invD(2) [OF assms(1)] and v = view_terminal(2) [OF assms(1)]
  have "keeps (term_frame (display_terminal k) (display_terminal k)) k (putc_scroll_display c k)"
    by (rule keeps_putc_scroll_display [OF f]) (use assms(2) v in simp)
  from terminal_on_display [OF assms(1) this _ _ _ _ assms(3)] show ?thesis
    using view_putc_scroll_display [OF window_ok_shows [OF f], of c] assms(2) v by simp
qed

text \<open>Erasing on the displayed terminal, and clearing it.\<close>

lemma erase_last_ch_display_sel [simp]:
  "active_terminal (erase_last_ch_display k) = active_terminal k"
  "display_terminal (erase_last_ch_display k) = display_terminal k"
  "pg (erase_last_ch_display k) = pg k"
  "t \<noteq> display_terminal k \<Longrightarrow> screen_x_multi (erase_last_ch_display k) t = screen_x_multi k t"
  "t \<noteq> display_terminal k \<Longrightarrow> screen_y_multi (erase_last_ch_display k) t = screen_y_multi k t"
  by (simp_all add: erase_last_ch_display_def Let_def)

lemma keeps_erase_last_ch_display:
  assumes "shows_frame VIDEO_PHYSICAL v (pg k)" "aterm_ok (view VIDEO_PHYSICAL (display_terminal k) k)"
    "(screen_x_multi k (display_terminal k), screen_y_multi k (display_terminal k)) \<noteq> (0, 0)"
  shows "keeps v k (erase_last_ch_display k)"
proof -
  define x y where "x = screen_x_multi k (display_terminal k)" and "y = screen_y_multi k (display_terminal k)"
  have xy: "0 \<le> x" "x < 80" "0 \<le> y" "y \<le> 25" "y = 25 \<longrightarrow> x = 0" "(x, y) \<noteq> (0, 0)"
    using assms(2,3) by (simp_all add: aterm_ok_def x_def y_def)
  define i where "i = nat (80 * y + x - 1)"
  have i: "int i = 80 * y + x - 1" "i < 2000" using xy by (auto simp: i_def)
  have *: "keeps v k (put_cell VIDEO_PHYSICAL (int i) c k')" if "pg k' = pg k" "phys k' = phys k" for c k'
    using keeps_put_cell [of VIDEO_PHYSICAL v k' i c] assms(1) i(2) that by (simp add: keeps_def)
  show ?thesis
  proof (cases "x = 0")
    case True
    then have "cell_index (y - 1) 79 = int i" using i(1) by (simp add: cell_index_def NUM_COLS_def)
    then show ?thesis
      using True * by (simp add: erase_last_ch_display_def Let_def NUM_COLS_def flip: x_def y_def)
  next
    case False
    then have "cell_index y (x - 1) = int i" using i(1) by (simp add: cell_index_def NUM_COLS_def)
    then show ?thesis
      using False * by (simp add: erase_last_ch_display_def Let_def flip: x_def y_def)
  qed
qed

lemma terminal_erase_last_ch_display:
  assumes "video_inv k" "aterm_ok (terminal k (display_terminal k))" "t \<in> {0, 1, 2}"
    "(screen_x_multi k (display_terminal k), screen_y_multi k (display_terminal k)) \<noteq> (0, 0)"
  shows "terminal (erase_last_ch_display k) t =
    (if t = display_terminal k then aterm_erase (terminal k t) else terminal k t)"
proof -
  note f = video_invD(2) [OF assms(1)] and v = view_terminal(2) [OF assms(1)]
  have "keeps (term_frame (display_terminal k) (display_terminal k)) k (erase_last_ch_display k)"
    by (rule keeps_erase_last_ch_display [OF f]) (use assms(2,4) v in simp_all)
  from terminal_on_display [OF assms(1) this _ _ _ _ assms(3)] show ?thesis
    using view_erase_last_ch_display [OF window_ok_shows [OF f]] assms(2,4) v by simp
qed

definition aterm_blank :: aterm where
  "aterm_blank = \<lparr>agrid = replicate 2000 blank, ax = 0, ay = 0\<rparr>"

lemma aterm_ok_blank: "aterm_ok aterm_blank"
  by (simp add: aterm_ok_def aterm_blank_def)

lemma mem_only_fill: "mem_only k (for_range a b (\<lambda>i k. put_cell base (int i) c k) k)"
  by (rule mem_only_for_range) simp

lemma clear_sel [simp]:
  "active_terminal (clear k) = active_terminal k" "display_terminal (clear k) = display_terminal k"
  "pg (clear k) = pg k" "screen_x_multi (clear k) = (screen_x_multi k)(display_terminal k := 0)"
  "screen_y_multi (clear k) = (screen_y_multi k)(display_terminal k := 0)"
  using mem_only_screen_sel [OF mem_only_fill [of "set_x (display_terminal k) 0 (set_y (display_terminal k) 0 k)"]]
    mem_only_sel [OF mem_only_fill [of "set_x (display_terminal k) 0 (set_y (display_terminal k) 0 k)"]]
  by (simp_all add: clear_def Let_def)

lemma keeps_clear:
  assumes "shows_frame VIDEO_PHYSICAL v (pg k)"
  shows "keeps v k (clear k)"
  using keeps_loop [of VIDEO_PHYSICAL v "set_x (display_terminal k) 0 (set_y (display_terminal k) 0 k)" 2000 0
      "\<lambda>_ _. ch CHR '' ''"] assms
  by (simp add: clear_def Let_def NUM_ROWS_def NUM_COLS_def)

lemma view_clear:
  assumes "window_ok VIDEO_PHYSICAL k"
  shows "view VIDEO_PHYSICAL (display_terminal k) (clear k) = aterm_blank"
proof -
  let ?k = "set_x (display_terminal k) 0 (set_y (display_terminal k) 0 k)"
  have "get_cell VIDEO_PHYSICAL (for_range 0 2000 (\<lambda>i k. put_cell VIDEO_PHYSICAL (int i) (ch CHR '' '') k) ?k) j = blank"
    if "j < 2000" for j
    using win.get_fill [of VIDEO_PHYSICAL ?k 2000 j 0 "ch CHR '' ''"] assms that by (simp add: blank_def)
  then have "window_grid VIDEO_PHYSICAL (clear k) = replicate 2000 blank"
    unfolding window_grid_def by (intro nth_equalityI)
      (simp_all add: clear_def Let_def NUM_ROWS_def NUM_COLS_def get_cell_def ldb_def)
  then show ?thesis by (simp add: view_def aterm_blank_def)
qed

lemma terminal_clear:
  assumes "video_inv k" "t \<in> {0, 1, 2}"
  shows "terminal (clear k) t = (if t = display_terminal k then aterm_blank else terminal k t)"
proof -
  note f = video_invD(2) [OF assms(1)]
  from terminal_on_display [OF assms(1) keeps_clear [OF f] _ _ _ _ assms(2)] show ?thesis
    using view_clear [OF window_ok_shows [OF f]] by simp
qed

section \<open>Steps that only change the screen\<close>

definition screen_only :: "'a screen_scheme \<Rightarrow> 'a screen_scheme \<Rightarrow> bool" where
  "screen_only k k' \<longleftrightarrow> (\<exists>p h x y.
     k' = k\<lparr>phys := p, io := h, screen_x_multi := x, screen_y_multi := y\<rparr>)"

lemma screen_onlyI:
  "k' = k\<lparr>phys := p, io := h, screen_x_multi := x, screen_y_multi := y\<rparr> \<Longrightarrow> screen_only k k'"
  by (auto simp: screen_only_def)

lemma screen_only_refl [simp]: "screen_only k k"
  by (rule screen_onlyI [where p = "phys k" and h = "io k" and x = "screen_x_multi k" and y = "screen_y_multi k"]) simp

lemma screen_only_trans: "screen_only k k' \<Longrightarrow> screen_only k' k'' \<Longrightarrow> screen_only k k''"
  unfolding screen_only_def by fastforce

lemma screen_only_mem_only:
  fixes k :: "'a screen_scheme"
  assumes "mem_only k k'"
  shows "screen_only k k'"
proof (rule screen_onlyI)
  show "k' = k\<lparr>phys := phys k', io := io k, screen_x_multi := screen_x_multi k, screen_y_multi := screen_y_multi k\<rparr>"
    by (subst assms [unfolded mem_only_def]) simp
qed

lemma screen_only_set_x: "screen_only k (set_x t x k)"
  by (rule screen_onlyI [where p = "phys k" and h = "io k" and y = "screen_y_multi k"]) (simp add: set_x_def)

lemma screen_only_set_y: "screen_only k (set_y t y k)"
  by (rule screen_onlyI [where p = "phys k" and h = "io k" and x = "screen_x_multi k"]) (simp add: set_y_def)

lemma screen_only_update_cursor: "screen_only k (update_cursor a b k)"
  by (rule screen_onlyI [where p = "phys k" and x = "screen_x_multi k" and y = "screen_y_multi k"])
    (simp add: update_cursor_def Let_def outb_def)

lemmas screen_only_steps =
  screen_only_trans [OF _ screen_only_set_x] screen_only_trans [OF _ screen_only_set_y]
  screen_only_trans [OF _ screen_only_update_cursor]
  screen_only_trans [OF _ screen_only_mem_only [OF mem_only_put_cell]]
  screen_only_trans [OF _ screen_only_mem_only [OF mem_only_shift_window]]
  screen_only_trans [OF _ screen_only_mem_only [OF mem_only_fill]]

lemma screen_only_putc_scroll_display: "screen_only k (putc_scroll_display c k)"
  by (auto simp: putc_scroll_display_def Let_def scroll_display_eq shift_up_display_def intro!: screen_only_steps)

lemma screen_only_erase_last_ch_display: "screen_only k (erase_last_ch_display k)"
  by (auto simp: erase_last_ch_display_def Let_def intro!: screen_only_steps)

lemma screen_only_clear: "screen_only k (clear k)"
  by (auto simp: clear_def Let_def intro!: screen_only_steps)

section \<open>Switching the displayed terminal\<close>

lemma phys_store_list_in:
  assumes "shows_frame base v g" "length vs \<le> 4096" "off < length vs"
  shows "store_list (st (walk g)) p base vs (in_page v off) = vs ! off"
proof -
  have "ld (walk g) (store_list (st (walk g)) p base vs) (base + of_nat off) = vs ! off"
    by (rule mmu.rd_store_list_in)
      (use assms shows_frame_block [OF assms(1,2)] in \<open>auto simp: block_def\<close>)
  then show ?thesis using assms by (simp add: ld_def shows_frame_def)
qed

lemma phys_store_list_out:
  assumes "\<And>i. i < length vs \<Longrightarrow> tr (a + of_nat i) \<noteq> Some x"
  shows "store_list (st tr) p a vs x = p x"
  using assms
proof (induction vs arbitrary: p a)
  case (Cons v vs)
  have "store_list (st tr) (st tr p a v) (a + 1) vs x = st tr p a v x"
    by (rule Cons.IH) (use Cons.prems [of "Suc i" for i] in \<open>auto simp: algebra_simps\<close>)
  moreover have "st tr p a v x = p x"
    using Cons.prems [of 0] by (auto simp: st_def split: option.splits)
  ultimately show ?case by simp
qed simp

text \<open>Copying a whole page between two windows.\<close>

lemma memcpy_page:
  assumes "shows_frame d v (pg k)" "shows_frame s w (pg k)" "v \<noteq> w" "off < 4096"
  shows "phys (memcpy k d s KB_4) (in_page u off) =
    (if u = v then phys k (in_page w off) else phys k (in_page u off))"
proof -
  have n: "unat KB_4 = 4096" by (simp add: KB_4_def)
  have "phys (memcpy k d s KB_4) = store_list (st (translate k)) (phys k) d
      (load_list (ld (translate k)) (phys k) s 4096)"
    using memcpy_p_eq [of "translate k" d KB_4 s "phys k"] shows_frame_apart [OF assms(1-3)]
    by (simp add: memcpy_def copy_p_def n)
  moreover have "load_list (ld (translate k)) (phys k) s 4096 ! off = phys k (in_page w off)"
    using assms(2,4) by (simp add: ld_def shows_frame_def)
  moreover have "store_list (st (translate k)) (phys k) d vs (in_page u off) = phys k (in_page u off)"
    if "u \<noteq> v" "length vs = 4096" for vs
    by (rule phys_store_list_out) (use assms that in \<open>auto simp: shows_frame_def in_page_inj\<close>)
  ultimately show ?thesis
    using phys_store_list_in [OF assms(1)] assms(4) by simp
qed

lemma memcpy_sel [simp]: "pg (memcpy k d s n) = pg k"
  by (simp add: memcpy_def)

lemma memcpy_screen_sel [simp]:
  fixes k :: "'a screen_scheme"
  shows "screen_x_multi (memcpy k d s n) = screen_x_multi k"
    "screen_y_multi (memcpy k d s n) = screen_y_multi k"
    "active_terminal (memcpy k d s n) = active_terminal k"
    "display_terminal (memcpy k d s n) = display_terminal k"
  by (simp_all add: memcpy_def)

lemma set_active_terminal_sel [simp]:
  "display_terminal (set_active_terminal t k) = display_terminal k"
  "active_terminal (set_active_terminal t k) = t"
  "phys (set_active_terminal t k) = phys k"
  "screen_x_multi (set_active_terminal t k) = screen_x_multi k"
  "screen_y_multi (set_active_terminal t k) = screen_y_multi k"
  by (simp_all add: set_active_terminal_def Let_def)

lemma video_inv_set_active_terminal:
  assumes "kernel_map v (pg k)" "display_terminal k \<in> {0, 1, 2}" "t \<in> {0, 1, 2}"
  shows "video_inv (set_active_terminal t k)"
proof -
  have f: "term_frame (display_terminal k) t =
      (if (if t = display_terminal k then 1 else 0 :: int) = 0
       then word_of_int (int VIDEO_IND + t + 1) else of_nat VIDEO_IND)"
    using assms by (auto simp: term_frame_def VIDEO_IND_def)
  have "kernel_map (term_frame (display_terminal k) t) (pg (set_active_terminal t k))"
    using kernel_map_set_active_terminal_paging [OF assms(1), of "if t = display_terminal k then 1 else 0" t]
    unfolding f [symmetric] by (simp add: set_active_terminal_def Let_def split: if_splits)
  then show ?thesis using assms by (simp add: video_inv_def)
qed

lemma set_disiplay_terminal_sel:
  "display_terminal (set_disiplay_terminal t k) = t"
  "active_terminal (set_disiplay_terminal t k) = active_terminal k"
  "screen_x_multi (set_disiplay_terminal t k) = screen_x_multi k"
  "screen_y_multi (set_disiplay_terminal t k) = screen_y_multi k"
  by (simp_all add: set_disiplay_terminal_def Let_def)

lemma set_disiplay_terminal_phys:
  "phys (set_disiplay_terminal t k) =
     phys (memcpy (memcpy k (TERMINAL_MEM (display_terminal k)) VIDEO_PHYSICAL KB_4)
       VIDEO_PHYSICAL (TERMINAL_MEM t) KB_4)"
  by (simp add: set_disiplay_terminal_def Let_def)

lemma video_inv_set_disiplay_terminal:
  assumes "video_inv k" "t \<in> {0, 1, 2}"
  shows "video_inv (set_disiplay_terminal t k)"
proof -
  define k' where "k' = (memcpy (memcpy k (TERMINAL_MEM (display_terminal k)) VIDEO_PHYSICAL KB_4)
       VIDEO_PHYSICAL (TERMINAL_MEM t) KB_4)\<lparr>display_terminal := t\<rparr>"
  have "pg k' = pg k" "active_terminal k' = active_terminal k" "display_terminal k' = t"
    by (simp_all add: k'_def)
  then have "video_inv (set_active_terminal (active_terminal k') k')"
    using assms video_inv_set_active_terminal
    unfolding video_inv_def by metis
  moreover have "set_disiplay_terminal t k =
      update_cursor (screen_x_multi k t) (screen_y_multi k t) (set_active_terminal (active_terminal k') k')"
    by (simp add: set_disiplay_terminal_def Let_def k'_def)
  ultimately show ?thesis
    by (simp add: video_inv_def)
qed

text \<open>Every byte of every terminal's page is where the new arrangement puts that terminal.\<close>

lemma set_disiplay_terminal_pages:
  assumes "video_inv k" "t \<in> {0, 1, 2}" "s \<in> {0, 1, 2}" "off < 4096"
  shows "phys (set_disiplay_terminal t k) (in_page (term_frame t s) off) =
    phys k (in_page (term_frame (display_terminal k) s) off)"
proof -
  define d where "d = display_terminal k"
  define b :: "int \<Rightarrow> 20 word" where "b s = of_nat (VIDEO_IND + 1 + nat s)" for s
  define k1 where "k1 = memcpy k (TERMINAL_MEM d) VIDEO_PHYSICAL KB_4"
  have d: "d \<in> {0, 1, 2}" using assms(1) by (simp add: d_def video_inv_def)
  have b: "b s \<noteq> of_nat VIDEO_IND" "b s = b s' \<longleftrightarrow> s = s'" if "s \<in> {0, 1, 2}" "s' \<in> {0, 1, 2}" for s s'
    using that by (auto simp: b_def VIDEO_IND_def)
  obtain v where v: "kernel_map v (pg k)" using assms(1) by (auto simp: video_inv_def)
  note w = shows_frame_windows [OF this, folded b_def]
  have 1: "phys k1 (in_page u off) =
      (if u = b d then phys k (in_page (of_nat VIDEO_IND) off) else phys k (in_page u off))" for u
    unfolding k1_def by (rule memcpy_page) (use w d b assms(4) in auto)
  have pg1: "pg k1 = pg k" by (simp add: k1_def)
  have 2: "phys (memcpy k1 VIDEO_PHYSICAL (TERMINAL_MEM t) KB_4) (in_page u off) =
      (if u = of_nat VIDEO_IND then phys k1 (in_page (b t) off) else phys k1 (in_page u off))" for u
    using b(1) [OF assms(2,2)]
    by (intro memcpy_page) (use w assms(2,4) pg1 in auto)
  show ?thesis
    unfolding set_disiplay_terminal_phys d_def [symmetric] k1_def [symmetric] term_frame_def
      b_def [symmetric] 1 2
    using b(1) [OF d d] b(1) [OF assms(2,2)] b(1) [OF assms(3,3)]
      b(2) [OF assms(2) d] b(2) [OF assms(3) d] b(2) [OF assms(3,2)]
    by simp
qed

lemma terminal_set_disiplay_terminal:
  assumes "video_inv k" "t \<in> {0, 1, 2}" "s \<in> {0, 1, 2}"
  shows "terminal (set_disiplay_terminal t k) s = terminal k s"
  using set_disiplay_terminal_pages [OF assms]
  by (auto simp: terminal_def set_disiplay_terminal_sel intro: frame_grid_cong)

text \<open>No other physical page changes.\<close>

lemma in_page_of_nat:
  assumes "f < 2 ^ 20"
  shows "in_page (of_nat f) off = of_nat (4096 * f + off)"
proof -
  have "unat (of_nat f :: 20 word) = f" using assms by (intro unat_of_nat_small) simp
  then have "ucast (of_nat f :: 20 word) = (of_nat f :: u32)" by (metis of_nat_unat)
  then show ?thesis by (simp add: in_page_def push_bit_eq_mult)
qed

lemma set_disiplay_terminal_other:
  assumes "video_inv k" "t \<in> {0, 1, 2}" "0xBC000 \<le> unat a"
  shows "phys (set_disiplay_terminal t k) a = phys k a"
proof -
  define d where "d = display_terminal k"
  define b :: "int \<Rightarrow> 20 word" where "b s = of_nat (VIDEO_IND + 1 + nat s)" for s
  define f off where "f = unat a div 4096" and "off = unat a mod 4096"
  define k1 where "k1 = memcpy k (TERMINAL_MEM d) VIDEO_PHYSICAL KB_4"
  have d: "d \<in> {0, 1, 2}" using assms(1) by (simp add: d_def video_inv_def)
  have f: "f < 2 ^ 20" "0xBC \<le> f" "off < 4096"
    using unat_lt_u32 [of a] assms(3) by (auto simp: f_def off_def intro: less_mult_imp_div_less)
  have a: "a = in_page (of_nat f) off"
    unfolding in_page_of_nat [OF f(1)] by (simp add: f_def off_def)
  have ne: "(of_nat f :: 20 word) \<noteq> of_nat VIDEO_IND" "(of_nat f :: 20 word) \<noteq> b s" if "s \<in> {0, 1, 2}" for s
  proof -
    have g: "(of_nat f :: 20 word) \<noteq> of_nat g" if "g < 0xBC" for g
    proof -
      have "unat (of_nat f :: 20 word) = f" "unat (of_nat g :: 20 word) = g"
        using f that by (auto intro!: unat_of_nat_small)
      then show ?thesis using f(2) that by (metis not_le)
    qed
    show "(of_nat f :: 20 word) \<noteq> of_nat VIDEO_IND" by (rule g) (simp add: VIDEO_IND_def)
    show "(of_nat f :: 20 word) \<noteq> b s"
      unfolding b_def by (rule g) (use that in \<open>auto simp: VIDEO_IND_def\<close>)
  qed
  obtain v where v: "kernel_map v (pg k)" using assms(1) by (auto simp: video_inv_def)
  note w = shows_frame_windows [OF this, folded b_def]
  have bn: "b s \<noteq> of_nat VIDEO_IND" if "s \<in> {0, 1, 2}" for s using that by (auto simp: b_def VIDEO_IND_def)
  have "phys k1 (in_page (of_nat f) off) =
      (if of_nat f = b d then phys k (in_page (of_nat VIDEO_IND) off) else phys k (in_page (of_nat f) off))"
    unfolding k1_def by (rule memcpy_page) (use w d f(3) bn in auto)
  moreover have "phys (memcpy k1 VIDEO_PHYSICAL (TERMINAL_MEM t) KB_4) (in_page (of_nat f) off) =
      (if of_nat f = (of_nat VIDEO_IND :: 20 word) then phys k1 (in_page (b t) off)
       else phys k1 (in_page (of_nat f) off))"
    using bn [OF assms(2)] by (intro memcpy_page) (use w assms(2) f(3) in \<open>auto simp: k1_def\<close>)
  ultimately show ?thesis
    unfolding set_disiplay_terminal_phys d_def [symmetric] k1_def [symmetric] a
    using ne(1) [OF d] ne(2) [OF d] by simp
qed

end
