(* ===== verification/FileSpec.thy ===== *)
theory FileSpec
  imports FileSystem
begin

text \<open>
  What the file system promises: the file an inode describes, that \<^verbatim>\<open>read_data\<close> delivers the
  requested part of it and nothing else, that consecutive reads continue each other, and that
  a name finds the first directory entry carrying it.
\<close>

section \<open>Well-formed images\<close>

definition image_size :: "'a filesys_scheme \<Rightarrow> nat" where
  "image_size k = 4096 * (1 + nat (num_inodes k) + nat (num_data_blocks k))"

text \<open>
  The globals describe the image at \<open>file_start\<close>, every inode has at most 1023 blocks, and
  every block it uses exists.
\<close>

definition fs_ok :: "'a filesys_scheme \<Rightarrow> bool" where
  "fs_ok k \<longleftrightarrow> 0 \<le> num_dir_entry k \<and> num_dir_entry k \<le> 63 \<and> 0 \<le> num_inodes k \<and> 0 \<le> num_data_blocks k \<and>
     image_size k < 2 ^ 32 \<and>
     dir_table k = file_start k + 64 \<and> inode_table k = file_start k + 4096 \<and>
     data_block_start k = file_start k + of_nat (4096 * (1 + nat (num_inodes k))) \<and>
     (\<forall>n<nat (num_inodes k). unat (inode_length k (of_nat n)) \<le> 1023 * 4096 \<and>
        (\<forall>i<1023. 4096 * i < unat (inode_length k (of_nat n)) \<longrightarrow>
           unat (inode_data k (of_nat n) (int i)) < nat (num_data_blocks k)))"

text \<open>Byte \<open>j\<close> of the file with inode \<open>n\<close>.\<close>

definition file_byte :: "'a filesys_scheme \<Rightarrow> u32 \<Rightarrow> nat \<Rightarrow> u8" where
  "file_byte k n j = ldb k (data_block k (inode_data k n (int (j div 4096))) + of_nat (j mod 4096))"

definition file_part :: "'a filesys_scheme \<Rightarrow> u32 \<Rightarrow> nat \<Rightarrow> nat \<Rightarrow> u8 list" where
  "file_part k n a b = map (file_byte k n) [a..<b]"

lemma file_part_append: "a \<le> b \<Longrightarrow> b \<le> c \<Longrightarrow> file_part k n a b @ file_part k n b c = file_part k n a c"
  unfolding file_part_def using upt_add_eq_append [of a b "c - b"] by (simp flip: map_append)

lemma length_file_part [simp]: "length (file_part k n a b) = b - a"
  by (simp add: file_part_def)

section \<open>Addresses of the image\<close>

lemma image_addrs:
  assumes "fs_ok k" "unat n < nat (num_inodes k)"
  shows "inode_table k + sizeof_inode * n = file_start k + of_nat (4096 * (1 + unat n))"
    "inode_table k + sizeof_inode * n + 4 + 4 * word_of_int (int i) =
       file_start k + of_nat (4096 * (1 + unat n) + 4 + 4 * i)"
    "data_block k d = file_start k + of_nat (4096 * (1 + nat (num_inodes k) + unat d))"
  using assms by (simp_all add: fs_ok_def sizeof_inode_def data_block_def data_block_size_def algebra_simps)

text \<open>A state that agrees with \<open>k\<close> on the globals and on the bytes of the image.\<close>

definition same_image :: "'a filesys_scheme \<Rightarrow> 'a filesys_scheme \<Rightarrow> bool" where
  "same_image k k' \<longleftrightarrow> file_start k' = file_start k \<and> num_inodes k' = num_inodes k \<and>
     num_data_blocks k' = num_data_blocks k \<and> num_dir_entry k' = num_dir_entry k \<and>
     data_block_start k' = data_block_start k \<and> dir_table k' = dir_table k \<and>
     inode_table k' = inode_table k \<and>
     (\<forall>x<image_size k. ldb k' (file_start k + of_nat x) = ldb k (file_start k + of_nat x))"

lemma same_image_sel:
  assumes "same_image k k'"
  shows "file_start k' = file_start k" "num_inodes k' = num_inodes k"
    "num_data_blocks k' = num_data_blocks k" "num_dir_entry k' = num_dir_entry k"
    "data_block_start k' = data_block_start k" "dir_table k' = dir_table k" "inode_table k' = inode_table k"
  using assms by (simp_all add: same_image_def)

lemma ldw_ldb: "ldw k a = word_of_bytes (ldb k a) (ldb k (a + 1)) (ldb k (a + 2)) (ldb k (a + 3))"
  by (simp add: ldw_def ld32_def ldb_def)

lemma same_image_ldw:
  assumes "same_image k k'" "x + 3 < image_size k"
  shows "ldw k' (file_start k + of_nat x) = ldw k (file_start k + of_nat x)"
proof -
  have "ldb k' (file_start k + of_nat (x + y)) = ldb k (file_start k + of_nat (x + y))" if "y < 4" for y
    using assms that unfolding same_image_def by (auto simp del: of_nat_add)
  from this [of 0] this [of 1] this [of 2] this [of 3] show ?thesis
    by (simp add: ldw_ldb algebra_simps)
qed

lemma same_image_inode:
  assumes "fs_ok k" "same_image k k'" "unat n < nat (num_inodes k)"
  shows "inode_length k' n = inode_length k n"
    and "i < 1023 \<Longrightarrow> inode_data k' n (int i) = inode_data k n (int i)"
    and "data_block k' d = data_block k d"
proof -
  note sel = same_image_sel [OF assms(2)]
  have "4096 * (1 + unat n) + 4096 \<le> image_size k"
    using assms(3) by (simp add: image_size_def)
  then have lim: "4096 * (1 + unat n) + 3 < image_size k"
    "i < 1023 \<Longrightarrow> 4096 * (1 + unat n) + 4 + 4 * i + 3 < image_size k" by auto
  show "inode_length k' n = inode_length k n"
    unfolding inode_length_def sel image_addrs(1) [OF assms(1,3)]
    by (rule same_image_ldw [OF assms(2) lim(1)])
  show "inode_data k' n (int i) = inode_data k n (int i)" if "i < 1023"
    unfolding inode_data_def sel image_addrs(2) [OF assms(1,3)]
    by (rule same_image_ldw [OF assms(2) lim(2) [OF that]])
  show "data_block k' d = data_block k d"
    by (simp add: data_block_def sel)
qed

text \<open>Storing outside the image keeps it.\<close>

lemma same_image_store:
  fixes k :: "'a filesys_scheme"
  assumes "apart (translate k) buf (length vs) (file_start k) (image_size k)"
  shows "same_image k (store_bytes k buf vs)"
  unfolding same_image_def
proof (intro conjI allI impI)
  fix x assume "x < image_size k"
  then show "ldb (store_bytes k buf vs) (file_start k + of_nat x) = ldb k (file_start k + of_nat x)"
    unfolding ldb_def store_bytes_def using assms
    by (simp add: apart_def mmu.rd_store_list_frame)
qed (simp_all add: store_bytes_def)

section \<open>Reading data\<close>

lemma store_bytes_append:
  "store_bytes (store_bytes k a xs) (a + of_nat (length xs)) ys = store_bytes k a (xs @ ys)"
  by (simp add: store_bytes_def store_list_append)

lemma store_bytes_pg [simp]: "pg (store_bytes k a xs) = pg k"
  by (simp add: store_bytes_def)

lemma memcpy_store_bytes:
  assumes "apart (translate k) d (unat n) s (unat n)"
  shows "memcpy k d s n = store_bytes k d (load_list ldb k s (unat n))"
  using memcpy_p_eq [OF assms] by (simp add: memcpy_def store_bytes_def copy_p_def load_list_def ldb_def)

text \<open>The block that holds byte \<open>j\<close> of the file lies in the image.\<close>

lemma file_block:
  assumes "fs_ok k" "unat n < nat (num_inodes k)" "j < unat (inode_length k n)"
  defines "d \<equiv> inode_data k n (int (j div 4096))"
  shows "unat d < nat (num_data_blocks k)" "j div 4096 < 1023"
    "4096 * (1 + nat (num_inodes k) + unat d) + 4096 \<le> image_size k"
proof -
  have n: "of_nat (unat n) = n"
    using of_nat_unat [of n] by simp
  have len: "unat (inode_length k n) \<le> 1023 * 4096"
    and blk: "\<And>i. i < 1023 \<Longrightarrow> 4096 * i < unat (inode_length k n) \<Longrightarrow>
      unat (inode_data k n (int i)) < nat (num_data_blocks k)"
    using assms(1,2) unfolding fs_ok_def by (metis n)+
  show j: "j div 4096 < 1023" using len assms(3) by simp
  have "4096 * (j div 4096) < unat (inode_length k n)"
    using assms(3) by (metis order_le_less_trans mult.commute div_times_less_eq_dividend)
  then show "unat d < nat (num_data_blocks k)"
    unfolding d_def by (rule blk [OF j])
  then show "4096 * (1 + nat (num_inodes k) + unat d) + 4096 \<le> image_size k"
    by (simp add: image_size_def)
qed

lemma div_mod_offset:
  fixes j y m :: nat
  assumes "j mod m + y < m"
  shows "(j + y) div m = j div m" "(j + y) mod m = j mod m + y"
proof -
  have m: "0 < m" using assms by simp
  have e: "j + y = m * (j div m) + (j mod m + y)" by simp
  have "(m * (j div m) + (j mod m + y)) div m = j div m"
    using assms m by (subst div_mult_self4) simp_all
  then show "(j + y) div m = j div m" by (simp only: e [symmetric])
  have "(m * (j div m) + (j mod m + y)) mod m = j mod m + y"
    using assms by (subst mod_mult_self4) simp
  then show "(j + y) mod m = j mod m + y" by (simp only: e [symmetric])
qed

text \<open>One round of the loop, from byte \<open>j\<close> of the file.\<close>

lemma file_round:
  fixes k :: "'a filesys_scheme"
  assumes "fs_ok k" "same_image k k'" "unat n < nat (num_inodes k)" "j + cl \<le> unat (inode_length k n)"
    "0 < cl" "j mod 4096 + cl \<le> 4096" and pg: "pg k' = pg k"
    and ap: "apart (translate k) cur cl (file_start k) (image_size k)"
  defines "src \<equiv> data_block k' (inode_data k' n (int (j div 4096))) + of_nat (j mod 4096)"
  shows "memcpy k' cur src (of_nat cl) = store_bytes k' cur (file_part k n j (j + cl))"
proof -
  let ?d = "inode_data k n (int (j div 4096))"
  define x where "x = 4096 * (1 + nat (num_inodes k) + unat ?d) + j mod 4096"
  have j: "j < unat (inode_length k n)" using assms by simp
  note blk = file_block [OF assms(1,3) j]
  have src: "src = file_start k + of_nat x"
    unfolding src_def x_def same_image_inode(2) [OF assms(1-3) blk(2)] same_image_inode(3) [OF assms(1-3)]
      image_addrs(3) [OF assms(1,3)] by (simp add: algebra_simps)
  have x: "x + cl \<le> image_size k" using blk(3) assms(6) by (simp add: x_def)
  have cl: "unat (of_nat cl :: u32) = cl" using assms(6) by (intro unat_of_nat_small) simp
  have "apart (translate k') (cur + of_nat 0) cl (file_start k + of_nat x) cl"
    by (rule apart_off) (use apart_mono [OF ap, of cl "x + cl"] x pg in simp)
  then have "memcpy k' cur src (of_nat cl) = store_bytes k' cur (load_list ldb k' src cl)"
    using memcpy_store_bytes [of k' cur "of_nat cl" src] src cl by simp
  moreover have "load_list ldb k' src cl = file_part k n j (j + cl)"
  proof (rule nth_equalityI)
    fix y assume "y < length (load_list ldb k' src cl)"
    then have y: "y < cl" by simp
    then have r: "j mod 4096 + y < 4096" using assms(6) by simp
    note dm = div_mod_offset [OF r]
    have "ldb k' (file_start k + of_nat (x + y)) = ldb k (file_start k + of_nat (x + y))"
      using assms(2) x y by (simp add: same_image_def del: of_nat_add)
    moreover have "file_start k + of_nat (x + y) = data_block k ?d + of_nat (j mod 4096 + y)"
      unfolding image_addrs(3) [OF assms(1,3)] x_def by (simp add: algebra_simps)
    moreover have "src + of_nat y = file_start k + of_nat (x + y)"
      by (simp add: src algebra_simps)
    moreover have "file_part k n j (j + cl) ! y = ldb k (data_block k ?d + of_nat (j mod 4096 + y))"
      using y by (simp add: file_part_def file_byte_def dm del: of_nat_add)
    ultimately show "load_list ldb k' src cl ! y = file_part k n j (j + cl) ! y"
      using y by (simp del: of_nat_add)
  qed simp
  ultimately show ?thesis by simp
qed

text \<open>The whole loop.\<close>

lemma read_data_loop_eq:
  fixes k :: "'a filesys_scheme"
  assumes ok: "fs_ok k" "unat n < nat (num_inodes k)"
    and len: "unat offset + N \<le> unat (inode_length k n)"
    and ap: "apart (translate k) buf N (file_start k) (image_size k)"
    and c: "c < N" "i = (unat offset + c) div 4096" "c = 0 \<or> (unat offset + c) mod 4096 = 0"
  shows "read_data_loop (store_bytes k buf (file_part k n (unat offset) (unat offset + c))) n offset
      (int i) (int (N - c)) (buf + of_nat c) (int c) =
    (store_bytes k buf (file_part k n (unat offset) (unat offset + N)), int N)"
  using c
proof (induction "N - c" arbitrary: c i rule: less_induct)
  case less
  define j where "j = unat offset + c"
  define cl where "cl = min (N - c) (4096 - j mod 4096)"
  define k' where "k' = store_bytes k buf (file_part k n (unat offset) j)"
  have i: "i = j div 4096" using less.prems by (simp add: j_def)
  have cl: "0 < cl" "cl \<le> N - c" "j mod 4096 + cl \<le> 4096" "j + cl \<le> unat (inode_length k n)"
    using less.prems len by (auto simp: cl_def j_def)
  have img: "same_image k k'"
    unfolding k'_def by (rule same_image_store) (use apart_mono [OF ap] less.prems in \<open>simp add: j_def\<close>)
  note inode = same_image_inode [OF ok(1) img ok(2)]
  have o: "uint (offset div of_nat data_block_size) = int (unat offset div 4096)"
    "uint (offset mod of_nat data_block_size) = int (unat offset mod 4096)"
    "offset mod of_nat data_block_size = of_nat (unat offset mod 4096)"
    by (simp_all add: data_block_size_def uint_div uint_mod zdiv_int zmod_int)
      (simp add: word_arith_nat_mod)
  have first: "int i = uint (offset div of_nat data_block_size) \<longleftrightarrow> c = 0"
  proof
    assume "int i = uint (offset div of_nat data_block_size)"
    then have "i = unat offset div 4096" by (simp add: o)
    then have d: "j div 4096 = unat offset div 4096" by (simp add: i)
    have "j = 4096 * (j div 4096)" if "c \<noteq> 0"
      using that less.prems mult_div_mod_eq [of 4096 j] by (simp add: j_def)
    then have "j \<le> unat offset" if "c \<noteq> 0"
      using that mult_div_mod_eq [of 4096 "unat offset"] unfolding d by linarith
    then show "c = 0" by (auto simp: j_def)
  qed (simp add: o i j_def)
  have rl: "round_length offset (int i) (int (N - c)) = int cl"
    unfolding round_length_def Let_def first o(2) using less.prems
    by (cases "c = 0") (auto simp: cl_def j_def data_block_size_def min_def of_nat_diff)
  have src: "round_source k' n offset (int i) =
      data_block k' (inode_data k' n (int (j div 4096))) + of_nat (j mod 4096)"
    unfolding round_source_def first o(3) using less.prems by (cases "c = 0") (auto simp: i j_def)
  have "i < unat (inode_length k n)"
    using cl unfolding i by (meson div_le_dividend le_less_trans less_le_trans less_add_same_cancel1)
  then have go: "word_of_int (int i) < inode_length k' n"
    unfolding inode word_less_nat_alt using unat_lt_u32 [of "inode_length k n"]
    by (simp add: unat_of_nat_small)
  have "apart (translate k) (buf + of_nat c) cl (file_start k + of_nat 0) (image_size k)"
    by (rule apart_off) (use apart_mono [OF ap, of "c + cl" "image_size k"] cl less.prems in simp)
  then have "memcpy k' (buf + of_nat c) (round_source k' n offset (int i)) (of_nat cl) =
      store_bytes k' (buf + of_nat c) (file_part k n j (j + cl))"
    unfolding src by (intro file_round) (use ok img cl in \<open>simp_all add: k'_def\<close>)
  also have "\<dots> = store_bytes k buf (file_part k n (unat offset) (j + cl))"
    using store_bytes_append [of k buf "file_part k n (unat offset) j" "file_part k n j (j + cl)"]
      file_part_append [of "unat offset" j "j + cl" k n] by (simp add: k'_def j_def)
  finally have cp: "memcpy k' (buf + of_nat c) (round_source k' n offset (int i)) (of_nat cl) =
      store_bytes k buf (file_part k n (unat offset) (unat offset + (c + cl)))"
    by (simp add: j_def add.assoc)
  have step: "read_data_loop k' n offset (int i) (int (N - c)) (buf + of_nat c) (int c) =
    (let k'' = store_bytes k buf (file_part k n (unat offset) (unat offset + (c + cl))) in
     if N - c \<le> cl then (k'', int (c + cl))
     else read_data_loop k'' n offset (int (i + 1)) (int (N - (c + cl))) (buf + of_nat (c + cl)) (int (c + cl)))"
    using go rl cp cl(2) by (subst read_data_loop.simps) (simp add: Let_def ac_simps diff_diff_eq of_nat_diff)
  show ?case
  proof (cases "c + cl = N")
    case True
    then have "N - c \<le> cl" by simp
    with True show ?thesis
      unfolding j_def [symmetric] k'_def [symmetric] step by (simp add: Let_def)
  next
    case False
    then have "cl = 4096 - j mod 4096" using cl by (auto simp: cl_def min_def split: if_splits)
    then have "j mod 4096 + cl = 4096" using mod_less_divisor [of 4096 j] by simp
    moreover have "j + cl = 4096 * (q + 1)" if "r + cl = 4096" "4096 * q + r = j" for q r
      using that by simp
    ultimately have "j + cl = 4096 * (i + 1)"
      using mult_div_mod_eq [of 4096 j] unfolding i by blast
    then have m: "(unat offset + (c + cl)) mod 4096 = 0" "(unat offset + (c + cl)) div 4096 = i + 1"
      by (simp_all add: j_def add.assoc)
    have "read_data_loop (store_bytes k buf (file_part k n (unat offset) (unat offset + (c + cl)))) n offset
        (int (i + 1)) (int (N - (c + cl))) (buf + of_nat (c + cl)) (int (c + cl)) =
      (store_bytes k buf (file_part k n (unat offset) (unat offset + N)), int N)"
      by (rule less.hyps) (use False cl m in auto)
    moreover have "\<not> N - c \<le> cl" using False cl(2) less.prems by linarith
    ultimately show ?thesis
      unfolding j_def [symmetric] k'_def [symmetric] step by (simp only: Let_def if_False)
  qed
qed

text \<open>
  \<^verbatim>\<open>read_data\<close> on a valid inode: the buffer receives the bytes from \<open>offset\<close> on, as many as the
  request and the file allow, and the count of them is returned.
\<close>

lemma read_data_eq:
  fixes k :: "'a filesys_scheme"
  assumes ok: "fs_ok k" "unat n < nat (num_inodes k)"
    and sz: "unat offset + unat count < 2 ^ 31"
    and N: "N = min (unat count) (unat (inode_length k n) - unat offset)"
    and ap: "apart (translate k) buf N (file_start k) (image_size k)"
  shows "read_data n offset buf count k =
    (store_bytes k buf (file_part k n (unat offset) (unat offset + N)), int N)"
proof -
  have "int (unat n) < num_inodes k" using ok(2) by linarith
  moreover have "image_size k < 2 ^ 32" using ok(1) by (simp add: fs_ok_def)
  then have "num_inodes k < 2 ^ 32" by (simp add: image_size_def)
  moreover have "0 \<le> num_inodes k" using ok(1) by (simp add: fs_ok_def)
  ultimately have n: "\<not> n \<ge> word_of_int (num_inodes k)"
    by (simp add: not_le word_less_def take_bit_int_eq_self uint_word_of_int_eq)
  define L where "L = unat (inode_length k n)"
  have "of_nat (unat n) = n" using of_nat_unat [of n] by simp
  then have L: "L \<le> 1023 * 4096" using ok unfolding fs_ok_def L_def by metis
  have le: "offset + count > inode_length k n \<longleftrightarrow> L < unat offset + unat count"
    using sz by (simp add: word_less_nat_alt unat_word_ariths L_def)
  define rem where "rem = (if offset + count > inode_length k n
     then sint (inode_length k n - offset) else sint count)"
  have s: "sint (inode_length k n - offset) = int L - int (unat offset)" "sint count = int (unat count)"
    using sz L unfolding L_def by (intro sint_diff sint_small; simp)+
  have "(if L < o' + c then int L - int o' else int c) =
      (if min c (L - o') = 0 then min 0 (if L < o' + c then int L - int o' else int c)
       else int (min c (L - o')))" for o' c
    by (auto simp: min_def)
  then have rem: "rem = (if N = 0 then min 0 rem else int N)"
    unfolding rem_def le s N L_def [symmetric] .
  show ?thesis
  proof (cases "N = 0")
    case True
    with rem have "rem \<le> 0" by simp
    with True show ?thesis
      using n unfolding read_data_def rem_def [symmetric]
      by (simp add: Let_def file_part_def store_bytes_def)
  next
    case False
    have "read_data_loop (store_bytes k buf (file_part k n (unat offset) (unat offset + 0))) n offset
        (int ((unat offset + 0) div 4096)) (int (N - 0)) (buf + of_nat 0) (int 0) =
      (store_bytes k buf (file_part k n (unat offset) (unat offset + N)), int N)"
      by (rule read_data_loop_eq) (use ok ap N False in auto)
    then show ?thesis
      using n rem False unfolding read_data_def rem_def [symmetric]
      by (simp add: Let_def file_part_def store_bytes_def data_block_size_def uint_div zdiv_int)
  qed
qed

lemma read_data_bad_inode:
  assumes "word_of_int (num_inodes k) \<le> n"
  shows "read_data n offset buf count k = (k, -1)"
  using assms by (simp add: read_data_def)

text \<open>The image, and so every file, is unchanged in a state that agrees on it.\<close>

lemma same_image_size: "same_image k k' \<Longrightarrow> image_size k' = image_size k"
  by (simp add: image_size_def same_image_sel)

lemma same_image_fs_ok:
  assumes "same_image k k'" "fs_ok k"
  shows "fs_ok k'"
proof -
  note sel = same_image_sel [OF assms(1)]
  have "image_size k < 2 ^ 32" using assms(2) by (simp add: fs_ok_def)
  then have n: "unat (of_nat n :: u32) = n" if "n < nat (num_inodes k)" for n
    using that by (intro unat_of_nat_small) (simp add: image_size_def)
  have "inode_length k' (of_nat n) = inode_length k (of_nat n)"
    "i < 1023 \<Longrightarrow> inode_data k' (of_nat n) (int i) = inode_data k (of_nat n) (int i)"
    if "n < nat (num_inodes k)" for n i
    using same_image_inode [OF assms(2,1), of "of_nat n"] that n [OF that] by simp_all
  then show ?thesis
    using assms(2) unfolding fs_ok_def sel same_image_size [OF assms(1)] by simp
qed

lemma same_image_file_part:
  assumes "fs_ok k" "same_image k k'" "unat n < nat (num_inodes k)" "b \<le> unat (inode_length k n)"
  shows "file_part k' n a b = file_part k n a b"
  unfolding file_part_def
proof (rule map_cong)
  fix j assume "j \<in> set [a..<b]"
  then have j: "j < unat (inode_length k n)" using assms(4) by simp
  let ?d = "inode_data k n (int (j div 4096))"
  note blk = file_block [OF assms(1,3) j]
  have "4096 * (1 + nat (num_inodes k) + unat ?d) + j mod 4096 < image_size k"
    using blk(3) mod_less_divisor [of 4096 j] by linarith
  then have "ldb k' (file_start k + of_nat (4096 * (1 + nat (num_inodes k) + unat ?d) + j mod 4096)) =
      ldb k (file_start k + of_nat (4096 * (1 + nat (num_inodes k) + unat ?d) + j mod 4096))"
    using assms(2) by (simp add: same_image_def del: of_nat_add of_nat_mult)
  then show "file_byte k' n j = file_byte k n j"
    unfolding file_byte_def same_image_inode(2) [OF assms(1-3) blk(2)] same_image_inode(3) [OF assms(1-3)]
      image_addrs(3) [OF assms(1,3)] by (simp add: add.assoc)
qed simp

text \<open>Reading on from where the last read stopped delivers the same bytes as one longer read.\<close>

text \<open>
  C24: Reading a file in two consecutive pieces gives the same memory and the same total count
  as reading it at once, wherever the pieces meet in the blocks of the file.
\<close>

lemma read_data_continue:
  fixes k :: "'a filesys_scheme"
  assumes ok: "fs_ok k" "unat n < nat (num_inodes k)"
    and sz: "unat offset + (c1 + c2) < 2 ^ 31"
    and in_file: "unat offset + c1 \<le> unat (inode_length k n)"
    and ap: "apart (translate k) buf (c1 + c2) (file_start k) (image_size k)"
  shows "read_data n (offset + of_nat c1) (buf + of_nat c1) (of_nat c2)
      (fst (read_data n offset buf (of_nat c1) k)) =
    (fst (read_data n offset buf (of_nat (c1 + c2)) k),
     snd (read_data n offset buf (of_nat (c1 + c2)) k) - int c1)"
proof -
  define L where "L = unat (inode_length k n)"
  define N where "N = min c2 (L - (unat offset + c1))"
  have u: "unat (of_nat c1 :: u32) = c1" "unat (of_nat c2 :: u32) = c2"
    "unat (of_nat (c1 + c2) :: u32) = c1 + c2"
    using sz by (auto intro: unat_of_nat_small simp del: of_nat_add)
  have uo: "unat (offset + of_nat c1) = unat offset + c1"
    using sz by (intro unat_off) simp
  define k1 where "k1 = store_bytes k buf (file_part k n (unat offset) (unat offset + c1))"
  have img: "same_image k k1"
    unfolding k1_def by (rule same_image_store) (use apart_mono [OF ap] in simp)
  note inode = same_image_inode [OF ok(1) img ok(2)]
  have pg1: "pg k1 = pg k" by (simp add: k1_def)
  have r1: "read_data n offset buf (of_nat c1) k = (k1, int c1)"
    unfolding k1_def by (rule read_data_eq [OF ok]) (use sz u in_file apart_mono [OF ap] in auto)
  have r12: "read_data n offset buf (of_nat (c1 + c2)) k =
      (store_bytes k buf (file_part k n (unat offset) (unat offset + (c1 + N))), int (c1 + N))"
    by (rule read_data_eq [OF ok])
      (use sz u in_file apart_mono [OF ap] in \<open>auto simp: N_def L_def min_def simp del: of_nat_add\<close>)
  have ap1: "apart (translate k) (buf + of_nat c1) N (file_start k + of_nat 0) (image_size k)"
    by (rule apart_off) (use apart_mono [OF ap] in \<open>simp add: N_def\<close>)
  have "read_data n (offset + of_nat c1) (buf + of_nat c1) (of_nat c2) k1 =
      (store_bytes k1 (buf + of_nat c1)
        (file_part k1 n (unat (offset + of_nat c1)) (unat (offset + of_nat c1) + N)), int N)"
    by (rule read_data_eq [OF same_image_fs_ok [OF img ok(1)]])
      (use ap1 ok sz u uo inode in \<open>auto simp: same_image_sel [OF img] pg1
        same_image_size [OF img] N_def L_def\<close>)
  also have "file_part k1 n (unat (offset + of_nat c1)) (unat (offset + of_nat c1) + N) =
      file_part k n (unat offset + c1) (unat offset + (c1 + N))"
    unfolding uo add.assoc
    by (rule same_image_file_part [OF ok(1) img ok(2)]) (use in_file in \<open>auto simp: N_def L_def\<close>)
  also have "store_bytes k1 (buf + of_nat c1) (file_part k n (unat offset + c1) (unat offset + (c1 + N))) =
      store_bytes k buf (file_part k n (unat offset) (unat offset + (c1 + N)))"
    using store_bytes_append [of k buf "file_part k n (unat offset) (unat offset + c1)"]
      file_part_append [of "unat offset" "unat offset + c1" "unat offset + (c1 + N)" k n]
    by (simp add: k1_def)
  finally show ?thesis
    unfolding r1 r12 by simp
qed

section \<open>The directory\<close>

lemma load_list_cstring:
  assumes "cstring (ldb k) a cs" "l \<le> length cs"
  shows "load_list ldb k a l = take l cs"
  by (rule nth_equalityI) (use assms cstringD(4) [OF assms(1)] in auto)

lemma strlen_cstring:
  assumes "cstring (ldb k) a cs"
  shows "strlen k a = Some (of_nat (length cs))"
  using assms strlen_p_cstring [of "translate k" "phys k" a cs] by (simp add: strlen_def ldb_def [abs_def])

text \<open>The length and content comparison of the lookup loop: names agree in their first 32 bytes.\<close>

lemma strncmp_names:
  assumes "cstring (ldb k) a cs" "cstring (ldb k) b ds" "min 32 (length cs) = min 32 (length ds)"
  shows "strncmp k a b (word_of_int (int (min 32 (length cs)))) = 0 \<longleftrightarrow> take 32 cs = take 32 ds"
proof -
  let ?l = "min 32 (length cs)"
  have u: "unat (word_of_int (int ?l) :: u32) = ?l" by (simp add: unat_of_nat_small)
  have "strncmp k a b (word_of_int (int ?l)) = 0 \<longleftrightarrow> load_list ldb k a ?l = load_list ldb k b ?l"
    using strncmp_p_zero_iff [of "word_of_int (int ?l)" "translate k" "phys k" a b] cstringD(5) [OF assms(1)]
    unfolding strncmp_def u by (simp add: ldb_def [abs_def] load_list_def)
  moreover have "load_list ldb k a ?l = take 32 cs" "load_list ldb k b ?l = take 32 ds"
    using load_list_cstring [OF assms(1), of ?l] load_list_cstring [OF assms(2), of ?l] assms(3)
    by (simp_all add: min_def split: if_splits)
  ultimately show ?thesis by simp
qed

text \<open>\<open>names\<close> gives the name of every directory entry.\<close>

definition entry_names :: "'a filesys_scheme \<Rightarrow> (nat \<Rightarrow> u8 list) \<Rightarrow> bool" where
  "entry_names k names \<longleftrightarrow> (\<forall>i<nat (num_dir_entry k).
     cstring (ldb k) (dentry_addr k (of_nat i)) (names i) \<and> length (names i) < 64)"

lemma sint_of_nat_len: "n < 2 ^ 31 \<Longrightarrow> sint (of_nat n :: u32) = int n"
  by (subst sint_small) (simp_all add: unat_of_nat_small)

lemma read_dentry_loop_eq:
  assumes "entry_names k names" "cstring (ldb k) fname cs" "length cs < 2 ^ 31"
    "i + left \<le> nat (num_dir_entry k)"
  shows "read_dentry_loop k fname i left =
    Some (map_option (\<lambda>i. copy_dentry k (of_nat i))
      (find (\<lambda>i. take 32 (names i) = take 32 cs) [i..<i + left]))"
  using assms(4)
proof (induction left arbitrary: i)
  case (Suc left)
  have nm: "cstring (ldb k) (dentry_addr k (of_nat i)) (names i)" "length (names i) < 2 ^ 31"
    using assms(1) Suc.prems unfolding entry_names_def
    by (auto intro: less_trans [of _ 64])
  have up: "[i..<i + Suc left] = i # [Suc i..<Suc i + left]"
    by (simp add: upt_rec)
  have IH: "read_dentry_loop k fname (Suc i) left =
    Some (map_option (\<lambda>i. copy_dentry k (of_nat i))
      (find (\<lambda>i. take 32 (names i) = take 32 cs) [Suc i..<Suc i + left]))"
    by (rule Suc.IH) (use Suc.prems in simp)
  define l where "l xs = min 32 (length xs)" for xs :: "u8 list"
  have clip: "(if sint (of_nat (length xs) :: u32) > int max_name_length then int max_name_length
      else sint (of_nat (length xs) :: u32)) = int (l xs)" if "length xs < 2 ^ 31" for xs :: "u8 list"
    unfolding sint_of_nat_len [OF that] by (simp add: max_name_length_def l_def)
  have step: "read_dentry_loop k fname i (Suc left) =
    (if l cs \<noteq> l (names i) then read_dentry_loop k fname (Suc i) left
     else if strncmp k fname (dentry_addr k (of_nat i)) (word_of_int (int (l cs))) = 0
     then Some (Some (copy_dentry k (of_nat i)))
     else read_dentry_loop k fname (Suc i) left)"
    unfolding read_dentry_loop.simps strlen_cstring [OF assms(2)] strlen_cstring [OF nm(1)]
    by (simp only: Option.bind.bind_lunit Let_def clip [OF assms(3)] clip [OF nm(2)] of_nat_eq_iff)
  show ?case
  proof (cases "take 32 (names i) = take 32 cs")
    case True
    then have "l cs = l (names i)" unfolding l_def by (metis length_take min.commute)
    then show ?thesis
      unfolding step up using True strncmp_names [OF assms(2) nm(1)] by (simp add: l_def)
  next
    case False
    then have "l cs = l (names i) \<longrightarrow>
        strncmp k fname (dentry_addr k (of_nat i)) (word_of_int (int (l cs))) \<noteq> 0"
      using strncmp_names [OF assms(2) nm(1)] by (simp add: l_def)
    then show ?thesis
      unfolding step up using False IH by simp
  qed
qed simp

lemma read_dentry_by_name_eq:
  assumes "entry_names k names" "cstring (ldb k) fname cs" "length cs < 2 ^ 31"
  shows "read_dentry_by_name k fname =
    Some (map_option (\<lambda>i. copy_dentry k (of_nat i))
      (find (\<lambda>i. take 32 (names i) = take 32 cs) [0..<nat (num_dir_entry k)]))"
  using read_dentry_loop_eq [OF assms, of 0 "nat (num_dir_entry k)"] by (simp add: read_dentry_by_name_def)

lemma ldb_store_bytes:
  assumes "block (translate k) a (length vs)" "i < length vs"
  shows "ldb (store_bytes k a vs) (a + of_nat i) = vs ! i"
  unfolding ldb_def store_bytes_def
  using assms mmu.rd_store_list_in [of i vs "translate k" a "phys k"] by (simp add: block_def)

lemma stb_store_bytes: "stb (store_bytes k a vs) (a + of_nat (length vs)) v = store_bytes k a (vs @ [v])"
  by (simp add: stb_def store_bytes_def store_list_append)

text \<open>One call of \<^verbatim>\<open>dir_read\<close> delivers the next name, cut to 32 characters, and moves on.\<close>

lemma dir_read_next:
  fixes k :: "'a filesys_scheme"
  assumes ok: "fs_ok k" and names: "entry_names k names"
    and i: "current_dir_read_index k = int i" "i < nat (num_dir_entry k)"
    and buf: "block (translate k) buf 33"
  defines "k' \<equiv> (store_bytes k buf (fileName (copy_dentry k (of_nat i)) @ [0]))
      \<lparr>current_dir_read_index := int (i + 1)\<rparr>"
  shows "dir_read buf k = Some (k', int (length (take 32 (names i))))"
    and "cstring (ldb k') buf (take 32 (names i))"
proof -
  define vs where "vs = fileName (copy_dentry k (of_nat i)) @ [0]"
  have nm: "cstring (ldb k) (dentry_addr k (of_nat i)) (names i)"
    using names i by (simp add: entry_names_def)
  have len: "length vs = 33" by (simp add: vs_def copy_dentry_def fileNameLength_def)
  have nd: "num_dir_entry k \<le> 63" using ok by (simp add: fs_ok_def)
  have ld: "ldb k' (buf + of_nat y) = vs ! y" if "y < 33" for y
  proof -
    have "ldb k' (buf + of_nat y) = ldb (store_bytes k buf vs) (buf + of_nat y)"
      by (simp add: k'_def vs_def ldb_def)
    then show ?thesis using ldb_store_bytes [of k buf vs y] buf that len by simp
  qed
  have name: "vs ! y = (if y < length (names i) then names i ! y else 0)"
    if "y \<le> length (names i)" "y < 32" for y
    using that cstringD(3,4) [OF nm] by (auto simp: vs_def copy_dentry_def fileNameLength_def nth_append)
  show cs: "cstring (ldb k') buf (take 32 (names i))"
    unfolding cstring_def
  proof (intro conjI allI impI)
    show "length (take 32 (names i)) < 2 ^ 32" by simp
    show "0 \<notin> set (take 32 (names i))" using cstringD(2) [OF nm] in_set_takeD by fast
    show "ldb k' (buf + of_nat j) = take 32 (names i) ! j" if "j < length (take 32 (names i))" for j
      using that ld [of j] name [of j] by simp
    show "ldb k' (buf + of_nat (length (take 32 (names i)))) = 0"
    proof (cases "length (names i) < 32")
      case True
      then show ?thesis using ld [of "length (names i)"] name [of "length (names i)"] by simp
    next
      case False
      then have "vs ! 32 = 0" by (simp add: vs_def copy_dentry_def fileNameLength_def nth_append)
      then show ?thesis using False ld [of 32] by simp
    qed
  qed
  have st: "stb (store_bytes k buf (fileName (copy_dentry k (of_nat i)))) (buf + of_nat max_name_length) 0 =
      store_bytes k buf vs"
    using stb_store_bytes [of k buf "fileName (copy_dentry k (of_nat i))" 0]
    by (simp add: vs_def copy_dentry_def fileNameLength_def max_name_length_def)
  obtain m where m: "num_dir_entry k = int m" using i(2) by (cases "num_dir_entry k") auto
  have ix: "read_dentry_by_index k (word_of_int (int i)) = Some (copy_dentry k (of_nat i))"
    using i nd m by (simp add: read_dentry_by_index_def word_le_nat_alt unat_of_nat_small)
  have "strlen k' buf = Some (of_nat (length (take 32 (names i))))"
    by (rule strlen_cstring [OF cs])
  moreover have "(store_bytes k buf vs)\<lparr>current_dir_read_index :=
      current_dir_read_index (store_bytes k buf vs) + 1\<rparr> = k'"
    by (simp add: k'_def vs_def store_bytes_def i(1))
  moreover have "sint (of_nat (length (take 32 (names i))) :: u32) = int (length (take 32 (names i)))"
    by (rule sint_of_nat_len) simp
  moreover have "\<not> num_dir_entry k \<le> int i" using i(2) by simp
  ultimately show "dir_read buf k = Some (k', int (length (take 32 (names i))))"
    unfolding dir_read_def i(1) ix by (simp add: Let_def st del: length_take)
qed

lemma dir_read_end:
  assumes "num_dir_entry k \<le> current_dir_read_index k"
  shows "dir_read buf k = Some (k, 0)"
  using assms by (simp add: dir_read_def)

text \<open>The directory is part of the image too.\<close>

lemma dentry_addr_image:
  "fs_ok k \<Longrightarrow> dentry_addr k (of_nat i) + of_nat x = file_start k + of_nat (64 * (i + 1) + x)"
  by (simp add: fs_ok_def dentry_addr_def sizeof_dentry_def algebra_simps)

lemma same_image_dentry_byte:
  assumes "fs_ok k" "same_image k k'" "i < nat (num_dir_entry k)" "x < 64"
  shows "ldb k' (dentry_addr k (of_nat i) + of_nat x) = ldb k (dentry_addr k (of_nat i) + of_nat x)"
proof -
  have "64 * (i + 1) + x < image_size k"
    using assms unfolding fs_ok_def image_size_def by auto
  then show ?thesis
    using assms(2) unfolding dentry_addr_image [OF assms(1)] same_image_def by blast
qed

lemma same_image_dentry_addr: "same_image k k' \<Longrightarrow> dentry_addr k' = dentry_addr k"
  by (simp add: dentry_addr_def fun_eq_iff same_image_sel)

lemma same_image_entry_names:
  assumes "fs_ok k" "same_image k k'" "entry_names k names"
  shows "entry_names k' names"
  unfolding entry_names_def same_image_sel [OF assms(2)] same_image_dentry_addr [OF assms(2)]
proof (intro allI impI conjI)
  fix i assume i: "i < nat (num_dir_entry k)"
  then have nm: "cstring (ldb k) (dentry_addr k (of_nat i)) (names i)" "length (names i) < 64"
    using assms(3) by (simp_all add: entry_names_def)
  then show "cstring (ldb k') (dentry_addr k (of_nat i)) (names i)"
    using same_image_dentry_byte [OF assms(1,2) i]
    by (subst cstring_cong [of _ "ldb k'" _ "ldb k"]) auto
  show "length (names i) < 64" by (rule nm)
qed

lemma same_image_copy_dentry:
  assumes "fs_ok k" "same_image k k'" "i < nat (num_dir_entry k)"
  shows "inode (copy_dentry k' (of_nat i)) = inode (copy_dentry k (of_nat i))"
proof -
  have "ldb k' (dentry_addr k (of_nat i) + of_nat x) = ldb k (dentry_addr k (of_nat i) + of_nat x)"
    if "x < 64" for x by (rule same_image_dentry_byte [OF assms that])
  from this [of 36] this [of 37] this [of 38] this [of 39] show ?thesis
    by (simp add: copy_dentry_def same_image_dentry_addr [OF assms(2)] ldw_ldb add.assoc)
qed

section \<open>Loading a program\<close>

text \<open>
  \<^verbatim>\<open>load_executable\<close> finds the named file and puts its whole content at \<open>dest\<close>; it fails exactly
  when no entry has the name or the entry's inode is out of range.
\<close>

lemma load_executable_eq:
  fixes k :: "'a filesys_scheme"
  assumes ok: "fs_ok k" and names: "entry_names k names"
    and fname: "cstring (ldb k) fname cs" "length cs < 2 ^ 31"
    and i: "find (\<lambda>i. take 32 (names i) = take 32 cs) [0..<nat (num_dir_entry k)] = Some i"
    and n: "n = inode (copy_dentry k (of_nat i))" "unat n < nat (num_inodes k)"
    and ap: "apart (translate k) dest (unat (inode_length k n)) (file_start k) (image_size k)"
  shows "load_executable fname dest k =
    Some (store_bytes k dest (file_part k n 0 (unat (inode_length k n))), 0)"
proof -
  have "of_nat (unat n) = n" using of_nat_unat [of n] by simp
  then have L: "unat (inode_length k n) \<le> 1023 * 4096"
    using ok n(2) unfolding fs_ok_def by metis
  have "read_data n 0 dest max_int k =
      (store_bytes k dest (file_part k n (unat (0 :: u32)) (unat (0 :: u32) + unat (inode_length k n))),
       int (unat (inode_length k n)))"
    by (rule read_data_eq [OF ok n(2)]) (use L ap in \<open>simp_all add: max_int_def\<close>)
  then show ?thesis
    using read_dentry_by_name_eq [OF names fname] i n(1)
    by (simp add: load_executable_def filesys_read_by_name_def del: of_nat_unat)
qed

lemma load_executable_missing:
  assumes "entry_names k names" "cstring (ldb k) fname cs" "length cs < 2 ^ 31"
    and "\<And>i. i < nat (num_dir_entry k) \<Longrightarrow> take 32 (names i) \<noteq> take 32 cs"
  shows "load_executable fname dest k = Some (k, -1)"
proof -
  have "find (\<lambda>i. take 32 (names i) = take 32 cs) [0..<nat (num_dir_entry k)] = None"
    using assms(4) by (auto simp: find_None_iff)
  then show ?thesis
    using read_dentry_by_name_eq [OF assms(1-3)]
    by (simp add: load_executable_def filesys_read_by_name_def)
qed

section \<open>Mounting\<close>

lemma filesys_init_eq:
  fixes k :: "'a filesys_scheme"
  shows "filesys_init k = k\<lparr>num_dir_entry := sint (ldw k (file_start k)),
     num_inodes := sint (ldw k (file_start k + 4)), num_data_blocks := sint (ldw k (file_start k + 8)),
     dir_table := file_start k + 64, inode_table := file_start k + 4096,
     data_block_start := file_start k + 4096 * (ldw k (file_start k + 4) + 1)\<rparr>"
  by (simp add: filesys_init_def Let_def ldw_def dir_entry_offset_def inodes_offset_def
      data_blocks_offset_def sizeof_dentry_def sizeof_inode_def data_block_size_def)

end
