(* ===== verification/Printf.thy ===== *)
theory Printf
  imports FileSpec
begin

text \<open>
  What \<^verbatim>\<open>printf\<close> of \<^verbatim>\<open>student-distrib/lib.c\<close> prints: a format is a sequence of directives, each with
  its text, and \<^verbatim>\<open>printf\<close> returns after printing exactly the rendered text through \<^verbatim>\<open>putc\<close>, whatever it
  leaves in its conversion buffer.
\<close>

section \<open>The unscrolled console\<close>

text \<open>
  A newline moves the row of \<^verbatim>\<open>putc\<close> down without a limit, so the bytes it may write depend on the
  number of newlines; below 102 rows they are the 16 KB from \<open>VIDEO\<close>.
\<close>

definition zone :: nat where "zone = 0x4000"

definition con_ok :: "nat \<Rightarrow> 'a screen_scheme \<Rightarrow> bool" where
  "con_ok n k \<longleftrightarrow> 0 \<le> screen_x k \<and> screen_x k < 80 \<and> 0 \<le> screen_y k \<and> screen_y k \<le> int n"

definition newline :: "u8 \<Rightarrow> bool" where
  "newline c \<longleftrightarrow> c = 10 \<or> c = 13"

definition newlines :: "u8 list \<Rightarrow> nat" where
  "newlines cs = length (filter newline cs)"

lemma newlines_simps [simp]:
  "newlines [] = 0" "newlines (c # cs) = (if newline c then 1 else 0) + newlines cs"
  "newlines (cs @ ds) = newlines cs + newlines ds"
  by (simp_all add: newlines_def)

lemma putc_sel [simp]:
  "pg (putc c k) = pg k" "iflag (putc c k) = iflag k" "io (putc c k) = io k"
  by (simp_all add: putc_def Let_def put_cell_def stb_def)

lemma fold_putc_sel [simp]:
  "pg (fold putc cs k) = pg k" "iflag (fold putc cs k) = iflag k" "io (fold putc cs k) = io k"
  by (induction cs arbitrary: k) simp_all

lemma con_ok_putc:
  assumes "con_ok n k" "24 \<le> n"
  shows "con_ok (n + (if newline c then 1 else 0)) (putc c k)"
proof -
  have "0 \<le> (screen_x k + 1) smod 80 \<and> (screen_x k + 1) smod 80 < 80"
    using assms(1) by (auto simp: con_ok_def signed_modulo_int_def)
  moreover have "0 \<le> (screen_y k + (screen_x k + 1) smod 80 sdiv 80) smod 25"
    "(screen_y k + (screen_x k + 1) smod 80 sdiv 80) smod 25 < 25"
    using assms(1) calculation by (auto simp: con_ok_def signed_modulo_int_def signed_divide_int_def div_pos_pos_trivial sgn_if)
  ultimately show ?thesis
    using assms by (auto simp: con_ok_def putc_def newline_def Let_def NUM_COLS_def NUM_ROWS_def put_cell_def stb_def)
qed

text \<open>The bytes of \<^verbatim>\<open>putc\<close>'s cell are in the zone.\<close>

lemma putc_cell:
  assumes "con_ok n k" "n \<le> 101"
  obtains i where "i + 1 < zone" "cell_addr VIDEO (cell_index (screen_y k) (screen_x k)) = VIDEO + of_nat i"
    "cell_addr VIDEO (cell_index (screen_y k) (screen_x k)) + 1 = VIDEO + of_nat (i + 1)"
proof -
  let ?i = "nat (80 * screen_y k + screen_x k)"
  have "80 * screen_y k + screen_x k < 80 * 102" using assms by (auto simp: con_ok_def)
  moreover have "int ?i = 80 * screen_y k + screen_x k" using assms by (simp add: con_ok_def)
  ultimately have "2 * ?i + 1 < zone" "cell_addr VIDEO (cell_index (screen_y k) (screen_x k)) = VIDEO + of_nat (2 * ?i)"
    using cell_addr_nat [of VIDEO ?i] by (simp_all add: zone_def cell_index_def NUM_COLS_def)
  then show thesis using that [of "2 * ?i"] by simp
qed

lemma ldb_putc:
  assumes "con_ok n k" "n \<le> 101" "apart (translate k) VIDEO zone a m" "i < m"
  shows "ldb (putc c k) (a + of_nat i) = ldb k (a + of_nat i)"
proof -
  obtain j where j: "j + 1 < zone" "cell_addr VIDEO (cell_index (screen_y k) (screen_x k)) = VIDEO + of_nat j"
    "cell_addr VIDEO (cell_index (screen_y k) (screen_x k)) + 1 = VIDEO + of_nat (j + 1)"
    using putc_cell [OF assms(1,2)] .
  have ne: "translate k (VIDEO + of_nat x) \<noteq> translate k (a + of_nat i)" if "x < zone" for x
    using apartD [OF assms(3) that assms(4)] .
  have "ldb (put_cell VIDEO (cell_index (screen_y k) (screen_x k)) c k) (a + of_nat i) = ldb k (a + of_nat i)"
    unfolding put_cell_def j(2) using ne [of j] ne [of "j + 1"] j
    by (simp add: ldb_stb add.assoc add.commute [of 1])
  then show ?thesis by (simp add: putc_def Let_def ldb_def put_cell_def stb_def)
qed

lemma fold_putc:
  assumes "con_ok n k" "24 \<le> n" "n + newlines cs \<le> 101"
  shows "con_ok (n + newlines cs) (fold putc cs k)"
    "apart (translate k) VIDEO zone a m \<Longrightarrow> i < m \<Longrightarrow> ldb (fold putc cs k) (a + of_nat i) = ldb k (a + of_nat i)"
proof -
  have "con_ok (n + newlines cs) (fold putc cs k) \<and>
    (apart (translate k) VIDEO zone a m \<longrightarrow> i < m \<longrightarrow> ldb (fold putc cs k) (a + of_nat i) = ldb k (a + of_nat i))"
    using assms
  proof (induction cs arbitrary: k n)
    case (Cons c cs)
    let ?n = "n + (if newline c then 1 else 0)"
    have "con_ok ?n (putc c k)" using Cons.prems by (intro con_ok_putc) auto
    moreover have "?n + newlines cs = n + newlines (c # cs)" by simp
    ultimately show ?case
      using Cons.IH [of ?n "putc c k"] Cons.prems ldb_putc [OF Cons.prems(1)] by auto
  qed simp
  then show "con_ok (n + newlines cs) (fold putc cs k)"
    "apart (translate k) VIDEO zone a m \<Longrightarrow> i < m \<Longrightarrow> ldb (fold putc cs k) (a + of_nat i) = ldb k (a + of_nat i)"
    by blast+
qed

lemma cstring_fold_putc:
  assumes "con_ok n k" "24 \<le> n" "n + newlines ds \<le> 101" "apart (translate k) VIDEO zone s (length cs + 1)"
  shows "cstring (ldb (fold putc ds k)) s cs \<longleftrightarrow> cstring (ldb k) s cs"
  by (rule cstring_cong) (use fold_putc(2) [OF assms] in auto)

text \<open>\<^verbatim>\<open>puts\<close> prints a string.\<close>

lemma puts_from_eq:
  assumes "cstring (ldb k) s cs" "con_ok n k" "24 \<le> n" "n + newlines (drop i cs) \<le> 101"
    and "apart (translate k) VIDEO zone s (length cs + 1)" "i \<le> length cs"
  shows "puts_from s (of_nat i) k = Some (fold putc (drop i cs) k, of_nat (length cs))"
  using assms
proof (induction "length cs - i" arbitrary: i k n)
  case 0
  then show ?case using cstringD(3) [OF 0(2)] by (subst puts_from.simps) simp
next
  case (Suc m)
  have i: "i < length cs" using Suc.hyps(2) by simp
  have c: "ldb k (s + of_nat i) = cs ! i" "cs ! i \<noteq> 0"
    using cstringD(4) [OF Suc.prems(1) i] cstringD(2) [OF Suc.prems(1)] i nth_mem by (auto, force)
  have dr: "drop i cs = cs ! i # drop (Suc i) cs" using i by (rule Cons_nth_drop_Suc [symmetric])
  let ?k = "putc (cs ! i) k" and ?n = "n + (if newline (cs ! i) then 1 else 0)"
  have k: "con_ok ?n ?k" using Suc.prems(2,3) by (rule con_ok_putc)
  have "cstring (ldb ?k) s cs"
    using cstring_fold_putc [OF Suc.prems(2,3), of "[cs ! i]" s cs] Suc.prems(1,4,5) dr by auto
  then have "puts_from s (of_nat (Suc i)) ?k = Some (fold putc (drop (Suc i) cs) ?k, of_nat (length cs))"
    using Suc.hyps(1) [of "Suc i" ?k ?n] k Suc.hyps(2) Suc.prems(3-6) dr i by simp
  then show ?case using c by (subst puts_from.simps) (simp add: dr add.commute)
qed

lemma puts_eq:
  assumes "cstring (ldb k) s cs" "con_ok n k" "24 \<le> n" "n + newlines cs \<le> 101"
    and "apart (translate k) VIDEO zone s (length cs + 1)"
  shows "puts s k = Some (fold putc cs k, of_nat (length cs))"
  using puts_from_eq [OF assms(1-3), of 0] assms(4,5) by (simp add: puts_def)

section \<open>States up to the conversion buffer\<close>

text \<open>\<open>same_but conv n k k'\<close>: the states differ at most in the \<open>n\<close> bytes at \<open>conv\<close>.\<close>

definition same_but :: "u32 \<Rightarrow> nat \<Rightarrow> 'a machine_scheme \<Rightarrow> 'a machine_scheme \<Rightarrow> bool" where
  "same_but conv n k k' \<longleftrightarrow> k' = k\<lparr>phys := phys k'\<rparr> \<and>
     (\<forall>a. (\<forall>i<n. translate k (conv + of_nat i) \<noteq> translate k a) \<longrightarrow> ldb k' a = ldb k a)"

lemma same_but_refl [simp]: "same_but conv n k k"
  by (simp add: same_but_def)

lemma same_but_sel:
  assumes "same_but conv n k k'"
  shows "pg k' = pg k" "iflag k' = iflag k" "io k' = io k"
  using assms unfolding same_but_def by (metis machine.select_convs machine.surjective machine.update_convs(1))+

lemma same_but_trans: "same_but conv n k k' \<Longrightarrow> same_but conv n k' k'' \<Longrightarrow> same_but conv n k k''"
  using same_but_sel(1) [of conv n k k'] unfolding same_but_def
  by (metis machine.surjective machine.update_convs(1))

lemma same_but_ldb:
  assumes "same_but conv n k k'" "apart (translate k) conv n a m" "i < m"
  shows "ldb k' (a + of_nat i) = ldb k (a + of_nat i)"
  using assms by (auto simp: same_but_def apart_def)

lemma same_but_putc:
  fixes k k' :: "'a screen_scheme"
  assumes "same_but conv n k k'"
  shows "same_but conv n (putc c k) (putc c k')"
proof -
  obtain p where p: "k' = k\<lparr>phys := p\<rparr>" using assms by (auto simp: same_but_def)
  have "ldb (putc c k') a = ldb (putc c k) a" if "\<forall>i<n. translate k (conv + of_nat i) \<noteq> translate k a" for a
  proof -
    have "ldb k' a = ldb k a" using assms that by (simp add: same_but_def)
    then show ?thesis
      by (auto simp: p putc_def Let_def put_cell_def stb_def ldb_def ld_st)
  qed
  then show ?thesis by (simp add: same_but_def) (simp add: p putc_def Let_def put_cell_def stb_def)
qed

lemma same_but_fold_putc:
  fixes k k' :: "'a screen_scheme"
  shows "same_but conv n k k' \<Longrightarrow> same_but conv n (fold putc cs k) (fold putc cs k')"
  by (induction cs arbitrary: k k') (auto intro: same_but_putc)

lemma same_but_stb:
  assumes "i < n"
  shows "same_but conv n k (stb k (conv + of_nat i) v)"
  using assms by (auto simp: same_but_def ldb_stb) (simp add: stb_def)

text \<open>The number conversions.\<close>

lemma conv_itoa:
  assumes "block (translate k) conv 64" "off + 33 \<le> 64" "2 \<le> unat r" "unat r \<le> 36"
  shows "\<exists>k'. itoa k v (conv + of_nat off) r = Some k' \<and> same_but conv 64 k k' \<and>
    cstring (ldb k') (conv + of_nat off) (numeral_string (unat r) (unat v)) \<and>
    (\<forall>i<off. ldb k' (conv + of_nat i) = ldb k (conv + of_nat i))"
proof -
  have "block (translate k) (conv + of_nat off) 33"
    using block_off [OF block_mono [OF assms(1,2)]] .
  from itoa_p_correct [OF assms(3,4) this, of "phys k" v] obtain p where
    p: "itoa_p (translate k) (phys k) v (conv + of_nat off) r = Some p"
      "cstring (ld (translate k) p) (conv + of_nat off) (numeral_string (unat r) (unat v))"
      "\<forall>x. (\<forall>i<33. translate k (conv + of_nat off + of_nat i) \<noteq> translate k x) \<longrightarrow> ld (translate k) p x = ld (translate k) (phys k) x"
    by blast
  have sum: "conv + of_nat off + of_nat i = conv + of_nat (off + i)" for i by simp
  have ldb: "ldb (k\<lparr>phys := p\<rparr>) = ld (translate k) p" by (simp add: ldb_def fun_eq_iff)
  have "ld (translate k) p x = ldb k x" if "\<forall>i<64. translate k (conv + of_nat i) \<noteq> translate k x" for x
  proof -
    have "translate k (conv + of_nat off + of_nat i) \<noteq> translate k x" if "i < 33" for i
      unfolding sum by (rule mp [OF spec [OF \<open>\<forall>i<64. _\<close>]]) (use assms(2) that in simp)
    then show ?thesis using p(3) by (simp add: ldb_def)
  qed
  then have "same_but conv 64 k (k\<lparr>phys := p\<rparr>)" by (simp add: same_but_def ldb)
  moreover have "ld (translate k) p (conv + of_nat i) = ldb k (conv + of_nat i)" if "i < off" for i
  proof -
    have "translate k (conv + of_nat (off + j)) \<noteq> translate k (conv + of_nat i)" if "j < 33" for j
      using block_neq [OF assms(1), of "off + j" i] assms(2) \<open>i < off\<close> that by simp
    then show ?thesis using p(3) [unfolded sum, rule_format, of "conv + of_nat i"] by (simp add: ldb_def)
  qed
  ultimately show ?thesis
    using p(1,2) by (intro exI [of _ "k\<lparr>phys := p\<rparr>"]) (simp add: itoa_def ldb)
qed

section \<open>Directives\<close>

datatype directive = Lit u8 | Percent | Hex | AltHex | Unsigned | Decimal | Character | Str

fun dir_chars :: "directive \<Rightarrow> u8 list" where
  "dir_chars (Lit c) = [c]"
| "dir_chars Percent = chars ''%%''"
| "dir_chars Hex = chars ''%x''"
| "dir_chars AltHex = chars ''%#x''"
| "dir_chars Unsigned = chars ''%u''"
| "dir_chars Decimal = chars ''%d''"
| "dir_chars Character = chars ''%c''"
| "dir_chars Str = chars ''%s''"

fun takes_arg :: "directive \<Rightarrow> bool" where
  "takes_arg (Lit c) = False"
| "takes_arg Percent = False"
| "takes_arg _ = True"

text \<open>The text of a directive with its argument; \<open>str\<close> gives the strings at the addresses used.\<close>

fun dir_text :: "(u32 \<Rightarrow> u8 list) \<Rightarrow> directive \<Rightarrow> u32 \<Rightarrow> u8 list" where
  "dir_text str (Lit c) v = [c]"
| "dir_text str Percent v = chars ''%''"
| "dir_text str Hex v = numeral_string 16 (unat v)"
| "dir_text str AltHex v = replicate (8 - length (numeral_string 16 (unat v))) (ch CHR ''0'') @ numeral_string 16 (unat v)"
| "dir_text str Unsigned v = numeral_string 10 (unat v)"
| "dir_text str Decimal v = (if v <s 0 then ch CHR ''-'' # numeral_string 10 (unat (- v)) else numeral_string 10 (unat v))"
| "dir_text str Character v = [ucast v]"
| "dir_text str Str v = str v"

fun render :: "(u32 \<Rightarrow> u8 list) \<Rightarrow> directive list \<Rightarrow> u32 list \<Rightarrow> u8 list" where
  "render str [] vs = []"
| "render str (d # ds) vs =
     (if takes_arg d then case vs of [] \<Rightarrow> [] | v # vs \<Rightarrow> dir_text str d v @ render str ds vs
      else dir_text str d 0 @ render str ds vs)"

text \<open>
  The memory of a call: the conversion buffer is a block of its own that the console does not
  touch; the string arguments and the words of the arguments are outside both.
\<close>

definition quiet :: "'a machine_scheme \<Rightarrow> u32 \<Rightarrow> u32 \<Rightarrow> nat \<Rightarrow> bool" where
  "quiet k conv a n \<longleftrightarrow> apart (translate k) VIDEO zone a n \<and> apart (translate k) conv 64 a n"

definition conv_ok :: "'a machine_scheme \<Rightarrow> u32 \<Rightarrow> bool" where
  "conv_ok k conv \<longleftrightarrow> block (translate k) conv 64 \<and> apart (translate k) VIDEO zone conv 64"

text \<open>One directive: the actual state follows the state that only prints, up to the buffer.\<close>

lemma puts_conv:
  fixes k0 k :: "'a screen_scheme"
  assumes "same_but conv 64 k0 k" "conv_ok k0 conv" "con_ok n k" "24 \<le> n" "n + newlines cs \<le> 101"
    and "cstring (ldb k) (conv + of_nat i) cs" "i + length cs + 1 \<le> 64"
  shows "\<exists>r. puts (conv + of_nat i) k = Some (fold putc cs k, r) \<and> same_but conv 64 (fold putc cs k0) (fold putc cs k)"
proof -
  have "apart (translate k) VIDEO zone (conv + of_nat i) (length cs + 1)"
    using apart_off [of "translate k" VIDEO 0 zone conv i "length cs + 1"] assms(2,7) same_but_sel(1) [OF assms(1)]
      apart_mono [of "translate k" VIDEO zone conv 64 zone "i + (length cs + 1)"]
    by (simp add: conv_ok_def)
  then show ?thesis using puts_eq [OF assms(6,3-5)] same_but_fold_putc [OF assms(1)] by blast
qed

lemma same_but_con_ok:
  fixes k k' :: "'a screen_scheme"
  assumes "same_but conv n k k'"
  shows "con_ok m k' = con_ok m k"
proof -
  obtain p where "k' = k\<lparr>phys := p\<rparr>" using assms by (auto simp: same_but_def)
  then show ?thesis by (simp add: con_ok_def)
qed

lemma length_digits_pow:
  assumes "2 \<le> r" "v < r ^ k"
  shows "length (digits r v) \<le> k"
  using assms(2)
proof (induction k arbitrary: v)
  case (Suc k)
  show ?case
  proof (cases "v = 0")
    case False
    have "v div r < r ^ k" using Suc.prems assms(1) by (simp add: less_mult_imp_div_less mult.commute)
    then show ?thesis using Suc.IH False assms(1) by (simp add: digits_step)
  qed simp
qed simp

lemma numeral_string_facts:
  assumes "2 \<le> r" "r \<le> 36" "v < r ^ k" "1 \<le> k"
  shows "1 \<le> length (numeral_string r v)" "length (numeral_string r v) \<le> k" "newlines (numeral_string r v) = 0"
proof -
  show "1 \<le> length (numeral_string r v)" using assms(1) by (simp add: numeral_string_def digits_step)
  show "length (numeral_string r v) \<le> k"
    using length_digits_pow [OF assms(1,3)] assms(4) by (simp add: numeral_string_def)
  have "list_all (\<lambda>d. \<not> newline (lookup ! d)) [0..<36]" by code_simp
  moreover have "d < 36" if "d \<in> set (digits r v)" for d
    using digits_less [OF assms(1) that] assms(2) by simp
  ultimately have "\<not> newline c" if "c \<in> set (numeral_string r v)" for c
    using that by (auto simp: numeral_string_def list_all_iff newline_def split: if_splits)
  then show "newlines (numeral_string r v) = 0" by (simp add: newlines_def filter_empty_conv)
qed

text \<open>The conversions of a number, printed.\<close>

lemma conv_print:
  fixes k :: "'a screen_scheme" and v :: u32
  assumes "conv_ok k conv" "con_ok n k" "24 \<le> n" "n \<le> 101" "2 \<le> unat r" "unat r \<le> 36" "off \<le> 1"
    and "off = 1 \<Longrightarrow> ldb k conv = c \<and> c \<noteq> 0 \<and> \<not> newline c"
  defines "cs \<equiv> replicate off c @ numeral_string (unat r) (unat v)"
  shows "\<exists>k' k'' x. itoa k v (conv + of_nat off) r = Some k' \<and> puts conv k' = Some (k'', x) \<and>
    same_but conv 64 (fold putc cs k) k''"
proof -
  obtain k' where k': "itoa k v (conv + of_nat off) r = Some k'" "same_but conv 64 k k'"
    "cstring (ldb k') (conv + of_nat off) (numeral_string (unat r) (unat v))"
    "\<forall>i<off. ldb k' (conv + of_nat i) = ldb k (conv + of_nat i)"
    using conv_itoa [of k conv off r v] assms(1,5-7) by (auto simp: conv_ok_def)
  have "(2::nat) ^ 32 \<le> unat r ^ 32" using assms(5) by (rule power_mono) simp
  then have "unat v < unat r ^ 32" using unat_lt_u32 [of v] by linarith
  note ns = numeral_string_facts [OF assms(5,6) this]
  have "cstring (ldb k') conv cs"
  proof (cases "off = 0")
    case False
    then have "off = 1" using assms(7) by simp
    then show ?thesis using k'(3,4) assms(8) ns(2) by (simp add: cs_def cstring_Cons_iff)
  qed (use k'(3) in \<open>simp add: cs_def\<close>)
  moreover have "newlines cs = 0" using ns(3) assms(7,8) by (cases off) (auto simp: cs_def)
  moreover have "con_ok n k'" using same_but_con_ok [OF k'(2)] assms(2) by simp
  ultimately have "\<exists>x. puts conv k' = Some (fold putc cs k', x) \<and> same_but conv 64 (fold putc cs k) (fold putc cs k')"
    using puts_conv [OF k'(2) assms(1) _ assms(3), of cs 0] ns(2) assms(4,7) by (simp add: cs_def)
  then show ?thesis using k'(1) by blast
qed

text \<open>The zero-padded form: the digits are placed at index 8 and zeros put before them.\<close>

lemma pad_zeros_eq:
  assumes "block (translate k) conv 64" "l \<le> 8"
  shows "same_but conv 64 k (pad_zeros conv l k)"
    "j < 64 \<Longrightarrow> ldb (pad_zeros conv l k) (conv + of_nat j) = (if l \<le> j \<and> j < 8 then ch CHR ''0'' else ldb k (conv + of_nat j))"
proof -
  let ?f = "\<lambda>m. for_range l m (\<lambda>i k. stb k (conv + of_nat i) (ch CHR ''0'')) k"
  have "same_but conv 64 k (?f m) \<and>
      (\<forall>j<64. ldb (?f m) (conv + of_nat j) = (if l \<le> j \<and> j < m then ch CHR ''0'' else ldb k (conv + of_nat j)))"
    if "m \<le> 8" for m
    using that
  proof (induction m)
    case (Suc m)
    have ih: "same_but conv 64 k (?f m)"
      "\<forall>j<64. ldb (?f m) (conv + of_nat j) = (if l \<le> j \<and> j < m then ch CHR ''0'' else ldb k (conv + of_nat j))"
      using Suc by auto
    show ?case
    proof (cases "l \<le> m")
      case True
      have "block (translate (?f m)) conv 64" using assms(1) same_but_sel(1) [OF ih(1)] by simp
      moreover have "same_but conv 64 k (stb (?f m) (conv + of_nat m) (ch CHR ''0''))"
        by (rule same_but_trans [OF ih(1) same_but_stb]) (use Suc.prems in simp)
      ultimately show ?thesis
        using True ih(2) Suc.prems by (auto simp: for_range_Suc ldb_stb_block less_Suc_eq)
    next
      case False
      then show ?thesis by auto
    qed
  qed simp
  from this [of 8] show "same_but conv 64 k (pad_zeros conv l k)"
    "j < 64 \<Longrightarrow> ldb (pad_zeros conv l k) (conv + of_nat j) = (if l \<le> j \<and> j < 8 then ch CHR ''0'' else ldb k (conv + of_nat j))"
    by (simp_all add: pad_zeros_def)
qed

lemma cstringI:
  assumes "\<And>i. i \<le> length cs \<Longrightarrow> f (s + of_nat i) = (if i < length cs then cs ! i else 0)"
    and "length cs < 2 ^ 32" "0 \<notin> set cs"
  shows "cstring f s cs"
  using assms by (simp add: cstring_def)

lemma conv_print_alt:
  fixes k :: "'a screen_scheme" and v :: u32
  assumes "conv_ok k conv" "con_ok n k" "24 \<le> n" "n \<le> 101"
  shows "\<exists>k' l k'' x. itoa k v (conv + 8) 16 = Some k' \<and> strlen k' (conv + 8) = Some l \<and>
    puts (conv + l) (pad_zeros conv (unat l) k') = Some (k'', x) \<and>
    same_but conv 64 (fold putc (dir_text str AltHex v) k) k''"
proof -
  have b: "block (translate k) conv 64" using assms(1) by (simp add: conv_ok_def)
  let ?d = "numeral_string 16 (unat v)" and ?t = "dir_text str AltHex v"
  obtain k' where k': "itoa k v (conv + of_nat 8) 16 = Some k'" "same_but conv 64 k k'"
    "cstring (ldb k') (conv + of_nat 8) ?d" using conv_itoa [OF b, of 8 16 v] by auto
  have "unat v < 16 ^ 8" using unat_lt_u32 [of v] by simp
  note ns = numeral_string_facts [OF _ _ this, simplified]
  let ?l = "length ?d"
  have sl: "strlen k' (conv + 8) = Some (of_nat ?l)" using strlen_cstring [OF k'(3)] by simp
  have ul: "unat (of_nat ?l :: u32) = ?l" using ns(2) by (intro unat_of_nat_small) simp
  let ?p = "pad_zeros conv ?l k'"
  have b': "block (translate k') conv 64" using b same_but_sel(1) [OF k'(2)] by simp
  note pz = pad_zeros_eq [OF b' ns(2)]
  have "ldb ?p (conv + of_nat ?l + of_nat i) = (if i < length ?t then ?t ! i else 0)" if "i \<le> length ?t" for i
  proof -
    have "ldb ?p (conv + of_nat (?l + i)) = (if ?l + i < 8 then ch CHR ''0'' else ldb k' (conv + of_nat (?l + i)))"
      using pz(2) [of "?l + i"] that ns(2) by simp
    moreover have "ldb k' (conv + of_nat (?l + i)) = (if ?l + i - 8 < ?l then ?d ! (?l + i - 8) else 0)" if "\<not> ?l + i < 8"
    proof -
      have e: "conv + of_nat (?l + i) = conv + of_nat 8 + of_nat (?l + i - 8)"
        using that by (simp only: add.assoc of_nat_add [symmetric]) simp
      have "?l + i - 8 \<le> ?l" using \<open>i \<le> length ?t\<close> ns(2) by simp
      then show ?thesis
        unfolding e using cstringD(3,4) [OF k'(3)] by (cases "?l + i - 8 = ?l") auto
    qed
    ultimately show ?thesis
      using that ns(2) by (auto simp: nth_append add.assoc add.commute [of i ?l])
  qed
  moreover have "length ?t < 2 ^ 32" "0 \<notin> set ?t" using ns(2) cstringD(2) [OF k'(3)] by auto
  ultimately have cs: "cstring (ldb ?p) (conv + of_nat ?l) ?t" by (intro cstringI)
  have sb: "same_but conv 64 k ?p" by (rule same_but_trans [OF k'(2) pz(1)])
  have nl: "newlines ?t = 0" using ns(3) by (simp add: newlines_def newline_def)
  obtain x where x: "puts (conv + of_nat ?l) ?p = Some (fold putc ?t ?p, x)"
    "same_but conv 64 (fold putc ?t k) (fold putc ?t ?p)"
    using puts_conv [OF sb assms(1) _ assms(3) _ cs] assms(2,4) same_but_con_ok [OF sb] ns(2) nl by auto
  have "puts (conv + of_nat ?l) (pad_zeros conv (unat (of_nat ?l :: u32)) k') = Some (fold putc ?t ?p, x)"
    unfolding ul by (rule x)
  then show ?thesis using k'(1) sl x(2) unfolding of_nat_numeral by blast
qed

text \<open>The conversion character of a directive and whether it is the alternate form.\<close>

definition dir_code :: "directive \<Rightarrow> u8 \<times> bool" where
  "dir_code d = (last (dir_chars d), d = AltHex)"

lemma switch_eq:
  fixes k :: "'a screen_scheme"
  assumes "conv_ok k conv" "con_ok n k" "24 \<le> n" "n + newlines (dir_text str d v) \<le> 101"
    and "\<And>c. d \<noteq> Lit c" "(ldb k buf, alt) = dir_code d" "takes_arg d \<Longrightarrow> ldw k esp = v"
    and "d = Str \<Longrightarrow> cstring (ldb k) v (str v) \<and> quiet k conv v (length (str v) + 1)"
  shows "\<exists>k'. format_char_switch buf alt esp conv k = Some (k', if takes_arg d then esp + 4 else esp) \<and>
    same_but conv 64 (fold putc (dir_text str d v) k) k'"
proof (cases d)
  case (Lit c)
  then show ?thesis using assms(5) by blast
next
  case Percent
  then show ?thesis using assms(6) by (simp add: format_char_switch_def dir_code_def)
next
  case Hex
  then show ?thesis
    using conv_print [OF assms(1-3), of 16 0 0 v] assms(4,6,7)
    by (auto simp: format_char_switch_def dir_code_def)
next
  case AltHex
  then show ?thesis
    using conv_print_alt [OF assms(1-3), of v str] assms(4,6,7)
    by (auto simp: format_char_switch_def dir_code_def)
next
  case Unsigned
  then show ?thesis
    using conv_print [OF assms(1-3), of 10 0 0 v] assms(4,6,7)
    by (auto simp: format_char_switch_def dir_code_def)
next
  case Character
  then show ?thesis using assms(6,7) by (simp add: format_char_switch_def dir_code_def)
next
  case Str
  then show ?thesis
    using puts_eq [of k v "str v" n] assms(2-4,6-8)
    by (auto simp: format_char_switch_def dir_code_def quiet_def)
next
  case Decimal
  show ?thesis
  proof (cases "v <s 0")
    case True
    let ?k = "stb k conv (ch CHR ''-'')"
    have sb: "same_but conv 64 k ?k" using same_but_stb [of 0 64 conv k] by simp
    have k: "conv_ok ?k conv" "con_ok n ?k" using assms(1,2) same_but_con_ok [OF sb] by (auto simp: conv_ok_def)
    have "translate k conv \<noteq> None" using assms(1) block_mapped [of "translate k" conv 64 0] by (simp add: conv_ok_def)
    then have "ldb ?k conv = ch CHR ''-''" by (simp add: ldb_stb)
    then obtain k' k'' x where k'': "itoa ?k (- v) (conv + of_nat 1) 10 = Some k'" "puts conv k' = Some (k'', x)"
      "same_but conv 64 (fold putc (dir_text str d v) ?k) k''"
      using conv_print [OF k assms(3), of 10 1 "ch CHR ''-''" "- v"] assms(4) Decimal True
      by (auto simp: newline_def)
    have "same_but conv 64 (fold putc (dir_text str d v) k) k''"
      by (rule same_but_trans [OF same_but_fold_putc [OF sb] k''(3)])
    then show ?thesis
      using k''(1,2) Decimal True assms(6,7) by (auto simp: format_char_switch_def dir_code_def)
  next
    case False
    then show ?thesis
      using conv_print [OF assms(1-3), of 10 0 0 v] assms(4,6,7) Decimal
      by (auto simp: format_char_switch_def dir_code_def)
  qed
qed

section \<open>The whole call\<close>

lemma format_flags_dir:
  assumes "cstring (ldb k) buf (dir_chars d @ rest)" "\<And>c. d \<noteq> Lit c"
  shows "ldb k buf = ch CHR ''%''"
    "format_flags k (buf + 1) False = Some (buf + of_nat (length (dir_chars d) - 1), snd (dir_code d))"
    "ldb k (buf + of_nat (length (dir_chars d) - 1)) = fst (dir_code d)"
proof -
  have "ldb k buf = ch CHR ''%'' \<and>
    format_flags k (buf + 1) False = Some (buf + of_nat (length (dir_chars d) - 1), snd (dir_code d)) \<and>
    ldb k (buf + of_nat (length (dir_chars d) - 1)) = fst (dir_code d)"
  proof (cases d)
    case (Lit c)
    then show ?thesis using assms(2) by blast
  qed (use assms(1) in \<open>simp_all add: cstring_Cons_iff dir_code_def format_flags.simps [of k "buf + 1"]
      format_flags.simps [of k "buf + 2"] add.assoc\<close>)
  then show "ldb k buf = ch CHR ''%''"
    "format_flags k (buf + 1) False = Some (buf + of_nat (length (dir_chars d) - 1), snd (dir_code d))"
    "ldb k (buf + of_nat (length (dir_chars d) - 1)) = fst (dir_code d)" by blast+
qed

text \<open>The string arguments of a call.\<close>

fun str_args :: "directive list \<Rightarrow> u32 list \<Rightarrow> u32 list" where
  "str_args [] vs = []"
| "str_args (d # ds) vs =
     (if takes_arg d then case vs of [] \<Rightarrow> [] | v # vs \<Rightarrow> (if d = Str then [v] else []) @ str_args ds vs
      else str_args ds vs)"

definition call_ok :: "'a machine_scheme \<Rightarrow> u32 \<Rightarrow> (u32 \<Rightarrow> u8 list) \<Rightarrow> directive list \<Rightarrow> u32 \<Rightarrow> u32 list \<Rightarrow> u32 \<Rightarrow> bool" where
  "call_ok k conv str ds buf vs esp \<longleftrightarrow>
     cstring (ldb k) buf (concat (map dir_chars ds)) \<and> quiet k conv buf (length (concat (map dir_chars ds)) + 1) \<and>
     length vs = length (filter takes_arg ds) \<and> quiet k conv esp (4 * length vs) \<and>
     (\<forall>j<length vs. ldw k (esp + of_nat (4 * j)) = vs ! j) \<and>
     (\<forall>v\<in>set (str_args ds vs). cstring (ldb k) v (str v) \<and> quiet k conv v (length (str v) + 1)) \<and>
     Lit (ch CHR ''%'') \<notin> set ds"

lemma quiet_mono: "quiet k conv a n \<Longrightarrow> m \<le> n \<Longrightarrow> quiet k conv a m"
  by (auto simp: quiet_def intro: apart_mono)

lemma quiet_off:
  assumes "quiet k conv a (i + n)"
  shows "quiet k conv (a + of_nat i) n"
  using assms apart_off [of "translate k" VIDEO 0 zone a i n] apart_off [of "translate k" conv 0 64 a i n]
  by (simp add: quiet_def)

text \<open>What a step leaves alone, the rest of the call still finds.\<close>

lemma call_ok_cong:
  assumes "call_ok k conv str ds buf vs esp" "pg k' = pg k"
    and "\<And>a n i. quiet k conv a n \<Longrightarrow> i < n \<Longrightarrow> ldb k' (a + of_nat i) = ldb k (a + of_nat i)"
  shows "call_ok k' conv str ds buf vs esp"
proof -
  have q: "quiet k' = quiet k" by (simp add: fun_eq_iff quiet_def assms(2))
  have s: "cstring (ldb k') a cs = cstring (ldb k) a cs" if "quiet k conv a (length cs + 1)" for a cs
    by (rule cstring_cong) (use assms(3) [OF that] in auto)
  have w: "ldw k' (esp + of_nat (4 * j)) = ldw k (esp + of_nat (4 * j))" if "quiet k conv esp (4 * length vs)" "j < length vs" for j
  proof -
    have "ldb k' (esp + of_nat (4 * j + i)) = ldb k (esp + of_nat (4 * j + i))" if "i < 4" for i
      by (rule assms(3) [OF \<open>quiet k conv esp (4 * length vs)\<close>]) (use that \<open>j < length vs\<close> in simp)
    from this [of 0] this [of 1] this [of 2] this [of 3] show ?thesis by (simp add: ldw_ldb ac_simps)
  qed
  show ?thesis using assms(1) s w by (auto simp: call_ok_def q)
qed

lemma cstring_append: "cstring f s (xs @ ys) \<Longrightarrow> cstring f (s + of_nat (length xs)) ys"
proof (induction xs arbitrary: s)
  case (Cons x xs)
  then have "cstring f (s + 1) (xs @ ys)" using cstring_Cons(3) by fastforce
  from Cons.IH [OF this] show ?case by (simp add: add.assoc)
qed simp

lemma call_ok_step:
  assumes "call_ok k conv str (d # ds) buf vs esp"
  shows "call_ok k conv str ds (buf + of_nat (length (dir_chars d))) (if takes_arg d then tl vs else vs)
      (if takes_arg d then esp + 4 else esp)"
    "takes_arg d \<Longrightarrow> vs \<noteq> []"
proof -
  let ?t = "length (dir_chars d)"
  have c: "cstring (ldb k) buf (dir_chars d @ concat (map dir_chars ds))"
    "quiet k conv buf (?t + (length (concat (map dir_chars ds)) + 1))"
    using assms by (simp_all add: call_ok_def add.assoc)
  note c' = cstring_append [OF c(1)] quiet_off [OF c(2)]
  show ne: "vs \<noteq> []" if "takes_arg d" using assms that by (auto simp: call_ok_def)
  show "call_ok k conv str ds (buf + of_nat ?t) (if takes_arg d then tl vs else vs) (if takes_arg d then esp + 4 else esp)"
  proof (cases "takes_arg d")
    case False
    then show ?thesis using assms c' by (auto simp: call_ok_def)
  next
    case True
    then obtain v ws where vs: "vs = v # ws" using ne by (cases vs) auto
    have "quiet k conv (esp + 4) (4 * length ws)"
      using assms quiet_off [of k conv esp 4 "4 * length ws"] by (simp add: call_ok_def vs)
    moreover have "ldw k (esp + 4 + of_nat (4 * j)) = ws ! j" if "j < length ws" for j
    proof -
      have "ldw k (esp + of_nat (4 * Suc j)) = vs ! Suc j" using assms that by (auto simp: call_ok_def vs)
      then show ?thesis by (simp add: vs add.assoc)
    qed
    ultimately show ?thesis
      using assms True c' by (auto simp: call_ok_def vs)
  qed
qed

lemma printf_from_eq:
  fixes k :: "'a screen_scheme"
  assumes "call_ok k conv str ds buf vs esp" "conv_ok k conv" "con_ok n k" "24 \<le> n"
    and "n + newlines (render str ds vs) \<le> 101"
  shows "\<exists>k'. printf_from buf esp conv k = Some (k', buf + of_nat (length (concat (map dir_chars ds)))) \<and>
    same_but conv 64 (fold putc (render str ds vs) k) k'"
  using assms
proof (induction ds arbitrary: k buf vs esp n)
  case Nil
  then show ?case by (subst printf_from.simps) (simp add: call_ok_def)
next
  case (Cons d ds)
  define v where "v = hd vs"
  define ws where "ws = (if takes_arg d then tl vs else vs)"
  let ?t = "dir_text str d v" and ?esp = "if takes_arg d then esp + 4 else esp" and ?b = "buf + of_nat (length (dir_chars d))"
  note st = call_ok_step [OF Cons.prems(1), folded ws_def]
  have r: "render str (d # ds) vs = ?t @ render str ds ws"
    using st(2) by (cases vs; cases d) (auto simp: v_def ws_def)
  have nl: "n + newlines ?t + newlines (render str ds ws) \<le> 101"
    using Cons.prems(5) unfolding r by simp
  obtain k1 where k1: "printf_from buf esp conv k = printf_from ?b ?esp conv k1" "same_but conv 64 (fold putc ?t k) k1"
  proof (cases "\<exists>c. d = Lit c")
    case True
    then obtain c where d: "d = Lit c" by blast
    have "c \<noteq> 37" "ldb k buf = c" "c \<noteq> 0"
      using Cons.prems(1) by (auto simp: call_ok_def d cstring_Cons_iff)
    then have "printf_from buf esp conv k = printf_from ?b ?esp conv (putc c k)"
      by (subst printf_from.simps) (simp add: d)
    then show thesis using that [of "putc c k"] by (simp add: d)
  next
    case False
    have c: "cstring (ldb k) buf (dir_chars d @ concat (map dir_chars ds))"
      using Cons.prems(1) by (simp add: call_ok_def)
    note ff = format_flags_dir [OF c]
    have arg: "ldw k esp = v" if "takes_arg d"
      using Cons.prems(1) st(2) [OF that] by (cases vs) (auto simp: call_ok_def v_def)
    have str: "cstring (ldb k) v (str v) \<and> quiet k conv v (length (str v) + 1)" if "d = Str"
      using Cons.prems(1) st(2) that by (cases vs) (auto simp: call_ok_def v_def)
    obtain k1 where k1: "format_char_switch (buf + of_nat (length (dir_chars d) - 1)) (snd (dir_code d)) esp conv k = Some (k1, ?esp)"
      "same_but conv 64 (fold putc ?t k) k1"
      using switch_eq [OF Cons.prems(2-4), of str d v] nl False ff(3) arg str
      by (metis add_leD1 prod.collapse)
    have "length (dir_chars d) \<ge> 1" by (cases d) simp_all
    then have "?b = buf + of_nat (length (dir_chars d) - 1) + 1" by (simp add: of_nat_diff)
    then have "printf_from buf esp conv k = printf_from ?b ?esp conv k1"
      using ff False k1(1) by (subst printf_from.simps) (simp add: add.assoc)
    then show thesis using that k1(2) by blast
  qed
  have f: "con_ok (n + newlines ?t) (fold putc ?t k)"
    "apart (translate k) VIDEO zone a m \<Longrightarrow> i < m \<Longrightarrow> ldb (fold putc ?t k) (a + of_nat i) = ldb k (a + of_nat i)" for a m i
    using fold_putc [OF Cons.prems(3,4), of ?t] nl by auto
  have l: "ldb k1 (a + of_nat i) = ldb k (a + of_nat i)" if "quiet k conv a m" "i < m" for a m i
    using same_but_ldb [OF k1(2), of a m i] f(2) [of a m i] that by (simp add: quiet_def)
  have "call_ok k1 conv str ds ?b ws ?esp"
    using call_ok_cong [OF st(1), of k1] same_but_sel(1) [OF k1(2)] l by simp
  moreover have "conv_ok k1 conv" using Cons.prems(2) same_but_sel(1) [OF k1(2)] by (simp add: conv_ok_def)
  moreover have "con_ok (n + newlines ?t) k1" using f(1) same_but_con_ok [OF k1(2)] by simp
  ultimately obtain k2 where "printf_from ?b ?esp conv k1 = Some (k2, ?b + of_nat (length (concat (map dir_chars ds))))"
    "same_but conv 64 (fold putc (render str ds ws) k1) k2"
    using Cons.IH [of k1 ?b ws ?esp "n + newlines ?t"] Cons.prems(4) nl by auto
  then show ?case
    using k1(1) same_but_trans [OF same_but_fold_putc [OF k1(2)]] unfolding r by (simp add: add.assoc)
qed

lemma printf_renders:
  fixes k :: "'a screen_scheme"
  assumes "call_ok k conv str ds format vs args" "conv_ok k conv" "con_ok n k" "24 \<le> n"
    and "n + newlines (render str ds vs) \<le> 101"
  shows "\<exists>k'. printf format args conv k = Some (k', of_nat (length (concat (map dir_chars ds)))) \<and>
    same_but conv 64 (fold putc (render str ds vs) k) k'"
  using printf_from_eq [OF assms] by (auto simp: printf_def)

text \<open>A format without conversions prints itself, and nothing else changes.\<close>

lemma printf_plain:
  fixes k :: "'a screen_scheme"
  assumes "cstring (ldb k) format cs" "ch CHR ''%'' \<notin> set cs"
    and "con_ok n k" "24 \<le> n" "n + newlines cs \<le> 101" "apart (translate k) VIDEO zone format (length cs + 1)"
  shows "printf format args conv k = Some (fold putc cs k, of_nat (length cs))"
proof -
  have "printf_from (format + of_nat i) args conv k =
      Some (fold putc (drop i cs) k, format + of_nat (length cs))"
    if "i \<le> length cs" "cstring (ldb k) format cs" "con_ok n k" "24 \<le> n" "n + newlines (drop i cs) \<le> 101"
      "apart (translate k) VIDEO zone format (length cs + 1)" for i n and k :: "'a screen_scheme"
    using that
  proof (induction "length cs - i" arbitrary: i k n)
    case 0
    then show ?case using cstringD(3) [OF 0(3)] by (subst printf_from.simps) simp
  next
    case (Suc m)
    have i: "i < length cs" using Suc.hyps(2) by simp
    have c: "ldb k (format + of_nat i) = cs ! i" "cs ! i \<noteq> 0" "cs ! i \<noteq> 37"
      using cstringD(4) [OF Suc.prems(2) i] cstringD(2) [OF Suc.prems(2)] assms(2) nth_mem [OF i] by auto
    have dr: "drop i cs = cs ! i # drop (Suc i) cs" using i by (rule Cons_nth_drop_Suc [symmetric])
    let ?k = "putc (cs ! i) k" and ?n = "n + (if newline (cs ! i) then 1 else 0)"
    have k: "con_ok ?n ?k" using Suc.prems(3,4) by (rule con_ok_putc)
    have "cstring (ldb ?k) format cs"
      using cstring_fold_putc [OF Suc.prems(3,4), of "[cs ! i]" format cs] Suc.prems(2,5,6) dr by auto
    then have "printf_from (format + of_nat (Suc i)) args conv ?k =
        Some (fold putc (drop (Suc i) cs) ?k, format + of_nat (length cs))"
      using Suc.hyps(1) [of "Suc i" ?k ?n] k Suc.hyps(2) Suc.prems(4-6) dr i by simp
    then show ?case using c by (subst printf_from.simps) (simp add: dr ac_simps)
  qed
  from this [of 0 k n] show ?thesis using assms by (simp add: printf_def)
qed

end
