(* ===== verification/Pic.thy ===== *)
theory Pic
  imports FileSpec
begin

text \<open>
  \<^verbatim>\<open>student-distrib/i8259.c\<close>: the two cascaded interrupt controllers. The masks are read from
  the devices, so what the data ports answer is a parameter; the theorems assume the
  documented behaviour of the controller, that reading a data port gives the mask last written.
\<close>

section \<open>The controller routines\<close>

definition MASTER_8259_PORT :: u16 where "MASTER_8259_PORT = 0x20"
definition SLAVE_8259_PORT :: u16 where "SLAVE_8259_PORT = 0xA0"
definition MASTER_8259_DATA :: u16 where "MASTER_8259_DATA = 0x21"
definition SLAVE_8259_DATA :: u16 where "SLAVE_8259_DATA = 0xA1"
definition ICW1 :: u8 where "ICW1 = 0x11"
definition ICW2_MASTER :: u8 where "ICW2_MASTER = 0x20"
definition ICW2_SLAVE :: u8 where "ICW2_SLAVE = 0x28"
definition ICW3_MASTER :: u8 where "ICW3_MASTER = 0x04"
definition ICW3_SLAVE :: u8 where "ICW3_SLAVE = 0x02"
definition ICW4 :: u8 where "ICW4 = 0x01"
definition EOI :: u8 where "EOI = 0x60"

lemmas pic_ports = MASTER_8259_PORT_def SLAVE_8259_PORT_def MASTER_8259_DATA_def SLAVE_8259_DATA_def

record pic = filesys +
  master_mask :: u8
  slave_mask :: u8

definition read_masks :: "device \<Rightarrow> 'a pic_scheme \<Rightarrow> 'a pic_scheme" where
  "read_masks dev k =
     (let (v, k) = inb dev MASTER_8259_DATA k;
          k = k\<lparr>master_mask := v\<rparr>;
          (v, k) = inb dev SLAVE_8259_DATA k
      in k\<lparr>slave_mask := v\<rparr>)"

definition i8259_init :: "device \<Rightarrow> 'a pic_scheme \<Rightarrow> 'a pic_scheme" where
  "i8259_init dev k =
     (let k = outb ICW1 MASTER_8259_PORT k;
          k = outb ICW1 SLAVE_8259_PORT k;
          k = outb ICW2_MASTER MASTER_8259_DATA k;
          k = outb ICW2_SLAVE SLAVE_8259_DATA k;
          k = outb ICW3_MASTER MASTER_8259_DATA k;
          k = outb ICW3_SLAVE SLAVE_8259_DATA k;
          k = outb ICW4 MASTER_8259_DATA k;
          k = outb ICW4 SLAVE_8259_DATA k;
          k = outb 0xfb MASTER_8259_DATA k;
          k = outb 0xff SLAVE_8259_DATA k
      in read_masks dev k)"

definition enable_irq :: "device \<Rightarrow> nat \<Rightarrow> 'a pic_scheme \<Rightarrow> 'a pic_scheme" where
  "enable_irq dev irq_num k =
     (if irq_num < 8
      then let (v, k) = inb dev MASTER_8259_DATA k;
               k = k\<lparr>master_mask := v\<rparr>;
               testDigit = push_bit irq_num (1 :: u32);
               k = (if ucast (master_mask k) AND testDigit \<noteq> 0
                    then k\<lparr>master_mask := master_mask k - ucast testDigit\<rparr> else k);
               k = outb (master_mask k) MASTER_8259_DATA k
           in read_masks dev k
      else let irq_num = irq_num - 8;
               (v, k) = inb dev SLAVE_8259_DATA k;
               k = k\<lparr>slave_mask := v\<rparr>;
               testDigit = push_bit irq_num (1 :: u32);
               k = (if ucast (slave_mask k) AND testDigit \<noteq> 0
                    then k\<lparr>slave_mask := slave_mask k - ucast testDigit\<rparr> else k);
               k = outb (slave_mask k) SLAVE_8259_DATA k
           in read_masks dev k)"

definition disable_irq :: "device \<Rightarrow> nat \<Rightarrow> 'a pic_scheme \<Rightarrow> 'a pic_scheme" where
  "disable_irq dev irq_num k =
     (if irq_num < 8
      then let (v, k) = inb dev MASTER_8259_DATA k;
               k = k\<lparr>master_mask := v\<rparr>;
               testDigit = push_bit irq_num (1 :: u32);
               k = (if ucast (master_mask k) AND testDigit = 0
                    then k\<lparr>master_mask := master_mask k + ucast testDigit\<rparr> else k);
               k = outb (master_mask k) MASTER_8259_DATA k
           in read_masks dev k
      else let irq_num = irq_num - 8;
               (v, k) = inb dev SLAVE_8259_DATA k;
               k = k\<lparr>slave_mask := v\<rparr>;
               testDigit = push_bit irq_num (1 :: u32);
               k = (if ucast (slave_mask k) AND testDigit = 0
                    then k\<lparr>slave_mask := slave_mask k + ucast testDigit\<rparr> else k);
               k = outb (slave_mask k) SLAVE_8259_DATA k
           in read_masks dev k)"

definition send_eoi :: "nat \<Rightarrow> 'a machine_scheme \<Rightarrow> 'a machine_scheme" where
  "send_eoi irq_num k =
     (if irq_num < 8 then outb (EOI OR of_nat irq_num) MASTER_8259_PORT k
      else let k = outb (EOI OR of_nat (irq_num - 8)) SLAVE_8259_PORT k
           in outb (EOI OR 2) MASTER_8259_PORT k)"

section \<open>Masks\<close>

text \<open>
  The controller's documented behaviour in operation mode: a data port reads back the byte
  last written to it, and no access to another port changes it.
\<close>

definition mask_readback :: "device \<Rightarrow> bool" where
  "mask_readback dev \<longleftrightarrow> (\<forall>p \<in> {MASTER_8259_DATA, SLAVE_8259_DATA}. \<forall>h e.
     dev (e # h) p = (case e of Outb q v \<Rightarrow> if q = p then v else dev h p | Inb _ _ \<Rightarrow> dev h p))"

text \<open>The interrupt lines the devices mask, as one set of IRQ numbers.\<close>

definition masked :: "device \<Rightarrow> 'a machine_scheme \<Rightarrow> nat \<Rightarrow> bool" where
  "masked dev k irq = (if irq < 8 then bit (dev (io k) MASTER_8259_DATA) irq
                       else bit (dev (io k) SLAVE_8259_DATA) (irq - 8))"

lemma mask_readbackD:
  assumes "mask_readback dev"
  shows "dev (Outb MASTER_8259_DATA v # h) MASTER_8259_DATA = v"
    "dev (Outb MASTER_8259_DATA v # h) SLAVE_8259_DATA = dev h SLAVE_8259_DATA"
    "dev (Outb SLAVE_8259_DATA v # h) SLAVE_8259_DATA = v"
    "dev (Outb SLAVE_8259_DATA v # h) MASTER_8259_DATA = dev h MASTER_8259_DATA"
    "dev (Inb p v # h) MASTER_8259_DATA = dev h MASTER_8259_DATA"
    "dev (Inb p v # h) SLAVE_8259_DATA = dev h SLAVE_8259_DATA"
  using assms by (simp_all add: mask_readback_def) (simp_all add: pic_ports)

lemma mask_minus_bit:
  fixes m :: u8
  assumes "i < 8" "bit m i"
  shows "bit (m - push_bit i 1) j \<longleftrightarrow> bit m j \<and> j \<noteq> i"
proof -
  have "m AND NOT (push_bit i 1) OR push_bit i 1 = m"
    using assms by (intro bit_word_eqI) (auto simp: bit_simps)
  moreover have "m AND NOT (push_bit i 1) OR push_bit i 1 = (m AND NOT (push_bit i 1)) + push_bit i 1"
    by (rule disjunctive_add [symmetric]) (auto simp: bit_simps)
  ultimately have "m - push_bit i 1 = m AND NOT (push_bit i 1)"
    by (metis add_diff_cancel_right')
  then show ?thesis by (auto simp: bit_simps dest: bit_imp_le_length)
qed

lemma mask_plus_bit:
  fixes m :: u8
  assumes "i < 8" "\<not> bit m i"
  shows "bit (m + push_bit i 1) j \<longleftrightarrow> bit m j \<or> j = i"
proof -
  have "m + push_bit i 1 = m OR push_bit i 1"
    by (rule disjunctive_add) (use assms in \<open>auto simp: bit_simps\<close>)
  then show ?thesis using assms(1) by (auto simp: bit_simps)
qed

lemma test_digit:
  fixes m :: u8
  assumes "i < 8"
  shows "ucast m AND push_bit i (1 :: u32) \<noteq> 0 \<longleftrightarrow> bit m i" "ucast (push_bit i (1 :: u32)) = (push_bit i 1 :: u8)"
    "ucast m AND push_bit i (1 :: u32) = 0 \<longleftrightarrow> \<not> bit m i"
proof -
  have "ucast m AND push_bit i (1 :: u32) = (if bit m i then push_bit i 1 else 0)"
    using assms by (intro bit_word_eqI) (auto simp: bit_simps)
  moreover have "push_bit i (1 :: u32) \<noteq> 0" using assms by (simp add: push_bit_eq_0_iff)
  ultimately show "ucast m AND push_bit i (1 :: u32) \<noteq> 0 \<longleftrightarrow> bit m i"
    "ucast m AND push_bit i (1 :: u32) = 0 \<longleftrightarrow> \<not> bit m i" by simp_all
  show "ucast (push_bit i (1 :: u32)) = (push_bit i 1 :: u8)"
    using assms by (intro bit_word_eqI) (auto simp: bit_simps)
qed

text \<open>Enabling a line clears its mask bit and no other; disabling sets it and no other.\<close>

lemma read_masks_dev:
  assumes "mask_readback dev"
  shows "dev (io (read_masks dev k)) MASTER_8259_DATA = dev (io k) MASTER_8259_DATA"
    "dev (io (read_masks dev k)) SLAVE_8259_DATA = dev (io k) SLAVE_8259_DATA"
    "master_mask (read_masks dev k) = dev (io k) MASTER_8259_DATA"
    "slave_mask (read_masks dev k) = dev (io k) SLAVE_8259_DATA"
  by (simp_all add: read_masks_def inb_def Let_def mask_readbackD [OF assms])

lemma enable_irq_dev:
  fixes k :: "'a pic_scheme"
  assumes "mask_readback dev" "irq < 16"
  defines "m \<equiv> dev (io k) MASTER_8259_DATA" and "s \<equiv> dev (io k) SLAVE_8259_DATA"
  shows "dev (io (enable_irq dev irq k)) MASTER_8259_DATA =
      (if irq < 8 \<and> bit m irq then m - push_bit irq 1 else m)"
    and "dev (io (enable_irq dev irq k)) SLAVE_8259_DATA =
      (if 8 \<le> irq \<and> bit s (irq - 8) then s - push_bit (irq - 8) 1 else s)"
  using assms(2)
  by (cases "irq < 8"; simp add: enable_irq_def m_def s_def inb_def outb_def Let_def read_masks_dev [OF assms(1)]
      mask_readbackD [OF assms(1)] test_digit del: push_bit_of_1)+

lemma disable_irq_dev:
  fixes k :: "'a pic_scheme"
  assumes "mask_readback dev" "irq < 16"
  defines "m \<equiv> dev (io k) MASTER_8259_DATA" and "s \<equiv> dev (io k) SLAVE_8259_DATA"
  shows "dev (io (disable_irq dev irq k)) MASTER_8259_DATA =
      (if irq < 8 \<and> \<not> bit m irq then m + push_bit irq 1 else m)"
    and "dev (io (disable_irq dev irq k)) SLAVE_8259_DATA =
      (if 8 \<le> irq \<and> \<not> bit s (irq - 8) then s + push_bit (irq - 8) 1 else s)"
  using assms(2)
  by (cases "irq < 8"; simp add: disable_irq_def m_def s_def inb_def outb_def Let_def read_masks_dev [OF assms(1)]
      mask_readbackD [OF assms(1)] test_digit del: push_bit_of_1)+

lemma enable_irq_masked:
  assumes "mask_readback dev" "irq < 16" "irq' < 16"
  shows "masked dev (enable_irq dev irq k) irq' \<longleftrightarrow> masked dev k irq' \<and> irq' \<noteq> irq"
  using assms(2,3) unfolding masked_def enable_irq_dev [OF assms(1,2)]
  by (auto simp: mask_minus_bit simp del: push_bit_of_1)

lemma disable_irq_masked:
  assumes "mask_readback dev" "irq < 16" "irq' < 16"
  shows "masked dev (disable_irq dev irq k) irq' \<longleftrightarrow> masked dev k irq' \<or> irq' = irq"
  using assms(2,3) unfolding masked_def disable_irq_dev [OF assms(1,2)]
  by (auto simp: mask_plus_bit simp del: push_bit_of_1)

text \<open>After initialisation only the cascade line is open.\<close>

lemma i8259_init_masked:
  assumes "mask_readback dev" "irq < 16"
  shows "masked dev (i8259_init dev k) irq \<longleftrightarrow> irq \<noteq> 2"
proof -
  have "irq \<in> {0, 1, 2, 3, 4, 5, 6, 7}" if "irq < 8" using that by auto
  then have "bit (0xfb :: u8) irq \<longleftrightarrow> irq \<noteq> 2" if "irq < 8" using that by auto
  moreover have "irq - 8 \<in> {0, 1, 2, 3, 4, 5, 6, 7}" using assms(2) by auto
  then have "bit (0xff :: u8) (irq - 8)" by auto
  ultimately show ?thesis
    using assms(2) by (auto simp: masked_def i8259_init_def Let_def read_masks_dev [OF assms(1)] outb_def
        mask_readbackD [OF assms(1)] bit_simps)
qed

section \<open>Steps that only talk to devices\<close>

text \<open>Only the port history, the interrupt flag and the copies of the masks change.\<close>

definition io_frame :: "'a pic_scheme \<Rightarrow> 'a pic_scheme \<Rightarrow> bool" where
  "io_frame k k' \<longleftrightarrow> (\<exists>h b m s. k' = k\<lparr>io := h, iflag := b, master_mask := m, slave_mask := s\<rparr>)"

lemma io_frameI: "k' = k\<lparr>io := h, iflag := b, master_mask := m, slave_mask := s\<rparr> \<Longrightarrow> io_frame k k'"
  by (auto simp: io_frame_def)

lemma io_frame_refl: "io_frame k k"
  by (rule io_frameI [where h = "io k" and b = "iflag k" and m = "master_mask k" and s = "slave_mask k"]) simp

lemma io_frame_trans:
  assumes "io_frame k k'" "io_frame k' k''"
  shows "io_frame k k''"
proof -
  obtain h b m s where 1: "k' = k\<lparr>io := h, iflag := b, master_mask := m, slave_mask := s\<rparr>" using assms(1) by (auto simp: io_frame_def)
  obtain h' b' m' s' where 2: "k'' = k'\<lparr>io := h', iflag := b', master_mask := m', slave_mask := s'\<rparr>" using assms(2) by (auto simp: io_frame_def)
  show ?thesis by (rule io_frameI [where h = h' and b = b' and m = m' and s = s']) (simp add: 1 2)
qed

lemma io_frame_outb: "io_frame k (outb v p k)"
  by (rule io_frameI [where b = "iflag k" and m = "master_mask k" and s = "slave_mask k"]) (simp add: outb_def)

lemma io_frame_inb: "io_frame k (snd (inb dev p k))"
  by (rule io_frameI [where b = "iflag k" and m = "master_mask k" and s = "slave_mask k"]) (simp add: inb_def Let_def)

lemma io_frame_iflag: "io_frame k (k\<lparr>iflag := b\<rparr>)"
  by (rule io_frameI [where h = "io k" and m = "master_mask k" and s = "slave_mask k"]) simp

lemma io_frame_master: "io_frame k (k\<lparr>master_mask := m\<rparr>)"
  by (rule io_frameI [where h = "io k" and b = "iflag k" and s = "slave_mask k"]) simp

lemma io_frame_slave: "io_frame k (k\<lparr>slave_mask := m\<rparr>)"
  by (rule io_frameI [where h = "io k" and b = "iflag k" and m = "master_mask k"]) simp

lemmas io_frame_steps =
  io_frame_trans [OF _ io_frame_outb] io_frame_trans [OF _ io_frame_inb] io_frame_trans [OF _ io_frame_iflag]
  io_frame_trans [OF _ io_frame_master] io_frame_trans [OF _ io_frame_slave]

lemma io_frame_read_masks: "io_frame k (read_masks dev k)"
  unfolding read_masks_def Let_def case_prod_unfold by (intro io_frame_steps io_frame_refl)

lemma io_frame_i8259_init: "io_frame k (i8259_init dev k)"
  unfolding i8259_init_def Let_def
  by (intro io_frame_trans [OF _ io_frame_read_masks] io_frame_steps io_frame_refl)

lemma io_frame_enable_irq: "io_frame k (enable_irq dev i k)"
  unfolding enable_irq_def Let_def case_prod_unfold if_distrib [of "outb _ _"]
  by (auto intro!: io_frame_trans [OF _ io_frame_read_masks] io_frame_steps io_frame_refl split: if_splits)

end
