(* ===== verification/Rtc.thy ===== *)
theory Rtc
  imports Pic
begin

text \<open>
  \<^verbatim>\<open>student-distrib/rtc.c\<close>: the real-time clock driver. Its registers are reached by an index
  written to port 0x70 and data at port 0x71.
\<close>

section \<open>The driver\<close>

definition RTC_REGISTER_PORT :: u16 where "RTC_REGISTER_PORT = 0x70"
definition RTC_DATA_PORT :: u16 where "RTC_DATA_PORT = 0x71"
definition NMI_MASK :: u8 where "NMI_MASK = 0x80"
definition RTC_IRQ_NUM :: nat where "RTC_IRQ_NUM = 8"
definition MAX_FREQ :: int where "MAX_FREQ = 1024"

record rtc = pic +
  next_interrupt :: int

definition rtc_init :: "device \<Rightarrow> 'a rtc_scheme \<Rightarrow> 'a rtc_scheme" where
  "rtc_init dev k =
     (let rate = 0x06;
          k = k\<lparr>next_interrupt := 0\<rparr>;
          k = cli k;
          k = outb (NMI_MASK + 0x0A) RTC_REGISTER_PORT k;
          k = outb 0x20 RTC_DATA_PORT k;
          k = outb (NMI_MASK + 0x0A) RTC_REGISTER_PORT k;
          (prev, k) = inb dev RTC_DATA_PORT k;
          k = outb (NMI_MASK + 0x0A) RTC_REGISTER_PORT k;
          k = outb ((prev AND 0xF0) OR rate) RTC_DATA_PORT k;
          k = outb (NMI_MASK + 0x0B) RTC_REGISTER_PORT k;
          (prev, k) = inb dev RTC_DATA_PORT k;
          k = outb (NMI_MASK + 0x0B) RTC_REGISTER_PORT k;
          k = outb (prev OR 0x40) RTC_DATA_PORT k;
          k = enable_irq dev RTC_IRQ_NUM k
      in sti k)"

text \<open>\<^verbatim>\<open>interruption_test\<close> of \<^verbatim>\<open>tests.c\<close> returns at once; it is the identity.\<close>

definition interruption_test :: "u8 \<Rightarrow> u8 \<Rightarrow> 'a machine_scheme \<Rightarrow> 'a machine_scheme" where
  "interruption_test c arg k = k"

definition rtc_interrupt_handler :: "device \<Rightarrow> 'a rtc_scheme \<Rightarrow> 'a rtc_scheme" where
  "rtc_interrupt_handler dev k =
     (let k = cli k;
          k = k\<lparr>next_interrupt := 1\<rparr>;
          k = interruption_test (ch CHR ''r'') 0 k;
          k = outb (NMI_MASK + 0x0c) RTC_REGISTER_PORT k;
          (temp, k) = inb dev RTC_DATA_PORT k;
          k = send_eoi RTC_IRQ_NUM k
      in sti k)"

text \<open>\<^verbatim>\<open>while(freq > 0) { freq >>= 1; pwr++; }\<close>\<close>

function freq_power :: "int \<Rightarrow> int \<Rightarrow> int" where
  "freq_power freq pwr = (if freq > 0 then freq_power (freq div 2) (pwr + 1) else pwr)"
  by pat_completeness auto
termination by (relation "measure (\<lambda>(freq, pwr). nat freq)") auto

declare freq_power.simps [simp del]

definition set_freq :: "device \<Rightarrow> int \<Rightarrow> 'a machine_scheme \<Rightarrow> 'a machine_scheme" where
  "set_freq dev freq k =
     (let pwr = freq_power freq (-1);
          rate = 15 - pwr + 1;
          k = outb (NMI_MASK + 0x0A) RTC_REGISTER_PORT k;
          (prev, k) = inb dev RTC_DATA_PORT k;
          k = outb (NMI_MASK + 0x0A) RTC_REGISTER_PORT k
      in outb ((prev AND 0xF0) OR word_of_int rate) RTC_DATA_PORT k)"

definition rtc_open :: "device \<Rightarrow> 'a rtc_scheme \<Rightarrow> 'a rtc_scheme \<times> int" where
  "rtc_open dev k = (let k = cli k; k = set_freq dev 2 k; k = sti k in (k, 0))"

definition rtc_close :: "'a rtc_scheme \<Rightarrow> 'a rtc_scheme \<times> int" where
  "rtc_close k = (k, 0)"

text \<open>
  The wait loop of \<^verbatim>\<open>rtc_read\<close> ends only when an interrupt has set the flag: \<open>None\<close> means that
  the call is still spinning in this state.
\<close>

definition rtc_read :: "'a rtc_scheme \<Rightarrow> ('a rtc_scheme \<times> int) option" where
  "rtc_read k =
     (let k = sti k in
      if next_interrupt k = 0 then None else Some (k\<lparr>next_interrupt := 0\<rparr>, 0))"

definition rtc_read_wrapper :: "u32 \<Rightarrow> u32 \<Rightarrow> u32 \<Rightarrow> u32 \<Rightarrow> 'a rtc_scheme \<Rightarrow> ('a rtc_scheme \<times> int) option" where
  "rtc_read_wrapper n offset buf count k = rtc_read k"

text \<open>The loop that looks for a second one bit; it runs on positive values only.\<close>

function freq_flag :: "int \<Rightarrow> bool \<Rightarrow> bool" where
  "freq_flag temp flag =
     (if temp > 0 then freq_flag (temp div 2) (flag \<or> (odd temp \<and> temp \<noteq> 1)) else flag)"
  by pat_completeness auto
termination by (relation "measure (\<lambda>(temp, flag). nat temp)") auto

declare freq_flag.simps [simp del]

definition rtc_write :: "device \<Rightarrow> u32 \<Rightarrow> int \<Rightarrow> 'a rtc_scheme \<Rightarrow> 'a rtc_scheme \<times> int" where
  "rtc_write dev freq size_arg k =
     (let k = cli k in
      if freq = 0 then (sti k, -1)
      else if size_arg \<noteq> 4 then (sti k, -1)
      else
        let temp = sint (ldw k freq) in
        if temp \<le> 0 then (sti k, -1)
        else
          let temp = (if temp > MAX_FREQ then MAX_FREQ else temp) in
          if freq_flag temp False then (sti k, -1)
          else let k = set_freq dev (sint (ldw k freq)) k in (sti k, 0))"

definition rtc_write_wrapper :: "device \<Rightarrow> u32 \<Rightarrow> u32 \<Rightarrow> u32 \<Rightarrow> u32 \<Rightarrow> 'a rtc_scheme \<Rightarrow> 'a rtc_scheme \<times> int" where
  "rtc_write_wrapper dev n offset buf count k = rtc_write dev buf 4 k"

section \<open>Rates\<close>

lemma freq_power_pow2: "freq_power (2 ^ p) a = a + int p + 1"
proof (induction p arbitrary: a)
  case 0
  show ?case by (simp add: freq_power.simps [of 1 a] freq_power.simps [of 0])
next
  case (Suc p)
  show ?case using Suc [of "a + 1"] by (subst freq_power.simps) simp
qed

text \<open>The loop accepts exactly the powers of two.\<close>

lemma freq_flag_True: "freq_flag t True"
  by (induction t True rule: freq_flag.induct) (subst freq_flag.simps, simp)

lemma freq_flag_iff:
  assumes "t > 0"
  shows "\<not> freq_flag t False \<longleftrightarrow> (\<exists>p. t = 2 ^ p)"
  using assms
proof (induction "nat t" arbitrary: t rule: less_induct)
  case less
  show ?case
  proof (cases "odd t \<and> t \<noteq> 1")
    case True
    then have "\<not> (\<exists>p. t = 2 ^ p)" by (metis even_power even_numeral power_0 neq0_conv)
    moreover have "freq_flag t False"
      using True less.prems freq_flag_True by (subst freq_flag.simps) simp
    ultimately show ?thesis by blast
  next
    case False
    show ?thesis
    proof (cases "t = 1")
      case True
      then show ?thesis
        using freq_flag.simps [of 1 False] freq_flag.simps [of 0 False] by (auto intro: exI [of _ 0])
    next
      case n1: False
      with False have ev: "even t" by blast
      then obtain u where u: "t = 2 * u" by blast
      have "\<not> freq_flag u False \<longleftrightarrow> (\<exists>p. u = 2 ^ p)"
        by (rule less.hyps) (use u less.prems in auto)
      moreover have "freq_flag t False = freq_flag u False"
        using less.prems u ev by (subst freq_flag.simps) simp
      moreover have "(\<exists>p. t = 2 ^ p) \<longleftrightarrow> (\<exists>p. u = 2 ^ p)"
        using u n1 by (metis mult_cancel_left power.simps(2) power_0 not0_implies_Suc zero_neq_numeral)
      ultimately show ?thesis by blast
    qed
  qed
qed

text \<open>The clock's rate select: rate \<open>r\<close> in the low nibble of register A gives \<open>32768 >> (r - 1)\<close> Hz.\<close>

definition rate_hz :: "u8 \<Rightarrow> nat" where
  "rate_hz v = 32768 div 2 ^ (unat (v AND 0x0F) - 1)"

lemma set_freq_io:
  "io (set_freq dev (2 ^ p) k) =
     (let prev = dev (Outb RTC_REGISTER_PORT 0x8A # io k) RTC_DATA_PORT in
      Outb RTC_DATA_PORT ((prev AND 0xF0) OR word_of_int (16 - int p)) # Outb RTC_REGISTER_PORT 0x8A #
      Inb RTC_DATA_PORT prev # Outb RTC_REGISTER_PORT 0x8A # io k)"
  by (simp add: set_freq_def freq_power_pow2 Let_def inb_def outb_def NMI_MASK_def)

lemma rate_nibble:
  assumes "1 \<le> p" "p \<le> 10"
  shows "rate_hz ((prev AND 0xF0) OR word_of_int (16 - int p)) = 2 ^ p"
    "((prev AND 0xF0) OR word_of_int (16 - int p)) AND 0xF0 = prev AND 0xF0"
proof -
  let ?w = "word_of_int (16 - int p) :: u8"
  have "p \<in> {1, 2, 3, 4, 5, 6, 7, 8, 9, 10}" using assms by (simp, presburger)
  then have w: "?w AND 0x0F = ?w" "?w AND 0xF0 = 0" "32768 div 2 ^ (unat ?w - 1) = (2 :: nat) ^ p"
    by auto
  have "((prev AND 0xF0) OR ?w) AND 0x0F = ?w"
    unfolding bit.conj_disj_distrib2 w(1) by (simp add: and.assoc)
  then show "rate_hz ((prev AND 0xF0) OR ?w) = 2 ^ p"
    unfolding rate_hz_def using w(3) by simp
  show "((prev AND 0xF0) OR ?w) AND 0xF0 = prev AND 0xF0"
    unfolding bit.conj_disj_distrib2 w(2) by (simp add: and.assoc)
qed


text \<open>
  Writing from a null pointer, a frequency that is not positive, or one up to 1024 that is
  not a power of two returns -1 without touching the device.
\<close>

lemma rtc_write_rejects:
  fixes k :: "'a rtc_scheme"
  assumes "freq = 0 \<or> sint (ldw k freq) \<le> 0 \<or>
      (sint (ldw k freq) \<le> 1024 \<and> \<not> (\<exists>p. sint (ldw k freq) = 2 ^ p))"
  shows "rtc_write dev freq 4 k = (k\<lparr>iflag := True\<rparr>, -1)"
proof -
  have "ldw (cli k) freq = ldw k freq" by (simp add: ldw_def cli_def)
  then show ?thesis
    using assms freq_flag_iff [of "sint (ldw k freq)"]
    by (auto simp: rtc_write_def Let_def cli_def sti_def MAX_FREQ_def)
qed

text \<open>A blocked \<^verbatim>\<open>rtc_read\<close> returns after the next clock interrupt, which it consumes.\<close>

text \<open>
  After a clock interrupt a read of the clock returns, and the next read waits for the next
  interrupt.
\<close>

lemma rtc_read_after_interrupt:
  fixes k :: "'a rtc_scheme"
  shows "\<exists>k'. rtc_read (rtc_interrupt_handler dev k) = Some (k', 0) \<and> rtc_read k' = None"
  by (simp add: rtc_read_def rtc_interrupt_handler_def interruption_test_def send_eoi_def Let_def
      outb_def inb_def cli_def sti_def)

end
