(* ===== verification/Terminal.thy ===== *)
theory Terminal
  imports Rtc
begin

text \<open>
  The terminal driver of \<^verbatim>\<open>student-distrib/keyboard.c\<close>: the globals of the keyboard and the read
  and write operations that a process uses on its terminal. The line and key buffers are C
  arrays in memory, so the state holds their addresses and an access past a row lands in the
  next one.
\<close>

section \<open>State\<close>

definition TOTAL_KEY_NUM :: nat where "TOTAL_KEY_NUM = 128"
definition PRINT_LIM :: nat where "PRINT_LIM = 1025 * 2"
definition TERMINAL_NUM :: nat where "TERMINAL_NUM = 3"

record kbd = rtc +
  pressed_key :: "nat \<Rightarrow> u8"
  keyboard_buffer :: u32
  print_buffer :: u32
  cap_status :: int
  cursor_ind :: "int \<Rightarrow> int"
  hold_num :: int
  terminal_read_ready :: "int \<Rightarrow> int"
  terminal_2_running :: int
  terminal_3_running :: int
  scancodes_map :: "nat \<Rightarrow> u8"
  special_convert_map :: "nat \<Rightarrow> u8"

text \<open>The addresses of \<^verbatim>\<open>keyboard_buffer[t]\<close> and \<^verbatim>\<open>print_buffer[t]\<close>.\<close>

definition key_row :: "'a kbd_scheme \<Rightarrow> int \<Rightarrow> u32" where
  "key_row k t = keyboard_buffer k + of_nat (TOTAL_KEY_NUM + 1) * word_of_int t"

definition print_row :: "'a kbd_scheme \<Rightarrow> int \<Rightarrow> u32" where
  "print_row k t = print_buffer k + of_nat PRINT_LIM * word_of_int t"

section \<open>The operations\<close>

definition terminal_open :: "'a kbd_scheme \<Rightarrow> 'a kbd_scheme \<times> int" where
  "terminal_open k = (k, 0)"

definition terminal_close :: "'a kbd_scheme \<Rightarrow> 'a kbd_scheme \<times> int" where
  "terminal_close k = (k, 0)"

definition terminal_write :: "u32 \<Rightarrow> int \<Rightarrow> 'a kbd_scheme \<Rightarrow> ('a kbd_scheme \<times> int) option" where
  "terminal_write buf count k = do {
     let k = cli k;
     let lim = int PRINT_LIM;
     let lim = (if count < lim then count else lim);
     let row = print_row k (get_active_terminal k);
     let k = memcpy k row buf (word_of_int lim);
     let k = stb k (row + word_of_int lim) 0;
     (k, _) \<leftarrow> puts_scroll row lim k;
     let k = sti k;
     Some (k, count)
   }"

definition terminal_write_wrapper ::
  "u32 \<Rightarrow> u32 \<Rightarrow> u32 \<Rightarrow> u32 \<Rightarrow> 'a kbd_scheme \<Rightarrow> ('a kbd_scheme \<times> int) option" where
  "terminal_write_wrapper n offset buf count k = terminal_write buf (sint count) k"

text \<open>
  The wait loop ends only when the keyboard handler has completed a line for the active
  terminal: \<open>None\<close> means that the call is still waiting in this state.
\<close>

definition terminal_read :: "u32 \<Rightarrow> int \<Rightarrow> 'a kbd_scheme \<Rightarrow> ('a kbd_scheme \<times> int) option" where
  "terminal_read buf count k = do {
     let k = sti k;
     if terminal_read_ready k (get_active_terminal k) \<noteq> 1 then None
     else do {
       let k = memcpy k buf (print_row k (get_active_terminal k)) (word_of_int count);
       let k = k\<lparr>terminal_read_ready := (terminal_read_ready k)(get_active_terminal k := 0)\<rparr>;
       len \<leftarrow> strlen k buf;
       Some (k, sint len)
     }
   }"

definition terminal_read_wrapper ::
  "u32 \<Rightarrow> u32 \<Rightarrow> u32 \<Rightarrow> u32 \<Rightarrow> 'a kbd_scheme \<Rightarrow> ('a kbd_scheme \<times> int) option" where
  "terminal_read_wrapper n offset buf count k = terminal_read buf (sint count) k"

section \<open>Writing a string to the active terminal\<close>

text \<open>The bytes from \<open>a\<close> on are mapped and none of them lies in the physical page \<open>v\<close>.\<close>

definition off_screen :: "20 word \<Rightarrow> xlate \<Rightarrow> u32 \<Rightarrow> nat \<Rightarrow> bool" where
  "off_screen v tr a n \<longleftrightarrow> (\<forall>i<n. \<exists>p. tr (a + of_nat i) = Some p \<and> p \<notin> page_cells v)"

lemma keeps_ldb:
  assumes "keeps v k k'" "off_screen v (translate k) a n" "i < n"
  shows "ldb k' (a + of_nat i) = ldb k (a + of_nat i)"
  using assms unfolding off_screen_def keeps_def ldb_def ld_def by fastforce

lemma puts_loop_terminal:
  fixes k :: "'a screen_scheme"
  assumes inv: "video_inv k" and ok: "aterm_ok (terminal k (active_terminal k))"
    and v: "v = term_frame (display_terminal k) (active_terminal k)"
    and off: "off_screen v (translate k) s n"
  defines "k' \<equiv> for_range 0 n (\<lambda>index k. putc_scroll (ldb k (s + of_nat index)) k) k"
  shows "keeps v k k' \<and> active_terminal k' = active_terminal k \<and> display_terminal k' = display_terminal k \<and>
    aterm_ok (terminal k' (active_terminal k)) \<and>
    (\<forall>t\<in>{0, 1, 2}. terminal k' t = (if t = active_terminal k
       then fold aterm_putc (load_list ldb k s n) (terminal k t) else terminal k t))"
  using off unfolding k'_def
proof (induction n)
  case 0
  then show ?case using ok by simp
next
  case (Suc n)
  define k1 where "k1 = for_range 0 n (\<lambda>index k. putc_scroll (ldb k (s + of_nat index)) k) k"
  have "off_screen v (translate k) s n" using Suc.prems by (simp add: off_screen_def)
  note IH = Suc.IH [OF this, folded k1_def]
  have inv1: "video_inv k1"
    using IH inv by (subst video_inv_cong [of k1 k]) (auto simp: keeps_def)
  have at: "active_terminal k \<in> {0, 1, 2}" using inv by (simp add: video_inv_def)
  have c: "ldb k1 (s + of_nat n) = ldb k (s + of_nat n)"
    using IH Suc.prems by (auto intro: keeps_ldb)
  define k2 where "k2 = putc_scroll (ldb k1 (s + of_nat n)) k1"
  have step: "for_range 0 (Suc n) (\<lambda>index k. putc_scroll (ldb k (s + of_nat index)) k) k = k2"
    by (simp add: for_range_Suc k1_def k2_def)
  have k2: "keeps v k1 k2"
    unfolding k2_def v using IH video_invD(1) [OF inv1] view_terminal(1) [OF inv1]
    by (intro keeps_putc_scroll) simp_all
  have t2: "terminal k2 t = (if t = active_terminal k1 then aterm_putc (ldb k (s + of_nat n)) (terminal k1 t)
      else terminal k1 t)" if "t \<in> {0, 1, 2}" for t
    unfolding k2_def using terminal_putc_scroll [OF inv1 _ that] IH c by simp
  have ld: "load_list ldb k s (Suc n) = load_list ldb k s n @ [ldb k (s + of_nat n)]"
    by (simp add: load_list_def)
  have "aterm_ok (terminal k2 (active_terminal k))"
    using t2 [OF at] IH aterm_ok_putc by simp
  then show ?case
    unfolding step using IH k2 t2 keeps_trans [of v k k1 k2] by (simp add: ld k2_def)
qed

section \<open>Kernel memory and the screens\<close>

text \<open>The range lies in the kernel's own 4 MB page, where its variables are.\<close>

definition in_kernel :: "u32 \<Rightarrow> nat \<Rightarrow> bool" where
  "in_kernel a n \<longleftrightarrow> 0x400000 \<le> unat a \<and> unat a + n \<le> 0x800000"

lemma in_kernel_walk:
  assumes "kernel_map v g" "in_kernel a n" "i < n"
  shows "walk g (a + of_nat i) = Some (a + of_nat i)" "unat (a + of_nat i) = unat a + i"
proof -
  show u: "unat (a + of_nat i) = unat a + i"
    using assms by (intro unat_off) (simp add: in_kernel_def)
  have "a + of_nat i = of_nat (unat (a + of_nat i))"
    using of_nat_unat [of "a + of_nat i"] by simp
  also have "unat (a + of_nat i) = 2 ^ 22 + (unat a + i - 2 ^ 22)"
    unfolding u using assms by (simp add: in_kernel_def)
  finally have e: "a + of_nat i = of_nat (2 ^ 22 + (unat a + i - 2 ^ 22))" .
  have "unat a + i - 2 ^ 22 < 2 ^ 22" using assms by (simp add: in_kernel_def) linarith
  from walk_kernel_page [OF assms(1) this] show "walk g (a + of_nat i) = Some (a + of_nat i)"
    unfolding e .
qed

lemma term_frame_low:
  assumes "t \<in> {0, 1, 2}" "off < 4096"
  shows "unat (in_page (term_frame d t) off) < 0xC0000"
proof -
  have "in_page (of_nat f) off = of_nat (4096 * f + off)" if "f < 256" for f
    using that by (intro in_page_of_nat) simp
  moreover have "unat (of_nat (4096 * f + off) :: u32) = 4096 * f + off" if "f < 256" for f
    using that assms(2) by (intro unat_of_nat_small) simp
  ultimately have "unat (in_page (of_nat f) off) = 4096 * f + off" if "f < 256" for f
    using that by simp
  from this [of VIDEO_IND] this [of "VIDEO_IND + 1 + nat t"] show ?thesis
    using assms by (auto simp: term_frame_def VIDEO_IND_def)
qed

lemma in_kernel_off_screen:
  assumes "kernel_map w g" "in_kernel a n" "t \<in> {0, 1, 2}"
  shows "off_screen (term_frame d t) (walk g) a n"
  unfolding off_screen_def
proof (intro allI impI exI conjI)
  fix i assume i: "i < n"
  show "walk g (a + of_nat i) = Some (a + of_nat i)" using in_kernel_walk(1) [OF assms(1,2) i] .
  have "0x400000 \<le> unat (a + of_nat i)"
    using in_kernel_walk(2) [OF assms(1,2) i] assms(2) by (simp add: in_kernel_def)
  then show "a + of_nat i \<notin> page_cells (term_frame d t)"
    using term_frame_low [OF assms(3), of _ d] by (fastforce simp: page_cells_def)
qed

lemma apart_in_kernel:
  assumes "kernel_map v g" "in_kernel a n" "in_kernel b m" "unat a + n \<le> unat b \<or> unat b + m \<le> unat a"
  shows "apart (walk g) a n b m"
  unfolding apart_def
proof (intro allI impI)
  fix i j assume i: "i < n" and j: "j < m"
  have "unat (a + of_nat i) \<noteq> unat (b + of_nat j)"
    using in_kernel_walk(2) [OF assms(1,2) i] in_kernel_walk(2) [OF assms(1,3) j] assms(4) i j by auto
  then show "walk g (a + of_nat i) \<noteq> walk g (b + of_nat j)"
    using in_kernel_walk(1) [OF assms(1,2) i] in_kernel_walk(1) [OF assms(1,3) j] by auto
qed

lemma in_kernel_block:
  assumes "kernel_map v g" "in_kernel a n"
  shows "block (walk g) a n"
  unfolding block_def
proof (intro conjI allI impI)
  fix i j assume "i < n" "j < n" and "walk g (a + of_nat i) = walk g (a + of_nat j)"
  then have "a + of_nat i = a + of_nat j" by (simp add: in_kernel_walk(1) [OF assms])
  then have "unat (a + of_nat i) = unat (a + of_nat j)" by simp
  then show "i = j" using \<open>i < n\<close> \<open>j < n\<close> by (simp only: in_kernel_walk(2) [OF assms])
qed (simp add: in_kernel_walk(1) [OF assms])

text \<open>Storing in the kernel's page changes no terminal.\<close>

lemma terminal_store_bytes:
  fixes k :: "'a screen_scheme"
  assumes "video_inv k" "in_kernel a (length vs)" "t \<in> {0, 1, 2}"
  shows "terminal (store_bytes k a vs) t = terminal k t"
proof -
  obtain w where w: "kernel_map w (pg k)" using assms(1) by (auto simp: video_inv_def)
  have "store_list (st (translate k)) (phys k) a vs (in_page (term_frame (display_terminal k) t) off) =
      phys k (in_page (term_frame (display_terminal k) t) off)" if "off < 4096" for off
  proof (rule phys_store_list_out)
    fix i assume "i < length vs"
    then obtain p where "translate k (a + of_nat i) = Some p" "p \<notin> page_cells (term_frame (display_terminal k) t)"
      using in_kernel_off_screen [OF w assms(2,3)] by (auto simp: off_screen_def)
    then show "translate k (a + of_nat i) \<noteq> Some (in_page (term_frame (display_terminal k) t) off)"
      using that by (auto simp: page_cells_def)
  qed
  then show ?thesis
    by (auto simp: terminal_def store_bytes_def intro: frame_grid_cong)
qed

section \<open>Write and read\<close>

lemma row_in_kernel_off:
  assumes "in_kernel a (n + 1)"
  shows "in_kernel a n"
  using assms by (simp add: in_kernel_def)

lemma keeps_iflag [simp]:
  fixes k :: "'a screen_scheme"
  shows "terminal (k\<lparr>iflag := b\<rparr>) t = terminal k t"
    "terminal (k\<lparr>screen_x_before_input := x\<rparr>) t = terminal k t"
    "terminal (k\<lparr>screen_y_before_input := x\<rparr>) t = terminal k t"
    "video_inv (k\<lparr>iflag := b\<rparr>) = video_inv k"
  by (simp_all add: terminal_def video_inv_def)

text \<open>
  A write of up to 2049 bytes: the active terminal receives the bytes one after the other and
  every other terminal stays as it is. Only the page of the terminal and the line buffer change in
  memory, and the line buffer holds the bytes and a terminator.
\<close>

lemma screen_only_putc_scroll: "screen_only k (putc_scroll c k)"
  by (auto simp: putc_scroll_def Let_def scroll_eq shift_up_def intro!: screen_only_steps)

lemma screen_only_puts_loop:
  "screen_only k (for_range 0 n (\<lambda>index k. putc_scroll (ldb k (s + of_nat index)) k) k)"
  by (induction n) (auto simp: for_range_Suc intro: screen_only_trans screen_only_putc_scroll)

lemma terminal_write_full:
  fixes k :: "'a kbd_scheme"
  assumes inv: "video_inv k" and ok: "aterm_ok (terminal k (active_terminal k))"
    and n: "n < PRINT_LIM"
    and row: "in_kernel (print_row k (active_terminal k)) (n + 1)"
    and ap: "apart (translate k) (print_row k (active_terminal k)) n buf n"
  shows "\<exists>k'. terminal_write buf (int n) k = Some (k', int n) \<and> iflag k' \<and>
    (\<forall>t\<in>{0, 1, 2}. terminal k' t = (if t = active_terminal k
       then fold aterm_putc (load_list ldb k buf n) (terminal k t) else terminal k t)) \<and>
    (\<exists>p h x y xb yb. k' = k\<lparr>phys := p, iflag := True, io := h, screen_x_multi := x, screen_y_multi := y,
       screen_x_before_input := xb, screen_y_before_input := yb\<rparr>) \<and>
    keeps (term_frame (display_terminal k) (active_terminal k))
      (store_bytes k (print_row k (active_terminal k)) (load_list ldb k buf n @ [0])) k'"
proof -
  define a where "a = active_terminal k"
  define r where "r = print_row k a"
  define bytes where "bytes = load_list ldb k buf n"
  define k1 where "k1 = store_bytes (k\<lparr>iflag := False\<rparr>) r (bytes @ [0])"
  obtain w where w: "kernel_map w (pg k)" using inv by (auto simp: video_inv_def)
  have u: "unat (of_nat n :: u32) = n" using n by (intro unat_of_nat_small) (simp add: PRINT_LIM_def)
  have mc: "memcpy (k\<lparr>iflag := False\<rparr>) r buf (of_nat n) = store_bytes (k\<lparr>iflag := False\<rparr>) r bytes"
    using memcpy_store_bytes [of "k\<lparr>iflag := False\<rparr>" r "of_nat n" buf] ap u
    by (simp add: r_def a_def bytes_def load_list_def ldb_def)
  have st: "stb (store_bytes (k\<lparr>iflag := False\<rparr>) r bytes) (r + of_nat n) 0 = k1"
    using stb_store_bytes [of _ r bytes 0] by (simp add: k1_def bytes_def)
  have t1: "terminal k1 t = terminal k t" if "t \<in> {0, 1, 2}" for t
    using terminal_store_bytes [of "k\<lparr>iflag := False\<rparr>" r "bytes @ [0]" t] inv row that
    by (simp add: k1_def r_def a_def bytes_def)
  have s1: "pg k1 = pg k" "active_terminal k1 = a" "display_terminal k1 = display_terminal k"
    by (simp_all add: k1_def store_bytes_def a_def)
  have inv1: "video_inv k1" using inv s1 by (subst video_inv_cong [of k1 k]) (simp_all add: a_def)
  have at: "a \<in> {0, 1, 2}" using inv by (simp add: a_def video_inv_def)
  have off: "off_screen (term_frame (display_terminal k1) a) (translate k1) r n"
    using in_kernel_off_screen [OF w row_in_kernel_off [OF row] at] s1 by (simp add: r_def a_def)
  have "aterm_ok (terminal k1 (active_terminal k1))" using ok t1 [OF at] s1 by (simp add: a_def)
  note loop = puts_loop_terminal [OF inv1 this refl off [folded s1(2)]]
  have "block (translate k1) r (length (bytes @ [0]))"
    using in_kernel_block [OF w row] s1 by (simp add: r_def a_def bytes_def)
  then have "ldb k1 (r + of_nat i) = bytes ! i" if "i < n" for i
    using ldb_store_bytes [of "k\<lparr>iflag := False\<rparr>" r "bytes @ [0]" i] that
    by (simp add: k1_def nth_append bytes_def)
  then have ld: "load_list ldb k1 r n = bytes"
    by (intro nth_equalityI) (simp_all add: bytes_def)
  define k2 where "k2 = for_range 0 n (\<lambda>index k. putc_scroll (ldb k (r + of_nat index)) k) k1"
  have "terminal_write buf (int n) k = Some (sti (k2\<lparr>screen_x_before_input := screen_x k2,
      screen_y_before_input := screen_y k2\<rparr>), int n)"
    using n mc st unfolding terminal_write_def puts_scroll_def k2_def
    by (simp add: Let_def cli_def get_active_terminal_def print_row_def r_def a_def)
  moreover have "screen_only k1 k2" unfolding k2_def by (rule screen_only_puts_loop)
  then obtain p h x y where so: "k2 = k1\<lparr>phys := p, io := h, screen_x_multi := x, screen_y_multi := y\<rparr>"
    unfolding screen_only_def by blast
  have "\<exists>p h x y xb yb. sti (k2\<lparr>screen_x_before_input := screen_x k2, screen_y_before_input := screen_y k2\<rparr>) =
      k\<lparr>phys := p, iflag := True, io := h, screen_x_multi := x, screen_y_multi := y,
       screen_x_before_input := xb, screen_y_before_input := yb\<rparr>"
    by (intro exI [of _ p] exI [of _ h] exI [of _ x] exI [of _ y] exI [of _ "screen_x k"] exI [of _ "screen_y k"])
      (simp add: so k1_def store_bytes_def sti_def)
  moreover have "keeps (term_frame (display_terminal k) a) (store_bytes k r (bytes @ [0]))
      (sti (k2\<lparr>screen_x_before_input := screen_x k2, screen_y_before_input := screen_y k2\<rparr>))"
    using loop by (simp add: keeps_def k2_def s1 sti_def) (simp add: k1_def store_bytes_def)
  moreover have "\<forall>t\<in>{0, 1, 2}. terminal (sti (k2\<lparr>screen_x_before_input := screen_x k2,
      screen_y_before_input := screen_y k2\<rparr>)) t = (if t = a then fold aterm_putc bytes (terminal k t) else terminal k t)"
    using loop t1 ld by (simp add: sti_def k2_def s1)
  moreover have "iflag (sti (k2\<lparr>screen_x_before_input := screen_x k2, screen_y_before_input := screen_y k2\<rparr>))"
    by (simp add: sti_def)
  ultimately show ?thesis unfolding a_def r_def bytes_def by blast
qed

lemma terminal_write_eq:
  fixes k :: "'a kbd_scheme"
  assumes "video_inv k" "aterm_ok (terminal k (active_terminal k))" "n < PRINT_LIM"
    "in_kernel (print_row k (active_terminal k)) (n + 1)"
    "apart (translate k) (print_row k (active_terminal k)) n buf n"
  shows "\<exists>k'. terminal_write buf (int n) k = Some (k', int n) \<and> iflag k' \<and>
    (\<forall>t\<in>{0, 1, 2}. terminal k' t = (if t = active_terminal k
       then fold aterm_putc (load_list ldb k buf n) (terminal k t) else terminal k t))"
  using terminal_write_full [OF assms] by blast

text \<open>
  A read takes the completed line of the active terminal: the caller's buffer holds it as a
  string, its length is returned, and the line is consumed.
\<close>

lemma terminal_read_eq:
  fixes k :: "'a kbd_scheme"
  assumes ready: "terminal_read_ready k (active_terminal k) = 1"
    and line: "cstring (ldb k) (print_row k (active_terminal k)) cs"
    and n: "length cs < n" "n < 2 ^ 31"
    and buf: "block (translate k) buf n"
    and ap: "apart (translate k) buf n (print_row k (active_terminal k)) n"
  shows "\<exists>k'. terminal_read buf (int n) k = Some (k', int (length cs)) \<and> cstring (ldb k') buf cs \<and>
    terminal_read_ready k' (active_terminal k) = 0 \<and> terminal_read buf' m k' = None"
proof -
  define r where "r = print_row k (active_terminal k)"
  define k1 where "k1 = store_bytes (k\<lparr>iflag := True\<rparr>) buf (load_list ldb k r n)"
  define k2 where "k2 = k1\<lparr>terminal_read_ready := (terminal_read_ready k1)(active_terminal k := 0)\<rparr>"
  have u: "unat (of_nat n :: u32) = n" using n by (intro unat_of_nat_small) simp
  have mc: "memcpy (k\<lparr>iflag := True\<rparr>) buf r (of_nat n) = k1"
    using memcpy_store_bytes [of "k\<lparr>iflag := True\<rparr>" buf "of_nat n" r] ap u
    by (simp add: r_def k1_def load_list_def ldb_def)
  have ld: "ldb k2 (buf + of_nat i) = ldb k (r + of_nat i)" if "i < n" for i
  proof -
    have "ldb k2 (buf + of_nat i) = ldb k1 (buf + of_nat i)" by (simp add: k2_def ldb_def)
    then show ?thesis
      using ldb_store_bytes [of "k\<lparr>iflag := True\<rparr>" buf "load_list ldb k r n" i] buf that
      by (simp add: k1_def)
  qed
  have cs: "cstring (ldb k2) buf cs"
    using line n(1) ld unfolding cstring_def r_def by auto
  have "strlen k2 buf = Some (of_nat (length cs))" by (rule strlen_cstring [OF cs])
  moreover have "active_terminal k1 = active_terminal k" "sint (of_nat (length cs) :: u32) = int (length cs)"
    using n by (simp_all add: k1_def store_bytes_def sint_of_nat_len)
  ultimately have "terminal_read buf (int n) k = Some (k2, int (length cs))"
    using ready mc unfolding terminal_read_def get_active_terminal_def k2_def
    by (simp add: sti_def Let_def print_row_def r_def)
  moreover have "active_terminal k2 = active_terminal k" "terminal_read_ready k2 (active_terminal k) = 0"
    by (simp_all add: k2_def k1_def store_bytes_def)
  ultimately show ?thesis
    using cs by (simp add: terminal_read_def get_active_terminal_def sti_def Let_def)
qed

end
