(* ===== verification/Process.thy ===== *)
theory Process
  imports Terminal
begin

text \<open>
  \<^verbatim>\<open>student-distrib/systemcall.c\<close>: process control blocks, program execution and halting, and
  the file system calls. A process control block lies at the bottom of its process's kernel
  stack; the model keeps the blocks in a store keyed by that address. Locals that the code
  passes by address, and the string literal \<^verbatim>\<open>"shell"\<close>, have their addresses in the state.
\<close>

section \<open>State\<close>

definition FDT_SIZE :: nat where "FDT_SIZE = 8"
definition RTC_TYPE :: int where "RTC_TYPE = 0"
definition DIR_TYPE :: int where "DIR_TYPE = 1"
definition REG_TYPE :: int where "REG_TYPE = 2"
definition VIDEO_USER :: u32 where "VIDEO_USER = 0xB8000 + 0xA000000"
definition MAX_ARG_SIZE :: nat where "MAX_ARG_SIZE = 4096"
definition USER_PROGRAM_ADDR :: u32 where "USER_PROGRAM_ADDR = 0x8048000"
definition USER_PAGE_START :: int where "USER_PAGE_START = 0x8000000"
definition USER_PAGE_END :: int where "USER_PAGE_END = 0x8400000"
definition ASSIGNED_PCB_SIZE :: int where "ASSIGNED_PCB_SIZE = 0x2000"
definition EXEC_INFO_BYTES :: u32 where "EXEC_INFO_BYTES = 28"
definition MAX_PID :: int where "MAX_PID = 8"
definition MEM_DEFENSE_SIZE :: u32 where "MEM_DEFENSE_SIZE = 8"
definition KERNEL_DS :: u16 where "KERNEL_DS = 0x0018"

text \<open>The functions a descriptor's operation pointers can refer to.\<close>

datatype fop =
    Op_null
  | Op_terminal_read | Op_terminal_write
  | Op_rtc_read | Op_rtc_write
  | Op_filesys_read | Op_filesys_write
  | Op_dir_read | Op_dir_write

record file_desc_t =
  fd_read :: fop
  fd_write :: fop
  fd_inode :: u32
  file_position :: u32
  flags :: int

record pcb_t =
  parent :: u32
  child :: u32
  parent_esp :: u32
  parent_ebp :: u32
  current_esp :: u32
  current_ebp :: u32
  pcb_terminal :: int
  is_terminal :: int
  file_array :: "nat \<Rightarrow> file_desc_t"
  available :: "nat \<Rightarrow> u8"
  pcb_pid :: int

record proc = kbd +
  arg_buf :: u32
  fname :: u32
  tempBuf :: u32
  shell_name :: u32
  process_status :: "int \<Rightarrow> u8"
  arg_available :: "int \<Rightarrow> int"
  current_pid :: int
  total_running_process :: int
  entry_point :: u32
  pcbs :: "u32 \<Rightarrow> pcb_t"
  tss_esp0 :: u32
  tss_ss0 :: u16
  esp :: u32
  ebp :: u32

text \<open>
  How a kernel routine can leave: it returns a value; it drops to user mode at an entry point;
  it takes over a saved kernel stack and returns there; or it spins until an interrupt, if it can.
\<close>

datatype 'k outcome =
    Ret 'k int
  | To_user 'k u32
  | Resume 'k u32 u32
  | Spin 'k

section \<open>Process bookkeeping\<close>

definition get_running_process_num :: "'a proc_scheme \<Rightarrow> int" where
  "get_running_process_num k = total_running_process k"

definition set_current_pid :: "int \<Rightarrow> 'a proc_scheme \<Rightarrow> 'a proc_scheme" where
  "set_current_pid pid k = k\<lparr>current_pid := pid\<rparr>"

definition is_running :: "'a proc_scheme \<Rightarrow> int \<Rightarrow> int" where
  "is_running k pid = (if pid = 0 then 0 else sint (process_status k pid))"

definition get_kernel_stack_bottom :: "int \<Rightarrow> u32" where
  "get_kernel_stack_bottom pid = word_of_int (0x800000 - ASSIGNED_PCB_SIZE * (pid + 1))"

definition get_current_pcb :: "'a proc_scheme \<Rightarrow> u32" where
  "get_current_pcb k = (if current_pid k = -1 then 0 else get_kernel_stack_bottom (current_pid k))"

definition upd_pcb :: "u32 \<Rightarrow> (pcb_t \<Rightarrow> pcb_t) \<Rightarrow> 'a proc_scheme \<Rightarrow> 'a proc_scheme" where
  "upd_pcb a f k = k\<lparr>pcbs := (pcbs k)(a := f (pcbs k a))\<rparr>"

definition upd_fd :: "nat \<Rightarrow> (file_desc_t \<Rightarrow> file_desc_t) \<Rightarrow> pcb_t \<Rightarrow> pcb_t" where
  "upd_fd i f p = p\<lparr>file_array := (file_array p)(i := f (file_array p i))\<rparr>"

definition pcb_init :: "int \<Rightarrow> 'a proc_scheme \<Rightarrow> 'a proc_scheme" where
  "pcb_init pid k =
     upd_pcb (get_kernel_stack_bottom pid) (\<lambda>p.
       let p = p\<lparr>pcb_pid := pid\<rparr>;
           p = upd_fd 0 (\<lambda>d. d\<lparr>fd_read := Op_terminal_read, fd_write := Op_null, flags := 1\<rparr>) p;
           p = upd_fd 1 (\<lambda>d. d\<lparr>fd_read := Op_null, fd_write := Op_terminal_write, flags := 1\<rparr>) p
       in for_range 2 FDT_SIZE (\<lambda>i. upd_fd i (\<lambda>d. d\<lparr>flags := 0\<rparr>)) p) k"

text \<open>The loop over the table from \<open>i\<close> on.\<close>

function empty_pid_from :: "'a proc_scheme \<Rightarrow> int \<Rightarrow> int" where
  "empty_pid_from k i =
     (if i < MAX_PID then if process_status k i = 0 then i else empty_pid_from k (i + 1) else -1)"
  by pat_completeness auto
termination by (relation "measure (\<lambda>(k, i). nat (MAX_PID - i))") auto

declare empty_pid_from.simps [simp del]

definition get_empty_pid :: "'a proc_scheme \<Rightarrow> int" where
  "get_empty_pid k = empty_pid_from k 1"

text \<open>\<^verbatim>\<open>back_to_user_mode\<close> of the assembly wrapper: the flags it pushes enable interrupts.\<close>

definition back_to_user_mode :: "u32 \<Rightarrow> 'a proc_scheme \<Rightarrow> 'a proc_scheme outcome" where
  "back_to_user_mode entry k = To_user (sti (cli k)) entry"

section \<open>Halt and execute\<close>

definition halt :: "int \<Rightarrow> 'a proc_scheme \<Rightarrow> 'a proc_scheme outcome option" where
  "halt status k =
     (let pcb = get_current_pcb k in
      if total_running_process k = 1
      then do {
        (k, _) \<leftarrow> filesys_read_by_name (shell_name k) (tempBuf k) EXEC_INFO_BYTES k;
        let k = k\<lparr>entry_point := ldw k (tempBuf k + 24)\<rparr>;
        Some (back_to_user_mode (entry_point k) k)
      }
      else
        let k = k\<lparr>total_running_process := total_running_process k - 1\<rparr>;
            k = k\<lparr>process_status := (process_status k)(pcb_pid (pcbs k pcb) := 0)\<rparr>
        in if is_terminal (pcbs k pcb) \<noteq> 0
           then Some (Spin (clear (sti k)))
           else
             let par = parent (pcbs k pcb);
                 k = k\<lparr>pg := setup_task_page (pcb_pid (pcbs k par)) (pg k)\<rparr>;
                 k = k\<lparr>current_pid := pcb_pid (pcbs k par)\<rparr>;
                 k = upd_pcb par (child_update (\<lambda>_. 0)) k;
                 k = k\<lparr>tss_esp0 := par + word_of_int ASSIGNED_PCB_SIZE - MEM_DEFENSE_SIZE\<rparr>;
                 k = k\<lparr>tss_ss0 := KERNEL_DS\<rparr>;
                 k = k\<lparr>esp := parent_esp (pcbs k pcb)\<rparr>;
                 k = k\<lparr>ebp := parent_ebp (pcbs k pcb)\<rparr>
             in Some (Resume k (esp k) (ebp k)))"

text \<open>
  The scanning loops of \<^verbatim>\<open>execute\<close>: \<^verbatim>\<open>for(; i < strlen(command); i++) if(...) break;\<close>, and the
  loop that copies the arguments, with \<^verbatim>\<open>strlen\<close> evaluated in every round.
\<close>

partial_function (option) scan_until :: "'a machine_scheme \<Rightarrow> u32 \<Rightarrow> (u8 \<Rightarrow> bool) \<Rightarrow> u32 \<Rightarrow> u32 option" where
  "scan_until k command stop i = do {
     len \<leftarrow> strlen k command;
     if i < len then if stop (ldb k (command + i)) then Some i else scan_until k command stop (i + 1)
     else Some i
   }"

partial_function (option) copy_args ::
  "u32 \<Rightarrow> u32 \<Rightarrow> u32 \<Rightarrow> u32 \<Rightarrow> 'a machine_scheme \<Rightarrow> ('a machine_scheme \<times> u32) option" where
  "copy_args command row i cnt k = do {
     len \<leftarrow> strlen k command;
     if i < len then copy_args command row (i + 1) (cnt + 1) (stb k (row + cnt) (ldb k (command + i)))
     else Some (k, cnt)
   }"

definition arg_row :: "'a proc_scheme \<Rightarrow> int \<Rightarrow> u32" where
  "arg_row k pid = arg_buf k + of_nat MAX_ARG_SIZE * word_of_int pid"

definition executable_checking :: "u8 list" where
  "executable_checking = [0x7f, 0x45, 0x4c, 0x46]"

text \<open>The part after a slot is taken: arguments, pages, loading, and the switch to user mode.\<close>

definition execute_in :: "int \<Rightarrow> u32 \<Rightarrow> u32 \<Rightarrow> int \<Rightarrow> int \<Rightarrow> 'a proc_scheme \<Rightarrow> 'a proc_scheme outcome option" where
  "execute_in pid command i terminal_num is_term k = do {
     i \<leftarrow> scan_until k command (\<lambda>c. c \<noteq> ch CHR '' '') i;
     (k, cnt) \<leftarrow> copy_args command (arg_row k pid) i 0 k;
     let k = stb k (arg_row k pid + cnt) 0;
     alen \<leftarrow> strlen k (arg_row k pid);
     let k = k\<lparr>arg_available := (arg_available k)(pid := (if alen > 0 then 1 else 0))\<rparr>;
     let k = k\<lparr>pg := setup_task_page pid (pg k)\<rparr>;
     let k = set_active_terminal terminal_num k;
     (k, r) \<leftarrow> load_executable (fname k) USER_PROGRAM_ADDR k;
     if r = -1 then Some (Ret k (-1))
     else do {
       let k = k\<lparr>entry_point := ldw k (tempBuf k + 24)\<rparr>;
       let pcb = get_kernel_stack_bottom pid;
       let prev = get_current_pcb k;
       let k = upd_pcb pcb (\<lambda>p. p\<lparr>pcb_terminal := terminal_num, parent := prev, is_terminal := is_term\<rparr>) k;
       let k = (if is_term = 0 then upd_pcb (parent (pcbs k pcb)) (child_update (\<lambda>_. pcb)) k else k);
       let k = k\<lparr>tss_esp0 := pcb + word_of_int ASSIGNED_PCB_SIZE - MEM_DEFENSE_SIZE\<rparr>;
       let k = k\<lparr>tss_ss0 := KERNEL_DS\<rparr>;
       let k = upd_pcb pcb (\<lambda>p. p\<lparr>current_esp := tss_esp0 k, current_ebp := tss_esp0 k\<rparr>) k;
       let k = k\<lparr>current_pid := pid\<rparr>;
       let k = (if prev \<noteq> 0
                then upd_pcb prev (\<lambda>p. p\<lparr>current_esp := esp k, current_ebp := ebp k\<rparr>) k else k);
       let k = upd_pcb pcb (\<lambda>p. p\<lparr>parent_esp := esp k, parent_ebp := ebp k\<rparr>) k;
       let k = k\<lparr>ebp := tss_esp0 k\<rparr>;
       let k = k\<lparr>esp := tss_esp0 k\<rparr>;
       Some (back_to_user_mode (entry_point k) k)
     }
   }"

definition execute_with_terminal_num ::
  "u32 \<Rightarrow> int \<Rightarrow> int \<Rightarrow> 'a proc_scheme \<Rightarrow> 'a proc_scheme outcome option" where
  "execute_with_terminal_num command terminal_num is_term k =
     (if command = 0 then Some (Ret k (-1))
      else do {
        let k = cli k;
        i \<leftarrow> scan_until k command (\<lambda>c. c = ch CHR '' '') 0;
        let k = memcpy k (fname k) command i;
        let k = stb k (fname k + i) 0;
        found \<leftarrow> read_dentry_by_name k (fname k);
        case found of
          None \<Rightarrow> Some (Ret k (-1))
        | Some f_entry \<Rightarrow> do {
            (k, _) \<leftarrow> filesys_read_by_name (fname k) (tempBuf k) EXEC_INFO_BYTES k;
            if load_list ldb k (tempBuf k) 4 \<noteq> executable_checking then Some (Ret k (-1))
            else
              let pid = get_empty_pid k in
              if pid = -1 then Some (Ret k (-1))
              else
                let k = k\<lparr>process_status := (process_status k)(pid := 1)\<rparr>;
                    k = k\<lparr>total_running_process := total_running_process k + 1\<rparr>;
                    k = pcb_init pid k
                in execute_in pid command i terminal_num is_term k
          }
      })"

definition execute :: "u32 \<Rightarrow> 'a proc_scheme \<Rightarrow> 'a proc_scheme outcome option" where
  "execute command k =
     execute_with_terminal_num command (pcb_terminal (pcbs k (get_current_pcb k))) 0 k"

section \<open>File system calls\<close>

text \<open>
  A call through an operation pointer. \<open>None\<close> is a call that does not return in this state:
  a blocking read that has to wait, or a jump to the null page.
\<close>

definition call_op :: "device \<Rightarrow> fop \<Rightarrow> u32 \<Rightarrow> u32 \<Rightarrow> u32 \<Rightarrow> u32 \<Rightarrow> 'a proc_scheme \<Rightarrow> ('a proc_scheme \<times> int) option" where
  "call_op dev op n offset buf count k =
     (case op of
        Op_null \<Rightarrow> None
      | Op_terminal_read \<Rightarrow> terminal_read_wrapper n offset buf count k
      | Op_terminal_write \<Rightarrow> terminal_write_wrapper n offset buf count k
      | Op_rtc_read \<Rightarrow> rtc_read_wrapper n offset buf count k
      | Op_rtc_write \<Rightarrow> Some (rtc_write_wrapper dev n offset buf count k)
      | Op_filesys_read \<Rightarrow> Some (filesys_read n offset buf count k)
      | Op_filesys_write \<Rightarrow> Some (filesys_write_wrapper n offset buf count k)
      | Op_dir_read \<Rightarrow> dir_read_wrapper n offset buf count k
      | Op_dir_write \<Rightarrow> Some (dir_write_wrapper n offset buf count k))"

text \<open>\<^verbatim>\<open>for(i = 0; i < FDT_SIZE; i++) if(file_array[i].flags == 0) break;\<close>\<close>

function free_fd_from :: "pcb_t \<Rightarrow> nat \<Rightarrow> nat" where
  "free_fd_from p i =
     (if i < FDT_SIZE then if flags (file_array p i) = 0 then i else free_fd_from p (i + 1) else i)"
  by pat_completeness auto
termination by (relation "measure (\<lambda>(p, i). FDT_SIZE - i)") auto

declare free_fd_from.simps [simp del]

definition open_file :: "u32 \<Rightarrow> 'a proc_scheme \<Rightarrow> ('a proc_scheme \<times> int) option" where
  "open_file filename k = do {
     found \<leftarrow> read_dentry_by_name k filename;
     case found of
       None \<Rightarrow> Some (k, -1)
     | Some temp \<Rightarrow>
         let pcb = get_current_pcb k;
             i = free_fd_from (pcbs k pcb) 0
         in if i = FDT_SIZE then Some (k, -1)
            else
              let k = upd_pcb pcb (\<lambda>p. p\<lparr>available := (available p)(i := 1)\<rparr>) k;
                  k = upd_pcb pcb (upd_fd i (\<lambda>d. d\<lparr>fd_inode := inode temp, flags := 1, file_position := 0\<rparr>)) k;
                  k = (if fileType temp = RTC_TYPE
                       then upd_pcb pcb (upd_fd i (\<lambda>d. d\<lparr>fd_read := Op_rtc_read, fd_write := Op_rtc_write\<rparr>)) k
                       else if fileType temp = REG_TYPE
                       then upd_pcb pcb (upd_fd i (\<lambda>d. d\<lparr>fd_read := Op_filesys_read, fd_write := Op_filesys_write\<rparr>)) k
                       else if fileType temp = DIR_TYPE
                       then upd_pcb pcb (upd_fd i (\<lambda>d. d\<lparr>fd_read := Op_dir_read, fd_write := Op_dir_write\<rparr>))
                              (fst (filesys_open k))
                       else k)
              in Some (k, int i)
   }"

definition read_file :: "device \<Rightarrow> int \<Rightarrow> u32 \<Rightarrow> int \<Rightarrow> 'a proc_scheme \<Rightarrow> ('a proc_scheme \<times> int) option" where
  "read_file dev fd buf nbytes k =
     (if fd \<ge> int FDT_SIZE \<or> fd < 0 \<or> fd = 1 then Some (k, -1)
      else
        let pcb = get_current_pcb k;
            d = file_array (pcbs k pcb) (nat fd)
        in if flags d = 0 then Some (k, -1)
           else do {
             (k, bytes_read) \<leftarrow> call_op dev (fd_read d) (fd_inode d) (file_position d) buf (word_of_int nbytes) k;
             if bytes_read = -1 then Some (k, -1)
             else
               let k = upd_pcb pcb (upd_fd (nat fd) (\<lambda>d.
                         d\<lparr>file_position := file_position d + word_of_int bytes_read\<rparr>)) k
               in Some (k, bytes_read)
           })"

definition write_file :: "device \<Rightarrow> int \<Rightarrow> u32 \<Rightarrow> int \<Rightarrow> 'a proc_scheme \<Rightarrow> ('a proc_scheme \<times> int) option" where
  "write_file dev fd buf nbytes k =
     (if fd \<ge> int FDT_SIZE \<or> fd < 0 \<or> fd = 0 then Some (k, -1)
      else
        let pcb = get_current_pcb k;
            d = file_array (pcbs k pcb) (nat fd)
        in if flags d = 0 then Some (k, -1)
           else do {
             (k, bytes_written) \<leftarrow> call_op dev (fd_write d) (fd_inode d) 0 buf (word_of_int nbytes) k;
             if bytes_written = -1 then Some (k, -1) else Some (k, bytes_written)
           })"

definition getargs :: "u32 \<Rightarrow> int \<Rightarrow> 'a proc_scheme \<Rightarrow> 'a proc_scheme \<times> int" where
  "getargs buf nbytes k =
     (if buf = 0 then (k, -1)
      else if arg_available k (current_pid k) = 0 then (k, -1)
      else (memcpy k buf (arg_row k (current_pid k)) (word_of_int nbytes), 0))"

definition do_nothing :: "'a proc_scheme \<Rightarrow> 'a proc_scheme \<times> int" where
  "do_nothing k = (k, 0)"

definition close_file :: "int \<Rightarrow> 'a proc_scheme \<Rightarrow> 'a proc_scheme \<times> int" where
  "close_file fd k =
     (let pcb = get_current_pcb k in
      if fd \<ge> int FDT_SIZE \<or> fd \<le> 1 \<or> flags (file_array (pcbs k pcb) (nat fd)) = 0 then (k, -1)
      else (upd_pcb pcb (upd_fd (nat fd) (\<lambda>d. d\<lparr>flags := 0\<rparr>)) k, 0))"

definition vidmap :: "u32 \<Rightarrow> 'a proc_scheme \<Rightarrow> 'a proc_scheme \<times> int" where
  "vidmap screenstart k =
     (if screenstart = 0 then (k, -1)
      else if sint screenstart < USER_PAGE_START \<or> sint screenstart \<ge> USER_PAGE_END then (k, -1)
      else (k\<lparr>phys := st32 (translate k) (phys k) screenstart VIDEO_USER\<rparr>, 0))"

text \<open>
  The system call wrapper: \<^verbatim>\<open>eax\<close> selects the routine and the three argument registers are its
  parameters; numbers outside 1 to 8, compared as signed values, return \<open>-1\<close>.
\<close>

definition ret :: "('a proc_scheme \<times> int) \<Rightarrow> 'a proc_scheme outcome" where
  "ret r = Ret (fst r) (snd r)"

definition system_call :: "device \<Rightarrow> u32 \<Rightarrow> u32 \<Rightarrow> u32 \<Rightarrow> u32 \<Rightarrow> 'a proc_scheme \<Rightarrow> 'a proc_scheme outcome option" where
  "system_call dev eax ebx ecx edx k =
     (if sint eax > 8 \<or> sint eax \<le> 0 then Some (Ret k (-1))
      else if eax = 1 then halt (sint ebx) k
      else if eax = 2 then execute ebx k
      else if eax = 3 then map_option ret (read_file dev (sint ebx) ecx (sint edx) k)
      else if eax = 4 then map_option ret (write_file dev (sint ebx) ecx (sint edx) k)
      else if eax = 5 then map_option ret (open_file ebx k)
      else if eax = 6 then Some (ret (close_file (sint ebx) k))
      else if eax = 7 then Some (ret (getargs ebx (sint ecx) k))
      else Some (ret (vidmap ebx k)))"

end
