(* ===== verification/ProcessSpec.thy ===== *)
theory ProcessSpec
  imports Process
begin

text \<open>
  What the process and file system calls promise: slots and descriptors are handed out from
  the free ones, descriptor tables keep the standard streams, a file is read piece by piece,
  a program is found, loaded and entered, and halting it gives its parent back exactly what
  the parent had.
\<close>

section \<open>Process slots\<close>

lemma empty_pid_from_cases:
  assumes "i \<le> 8"
  shows "(\<exists>p. empty_pid_from k i = p \<and> i \<le> p \<and> p < 8 \<and> process_status k p = 0 \<and>
      (\<forall>q. i \<le> q \<and> q < p \<longrightarrow> process_status k q \<noteq> 0)) \<or>
    (empty_pid_from k i = -1 \<and> (\<forall>q. i \<le> q \<and> q < 8 \<longrightarrow> process_status k q \<noteq> 0))"
  using assms
proof (induction k i rule: empty_pid_from.induct)
  case (1 k i)
  show ?case
  proof (cases "i < 8 \<and> process_status k i \<noteq> 0")
    case True
    then have e: "empty_pid_from k i = empty_pid_from k (i + 1)"
      by (subst empty_pid_from.simps) (simp add: MAX_PID_def)
    have split: "(\<forall>q. i \<le> q \<and> q < m \<longrightarrow> process_status k q \<noteq> 0) \<longleftrightarrow>
        (\<forall>q. i + 1 \<le> q \<and> q < m \<longrightarrow> process_status k q \<noteq> 0)" for m
      using True by (metis add1_zle_eq order_le_less zle_add1_eq_le)
    show ?thesis
      unfolding e split using 1 True by (auto simp: MAX_PID_def)
  next
    case False
    then have "empty_pid_from k i = (if i < 8 then i else -1)"
      by (subst empty_pid_from.simps) (auto simp: MAX_PID_def)
    then show ?thesis using False by auto
  qed
qed

lemma get_empty_pid_Some:
  assumes "get_empty_pid k \<noteq> -1"
  shows "1 \<le> get_empty_pid k" "get_empty_pid k < 8" "process_status k (get_empty_pid k) = 0"
    "1 \<le> q \<Longrightarrow> q < get_empty_pid k \<Longrightarrow> process_status k q \<noteq> 0"
  using empty_pid_from_cases [of 1 k] assms by (auto simp: get_empty_pid_def)

lemma get_empty_pid_None:
  "get_empty_pid k = -1 \<longleftrightarrow> (\<forall>q. 1 \<le> q \<and> q < 8 \<longrightarrow> process_status k q \<noteq> 0)"
  using empty_pid_from_cases [of 1 k] by (auto simp: get_empty_pid_def)

text \<open>The kernel stacks of different processes are different 8 KB blocks below 8 MB.\<close>

lemma unat_stack_bottom:
  assumes "0 \<le> pid" "pid < 8"
  shows "unat (get_kernel_stack_bottom pid) = 0x800000 - 0x2000 * (nat pid + 1)"
proof -
  have "get_kernel_stack_bottom pid = of_nat (0x800000 - 0x2000 * (nat pid + 1))"
    using assms by (simp add: get_kernel_stack_bottom_def ASSIGNED_PCB_SIZE_def of_nat_diff)
  moreover have "unat (of_nat (0x800000 - 0x2000 * (nat pid + 1)) :: u32) = 0x800000 - 0x2000 * (nat pid + 1)"
    by (rule unat_of_nat_small) simp
  ultimately show ?thesis by simp
qed

lemma stack_bottom_inj:
  assumes "0 \<le> p" "p < 8" "0 \<le> q" "q < 8"
  shows "get_kernel_stack_bottom p = get_kernel_stack_bottom q \<longleftrightarrow> p = q"
  using unat_stack_bottom [of p] unat_stack_bottom [of q] assms by auto

lemma stack_bottom_nonzero: "0 \<le> p \<Longrightarrow> p < 8 \<Longrightarrow> get_kernel_stack_bottom p \<noteq> 0"
  using unat_stack_bottom [of p] by auto

section \<open>Descriptor tables\<close>

lemma free_fd_from_spec:
  assumes "i \<le> 8"
  shows "i \<le> free_fd_from p i \<and> free_fd_from p i \<le> 8 \<and>
    (\<forall>j. i \<le> j \<and> j < free_fd_from p i \<longrightarrow> flags (file_array p j) \<noteq> 0) \<and>
    (free_fd_from p i < 8 \<longrightarrow> flags (file_array p (free_fd_from p i)) = 0)"
  using assms
proof (induction p i rule: free_fd_from.induct)
  case (1 p i)
  show ?case
  proof (cases "i < 8 \<and> flags (file_array p i) \<noteq> 0")
    case True
    then have e: "free_fd_from p i = free_fd_from p (i + 1)"
      by (subst free_fd_from.simps) (simp add: FDT_SIZE_def)
    have "i + 1 \<le> free_fd_from p (i + 1) \<and> free_fd_from p (i + 1) \<le> 8 \<and>
      (\<forall>j. i + 1 \<le> j \<and> j < free_fd_from p (i + 1) \<longrightarrow> flags (file_array p j) \<noteq> 0) \<and>
      (free_fd_from p (i + 1) < 8 \<longrightarrow> flags (file_array p (free_fd_from p (i + 1))) = 0)"
      by (rule "1.IH") (use True in \<open>auto simp: FDT_SIZE_def\<close>)
    then show ?thesis unfolding e using True by (metis Suc_eq_plus1 Suc_leD Suc_leI order_le_less)
  next
    case False
    then have "free_fd_from p i = i"
      by (subst free_fd_from.simps) (simp add: FDT_SIZE_def)
    then show ?thesis using False "1.prems" by auto
  qed
qed

text \<open>The standard streams of a process stay open and keep their operations.\<close>

definition streams_ok :: "pcb_t \<Rightarrow> bool" where
  "streams_ok p \<longleftrightarrow> flags (file_array p 0) = 1 \<and> flags (file_array p 1) = 1 \<and>
     fd_read (file_array p 0) = Op_terminal_read \<and> fd_write (file_array p 1) = Op_terminal_write"

lemma upd_fd_sel [simp]:
  "file_array (upd_fd i f p) = (file_array p)(i := f (file_array p i))"
  "pcb_pid (upd_fd i f p) = pcb_pid p" "child (upd_fd i f p) = child p" "parent (upd_fd i f p) = parent p"
  "pcb_terminal (upd_fd i f p) = pcb_terminal p" "is_terminal (upd_fd i f p) = is_terminal p"
  "parent_esp (upd_fd i f p) = parent_esp p" "parent_ebp (upd_fd i f p) = parent_ebp p"
  by (simp_all add: upd_fd_def)

lemma clear_flags_loop:
  "for_range 2 n (\<lambda>i. upd_fd i (\<lambda>d. d\<lparr>flags := 0\<rparr>)) p =
     p\<lparr>file_array := (\<lambda>i. if 2 \<le> i \<and> i < n then (file_array p i)\<lparr>flags := 0\<rparr> else file_array p i)\<rparr>"
proof (induction n)
  case (Suc n)
  show ?case
  proof (cases "2 \<le> n")
    case True
    then show ?thesis using Suc by (auto simp: for_range_Suc upd_fd_def fun_eq_iff less_Suc_eq)
  next
    case False
    then have "(\<lambda>i. if 2 \<le> i \<and> i < Suc n then (file_array p i)\<lparr>flags := 0\<rparr> else file_array p i) =
        file_array p" by auto
    then show ?thesis using False by simp
  qed
qed simp

definition fresh_pcb :: "int \<Rightarrow> pcb_t \<Rightarrow> pcb_t" where
  "fresh_pcb pid p = p\<lparr>pcb_pid := pid, file_array := (\<lambda>i.
     if i = 0 then (file_array p 0)\<lparr>fd_read := Op_terminal_read, fd_write := Op_null, flags := 1\<rparr>
     else if i = 1 then (file_array p 1)\<lparr>fd_read := Op_null, fd_write := Op_terminal_write, flags := 1\<rparr>
     else if i < 8 then (file_array p i)\<lparr>flags := 0\<rparr> else file_array p i)\<rparr>"

lemma pcb_init_eq: "pcb_init pid k = upd_pcb (get_kernel_stack_bottom pid) (fresh_pcb pid) k"
proof -
  have "(let p = p\<lparr>pcb_pid := pid\<rparr>;
           p = upd_fd 0 (\<lambda>d. d\<lparr>fd_read := Op_terminal_read, fd_write := Op_null, flags := 1\<rparr>) p;
           p = upd_fd 1 (\<lambda>d. d\<lparr>fd_read := Op_null, fd_write := Op_terminal_write, flags := 1\<rparr>) p
       in for_range 2 FDT_SIZE (\<lambda>i. upd_fd i (\<lambda>d. d\<lparr>flags := 0\<rparr>)) p) = fresh_pcb pid p" for p
    unfolding Let_def clear_flags_loop
    by (auto simp: fresh_pcb_def upd_fd_def FDT_SIZE_def fun_eq_iff intro!: pcb_t.equality)
  then show ?thesis unfolding pcb_init_def by simp
qed

lemma streams_ok_fresh: "streams_ok (fresh_pcb pid p)"
  by (simp add: streams_ok_def fresh_pcb_def)

lemma upd_pcb_sel [simp]:
  "pcbs (upd_pcb a f k) = (pcbs k)(a := f (pcbs k a))"
  "current_pid (upd_pcb a f k) = current_pid k" "process_status (upd_pcb a f k) = process_status k"
  "total_running_process (upd_pcb a f k) = total_running_process k"
  "get_current_pcb (upd_pcb a f k) = get_current_pcb k"
  "phys (upd_pcb a f k) = phys k" "pg (upd_pcb a f k) = pg k"
  "esp (upd_pcb a f k) = esp k" "ebp (upd_pcb a f k) = ebp k"
  "tss_esp0 (upd_pcb a f k) = tss_esp0 k" "entry_point (upd_pcb a f k) = entry_point k"
  by (simp_all add: upd_pcb_def get_current_pcb_def)

text \<open>The descriptor that \<^verbatim>\<open>open\<close> sets up for a directory entry, from the slot's old content.\<close>

definition opened :: "dentry_t \<Rightarrow> file_desc_t \<Rightarrow> file_desc_t" where
  "opened temp d =
     (let d = d\<lparr>fd_inode := inode temp, flags := 1, file_position := 0\<rparr> in
      if fileType temp = 0 then d\<lparr>fd_read := Op_rtc_read, fd_write := Op_rtc_write\<rparr>
      else if fileType temp = 2 then d\<lparr>fd_read := Op_filesys_read, fd_write := Op_filesys_write\<rparr>
      else if fileType temp = 1 then d\<lparr>fd_read := Op_dir_read, fd_write := Op_dir_write\<rparr>
      else d)"

lemma open_file_found:
  fixes k :: "'a proc_scheme"
  assumes "read_dentry_by_name k filename = Some (Some temp)"
    and i: "i = free_fd_from (pcbs k (get_current_pcb k)) 0" "i < 8"
  shows "\<exists>k'. open_file filename k = Some (k', int i) \<and>
    file_array (pcbs k' (get_current_pcb k)) =
      (file_array (pcbs k (get_current_pcb k)))(i := opened temp (file_array (pcbs k (get_current_pcb k)) i)) \<and>
    (\<forall>a. a \<noteq> get_current_pcb k \<longrightarrow> pcbs k' a = pcbs k a) \<and>
    current_pid k' = current_pid k \<and> process_status k' = process_status k \<and>
    phys k' = phys k \<and> pg k' = pg k"
  using assms unfolding open_file_def
  by (simp add: Let_def FDT_SIZE_def opened_def RTC_TYPE_def DIR_TYPE_def REG_TYPE_def filesys_open_def)

lemma open_file_full:
  assumes "read_dentry_by_name k filename = Some (Some temp)"
    and "\<And>i. i < 8 \<Longrightarrow> flags (file_array (pcbs k (get_current_pcb k)) i) \<noteq> 0"
  shows "open_file filename k = Some (k, -1)"
proof -
  have "free_fd_from (pcbs k (get_current_pcb k)) 0 = 8"
    using free_fd_from_spec [of 0 "pcbs k (get_current_pcb k)"] assms(2)
    by (metis le_neq_implies_less zero_le)
  then show ?thesis using assms(1) by (simp add: open_file_def FDT_SIZE_def)
qed

text \<open>\<^verbatim>\<open>open\<close> never hands out a standard stream, and \<^verbatim>\<open>close\<close> never takes one away.\<close>

lemma free_fd_streams:
  assumes "streams_ok p"
  shows "2 \<le> free_fd_from p 0"
proof -
  have "flags (file_array p (free_fd_from p 0)) = 0 \<or> free_fd_from p 0 = 8"
    using free_fd_from_spec [of 0 p] by (metis le_neq_implies_less zero_le)
  moreover have "flags (file_array p 0) \<noteq> 0" "flags (file_array p 1) \<noteq> 0"
    using assms by (simp_all add: streams_ok_def)
  ultimately have "free_fd_from p 0 \<noteq> 0" "free_fd_from p 0 \<noteq> 1" by (metis zero_neq_numeral, metis one_eq_numeral_iff semiring_norm(83))
  then show ?thesis by linarith
qed

lemma streams_ok_close:
  assumes "streams_ok (pcbs k (get_current_pcb k))"
  shows "streams_ok (pcbs (fst (close_file fd k)) (get_current_pcb k))"
  using assms by (auto simp: close_file_def Let_def streams_ok_def)

lemma open_close_roundtrip:
  fixes k :: "'a proc_scheme"
  assumes "read_dentry_by_name k filename = Some (Some temp)"
    and "streams_ok (pcbs k (get_current_pcb k))"
    and "free_fd_from (pcbs k (get_current_pcb k)) 0 < 8"
  shows "\<exists>k' fd. open_file filename k = Some (k', fd) \<and> 2 \<le> fd \<and> fd < 8 \<and>
    snd (close_file fd k') = 0 \<and>
    (\<forall>j. (flags (file_array (pcbs (fst (close_file fd k')) (get_current_pcb k)) j) = 0) =
         (flags (file_array (pcbs k (get_current_pcb k)) j) = 0))"
proof -
  let ?i = "free_fd_from (pcbs k (get_current_pcb k)) 0"
  obtain k' where k': "open_file filename k = Some (k', int ?i)"
    "file_array (pcbs k' (get_current_pcb k)) = (file_array (pcbs k (get_current_pcb k)))
       (?i := opened temp (file_array (pcbs k (get_current_pcb k)) ?i))"
    "current_pid k' = current_pid k"
    using open_file_found [OF assms(1) refl assms(3)] by blast
  have cur: "get_current_pcb k' = get_current_pcb k" by (simp add: get_current_pcb_def k'(3))
  have fl: "flags (opened temp d) = 1" for d by (simp add: opened_def Let_def)
  have free: "flags (file_array (pcbs k (get_current_pcb k)) ?i) = 0"
    using free_fd_from_spec [of 0 "pcbs k (get_current_pcb k)"] assms(3) by simp
  have i: "2 \<le> ?i" by (rule free_fd_streams [OF assms(2)])
  then have "close_file (int ?i) k' =
      (upd_pcb (get_current_pcb k) (upd_fd ?i (\<lambda>d. d\<lparr>flags := 0\<rparr>)) k', 0)"
    using assms(3) by (simp add: close_file_def cur k'(2) fl FDT_SIZE_def Let_def)
  then show ?thesis
    using k'(1) i assms(3) free by (intro exI [of _ k'] exI [of _ "int ?i"]) (auto simp: k'(2))
qed

section \<open>Reading an open file\<close>

lemma read_file_regular:
  fixes k :: "'a proc_scheme"
  assumes fd: "0 \<le> fd" "fd < 8" "fd \<noteq> 1"
    and d: "d = file_array (pcbs k (get_current_pcb k)) (nat fd)" "flags d \<noteq> 0" "fd_read d = Op_filesys_read"
    and ok: "fs_ok k" "unat (fd_inode d) < nat (num_inodes k)"
    and n: "unat (file_position d) + n < 2 ^ 31"
    and N: "N = min n (unat (inode_length k (fd_inode d)) - unat (file_position d))"
    and ap: "apart (translate k) buf N (file_start k) (image_size k)"
  shows "read_file dev fd buf (int n) k =
    Some (upd_pcb (get_current_pcb k)
        (upd_fd (nat fd) (\<lambda>d. d\<lparr>file_position := file_position d + of_nat N\<rparr>))
        (store_bytes k buf (file_part k (fd_inode d) (unat (file_position d)) (unat (file_position d) + N))),
      int N)"
proof -
  have u: "unat (of_nat n :: u32) = n" using n by (intro unat_of_nat_small) simp
  have "read_data (fd_inode d) (file_position d) buf (of_nat n) k =
      (store_bytes k buf (file_part k (fd_inode d) (unat (file_position d)) (unat (file_position d) + N)), int N)"
    by (rule read_data_eq [OF ok]) (use n N ap u in auto)
  then show ?thesis
    using fd d unfolding read_file_def
    by (simp add: Let_def FDT_SIZE_def call_op_def filesys_read_def)
qed

text \<open>Calls on a closed or out-of-range descriptor fail without any effect.\<close>

lemma bad_fd:
  assumes "fd < 0 \<or> 8 \<le> fd \<or> flags (file_array (pcbs k (get_current_pcb k)) (nat fd)) = 0"
  shows "read_file dev fd buf n k = Some (k, -1)" "write_file dev fd buf n k = Some (k, -1)"
    "close_file fd k = (k, -1)"
  using assms by (auto simp: read_file_def write_file_def close_file_def FDT_SIZE_def Let_def)

end
