(* ===== verification/Execution.thy ===== *)
theory Execution
  imports ProcessSpec
begin

text \<open>
  Program execution and termination: what \<^verbatim>\<open>execute\<close> does to the process table, that it loads
  and enters the named program, and that \<^verbatim>\<open>halt\<close> undoes it for the parent.
\<close>

section \<open>Steps that only change memory\<close>

lemma mem_only_memcpy [simp]: "mem_only k (memcpy k d s n)"
  by (simp add: mem_only_def memcpy_def)

lemma mem_only_read_data_loop:
  "mem_only k (fst (read_data_loop k n offset i rem cur tot))"
proof (induction k n offset i rem cur tot rule: read_data_loop.induct)
  case (1 k n offset i rem cur tot)
  show ?case
  proof (cases "word_of_int i < inode_length k n \<and> \<not> rem - round_length offset i rem \<le> 0")
    case True
    define k' where "k' = memcpy k cur (round_source k n offset i) (word_of_int (round_length offset i rem))"
    have "mem_only k' (fst (read_data_loop k' n offset (i + 1) (rem - round_length offset i rem)
        (cur + word_of_int (round_length offset i rem)) (tot + round_length offset i rem)))"
      unfolding k'_def by (rule "1.IH") (use True in auto)
    then have "mem_only k (fst (read_data_loop k' n offset (i + 1) (rem - round_length offset i rem)
        (cur + word_of_int (round_length offset i rem)) (tot + round_length offset i rem)))"
      using mem_only_trans [OF mem_only_memcpy] unfolding k'_def by blast
    then show ?thesis
      using True by (subst read_data_loop.simps) (simp add: Let_def k'_def)
  next
    case False
    then show ?thesis by (subst read_data_loop.simps) (auto simp: Let_def)
  qed
qed

lemma mem_only_read_data: "mem_only k (fst (read_data n offset buf count k))"
  by (simp add: read_data_def Let_def mem_only_read_data_loop)

lemma mem_only_read_by_name:
  "filesys_read_by_name f buf count k = Some (k', r) \<Longrightarrow> mem_only k k'"
  unfolding filesys_read_by_name_def
  by (auto simp: bind_eq_Some_conv split: option.splits dest!: sym [of "read_data _ _ _ _ _"])
    (metis fst_conv mem_only_read_data)

lemma mem_only_load_executable:
  "load_executable f dest k = Some (k', r) \<Longrightarrow> mem_only k k'"
  unfolding load_executable_def by (auto simp: bind_eq_Some_conv dest: mem_only_read_by_name)

lemma mem_only_copy_args:
  assumes "copy_args command row i cnt k = Some (k', c)"
  shows "mem_only k k'"
proof -
  have "mem_only k (fst (k', c))"
  proof (rule copy_args.raw_induct [where P = "\<lambda>command row i cnt k r. mem_only k (fst r)", OF _ assms])
    fix f :: "u32 \<Rightarrow> u32 \<Rightarrow> u32 \<Rightarrow> u32 \<Rightarrow> 'a machine_scheme \<Rightarrow> ('a machine_scheme \<times> u32) option"
      and command row i cnt k r
    assume IH: "\<And>row i cnt k b y. f row i cnt k b = Some y \<Longrightarrow> mem_only b (fst y)"
      and "strlen k command \<bind> (\<lambda>len. if i < len
         then f command row (i + 1) (cnt + 1) (stb k (row + cnt) (ldb k (command + i)))
         else Some (k, cnt)) = Some r"
    then consider
        "f command row (i + 1) (cnt + 1) (stb k (row + cnt) (ldb k (command + i))) = Some r" | "fst r = k"
      by (auto simp: bind_eq_Some_conv split: if_splits)
    then show "mem_only k (fst r)"
      using IH mem_only_trans [OF mem_only_stb] by cases fastforce+
  qed
  then show ?thesis by simp
qed

lemma mem_only_proc_sel:
  fixes k k' :: "'a proc_scheme"
  assumes "mem_only k k'"
  shows "process_status k' = process_status k" "total_running_process k' = total_running_process k"
    "current_pid k' = current_pid k" "pcbs k' = pcbs k" "esp k' = esp k" "ebp k' = ebp k"
    "tempBuf k' = tempBuf k" "fname k' = fname k" "arg_buf k' = arg_buf k" "shell_name k' = shell_name k"
    "arg_available k' = arg_available k" "iflag k' = iflag k" "pg k' = pg k"
    "active_terminal k' = active_terminal k" "display_terminal k' = display_terminal k"
  by (subst assms [unfolded mem_only_def], simp)+

lemma mem_only_current_pcb:
  fixes k k' :: "'a proc_scheme"
  shows "mem_only k k' \<Longrightarrow> get_current_pcb k' = get_current_pcb k"
  by (simp add: get_current_pcb_def mem_only_proc_sel)

section \<open>Frames\<close>

text \<open>
  \<open>only_at S k k'\<close>: physical memory differs at most in \<open>S\<close>. \<open>proc_frame k k'\<close>: of the variables, at most the
  process tables, the paging structures, the active terminal and the registers differ.
\<close>

definition bytes_at :: "u32 \<Rightarrow> nat \<Rightarrow> u32 set" where
  "bytes_at a n = (\<lambda>i. a + of_nat i) ` {..<n}"

definition task_cells :: "int \<Rightarrow> u32 set" where
  "task_cells pid = (\<lambda>off. of_nat (0x800000 + nat pid * 0x400000 + off)) ` {..<0x400000}"

definition only_at :: "u32 set \<Rightarrow> 'a machine_scheme \<Rightarrow> 'a machine_scheme \<Rightarrow> bool" where
  "only_at S k k' \<longleftrightarrow> (\<forall>p. p \<notin> S \<longrightarrow> phys k' p = phys k p)"

definition proc_frame :: "'a proc_scheme \<Rightarrow> 'a proc_scheme \<Rightarrow> bool" where
  "proc_frame k k' \<longleftrightarrow> k' = k\<lparr>phys := phys k', pg := pg k', iflag := iflag k', active_terminal := active_terminal k',
     process_status := process_status k', arg_available := arg_available k', current_pid := current_pid k',
     total_running_process := total_running_process k', entry_point := entry_point k', pcbs := pcbs k',
     tss_esp0 := tss_esp0 k', tss_ss0 := tss_ss0 k', esp := esp k', ebp := ebp k'\<rparr>"

lemma bytes_at_mono: "m \<le> n \<Longrightarrow> bytes_at a m \<subseteq> bytes_at a n"
  by (auto simp: bytes_at_def)

lemma only_at_mono: "only_at S k k' \<Longrightarrow> S \<subseteq> T \<Longrightarrow> only_at T k k'"
  by (auto simp: only_at_def)

lemma only_at_trans: "only_at S k k' \<Longrightarrow> only_at S k' k'' \<Longrightarrow> only_at S k k''"
  by (simp add: only_at_def)

lemma only_at_same: "phys k' = phys k \<Longrightarrow> only_at S k k'"
  by (simp add: only_at_def)

lemma only_at_store_bytes:
  assumes "\<And>i. i < length vs \<Longrightarrow> \<exists>p\<in>S. translate k (a + of_nat i) = Some p"
  shows "only_at S k (store_bytes k a vs)"
  unfolding only_at_def
proof (intro allI impI)
  fix p assume p: "p \<notin> S"
  have "store_list (st (translate k)) m a vs p = m p" for m
    using assms
  proof (induction vs arbitrary: m a)
    case (Cons v vs)
    have "\<exists>p\<in>S. translate k (a + 1 + of_nat i) = Some p" if "i < length vs" for i
      using Cons.prems [of "Suc i"] that by (simp add: add.assoc)
    then have "store_list (st (translate k)) (st (translate k) m a v) (a + 1) vs p = st (translate k) m a v p"
      by (rule Cons.IH)
    moreover obtain q where "q \<in> S" "translate k a = Some q" using Cons.prems [of 0] by auto
    moreover have "st (translate k) m a v p = m p" using calculation p by (auto simp: st_def)
    ultimately show ?case by simp
  qed simp
  then show "phys (store_bytes k a vs) p = phys k p" by (simp add: store_bytes_def)
qed

lemma proc_frame_sel:
  assumes "proc_frame k k'"
  shows "io k' = io k" "display_terminal k' = display_terminal k" "screen_x_multi k' = screen_x_multi k"
    "screen_y_multi k' = screen_y_multi k" "screen_x k' = screen_x k" "screen_y k' = screen_y k"
    "file_start k' = file_start k" "num_dir_entry k' = num_dir_entry k" "num_inodes k' = num_inodes k"
    "num_data_blocks k' = num_data_blocks k" "current_dir_read_index k' = current_dir_read_index k"
    "data_block_start k' = data_block_start k" "dir_table k' = dir_table k" "inode_table k' = inode_table k"
    "next_interrupt k' = next_interrupt k" "pressed_key k' = pressed_key k" "keyboard_buffer k' = keyboard_buffer k"
    "print_buffer k' = print_buffer k" "cap_status k' = cap_status k" "cursor_ind k' = cursor_ind k"
    "hold_num k' = hold_num k" "terminal_read_ready k' = terminal_read_ready k"
    "terminal_2_running k' = terminal_2_running k" "terminal_3_running k' = terminal_3_running k"
    "scancodes_map k' = scancodes_map k" "special_convert_map k' = special_convert_map k"
    "arg_buf k' = arg_buf k" "fname k' = fname k" "tempBuf k' = tempBuf k" "shell_name k' = shell_name k"
    "screen_x_before_input k' = screen_x_before_input k" "screen_y_before_input k' = screen_y_before_input k"
    "master_mask k' = master_mask k" "slave_mask k' = slave_mask k" "proc.more k' = proc.more k"
  by (subst assms [unfolded proc_frame_def], simp)+

lemma proc_frame_refl [simp]: "proc_frame k k"
  by (simp add: proc_frame_def)

lemma proc_frame_trans:
  assumes "proc_frame k k'" "proc_frame k' k''"
  shows "proc_frame k k''"
proof (unfold proc_frame_def, rule proc.equality)
qed (use proc_frame_sel [OF assms(1)] proc_frame_sel [OF assms(2)] in simp_all)

section \<open>The process table across execute\<close>

text \<open>
  \<open>entered pid prev t it k k'\<close>: what is different in \<open>k'\<close> when a process \<open>pid\<close> has been entered
  from the process whose block is at \<open>prev\<close>.
\<close>

definition entered :: "int \<Rightarrow> u32 \<Rightarrow> int \<Rightarrow> int \<Rightarrow> 'a proc_scheme \<Rightarrow> 'a proc_scheme \<Rightarrow> bool" where
  "entered pid prev t it k k' \<longleftrightarrow>
     current_pid k' = pid \<and> process_status k' = process_status k \<and>
     total_running_process k' = total_running_process k \<and>
     active_terminal k' = t \<and> display_terminal k' = display_terminal k \<and>
     (let p = pcbs k' (get_kernel_stack_bottom pid) in
        parent p = prev \<and> pcb_terminal p = t \<and> is_terminal p = it \<and>
        parent_esp p = esp k \<and> parent_ebp p = ebp k \<and>
        pcb_pid p = pcb_pid (pcbs k (get_kernel_stack_bottom pid)) \<and>
        child p = child (pcbs k (get_kernel_stack_bottom pid)) \<and>
        file_array p = file_array (pcbs k (get_kernel_stack_bottom pid))) \<and>
     (let p = pcbs k' prev; q = pcbs k prev in
        child p = (if it = 0 then get_kernel_stack_bottom pid else child q) \<and> pcb_pid p = pcb_pid q \<and>
        parent p = parent q \<and> pcb_terminal p = pcb_terminal q \<and> is_terminal p = is_terminal q \<and>
        file_array p = file_array q) \<and>
     (\<forall>a. a \<noteq> prev \<and> a \<noteq> get_kernel_stack_bottom pid \<longrightarrow> pcbs k' a = pcbs k a) \<and>
     tss_esp0 k' = get_kernel_stack_bottom pid + 0x2000 - 8 \<and> esp k' = tss_esp0 k' \<and> iflag k'"

lemma set_active_terminal_proc_sel [simp]:
  fixes k :: "'a proc_scheme"
  shows "process_status (set_active_terminal t k) = process_status k"
    "total_running_process (set_active_terminal t k) = total_running_process k"
    "current_pid (set_active_terminal t k) = current_pid k" "pcbs (set_active_terminal t k) = pcbs k"
    "esp (set_active_terminal t k) = esp k" "ebp (set_active_terminal t k) = ebp k"
    "tempBuf (set_active_terminal t k) = tempBuf k" "fname (set_active_terminal t k) = fname k"
  by (simp_all add: set_active_terminal_def Let_def)

text \<open>The last part of \<^verbatim>\<open>execute\<close>, once the program is in memory.\<close>

definition enter_process :: "int \<Rightarrow> int \<Rightarrow> int \<Rightarrow> 'a proc_scheme \<Rightarrow> 'a proc_scheme outcome" where
  "enter_process pid terminal_num is_term k =
     (let k = k\<lparr>entry_point := ldw k (tempBuf k + 24)\<rparr>;
          pcb = get_kernel_stack_bottom pid;
          prev = get_current_pcb k;
          k = upd_pcb pcb (\<lambda>p. p\<lparr>pcb_terminal := terminal_num, parent := prev, is_terminal := is_term\<rparr>) k;
          k = (if is_term = 0 then upd_pcb (parent (pcbs k pcb)) (child_update (\<lambda>_. pcb)) k else k);
          k = k\<lparr>tss_esp0 := pcb + word_of_int ASSIGNED_PCB_SIZE - MEM_DEFENSE_SIZE\<rparr>;
          k = k\<lparr>tss_ss0 := KERNEL_DS\<rparr>;
          k = upd_pcb pcb (\<lambda>p. p\<lparr>current_esp := tss_esp0 k, current_ebp := tss_esp0 k\<rparr>) k;
          k = k\<lparr>current_pid := pid\<rparr>;
          k = (if prev \<noteq> 0
               then upd_pcb prev (\<lambda>p. p\<lparr>current_esp := esp k, current_ebp := ebp k\<rparr>) k else k);
          k = upd_pcb pcb (\<lambda>p. p\<lparr>parent_esp := esp k, parent_ebp := ebp k\<rparr>) k;
          k = k\<lparr>ebp := tss_esp0 k\<rparr>;
          k = k\<lparr>esp := tss_esp0 k\<rparr>
      in back_to_user_mode (entry_point k) k)"

lemma enter_process_entered:
  fixes k :: "'a proc_scheme"
  assumes "prev = get_current_pcb k" "prev \<noteq> get_kernel_stack_bottom pid" "active_terminal k = t"
  shows "\<exists>k'. enter_process pid t it k = To_user k' (ldw k (tempBuf k + 24)) \<and>
    entered pid prev t it k k' \<and> phys k' = phys k \<and> pg k' = pg k \<and> arg_available k' = arg_available k \<and>
    proc_frame k k'"
proof -
  have cur: "get_current_pcb (k\<lparr>entry_point := e\<rparr>) = prev" for e
    using assms(1) by (simp add: get_current_pcb_def)
  show ?thesis
    using assms(2,3) unfolding enter_process_def Let_def cur
    by (simp add: back_to_user_mode_def entered_def Let_def upd_pcb_def sti_def cli_def
        ASSIGNED_PCB_SIZE_def MEM_DEFENSE_SIZE_def proc_frame_def) auto
qed

lemma execute_in_eq:
  "execute_in pid command i terminal_num is_term k = do {
     i \<leftarrow> scan_until k command (\<lambda>c. c \<noteq> ch CHR '' '') i;
     (k, cnt) \<leftarrow> copy_args command (arg_row k pid) i 0 k;
     let k = stb k (arg_row k pid + cnt) 0;
     alen \<leftarrow> strlen k (arg_row k pid);
     let k = k\<lparr>arg_available := (arg_available k)(pid := (if alen > 0 then 1 else 0))\<rparr>;
     let k = k\<lparr>pg := setup_task_page pid (pg k)\<rparr>;
     let k = set_active_terminal terminal_num k;
     (k, r) \<leftarrow> load_executable (fname k) USER_PROGRAM_ADDR k;
     if r = -1 then Some (Ret k (-1)) else Some (enter_process pid terminal_num is_term k)
   }"
  unfolding execute_in_def enter_process_def Let_def ..

text \<open>\<^verbatim>\<open>halt\<close> in a child process.\<close>

lemma halt_child:
  fixes k :: "'a proc_scheme"
  assumes "total_running_process k \<noteq> 1"
    and p: "pcb = get_current_pcb k" "is_terminal (pcbs k pcb) = 0" "parent (pcbs k pcb) = par" "par \<noteq> pcb"
  shows "\<exists>k'. halt status k = Some (Resume k' (parent_esp (pcbs k pcb)) (parent_ebp (pcbs k pcb))) \<and>
    total_running_process k' = total_running_process k - 1 \<and>
    process_status k' = (process_status k)(pcb_pid (pcbs k pcb) := 0) \<and>
    current_pid k' = pcb_pid (pcbs k par) \<and> pcbs k' = (pcbs k)(par := (pcbs k par)\<lparr>child := 0\<rparr>) \<and>
    pg k' = setup_task_page (pcb_pid (pcbs k par)) (pg k) \<and> phys k' = phys k \<and>
    tss_esp0 k' = par + 0x2000 - 8"
  using assms
  by (simp add: halt_def Let_def upd_pcb_def ASSIGNED_PCB_SIZE_def MEM_DEFENSE_SIZE_def)

text \<open>
  Running a program and halting it: the parent gets back its stack, its page, its place as the
  current process, and the process table as it was.
\<close>

lemma halt_after_entered:
  fixes k :: "'a proc_scheme"
  assumes ent: "entered pid prev t 0 k k'" and cur: "0 \<le> current_pid k0" "current_pid k0 < 8"
    and pid: "0 \<le> pid" "pid < 8" "pid \<noteq> current_pid k0"
    and prev: "prev = get_kernel_stack_bottom (current_pid k0)" "pcb_pid (pcbs k prev) = current_pid k0"
    and own: "pcb_pid (pcbs k (get_kernel_stack_bottom pid)) = pid"
    and k: "process_status k = (process_status k0)(pid := 1)" "process_status k0 pid = 0"
      "total_running_process k = total_running_process k0 + 1" "total_running_process k0 \<noteq> 0"
  shows "\<exists>k''. halt status k' = Some (Resume k'' (esp k) (ebp k)) \<and>
    process_status k'' = process_status k0 \<and> total_running_process k'' = total_running_process k0 \<and>
    current_pid k'' = current_pid k0 \<and> child (pcbs k'' prev) = 0 \<and>
    pg k'' = setup_task_page (current_pid k0) (pg k')"
proof -
  let ?b = "get_kernel_stack_bottom pid"
  have ne: "prev \<noteq> ?b" using stack_bottom_inj [of pid "current_pid k0"] cur pid prev(1) by auto
  have e: "current_pid k' = pid" "process_status k' = process_status k"
    "total_running_process k' = total_running_process k" "parent (pcbs k' ?b) = prev"
    "is_terminal (pcbs k' ?b) = 0" "parent_esp (pcbs k' ?b) = esp k" "parent_ebp (pcbs k' ?b) = ebp k"
    "pcb_pid (pcbs k' ?b) = pid" "pcb_pid (pcbs k' prev) = current_pid k0"
    using ent own prev(2) by (simp_all add: entered_def Let_def)
  have "get_current_pcb k' = ?b" using e(1) pid by (simp add: get_current_pcb_def)
  then show ?thesis
    using halt_child [of k' ?b prev status] e ne k by fastforce
qed

end
