(* ===== verification/Launch.thy ===== *)
theory Launch
  imports Execution
begin

text \<open>
  That \<^verbatim>\<open>execute\<close> succeeds: given a command line that names an executable in a well-formed image
  and a free process slot, it parses the line, loads the program into the page of the new
  process, stores the arguments and enters user mode at the program's entry point.
\<close>

section \<open>Scanning the command line\<close>

lemma scan_until_cstring:
  assumes "cstring (ldb k) command cs" "i \<le> length cs"
  shows "scan_until k command stop (of_nat i) =
    Some (of_nat (i + length (takeWhile (\<lambda>c. \<not> stop c) (drop i cs))))"
  using assms(2)
proof (induction "length cs - i" arbitrary: i)
  case 0
  then show ?case
    by (subst scan_until.simps) (simp add: strlen_cstring [OF assms(1)])
next
  case (Suc m)
  have len: "length cs < 2 ^ 32" by (rule cstringD(1) [OF assms(1)])
  have i: "i < length cs" using Suc.hyps(2) by simp
  then have lt: "(of_nat i :: u32) < of_nat (length cs)"
    using len by (simp add: word_less_nat_alt unat_of_nat_small)
  have ld: "ldb k (command + of_nat i) = cs ! i" by (rule cstringD(4) [OF assms(1) i])
  have dr: "drop i cs = cs ! i # drop (Suc i) cs" using i by (rule Cons_nth_drop_Suc [symmetric])
  have IH: "scan_until k command stop (of_nat (Suc i)) =
      Some (of_nat (Suc i + length (takeWhile (\<lambda>c. \<not> stop c) (drop (Suc i) cs))))"
    by (rule Suc.hyps) (use Suc.hyps(2) i in auto)
  show ?case
    using IH lt by (subst scan_until.simps) (simp add: strlen_cstring [OF assms(1)] ld dr add.commute)
qed

lemma ldb_store_apart:
  assumes "apart (translate k) a (length vs) b n" "i < n"
  shows "ldb (store_bytes k a vs) (b + of_nat i) = ldb k (b + of_nat i)"
  unfolding ldb_def store_bytes_def using assms by (simp add: apart_def mmu.rd_store_list_frame)

lemma cstring_store_apart:
  assumes "cstring (ldb k) s cs" "apart (translate k) a (length vs) s (length cs + 1)"
  shows "cstring (ldb (store_bytes k a vs)) s cs"
  using assms ldb_store_apart [OF assms(2)] by (subst cstring_cong [of _ _ _ "ldb k"]) auto

text \<open>Copying the arguments into their row.\<close>

lemma copy_args_cstring:
  assumes "cstring (ldb k) command cs" "i \<le> length cs"
    and "apart (translate k) (row + of_nat c) (length cs - i) command (length cs + 1)"
  shows "copy_args command row (of_nat i) (of_nat c) k =
    Some (store_bytes k (row + of_nat c) (drop i cs), of_nat (c + (length cs - i)))"
  using assms
proof (induction "length cs - i" arbitrary: i c k)
  case 0
  then show ?case
    by (subst copy_args.simps) (simp add: strlen_cstring [OF 0(2)] store_bytes_def)
next
  case (Suc m)
  have len: "length cs < 2 ^ 32" by (rule cstringD(1) [OF Suc.prems(1)])
  have i: "i < length cs" using Suc.hyps(2) by simp
  then have lt: "(of_nat i :: u32) < of_nat (length cs)"
    using len by (simp add: word_less_nat_alt unat_of_nat_small)
  have ld: "ldb k (command + of_nat i) = cs ! i" by (rule cstringD(4) [OF Suc.prems(1) i])
  have dr: "drop i cs = cs ! i # drop (Suc i) cs" using i by (rule Cons_nth_drop_Suc [symmetric])
  define k' where "k' = stb k (row + of_nat c) (cs ! i)"
  have st: "k' = store_bytes k (row + of_nat c) [cs ! i]"
    by (simp add: k'_def stb_def store_bytes_def)
  have cs': "cstring (ldb k') command cs"
    unfolding st by (rule cstring_store_apart) (use Suc.prems apart_mono [OF Suc.prems(3)] i in auto)
  have ap: "apart (translate k') (row + of_nat (Suc c)) (length cs - Suc i) command (length cs + 1)"
  proof -
    have "apart (translate k) (row + of_nat c + of_nat 1) (length cs - Suc i) (command + of_nat 0) (length cs + 1)"
      by (rule apart_off) (use Suc.prems(3) i in \<open>simp add: Suc_diff_Suc\<close>)
    then show ?thesis by (simp add: k'_def algebra_simps)
  qed
  have IH: "copy_args command row (of_nat (Suc i)) (of_nat (Suc c)) k' =
      Some (store_bytes k' (row + of_nat (Suc c)) (drop (Suc i) cs), of_nat (Suc c + (length cs - Suc i)))"
    by (rule Suc.hyps) (use Suc.hyps(2) i cs' ap in auto)
  have "store_bytes k' (row + of_nat (Suc c)) (drop (Suc i) cs) = store_bytes k (row + of_nat c) (drop i cs)"
    using store_bytes_append [of k "row + of_nat c" "[cs ! i]" "drop (Suc i) cs"] unfolding st dr
    by (simp add: algebra_simps)
  moreover have "Suc c + (length cs - Suc i) = c + (length cs - i)" using i by simp
  ultimately have IH': "copy_args command row (of_nat i + 1) (of_nat c + 1) k' =
      Some (store_bytes k (row + of_nat c) (drop i cs), of_nat (c + (length cs - i)))"
    using IH by (simp add: add.commute)
  show ?case
    using IH' lt by (subst copy_args.simps) (simp add: strlen_cstring [OF Suc.prems(1)] ld flip: k'_def)
qed

section \<open>Kernel memory across a page switch\<close>

text \<open>The kernel's own memory is identity-mapped, whichever process is current.\<close>

lemma ldb_in_kernel:
  assumes "kernel_map v (pg k)" "in_kernel a n" "i < n"
  shows "ldb k (a + of_nat i) = phys k (a + of_nat i)"
  using in_kernel_walk(1) [OF assms] by (simp add: ldb_def ld_def)

lemma kernel_byte:
  fixes k :: "'a machine_scheme"
  assumes "kernel_map v (pg k)" "0x400000 \<le> unat a" "unat a < 0x800000"
  shows "ldb k a = phys k a"
  using ldb_in_kernel [OF assms(1), of a 1 0] assms(2,3) by (simp add: in_kernel_def)

lemma ldb_page_switch:
  assumes "kernel_map v (pg k)" "kernel_map w (pg k')" "phys k' = phys k" "in_kernel a n" "i < n"
  shows "ldb k' (a + of_nat i) = ldb k (a + of_nat i)"
  using ldb_in_kernel [OF assms(1,4,5)] ldb_in_kernel [OF assms(2,4,5)] assms(3) by simp

lemma cstring_page_switch:
  assumes "kernel_map v (pg k)" "kernel_map w (pg k')" "phys k' = phys k" "in_kernel a (length cs + 1)"
    "cstring (ldb k) a cs"
  shows "cstring (ldb k') a cs"
  using assms(5) ldb_page_switch [OF assms(1-4)] by (subst cstring_cong [of _ _ _ "ldb k"]) auto

lemma same_image_trans: "same_image k k' \<Longrightarrow> same_image k' k'' \<Longrightarrow> same_image k k''"
  using same_image_size [of k k'] by (auto simp: same_image_def)

text \<open>The bytes of a process's page lie above the kernel's memory.\<close>

lemma task_page_apart:
  assumes "kernel_map v g" "0 \<le> pid" "pid < 8" "x + len \<le> 0x400000" "in_kernel b m"
    and g': "kernel_map w g'" "\<And>off. off < 2 ^ 22 \<Longrightarrow>
        walk g' (of_nat (0x8000000 + off)) = Some (of_nat (0x800000 + nat pid * 0x400000 + off))"
  shows "apart (walk g') (of_nat (0x8000000 + x)) len b m"
  unfolding apart_def
proof (intro allI impI)
  fix i j assume i: "i < len" and j: "j < m"
  have "(of_nat (0x8000000 + x) :: u32) + of_nat i = of_nat (0x8000000 + (x + i))" by simp
  then have "walk g' (of_nat (0x8000000 + x) + of_nat i) = Some (of_nat (0x800000 + nat pid * 0x400000 + (x + i)))"
    using g'(2) [of "x + i"] i assms(4) by (simp only:) simp
  moreover have "walk g' (b + of_nat j) = Some (b + of_nat j)" "unat (b + of_nat j) < 0x800000"
    using in_kernel_walk [OF g'(1) assms(5) j] assms(5) j by (simp_all add: in_kernel_def)
  moreover have "unat (of_nat (0x800000 + nat pid * 0x400000 + (x + i)) :: u32) = 0x800000 + nat pid * 0x400000 + (x + i)"
    by (rule unat_of_nat_small) (use assms(2-4) i in simp)
  ultimately show "walk g' (of_nat (0x8000000 + x) + of_nat i) \<noteq> walk g' (b + of_nat j)"
    by (metis option.inject not_less trans_le_add1 le_add1)
qed

lemma walk_task_page_active:
  assumes "kernel_map v g" "pid < 1022" "off < 2 ^ 22"
  shows "walk (set_active_terminal_paging t d (setup_task_page (int pid) g)) (of_nat (0x8000000 + off)) =
           Some (of_nat (0x800000 + pid * 0x400000 + off))"
proof -
  let ?g = "setup_task_page (int pid) g"
  have km: "kernel_map v ?g" using assms(1) by (rule kernel_map_setup_task_page)
  let ?g' = "set_active_terminal_paging t d ?g"
  have km': "kernel_map (if d = 0 then word_of_int (int VIDEO_IND + t + 1) else of_nat VIDEO_IND) ?g'"
    using km by (rule kernel_map_set_active_terminal_paging)
  have "page_dir ?g' = page_dir ?g" by (simp add: set_active_terminal_paging_eq Let_def)
  moreover have "pd_size (page_dir ?g 32) = 1"
    by (simp add: setup_task_page_eq USER_SPACE_START_def unused_pde_def)
  moreover have "unat (drop_bit 22 (of_nat (0x8000000 + off) :: u32)) = 32"
  proof -
    have "unat (of_nat (0x8000000 + off) :: u32) = 0x8000000 + off"
      by (rule unat_of_nat_small) (use assms(3) in simp)
    then show ?thesis
      using assms(3) by (simp only: unat_drop_bit_eq) (simp add: drop_bit_eq_div)
  qed
  ultimately have "walk ?g' (of_nat (0x8000000 + off)) = walk ?g (of_nat (0x8000000 + off))"
    using kernel_mapD(2-4) [OF km] kernel_mapD(2-4) [OF km'] by (simp add: walk_def Let_def)
  then show ?thesis using walk_task_page [OF assms] by simp
qed

section \<open>The stages of execute\<close>

text \<open>
  The buffers \<^verbatim>\<open>execute\<close> uses are in the kernel's page and do not overlap each other, the file
  system image, or the command line of \<open>c\<close> bytes with its terminator.
\<close>

definition launch_layout :: "'a proc_scheme \<Rightarrow> u32 \<Rightarrow> nat \<Rightarrow> int \<Rightarrow> bool" where
  "launch_layout k command c pid \<longleftrightarrow>
     in_kernel (file_start k) (image_size k) \<and> in_kernel (fname k) c \<and> in_kernel (tempBuf k) 28 \<and>
     in_kernel (arg_row k pid) c \<and>
     (let ap = apart (translate k) in
        ap (fname k) c command c \<and> ap (fname k) c (file_start k) (image_size k) \<and>
        ap (tempBuf k) 28 command c \<and> ap (tempBuf k) 28 (file_start k) (image_size k) \<and>
        ap (tempBuf k) 28 (fname k) c \<and>
        ap (arg_row k pid) c command c \<and> ap (arg_row k pid) c (file_start k) (image_size k) \<and>
        ap (arg_row k pid) c (fname k) c \<and> ap (arg_row k pid) c (tempBuf k) 28)"

lemma launch_layoutD:
  assumes "launch_layout k command c pid"
  shows "in_kernel (file_start k) (image_size k)" "in_kernel (fname k) c" "in_kernel (tempBuf k) 28"
    "in_kernel (arg_row k pid) c"
    "apart (translate k) (fname k) c command c"
    "apart (translate k) (fname k) c (file_start k) (image_size k)"
    "apart (translate k) (tempBuf k) 28 command c"
    "apart (translate k) (tempBuf k) 28 (file_start k) (image_size k)"
    "apart (translate k) (tempBuf k) 28 (fname k) c"
    "apart (translate k) (arg_row k pid) c command c"
    "apart (translate k) (arg_row k pid) c (file_start k) (image_size k)"
    "apart (translate k) (arg_row k pid) c (fname k) c"
    "apart (translate k) (arg_row k pid) c (tempBuf k) 28"
  using assms by (simp_all add: launch_layout_def Let_def)

lemma cstring_store_bytes:
  assumes "block (translate k) a (length cs + 1)" "0 \<notin> set cs" "length cs < 2 ^ 32"
  shows "cstring (ldb (store_bytes k a (cs @ [0]))) a cs"
  using assms ldb_store_bytes [of k a "cs @ [0]"] unfolding cstring_def
  by (auto simp: nth_append)

text \<open>Storing the name: what the lookup will see.\<close>

lemma launch_name:
  fixes k :: "'a proc_scheme"
  assumes km: "kernel_map v (pg k)" and cs: "cstring (ldb k) command cs"
    and lay: "launch_layout k command (length cs + 1) pid"
    and name: "name = takeWhile (\<lambda>c. c \<noteq> 32) cs"
  defines "k1 \<equiv> store_bytes k (fname k) (name @ [0])"
  shows "scan_until k command (\<lambda>c. c = 32) 0 = Some (of_nat (length name))"
    and "stb (memcpy k (fname k) command (of_nat (length name))) (fname k + of_nat (length name)) 0 = k1"
    and "same_image k k1" "cstring (ldb k1) (fname k) name" "cstring (ldb k1) command cs"
      "load_list ldb k1 (tempBuf k) 28 = load_list ldb k (tempBuf k) 28"
proof -
  note lay = launch_layoutD [OF lay]
  have len: "length name \<le> length cs" unfolding name by (rule length_takeWhile_le)
  have l32: "length cs < 2 ^ 32" by (rule cstringD(1) [OF cs])
  have u: "unat (of_nat (length name) :: u32) = length name"
    using len l32 by (intro unat_of_nat_small) simp
  show "scan_until k command (\<lambda>c. c = 32) 0 = Some (of_nat (length name))"
    using scan_until_cstring [OF cs, of 0 "\<lambda>c. c = 32"] by (simp add: name)
  have "memcpy k (fname k) command (of_nat (length name)) =
      store_bytes k (fname k) (load_list ldb k command (length name))"
    using memcpy_store_bytes [of k "fname k" "of_nat (length name)" command] len u
      apart_mono [OF lay(5), of "length name" "length name"] by simp
  also have "load_list ldb k command (length name) = name"
    using load_list_cstring [OF cs len] takeWhile_eq_take [of "\<lambda>c. c \<noteq> 32" cs] by (simp only: name)
  finally show "stb (memcpy k (fname k) command (of_nat (length name))) (fname k + of_nat (length name)) 0 = k1"
    using stb_store_bytes [of k "fname k" name 0] by (simp add: k1_def)
  show "same_image k k1"
    unfolding k1_def by (rule same_image_store) (rule apart_mono [OF lay(6)], use len in auto)
  have "block (translate k) (fname k) (length name + 1)"
    by (rule block_mono [OF in_kernel_block [OF km lay(2)]]) (use len in simp)
  moreover have "0 \<notin> set name" using cstringD(2) [OF cs] set_takeWhileD unfolding name by fast
  ultimately show "cstring (ldb k1) (fname k) name"
    unfolding k1_def using len l32 by (intro cstring_store_bytes) auto
  show "cstring (ldb k1) command cs"
    unfolding k1_def by (rule cstring_store_apart [OF cs]) (rule apart_mono [OF lay(5)], use len in auto)
  have "apart (translate k) (fname k) (length (name @ [0])) (tempBuf k) 28"
    by (rule apart_mono [OF apart_sym [OF lay(9)]]) (use len in simp_all)
  then show "load_list ldb k1 (tempBuf k) 28 = load_list ldb k (tempBuf k) 28"
    unfolding k1_def by (intro nth_equalityI) (simp_all add: ldb_store_apart)
qed

text \<open>
  \<open>names_file k names cs i n len\<close>: the lookup of the name \<open>cs\<close> finds entry \<open>i\<close>, whose inode \<open>n\<close>
  exists and describes a file of \<open>len\<close> bytes.
\<close>

definition names_file :: "'a filesys_scheme \<Rightarrow> (nat \<Rightarrow> u8 list) \<Rightarrow> u8 list \<Rightarrow> nat \<Rightarrow> u32 \<Rightarrow> nat \<Rightarrow> bool" where
  "names_file k names cs i n len \<longleftrightarrow>
     find (\<lambda>i. take 32 (names i) = take 32 cs) [0..<nat (num_dir_entry k)] = Some i \<and>
     n = inode (copy_dentry k (of_nat i)) \<and> unat n < nat (num_inodes k) \<and>
     len = unat (inode_length k n)"

lemma names_file_index: "names_file k names cs i n len \<Longrightarrow> i < nat (num_dir_entry k)"
  by (auto simp: names_file_def find_Some_iff)

lemma same_image_names_file:
  assumes "fs_ok k" "same_image k k'" "names_file k names cs i n len"
  shows "names_file k' names cs i n len"
proof -
  have n: "unat n < nat (num_inodes k)" using assms(3) unfolding names_file_def by blast
  show ?thesis
    using assms(3) unfolding names_file_def same_image_sel [OF assms(2)]
      same_image_inode(1) [OF assms(1,2) n]
      same_image_copy_dentry [OF assms(1,2) names_file_index [OF assms(3)]] .
qed

lemma read_by_name_eq:
  fixes k :: "'a filesys_scheme"
  assumes ok: "fs_ok k" "entry_names k names" and f: "cstring (ldb k) f cs" "length cs < 2 ^ 31"
    and nfile: "names_file k names cs i n len" "m \<le> len"
    and count: "min (unat count) len = m" "unat count < 2 ^ 31"
    and ap: "apart (translate k) buf m (file_start k) (image_size k)"
  shows "read_dentry_by_name k f = Some (Some (copy_dentry k (of_nat i)))"
    and "filesys_read_by_name f buf count k = Some (store_bytes k buf (file_part k n 0 m), int m)"
proof -
  note nf = nfile(1) [unfolded names_file_def]
  show d: "read_dentry_by_name k f = Some (Some (copy_dentry k (of_nat i)))"
    using read_dentry_by_name_eq [OF ok(2) f] nf by simp
  have "read_data n 0 buf count k =
      (store_bytes k buf (file_part k n (unat (0 :: u32)) (unat (0 :: u32) + m)), int m)"
    by (rule read_data_eq [OF ok(1)]) (use nf count ap in auto)
  then show "filesys_read_by_name f buf count k = Some (store_bytes k buf (file_part k n 0 m), int m)"
    using d nf by (simp add: filesys_read_by_name_def)
qed

text \<open>
  The lookup, the header and the magic number. A file shorter than 28 bytes leaves the rest of
  the header buffer as it was.
\<close>

definition header :: "'a proc_scheme \<Rightarrow> u32 \<Rightarrow> nat \<Rightarrow> u8 list" where
  "header k n len = file_part k n 0 (min 28 len) @ drop (min 28 len) (load_list ldb k (tempBuf k) 28)"

lemma header_full: "28 \<le> len \<Longrightarrow> header k n len = file_part k n 0 28"
  by (simp add: header_def)

lemma length_header [simp]: "length (header k n len) = 28"
  by (simp add: header_def)

lemma launch_header:
  fixes k :: "'a proc_scheme"
  assumes km: "kernel_map v (pg k)" and ok: "fs_ok k" "entry_names k names"
    and lay: "launch_layout k command c pid"
    and k1: "same_image k k1" "pg k1 = pg k" "tempBuf k1 = tempBuf k"
      "cstring (ldb k1) f name" "length name < 2 ^ 31" "load_list ldb k1 (tempBuf k) 28 = load_list ldb k (tempBuf k) 28"
    and nfile: "names_file k names name i n len"
  defines "k2 \<equiv> store_bytes k1 (tempBuf k) (file_part k n 0 (min 28 len))"
  shows "read_dentry_by_name k1 f = Some (Some (copy_dentry k1 (of_nat i)))"
    and "filesys_read_by_name f (tempBuf k) EXEC_INFO_BYTES k1 = Some (k2, int (min 28 len))"
    and "load_list ldb k2 (tempBuf k) 28 = header k n len"
proof -
  let ?m = "min 28 len"
  note lay = launch_layoutD [OF lay]
  have ok1: "fs_ok k1" "entry_names k1 names" "names_file k1 names name i n len"
    using same_image_fs_ok [OF k1(1) ok(1)] same_image_entry_names [OF ok(1) k1(1) ok(2)]
      same_image_names_file [OF ok(1) k1(1) nfile(1)] .
  have ap: "apart (translate k1) (tempBuf k) ?m (file_start k1) (image_size k1)"
    by (rule apart_mono [of _ _ 28 _ "image_size k1"]) (use lay(8) in \<open>simp_all add: k1(2) same_image_sel [OF k1(1)] same_image_size [OF k1(1)]\<close>)
  have fp: "file_part k1 n 0 ?m = file_part k n 0 ?m"
    by (rule same_image_file_part [OF ok(1) k1(1)]) (use nfile in \<open>auto simp: names_file_def\<close>)
  note rd = read_by_name_eq [OF ok1(1,2) k1(4,5) ok1(3), of ?m EXEC_INFO_BYTES "tempBuf k"]
  show "read_dentry_by_name k1 f = Some (Some (copy_dentry k1 (of_nat i)))"
    by (rule rd) (use ap in \<open>simp_all add: EXEC_INFO_BYTES_def\<close>)
  show "filesys_read_by_name f (tempBuf k) EXEC_INFO_BYTES k1 = Some (k2, int ?m)"
    using rd(2) ap fp by (simp add: EXEC_INFO_BYTES_def k2_def)
  have bl: "block (translate k1) (tempBuf k) 28" using in_kernel_block [OF km lay(3)] k1(2) by simp
  show "load_list ldb k2 (tempBuf k) 28 = header k n len"
  proof (rule nth_equalityI)
    fix x assume "x < length (load_list ldb k2 (tempBuf k) 28)"
    then have x: "x < 28" by simp
    show "load_list ldb k2 (tempBuf k) 28 ! x = header k n len ! x"
    proof (cases "x < ?m")
      case True
      then show ?thesis
        using ldb_store_bytes [of k1 "tempBuf k" "file_part k n 0 ?m" x] block_mono [OF bl, of ?m] x
        by (simp add: k2_def header_def nth_append)
    next
      case False
      have "apart (translate k1) (tempBuf k) ?m (tempBuf k + of_nat x) 1"
        unfolding apart_def using block_neq [OF bl, of _ x] False x by auto
      from ldb_store_apart [of k1 "tempBuf k" "file_part k n 0 ?m" "tempBuf k + of_nat x" 1 0] this
      have "ldb k2 (tempBuf k + of_nat x) = ldb k1 (tempBuf k + of_nat x)" by (simp add: k2_def)
      also have "\<dots> = ldb k (tempBuf k + of_nat x)" using arg_cong [OF k1(6), of "\<lambda>l. l ! x"] x by simp
      finally show ?thesis using False x by (simp add: header_def nth_append)
    qed
  qed simp
qed

text \<open>The arguments: what follows the spaces after the name.\<close>

lemma launch_args:
  fixes k :: "'a proc_scheme"
  assumes cs: "cstring (ldb k) command cs" and i: "i \<le> length cs"
    and args: "args = dropWhile (\<lambda>c. c = 32) (drop i cs)"
    and row: "block (translate k) row (length cs + 1)"
    and ap: "apart (translate k) row (length cs + 1) command (length cs + 1)"
  shows "\<exists>j. scan_until k command (\<lambda>c. c \<noteq> 32) (of_nat i) = Some (of_nat j) \<and>
      copy_args command row (of_nat j) 0 k = Some (store_bytes k row args, of_nat (length args))"
    and "stb (store_bytes k row args) (row + of_nat (length args)) 0 = store_bytes k row (args @ [0])"
    and "cstring (ldb (store_bytes k row (args @ [0]))) row args" "length args \<le> length cs"
proof -
  define j where "j = i + length (takeWhile (\<lambda>c. c = 32) (drop i cs))"
  have scan: "scan_until k command (\<lambda>c. c \<noteq> 32) (of_nat i) = Some (of_nat j)"
    using scan_until_cstring [OF cs i, of "\<lambda>c. c \<noteq> 32"] by (simp add: j_def)
  have "length (takeWhile (\<lambda>c. c = 32) (drop i cs)) \<le> length (drop i cs)" by (rule length_takeWhile_le)
  then have j: "j \<le> length cs" using i by (simp add: j_def)
  have dr: "drop j cs = args"
    unfolding args j_def by (simp add: dropWhile_eq_drop add.commute)
  then have len: "length args = length cs - j" by (metis length_drop)
  have "apart (translate k) (row + of_nat 0) (length cs - j) command (length cs + 1)"
    using apart_mono [OF ap, of "length cs - j" "length cs + 1"] by simp
  from copy_args_cstring [OF cs j this]
  have "copy_args command row (of_nat j) 0 k = Some (store_bytes k row args, of_nat (length args))"
    by (simp add: dr len)
  with scan show "\<exists>j. scan_until k command (\<lambda>c. c \<noteq> 32) (of_nat i) = Some (of_nat j) \<and>
      copy_args command row (of_nat j) 0 k = Some (store_bytes k row args, of_nat (length args))"
    by blast
  show "stb (store_bytes k row args) (row + of_nat (length args)) 0 = store_bytes k row (args @ [0])"
    by (rule stb_store_bytes)
  show "length args \<le> length cs" using len by simp
  then show "cstring (ldb (store_bytes k row (args @ [0]))) row args"
    using row cstringD(1,2) [OF cs] in_set_dropD [of 0 j cs] dr
    by (intro cstring_store_bytes) (auto intro: block_mono)
qed

text \<open>Loading into the new process's page, which leaves the kernel's memory alone.\<close>

lemma launch_load:
  fixes k k5 :: "'a proc_scheme"
  assumes km: "kernel_map v (pg k)" and pid: "0 \<le> pid" "pid < 8"
    and ok: "fs_ok k" "entry_names k names" "in_kernel (file_start k) (image_size k)"
    and f: "cstring (ldb k) f name" "length name < 2 ^ 31" "in_kernel f (length name + 1)"
    and nfile: "names_file k names name i n len" "len \<le> 0x3B8000"
    and k5: "phys k5 = phys k" "pg k5 = set_active_terminal_paging t d (setup_task_page pid (pg k))"
      "file_start k5 = file_start k" "num_inodes k5 = num_inodes k" "num_data_blocks k5 = num_data_blocks k"
      "num_dir_entry k5 = num_dir_entry k" "data_block_start k5 = data_block_start k"
      "dir_table k5 = dir_table k" "inode_table k5 = inode_table k"
  defines "k6 \<equiv> store_bytes k5 USER_PROGRAM_ADDR (file_part k n 0 len)"
  shows "load_executable f USER_PROGRAM_ADDR k5 = Some (k6, 0)"
    and "load_list ldb k6 USER_PROGRAM_ADDR len = file_part k n 0 len"
    and "in_kernel b m \<Longrightarrow> j < m \<Longrightarrow> ldb k6 (b + of_nat j) = ldb k (b + of_nat j)"
proof -
  obtain w where w: "kernel_map w (pg k5)"
    using kernel_map_set_active_terminal_paging [OF kernel_map_setup_task_page [OF km]] k5(2) by metis
  have tr: "walk (pg k5) (of_nat (0x8000000 + off)) = Some (of_nat (0x800000 + nat pid * 0x400000 + off))"
    if "off < 2 ^ 22" for off
    using walk_task_page_active [OF km, of "nat pid" off t d] pid that k5(2) by simp
  have img: "same_image k k5"
    using k5 ldb_page_switch [OF km w k5(1) ok(3)] by (simp add: same_image_def)
  have user: "USER_PROGRAM_ADDR = of_nat (0x8000000 + 0x48000)" by (simp add: USER_PROGRAM_ADDR_def)
  have ap: "apart (walk (pg k5)) USER_PROGRAM_ADDR len b m" if "in_kernel b m" for b m
    unfolding user by (rule task_page_apart [OF km pid _ that w tr]) (use nfile(2) in simp)
  have fp: "file_part k5 n 0 len = file_part k n 0 len"
    by (rule same_image_file_part [OF ok(1) img]) (use nfile in \<open>auto simp: names_file_def\<close>)
  have nf: "names_file k5 names name i n len" by (rule same_image_names_file [OF ok(1) img nfile(1)])
  have nf': "find (\<lambda>i. take 32 (names i) = take 32 name) [0..<nat (num_dir_entry k5)] = Some i"
    "n = inode (copy_dentry k5 (of_nat i))" "unat n < nat (num_inodes k5)" "len = unat (inode_length k5 n)"
    using nf unfolding names_file_def by blast+
  show "load_executable f USER_PROGRAM_ADDR k5 = Some (k6, 0)"
    using load_executable_eq [OF same_image_fs_ok [OF img ok(1)] same_image_entry_names [OF ok(1) img ok(2)]
        cstring_page_switch [OF km w k5(1) f(3) f(1)] f(2) nf'(1-3), folded nf'(4), of USER_PROGRAM_ADDR]
      ap [OF ok(3)] by (simp only: k6_def fp same_image_size [OF img] k5(3))
  have "block (walk (pg k5)) USER_PROGRAM_ADDR len"
    unfolding block_def user
  proof (intro conjI allI impI)
    fix x y assume "x < len" "y < len"
      and "walk (pg k5) (of_nat (0x8000000 + 0x48000) + of_nat x) = walk (pg k5) (of_nat (0x8000000 + 0x48000) + of_nat y)"
    then have "(of_nat (0x800000 + nat pid * 0x400000 + (0x48000 + x)) :: u32) =
        of_nat (0x800000 + nat pid * 0x400000 + (0x48000 + y))"
      using tr [of "0x48000 + x"] tr [of "0x48000 + y"] nfile(2) by simp
    then show "x = y"
      using \<open>x < len\<close> \<open>y < len\<close> nfile(2) pid by (subst (asm) of_nat_u32_inj) auto
  next
    fix x assume "x < len"
    then show "walk (pg k5) (of_nat (0x8000000 + 0x48000) + of_nat x) \<noteq> None"
      using tr [of "0x48000 + x"] nfile(2) by simp
  qed
  then show "load_list ldb k6 USER_PROGRAM_ADDR len = file_part k n 0 len"
    using ldb_store_bytes [of k5 USER_PROGRAM_ADDR "file_part k n 0 len"] unfolding k6_def
    by (intro nth_equalityI) simp_all
  show "ldb k6 (b + of_nat j) = ldb k (b + of_nat j)" if "in_kernel b m" "j < m"
    using ldb_store_apart [of k5 USER_PROGRAM_ADDR "file_part k n 0 len" b m j] ap [OF that(1)] that(2)
      ldb_page_switch [OF km w k5(1) that] by (simp add: k6_def)
qed

section \<open>A successful execute\<close>

text \<open>The slot is taken and its control block initialised.\<close>

definition start_slot :: "int \<Rightarrow> 'a proc_scheme \<Rightarrow> 'a proc_scheme" where
  "start_slot pid k = pcb_init pid (k\<lparr>process_status := (process_status k)(pid := 1),
     total_running_process := total_running_process k + 1\<rparr>)"

lemma start_slot_sel [simp]:
  "phys (start_slot pid k) = phys k" "pg (start_slot pid k) = pg k" "fname (start_slot pid k) = fname k"
  "tempBuf (start_slot pid k) = tempBuf k" "arg_row (start_slot pid k) = arg_row k"
  "ldb (start_slot pid k) = ldb k" "active_terminal (start_slot pid k) = active_terminal k"
  "display_terminal (start_slot pid k) = display_terminal k" "current_pid (start_slot pid k) = current_pid k"
  "get_current_pcb (start_slot pid k) = get_current_pcb k" "esp (start_slot pid k) = esp k"
  "ebp (start_slot pid k) = ebp k"
  by (simp_all add: start_slot_def pcb_init_def upd_pcb_def arg_row_def ldb_def fun_eq_iff get_current_pcb_def)

lemma same_image_refl_upd [simp]:
  fixes k :: "'a proc_scheme"
  shows "same_image k (start_slot pid k)" "same_image k (k\<lparr>iflag := b\<rparr>)"
  by (simp_all add: same_image_def ldb_def) (simp_all add: start_slot_def pcb_init_def upd_pcb_def)

lemma proc_frame_start_slot: "proc_frame k (start_slot pid k)"
  by (simp add: start_slot_def pcb_init_def upd_pcb_def proc_frame_def)

lemma proc_frame_cli: "proc_frame k (cli k)"
  by (simp add: cli_def proc_frame_def)

lemma proc_frame_mem_only: "mem_only k k' \<Longrightarrow> proc_frame k k'"
  by (auto simp: proc_frame_def mem_only_def dest: mem_only_proc_sel)

lemma entered_cong:
  assumes "entered pid prev t it k k'"
    and "process_status k0 = process_status k" "total_running_process k0 = total_running_process k"
      "display_terminal k0 = display_terminal k" "pcbs k0 = pcbs k" "esp k0 = esp k" "ebp k0 = ebp k"
  shows "entered pid prev t it k0 k'"
  using assms by (simp add: entered_def)

lemma launch_layout_cong:
  assumes "launch_layout k command c pid" "pg k' = pg k" "fname k' = fname k" "tempBuf k' = tempBuf k"
    "arg_buf k' = arg_buf k" "same_image k k'"
  shows "launch_layout k' command c pid"
  using assms by (simp add: launch_layout_def arg_row_def same_image_sel same_image_size)

lemma only_at_kernel_store:
  assumes "kernel_map v (pg k)" "in_kernel a n" "length vs \<le> n" "bytes_at a n \<subseteq> S"
  shows "only_at S k (store_bytes k a vs)"
proof (rule only_at_store_bytes)
  fix i assume "i < length vs"
  then have "i < n" using assms(3) by simp
  then show "\<exists>p\<in>S. translate k (a + of_nat i) = Some p"
    using in_kernel_walk(1) [OF assms(1,2)] assms(4) by (auto simp: bytes_at_def)
qed

text \<open>From the free slot on.\<close>

lemma execute_in_enters:
  fixes k :: "'a proc_scheme"
  assumes km: "kernel_map v (pg k)" and pid: "0 \<le> pid" "pid < 8"
    and ok: "fs_ok k" "entry_names k names"
    and cs: "cstring (ldb k) command cs" and lay: "launch_layout k command (length cs + 1) pid"
    and f: "cstring (ldb k) (fname k) name" "length name \<le> length cs" "length name < 2 ^ 31"
    and nfile: "names_file k names name i n len" "len \<le> 0x3B8000"
    and args: "args = dropWhile (\<lambda>c. c = 32) (drop (length name) cs)"
    and prev: "get_current_pcb k \<noteq> get_kernel_stack_bottom pid"
  shows "\<exists>k'. execute_in pid command (of_nat (length name)) t it k = Some (To_user k' (ldw k (tempBuf k + 24))) \<and>
    entered pid (get_current_pcb k) t it k k' \<and>
    load_list ldb k' USER_PROGRAM_ADDR len = file_part k n 0 len \<and>
    cstring (ldb k') (arg_row k pid) args \<and> arg_available k' pid = (if args = [] then 0 else 1) \<and>
    proc_frame k k' \<and> pg k' = set_active_terminal_paging t (if t = display_terminal k then 1 else 0) (setup_task_page pid (pg k)) \<and>
    only_at (bytes_at (arg_row k pid) (length cs + 1) \<union> task_cells pid) k k'"
proof -
  define row where "row = arg_row k pid"
  define k4 where "k4 = store_bytes k row (args @ [0])"
  define k4' where "k4' = k4\<lparr>arg_available := (arg_available k4)(pid := (if args = [] then 0 else 1)),
     pg := setup_task_page pid (pg k4)\<rparr>"
  define k5 where "k5 = set_active_terminal t k4'"
  define k6 where "k6 = store_bytes k5 USER_PROGRAM_ADDR (file_part k4 n 0 len)"
  note l = launch_layoutD [OF lay, folded row_def]
  note a = launch_args [OF cs f(2) args in_kernel_block [OF km l(4)] l(10)]
  have img: "same_image k k4"
    unfolding k4_def by (rule same_image_store) (rule apart_mono [OF l(11)], use a(4) in auto)
  have ok4: "fs_ok k4" "entry_names k4 names" "names_file k4 names name i n len"
    using same_image_fs_ok [OF img ok(1)] same_image_entry_names [OF ok(1) img ok(2)]
      same_image_names_file [OF ok(1) img nfile(1)] .
  have pg4: "pg k4 = pg k" by (simp add: k4_def)
  have f4: "cstring (ldb k4) (fname k) name"
    unfolding k4_def by (rule cstring_store_apart [OF f(1)]) (rule apart_mono [OF l(12)], use a(4) f(2) in auto)
  have fk: "in_kernel (fname k) (length name + 1)" using l(2) f(2) by (simp add: in_kernel_def)
  have img4: "in_kernel (file_start k4) (image_size k4)"
    using l(1) by (simp add: same_image_sel [OF img] same_image_size [OF img])
  have k5: "phys k5 = phys k4"
    "pg k5 = set_active_terminal_paging t (if t = display_terminal k4' then 1 else 0) (setup_task_page pid (pg k4))"
    "file_start k5 = file_start k4" "num_inodes k5 = num_inodes k4" "num_data_blocks k5 = num_data_blocks k4"
    "num_dir_entry k5 = num_dir_entry k4" "data_block_start k5 = data_block_start k4"
    "dir_table k5 = dir_table k4" "inode_table k5 = inode_table k4" "fname k5 = fname k" "tempBuf k5 = tempBuf k"
    "active_terminal k5 = t"
    by (simp_all add: k5_def k4'_def k4_def set_active_terminal_def Let_def store_bytes_def)
  note ld = launch_load [OF km [folded pg4] pid ok4(1,2) img4 f4 f(3) fk ok4(3) nfile(2) k5(1-9), folded k6_def]
  have m6: "mem_only k5 k6" by (simp add: k6_def mem_only_def store_bytes_def)
  note s6 = mem_only_proc_sel [OF m6] mem_only_current_pcb [OF m6]
  have cur: "get_current_pcb k6 = get_current_pcb k"
    using s6 by (simp add: k5_def k4'_def k4_def get_current_pcb_def store_bytes_def)
  have "active_terminal k6 = t" using s6 k5 by simp
  from enter_process_entered [OF refl _ this, of pid it] cur prev obtain k' where
    k': "enter_process pid t it k6 = To_user k' (ldw k6 (tempBuf k6 + 24))"
      "entered pid (get_current_pcb k) t it k6 k'" "phys k' = phys k6" "pg k' = pg k6"
      "arg_available k' = arg_available k6" "proc_frame k6 k'"
    by auto
  have ldk': "ldb k' = ldb k6" by (simp add: fun_eq_iff ldb_def k'(3,4))
  have fp: "file_part k4 n 0 len = file_part k n 0 len"
    by (rule same_image_file_part [OF ok(1) img]) (use nfile in \<open>auto simp: names_file_def\<close>)
  have row4: "arg_row (k4 :: 'a proc_scheme) pid = row" "arg_row (store_bytes k a vs) pid = row" for a vs
    by (simp_all add: row_def arg_row_def k4_def store_bytes_def)
  have fn4: "fname k4 = fname k" by (simp add: k4_def store_bytes_def)
  obtain j where j: "scan_until k command (\<lambda>c. c \<noteq> 32) (of_nat (length name)) = Some (of_nat j)"
    "copy_args command row (of_nat j) 0 k = Some (store_bytes k row args, of_nat (length args))"
    using a(1) by blast
  have len: "strlen k4 row = Some (of_nat (length args))"
    unfolding k4_def by (rule strlen_cstring [OF a(3)])
  have pos: "(0 :: u32) < of_nat (length args) \<longleftrightarrow> args \<noteq> []"
    using cstringD(1) [OF a(3)] by (simp add: word_less_nat_alt unat_of_nat_small)
  have ex: "execute_in pid command (of_nat (length name)) t it k = Some (enter_process pid t it k6)"
    using j len ld(1) by (auto simp: execute_in_eq row_def [symmetric] row4 a(2) k4_def [symmetric] pos
        fn4 pg4 k5_def k4'_def)
  have tb: "ldb k6 (tempBuf k + of_nat x) = ldb k (tempBuf k + of_nat x)" if "x < 28" for x
    using ld(3) [OF l(3) that] ldb_store_apart [OF apart_mono [OF l(13)], of "args @ [0]" 28 x] a(4) that
    by (simp add: k4_def)
  have "ldw k6 (tempBuf k + 24) = ldw k (tempBuf k + 24)"
    using tb [of 24] tb [of 25] tb [of 26] tb [of 27] by (simp add: ldw_ldb add.assoc)
  moreover have "cstring (ldb k') row args"
    using a(3) ld(3) [OF l(4)] a(4) unfolding ldk'
    by (subst cstring_cong [of _ _ _ "ldb k4"]) (auto simp: k4_def)
  moreover have "entered pid (get_current_pcb k) t it k k'"
    by (rule entered_cong [OF k'(2)]) (simp_all add: s6 k5_def k4'_def k4_def store_bytes_def set_active_terminal_def Let_def)
  moreover have "arg_available k' pid = (if args = [] then 0 else 1)"
    unfolding k'(5) s6 by (simp add: k5_def k4'_def set_active_terminal_def Let_def)
  moreover have "tempBuf k6 = tempBuf k" using s6 k5 by simp
  moreover have "load_list ldb k' USER_PROGRAM_ADDR len = file_part k n 0 len"
    using ld(2) by (simp add: load_list_def ldk' fp)
  moreover have "proc_frame k k'"
  proof (rule proc_frame_trans [OF _ k'(6)])
    show "proc_frame k k6"
      by (simp add: proc_frame_def k6_def k5_def k4'_def k4_def store_bytes_def set_active_terminal_def Let_def)
  qed
  moreover have "pg k' = set_active_terminal_paging t (if t = display_terminal k then 1 else 0) (setup_task_page pid (pg k))"
    using k5(2) by (simp add: k'(4) k6_def pg4) (simp add: k4'_def k4_def store_bytes_def)
  moreover have "only_at (bytes_at row (length cs + 1) \<union> task_cells pid) k k'"
  proof -
    let ?S = "bytes_at row (length cs + 1) \<union> task_cells pid"
    have "only_at ?S k k4" unfolding k4_def by (rule only_at_kernel_store [OF km l(4)]) (use a(4) in auto)
    moreover have "only_at ?S k4 k5" by (rule only_at_same) (rule k5(1))
    moreover have "only_at ?S k5 k6"
      unfolding k6_def
    proof (rule only_at_store_bytes)
      fix j assume "j < length (file_part k4 n 0 len)"
      then have j: "0x48000 + j < 2 ^ 22" using nfile(2) by simp
      have "USER_PROGRAM_ADDR + of_nat j = of_nat (0x8000000 + (0x48000 + j))" by (simp add: USER_PROGRAM_ADDR_def)
      then have "translate k5 (USER_PROGRAM_ADDR + of_nat j) = Some (of_nat (0x800000 + nat pid * 0x400000 + (0x48000 + j)))"
        using walk_task_page_active [OF km, of "nat pid" "0x48000 + j"] pid j k5(2) pg4 by simp
      moreover have "of_nat (0x800000 + nat pid * 0x400000 + (0x48000 + j)) \<in> task_cells pid"
        unfolding task_cells_def using j by (intro imageI) simp
      ultimately show "\<exists>p\<in>?S. translate k5 (USER_PROGRAM_ADDR + of_nat j) = Some p" by blast
    qed
    moreover have "only_at ?S k6 k'" by (rule only_at_same) (rule k'(3))
    ultimately show ?thesis by (blast intro: only_at_trans)
  qed
  ultimately show ?thesis
    using ex k'(1) by (auto simp: row_def)
qed

text \<open>
  What \<^verbatim>\<open>execute\<close> asks of a command line: its first word names a file of the image that starts
  with the ELF magic number and fits between the load address and the end of the program page.
\<close>

definition runnable ::
  "'a proc_scheme \<Rightarrow> (nat \<Rightarrow> u8 list) \<Rightarrow> u32 \<Rightarrow> u8 list \<Rightarrow> nat \<Rightarrow> u32 \<Rightarrow> nat \<Rightarrow> bool" where
  "runnable k names command cs i n len \<longleftrightarrow>
     fs_ok k \<and> entry_names k names \<and> command \<noteq> 0 \<and> cstring (ldb k) command cs \<and> length cs < 2 ^ 31 \<and>
     names_file k names (takeWhile (\<lambda>c. c \<noteq> 32) cs) i n len \<and> len \<le> 0x3B8000"

definition launchable ::
  "'a proc_scheme \<Rightarrow> (nat \<Rightarrow> u8 list) \<Rightarrow> u32 \<Rightarrow> u8 list \<Rightarrow> nat \<Rightarrow> u32 \<Rightarrow> nat \<Rightarrow> bool" where
  "launchable k names command cs i n len \<longleftrightarrow>
     runnable k names command cs i n len \<and> 28 \<le> len \<and> file_part k n 0 4 = executable_checking"

definition header_entry :: "u8 list \<Rightarrow> u32" where
  "header_entry h = word_of_bytes (h ! 24) (h ! 25) (h ! 26) (h ! 27)"

definition file_entry :: "'a filesys_scheme \<Rightarrow> u32 \<Rightarrow> u32" where
  "file_entry k n = word_of_bytes (file_byte k n 24) (file_byte k n 25) (file_byte k n 26) (file_byte k n 27)"

lemma ldb_cli: "ldb (cli k) = ldb k"
  by (simp add: cli_def ldb_def fun_eq_iff)

lemma empty_pid_from_cong:
  "process_status k' = process_status k \<Longrightarrow> empty_pid_from k' i = empty_pid_from k i"
proof (induction k i rule: empty_pid_from.induct)
  case (1 k i)
  then show ?case by (subst (1 2) empty_pid_from.simps) simp
qed

lemma launch_buffers:
  assumes km: "kernel_map v (pg k)" and "in_kernel (fname k) c" "in_kernel (tempBuf k) 28" "length xs \<le> c" "length ys \<le> 28"
  shows "only_at (bytes_at (fname k) c \<union> bytes_at (tempBuf k) 28) k (store_bytes (store_bytes (cli k) (fname k) xs) (tempBuf k) ys)"
    "only_at (bytes_at (fname k) c \<union> bytes_at (tempBuf k) 28) k (store_bytes (cli k) (fname k) xs)"
proof -
  let ?S = "bytes_at (fname k) c \<union> bytes_at (tempBuf k) 28"
  have km': "kernel_map v (pg (cli k))" using km by (simp add: cli_def)
  show 1: "only_at ?S k (store_bytes (cli k) (fname k) xs)"
    by (rule only_at_trans [OF only_at_same only_at_kernel_store [OF km']]) (use assms in \<open>auto simp: cli_def\<close>)
  show "only_at ?S k (store_bytes (store_bytes (cli k) (fname k) xs) (tempBuf k) ys)"
    by (rule only_at_trans [OF 1 only_at_kernel_store [of v]]) (use assms km' in auto)
qed

text \<open>Up to the free slot.\<close>

lemma execute_starts:
  fixes k :: "'a proc_scheme"
  assumes km: "kernel_map v (pg k)" and la: "runnable k names command cs i n len"
    and magic: "take 4 (header k n len) = executable_checking"
    and lay: "launch_layout k command (length cs + 1) pid" and pid: "pid = get_empty_pid k" "pid \<noteq> -1"
    and name: "name = takeWhile (\<lambda>c. c \<noteq> 32) cs"
  shows "\<exists>k2. execute_with_terminal_num command t it k =
      execute_in pid command (of_nat (length name)) t it (start_slot pid k2) \<and>
    mem_only (cli k) k2 \<and> same_image k k2 \<and> cstring (ldb k2) command cs \<and>
    cstring (ldb k2) (fname k) name \<and> ldw k2 (tempBuf k + 24) = header_entry (header k n len) \<and>
    only_at (bytes_at (fname k) (length cs + 1) \<union> bytes_at (tempBuf k) 28) k k2"
proof -
  define k1 where "k1 = store_bytes (cli k) (fname k) (name @ [0])"
  define k2 where "k2 = store_bytes k1 (tempBuf k) (file_part k n 0 (min 28 len))"
  have L: "fs_ok k" "entry_names k names" "command \<noteq> 0" "cstring (ldb k) command cs" "length cs < 2 ^ 31"
    "names_file k names name i n len"
    using la by (auto simp: runnable_def name)
  have len: "length name \<le> length cs" unfolding name by (rule length_takeWhile_le)
  have cl: "kernel_map v (pg (cli k))" "cstring (ldb (cli k)) command cs"
    "launch_layout (cli k) command (length cs + 1) pid" "fname (cli k) = fname k" "same_image k (cli k)"
    using km L(4) launch_layout_cong [OF lay, of "cli k"] ldb_cli [of k] by (simp_all add: cli_def)
  note n1 = launch_name [OF cl(1-3) name, unfolded cl(4), folded k1_def]
  have img: "same_image k k1" by (rule same_image_trans [OF cl(5) n1(3)])
  have k1: "pg k1 = pg k" "tempBuf k1 = tempBuf k" "fname k1 = fname k" "mem_only (cli k) k1"
    by (simp_all add: k1_def cli_def store_bytes_def mem_only_def)
  have tb0: "tempBuf (cli k) = tempBuf k" by (simp add: cli_def)
  have tb: "load_list ldb k1 (tempBuf k) 28 = load_list ldb k (tempBuf k) 28"
    using n1(6) tb0 by (simp add: ldb_cli load_list_def)
  have nl: "length name < 2 ^ 31" using len L(5) by simp
  note h = launch_header [OF km L(1,2) lay img k1(1,2) n1(4) nl tb L(6), folded k2_def]
  have k2: "mem_only k1 k2" by (simp add: k2_def store_bytes_def mem_only_def)
  have m2: "mem_only (cli k) k2" by (rule mem_only_trans [OF k1(4) k2])
  have s2: "fname k2 = fname k" "tempBuf k2 = tempBuf k" "get_empty_pid k2 = pid"
    using mem_only_proc_sel [OF m2] pid 
    by (simp_all add: cli_def get_empty_pid_def empty_pid_from_cong [of k2 k])
  have ldh: "ldb k2 (tempBuf k + of_nat x) = header k n len ! x" if "x < 28" for x
    using arg_cong [OF h(3), of "\<lambda>l. l ! x"] that by simp
  have magic: "load_list ldb k2 (tempBuf k) 4 = executable_checking"
    unfolding magic [symmetric] using ldh by (intro nth_equalityI) simp_all
  have entry: "ldw k2 (tempBuf k + 24) = header_entry (header k n len)"
    using ldh [of 24] ldh [of 25] ldh [of 26] ldh [of 27] by (simp add: ldw_ldb header_entry_def add.assoc)
  note l = launch_layoutD [OF lay]
  have c2: "cstring (ldb k2) command cs" "cstring (ldb k2) (fname k) name"
    unfolding k2_def using n1(4,5) l(7,9) k1(1) len
    by (auto intro!: cstring_store_apart intro: apart_mono)
  have img2: "same_image k k2"
    unfolding k2_def by (rule same_image_trans [OF img same_image_store], rule apart_mono [of _ _ 28 _ "image_size k1"])
      (use l(8) k1(1) in \<open>simp_all add: same_image_sel [OF img] same_image_size [OF img]\<close>)
  have "fname (memcpy (cli k) (fname k) command (of_nat (length name))) = fname k"
    by (simp add: memcpy_def cli_def)
  then have "execute_with_terminal_num command t it k =
      execute_in pid command (of_nat (length name)) t it (start_slot pid k2)"
    using L(3) n1(1,2) h(1,2) magic s2 pid(2) k1(2,3)
    by (simp add: execute_with_terminal_num_def start_slot_def Let_def cl(4))
  moreover have "only_at (bytes_at (fname k) (length cs + 1) \<union> bytes_at (tempBuf k) 28) k k2"
    unfolding k2_def k1_def by (rule launch_buffers(1) [OF km l(2,3)]) (use len in simp_all)
  ultimately show ?thesis using m2 img2 c2 entry by blast
qed

text \<open>The whole of \<^verbatim>\<open>execute\<close>. The memory it may change: its buffers and the page of the new process.\<close>

definition launch_cells :: "'a proc_scheme \<Rightarrow> int \<Rightarrow> nat \<Rightarrow> u32 set" where
  "launch_cells k pid c = bytes_at (fname k) c \<union> bytes_at (tempBuf k) 28 \<union> bytes_at (arg_row k pid) c \<union> task_cells pid"

lemma execute_enters_any:
  fixes k :: "'a proc_scheme"
  assumes km: "kernel_map v (pg k)" and la: "runnable k names command cs i n len"
    and magic: "take 4 (header k n len) = executable_checking"
    and lay: "launch_layout k command (length cs + 1) pid" and pid: "pid = get_empty_pid k" "pid \<noteq> -1"
    and prev: "get_current_pcb k \<noteq> get_kernel_stack_bottom pid"
    and args: "args = dropWhile (\<lambda>c. c = 32) (dropWhile (\<lambda>c. c \<noteq> 32) cs)"
  shows "\<exists>k'. execute_with_terminal_num command t it k = Some (To_user k' (header_entry (header k n len))) \<and>
    entered pid (get_current_pcb k) t it (start_slot pid k) k' \<and>
    load_list ldb k' USER_PROGRAM_ADDR len = file_part k n 0 len \<and>
    cstring (ldb k') (arg_row k pid) args \<and> arg_available k' pid = (if args = [] then 0 else 1) \<and>
    proc_frame k k' \<and> pg k' = set_active_terminal_paging t (if t = display_terminal k then 1 else 0) (setup_task_page pid (pg k)) \<and>
    only_at (launch_cells k pid (length cs + 1)) k k'"
proof -
  define name where "name = takeWhile (\<lambda>c. c \<noteq> 32) cs"
  obtain k2 where k2: "execute_with_terminal_num command t it k =
      execute_in pid command (of_nat (length name)) t it (start_slot pid k2)"
    "mem_only (cli k) k2" "same_image k k2" "cstring (ldb k2) command cs"
    "cstring (ldb k2) (fname k) name" "ldw k2 (tempBuf k + 24) = header_entry (header k n len)"
    "only_at (bytes_at (fname k) (length cs + 1) \<union> bytes_at (tempBuf k) 28) k k2"
    using execute_starts [OF km la magic lay pid name_def] by blast
  define k3 where "k3 = start_slot pid k2"
  have L: "fs_ok k" "entry_names k names" "length cs < 2 ^ 31"
    "names_file k names name i n len" "len \<le> 0x3B8000"
    using la by (auto simp: runnable_def name_def)
  have len: "length name \<le> length cs" unfolding name_def by (rule length_takeWhile_le)
  have img: "same_image k k3" unfolding k3_def by (rule same_image_trans [OF k2(3)]) simp
  have p: "0 \<le> pid" "pid < 8" using get_empty_pid_Some [of k] pid by auto
  note s = mem_only_proc_sel [OF k2(2)] mem_only_current_pcb [OF k2(2)]
  have s3: "pg k3 = pg k" "fname k3 = fname k" "tempBuf k3 = tempBuf k" "arg_row k3 = arg_row k"
    "get_current_pcb k3 = get_current_pcb k" "ldw k3 = ldw k2" "ldb k3 = ldb k2" "arg_buf k3 = arg_buf k"
    using s by (simp_all add: k3_def cli_def arg_row_def fun_eq_iff get_current_pcb_def ldw_ldb)
      (simp add: start_slot_def pcb_init_def upd_pcb_def)
  have ok: "fs_ok k3" "entry_names k3 names" "names_file k3 names name i n len"
    "file_part k3 n 0 len = file_part k n 0 len"
    using same_image_fs_ok [OF img L(1)] same_image_entry_names [OF L(1) img L(2)]
      same_image_names_file [OF L(1) img L(4)] same_image_file_part [OF L(1) img, of n len 0] L(4)
    by (auto simp: names_file_def)
  have lay3: "launch_layout k3 command (length cs + 1) pid"
    by (rule launch_layout_cong [OF lay]) (simp_all add: s3 img)
  have args': "args = dropWhile (\<lambda>c. c = 32) (drop (length name) cs)"
    by (simp add: args name_def dropWhile_eq_drop)
  have "\<exists>k'. execute_in pid command (of_nat (length name)) t it k3 = Some (To_user k' (ldw k3 (tempBuf k3 + 24))) \<and>
    entered pid (get_current_pcb k3) t it k3 k' \<and>
    load_list ldb k' USER_PROGRAM_ADDR len = file_part k3 n 0 len \<and>
    cstring (ldb k') (arg_row k3 pid) args \<and> arg_available k' pid = (if args = [] then 0 else 1) \<and>
    proc_frame k3 k' \<and> pg k' = set_active_terminal_paging t (if t = display_terminal k3 then 1 else 0) (setup_task_page pid (pg k3)) \<and>
    only_at (bytes_at (arg_row k3 pid) (length cs + 1) \<union> task_cells pid) k3 k'"
    by (rule execute_in_enters [OF _ p ok(1,2) _ lay3 _ len _ ok(3) L(5) args'])
      (use km k2 s3 prev len L(3) in auto)
  then obtain k' where k': "execute_in pid command (of_nat (length name)) t it k3 = Some (To_user k' (header_entry (header k n len)))"
    "entered pid (get_current_pcb k) t it k3 k'" "load_list ldb k' USER_PROGRAM_ADDR len = file_part k n 0 len"
    "cstring (ldb k') (arg_row k pid) args" "arg_available k' pid = (if args = [] then 0 else 1)"
    "proc_frame k3 k'" "pg k' = set_active_terminal_paging t (if t = display_terminal k3 then 1 else 0) (setup_task_page pid (pg k))"
    "only_at (bytes_at (arg_row k pid) (length cs + 1) \<union> task_cells pid) k3 k'"
    unfolding s3 ok(4) k2(6) by blast
  have "entered pid (get_current_pcb k) t it (start_slot pid k) k'"
    by (rule entered_cong [OF k'(2)])
      (use s in \<open>simp_all add: k3_def start_slot_def pcb_init_def upd_pcb_def cli_def\<close>)
  moreover have "proc_frame k k'"
    using proc_frame_trans [OF proc_frame_trans [OF proc_frame_cli proc_frame_mem_only [OF k2(2)]]]
      proc_frame_trans [OF proc_frame_start_slot k'(6) [unfolded k3_def]] by blast
  moreover have "display_terminal k3 = display_terminal k" by (simp add: k3_def s cli_def)
  moreover have "only_at (launch_cells k pid (length cs + 1)) k k'"
  proof -
    have "only_at (launch_cells k pid (length cs + 1)) k k2" "only_at (launch_cells k pid (length cs + 1)) k3 k'"
      by (rule only_at_mono [OF k2(7)], auto simp: launch_cells_def) (rule only_at_mono [OF k'(8)], auto simp: launch_cells_def)
    moreover have "only_at (launch_cells k pid (length cs + 1)) k2 k3" by (rule only_at_same) (simp add: k3_def)
    ultimately show ?thesis by (blast intro: only_at_trans)
  qed
  ultimately show ?thesis using k' k2(1) unfolding k3_def by (intro exI [of _ k']) simp
qed

lemma execute_enters:
  fixes k :: "'a proc_scheme"
  assumes km: "kernel_map v (pg k)" and la: "launchable k names command cs i n len"
    and lay: "launch_layout k command (length cs + 1) pid" and pid: "pid = get_empty_pid k" "pid \<noteq> -1"
    and prev: "get_current_pcb k \<noteq> get_kernel_stack_bottom pid"
    and args: "args = dropWhile (\<lambda>c. c = 32) (dropWhile (\<lambda>c. c \<noteq> 32) cs)"
  shows "\<exists>k'. execute_with_terminal_num command t it k = Some (To_user k' (file_entry k n)) \<and>
    entered pid (get_current_pcb k) t it (start_slot pid k) k' \<and>
    load_list ldb k' USER_PROGRAM_ADDR len = file_part k n 0 len \<and>
    cstring (ldb k') (arg_row k pid) args \<and> arg_available k' pid = (if args = [] then 0 else 1) \<and>
    proc_frame k k' \<and> pg k' = set_active_terminal_paging t (if t = display_terminal k then 1 else 0) (setup_task_page pid (pg k)) \<and>
    only_at (launch_cells k pid (length cs + 1)) k k'"
proof -
  have l: "runnable k names command cs i n len" "header k n len = file_part k n 0 28" "file_part k n 0 4 = executable_checking"
    using la by (simp_all add: launchable_def header_full)
  have "take 4 (header k n len) = executable_checking"
    unfolding l(2) l(3) [symmetric] by (simp add: file_part_def take_map take_upt del: upt_rec)
  moreover have "header_entry (header k n len) = file_entry k n"
    unfolding l(2) by (simp add: header_entry_def file_entry_def file_part_def)
  ultimately show ?thesis
    using execute_enters_any [OF km l(1) _ lay pid prev args, of t it] by (simp only:)
qed

text \<open>
  The commands \<^verbatim>\<open>execute\<close> refuses: no file of that name, a file that is not an executable, or no
  free process slot. Only the kernel's buffers change.
\<close>

lemma execute_refused:
  fixes k :: "'a proc_scheme"
  assumes km: "kernel_map v (pg k)" and ok: "fs_ok k" "entry_names k names"
    and cs: "command \<noteq> 0" "cstring (ldb k) command cs" "length cs < 2 ^ 31"
    and lay: "launch_layout k command (length cs + 1) pid" and name: "name = takeWhile (\<lambda>c. c \<noteq> 32) cs"
    and bad: "(\<forall>i<nat (num_dir_entry k). take 32 (names i) \<noteq> take 32 name) \<or>
      (\<exists>i n len. names_file k names name i n len \<and>
         (take 4 (header k n len) \<noteq> executable_checking \<or> get_empty_pid k = -1))"
  shows "\<exists>k'. execute_with_terminal_num command t it k = Some (Ret k' (-1)) \<and> mem_only (cli k) k' \<and>
    only_at (bytes_at (fname k) (length cs + 1) \<union> bytes_at (tempBuf k) 28) k k'"
proof -
  define k1 where "k1 = store_bytes (cli k) (fname k) (name @ [0])"
  have len: "length name \<le> length cs" unfolding name by (rule length_takeWhile_le)
  have cl: "kernel_map v (pg (cli k))" "cstring (ldb (cli k)) command cs"
    "launch_layout (cli k) command (length cs + 1) pid" "fname (cli k) = fname k" "same_image k (cli k)"
    using km cs(2) launch_layout_cong [OF lay, of "cli k"] ldb_cli [of k] by (simp_all add: cli_def)
  note n1 = launch_name [OF cl(1-3) name, unfolded cl(4), folded k1_def]
  have img: "same_image k k1" by (rule same_image_trans [OF cl(5) n1(3)])
  have k1: "pg k1 = pg k" "tempBuf k1 = tempBuf k" "fname k1 = fname k" "mem_only (cli k) k1"
    by (simp_all add: k1_def cli_def store_bytes_def mem_only_def)
  have tb0: "tempBuf (cli k) = tempBuf k" by (simp add: cli_def)
  have tb: "load_list ldb k1 (tempBuf k) 28 = load_list ldb k (tempBuf k) 28"
    using n1(6) tb0 by (simp add: ldb_cli load_list_def)
  have nl: "length name < 2 ^ 31" using len cs(3) by simp
  have f: "fname (memcpy (cli k) (fname k) command (of_nat (length name))) = fname k"
    by (simp add: memcpy_def cli_def)
  note l = launch_layoutD [OF lay]
  have b: "length (name @ [0 :: u8]) \<le> length cs + 1" using len by simp
  have at1: "only_at (bytes_at (fname k) (length cs + 1) \<union> bytes_at (tempBuf k) 28) k k1"
    unfolding k1_def by (rule launch_buffers(2) [OF km l(2,3) b, of "[]"]) simp
  consider (missing) "\<forall>i<nat (num_dir_entry k). take 32 (names i) \<noteq> take 32 name"
    | (refused) i n l where "names_file k names name i n l"
        "take 4 (header k n l) \<noteq> executable_checking \<or> get_empty_pid k = -1" using bad by blast
  then show ?thesis
  proof cases
    case missing
    then have "find (\<lambda>i. take 32 (names i) = take 32 name) [0..<nat (num_dir_entry k1)] = None"
      by (simp add: find_None_iff same_image_sel [OF img])
    then have "read_dentry_by_name k1 (fname k) = Some None"
      using read_dentry_by_name_eq [OF same_image_entry_names [OF ok(1) img ok(2)] n1(4) nl] by simp
    then show ?thesis
      using cs(1) n1(1,2) f k1 at1 by (simp add: execute_with_terminal_num_def Let_def cl(4))
  next
    case (refused i n l)
    define k2 where "k2 = store_bytes k1 (tempBuf k) (file_part k n 0 (min 28 l))"
    note h = launch_header [OF km ok lay img k1(1,2) n1(4) nl tb refused(1), folded k2_def]
    have m2: "mem_only (cli k) k2"
      by (rule mem_only_trans [OF k1(4)]) (simp add: k2_def store_bytes_def mem_only_def)
    have at2: "only_at (bytes_at (fname k) (length cs + 1) \<union> bytes_at (tempBuf k) 28) k k2"
      unfolding k2_def k1_def by (rule launch_buffers(1) [OF km l(2,3) b]) simp
    have s2: "fname k2 = fname k" "tempBuf k2 = tempBuf k" "get_empty_pid k2 = get_empty_pid k"
      using mem_only_proc_sel [OF m2] by (simp_all add: cli_def get_empty_pid_def empty_pid_from_cong [of k2 k])
    have "ldb k2 (tempBuf k + of_nat x) = header k n l ! x" if "x < 28" for x
      using arg_cong [OF h(3), of "\<lambda>l. l ! x"] that by simp
    then have magic: "load_list ldb k2 (tempBuf k) 4 = take 4 (header k n l)"
      by (intro nth_equalityI) simp_all
    then show ?thesis
      using cs(1) n1(1,2) h(1,2) s2 f k1(2,3) m2 at2 refused(2)
      by (auto simp: execute_with_terminal_num_def Let_def cl(4))
  qed
qed

text \<open>
  C27: \<^verbatim>\<open>execute\<close> returns -1 for a command that names no file, for a
  file whose first four bytes are not the ELF magic number, and when no process slot is free;
  only the two name and header buffers of the kernel and the interrupt flag have then changed.
\<close>

lemma execute_rejects:
  fixes k :: "'a proc_scheme"
  assumes km: "kernel_map v (pg k)" and ok: "fs_ok k" "entry_names k names"
    and cs: "command \<noteq> 0" "cstring (ldb k) command cs" "length cs < 2 ^ 31"
    and lay: "launch_layout k command (length cs + 1) pid" and name: "name = takeWhile (\<lambda>c. c \<noteq> 32) cs"
    and bad: "(\<forall>i<nat (num_dir_entry k). take 32 (names i) \<noteq> take 32 name) \<or>
      (\<exists>i n len. names_file k names name i n len \<and> 28 \<le> len \<and>
         (file_part k n 0 4 \<noteq> executable_checking \<or> get_empty_pid k = -1))"
  shows "\<exists>k'. execute_with_terminal_num command t it k = Some (Ret k' (-1)) \<and> mem_only (cli k) k' \<and>
    only_at (bytes_at (fname k) (length cs + 1) \<union> bytes_at (tempBuf k) 28) k k'"
proof -
  have "take 4 (header k n len) = file_part k n 0 4" if "28 \<le> len" for n len
    unfolding header_full [OF that] by (simp add: file_part_def take_map take_upt del: upt_rec)
  then show ?thesis
    using bad by (intro execute_refused [OF km ok cs lay name]) metis
qed

text \<open>Running a program to its end gives the caller back what it had.\<close>

lemma start_slot_tables:
  "process_status (start_slot pid k) = (process_status k)(pid := 1)"
  "total_running_process (start_slot pid k) = total_running_process k + 1"
  "a \<noteq> get_kernel_stack_bottom pid \<Longrightarrow> pcbs (start_slot pid k) a = pcbs k a"
  "pcb_pid (pcbs (start_slot pid k) (get_kernel_stack_bottom pid)) = pid"
  by (simp_all add: start_slot_def pcb_init_eq upd_pcb_def fresh_pcb_def)

lemma execute_then_halt:
  fixes k :: "'a proc_scheme"
  assumes km: "kernel_map v (pg k)" and la: "launchable k names command cs i n len"
    and lay: "launch_layout k command (length cs + 1) (get_empty_pid k)"
    and pid: "get_empty_pid k \<noteq> -1"
    and cur: "1 \<le> current_pid k" "current_pid k < 8" "process_status k (current_pid k) \<noteq> 0"
      "pcb_pid (pcbs k (get_current_pcb k)) = current_pid k"
    and tot: "total_running_process k \<noteq> 0"
  shows "\<exists>k' k''. execute command k = Some (To_user k' (file_entry k n)) \<and>
    halt status k' = Some (Resume k'' (esp k) (ebp k)) \<and>
    process_status k'' = process_status k \<and> total_running_process k'' = total_running_process k \<and>
    current_pid k'' = current_pid k \<and> child (pcbs k'' (get_current_pcb k)) = 0 \<and>
    pg k'' = setup_task_page (current_pid k) (pg k')"
proof -
  let ?p = "get_empty_pid k" and ?c = "get_current_pcb k"
  note p = get_empty_pid_Some [OF pid]
  have c: "?c = get_kernel_stack_bottom (current_pid k)" using cur by (simp add: get_current_pcb_def)
  have ne: "?p \<noteq> current_pid k" using p(3) cur(3) by auto
  have "?c \<noteq> get_kernel_stack_bottom ?p"
    unfolding c using stack_bottom_inj [of "current_pid k" ?p] ne p(1,2) cur(1,2) by auto
  from execute_enters [OF km la lay refl pid this refl] obtain k' where
    k': "execute command k = Some (To_user k' (file_entry k n))"
      "entered ?p ?c (pcb_terminal (pcbs k ?c)) 0 (start_slot ?p k) k'"
    unfolding execute_def by blast
  have "\<exists>k''. halt status k' = Some (Resume k'' (esp (start_slot ?p k)) (ebp (start_slot ?p k))) \<and>
    process_status k'' = process_status k \<and> total_running_process k'' = total_running_process k \<and>
    current_pid k'' = current_pid k \<and> child (pcbs k'' ?c) = 0 \<and>
    pg k'' = setup_task_page (current_pid k) (pg k')"
    by (rule halt_after_entered [OF k'(2)])
      (use cur p ne tot c \<open>?c \<noteq> get_kernel_stack_bottom ?p\<close> in \<open>simp_all add: start_slot_tables\<close>)
  then show ?thesis using k'(1) by auto
qed

end
