(* ===== verification/Pit.thy ===== *)
theory Pit
  imports Launch
begin

text \<open>
  \<^verbatim>\<open>student-distrib/pit.c\<close>: the timer and the scheduler. Every tick the handler looks for the next
  running process without a child, in cyclic order of the process ids, and switches to it.
\<close>

section \<open>The timer and its handler\<close>

definition lowbit_shift :: nat where "lowbit_shift = 8"
definition lowbit_mask :: int where "lowbit_mask = 0xFF"
definition PIT_BASE_FREQ :: int where "PIT_BASE_FREQ = 1193180"
definition DESIRED_FREQ :: int where "DESIRED_FREQ = 30"
definition PIT_COMMAND_BYTE :: u8 where "PIT_COMMAND_BYTE = 0x36"
definition PIT_COMMAND_PORT :: u16 where "PIT_COMMAND_PORT = 0x43"
definition PIT_0_PORT :: u16 where "PIT_0_PORT = 0x40"
definition PIT_IRQ_NUM :: nat where "PIT_IRQ_NUM = 0"

definition pit_init :: "device \<Rightarrow> 'a pic_scheme \<Rightarrow> 'a pic_scheme" where
  "pit_init dev k =
     (let k = cli k;
          divisor = PIT_BASE_FREQ sdiv DESIRED_FREQ;
          k = outb PIT_COMMAND_BYTE PIT_COMMAND_PORT k;
          k = outb (word_of_int (divisor AND lowbit_mask)) PIT_0_PORT k;
          k = outb (word_of_int (drop_bit lowbit_shift divisor)) PIT_0_PORT k;
          k = enable_irq dev PIT_IRQ_NUM k
      in sti k)"

definition next_pid :: "int \<Rightarrow> int" where
  "next_pid pid = (pid + 1) smod MAX_PID"

text \<open>
  The search loop: it leaves at a running process without a child or back at the current one.
  The local \<^verbatim>\<open>pcb\<close> is used after the loop only in the first case, where it is the block of \<open>i\<close>.
\<close>

partial_function (option) find_next :: "'a proc_scheme \<Rightarrow> int \<Rightarrow> int option" where
  "find_next k i =
     (if i = pcb_pid (pcbs k (get_current_pcb k)) then Some i
      else if is_running k i = 0 then find_next k (next_pid i)
      else if child (pcbs k (get_kernel_stack_bottom i)) = 0 then Some i
      else find_next k (next_pid i))"

text \<open>The switch to process \<open>i\<close>, up to the two instructions that leave through its stack.\<close>

definition switch_to :: "int \<Rightarrow> 'a proc_scheme \<Rightarrow> 'a proc_scheme" where
  "switch_to i k =
     (let pcb = get_kernel_stack_bottom i;
          prev_pcb = get_current_pcb k;
          k = k\<lparr>pg := setup_task_page i (pg k)\<rparr>;
          k = k\<lparr>tss_ss0 := KERNEL_DS\<rparr>;
          k = k\<lparr>tss_esp0 := get_kernel_stack_bottom i + word_of_int ASSIGNED_PCB_SIZE - MEM_DEFENSE_SIZE\<rparr>;
          k = set_current_pid i k;
          k = set_active_terminal (pcb_terminal (pcbs k pcb)) k;
          k = upd_pcb prev_pcb (\<lambda>p. p\<lparr>current_esp := esp k\<rparr>) k;
          k = upd_pcb prev_pcb (\<lambda>p. p\<lparr>current_ebp := ebp k\<rparr>) k;
          k = k\<lparr>esp := current_esp (pcbs k pcb)\<rparr>
      in k\<lparr>ebp := current_ebp (pcbs k pcb)\<rparr>)"

definition pit_handler :: "'a proc_scheme \<Rightarrow> 'a proc_scheme outcome option" where
  "pit_handler k =
     (let k = cli k;
          k = send_eoi PIT_IRQ_NUM k
      in if get_running_process_num k = 0 then Some (Ret k 0)
         else do {
           let cur = pcb_pid (pcbs k (get_current_pcb k));
           i \<leftarrow> find_next k (next_pid cur);
           if i \<noteq> cur
           then let k = switch_to i k in Some (Resume k (esp k) (ebp k))
           else Some (Ret k 0)
         })"

text \<open>The assembly wrapper enables interrupts again when the handler returns to it.\<close>

definition pit_handler_wrapper :: "'a proc_scheme \<Rightarrow> 'a proc_scheme outcome option" where
  "pit_handler_wrapper k =
     map_option (\<lambda>r. case r of Ret k v \<Rightarrow> Ret (sti k) v | _ \<Rightarrow> r) (pit_handler k)"

section \<open>The search\<close>

text \<open>A process the scheduler may pick: it runs and no program it started is running.\<close>

definition ready :: "'a proc_scheme \<Rightarrow> int \<Rightarrow> bool" where
  "ready k i \<longleftrightarrow> 0 < i \<and> i < 8 \<and> process_status k i \<noteq> 0 \<and> child (pcbs k (get_kernel_stack_bottom i)) = 0"

lemma next_pid_eq: "0 \<le> p \<Longrightarrow> next_pid p = (p + 1) mod 8"
  by (simp add: next_pid_def MAX_PID_def smod_int_range signed_modulo_int_def)

lemma cyclic_neq: "0 \<le> c \<Longrightarrow> c < 8 \<Longrightarrow> 1 \<le> s \<Longrightarrow> s < 8 \<Longrightarrow> (c + s) mod 8 \<noteq> (c :: int)"
  by presburger

lemma cyclic_distance:
  "0 \<le> c \<Longrightarrow> c < 8 \<Longrightarrow> 0 \<le> j \<Longrightarrow> j < 8 \<Longrightarrow> j \<noteq> c \<Longrightarrow>
    1 \<le> (j - c) mod 8 \<and> (j - c) mod 8 < 8 \<and> (c + (j - c) mod 8) mod 8 = (j :: int)"
  by (auto simp: mod_simps) presburger

lemma find_next_eq:
  assumes cur: "pcb_pid (pcbs k (get_current_pcb k)) = c" "0 \<le> c" "c < 8" and s: "1 \<le> s" "s \<le> 8"
  shows "\<exists>m. s \<le> m \<and> m \<le> 8 \<and> find_next k ((c + s) mod 8) = Some ((c + m) mod 8) \<and>
    (\<forall>x. s \<le> x \<and> x < m \<longrightarrow> \<not> ready k ((c + x) mod 8)) \<and> (m = 8 \<or> ready k ((c + m) mod 8))"
  using s
proof (induction "nat (8 - s)" arbitrary: s)
  case 0
  then have "s = 8" by simp
  then show ?case using cur by (intro exI [of _ 8]) (subst find_next.simps, auto)
next
  case (Suc n)
  let ?i = "(c + s) mod 8"
  have s: "s < 8" using Suc.hyps(2) by simp
  have ne: "?i \<noteq> c" using cur(2,3) Suc.prems s by (intro cyclic_neq) auto
  have nx: "next_pid ?i = (c + (s + 1)) mod 8"
    by (subst next_pid_eq) (simp_all add: mod_simps algebra_simps)
  have run: "is_running k ?i = 0 \<or> child (pcbs k (get_kernel_stack_bottom ?i)) \<noteq> 0 \<longleftrightarrow> \<not> ready k ?i"
    by (auto simp: ready_def is_running_def order_less_le signed_eq_0_iff)
  show ?case
  proof (cases "ready k ?i")
    case True
    then show ?thesis
      using run ne cur(1) Suc.prems s by (intro exI [of _ s]) (subst find_next.simps, auto)
  next
    case False
    have "n = nat (8 - (s + 1))" using Suc.hyps(2) by simp
    then obtain m where m: "s + 1 \<le> m" "m \<le> 8" "find_next k ((c + (s + 1)) mod 8) = Some ((c + m) mod 8)"
      "\<forall>x. s + 1 \<le> x \<and> x < m \<longrightarrow> \<not> ready k ((c + x) mod 8)" "m = 8 \<or> ready k ((c + m) mod 8)"
      using Suc.hyps(1) [of "s + 1"] Suc.prems s by auto
    have "find_next k ?i = find_next k (next_pid ?i)"
      using run False ne cur(1) by (subst find_next.simps) auto
    moreover have "\<not> ready k ((c + x) mod 8)" if "s \<le> x" "x < m" for x
      using m(4) False that by (cases "x = s") auto
    ultimately show ?thesis using m nx by (intro exI [of _ m]) auto
  qed
qed

section \<open>The switch\<close>

text \<open>What the scheduler relies on: the current process's block and those of the ready ones carry their ids.\<close>

definition sched_ok :: "'a proc_scheme \<Rightarrow> bool" where
  "sched_ok k \<longleftrightarrow> total_running_process k \<noteq> 0 \<and> 0 \<le> current_pid k \<and> current_pid k < 8 \<and>
     pcb_pid (pcbs k (get_current_pcb k)) = current_pid k \<and>
     (\<forall>i. ready k i \<longrightarrow> pcb_pid (pcbs k (get_kernel_stack_bottom i)) = i)"

lemma send_eoi_sel [simp]:
  fixes k :: "'a proc_scheme"
  shows "phys (send_eoi n k) = phys k" "pg (send_eoi n k) = pg k" "pcbs (send_eoi n k) = pcbs k"
    "process_status (send_eoi n k) = process_status k" "current_pid (send_eoi n k) = current_pid k"
    "total_running_process (send_eoi n k) = total_running_process k" "esp (send_eoi n k) = esp k"
    "ebp (send_eoi n k) = ebp k" "display_terminal (send_eoi n k) = display_terminal k"
    "active_terminal (send_eoi n k) = active_terminal k" "iflag (send_eoi n k) = iflag k"
  by (simp_all add: send_eoi_def outb_def Let_def)

lemma find_next_cong:
  assumes "pcbs k' = pcbs k" "process_status k' = process_status k" "current_pid k' = current_pid k"
  shows "ready k' = ready k" "get_current_pcb k' = get_current_pcb k"
  using assms by (simp_all add: ready_def get_current_pcb_def fun_eq_iff)

lemma switch_to_sel:
  fixes k :: "'a proc_scheme"
  assumes "get_kernel_stack_bottom i \<noteq> get_current_pcb k"
  shows "current_pid (switch_to i k) = i" "process_status (switch_to i k) = process_status k"
    "total_running_process (switch_to i k) = total_running_process k" "phys (switch_to i k) = phys k"
    "pcbs (switch_to i k) = (pcbs k)(get_current_pcb k :=
       (pcbs k (get_current_pcb k))\<lparr>current_esp := esp k, current_ebp := ebp k\<rparr>)"
    "active_terminal (switch_to i k) = pcb_terminal (pcbs k (get_kernel_stack_bottom i))"
    "display_terminal (switch_to i k) = display_terminal k"
    "tss_esp0 (switch_to i k) = get_kernel_stack_bottom i + 0x2000 - 8"
    "esp (switch_to i k) = current_esp (pcbs k (get_kernel_stack_bottom i))"
    "ebp (switch_to i k) = current_ebp (pcbs k (get_kernel_stack_bottom i))"
    "pg (switch_to i k) = set_active_terminal_paging (pcb_terminal (pcbs k (get_kernel_stack_bottom i)))
       (if pcb_terminal (pcbs k (get_kernel_stack_bottom i)) = display_terminal k then 1 else 0)
       (setup_task_page i (pg k))"
  using assms by (simp_all add: switch_to_def Let_def set_current_pid_def set_active_terminal_def upd_pcb_def
      ASSIGNED_PCB_SIZE_def MEM_DEFENSE_SIZE_def)

text \<open>One tick: where control goes, and what the processes' saved contexts are afterwards.\<close>

lemma pit_handler_cases:
  fixes k :: "'a proc_scheme"
  assumes ok: "sched_ok k"
  obtains (stay) k' where "pit_handler k = Some (Ret k' 0)" "current_pid k' = current_pid k"
      "pcbs k' = pcbs k" "process_status k' = process_status k"
      "total_running_process k' = total_running_process k" "phys k' = phys k" "pg k' = pg k"
      "active_terminal k' = active_terminal k" "display_terminal k' = display_terminal k"
      "\<forall>j. ready k j \<longrightarrow> j = current_pid k"
  | (switch) k' m i where "pit_handler k = Some (Resume k' (current_esp (pcbs k (get_kernel_stack_bottom i)))
        (current_ebp (pcbs k (get_kernel_stack_bottom i))))"
      "1 \<le> m" "m < 8" "i = (current_pid k + m) mod 8" "i \<noteq> current_pid k" "ready k i"
      "\<forall>x. 1 \<le> x \<and> x < m \<longrightarrow> \<not> ready k ((current_pid k + x) mod 8)"
      "current_pid k' = i" "process_status k' = process_status k"
      "total_running_process k' = total_running_process k" "phys k' = phys k"
      "pcbs k' = (pcbs k)(get_current_pcb k := (pcbs k (get_current_pcb k))\<lparr>current_esp := esp k, current_ebp := ebp k\<rparr>)"
      "active_terminal k' = pcb_terminal (pcbs k (get_kernel_stack_bottom i))"
      "display_terminal k' = display_terminal k" "tss_esp0 k' = get_kernel_stack_bottom i + 0x2000 - 8"
      "pg k' = set_active_terminal_paging (active_terminal k')
         (if active_terminal k' = display_terminal k then 1 else 0) (setup_task_page i (pg k))"
proof -
  define k1 where "k1 = send_eoi PIT_IRQ_NUM (cli k)"
  have k1: "pcbs k1 = pcbs k" "process_status k1 = process_status k" "current_pid k1 = current_pid k"
    "total_running_process k1 = total_running_process k" "get_current_pcb k1 = get_current_pcb k" "phys k1 = phys k"
    "pg k1 = pg k" "esp k1 = esp k" "ebp k1 = ebp k" "display_terminal k1 = display_terminal k"
    "active_terminal k1 = active_terminal k"
    by (simp_all add: k1_def cli_def get_current_pcb_def)
  have rd: "ready k1 = ready k" by (rule find_next_cong) (simp_all add: k1)
  let ?c = "current_pid k"
  have c: "pcb_pid (pcbs k1 (get_current_pcb k1)) = ?c" "0 \<le> ?c" "?c < 8" "total_running_process k \<noteq> 0"
    using ok by (simp_all add: sched_ok_def k1)
  obtain m where m: "1 \<le> m" "m \<le> 8" "find_next k1 (next_pid ?c) = Some ((?c + m) mod 8)"
    "\<forall>x. 1 \<le> x \<and> x < m \<longrightarrow> \<not> ready k ((?c + x) mod 8)" "m = 8 \<or> ready k ((?c + m) mod 8)"
    using find_next_eq [OF c(1-3), of 1] c(2) by (auto simp: next_pid_eq rd)
  show thesis
  proof (cases "m = 8")
    case True
    then have "pit_handler k = Some (Ret k1 0)"
      using m(3) c unfolding pit_handler_def Let_def k1_def [symmetric]
      by (simp add: get_running_process_num_def k1)
    moreover have "j = ?c" if "ready k j" for j
    proof (rule ccontr)
      assume "j \<noteq> ?c"
      moreover have "0 \<le> j" "j < 8" using that by (auto simp: ready_def)
      ultimately have "1 \<le> (j - ?c) mod 8" "(j - ?c) mod 8 < 8" "(?c + (j - ?c) mod 8) mod 8 = j"
        using c cyclic_distance [of ?c j] by auto
      then show False using m(4) True that by force
    qed
    ultimately show ?thesis using stay k1 by blast
  next
    case False
    let ?i = "(?c + m) mod 8"
    have ne: "?i \<noteq> ?c" using m(1,2) False c(2,3) by (intro cyclic_neq) auto
    have "get_kernel_stack_bottom ?i \<noteq> get_current_pcb k1"
      using ne c(2,3) stack_bottom_inj [of ?i ?c] by (simp add: k1 get_current_pcb_def)
    note sel = switch_to_sel [OF this]
    have "pit_handler k = Some (Resume (switch_to ?i k1) (esp (switch_to ?i k1)) (ebp (switch_to ?i k1)))"
      using m(3) c ne unfolding pit_handler_def Let_def k1_def [symmetric]
      by (simp add: get_running_process_num_def k1)
    then show ?thesis
      using m ne False by (intro switch [of "switch_to ?i k1" ?i m]) (simp_all add: sel k1)
  qed
qed

section \<open>Fairness\<close>

text \<open>
  A round-robin scheduler: \<open>N\<close> places, a set of ready places that ticks do not change, and a
  tick that moves the current place forward without passing over a ready one.
\<close>

locale round_robin =
  fixes inv :: "'s \<Rightarrow> bool" and ready :: "'s \<Rightarrow> int \<Rightarrow> bool" and cur :: "'s \<Rightarrow> int"
    and tick :: "'s \<Rightarrow> 's" and N :: int
  assumes cur_range: "inv s \<Longrightarrow> 0 \<le> cur s \<and> cur s < N"
    and tick_inv: "inv s \<Longrightarrow> inv (tick s)"
    and tick_ready: "inv s \<Longrightarrow> ready (tick s) = ready s"
    and tick_next: "inv s \<Longrightarrow> \<exists>m. 1 \<le> m \<and> m \<le> N \<and> cur (tick s) = (cur s + m) mod N \<and>
      (\<forall>x. 1 \<le> x \<and> x < m \<longrightarrow> \<not> ready s ((cur s + x) mod N))"
begin

lemma distance_decreases:
  assumes "inv s" "0 \<le> j" "j < N" "ready s j" "j \<noteq> cur s"
  shows "(j - cur (tick s)) mod N < (j - cur s) mod N"
proof -
  let ?d = "(j - cur s) mod N"
  note c = cur_range [OF assms(1)]
  have d: "1 \<le> ?d" "?d < N"
  proof -
    have "?d \<noteq> 0"
      using assms(2,3,5) c mod_eq_dvd_iff [of j N "cur s"] by (auto simp: mod_pos_pos_trivial)
    moreover have "0 \<le> ?d" "?d < N" using c by simp_all
    ultimately show "1 \<le> ?d" "?d < N" by linarith+
  qed
  obtain m where m: "1 \<le> m" "m \<le> N" "cur (tick s) = (cur s + m) mod N"
    "\<forall>x. 1 \<le> x \<and> x < m \<longrightarrow> \<not> ready s ((cur s + x) mod N)"
    using tick_next [OF assms(1)] by blast
  have "(cur s + ?d) mod N = j" using assms(2,3) by (simp add: mod_simps)
  then have "m \<le> ?d" using m(4) assms(4) d(1) by (metis not_le)
  moreover have "(j - cur (tick s)) mod N = (?d - m) mod N" by (simp add: m(3) mod_simps algebra_simps)
  ultimately show ?thesis using m(1) d(2) by simp
qed

lemma eventually_current:
  assumes "inv s" "0 \<le> j" "j < N" "ready s j"
  shows "\<exists>n. int n \<le> (j - cur s) mod N \<and> cur ((tick ^^ n) s) = j"
  using assms
proof (induction "nat ((j - cur s) mod N)" arbitrary: s rule: less_induct)
  case less
  show ?case
  proof (cases "cur s = j")
    case True
    then show ?thesis using less.prems by (intro exI [of _ 0]) simp
  next
    case False
    have N: "0 < N" using less.prems by simp
    have dec: "(j - cur (tick s)) mod N < (j - cur s) mod N"
      using distance_decreases less.prems False by blast
    moreover have "nat ((j - cur (tick s)) mod N) < nat ((j - cur s) mod N)"
      using dec pos_mod_sign [OF N, of "j - cur (tick s)"] by linarith
    ultimately obtain n where "int n \<le> (j - cur (tick s)) mod N" "cur ((tick ^^ n) (tick s)) = j"
      using less.hyps [of "tick s"] less.prems tick_inv tick_ready by auto
    then show ?thesis
      using dec by (intro exI [of _ "Suc n"]) (simp add: funpow_Suc_right del: funpow.simps)
  qed
qed

end

text \<open>The state the next tick finds when the processes only compute in between.\<close>

definition tick :: "'a proc_scheme \<Rightarrow> 'a proc_scheme" where
  "tick k = (case pit_handler k of Some (Ret k' _) \<Rightarrow> k' | Some (Resume k' _ _) \<Rightarrow> k' | _ \<Rightarrow> k)"

lemma ready_saved_context:
  assumes "process_status k' = process_status k"
    "pcbs k' = (pcbs k)(a := (pcbs k a)\<lparr>current_esp := x, current_ebp := y\<rparr>)"
  shows "ready k' = ready k"
  using assms by (simp add: ready_def fun_eq_iff)

lemma tick_keeps:
  fixes k :: "'a proc_scheme"
  assumes "sched_ok k"
  shows "sched_ok (tick k) \<and> ready (tick k) = ready k"
  using assms
proof (cases rule: pit_handler_cases)
  case (stay k')
  then have "ready k' = ready k" "get_current_pcb k' = get_current_pcb k"
    by (simp_all add: ready_def fun_eq_iff get_current_pcb_def)
  then show ?thesis using stay assms by (simp add: tick_def sched_ok_def)
next
  case (switch k' m i)
  have r: "ready k' = ready k" by (rule ready_saved_context [OF switch(9,12)])
  have "pcb_pid (pcbs k' a) = pcb_pid (pcbs k a)" for a by (simp add: switch(12))
  moreover have "0 \<le> i" "i < 8" "get_current_pcb k' = get_kernel_stack_bottom i"
    using switch(6,8) by (auto simp: ready_def get_current_pcb_def)
  ultimately show ?thesis using switch(1,6,8,10) assms r by (simp add: tick_def sched_ok_def)
qed

interpretation sched: round_robin sched_ok ready current_pid tick 8
proof
  fix k :: "'a proc_scheme"
  assume ok: "sched_ok k"
  show "0 \<le> current_pid k \<and> current_pid k < 8" using ok by (simp add: sched_ok_def)
  show "sched_ok (tick k)" "ready (tick k) = ready k" using tick_keeps [OF ok] by simp_all
  show "\<exists>m. 1 \<le> m \<and> m \<le> 8 \<and> current_pid (tick k) = (current_pid k + m) mod 8 \<and>
      (\<forall>x. 1 \<le> x \<and> x < m \<longrightarrow> \<not> ready k ((current_pid k + x) mod 8))"
    using ok
  proof (cases rule: pit_handler_cases)
    case (stay k')
    have "\<not> ready k ((current_pid k + x) mod 8)" if "1 \<le> x" "x < 8" for x
      using stay(10) cyclic_neq [of "current_pid k" x] that ok by (auto simp: sched_ok_def)
    then show ?thesis using stay ok by (intro exI [of _ 8]) (simp add: tick_def sched_ok_def)
  next
    case (switch k' m i)
    then show ?thesis by (intro exI [of _ m]) (simp add: tick_def)
  qed
qed

section \<open>Contexts\<close>

text \<open>A process that was switched out is resumed with the stack it was interrupted on, and in its own page.\<close>

text \<open>
  C18: A process that the timer handler switches away from resumes, when a later tick switches
  back to it, with exactly the stack and frame pointers it had, if nothing has changed its
  control block meanwhile.
\<close>

lemma preempted_resumed:
  fixes k k2 :: "'a proc_scheme"
  assumes out: "sched_ok k" "pit_handler k = Some (Resume k' e b)"
    and again: "sched_ok k2" "pit_handler k2 = Some (Resume k3 e' b')" "current_pid k3 = current_pid k"
    and kept: "pcbs k2 (get_current_pcb k) = pcbs k' (get_current_pcb k)"
  shows "e' = esp k \<and> b' = ebp k"
  using again(1)
proof (cases rule: pit_handler_cases)
  case (stay k'')
  then show ?thesis using again(2) by simp
next
  case (switch k'' m i)
  have "i = current_pid k" using switch(1,8) again(2,3) by simp
  moreover have "get_current_pcb k = get_kernel_stack_bottom (current_pid k)"
    using out(1) by (simp add: get_current_pcb_def sched_ok_def)
  moreover have "pcbs k' (get_current_pcb k) = (pcbs k (get_current_pcb k))\<lparr>current_esp := esp k, current_ebp := ebp k\<rparr>"
    using out(1) by (cases rule: pit_handler_cases) (use out(2) in auto)
  ultimately show ?thesis using switch(1) again(2) kept by auto
qed

text \<open>
  C22: When the timer handler switches, the program page translates to the physical page of the
  process that becomes current.
\<close>

lemma switched_address_space:
  fixes k :: "'a proc_scheme"
  assumes "sched_ok k" "kernel_map v (pg k)" "pit_handler k = Some (Resume k' e b)" "off < 2 ^ 22"
  shows "walk (pg k') (of_nat (0x8000000 + off)) = Some (of_nat (0x800000 + nat (current_pid k') * 0x400000 + off))"
  using assms(1)
proof (cases rule: pit_handler_cases)
  case (stay k'')
  then show ?thesis using assms(3) by simp
next
  case (switch k'' m i)
  have "k'' = k'" using switch(1) assms(3) by simp
  moreover have "0 \<le> i" "i < 8" using switch(6) by (auto simp: ready_def)
  ultimately show ?thesis
    using walk_task_page_active [OF assms(2), of "nat i" off] assms(4) switch(8,16) by simp
qed

end
