(* ===== verification/Scancode.thy ===== *)
theory Scancode
  imports Process
begin

text \<open>
  \<^verbatim>\<open>student-distrib/scancode.h\<close> and \<^verbatim>\<open>scancode.c\<close>: the scan codes, and the two tables that turn
  them into characters.
\<close>

section \<open>Scan codes\<close>

definition SCANCODE_CURSORUP :: nat where "SCANCODE_CURSORUP = 72"
definition SCANCODE_CURSORLEFT :: nat where "SCANCODE_CURSORLEFT = 75"
definition SCANCODE_CURSORRIGHT :: nat where "SCANCODE_CURSORRIGHT = 77"
definition SCANCODE_CURSORDOWN :: nat where "SCANCODE_CURSORDOWN = 80"
definition SCANCODE_CURSORUPLEFT :: nat where "SCANCODE_CURSORUPLEFT = 71"
definition SCANCODE_CURSORUPRIGHT :: nat where "SCANCODE_CURSORUPRIGHT = 73"
definition SCANCODE_CURSORDOWNLEFT :: nat where "SCANCODE_CURSORDOWNLEFT = 79"
definition SCANCODE_CURSORDOWNRIGHT :: nat where "SCANCODE_CURSORDOWNRIGHT = 81"
definition SCANCODE_CURSORBLOCKUP :: nat where "SCANCODE_CURSORBLOCKUP = 103"
definition SCANCODE_CURSORBLOCKLEFT :: nat where "SCANCODE_CURSORBLOCKLEFT = 105"
definition SCANCODE_CURSORBLOCKRIGHT :: nat where "SCANCODE_CURSORBLOCKRIGHT = 106"
definition SCANCODE_CURSORBLOCKDOWN :: nat where "SCANCODE_CURSORBLOCKDOWN = 108"
definition SCANCODE_KEYPAD0 :: nat where "SCANCODE_KEYPAD0 = 82"
definition SCANCODE_KEYPAD1 :: nat where "SCANCODE_KEYPAD1 = 79"
definition SCANCODE_KEYPAD2 :: nat where "SCANCODE_KEYPAD2 = 80"
definition SCANCODE_KEYPAD3 :: nat where "SCANCODE_KEYPAD3 = 81"
definition SCANCODE_KEYPAD4 :: nat where "SCANCODE_KEYPAD4 = 75"
definition SCANCODE_KEYPAD5 :: nat where "SCANCODE_KEYPAD5 = 76"
definition SCANCODE_KEYPAD6 :: nat where "SCANCODE_KEYPAD6 = 77"
definition SCANCODE_KEYPAD7 :: nat where "SCANCODE_KEYPAD7 = 71"
definition SCANCODE_KEYPAD8 :: nat where "SCANCODE_KEYPAD8 = 72"
definition SCANCODE_KEYPAD9 :: nat where "SCANCODE_KEYPAD9 = 73"
definition SCANCODE_KEYPADENTER :: nat where "SCANCODE_KEYPADENTER = 96"
definition SCANCODE_KEYPADPLUS :: nat where "SCANCODE_KEYPADPLUS = 78"
definition SCANCODE_KEYPADMINUS :: nat where "SCANCODE_KEYPADMINUS = 74"
definition SCANCODE_Q :: nat where "SCANCODE_Q = 16"
definition SCANCODE_W :: nat where "SCANCODE_W = 17"
definition SCANCODE_E :: nat where "SCANCODE_E = 18"
definition SCANCODE_R :: nat where "SCANCODE_R = 19"
definition SCANCODE_T :: nat where "SCANCODE_T = 20"
definition SCANCODE_Y :: nat where "SCANCODE_Y = 21"
definition SCANCODE_U :: nat where "SCANCODE_U = 22"
definition SCANCODE_I :: nat where "SCANCODE_I = 23"
definition SCANCODE_O :: nat where "SCANCODE_O = 24"
definition SCANCODE_P :: nat where "SCANCODE_P = 25"
definition SCANCODE_A :: nat where "SCANCODE_A = 30"
definition SCANCODE_S :: nat where "SCANCODE_S = 31"
definition SCANCODE_D :: nat where "SCANCODE_D = 32"
definition SCANCODE_F :: nat where "SCANCODE_F = 33"
definition SCANCODE_G :: nat where "SCANCODE_G = 34"
definition SCANCODE_H :: nat where "SCANCODE_H = 35"
definition SCANCODE_J :: nat where "SCANCODE_J = 36"
definition SCANCODE_K :: nat where "SCANCODE_K = 37"
definition SCANCODE_L :: nat where "SCANCODE_L = 38"
definition SCANCODE_Z :: nat where "SCANCODE_Z = 44"
definition SCANCODE_X :: nat where "SCANCODE_X = 45"
definition SCANCODE_C :: nat where "SCANCODE_C = 46"
definition SCANCODE_V :: nat where "SCANCODE_V = 47"
definition SCANCODE_B :: nat where "SCANCODE_B = 48"
definition SCANCODE_N :: nat where "SCANCODE_N = 49"
definition SCANCODE_M :: nat where "SCANCODE_M = 50"
definition SCANCODE_FSLASH :: nat where "SCANCODE_FSLASH = 43"
definition SCANCODE_BSLASH :: nat where "SCANCODE_BSLASH = 53"
definition SCANCODE_ESCAPE :: nat where "SCANCODE_ESCAPE = 1"
definition SCANCODE_ENTER :: nat where "SCANCODE_ENTER = 28"
definition SCANCODE_RIGHTCONTROL :: nat where "SCANCODE_RIGHTCONTROL = 97"
definition SCANCODE_CONTROL :: nat where "SCANCODE_CONTROL = 97"
definition SCANCODE_RIGHTALT :: nat where "SCANCODE_RIGHTALT = 100"
definition SCANCODE_LEFTCONTROL :: nat where "SCANCODE_LEFTCONTROL = 29"
definition SCANCODE_LEFTCONTROL_RELEASE :: nat where "SCANCODE_LEFTCONTROL_RELEASE = 157"
definition SCANCODE_LEFTALT :: nat where "SCANCODE_LEFTALT = 56"
definition SCANCODE_SPACE :: nat where "SCANCODE_SPACE = 57"
definition SCANCODE_LEFTSHIFT :: nat where "SCANCODE_LEFTSHIFT = 42"
definition SCANCODE_RIGHTSHIFT :: nat where "SCANCODE_RIGHTSHIFT = 54"
definition SCANCODE_LEFTSHIFT_RELEASE :: nat where "SCANCODE_LEFTSHIFT_RELEASE = 170"
definition SCANCODE_RIGHTSHIFT_RELEASE :: nat where "SCANCODE_RIGHTSHIFT_RELEASE = 182"
definition SCANCODE_TAB :: nat where "SCANCODE_TAB = 15"
definition SCANCODE_CAPSLOCK :: nat where "SCANCODE_CAPSLOCK = 58"
definition SCANCODE_BACKSPACE :: nat where "SCANCODE_BACKSPACE = 14"
definition SCANCODE_F1 :: nat where "SCANCODE_F1 = 59"
definition SCANCODE_F2 :: nat where "SCANCODE_F2 = 60"
definition SCANCODE_F3 :: nat where "SCANCODE_F3 = 61"
definition SCANCODE_F4 :: nat where "SCANCODE_F4 = 62"
definition SCANCODE_F5 :: nat where "SCANCODE_F5 = 63"
definition SCANCODE_F6 :: nat where "SCANCODE_F6 = 64"
definition SCANCODE_F7 :: nat where "SCANCODE_F7 = 65"
definition SCANCODE_F8 :: nat where "SCANCODE_F8 = 66"
definition SCANCODE_F9 :: nat where "SCANCODE_F9 = 67"
definition SCANCODE_F10 :: nat where "SCANCODE_F10 = 68"
definition SCANCODE_F11 :: nat where "SCANCODE_F11 = 87"
definition SCANCODE_F12 :: nat where "SCANCODE_F12 = 88"
definition SCANCODE_1 :: nat where "SCANCODE_1 = 2"
definition SCANCODE_2 :: nat where "SCANCODE_2 = 3"
definition SCANCODE_3 :: nat where "SCANCODE_3 = 4"
definition SCANCODE_4 :: nat where "SCANCODE_4 = 5"
definition SCANCODE_5 :: nat where "SCANCODE_5 = 6"
definition SCANCODE_6 :: nat where "SCANCODE_6 = 7"
definition SCANCODE_7 :: nat where "SCANCODE_7 = 8"
definition SCANCODE_8 :: nat where "SCANCODE_8 = 9"
definition SCANCODE_9 :: nat where "SCANCODE_9 = 10"
definition SCANCODE_0 :: nat where "SCANCODE_0 = 11"
definition SCANCODE_DASH :: nat where "SCANCODE_DASH = 12"
definition SCANCODE_EQUAL :: nat where "SCANCODE_EQUAL = 13"
definition SCANCODE_PAGEUP :: nat where "SCANCODE_PAGEUP = 104"
definition SCANCODE_PAGEDOWN :: nat where "SCANCODE_PAGEDOWN = 109"
definition SCANCODE_HOME :: nat where "SCANCODE_HOME = 102"
definition SCANCODE_END :: nat where "SCANCODE_END = 107"
definition SCANCODE_INSERT :: nat where "SCANCODE_INSERT = 110"
definition SCANCODE_DELETE :: nat where "SCANCODE_DELETE = 111"
definition SCANCODE_COMMA :: nat where "SCANCODE_COMMA = 51"
definition SCANCODE_POINT :: nat where "SCANCODE_POINT = 52"
definition SCANCODE_LSB :: nat where "SCANCODE_LSB = 26"
definition SCANCODE_RSB :: nat where "SCANCODE_RSB = 27"
definition SCANCODE_FH :: nat where "SCANCODE_FH = 39"
definition SCANCODE_YH :: nat where "SCANCODE_YH = 40"
definition mapSize :: nat where "mapSize = 255"

lemmas scancode_defs =
  SCANCODE_CURSORUP_def SCANCODE_CURSORLEFT_def SCANCODE_CURSORRIGHT_def SCANCODE_CURSORDOWN_def
  SCANCODE_CURSORUPLEFT_def SCANCODE_CURSORUPRIGHT_def SCANCODE_CURSORDOWNLEFT_def
  SCANCODE_CURSORDOWNRIGHT_def SCANCODE_CURSORBLOCKUP_def SCANCODE_CURSORBLOCKLEFT_def
  SCANCODE_CURSORBLOCKRIGHT_def SCANCODE_CURSORBLOCKDOWN_def SCANCODE_KEYPAD0_def
  SCANCODE_KEYPAD1_def SCANCODE_KEYPAD2_def SCANCODE_KEYPAD3_def SCANCODE_KEYPAD4_def
  SCANCODE_KEYPAD5_def SCANCODE_KEYPAD6_def SCANCODE_KEYPAD7_def SCANCODE_KEYPAD8_def
  SCANCODE_KEYPAD9_def SCANCODE_KEYPADENTER_def SCANCODE_KEYPADPLUS_def SCANCODE_KEYPADMINUS_def
  SCANCODE_Q_def SCANCODE_W_def SCANCODE_E_def SCANCODE_R_def SCANCODE_T_def SCANCODE_Y_def
  SCANCODE_U_def SCANCODE_I_def SCANCODE_O_def SCANCODE_P_def SCANCODE_A_def SCANCODE_S_def
  SCANCODE_D_def SCANCODE_F_def SCANCODE_G_def SCANCODE_H_def SCANCODE_J_def SCANCODE_K_def
  SCANCODE_L_def SCANCODE_Z_def SCANCODE_X_def SCANCODE_C_def SCANCODE_V_def SCANCODE_B_def
  SCANCODE_N_def SCANCODE_M_def SCANCODE_FSLASH_def SCANCODE_BSLASH_def SCANCODE_ESCAPE_def
  SCANCODE_ENTER_def SCANCODE_RIGHTCONTROL_def SCANCODE_CONTROL_def SCANCODE_RIGHTALT_def
  SCANCODE_LEFTCONTROL_def SCANCODE_LEFTCONTROL_RELEASE_def SCANCODE_LEFTALT_def
  SCANCODE_SPACE_def SCANCODE_LEFTSHIFT_def SCANCODE_RIGHTSHIFT_def
  SCANCODE_LEFTSHIFT_RELEASE_def SCANCODE_RIGHTSHIFT_RELEASE_def SCANCODE_TAB_def
  SCANCODE_CAPSLOCK_def SCANCODE_BACKSPACE_def SCANCODE_F1_def SCANCODE_F2_def SCANCODE_F3_def
  SCANCODE_F4_def SCANCODE_F5_def SCANCODE_F6_def SCANCODE_F7_def SCANCODE_F8_def SCANCODE_F9_def
  SCANCODE_F10_def SCANCODE_F11_def SCANCODE_F12_def SCANCODE_1_def SCANCODE_2_def SCANCODE_3_def
  SCANCODE_4_def SCANCODE_5_def SCANCODE_6_def SCANCODE_7_def SCANCODE_8_def SCANCODE_9_def
  SCANCODE_0_def SCANCODE_DASH_def SCANCODE_EQUAL_def SCANCODE_PAGEUP_def SCANCODE_PAGEDOWN_def
  SCANCODE_HOME_def SCANCODE_END_def SCANCODE_INSERT_def SCANCODE_DELETE_def SCANCODE_COMMA_def
  SCANCODE_POINT_def SCANCODE_LSB_def SCANCODE_RSB_def SCANCODE_FH_def SCANCODE_YH_def

section \<open>The tables\<close>

text \<open>A sequence of assignments to the entries of a table.\<close>

definition assign :: "(nat \<times> u8) list \<Rightarrow> (nat \<Rightarrow> u8) \<Rightarrow> (nat \<Rightarrow> u8)" where
  "assign as m = foldl (\<lambda>m (i, v). m(i := v)) m as"

definition special_assignments :: "(nat \<times> u8) list" where
  "special_assignments = [
     (of_char CHR ''1'', ch CHR ''!''), (of_char CHR ''2'', ch CHR ''@''),
     (of_char CHR ''3'', ch CHR ''#''), (of_char CHR ''4'', ch CHR ''$''),
     (of_char CHR ''5'', ch CHR ''%''), (of_char CHR ''6'', ch CHR ''^''),
     (of_char CHR ''7'', ch CHR ''&''), (of_char CHR ''8'', ch CHR ''*''),
     (of_char CHR ''9'', ch CHR ''(''), (of_char CHR ''0'', ch CHR '')''),
     (of_char CHR ''-'', ch CHR ''_''), (of_char CHR ''='', ch CHR ''+''),
     (of_char CHR ''['', ch CHR ''{''), (of_char CHR '']'', ch CHR ''}''), (0x5C, ch CHR ''|''),
     (of_char CHR '';'', ch CHR '':''), (0x27, ch (CHR 0x22)), (of_char CHR '','', ch CHR ''<''),
     (of_char CHR ''.'', ch CHR ''>''), (of_char CHR ''/'', ch CHR ''?'')]"

definition scancode_assignments :: "(nat \<times> u8) list" where
  "scancode_assignments = [
     (SCANCODE_KEYPAD0, ch CHR ''0''), (SCANCODE_KEYPAD1, ch CHR ''1''),
     (SCANCODE_KEYPAD2, ch CHR ''2''), (SCANCODE_KEYPAD3, ch CHR ''3''),
     (SCANCODE_KEYPAD4, ch CHR ''4''), (SCANCODE_KEYPAD5, ch CHR ''5''),
     (SCANCODE_KEYPAD6, ch CHR ''6''), (SCANCODE_KEYPAD7, ch CHR ''7''),
     (SCANCODE_KEYPAD8, ch CHR ''8''), (SCANCODE_KEYPAD9, ch CHR ''9''),
     (SCANCODE_KEYPADPLUS, ch CHR ''+''), (SCANCODE_KEYPADMINUS, ch CHR ''-''),
     (SCANCODE_0, ch CHR ''0''), (SCANCODE_1, ch CHR ''1''), (SCANCODE_2, ch CHR ''2''),
     (SCANCODE_3, ch CHR ''3''), (SCANCODE_4, ch CHR ''4''), (SCANCODE_5, ch CHR ''5''),
     (SCANCODE_6, ch CHR ''6''), (SCANCODE_7, ch CHR ''7''), (SCANCODE_8, ch CHR ''8''),
     (SCANCODE_9, ch CHR ''9''), (SCANCODE_Q, ch CHR ''q''), (SCANCODE_W, ch CHR ''w''),
     (SCANCODE_E, ch CHR ''e''), (SCANCODE_R, ch CHR ''r''), (SCANCODE_T, ch CHR ''t''),
     (SCANCODE_Y, ch CHR ''y''), (SCANCODE_U, ch CHR ''u''), (SCANCODE_I, ch CHR ''i''),
     (SCANCODE_O, ch CHR ''o''), (SCANCODE_P, ch CHR ''p''), (SCANCODE_A, ch CHR ''a''),
     (SCANCODE_S, ch CHR ''s''), (SCANCODE_D, ch CHR ''d''), (SCANCODE_F, ch CHR ''f''),
     (SCANCODE_G, ch CHR ''g''), (SCANCODE_H, ch CHR ''h''), (SCANCODE_J, ch CHR ''j''),
     (SCANCODE_K, ch CHR ''k''), (SCANCODE_L, ch CHR ''l''), (SCANCODE_Z, ch CHR ''z''),
     (SCANCODE_X, ch CHR ''x''), (SCANCODE_C, ch CHR ''c''), (SCANCODE_V, ch CHR ''v''),
     (SCANCODE_B, ch CHR ''b''), (SCANCODE_N, ch CHR ''n''), (SCANCODE_M, ch CHR ''m''),
     (SCANCODE_SPACE, ch CHR '' ''), (SCANCODE_TAB, 9), (SCANCODE_ENTER, 10),
     (SCANCODE_COMMA, ch CHR '',''), (SCANCODE_POINT, ch CHR ''.''),
     (SCANCODE_FSLASH, ch (CHR 0x5C)), (SCANCODE_BSLASH, ch CHR ''/''),
     (SCANCODE_DASH, ch CHR ''-''), (SCANCODE_EQUAL, ch CHR ''=''), (SCANCODE_YH, ch (CHR 0x27)),
     (SCANCODE_FH, ch CHR '';''), (SCANCODE_LSB, ch CHR ''[''), (SCANCODE_RSB, ch CHR '']'')]"

definition init_scancodes_map :: "'a kbd_scheme \<Rightarrow> 'a kbd_scheme" where
  "init_scancodes_map k =
     (let k = for_range (of_char CHR ''a'') (of_char CHR ''z'' + 1) (\<lambda>i k. k\<lparr>special_convert_map :=
                (special_convert_map k)(i := of_nat i + ch CHR ''A'' - ch CHR ''a'')\<rparr>) k;
          k = for_range (of_char CHR ''A'') (of_char CHR ''Z'' + 1) (\<lambda>i k. k\<lparr>special_convert_map :=
                (special_convert_map k)(i := of_nat i + ch CHR ''a'' - ch CHR ''A'')\<rparr>) k;
          k = k\<lparr>special_convert_map := assign special_assignments (special_convert_map k)\<rparr>;
          k = for_range 0 mapSize (\<lambda>i k. k\<lparr>scancodes_map := (scancodes_map k)(i := 0)\<rparr>) k
      in k\<lparr>scancodes_map := assign scancode_assignments (scancodes_map k)\<rparr>)"

section \<open>What the tables hold\<close>

lemma for_range_special:
  fixes k :: "'a kbd_scheme"
  shows "for_range a b (\<lambda>i k. k\<lparr>special_convert_map := (special_convert_map k)(i := f i)\<rparr>) k =
     k\<lparr>special_convert_map := (\<lambda>i. if a \<le> i \<and> i < b then f i else special_convert_map k i)\<rparr>"
proof (induction b)
  case (Suc b)
  show ?case
  proof (cases "a \<le> b")
    case True
    then show ?thesis using Suc by (auto simp: for_range_Suc fun_eq_iff less_Suc_eq intro!: kbd.unfold_congs)
  next
    case False
    then have "(\<lambda>i. if a \<le> i \<and> i < Suc b then f i else special_convert_map k i) = special_convert_map k" by (auto simp: fun_eq_iff)
    then show ?thesis using False by simp
  qed
qed simp

lemma for_range_scancodes:
  fixes k :: "'a kbd_scheme"
  shows "for_range a b (\<lambda>i k. k\<lparr>scancodes_map := (scancodes_map k)(i := 0)\<rparr>) k =
     k\<lparr>scancodes_map := (\<lambda>i. if a \<le> i \<and> i < b then 0 else scancodes_map k i)\<rparr>"
proof (induction b)
  case (Suc b)
  show ?case
  proof (cases "a \<le> b")
    case True
    then show ?thesis using Suc by (auto simp: for_range_Suc fun_eq_iff less_Suc_eq intro!: kbd.unfold_congs)
  next
    case False
    then have "(\<lambda>i. if a \<le> i \<and> i < Suc b then 0 else scancodes_map k i) = scancodes_map k" by (auto simp: fun_eq_iff)
    then show ?thesis using False by simp
  qed
qed simp

text \<open>Shift turns a letter into the other case; the other keys have their own table.\<close>

definition case_table :: "(nat \<Rightarrow> u8) \<Rightarrow> nat \<Rightarrow> u8" where
  "case_table m i = (if 65 \<le> i \<and> i < 91 then 32 + of_nat i else if 97 \<le> i \<and> i < 123 then of_nat i - 32 else m i)"

lemma init_scancodes_map_eq:
  fixes k :: "'a kbd_scheme"
  shows "init_scancodes_map k = k\<lparr>
     special_convert_map := assign special_assignments (case_table (special_convert_map k)),
     scancodes_map := assign scancode_assignments (\<lambda>i. if i < mapSize then 0 else scancodes_map k i)\<rparr>"
  unfolding init_scancodes_map_def Let_def for_range_special for_range_scancodes
  by (simp add: case_table_def [abs_def] cong: if_cong)

end
