(* ===== verification/Keyboard.thy ===== *)
theory Keyboard
  imports Scancode Launch
begin

text \<open>
  The keyboard driver of \<^verbatim>\<open>student-distrib/keyboard.c\<close>: key codes become characters in the line
  buffer of the displayed terminal and on its screen, Enter hands the line to a reader, and the
  Alt function keys switch the displayed terminal and start its shell.
\<close>

section \<open>The driver\<close>

definition KEYBOARD_DATA_PORT :: u16 where "KEYBOARD_DATA_PORT = 0x60"
definition KEYBOARD_STATUS_PORT :: u16 where "KEYBOARD_STATUS_PORT = 0x64"
definition KEYBOARD_IRQ_NUM :: nat where "KEYBOARD_IRQ_NUM = 1"
definition MAX_KEY_IND :: nat where "MAX_KEY_IND = 127"

text \<open>The arrays that are record fields here are cleared entry by entry.\<close>

definition keyboard_init :: "device \<Rightarrow> 'a kbd_scheme \<Rightarrow> 'a kbd_scheme" where
  "keyboard_init dev k =
     (let k = init_scancodes_map k;
          k = enable_irq dev KEYBOARD_IRQ_NUM k;
          k = k\<lparr>pressed_key := (\<lambda>i. if i < TOTAL_KEY_NUM then 0 else pressed_key k i)\<rparr>;
          k = memset k (keyboard_buffer k) 0 (of_nat (TERMINAL_NUM * (TOTAL_KEY_NUM + 1)));
          k = k\<lparr>cursor_ind := (\<lambda>t. if 0 \<le> t \<and> t < int TERMINAL_NUM then 0 else cursor_ind k t)\<rparr>;
          k = k\<lparr>terminal_read_ready := (\<lambda>t. if 0 \<le> t \<and> t < int TERMINAL_NUM then 0 else terminal_read_ready k t)\<rparr>;
          k = k\<lparr>hold_num := 0\<rparr>
      in k\<lparr>cap_status := 0\<rparr>)"

definition character_convert :: "'a kbd_scheme \<Rightarrow> u8 \<Rightarrow> u8" where
  "character_convert k c =
     (if scancodes_map k (unat c) = 0 then 0
      else
        let res = scancodes_map k (unat c);
            res = (if cap_status k = 1 \<and> res \<ge> ch CHR ''a'' \<and> res \<le> ch CHR ''z''
                   then special_convert_map k (unat res) else res);
            res = (if pressed_key k SCANCODE_LEFTSHIFT = 1 \<or> pressed_key k SCANCODE_RIGHTSHIFT = 1
                   then special_convert_map k (unat res) else res)
        in res)"

text \<open>The last two conditionals of \<^verbatim>\<open>scancode_processing\<close>: Enter and Backspace.\<close>

definition line_keys :: "u8 \<Rightarrow> 'a kbd_scheme \<Rightarrow> 'a kbd_scheme" where
  "line_keys c k =
     (let t = get_display_terminal k;
          k = (if unat c = SCANCODE_ENTER
               then let k = memset k (print_row k t) 0 (of_nat PRINT_LIM);
                        k = memcpy k (print_row k t) (key_row k t) (of_nat (TOTAL_KEY_NUM + 1));
                        k = memset k (key_row k t) 0 (of_nat (TOTAL_KEY_NUM + 1));
                        k = k\<lparr>terminal_read_ready := (terminal_read_ready k)(t := 1)\<rparr>
                    in k\<lparr>cursor_ind := (cursor_ind k)(t := 0)\<rparr>
               else k)
      in if unat c = SCANCODE_BACKSPACE
         then if cursor_ind k t \<noteq> 0
              then let k = k\<lparr>cursor_ind := (cursor_ind k)(t := cursor_ind k t - 1)\<rparr>;
                       k = stb k (key_row k t + word_of_int (cursor_ind k t)) 0
                   in erase_last_ch_display k
              else k
         else k)"

definition type_char :: "u8 \<Rightarrow> 'a kbd_scheme \<Rightarrow> 'a kbd_scheme" where
  "type_char c k =
     (let t = get_display_terminal k in
      if cursor_ind k t \<ge> int MAX_KEY_IND + 1 then k
      else let i = cursor_ind k t;
               k = k\<lparr>cursor_ind := (cursor_ind k)(t := i + 1)\<rparr>;
               k = stb k (key_row k t + word_of_int i) (character_convert k c)
           in putc_scroll_display (character_convert k c) k)"

text \<open>
  Starting the shell of a terminal. \<open>cont\<close> is the rest of the routine: it runs when the call
  returns; when the call leaves for user mode that is the outcome of the whole routine.
\<close>

definition start_terminal ::
  "int \<Rightarrow> 'a proc_scheme \<Rightarrow> ('a proc_scheme \<Rightarrow> 'a proc_scheme outcome option) \<Rightarrow> 'a proc_scheme outcome option" where
  "start_terminal t k cont =
     (case execute_with_terminal_num (shell_name k) t 1 k of
        Some (Ret k v) \<Rightarrow> cont k
      | r \<Rightarrow> r)"

text \<open>The three function keys are different, so the conditionals exclude each other.\<close>

definition alt_keys ::
  "u8 \<Rightarrow> 'a proc_scheme \<Rightarrow> ('a proc_scheme \<Rightarrow> 'a proc_scheme outcome option) \<Rightarrow> 'a proc_scheme outcome option" where
  "alt_keys c k cont =
     (if unat c = SCANCODE_F1 then cont (set_disiplay_terminal 0 k)
      else if unat c = SCANCODE_F2
      then let k = set_disiplay_terminal 1 k in
           if terminal_2_running k = 0
           then if get_empty_pid k = -1 then Some (Ret k 0)
                else start_terminal 1 (k\<lparr>terminal_2_running := 1\<rparr>) cont
           else cont k
      else if unat c = SCANCODE_F3
      then let k = set_disiplay_terminal 2 k in
           if terminal_3_running k = 0
           then if get_empty_pid k = -1 then Some (Ret k 0)
                else start_terminal 2 (k\<lparr>terminal_3_running := 1\<rparr>) cont
           else cont k
      else cont k)"

definition scancode_processing :: "u8 \<Rightarrow> 'a proc_scheme \<Rightarrow> 'a proc_scheme outcome option" where
  "scancode_processing c k =
     (let cont = (\<lambda>k. Some (Ret (line_keys c k) 0)) in
      if unat c > MAX_KEY_IND
      then let k = k\<lparr>pressed_key := (pressed_key k)(unat c - 128 := 0)\<rparr>;
               k = k\<lparr>hold_num := hold_num k - 1\<rparr>
           in cont k
      else
        let k = k\<lparr>pressed_key := (pressed_key k)(unat c := 1)\<rparr>;
            k = k\<lparr>hold_num := hold_num k + 1\<rparr>;
            k = (if unat c = SCANCODE_CAPSLOCK then k\<lparr>cap_status := 1 - cap_status k\<rparr> else k);
            t = get_display_terminal k
        in if unat c = SCANCODE_L \<and> pressed_key k SCANCODE_LEFTCONTROL = 1
           then let k = clear k;
                    k = memset k (key_row k t) 0 (of_nat (TOTAL_KEY_NUM + 1));
                    k = k\<lparr>cursor_ind := (cursor_ind k)(t := 0)\<rparr>
                in cont k
           else if pressed_key k SCANCODE_LEFTALT = 1 then alt_keys c k cont
           else if scancodes_map k (unat c) \<noteq> 0 then cont (type_char c k)
           else cont k)"

text \<open>
  The interrupt handler empties the controller's buffer. \<open>None\<close> is a run that never finds it
  empty; a shell started on the way leaves for user mode from inside the loop.
\<close>

partial_function (option) keyboard_loop :: "device \<Rightarrow> 'a proc_scheme \<Rightarrow> 'a proc_scheme outcome option" where
  "keyboard_loop dev k =
     (let (s, k) = inb dev KEYBOARD_STATUS_PORT k in
      if s AND 0x1 > 0
      then let (placeholder, k) = inb dev KEYBOARD_DATA_PORT k in
           case scancode_processing placeholder k of
             None \<Rightarrow> None
           | Some r \<Rightarrow> (case r of
               Ret k v \<Rightarrow> keyboard_loop dev (interruption_test (ch CHR ''k'') placeholder k)
             | To_user k e \<Rightarrow> Some (To_user k e)
             | Resume k e b \<Rightarrow> Some (Resume k e b)
             | Spin k \<Rightarrow> Some (Spin k))
      else Some (Ret (sti k) 0))"

definition keyboard_interrupt_handler :: "device \<Rightarrow> 'a proc_scheme \<Rightarrow> 'a proc_scheme outcome option" where
  "keyboard_interrupt_handler dev k =
     (let k = cli k;
          k = send_eoi KEYBOARD_IRQ_NUM k
      in keyboard_loop dev k)"

section \<open>The line buffers\<close>

text \<open>Both buffers are in the kernel's page and do not overlap.\<close>

definition kbd_layout :: "'a kbd_scheme \<Rightarrow> bool" where
  "kbd_layout k \<longleftrightarrow> in_kernel (keyboard_buffer k) 387 \<and> in_kernel (print_buffer k) 6150 \<and>
     (unat (keyboard_buffer k) + 387 \<le> unat (print_buffer k) \<or>
      unat (print_buffer k) + 6150 \<le> unat (keyboard_buffer k))"

text \<open>The line typed so far on a terminal.\<close>

definition kline :: "'a kbd_scheme \<Rightarrow> int \<Rightarrow> u8 list" where
  "kline k t = take (nat (cursor_ind k t)) (load_list ldb k (key_row k t) 129)"

text \<open>The rest of a buffer is zero; all terminals have a cursor in range.\<close>

definition kbd_inv :: "'a kbd_scheme \<Rightarrow> bool" where
  "kbd_inv k \<longleftrightarrow> video_inv k \<and> kbd_layout k \<and>
     (\<forall>t\<in>{0, 1, 2}. aterm_ok (terminal k t) \<and> 0 \<le> cursor_ind k t \<and> cursor_ind k t \<le> 128 \<and>
        load_list ldb k (key_row k t) 129 = kline k t @ replicate (129 - length (kline k t)) 0)"

lemma key_row_rows:
  assumes "kbd_layout k" "t \<in> {0, 1, 2}"
  shows "unat (key_row k t) = unat (keyboard_buffer k) + 129 * nat t"
    "unat (print_row k t) = unat (print_buffer k) + 2050 * nat t"
    "in_kernel (key_row k t) 129" "in_kernel (print_row k t) 2050"
proof -
  have "word_of_int t = (of_nat (nat t) :: u32)" using assms(2) by auto
  then have r: "key_row k t = keyboard_buffer k + of_nat (129 * nat t)"
    "print_row k t = print_buffer k + of_nat (2050 * nat t)"
    by (simp_all add: key_row_def print_row_def TOTAL_KEY_NUM_def PRINT_LIM_def)
  have t: "nat t \<le> 2" using assms(2) by auto
  show u: "unat (key_row k t) = unat (keyboard_buffer k) + 129 * nat t"
    "unat (print_row k t) = unat (print_buffer k) + 2050 * nat t"
    unfolding r using assms(1) t by (intro unat_off; simp add: kbd_layout_def in_kernel_def)+
  show "in_kernel (key_row k t) 129" "in_kernel (print_row k t) 2050"
    using assms(1) t by (simp_all add: in_kernel_def u kbd_layout_def)
qed

lemma key_rows_apart:
  assumes "kernel_map v (pg k)" "kbd_layout k" "t \<in> {0, 1, 2}" "u \<in> {0, 1, 2}"
  shows "t \<noteq> u \<Longrightarrow> apart (translate k) (key_row k t) 129 (key_row k u) 129"
    "apart (translate k) (print_row k t) 2050 (key_row k u) 129"
    "apart (translate k) (key_row k t) 129 (print_row k u) 2050"
proof -
  note r = key_row_rows [OF assms(2,3)] key_row_rows [OF assms(2,4)]
  have t: "nat t \<le> 2" "nat u \<le> 2" using assms(3,4) by auto
  show "apart (translate k) (print_row k t) 2050 (key_row k u) 129"
    "apart (translate k) (key_row k t) 129 (print_row k u) 2050"
    using assms(2) t by (intro apart_in_kernel [OF assms(1)] r; auto simp: r kbd_layout_def)+
  show "apart (translate k) (key_row k t) 129 (key_row k u) 129" if "t \<noteq> u"
    using assms(3,4) that by (intro apart_in_kernel [OF assms(1)] r) (auto simp: r)
qed

text \<open>Reading a row after a store to it, to another range, or to the screen.\<close>

lemma load_list_stb:
  assumes "block (translate k) a n" "i < n"
  shows "load_list ldb (stb k (a + of_nat i) v) a n = (load_list ldb k a n)[i := v]"
  using assms by (intro nth_equalityI) (auto simp: ldb_stb_block nth_list_update)

lemma load_list_store_apart:
  assumes "apart (translate k) a (length vs) b n"
  shows "load_list ldb (store_bytes k a vs) b n = load_list ldb k b n"
  using ldb_store_apart [OF assms] by (intro nth_equalityI) simp_all

lemma load_list_store_bytes:
  assumes "block (translate k) a (length vs)" "n = length vs"
  shows "load_list ldb (store_bytes k a vs) a n = vs"
  using ldb_store_bytes [OF assms(1)] assms(2) by (intro nth_equalityI) simp_all

lemma stb_eq_store_bytes: "stb k a v = store_bytes k a [v]"
  by (simp add: stb_def store_bytes_def)

lemma memset_store_bytes: "memset k a 0 n = store_bytes k a (replicate (unat n) 0)"
  by (simp add: memset_def store_bytes_def memset_p_eq)

lemma load_list_keeps:
  assumes "video_inv k" "keeps (term_frame d t) k k'" "t \<in> {0, 1, 2}" "in_kernel a n"
  shows "load_list ldb k' a n = load_list ldb k a n"
proof -
  obtain w where "kernel_map w (pg k)" using assms(1) by (auto simp: video_inv_def)
  then show ?thesis
    using keeps_ldb [OF assms(2) in_kernel_off_screen [OF _ assms(4,3)]] by (intro nth_equalityI) simp_all
qed

lemma store_bytes_kbd_sel [simp]:
  fixes k :: "'a kbd_scheme"
  shows "cursor_ind (store_bytes k a vs) = cursor_ind k" "keyboard_buffer (store_bytes k a vs) = keyboard_buffer k"
    "print_buffer (store_bytes k a vs) = print_buffer k" "display_terminal (store_bytes k a vs) = display_terminal k"
    "active_terminal (store_bytes k a vs) = active_terminal k" "pressed_key (store_bytes k a vs) = pressed_key k"
    "scancodes_map (store_bytes k a vs) = scancodes_map k" "cap_status (store_bytes k a vs) = cap_status k"
    "special_convert_map (store_bytes k a vs) = special_convert_map k"
    "terminal_read_ready (store_bytes k a vs) = terminal_read_ready k"
    "screen_x_multi (store_bytes k a vs) = screen_x_multi k" "screen_y_multi (store_bytes k a vs) = screen_y_multi k"
  by (simp_all add: store_bytes_def)

lemma screen_only_kbd_sel:
  fixes k :: "'a kbd_scheme"
  assumes "screen_only k k'"
  shows "cursor_ind k' = cursor_ind k" "keyboard_buffer k' = keyboard_buffer k"
    "print_buffer k' = print_buffer k" "display_terminal k' = display_terminal k"
    "active_terminal k' = active_terminal k" "pressed_key k' = pressed_key k" "pg k' = pg k"
    "scancodes_map k' = scancodes_map k" "cap_status k' = cap_status k"
    "special_convert_map k' = special_convert_map k" "terminal_read_ready k' = terminal_read_ready k"
  using assms by (auto simp: screen_only_def)

text \<open>Changing the last byte of a zero-padded row.\<close>

lemma padded_snoc:
  fixes v :: u8
  assumes "length cs < 129"
  shows "(cs @ replicate (129 - length cs) 0)[length cs := v] = (cs @ [v]) @ replicate (129 - length (cs @ [v])) 0"
proof -
  have "129 - length cs = Suc (129 - Suc (length cs))" using assms by simp
  then have "replicate (129 - length cs) (0 :: u8) = 0 # replicate (129 - Suc (length cs)) 0"
    by (metis replicate_Suc)
  then show ?thesis by (simp add: list_update_append)
qed

lemma padded_butlast:
  assumes "cs \<noteq> []" "length cs \<le> 129"
  shows "(cs @ replicate (129 - length cs) 0)[length cs - 1 := 0] = butlast cs @ replicate (129 - length (butlast cs)) 0"
proof -
  have "cs[length cs - 1 := 0] = butlast cs @ [0]"
    using assms(1) by (cases cs rule: rev_cases) (simp_all add: list_update_append)
  moreover have "129 - (length cs - 1) = Suc (129 - length cs)"
    using assms by (cases cs) auto
  moreover have "length cs - 1 < length cs" using assms(1) by simp
  ultimately show ?thesis by (simp add: list_update_append1)
qed

section \<open>The console specification\<close>

text \<open>What the driver maintains: the line being typed and the screen of each terminal.\<close>

record console =
  clines :: "int \<Rightarrow> u8 list"
  cscreens :: "int \<Rightarrow> aterm"

definition con_type :: "int \<Rightarrow> u8 \<Rightarrow> console \<Rightarrow> console" where
  "con_type t c C = (if length (clines C t) \<ge> 128 then C
     else C\<lparr>clines := (clines C)(t := clines C t @ [c]), cscreens := (cscreens C)(t := aterm_putc c (cscreens C t))\<rparr>)"

definition con_erase :: "int \<Rightarrow> console \<Rightarrow> console" where
  "con_erase t C = (if clines C t = [] then C
     else C\<lparr>clines := (clines C)(t := butlast (clines C t)), cscreens := (cscreens C)(t := aterm_erase (cscreens C t))\<rparr>)"

definition con_clear :: "int \<Rightarrow> console \<Rightarrow> console" where
  "con_clear t C = C\<lparr>clines := (clines C)(t := []), cscreens := (cscreens C)(t := aterm_blank)\<rparr>"

definition con_submit :: "int \<Rightarrow> console \<Rightarrow> console" where
  "con_submit t C = C\<lparr>clines := (clines C)(t := [])\<rparr>"

definition con :: "'a kbd_scheme \<Rightarrow> console" where
  "con k = \<lparr>clines = (\<lambda>t. if t \<in> {0, 1, 2} then kline k t else []),
     cscreens = (\<lambda>t. if t \<in> {0, 1, 2} then terminal k t else aterm_blank)\<rparr>"

text \<open>
  The state after a step, from its effect on the rows and on the screens of the three terminals.
\<close>

lemma kbd_invI:
  fixes k k' :: "'a kbd_scheme"
  assumes inv: "kbd_inv k"
    and same: "pg k' = pg k" "keyboard_buffer k' = keyboard_buffer k" "print_buffer k' = print_buffer k"
      "display_terminal k' = display_terminal k" "active_terminal k' = active_terminal k"
    and rows: "\<And>t. t \<in> {0, 1, 2} \<Longrightarrow> load_list ldb k' (key_row k t) 129 = L t @ replicate (129 - length (L t)) 0"
      "\<And>t. t \<in> {0, 1, 2} \<Longrightarrow> cursor_ind k' t = int (length (L t)) \<and> length (L t) \<le> 128"
    and screens: "\<And>t. t \<in> {0, 1, 2} \<Longrightarrow> terminal k' t = S t \<and> aterm_ok (S t)"
  shows "kbd_inv k'" "con k' = \<lparr>clines = (\<lambda>t. if t \<in> {0, 1, 2} then L t else []),
      cscreens = (\<lambda>t. if t \<in> {0, 1, 2} then S t else aterm_blank)\<rparr>"
proof -
  have row: "key_row k' t = key_row k t" for t by (simp add: key_row_def same)
  have line: "kline k' t = L t" if "t \<in> {0, 1, 2}" for t
    using rows [OF that] by (simp add: kline_def row)
  have "video_inv k'" using inv same by (subst video_inv_cong [of k' k]) (simp_all add: kbd_inv_def)
  moreover have "kbd_layout k'" using inv same by (simp add: kbd_inv_def kbd_layout_def)
  ultimately show "kbd_inv k'"
    using rows screens line by (auto simp: kbd_inv_def row)
  show "con k' = \<lparr>clines = (\<lambda>t. if t \<in> {0, 1, 2} then L t else []),
      cscreens = (\<lambda>t. if t \<in> {0, 1, 2} then S t else aterm_blank)\<rparr>"
    using line screens by (simp add: con_def fun_eq_iff)
qed

lemma kbd_invD:
  assumes "kbd_inv k" "t \<in> {0, 1, 2}"
  shows "aterm_ok (terminal k t)" "cursor_ind k t = int (length (kline k t))" "length (kline k t) \<le> 128"
    "load_list ldb k (key_row k t) 129 = kline k t @ replicate (129 - length (kline k t)) 0"
proof -
  show "aterm_ok (terminal k t)" and l: "load_list ldb k (key_row k t) 129 = kline k t @ replicate (129 - length (kline k t)) 0"
    using assms unfolding kbd_inv_def by blast+
  have "0 \<le> cursor_ind k t" "cursor_ind k t \<le> 128" using assms by (auto simp: kbd_inv_def)
  then show "cursor_ind k t = int (length (kline k t))" "length (kline k t) \<le> 128" by (simp_all add: kline_def)
qed

lemma con_sel [simp]:
  "t \<in> {0, 1, 2} \<Longrightarrow> clines (con k) t = kline k t" "t \<in> {0, 1, 2} \<Longrightarrow> cscreens (con k) t = terminal k t"
  by (simp_all add: con_def)

text \<open>A byte stored in the row of terminal \<open>d\<close>, seen from all rows and screens.\<close>

lemma row_stb:
  fixes k :: "'a kbd_scheme" and v :: u8
  assumes "kbd_inv k" "d \<in> {0, 1, 2}" "i < 129" "t \<in> {0, 1, 2}"
  defines "k' \<equiv> stb k (key_row k d + of_nat i) v"
  shows "load_list ldb k' (key_row k t) 129 =
      (if t = d then (load_list ldb k (key_row k t) 129)[i := v] else load_list ldb k (key_row k t) 129)"
    and "terminal k' t = terminal k t"
proof -
  have inv: "video_inv k" "kbd_layout k" using assms(1) by (simp_all add: kbd_inv_def)
  then obtain w where w: "kernel_map w (pg k)" by (auto simp: video_inv_def)
  note row = key_row_rows(3) [OF inv(2) assms(2)]
  show "load_list ldb k' (key_row k t) 129 =
      (if t = d then (load_list ldb k (key_row k t) 129)[i := v] else load_list ldb k (key_row k t) 129)"
  proof (cases "t = d")
    case True
    then show ?thesis
      using load_list_stb [OF in_kernel_block [OF w row] assms(3)] by (simp add: k'_def)
  next
    case False
    have "apart (translate k) (key_row k d + of_nat i) 1 (key_row k t + of_nat 0) 129"
      by (rule apart_off [OF apart_mono [OF key_rows_apart(1) [OF w inv(2) assms(2,4)]]]) (use False assms(3) in auto)
    then show ?thesis
      using False load_list_store_apart [of k "key_row k d + of_nat i" "[v]" "key_row k t" 129]
      by (simp add: k'_def stb_eq_store_bytes)
  qed
  have "in_kernel (key_row k d + of_nat i) 1"
    using in_kernel_walk(2) [OF w row assms(3)] row assms(3) by (simp add: in_kernel_def)
  then show "terminal k' t = terminal k t"
    unfolding k'_def stb_eq_store_bytes using inv(1) assms(4) by (intro terminal_store_bytes) simp_all
qed

lemma kbd_video:
  assumes "kbd_inv k"
  shows "video_inv k" "kbd_layout k" "display_terminal k \<in> {0, 1, 2}"
  using assms by (auto simp: kbd_inv_def video_inv_def)

lemma stb_upd_cursor:
  fixes k :: "'a kbd_scheme"
  shows "stb (k\<lparr>cursor_ind := f\<rparr>) a v = (stb k a v)\<lparr>cursor_ind := f\<rparr>" "key_row (k\<lparr>cursor_ind := f\<rparr>) t = key_row k t"
    "character_convert ((stb k a v)\<lparr>cursor_ind := f\<rparr>) c = character_convert k c"
    "character_convert (k\<lparr>cursor_ind := f\<rparr>) c = character_convert k c"
    "character_convert (stb k a v) c = character_convert k c"
  by (simp_all add: stb_def key_row_def character_convert_def Let_def)

text \<open>
  A byte and a cursor are changed, then the screen: the two parts of typing and of erasing.
\<close>

lemma row_written:
  fixes k :: "'a kbd_scheme" and v :: u8 and m :: int
  assumes inv: "kbd_inv k" and n: "n < 129"
  defines "d \<equiv> display_terminal k"
  defines "k2 \<equiv> (stb k (key_row k d + of_nat n) v)\<lparr>cursor_ind := (cursor_ind k)(d := m)\<rparr>"
  shows "video_inv k2" "t \<in> {0, 1, 2} \<Longrightarrow> terminal k2 t = terminal k t"
    "t \<in> {0, 1, 2} \<Longrightarrow> load_list ldb k2 (key_row k t) 129 =
      (if t = d then (load_list ldb k (key_row k t) 129)[n := v] else load_list ldb k (key_row k t) 129)"
    "display_terminal k2 = d" "screen_x_multi k2 = screen_x_multi k" "screen_y_multi k2 = screen_y_multi k"
proof -
  note vid = kbd_video [OF inv]
  let ?k1 = "stb k (key_row k d + of_nat n) v"
  have sel: "pg k2 = pg k" "active_terminal k2 = active_terminal k" "phys k2 = phys ?k1"
    and sel2: "display_terminal k2 = d" "screen_x_multi k2 = screen_x_multi k" "screen_y_multi k2 = screen_y_multi k"
    by (simp_all add: k2_def stb_def d_def)
  show "video_inv k2" using vid(1) sel sel2 by (subst video_inv_cong [of k2 k]) (simp_all add: d_def)
  show "display_terminal k2 = d" "screen_x_multi k2 = screen_x_multi k" "screen_y_multi k2 = screen_y_multi k" by fact+
  have "ldb k2 = ldb ?k1" by (simp add: fun_eq_iff ldb_def sel)
  then show "load_list ldb k2 (key_row k t) 129 =
      (if t = d then (load_list ldb k (key_row k t) 129)[n := v] else load_list ldb k (key_row k t) 129)"
    if "t \<in> {0, 1, 2}"
    using row_stb(1) [OF inv vid(3) n that, of v] by (simp add: load_list_def d_def)
  show "terminal k2 t = terminal k t" if "t \<in> {0, 1, 2}"
    using row_stb(2) [OF inv vid(3) n that, of v] by (simp add: terminal_def sel sel2 d_def) (simp add: stb_def)
qed

lemma row_step:
  fixes k k' :: "'a kbd_scheme" and v :: u8
  assumes inv: "kbd_inv k" and n: "n < 129" and d: "d = display_terminal k"
    and k2: "k2 = (stb k (key_row k d + of_nat n) v)\<lparr>cursor_ind := (cursor_ind k)(d := int (length L))\<rparr>"
    and k': "screen_only k2 k'" "keeps (term_frame d d) k2 k'"
      "\<And>t. t \<in> {0, 1, 2} \<Longrightarrow> terminal k' t = (if t = d then S else terminal k2 t)" "aterm_ok S"
    and L: "(load_list ldb k (key_row k d) 129)[n := v] = L @ replicate (129 - length L) 0" "length L \<le> 128"
  shows "kbd_inv k'" "con k' = (con k)\<lparr>clines := (clines (con k))(d := L), cscreens := (cscreens (con k))(d := S)\<rparr>"
proof -
  note vid = kbd_video [OF inv] and D = kbd_invD [OF inv]
  note w = row_written [OF inv n, where v = v and m = "int (length L)", folded d, folded k2]
  note so = screen_only_kbd_sel [OF k'(1)]
  have d3: "d \<in> {0, 1, 2}" using vid(3) d by simp
  let ?L = "\<lambda>t. if t = d then L else kline k t" and ?S = "\<lambda>t. if t = d then S else terminal k t"
  have rows: "load_list ldb k' (key_row k t) 129 = ?L t @ replicate (129 - length (?L t)) 0"
    if t: "t \<in> {0, 1, 2}" for t
    using load_list_keeps [OF w(1) k'(2) d3 key_row_rows(3) [OF vid(2) t]] w(3) [OF t] L(1) D(4) [OF t] by auto
  have cur: "cursor_ind k' t = int (length (?L t)) \<and> length (?L t) \<le> 128" if "t \<in> {0, 1, 2}" for t
    using so(1) D(2,3) [OF that] L(2) by (simp add: k2)
  have screens: "terminal k' t = ?S t \<and> aterm_ok (?S t)" if "t \<in> {0, 1, 2}" for t
    using k'(3,4) w(2) D(1) that by simp
  have same: "pg k' = pg k" "keyboard_buffer k' = keyboard_buffer k" "print_buffer k' = print_buffer k"
    "display_terminal k' = display_terminal k" "active_terminal k' = active_terminal k"
    using so by (simp_all add: k2 stb_def)
  note I = kbd_invI [OF inv same rows cur screens]
  show "kbd_inv k'" by (rule I)
  show "con k' = (con k)\<lparr>clines := (clines (con k))(d := L), cscreens := (cscreens (con k))(d := S)\<rparr>"
    using d3 by (subst I(2)) (auto simp: con_def fun_eq_iff)
qed

lemma type_char_con:
  fixes k :: "'a kbd_scheme"
  assumes inv: "kbd_inv k"
  shows "kbd_inv (type_char c k) \<and>
    con (type_char c k) = con_type (display_terminal k) (character_convert k c) (con k)"
proof -
  let ?d = "display_terminal k" and ?v = "character_convert k c"
  note vid = kbd_video [OF inv] and D = kbd_invD [OF inv]
  show ?thesis
  proof (cases "length (kline k ?d) = 128")
    case True
    then have "type_char c k = k"
      using D(2) [OF vid(3)] by (simp add: type_char_def get_display_terminal_def MAX_KEY_IND_def)
    then show ?thesis using inv True vid(3) by (simp add: con_type_def)
  next
    case False
    define n L where "n = length (kline k ?d)" and "L = kline k ?d @ [?v]"
    have n: "n < 128" "cursor_ind k ?d = int n" using False D(2,3) [OF vid(3)] by (simp_all add: n_def)
    define k2 where "k2 = (stb k (key_row k ?d + of_nat n) ?v)\<lparr>cursor_ind := (cursor_ind k)(?d := int (length L))\<rparr>"
    have k2: "type_char c k = putc_scroll_display ?v k2"
      using n unfolding type_char_def get_display_terminal_def MAX_KEY_IND_def Let_def k2_def
      by (simp add: stb_upd_cursor L_def n_def algebra_simps)
    note w = row_written [OF inv, where n = n and v = ?v and m = "int (length L)", folded k2_def]
    have n': "n < 129" using n by simp
    have ok: "aterm_ok (terminal k2 (display_terminal k2))" using w(2,4) [OF n'] D(1) vid(3) by simp
    have S: "terminal (putc_scroll_display ?v k2) t = (if t = ?d then aterm_putc ?v (terminal k ?d) else terminal k2 t)"
      if "t \<in> {0, 1, 2}" for t
      using terminal_putc_scroll_display [OF w(1) ok that] w(2,4) [OF n'] that n' by auto
    have K: "keeps (term_frame ?d ?d) k2 (putc_scroll_display ?v k2)"
      using keeps_putc_scroll_display [OF video_invD(2) [OF w(1)]] ok view_terminal(2) [OF w(1)] w(4) n' by simp
    note step = row_step [OF inv n' refl k2_def screen_only_putc_scroll_display K S aterm_ok_putc [OF D(1) [OF vid(3)]]]
    show ?thesis
      unfolding k2 using step D(4) [OF vid(3)] padded_snoc [of "kline k ?d" ?v] n vid(3)
      by (simp add: L_def n_def con_type_def)
  qed
qed

text \<open>Backspace, when the cursor of the displayed terminal is not at its origin.\<close>

lemma backspace_con:
  fixes k :: "'a kbd_scheme"
  assumes inv: "kbd_inv k"
    and org: "kline k (display_terminal k) \<noteq> [] \<Longrightarrow>
      (ax (terminal k (display_terminal k)), ay (terminal k (display_terminal k))) \<noteq> (0, 0)"
    and c: "unat c = SCANCODE_BACKSPACE"
  shows "kbd_inv (line_keys c k) \<and> con (line_keys c k) = con_erase (display_terminal k) (con k)"
proof -
  let ?d = "display_terminal k"
  note vid = kbd_video [OF inv] and D = kbd_invD [OF inv]
  show ?thesis
  proof (cases "kline k ?d = []")
    case True
    then have "line_keys c k = k"
      using D(2) [OF vid(3)] c by (simp add: line_keys_def get_display_terminal_def scancode_defs)
    then show ?thesis using inv True vid(3) by (simp add: con_erase_def)
  next
    case False
    define n L where "n = length (kline k ?d) - 1" and "L = butlast (kline k ?d)"
    have len: "length (kline k ?d) = n + 1" using False by (simp add: n_def)
    have n: "n < 129" "cursor_ind k ?d = int n + 1" "length L = n"
      using len D(2,3) [OF vid(3)] by (simp_all add: L_def)
    define k2 where "k2 = (stb k (key_row k ?d + of_nat n) 0)\<lparr>cursor_ind := (cursor_ind k)(?d := int (length L))\<rparr>"
    have k2: "line_keys c k = erase_last_ch_display k2"
      using n c unfolding line_keys_def get_display_terminal_def Let_def k2_def
      by (simp add: stb_upd_cursor scancode_defs)
    note w = row_written [OF inv n(1), where v = 0 and m = "int (length L)", folded k2_def]
    have ok: "aterm_ok (terminal k2 (display_terminal k2))" using w(2,4) D(1) vid(3) by simp
    have org2: "(screen_x_multi k2 (display_terminal k2), screen_y_multi k2 (display_terminal k2)) \<noteq> (0, 0)"
      using org False by (simp add: w(4-6) terminal_def)
    have S: "terminal (erase_last_ch_display k2) t = (if t = ?d then aterm_erase (terminal k ?d) else terminal k2 t)"
      if "t \<in> {0, 1, 2}" for t
      using terminal_erase_last_ch_display [OF w(1) ok that org2] w(2,4) that by auto
    have K: "keeps (term_frame ?d ?d) k2 (erase_last_ch_display k2)"
      using keeps_erase_last_ch_display [OF video_invD(2) [OF w(1)]] ok org2 view_terminal(2) [OF w(1)] w(4) by simp
    have ok': "aterm_ok (aterm_erase (terminal k ?d))" using aterm_ok_erase [OF D(1) [OF vid(3)]] org False by simp
    note step = row_step [OF inv n(1) refl k2_def screen_only_erase_last_ch_display K S ok']
    show ?thesis
      unfolding k2 using step D(3,4) [OF vid(3)] padded_butlast [OF False] False n(3) vid(3)
      by (simp add: L_def n_def con_erase_def)
  qed
qed

text \<open>Enter: the line goes to the print buffer and the typed line is empty again.\<close>

lemma enter_form:
  fixes k :: "'a kbd_scheme"
  assumes inv: "kbd_inv k" and c: "unat c = SCANCODE_ENTER"
  defines "d \<equiv> display_terminal k"
  shows "line_keys c k = (store_bytes (store_bytes (store_bytes k (print_row k d) (replicate 2050 0))
      (print_row k d) (load_list ldb k (key_row k d) 129)) (key_row k d) (replicate 129 0))
      \<lparr>terminal_read_ready := (terminal_read_ready k)(d := 1), cursor_ind := (cursor_ind k)(d := 0)\<rparr>"
proof -
  note vid = kbd_video [OF inv, folded d_def]
  obtain w where w: "kernel_map w (pg k)" using vid(1) by (auto simp: video_inv_def)
  note ap = key_rows_apart(2) [OF w vid(2,3,3)]
  define k1 where "k1 = store_bytes k (print_row k d) (replicate 2050 0)"
  have "load_list ldb k1 (key_row k d) 129 = load_list ldb k (key_row k d) 129"
    unfolding k1_def by (rule load_list_store_apart) (use ap in simp)
  then have "memcpy k1 (print_row k d) (key_row k d) 129 = store_bytes k1 (print_row k d) (load_list ldb k (key_row k d) 129)"
    using memcpy_store_bytes [of k1 "print_row k d" 129 "key_row k d"] apart_mono [OF ap] by (simp add: k1_def)
  then show ?thesis
    using c unfolding line_keys_def d_def [symmetric] get_display_terminal_def
    by (simp add: scancode_defs Let_def memset_store_bytes PRINT_LIM_def TOTAL_KEY_NUM_def print_row_def key_row_def k1_def)
qed

lemma submit_con:
  fixes k :: "'a kbd_scheme"
  assumes inv: "kbd_inv k" and c: "unat c = SCANCODE_ENTER"
  defines "k' \<equiv> line_keys c k" and "d \<equiv> display_terminal k"
  shows "kbd_inv k' \<and> con k' = con_submit d (con k)"
    "load_list ldb k' (print_row k d) 129 = load_list ldb k (key_row k d) 129"
    "terminal_read_ready k' = (terminal_read_ready k)(d := 1)"
proof -
  note vid = kbd_video [OF inv, folded d_def] and D = kbd_invD [OF inv]
  obtain w where w: "kernel_map w (pg k)" using vid(1) by (auto simp: video_inv_def)
  note ap = key_rows_apart [OF w vid(2)] and rw = key_row_rows [OF vid(2)]
  let ?K = "load_list ldb k (key_row k d) 129" and ?P = "print_row k d" and ?R = "key_row k d"
  define k1 where "k1 = store_bytes k ?P (replicate 2050 0)"
  define k2 where "k2 = store_bytes k1 ?P ?K"
  define k3 where "k3 = store_bytes k2 ?R (replicate 129 0)"
  have ld1: "load_list ldb k1 (key_row k t) 129 = load_list ldb k (key_row k t) 129" if "t \<in> {0, 1, 2}" for t
    unfolding k1_def by (rule load_list_store_apart) (use ap(2) [OF vid(3) that] in simp)
  have k': "k' = k3\<lparr>terminal_read_ready := (terminal_read_ready k)(d := 1), cursor_ind := (cursor_ind k)(d := 0)\<rparr>"
    unfolding k'_def k3_def k2_def k1_def d_def by (rule enter_form [OF inv c])
  have pg: "pg k1 = pg k" "pg k2 = pg k" "pg k3 = pg k" by (simp_all add: k1_def k2_def k3_def)
  have "ldb k' = ldb k3" by (simp add: k' fun_eq_iff ldb_def)
  then have ld: "load_list ldb k' a m = load_list ldb k3 a m" for a m by (simp add: load_list_def)
  have rows: "load_list ldb k' (key_row k t) 129 =
      (if t = d then replicate 129 0 else load_list ldb k (key_row k t) 129)" if t: "t \<in> {0, 1, 2}" for t
  proof (cases "t = d")
    case True
    then show ?thesis
      using load_list_store_bytes [of k2 ?R "replicate 129 0" 129] in_kernel_block [OF w rw(3) [OF vid(3)]]
      by (simp add: ld k3_def pg)
  next
    case False
    have "load_list ldb k3 (key_row k t) 129 = load_list ldb k2 (key_row k t) 129"
      unfolding k3_def by (rule load_list_store_apart) (use ap(1) [OF vid(3) t] False in \<open>simp add: pg\<close>)
    also have "\<dots> = load_list ldb k1 (key_row k t) 129"
      unfolding k2_def by (rule load_list_store_apart)
        (use apart_mono [OF ap(2) [OF vid(3) t], of 129 129] in \<open>simp add: pg\<close>)
    finally show ?thesis using False ld ld1 [OF t] by simp
  qed
  have P: "in_kernel ?P (length (replicate 2050 (0 :: u8)))" "in_kernel ?P (length ?K)"
    "in_kernel ?R (length (replicate 129 (0 :: u8)))"
    using rw(3,4) [OF vid(3)] by (simp_all add: in_kernel_def)
  have v: "video_inv k1" "video_inv k2"
    using vid(1) by (simp_all add: k1_def k2_def video_inv_def)
  have screens: "terminal k' t = terminal k t" if t: "t \<in> {0, 1, 2}" for t
    using terminal_store_bytes [OF vid(1) P(1) t] terminal_store_bytes [OF v(1) P(2) t]
      terminal_store_bytes [OF v(2) P(3) t] by (simp add: k' k1_def k2_def k3_def terminal_def)
  show "terminal_read_ready k' = (terminal_read_ready k)(d := 1)" by (simp add: k')
  have "load_list ldb k3 ?P 129 = load_list ldb k2 ?P 129"
    unfolding k3_def by (rule load_list_store_apart)
      (use apart_mono [OF ap(3) [OF vid(3) vid(3)], of 129 129] in \<open>simp add: pg\<close>)
  also have "\<dots> = ?K"
    unfolding k2_def by (rule load_list_store_bytes)
      (use in_kernel_block [OF w P(2)] in \<open>simp_all add: pg\<close>)
  finally show "load_list ldb k' ?P 129 = ?K" by (simp add: ld)
  let ?L = "\<lambda>t. if t = d then [] else kline k t"
  have same: "pg k' = pg k" "keyboard_buffer k' = keyboard_buffer k" "print_buffer k' = print_buffer k"
    "display_terminal k' = display_terminal k" "active_terminal k' = active_terminal k"
    by (simp_all add: k' k3_def k2_def k1_def)
  have "load_list ldb k' (key_row k t) 129 = ?L t @ replicate (129 - length (?L t)) 0"
    "cursor_ind k' t = int (length (?L t)) \<and> length (?L t) \<le> 128" "terminal k' t = terminal k t \<and> aterm_ok (terminal k t)"
    if t: "t \<in> {0, 1, 2}" for t
    using rows [OF t] screens [OF t] D [OF t] by (simp_all add: k' k3_def k2_def k1_def)
  note I = kbd_invI [OF inv same this]
  have "con k' = con_submit d (con k)"
    by (subst I(2)) (auto simp: con_submit_def con_def fun_eq_iff)
  then show "kbd_inv k' \<and> con k' = con_submit d (con k)" using I(1) by simp
qed

section \<open>Key events\<close>

lemma kbd_cong:
  fixes k k' :: "'a kbd_scheme"
  assumes "pg k' = pg k" "phys k' = phys k" "display_terminal k' = display_terminal k"
    "active_terminal k' = active_terminal k" "screen_x_multi k' = screen_x_multi k"
    "screen_y_multi k' = screen_y_multi k" "cursor_ind k' = cursor_ind k"
    "keyboard_buffer k' = keyboard_buffer k" "print_buffer k' = print_buffer k"
  shows "kbd_inv k' = kbd_inv k" "con k' = con k"
proof -
  have "ldb k' = ldb k" by (simp add: fun_eq_iff ldb_def assms)
  then have "load_list ldb k' = load_list ldb k" by (simp add: fun_eq_iff load_list_def)
  then have "kline k' = kline k" "terminal k' = terminal k" "key_row k' = key_row k"
    by (simp_all add: fun_eq_iff kline_def terminal_def key_row_def assms)
  then show "kbd_inv k' = kbd_inv k" "con k' = con k"
    using \<open>load_list ldb k' = load_list ldb k\<close> video_inv_cong [of k' k] assms
    by (simp_all add: kbd_inv_def con_def kbd_layout_def cong: if_cong)
qed

text \<open>
  Keys that produce text: mapped, and neither a modifier nor Enter or Backspace; and the release
  of a key that is not a modifier.
\<close>

definition modifiers :: "nat set" where
  "modifiers = {SCANCODE_LEFTSHIFT, SCANCODE_RIGHTSHIFT, SCANCODE_LEFTCONTROL, SCANCODE_LEFTALT, SCANCODE_CAPSLOCK}"

definition text_key :: "'a kbd_scheme \<Rightarrow> u8 \<Rightarrow> bool" where
  "text_key k c \<longleftrightarrow> (if unat c > 127 then unat c - 128 \<notin> modifiers
     else scancodes_map k (unat c) \<noteq> 0 \<and> unat c \<notin> modifiers \<and>
       unat c \<noteq> SCANCODE_ENTER \<and> unat c \<noteq> SCANCODE_BACKSPACE)"

definition key_text :: "'a kbd_scheme \<Rightarrow> u8 \<Rightarrow> u8 list" where
  "key_text k c = (if unat c > 127 then [] else [character_convert k c])"

text \<open>No Alt or Control is held.\<close>

definition no_chord :: "'a kbd_scheme \<Rightarrow> bool" where
  "no_chord k \<longleftrightarrow> pressed_key k SCANCODE_LEFTALT \<noteq> 1 \<and> pressed_key k SCANCODE_LEFTCONTROL \<noteq> 1"

text \<open>The state that decides what a key means.\<close>

definition same_keys :: "'a kbd_scheme \<Rightarrow> 'a kbd_scheme \<Rightarrow> bool" where
  "same_keys k k' \<longleftrightarrow> scancodes_map k' = scancodes_map k \<and> special_convert_map k' = special_convert_map k \<and>
     cap_status k' = cap_status k \<and> display_terminal k' = display_terminal k \<and>
     active_terminal k' = active_terminal k \<and> keyboard_buffer k' = keyboard_buffer k \<and>
     print_buffer k' = print_buffer k \<and> pg k' = pg k \<and>
     (\<forall>m\<in>modifiers. pressed_key k' m = pressed_key k m)"

lemma same_keysD:
  assumes "same_keys k k'"
  shows "character_convert k' = character_convert k" "text_key k' = text_key k" "key_text k' = key_text k"
    "no_chord k' = no_chord k" "display_terminal k' = display_terminal k" "print_row k' = print_row k"
    "active_terminal k' = active_terminal k" "pg k' = pg k"
    "scancodes_map k' = scancodes_map k"
proof -
  show c: "character_convert k' = character_convert k"
    using assms by (simp add: same_keys_def character_convert_def fun_eq_iff modifiers_def Let_def)
  show "key_text k' = key_text k" by (simp add: key_text_def fun_eq_iff c)
qed (use assms in \<open>simp_all add: same_keys_def text_key_def no_chord_def modifiers_def fun_eq_iff print_row_def\<close>)

lemma same_keys_trans: "same_keys k k' \<Longrightarrow> same_keys k' k'' \<Longrightarrow> same_keys k k''"
  by (simp add: same_keys_def)

lemma type_char_keys:
  fixes k :: "'a kbd_scheme"
  shows "same_keys k (type_char c k)" "terminal_read_ready (type_char c k) = terminal_read_ready k"
proof -
  consider "type_char c k = k" | k1 v where "type_char c k = putc_scroll_display v k1" "same_keys k k1"
      "terminal_read_ready k1 = terminal_read_ready k"
    unfolding type_char_def Let_def same_keys_def by (cases "cursor_ind k (get_display_terminal k) \<ge> int MAX_KEY_IND + 1")
      (auto simp: stb_def)
  then have "same_keys k (type_char c k) \<and> terminal_read_ready (type_char c k) = terminal_read_ready k"
  proof cases
    case (2 k1 v)
    then show ?thesis
      using screen_only_kbd_sel [OF screen_only_putc_scroll_display [of k1 v]] by (simp add: same_keys_def)
  qed (simp add: same_keys_def)
  then show "same_keys k (type_char c k)" "terminal_read_ready (type_char c k) = terminal_read_ready k" by simp_all
qed

text \<open>Pressing a key, up to the meaning of the key.\<close>

definition press :: "u8 \<Rightarrow> 'a kbd_scheme \<Rightarrow> 'a kbd_scheme" where
  "press c k = k\<lparr>pressed_key := (pressed_key k)(unat c := 1), hold_num := hold_num k + 1\<rparr>"

lemma press_sel:
  fixes k :: "'a kbd_scheme"
  shows "kbd_inv (press c k) = kbd_inv k" "con (press c k) = con k"
    "unat c \<notin> modifiers \<Longrightarrow> same_keys k (press c k)" "terminal_read_ready (press c k) = terminal_read_ready k"
  by (rule kbd_cong; simp add: press_def)+ (auto simp: press_def same_keys_def)

lemma scancode_text:
  fixes k :: "'a proc_scheme"
  assumes "unat c \<le> 127" "scancodes_map k (unat c) \<noteq> 0" "unat c \<notin> modifiers" "no_chord k"
  shows "scancode_processing c k = Some (Ret (line_keys c (type_char c (press c k))) 0)"
proof -
  have "unat c \<noteq> SCANCODE_CAPSLOCK" "unat c \<noteq> SCANCODE_LEFTALT" "unat c \<noteq> SCANCODE_LEFTCONTROL"
    using assms(3) by (simp_all add: modifiers_def)
  then show ?thesis
    using assms(1,2,4) by (simp add: scancode_processing_def MAX_KEY_IND_def no_chord_def press_def Let_def)
qed

lemma text_key_step:
  fixes k :: "'a proc_scheme"
  assumes inv: "kbd_inv k" and c: "text_key k c" "no_chord k"
  shows "\<exists>k'. scancode_processing c k = Some (Ret k' 0) \<and> kbd_inv k' \<and> same_keys k k' \<and>
    terminal_read_ready k' = terminal_read_ready k \<and>
    con k' = fold (con_type (display_terminal k)) (key_text k c) (con k)"
proof (cases "unat c > 127")
  case True
  define k' where "k' = k\<lparr>pressed_key := (pressed_key k)(unat c - 128 := 0), hold_num := hold_num k - 1\<rparr>"
  have "scancode_processing c k = Some (Ret k' 0)"
    using True by (simp add: scancode_processing_def MAX_KEY_IND_def line_keys_def scancode_defs k'_def Let_def)
  moreover have "kbd_inv k' = kbd_inv k" "con k' = con k" by (rule kbd_cong; simp add: k'_def)+
  moreover have "same_keys k k'" using c(1) True by (auto simp: same_keys_def text_key_def k'_def)
  ultimately show ?thesis using inv True by (simp add: key_text_def k'_def)
next
  case False
  have k: "scancodes_map k (unat c) \<noteq> 0" "unat c \<notin> modifiers" "unat c \<noteq> SCANCODE_ENTER" "unat c \<noteq> SCANCODE_BACKSPACE"
    using c(1) False by (auto simp: text_key_def)
  define k' where "k' = type_char c (press c k)"
  have "scancode_processing c k = Some (Ret k' 0)"
    using scancode_text [OF _ k(1,2) c(2)] False k(3,4) by (simp add: line_keys_def k'_def)
  moreover have "kbd_inv k' \<and> con k' = con_type (display_terminal k) (character_convert k c) (con k)"
    using type_char_con [of "press c k" c] inv press_sel [of c k] same_keysD [OF press_sel(3) [OF k(2), of k]]
    by (simp add: k'_def)
  moreover have "same_keys k k'" "terminal_read_ready k' = terminal_read_ready k"
    using same_keys_trans [OF press_sel(3) [OF k(2)] type_char_keys(1)] type_char_keys(2) [of c "press c k"] press_sel(4) [of c k]
    by (simp_all add: k'_def)
  ultimately show ?thesis using False by (simp add: key_text_def)
qed

lemma enter_keys:
  fixes k :: "'a kbd_scheme"
  assumes "unat c = SCANCODE_ENTER"
  shows "same_keys k (line_keys c k)"
  using assms by (simp add: line_keys_def scancode_defs Let_def same_keys_def memset_def memcpy_def)

text \<open>Enter: the newline is typed like any character, then the line is handed over.\<close>

lemma enter_step:
  fixes k :: "'a proc_scheme"
  assumes inv: "kbd_inv k" and c: "unat c = SCANCODE_ENTER" "no_chord k" "scancodes_map k SCANCODE_ENTER \<noteq> 0"
  defines "d \<equiv> display_terminal k"
  defines "C \<equiv> con_type d (character_convert k c) (con k)"
  shows "\<exists>k'. scancode_processing c k = Some (Ret k' 0) \<and> kbd_inv k' \<and> same_keys k k' \<and> con k' = con_submit d C \<and>
    load_list ldb k' (print_row k d) 129 = clines C d @ replicate (129 - length (clines C d)) 0 \<and>
    terminal_read_ready k' = (terminal_read_ready k)(d := 1)"
proof -
  have m: "unat c \<notin> modifiers" using c(1) by (simp add: modifiers_def scancode_defs)
  define k1 where "k1 = type_char c (press c k)"
  have k1: "kbd_inv k1" "con k1 = C"
    using type_char_con [of "press c k" c] inv press_sel [of c k] same_keysD [OF press_sel(3) [OF m, of k]]
    by (simp_all add: k1_def C_def d_def)
  have sk: "same_keys k k1" "terminal_read_ready k1 = terminal_read_ready k"
    using same_keys_trans [OF press_sel(3) [OF m] type_char_keys(1)] type_char_keys(2) [of c "press c k"] press_sel(4) [of c k]
    by (simp_all add: k1_def)
  have ex: "scancode_processing c k = Some (Ret (line_keys c k1) 0)"
    using scancode_text [of c k] c m by (simp add: k1_def scancode_defs)
  have dd: "display_terminal k1 = d" "print_row k1 = print_row k" using same_keysD [OF sk(1)] by (simp_all add: d_def)
  have d3: "d \<in> {0, 1, 2}" using kbd_video(3) [OF inv] by (simp add: d_def)
  have "clines C d = kline k1 d" using d3 k1(2) con_sel(1) [of d k1] by simp
  then show ?thesis
    using ex submit_con [OF k1(1) c(1)] k1(2) dd sk(2) kbd_invD(4) [OF k1(1) d3]
      same_keys_trans [OF sk(1) enter_keys [OF c(1), of k1]] by auto
qed

section \<open>A typed line reaches the reader\<close>

fun process_keys :: "u8 list \<Rightarrow> 'a proc_scheme \<Rightarrow> 'a proc_scheme outcome option" where
  "process_keys [] k = Some (Ret k 0)"
| "process_keys (c # cs) k =
     (case scancode_processing c k of Some (Ret k' v) \<Rightarrow> process_keys cs k' | r \<Rightarrow> r)"

lemma process_keys_append:
  "process_keys (cs @ ds) k = (case process_keys cs k of Some (Ret k' v) \<Rightarrow> process_keys ds k' | r \<Rightarrow> r)"
  by (induction cs arbitrary: k) (auto split: option.splits outcome.splits)

lemma process_text:
  fixes k :: "'a proc_scheme"
  assumes "kbd_inv k" "no_chord k" "\<forall>c\<in>set cs. text_key k c"
  shows "\<exists>k'. process_keys cs k = Some (Ret k' 0) \<and> kbd_inv k' \<and> same_keys k k' \<and>
    terminal_read_ready k' = terminal_read_ready k \<and>
    con k' = fold (con_type (display_terminal k)) (concat (map (key_text k) cs)) (con k)"
  using assms
proof (induction cs arbitrary: k)
  case Nil
  then show ?case by (simp add: same_keys_def)
next
  case (Cons c cs)
  have "text_key k c" using Cons.prems(3) by simp
  from text_key_step [OF Cons.prems(1) this Cons.prems(2)] obtain k1 where
    k1: "scancode_processing c k = Some (Ret k1 0)" "kbd_inv k1" "same_keys k k1"
      "terminal_read_ready k1 = terminal_read_ready k"
      "con k1 = fold (con_type (display_terminal k)) (key_text k c) (con k)" by blast
  note sk = same_keysD [OF k1(3)]
  from Cons.IH [of k1] k1(2) sk Cons.prems(2,3) obtain k2 where
    "process_keys cs k1 = Some (Ret k2 0)" "kbd_inv k2" "same_keys k1 k2"
      "terminal_read_ready k2 = terminal_read_ready k1"
      "con k2 = fold (con_type (display_terminal k)) (concat (map (key_text k) cs)) (con k1)" by auto
  then show ?case
    using k1 same_keys_trans [OF k1(3)] by simp
qed

lemma fold_con_type:
  "length (clines C d) + length vs \<le> 128 \<Longrightarrow>
     clines (fold (con_type d) vs C) d = clines C d @ vs \<and>
     cscreens (fold (con_type d) vs C) d = fold aterm_putc vs (cscreens C d)"
proof (induction vs arbitrary: C)
  case (Cons v vs)
  have "length (clines (con_type d v C) d) + length vs \<le> 128" using Cons.prems by (simp add: con_type_def)
  from Cons.IH [OF this] show ?case using Cons.prems by (simp add: con_type_def)
qed simp

lemma cstring_padded:
  assumes "load_list ldb k a 129 = L @ replicate (129 - length L) 0" "length L \<le> 128" "0 \<notin> set L"
  shows "cstring (ldb k) a L"
proof -
  have "ldb k (a + of_nat i) = (L @ replicate (129 - length L) 0) ! i" if "i < 129" for i
    using nth_load_list [OF that, of ldb k a] assms(1) by simp
  then show ?thesis using assms(2,3) by (simp add: cstring_def nth_append)
qed


end
