(* ===== verification/Idt.thy ===== *)
theory Idt
  imports Printf Pit Keyboard
begin

text \<open>
  \<^verbatim>\<open>student-distrib/idt.c\<close> and the descriptor types of \<^verbatim>\<open>x86_desc.h\<close>: the interrupt descriptor table,
  its exception handlers, and the delivery of interrupts through it. The record \<open>kernel\<close> adds the
  descriptor tables and the link-time addresses the boot code uses to the state.
\<close>

section \<open>Descriptors\<close>

text \<open>The bit fields keep their widths.\<close>

record idt_desc_t =
  id_offset_15_00 :: u16
  id_seg_selector :: u16
  id_reserved4 :: u8
  id_reserved3 :: "1 word"
  id_reserved2 :: "1 word"
  id_reserved1 :: "1 word"
  id_size :: "1 word"
  id_reserved0 :: "1 word"
  id_dpl :: "2 word"
  id_present :: "1 word"
  id_offset_31_16 :: u16

record seg_desc_t =
  seg_lim_15_00 :: u16
  base_15_00 :: u16
  base_23_16 :: u8
  sd_type :: "4 word"
  sd_sys :: "1 word"
  sd_dpl :: "2 word"
  sd_present :: "1 word"
  seg_lim_19_16 :: "4 word"
  sd_avail :: "1 word"
  sd_reserved :: "1 word"
  sd_opsize :: "1 word"
  sd_granularity :: "1 word"
  base_31_24 :: u8

definition SET_IDT_ENTRY :: "idt_desc_t \<Rightarrow> u32 \<Rightarrow> idt_desc_t" where
  "SET_IDT_ENTRY str handler =
     (let str = str\<lparr>id_offset_31_16 := ucast (drop_bit 16 (handler AND 0xFFFF0000))\<rparr>
      in str\<lparr>id_offset_15_00 := ucast (handler AND 0xFFFF)\<rparr>)"

text \<open>The routines whose addresses go into the table.\<close>

datatype handler =
    H_exception_de
  | H_exception_db
  | H_exception_nmi
  | H_exception_bp
  | H_exception_of
  | H_exception_br
  | H_exception_ud
  | H_exception_nm
  | H_exception_df
  | H_exception_cs
  | H_exception_ts
  | H_exception_np
  | H_exception_ss
  | H_exception_gp
  | H_exception_pf
  | H_exception_rs
  | H_exception_mf
  | H_exception_ac
  | H_exception_mc
  | H_exception_xf
  | H_general_handler_wrapper
  | H_keyboard_handler_wrapper
  | H_rtc_handler_wrapper
  | H_pit_handler_wrapper

text \<open>
  \<open>handler_addr\<close> and \<open>literal\<close> are link-time addresses (of the handlers and of the string
  literals), \<open>va\<close> and \<open>conv_buf\<close> the places on the stack of the variable arguments and of the
  conversion buffer of \<^verbatim>\<open>printf\<close>. \<open>idtr\<close>, \<open>ldtr\<close> and \<open>tr\<close> are the loaded descriptor registers.
\<close>

record kernel = proc +
  idt :: "nat \<Rightarrow> idt_desc_t"
  idt_desc_ptr :: u32
  idtr :: u32
  ldtr :: u16
  tr :: u16
  ldt_desc_ptr :: seg_desc_t
  tss_desc_ptr :: seg_desc_t
  ldt_addr :: u32
  ldt_size :: u32
  tss_addr :: u32
  tss_size :: u32
  tss_ldt_segment_selector :: u16
  handler_addr :: "handler \<Rightarrow> u32"
  literal :: "string \<Rightarrow> u32"
  va :: u32
  conv_buf :: u32

text \<open>A call of \<^verbatim>\<open>printf\<close> with its arguments pushed: the words lie in order at \<open>va\<close>.\<close>

fun push_args :: "u32 \<Rightarrow> u32 list \<Rightarrow> 'a machine_scheme \<Rightarrow> 'a machine_scheme" where
  "push_args a [] k = k"
| "push_args a (v # vs) k = push_args (a + 4) vs (k\<lparr>phys := st32 (translate k) (phys k) a v\<rparr>)"

definition printk :: "string \<Rightarrow> u32 list \<Rightarrow> 'a kernel_scheme \<Rightarrow> 'a kernel_scheme option" where
  "printk format args k =
     map_option fst (printf (literal k format) (va k) (conv_buf k) (push_args (va k) args k))"

section \<open>Exception handlers\<close>

text \<open>Every handler ends in \<^verbatim>\<open>while(1);\<close>.\<close>

definition exception_de :: "'a kernel_scheme \<Rightarrow> 'a kernel_scheme outcome option" where
  "exception_de k = do {
     let k = cli k;
     let k = clear k;
     k \<leftarrow> printk ''0:Divide by zero!'' [] k;
     Some (Spin k)
   }"

definition exception_db :: "'a kernel_scheme \<Rightarrow> 'a kernel_scheme outcome option" where
  "exception_db k = do {
     let k = cli k;
     let k = clear k;
     k \<leftarrow> printk ''1:Debug exception!'' [] k;
     Some (Spin k)
   }"

definition exception_nmi :: "'a kernel_scheme \<Rightarrow> 'a kernel_scheme outcome option" where
  "exception_nmi k = do {
     let k = cli k;
     let k = clear k;
     k \<leftarrow> printk ''2:Non-maskable interrupt!'' [] k;
     Some (Spin k)
   }"

definition exception_bp :: "'a kernel_scheme \<Rightarrow> 'a kernel_scheme outcome option" where
  "exception_bp k = do {
     let k = cli k;
     let k = clear k;
     k \<leftarrow> printk ''3:Breakpoint Exception!'' [] k;
     Some (Spin k)
   }"

definition exception_of :: "'a kernel_scheme \<Rightarrow> 'a kernel_scheme outcome option" where
  "exception_of k = do {
     let k = cli k;
     let k = clear k;
     k \<leftarrow> printk ''4:overflow!'' [] k;
     Some (Spin k)
   }"

definition exception_br :: "'a kernel_scheme \<Rightarrow> 'a kernel_scheme outcome option" where
  "exception_br k = do {
     let k = cli k;
     let k = clear k;
     k \<leftarrow> printk ''5:bound range exceeded!'' [] k;
     Some (Spin k)
   }"

definition exception_ud :: "'a kernel_scheme \<Rightarrow> 'a kernel_scheme outcome option" where
  "exception_ud k = do {
     let k = cli k;
     let k = clear k;
     k \<leftarrow> printk ''6:Invalid Opcode!'' [] k;
     Some (Spin k)
   }"

definition exception_nm :: "'a kernel_scheme \<Rightarrow> 'a kernel_scheme outcome option" where
  "exception_nm k = do {
     let k = cli k;
     let k = clear k;
     k \<leftarrow> printk ''7:Device Not Available!'' [] k;
     Some (Spin k)
   }"

definition exception_df :: "'a kernel_scheme \<Rightarrow> 'a kernel_scheme outcome option" where
  "exception_df k = do {
     let k = cli k;
     let k = clear k;
     k \<leftarrow> printk ''8:Double Fault!'' [] k;
     Some (Spin k)
   }"

definition exception_cs :: "'a kernel_scheme \<Rightarrow> 'a kernel_scheme outcome option" where
  "exception_cs k = do {
     let k = cli k;
     let k = clear k;
     k \<leftarrow> printk ''9:Coprocessor Segment Overrun!'' [] k;
     Some (Spin k)
   }"

definition exception_ts :: "'a kernel_scheme \<Rightarrow> 'a kernel_scheme outcome option" where
  "exception_ts k = do {
     let k = cli k;
     let k = clear k;
     k \<leftarrow> printk ''10:Invalid TSS!'' [] k;
     Some (Spin k)
   }"

definition exception_np :: "'a kernel_scheme \<Rightarrow> 'a kernel_scheme outcome option" where
  "exception_np k = do {
     let k = cli k;
     let k = clear k;
     k \<leftarrow> printk ''11:Segment Not Present!'' [] k;
     Some (Spin k)
   }"

definition exception_ss :: "'a kernel_scheme \<Rightarrow> 'a kernel_scheme outcome option" where
  "exception_ss k = do {
     let k = cli k;
     let k = clear k;
     k \<leftarrow> printk ''12:Stack Fault!'' [] k;
     Some (Spin k)
   }"

definition exception_gp :: "'a kernel_scheme \<Rightarrow> 'a kernel_scheme outcome option" where
  "exception_gp k = do {
     let k = cli k;
     let k = clear k;
     k \<leftarrow> printk ''13:General Protection Exception!'' [] k;
     Some (Spin k)
   }"

definition exception_pf :: "'a kernel_scheme \<Rightarrow> 'a kernel_scheme outcome option" where
  "exception_pf k = do {
     let k = cli k;
     let k = clear k;
     k \<leftarrow> printk ''14:Page-Fault!'' [] k;
     Some (Spin k)
   }"

definition exception_rs :: "'a kernel_scheme \<Rightarrow> 'a kernel_scheme outcome option" where
  "exception_rs k = do {
     let k = cli k;
     let k = clear k;
     k \<leftarrow> printk ''15:reserved, test error!'' [] k;
     Some (Spin k)
   }"

definition exception_mf :: "'a kernel_scheme \<Rightarrow> 'a kernel_scheme outcome option" where
  "exception_mf k = do {
     let k = cli k;
     let k = clear k;
     k \<leftarrow> printk ''16:FPU Floating-Point Error!'' [] k;
     Some (Spin k)
   }"

definition exception_ac :: "'a kernel_scheme \<Rightarrow> 'a kernel_scheme outcome option" where
  "exception_ac k = do {
     let k = cli k;
     let k = clear k;
     k \<leftarrow> printk ''17:Alignment Check Exception!'' [] k;
     Some (Spin k)
   }"

definition exception_mc :: "'a kernel_scheme \<Rightarrow> 'a kernel_scheme outcome option" where
  "exception_mc k = do {
     let k = cli k;
     let k = clear k;
     k \<leftarrow> printk ''18:Machine-Check Exception!'' [] k;
     Some (Spin k)
   }"

definition exception_xf :: "'a kernel_scheme \<Rightarrow> 'a kernel_scheme outcome option" where
  "exception_xf k = do {
     let k = cli k;
     let k = clear k;
     k \<leftarrow> printk ''19:SIMD Floating-Point Exception!'' [] k;
     Some (Spin k)
   }"

definition general_handler :: "'a kernel_scheme \<Rightarrow> 'a kernel_scheme option" where
  "general_handler k = do {
     let k = cli k;
     let k = clear k;
     k \<leftarrow> printk ''out of the world, there is you interruption.'' [] k;
     Some (sti k)
   }"

section \<open>The table\<close>

definition SYSCALL_INDEX :: nat where "SYSCALL_INDEX = 0x80"
definition PIC_OFFSET :: nat where "PIC_OFFSET = 0x20"
definition NUM_VEC :: nat where "NUM_VEC = 256"
definition KERNEL_CS :: u16 where "KERNEL_CS = 0x0010"

definition lidt :: "'a kernel_scheme \<Rightarrow> 'a kernel_scheme" where
  "lidt k = k\<lparr>idtr := idt_desc_ptr k\<rparr>"

definition upd_idt :: "nat \<Rightarrow> (idt_desc_t \<Rightarrow> idt_desc_t) \<Rightarrow> 'a kernel_scheme \<Rightarrow> 'a kernel_scheme" where
  "upd_idt i f k = k\<lparr>idt := (idt k)(i := f (idt k i))\<rparr>"

definition set_gate :: "nat \<Rightarrow> handler \<Rightarrow> 'a kernel_scheme \<Rightarrow> 'a kernel_scheme" where
  "set_gate i h k = upd_idt i (\<lambda>d. SET_IDT_ENTRY d (handler_addr k h)) k"

text \<open>The body of the loop over the vectors.\<close>

definition init_gate :: "nat \<Rightarrow> 'a kernel_scheme \<Rightarrow> 'a kernel_scheme" where
  "init_gate i k =
     (let k = upd_idt i (\<lambda>d. if i = SYSCALL_INDEX then d\<lparr>id_dpl := 3\<rparr> else d\<lparr>id_dpl := 0\<rparr>) k;
          k = upd_idt i (\<lambda>d. d\<lparr>id_present := 1, id_seg_selector := KERNEL_CS, id_reserved0 := 0, id_size := 1,
                id_reserved1 := 1, id_reserved2 := 1, id_reserved4 := 0\<rparr>) k;
          k = upd_idt i (\<lambda>d. if i \<ge> 0x20 then d\<lparr>id_reserved3 := 0\<rparr> else d\<lparr>id_reserved3 := 1\<rparr>) k
      in set_gate i H_general_handler_wrapper k)"

definition initialize_idt :: "'a kernel_scheme \<Rightarrow> 'a kernel_scheme" where
  "initialize_idt k =
     (let k = lidt k;
          k = for_range 0 NUM_VEC init_gate k;
          k = set_gate (PIC_OFFSET + 1) H_keyboard_handler_wrapper k;
          k = set_gate (PIC_OFFSET + 8) H_rtc_handler_wrapper k;
          k = set_gate (PIC_OFFSET + 0) H_pit_handler_wrapper k;
          k = set_gate 0 H_exception_de k;
          k = set_gate 1 H_exception_db k;
          k = set_gate 2 H_exception_nmi k;
          k = set_gate 3 H_exception_bp k;
          k = set_gate 4 H_exception_of k;
          k = set_gate 5 H_exception_br k;
          k = set_gate 6 H_exception_ud k;
          k = set_gate 7 H_exception_nm k;
          k = set_gate 8 H_exception_df k;
          k = set_gate 9 H_exception_cs k;
          k = set_gate 10 H_exception_ts k;
          k = set_gate 11 H_exception_np k;
          k = set_gate 12 H_exception_ss k;
          k = set_gate 13 H_exception_gp k;
          k = set_gate 14 H_exception_pf k;
          k = set_gate 15 H_exception_rs k;
          k = set_gate 16 H_exception_mf k;
          k = set_gate 17 H_exception_ac k;
          k = set_gate 18 H_exception_mc k;
          k = set_gate 19 H_exception_xf k
      in set_gate SYSCALL_INDEX H_general_handler_wrapper k)"

section \<open>Delivery of interrupts\<close>

definition gate_offset :: "idt_desc_t \<Rightarrow> u32" where
  "gate_offset d = push_bit 16 (ucast (id_offset_31_16 d)) OR ucast (id_offset_15_00 d)"

definition exception_handlers :: "handler list" where
  "exception_handlers = [H_exception_de, H_exception_db, H_exception_nmi, H_exception_bp,
     H_exception_of, H_exception_br, H_exception_ud, H_exception_nm,
     H_exception_df, H_exception_cs, H_exception_ts, H_exception_np,
     H_exception_ss, H_exception_gp, H_exception_pf, H_exception_rs,
     H_exception_mf, H_exception_ac, H_exception_mc, H_exception_xf]"

definition all_handlers :: "handler list" where
  "all_handlers = exception_handlers @ [H_general_handler_wrapper, H_keyboard_handler_wrapper,
     H_rtc_handler_wrapper, H_pit_handler_wrapper]"

text \<open>
  The code at each handler. The assembly wrappers save and restore the registers and call the
  routine; \<^verbatim>\<open>general_handler_wrapper\<close> is the system call dispatcher.
\<close>

record regs =
  r_eax :: u32
  r_ebx :: u32
  r_ecx :: u32
  r_edx :: u32

definition run_handler :: "device \<Rightarrow> regs \<Rightarrow> handler \<Rightarrow> 'a kernel_scheme \<Rightarrow> 'a kernel_scheme outcome option" where
  "run_handler dev r h k =
     (case h of
        H_exception_de \<Rightarrow> exception_de k
      | H_exception_db \<Rightarrow> exception_db k
      | H_exception_nmi \<Rightarrow> exception_nmi k
      | H_exception_bp \<Rightarrow> exception_bp k
      | H_exception_of \<Rightarrow> exception_of k
      | H_exception_br \<Rightarrow> exception_br k
      | H_exception_ud \<Rightarrow> exception_ud k
      | H_exception_nm \<Rightarrow> exception_nm k
      | H_exception_df \<Rightarrow> exception_df k
      | H_exception_cs \<Rightarrow> exception_cs k
      | H_exception_ts \<Rightarrow> exception_ts k
      | H_exception_np \<Rightarrow> exception_np k
      | H_exception_ss \<Rightarrow> exception_ss k
      | H_exception_gp \<Rightarrow> exception_gp k
      | H_exception_pf \<Rightarrow> exception_pf k
      | H_exception_rs \<Rightarrow> exception_rs k
      | H_exception_mf \<Rightarrow> exception_mf k
      | H_exception_ac \<Rightarrow> exception_ac k
      | H_exception_mc \<Rightarrow> exception_mc k
      | H_exception_xf \<Rightarrow> exception_xf k
      | H_general_handler_wrapper \<Rightarrow> system_call dev (r_eax r) (r_ebx r) (r_ecx r) (r_edx r) k
      | H_keyboard_handler_wrapper \<Rightarrow> keyboard_interrupt_handler dev k
      | H_rtc_handler_wrapper \<Rightarrow> Some (Ret (rtc_interrupt_handler dev k) 0)
      | H_pit_handler_wrapper \<Rightarrow> pit_handler_wrapper k)"

text \<open>
  What the processor does with the table: an interrupt gate clears the interrupt flag, control
  goes to the offset of the gate, and \<^verbatim>\<open>iret\<close> restores the flag. A software interrupt from user
  mode needs a gate of level 3 and is a general protection fault otherwise.
\<close>

definition deliver :: "device \<Rightarrow> regs \<Rightarrow> nat \<Rightarrow> 'a kernel_scheme \<Rightarrow> 'a kernel_scheme outcome option" where
  "deliver dev r v k =
     (let d = idt k v;
          k1 = (if id_reserved3 d = 0 then k\<lparr>iflag := False\<rparr> else k)
      in case find (\<lambda>h. handler_addr k h = gate_offset d) all_handlers of
           None \<Rightarrow> None
         | Some h \<Rightarrow> map_option (\<lambda>x. case x of Ret k2 w \<Rightarrow> Ret (k2\<lparr>iflag := iflag k\<rparr>) w | _ \<Rightarrow> x)
             (run_handler dev r h k1))"

definition user_int :: "device \<Rightarrow> regs \<Rightarrow> nat \<Rightarrow> 'a kernel_scheme \<Rightarrow> 'a kernel_scheme outcome option" where
  "user_int dev r v k = (if id_dpl (idt k v) = 3 then deliver dev r v k else deliver dev r 13 k)"

section \<open>The table after initialisation\<close>

lemma gate_offset_SET_IDT_ENTRY [simp]: "gate_offset (SET_IDT_ENTRY d a) = a"
proof -
  have m: "(0xFFFF :: u32) = mask 16" "(0xFFFF0000 :: u32) = push_bit 16 (mask 16)"
    by (simp_all add: mask_eq_exp_minus_1 push_bit_eq_mult)
  show ?thesis
    unfolding SET_IDT_ENTRY_def m gate_offset_def
    by (rule bit_word_eqI) (auto simp: bit_simps dest: bit_imp_le_length)
qed

text \<open>The handler each vector should have.\<close>

definition vector_handler :: "nat \<Rightarrow> handler" where
  "vector_handler v =
     (if v < 20 then exception_handlers ! v
      else if v = 0x20 then H_pit_handler_wrapper
      else if v = 0x21 then H_keyboard_handler_wrapper
      else if v = 0x28 then H_rtc_handler_wrapper
      else H_general_handler_wrapper)"

lemma upd_idt_sel [simp]:
  "idt (upd_idt i f k) = (idt k)(i := f (idt k i))" "handler_addr (upd_idt i f k) = handler_addr k"
  by (simp_all add: upd_idt_def)

lemma set_gate_sel [simp]:
  "idt (set_gate i h k) = (idt k)(i := SET_IDT_ENTRY (idt k i) (handler_addr k h))"
  "handler_addr (set_gate i h k) = handler_addr k"
  by (simp_all add: set_gate_def)

text \<open>The attributes every gate gets in the loop, and that the later entries keep.\<close>

definition gate_ok :: "nat \<Rightarrow> idt_desc_t \<Rightarrow> bool" where
  "gate_ok v d \<longleftrightarrow> id_present d = 1 \<and> id_seg_selector d = KERNEL_CS \<and> id_reserved0 d = 0 \<and> id_size d = 1 \<and>
     id_reserved1 d = 1 \<and> id_reserved2 d = 1 \<and> id_reserved4 d = 0 \<and>
     id_dpl d = (if v = 0x80 then 3 else 0) \<and> id_reserved3 d = (if v \<ge> 32 then 0 else 1)"

lemma gate_ok_SET_IDT_ENTRY [simp]: "gate_ok v (SET_IDT_ENTRY d a) = gate_ok v d"
  by (simp add: gate_ok_def SET_IDT_ENTRY_def Let_def)

lemma init_gate_sel:
  "handler_addr (init_gate i k) = handler_addr k"
  "v \<noteq> i \<Longrightarrow> idt (init_gate i k) v = idt k v"
  "gate_ok i (idt (init_gate i k) i)"
  "gate_offset (idt (init_gate i k) i) = handler_addr k H_general_handler_wrapper"
  by (simp_all add: init_gate_def Let_def SYSCALL_INDEX_def) (auto simp: gate_ok_def)

lemma init_loop:
  "handler_addr (for_range 0 n init_gate k) = handler_addr k \<and>
   (\<forall>v<n. gate_ok v (idt (for_range 0 n init_gate k) v) \<and>
     gate_offset (idt (for_range 0 n init_gate k) v) = handler_addr k H_general_handler_wrapper)"
  by (induction n) (auto simp: for_range_Suc less_Suc_eq init_gate_sel)

text \<open>The assignments after the loop, as a list: the last one to a vector counts.\<close>

definition later_gates :: "(nat \<times> handler) list" where
  "later_gates = [(PIC_OFFSET + 1, H_keyboard_handler_wrapper), (PIC_OFFSET + 8, H_rtc_handler_wrapper),
     (PIC_OFFSET + 0, H_pit_handler_wrapper)] @ zip [0..<20] exception_handlers @
     [(SYSCALL_INDEX, H_general_handler_wrapper)]"

lemma initialize_idt_eq:
  "initialize_idt k = fold (\<lambda>(i, h). set_gate i h) later_gates (for_range 0 NUM_VEC init_gate (lidt k))"
proof -
  have "[0..<20] = [0, 1, 2, 3, 4, 5, 6, 7, 8, 9, 10, 11, 12, 13, 14, 15, 16, 17, 18, 19 :: nat]" by code_simp
  then show ?thesis by (simp add: initialize_idt_def later_gates_def exception_handlers_def Let_def)
qed

lemma fold_set_gate:
  "handler_addr (fold (\<lambda>(i, h). set_gate i h) gs k) = handler_addr k"
  "gate_ok v (idt (fold (\<lambda>(i, h). set_gate i h) gs k) v) = gate_ok v (idt k v)"
  "gate_offset (idt (fold (\<lambda>(i, h). set_gate i h) gs k) v) =
     (case map_of (rev gs) v of Some h \<Rightarrow> handler_addr k h | None \<Rightarrow> gate_offset (idt k v))"
  by (induction gs rule: rev_induct) (auto split: if_splits)

lemma map_of_later_gates:
  "map_of (rev later_gates) v = (if v < 20 \<or> v \<in> {0x20, 0x21, 0x28, 0x80} then Some (vector_handler v) else None)"
proof -
  have e: "map_of (rev (zip [0..<20] exception_handlers)) v = (if v < 20 then Some (exception_handlers ! v) else None)" for v
  proof -
    have l: "length exception_handlers = 20" by (simp add: exception_handlers_def)
    have d: "distinct (map fst (rev (zip [0..<20] exception_handlers)))"
      by (simp add: rev_map [symmetric] l)
    have "map_of (rev (zip [0..<20] exception_handlers)) v = Some (exception_handlers ! v)" if "v < 20"
      by (rule map_of_is_SomeI [OF d]) (use l that in \<open>auto simp: set_zip intro!: exI [of _ v]\<close>)
    moreover have "map_of (rev (zip [0..<20] exception_handlers)) v = None" if "\<not> v < 20"
      using that by (auto simp: map_of_eq_None_iff dest: set_zip_leftD)
    ultimately show ?thesis by simp
  qed
  show ?thesis
    by (simp add: later_gates_def map_add_def e vector_handler_def PIC_OFFSET_def SYSCALL_INDEX_def)
qed

lemma initialize_idt_gates:
  assumes "v < 256"
  shows "gate_ok v (idt (initialize_idt k) v)"
    "gate_offset (idt (initialize_idt k) v) = handler_addr k (vector_handler v)"
  using assms init_loop [of 256 "lidt k"]
  unfolding initialize_idt_eq fold_set_gate map_of_later_gates
  by (auto simp: NUM_VEC_def lidt_def vector_handler_def)

lemma initialize_idt_addr: "handler_addr (initialize_idt k) = handler_addr k"
  using init_loop [of NUM_VEC "lidt k"] by (simp add: initialize_idt_eq fold_set_gate lidt_def)

text \<open>Interrupts after initialisation reach the routine of their vector.\<close>

lemma all_handlers: "h \<in> set all_handlers"
  by (cases h) (simp_all add: all_handlers_def exception_handlers_def)

lemma find_handler:
  assumes "inj (handler_addr k)"
  shows "find (\<lambda>g. handler_addr k g = handler_addr k h) all_handlers = Some h"
proof -
  have "find (\<lambda>g. handler_addr k g = handler_addr k h) all_handlers = find (\<lambda>g. g = h) all_handlers"
    by (rule find_cong) (use assms in \<open>auto dest: injD\<close>)
  moreover have "find (\<lambda>g. g = h) xs = Some h" if "h \<in> set xs" for xs :: "handler list"
    using that by (induction xs) auto
  ultimately show ?thesis using all_handlers by simp
qed

definition idt_ready :: "'a kernel_scheme \<Rightarrow> bool" where
  "idt_ready k \<longleftrightarrow> inj (handler_addr k) \<and>
     (\<forall>v<256. gate_ok v (idt k v) \<and> gate_offset (idt k v) = handler_addr k (vector_handler v))"

lemma idt_ready_initialize: "inj (handler_addr k) \<Longrightarrow> idt_ready (initialize_idt k)"
  using initialize_idt_gates [of _ k] by (simp add: idt_ready_def initialize_idt_addr)

lemma deliver_ready:
  assumes "idt_ready k" "v < 256"
  shows "deliver dev r v k =
    map_option (\<lambda>x. case x of Ret k2 w \<Rightarrow> Ret (k2\<lparr>iflag := iflag k\<rparr>) w | _ \<Rightarrow> x)
      (run_handler dev r (vector_handler v) (if v \<ge> 32 then k\<lparr>iflag := False\<rparr> else k))"
  using assms by (simp add: deliver_def Let_def idt_ready_def find_handler gate_ok_def)

text \<open>A program enters the kernel only through the system call vector.\<close>

lemma user_int_ready:
  assumes "idt_ready k" "v < 256"
  shows "user_int dev r v k =
    (if v = 0x80
     then map_option (\<lambda>x. case x of Ret k2 w \<Rightarrow> Ret (k2\<lparr>iflag := iflag k\<rparr>) w | _ \<Rightarrow> x)
       (system_call dev (r_eax r) (r_ebx r) (r_ecx r) (r_edx r) (k\<lparr>iflag := False\<rparr>))
     else exception_gp k)"
proof (cases "v = 0x80")
  case True
  then show ?thesis
    using assms deliver_ready [OF assms] by (simp add: user_int_def idt_ready_def gate_ok_def vector_handler_def run_handler_def)
next
  case False
  have "user_int dev r v k = deliver dev r 13 k"
    using assms False by (simp add: user_int_def idt_ready_def gate_ok_def)
  also have "\<dots> = map_option (\<lambda>x. case x of Ret k2 w \<Rightarrow> Ret (k2\<lparr>iflag := iflag k\<rparr>) w | _ \<Rightarrow> x) (exception_gp k)"
    using deliver_ready [OF assms(1), of 13] by (simp add: vector_handler_def exception_handlers_def run_handler_def)
  also have "\<dots> = exception_gp k"
    by (cases "printk ''13:General Protection Exception!'' [] (clear (cli k))") (simp_all add: exception_gp_def Let_def)
  finally show ?thesis using False by simp
qed

section \<open>Exceptions\<close>

text \<open>The console's bytes are in low memory, whichever terminal the video window shows.\<close>

lemma zone_apart:
  assumes "video_inv k" "in_kernel a n"
  shows "apart (translate k) VIDEO zone a n"
  unfolding apart_def
proof (intro allI impI)
  fix i j assume i: "i < zone" and j: "j < n"
  define m off where "m = i div 4096" and "off = i mod 4096"
  have m: "m < 4" "off < 4096" "i = 4096 * m + off" using i by (auto simp: m_def off_def zone_def)
  have km: "kernel_map (term_frame (display_terminal k) (active_terminal k)) (pg k)"
    and t: "active_terminal k \<in> {0, 1, 2}" using assms(1) by (simp_all add: video_inv_def)
  have "VIDEO + of_nat i = of_nat (4096 * (0xB8 + m) + off)" by (simp add: VIDEO_def m(3))
  also have "\<dots> = in_page (of_nat (0xB8 + m)) off" by (rule in_page_of_nat [symmetric]) (use m in simp)
  finally have w: "walk (pg k) (VIDEO + of_nat i) = Some (in_page (if 0xB8 + m = VIDEO_IND
      then term_frame (display_terminal k) (active_terminal k)
      else if 0xB8 + m = STATIC_VIDEO_IND then of_nat VIDEO_IND else of_nat (0xB8 + m)) off)"
    using walk_low [OF km, of "0xB8 + m" off] m by simp
  have low: "unat (in_page (of_nat f) off) < 0x400000" if "f < 0x400" for f
  proof -
    have "unat (of_nat (4096 * f + off) :: u32) = 4096 * f + off" by (rule unat_of_nat_small) (use that m in simp)
    then show ?thesis using in_page_of_nat [of f off] that m by simp
  qed
  have "\<exists>p. walk (pg k) (VIDEO + of_nat i) = Some p \<and> unat p < 0x400000"
    unfolding w using term_frame_low [OF t m(2), of "display_terminal k"] low [of VIDEO_IND] low [of "0xB8 + m"] m(1)
    by (simp add: VIDEO_IND_def)
  moreover have "walk (pg k) (a + of_nat j) = Some (a + of_nat j)" "0x400000 \<le> unat (a + of_nat j)"
    using in_kernel_walk [OF km assms(2) j] assms(2) by (simp_all add: in_kernel_def)
  ultimately show "translate k (VIDEO + of_nat i) \<noteq> translate k (a + of_nat j)" by auto
qed

text \<open>A literal of the kernel is where its address says.\<close>

definition literal_ok :: "'a kernel_scheme \<Rightarrow> string \<Rightarrow> bool" where
  "literal_ok k s \<longleftrightarrow> cstring (ldb k) (literal k s) (chars s) \<and> in_kernel (literal k s) (length s + 1)"

lemma clear_console [simp]:
  "screen_x (clear k) = screen_x k" "screen_y (clear k) = screen_y k" "iflag (clear k) = iflag k"
  using screen_only_clear [of k] by (auto simp: screen_only_def)

lemma printk_message:
  fixes k :: "'a kernel_scheme"
  assumes "video_inv k" "literal_ok k s" "ch CHR ''%'' \<notin> set (chars s)" "con_ok 100 k" "newlines (chars s) \<le> 1"
  shows "printk s [] (clear (cli k)) = Some (fold putc (chars s) (clear (cli k)))"
proof -
  let ?k = "clear (cli k)"
  have inv: "video_inv (cli k)" using assms(1) video_inv_cong [of "cli k" k] by (simp add: cli_def)
  obtain v where km: "kernel_map v (pg k)" using assms(1) by (auto simp: video_inv_def)
  have lit: "literal ?k = literal k" "va ?k = va k" "conv_buf ?k = conv_buf k"
    using screen_only_clear [of "cli k"] by (auto simp: screen_only_def cli_def)
  have kp: "keeps (term_frame 0 0) (cli k) ?k"
    using keeps_clear [OF shows_frame_windows(2), of v "cli k"] km by (simp add: term_frame_def cli_def)
  have "ldb ?k (literal k s + of_nat i) = ldb k (literal k s + of_nat i)" if "i < length s + 1" for i
    using keeps_ldb [OF kp in_kernel_off_screen [of v _ "literal k s" "length s + 1"] that] km assms(2) ldb_cli [of k]
    by (simp add: literal_ok_def cli_def)
  then have "cstring (ldb ?k) (literal k s) (chars s) = cstring (ldb k) (literal k s) (chars s)"
    by (intro cstring_cong) auto
  moreover have "apart (translate ?k) VIDEO zone (literal k s) (length s + 1)"
    using zone_apart [OF inv, of "literal k s" "length s + 1"] assms(2) by (simp add: literal_ok_def)
  moreover have "con_ok 100 ?k" using assms(4) by (simp add: con_ok_def cli_def)
  ultimately show ?thesis
    using printf_plain [of ?k "literal k s" "chars s" 100 "va k" "conv_buf k"] assms(2,3,5)
    by (simp add: printk_def lit literal_ok_def)
qed

text \<open>The message of each exception.\<close>

fun exception_message :: "handler \<Rightarrow> string" where
  "exception_message H_exception_de = ''0:Divide by zero!''"
| "exception_message H_exception_db = ''1:Debug exception!''"
| "exception_message H_exception_nmi = ''2:Non-maskable interrupt!''"
| "exception_message H_exception_bp = ''3:Breakpoint Exception!''"
| "exception_message H_exception_of = ''4:overflow!''"
| "exception_message H_exception_br = ''5:bound range exceeded!''"
| "exception_message H_exception_ud = ''6:Invalid Opcode!''"
| "exception_message H_exception_nm = ''7:Device Not Available!''"
| "exception_message H_exception_df = ''8:Double Fault!''"
| "exception_message H_exception_cs = ''9:Coprocessor Segment Overrun!''"
| "exception_message H_exception_ts = ''10:Invalid TSS!''"
| "exception_message H_exception_np = ''11:Segment Not Present!''"
| "exception_message H_exception_ss = ''12:Stack Fault!''"
| "exception_message H_exception_gp = ''13:General Protection Exception!''"
| "exception_message H_exception_pf = ''14:Page-Fault!''"
| "exception_message H_exception_rs = ''15:reserved, test error!''"
| "exception_message H_exception_mf = ''16:FPU Floating-Point Error!''"
| "exception_message H_exception_ac = ''17:Alignment Check Exception!''"
| "exception_message H_exception_mc = ''18:Machine-Check Exception!''"
| "exception_message H_exception_xf = ''19:SIMD Floating-Point Exception!''"
| "exception_message _ = []"

lemma run_exception:
  assumes "h \<in> set exception_handlers"
  shows "run_handler dev r h k = map_option Spin (printk (exception_message h) [] (clear (cli k)))"
  by (cases h) (use assms in \<open>simp_all add: exception_handlers_def run_handler_def map_conv_bind_option Let_def comp_def
      exception_de_def exception_db_def exception_nmi_def exception_bp_def exception_of_def exception_br_def
      exception_ud_def exception_nm_def exception_df_def exception_cs_def exception_ts_def exception_np_def
      exception_ss_def exception_gp_def exception_pf_def exception_rs_def exception_mf_def exception_ac_def
      exception_mc_def exception_xf_def\<close>)

lemma plain_messages:
  "h \<in> set exception_handlers \<Longrightarrow> ch CHR ''%'' \<notin> set (chars (exception_message h)) \<and> newlines (chars (exception_message h)) = 0"
  by (auto simp: exception_handlers_def newline_def)

text \<open>Every exception ends with its message on the console and interrupts off for good.\<close>

lemma exception_stops:
  fixes k :: "'a kernel_scheme"
  assumes "idt_ready k" "v < 20" "video_inv k" "con_ok 100 k" "literal_ok k (exception_message (vector_handler v))"
  shows "\<exists>k'. deliver dev r v k = Some (Spin k') \<and> \<not> iflag k' \<and>
    k' = fold putc (chars (exception_message (vector_handler v))) (clear (cli k))"
proof -
  let ?h = "vector_handler v"
  have "length exception_handlers = 20" by (simp add: exception_handlers_def)
  then have h: "?h \<in> set exception_handlers" using nth_mem [of v exception_handlers] assms(2) by (simp add: vector_handler_def)
  have "printk (exception_message ?h) [] (clear (cli k)) = Some (fold putc (chars (exception_message ?h)) (clear (cli k)))"
    using printk_message [OF assms(3,5) _ assms(4)] plain_messages [OF h] by simp
  then show ?thesis
    using deliver_ready [OF assms(1), of v] assms(2) by (simp add: run_exception [OF h]) (simp add: cli_def)
qed

end
