(* ===== verification/Kernel.thy ===== *)
theory Kernel
  imports Idt
begin

text \<open>
  \<^verbatim>\<open>student-distrib/kernel.c\<close>: the C entry point. It prints what the boot loader passed, records where
  the file system image was loaded, builds the LDT and TSS descriptors, initialises every
  component and starts the first shell.
\<close>

section \<open>Segment descriptors\<close>

definition KERNEL_TSS :: u16 where "KERNEL_TSS = 0x0030"
definition KERNEL_LDT :: u16 where "KERNEL_LDT = 0x0038"
definition TSS_SIZE :: u32 where "TSS_SIZE = 104"

definition SET_LDT_PARAMS :: "seg_desc_t \<Rightarrow> u32 \<Rightarrow> u32 \<Rightarrow> seg_desc_t" where
  "SET_LDT_PARAMS str addr lim =
     (let str = str\<lparr>base_31_24 := ucast (drop_bit 24 (addr AND 0xFF000000))\<rparr>;
          str = str\<lparr>base_23_16 := ucast (drop_bit 16 (addr AND 0x00FF0000))\<rparr>;
          str = str\<lparr>base_15_00 := ucast (addr AND 0x0000FFFF)\<rparr>;
          str = str\<lparr>seg_lim_19_16 := ucast (drop_bit 16 (lim AND 0x000F0000))\<rparr>
      in str\<lparr>seg_lim_15_00 := ucast (lim AND 0x0000FFFF)\<rparr>)"

definition SET_TSS_PARAMS :: "seg_desc_t \<Rightarrow> u32 \<Rightarrow> u32 \<Rightarrow> seg_desc_t" where
  "SET_TSS_PARAMS str addr lim =
     (let str = str\<lparr>base_31_24 := ucast (drop_bit 24 (addr AND 0xFF000000))\<rparr>;
          str = str\<lparr>base_23_16 := ucast (drop_bit 16 (addr AND 0x00FF0000))\<rparr>;
          str = str\<lparr>base_15_00 := ucast (addr AND 0x0000FFFF)\<rparr>;
          str = str\<lparr>seg_lim_19_16 := ucast (drop_bit 16 (lim AND 0x000F0000))\<rparr>
      in str\<lparr>seg_lim_15_00 := ucast (lim AND 0x0000FFFF)\<rparr>)"

definition lldt :: "u16 \<Rightarrow> 'a kernel_scheme \<Rightarrow> 'a kernel_scheme" where
  "lldt desc k = k\<lparr>ldtr := desc\<rparr>"

definition ltr :: "u16 \<Rightarrow> 'a kernel_scheme \<Rightarrow> 'a kernel_scheme" where
  "ltr desc k = k\<lparr>tr := desc\<rparr>"

text \<open>The two descriptors are built in uninitialised locals; \<open>junk\<close> is what those hold.\<close>

definition build_ldt :: "seg_desc_t \<Rightarrow> 'a kernel_scheme \<Rightarrow> 'a kernel_scheme" where
  "build_ldt junk k =
     (let the_ldt_desc = junk\<lparr>sd_granularity := 0x0, sd_opsize := 0x1, sd_reserved := 0x0, sd_avail := 0x0,
            sd_present := 0x1, sd_dpl := 0x0, sd_sys := 0x0, sd_type := 0x2\<rparr>;
          the_ldt_desc = SET_LDT_PARAMS the_ldt_desc (ldt_addr k) (ldt_size k);
          k = k\<lparr>ldt_desc_ptr := the_ldt_desc\<rparr>
      in lldt KERNEL_LDT k)"

definition build_tss :: "seg_desc_t \<Rightarrow> 'a kernel_scheme \<Rightarrow> 'a kernel_scheme" where
  "build_tss junk k =
     (let the_tss_desc = junk\<lparr>sd_granularity := 0x0, sd_opsize := 0x0, sd_reserved := 0x0, sd_avail := 0x0,
            seg_lim_19_16 := ucast (TSS_SIZE AND 0x000F0000), sd_present := 0x1, sd_dpl := 0x0, sd_sys := 0x0,
            sd_type := 0x9, seg_lim_15_00 := ucast (TSS_SIZE AND 0x0000FFFF)\<rparr>;
          the_tss_desc = SET_TSS_PARAMS the_tss_desc (tss_addr k) (tss_size k);
          k = k\<lparr>tss_desc_ptr := the_tss_desc\<rparr>;
          k = k\<lparr>tss_ldt_segment_selector := KERNEL_LDT\<rparr>;
          k = k\<lparr>tss_ss0 := KERNEL_DS\<rparr>;
          k = k\<lparr>tss_esp0 := 0x800000\<rparr>
      in ltr KERNEL_TSS k)"

section \<open>The boot loader's information\<close>

definition MULTIBOOT_BOOTLOADER_MAGIC :: u32 where "MULTIBOOT_BOOTLOADER_MAGIC = 0x2BADB002"

text \<open>\<^verbatim>\<open>multiboot_info_t\<close>, \<^verbatim>\<open>module_t\<close> and \<^verbatim>\<open>memory_map_t\<close> by the offsets of their fields.\<close>

definition mbi_flags :: "'a machine_scheme \<Rightarrow> u32 \<Rightarrow> u32" where "mbi_flags k mbi = ldw k mbi"
definition mbi_mem_lower :: "'a machine_scheme \<Rightarrow> u32 \<Rightarrow> u32" where "mbi_mem_lower k mbi = ldw k (mbi + 4)"
definition mbi_mem_upper :: "'a machine_scheme \<Rightarrow> u32 \<Rightarrow> u32" where "mbi_mem_upper k mbi = ldw k (mbi + 8)"
definition mbi_boot_device :: "'a machine_scheme \<Rightarrow> u32 \<Rightarrow> u32" where "mbi_boot_device k mbi = ldw k (mbi + 12)"
definition mbi_cmdline :: "'a machine_scheme \<Rightarrow> u32 \<Rightarrow> u32" where "mbi_cmdline k mbi = ldw k (mbi + 16)"
definition mbi_mods_count :: "'a machine_scheme \<Rightarrow> u32 \<Rightarrow> u32" where "mbi_mods_count k mbi = ldw k (mbi + 20)"
definition mbi_mods_addr :: "'a machine_scheme \<Rightarrow> u32 \<Rightarrow> u32" where "mbi_mods_addr k mbi = ldw k (mbi + 24)"
definition elf_num :: "'a machine_scheme \<Rightarrow> u32 \<Rightarrow> u32" where "elf_num k elf_sec = ldw k elf_sec"
definition elf_size :: "'a machine_scheme \<Rightarrow> u32 \<Rightarrow> u32" where "elf_size k elf_sec = ldw k (elf_sec + 4)"
definition elf_addr :: "'a machine_scheme \<Rightarrow> u32 \<Rightarrow> u32" where "elf_addr k elf_sec = ldw k (elf_sec + 8)"
definition elf_shndx :: "'a machine_scheme \<Rightarrow> u32 \<Rightarrow> u32" where "elf_shndx k elf_sec = ldw k (elf_sec + 12)"
definition mbi_mmap_length :: "'a machine_scheme \<Rightarrow> u32 \<Rightarrow> u32" where "mbi_mmap_length k mbi = ldw k (mbi + 44)"
definition mbi_mmap_addr :: "'a machine_scheme \<Rightarrow> u32 \<Rightarrow> u32" where "mbi_mmap_addr k mbi = ldw k (mbi + 48)"
definition mod_start :: "'a machine_scheme \<Rightarrow> u32 \<Rightarrow> u32" where "mod_start k m = ldw k m"
definition mod_end :: "'a machine_scheme \<Rightarrow> u32 \<Rightarrow> u32" where "mod_end k m = ldw k (m + 4)"
definition mmap_size :: "'a machine_scheme \<Rightarrow> u32 \<Rightarrow> u32" where "mmap_size k m = ldw k m"
definition mmap_base_low :: "'a machine_scheme \<Rightarrow> u32 \<Rightarrow> u32" where "mmap_base_low k m = ldw k (m + 4)"
definition mmap_base_high :: "'a machine_scheme \<Rightarrow> u32 \<Rightarrow> u32" where "mmap_base_high k m = ldw k (m + 8)"
definition mmap_length_low :: "'a machine_scheme \<Rightarrow> u32 \<Rightarrow> u32" where "mmap_length_low k m = ldw k (m + 12)"
definition mmap_length_high :: "'a machine_scheme \<Rightarrow> u32 \<Rightarrow> u32" where "mmap_length_high k m = ldw k (m + 16)"
definition mmap_type :: "'a machine_scheme \<Rightarrow> u32 \<Rightarrow> u32" where "mmap_type k m = ldw k (m + 20)"

definition CHECK_FLAG :: "u32 \<Rightarrow> nat \<Rightarrow> bool" where
  "CHECK_FLAG fl b \<longleftrightarrow> fl AND push_bit b 1 \<noteq> 0"

text \<open>The first 16 bytes of a module; a \<^verbatim>\<open>char\<close> is passed sign-extended.\<close>

fun print_bytes :: "u32 \<Rightarrow> nat \<Rightarrow> 'a kernel_scheme \<Rightarrow> 'a kernel_scheme option" where
  "print_bytes a 0 k = Some k"
| "print_bytes a (Suc left) k = do {
     k \<leftarrow> printk ''0x%x '' [word_of_int (sint (ldb k a))] k;
     print_bytes (a + 1) left k
   }"

partial_function (option) print_modules :: "u32 \<Rightarrow> u32 \<Rightarrow> u32 \<Rightarrow> 'a kernel_scheme \<Rightarrow> 'a kernel_scheme option" where
  "print_modules mbi md mod_count k =
     (if mod_count < mbi_mods_count k mbi
      then do {
        k \<leftarrow> printk (''Module %d loaded at address: 0x%#x'' @ [CHR 0x0A]) [mod_count, mod_start k md] k;
        let k = (if file_start k = 0 then k\<lparr>file_start := mod_start k md\<rparr> else k);
        k \<leftarrow> printk (''Module %d ends at address: 0x%#x'' @ [CHR 0x0A]) [mod_count, mod_end k md] k;
        k \<leftarrow> printk (''First few bytes of module:'' @ [CHR 0x0A]) [] k;
        k \<leftarrow> print_bytes (mod_start k md) 16 k;
        k \<leftarrow> printk [CHR 0x0A] [] k;
        print_modules mbi (md + 16) (mod_count + 1) k
      }
      else Some k)"

partial_function (option) print_mmap :: "u32 \<Rightarrow> u32 \<Rightarrow> 'a kernel_scheme \<Rightarrow> 'a kernel_scheme option" where
  "print_mmap mbi mmap k =
     (if mmap < mbi_mmap_addr k mbi + mbi_mmap_length k mbi
      then do {
        k \<leftarrow> printk (''    size = 0x%x, base_addr = 0x%#x%#x'' @ [CHR 0x0A] @
               ''    type = 0x%x,  length    = 0x%#x%#x'' @ [CHR 0x0A])
             [mmap_size k mmap, mmap_base_high k mmap, mmap_base_low k mmap,
              mmap_type k mmap, mmap_length_high k mmap, mmap_length_low k mmap] k;
        print_mmap mbi (mmap + mmap_size k mmap + 4) k
      }
      else Some k)"

text \<open>
  Everything up to the descriptors: \<open>None\<close> for a loop that does not end, \<open>Inl\<close> for an early
  return.
\<close>

definition print_info :: "u32 \<Rightarrow> 'a kernel_scheme \<Rightarrow> ('a kernel_scheme + 'a kernel_scheme) option" where
  "print_info mbi k = do {
     k \<leftarrow> printk (''flags = 0x%#x'' @ [CHR 0x0A]) [mbi_flags k mbi] k;
     k \<leftarrow> (if CHECK_FLAG (mbi_flags k mbi) 0
           then printk (''mem_lower = %uKB, mem_upper = %uKB'' @ [CHR 0x0A]) [mbi_mem_lower k mbi, mbi_mem_upper k mbi] k
           else Some k);
     k \<leftarrow> (if CHECK_FLAG (mbi_flags k mbi) 1
           then printk (''boot_device = 0x%#x'' @ [CHR 0x0A]) [mbi_boot_device k mbi] k else Some k);
     k \<leftarrow> (if CHECK_FLAG (mbi_flags k mbi) 2
           then printk (''cmdline = %s'' @ [CHR 0x0A]) [mbi_cmdline k mbi] k else Some k);
     k \<leftarrow> (if CHECK_FLAG (mbi_flags k mbi) 3
           then print_modules mbi (mbi_mods_addr k mbi) 0 (k\<lparr>file_start := 0\<rparr>) else Some k);
     if CHECK_FLAG (mbi_flags k mbi) 4 \<and> CHECK_FLAG (mbi_flags k mbi) 5
     then do { k \<leftarrow> printk (''Both bits 4 and 5 are set.'' @ [CHR 0x0A]) [] k; Some (Inl k) }
     else do {
       k \<leftarrow> (if CHECK_FLAG (mbi_flags k mbi) 5
             then let elf_sec = mbi + 28 in
                  printk (''elf_sec: num = %u, size = 0x%#x, addr = 0x%#x, shndx = 0x%#x'' @ [CHR 0x0A])
                    [elf_num k elf_sec, elf_size k elf_sec, elf_addr k elf_sec, elf_shndx k elf_sec] k
             else Some k);
       k \<leftarrow> (if CHECK_FLAG (mbi_flags k mbi) 6
             then do {
               k \<leftarrow> printk (''mmap_addr = 0x%#x, mmap_length = 0x%x'' @ [CHR 0x0A])
                      [mbi_mmap_addr k mbi, mbi_mmap_length k mbi] k;
               print_mmap mbi (mbi_mmap_addr k mbi) k
             }
             else Some k);
       Some (Inr k)
     }
   }"

section \<open>Starting the system\<close>

text \<open>The initialisation of the components, in the order of \<^verbatim>\<open>entry\<close>.\<close>

definition init_components :: "device \<Rightarrow> 'a kernel_scheme \<Rightarrow> 'a kernel_scheme" where
  "init_components dev k =
     (let k = i8259_init dev k;
          k = initialize_idt k;
          k = lidt k;
          k = k\<lparr>pg := paging_init (pg k)\<rparr>;
          k = filesys_init k;
          k = keyboard_init dev k;
          k = rtc_init dev k
      in pit_init dev k)"

text \<open>\<^verbatim>\<open>execute_test\<close> of \<^verbatim>\<open>tests.c\<close>: start a shell, again whenever that fails.\<close>

partial_function (option) execute_test :: "'a kernel_scheme \<Rightarrow> 'a kernel_scheme outcome option" where
  "execute_test k =
     (case execute_with_terminal_num (shell_name k) 0 1 k of
        None \<Rightarrow> None
      | Some r \<Rightarrow> (case r of
          Ret k v \<Rightarrow> execute_test k
        | To_user k e \<Rightarrow> Some (To_user k e)
        | Resume k e b \<Rightarrow> Some (Resume k e b)
        | Spin k \<Rightarrow> Some (Spin k)))"

text \<open>The output of the test's result is never reached.\<close>

definition launch_tests :: "'a kernel_scheme \<Rightarrow> 'a kernel_scheme outcome option" where
  "launch_tests k = execute_test (clear k)"

definition entry :: "device \<Rightarrow> seg_desc_t \<Rightarrow> seg_desc_t \<Rightarrow> u32 \<Rightarrow> u32 \<Rightarrow> 'a kernel_scheme \<Rightarrow> 'a kernel_scheme outcome option" where
  "entry dev junk junk' magic addr k = do {
     let k = clear k;
     if magic \<noteq> MULTIBOOT_BOOTLOADER_MAGIC
     then do { k \<leftarrow> printk (''Invalid magic number: 0x%#x'' @ [CHR 0x0A]) [magic] k; Some (Ret k 0) }
     else do {
       r \<leftarrow> print_info addr k;
       case r of
         Inl k \<Rightarrow> Some (Ret k 0)
       | Inr k \<Rightarrow> do {
           let k = build_ldt junk k;
           let k = build_tss junk' k;
           let k = init_components dev k;
           k \<leftarrow> printk (''Enabling Interrupts'' @ [CHR 0x0A]) [] k;
           let k = sti k;
           launch_tests k
         }
     }
   }"

section \<open>The descriptors that are built\<close>

text \<open>The base and limit the processor assembles from a descriptor.\<close>

definition seg_base :: "seg_desc_t \<Rightarrow> u32" where
  "seg_base d = push_bit 24 (ucast (base_31_24 d)) OR push_bit 16 (ucast (base_23_16 d)) OR ucast (base_15_00 d)"

definition seg_limit :: "seg_desc_t \<Rightarrow> u32" where
  "seg_limit d = push_bit 16 (ucast (seg_lim_19_16 d)) OR ucast (seg_lim_15_00 d)"

lemma desc_masks:
  "(0xFF000000 :: u32) = push_bit 24 (mask 8)" "(0x00FF0000 :: u32) = push_bit 16 (mask 8)"
  "(0x0000FFFF :: u32) = mask 16" "(0x000F0000 :: u32) = push_bit 16 (mask 4)"
  by (simp_all add: mask_eq_exp_minus_1 push_bit_eq_mult)

lemma SET_LDT_PARAMS_parts [simp]:
  "seg_base (SET_LDT_PARAMS d a l) = a" "seg_limit (SET_LDT_PARAMS d a l) = take_bit 20 l"
proof -
  have less: "n - 16 < 8" if "n < 32" "\<not> bit a (24 + (n - 24))" "bit a n" for n
    using that by (cases "24 \<le> n") auto
  show "seg_base (SET_LDT_PARAMS d a l) = a"
    unfolding SET_LDT_PARAMS_def seg_base_def Let_def desc_masks
    by (rule bit_word_eqI) (auto simp: bit_simps less dest: bit_imp_le_length)
  show "seg_limit (SET_LDT_PARAMS d a l) = take_bit 20 l"
    unfolding SET_LDT_PARAMS_def seg_limit_def Let_def desc_masks
    by (rule bit_word_eqI) (auto simp: bit_simps dest: bit_imp_le_length)
qed

lemma SET_TSS_PARAMS_LDT: "SET_TSS_PARAMS = SET_LDT_PARAMS"
  by (simp add: fun_eq_iff SET_TSS_PARAMS_def SET_LDT_PARAMS_def)

text \<open>
  The boot code builds an LDT and a TSS descriptor from which the processor reassembles
  exactly the address of the table and the low 20 bits of its size, both present and of level 0,
  loads both selectors and sets the kernel stack of the TSS.
\<close>

theorem descriptors_built:
  "let k' = build_tss junk' (build_ldt junk k) in
     seg_base (ldt_desc_ptr k') = ldt_addr k \<and> seg_limit (ldt_desc_ptr k') = take_bit 20 (ldt_size k) \<and>
     seg_base (tss_desc_ptr k') = tss_addr k \<and> seg_limit (tss_desc_ptr k') = take_bit 20 (tss_size k) \<and>
     sd_type (ldt_desc_ptr k') = 2 \<and> sd_type (tss_desc_ptr k') = 9 \<and>
     sd_present (ldt_desc_ptr k') = 1 \<and> sd_present (tss_desc_ptr k') = 1 \<and>
     sd_dpl (ldt_desc_ptr k') = 0 \<and> sd_dpl (tss_desc_ptr k') = 0 \<and>
     tr k' = KERNEL_TSS \<and> ldtr k' = KERNEL_LDT \<and> tss_ss0 k' = KERNEL_DS \<and> tss_esp0 k' = 0x800000"
  by (simp add: build_tss_def build_ldt_def Let_def ltr_def lldt_def SET_TSS_PARAMS_LDT)
    (simp add: SET_LDT_PARAMS_def Let_def)

end
