(* ===== verification/BootInfo.thy ===== *)
theory BootInfo
  imports Kernel
begin

text \<open>
  The first part of booting: what \<^verbatim>\<open>entry\<close> prints before paging is on leaves everything alone except
  the screen, the console position and the stack, and the output of the boot information ends.
\<close>

section \<open>Calls of printf with arguments\<close>

lemma push_args_store:
  "push_args a vs k = k\<lparr>phys := store_list (st (translate k)) (phys k) a (concat (map (\<lambda>w. [byte_of w 0, byte_of w 1, byte_of w 2, byte_of w 3]) vs))\<rparr>"
proof (induction vs arbitrary: a k)
  case (Cons v vs)
  show ?case by (simp add: Cons.IH st32_def algebra_simps)
qed simp

lemma push_args_sel [simp]:
  "pg (push_args a vs k) = pg k" "iflag (push_args a vs k) = iflag k" "io (push_args a vs k) = io k"
  by (simp_all add: push_args_store)

lemma push_args_ldb:
  assumes "\<And>i. i < 4 * length vs \<Longrightarrow> translate k (a + of_nat i) \<noteq> translate k b"
  shows "ldb (push_args a vs k) b = ldb k b"
  using assms
proof (induction vs arbitrary: a k)
  case (Cons v vs)
  let ?k = "k\<lparr>phys := st32 (translate k) (phys k) a v\<rparr>"
  have "translate k (a + 4 + of_nat i) \<noteq> translate k b" if "i < 4 * length vs" for i
    using Cons.prems [of "4 + i"] that by (simp add: add.assoc)
  then have "ldb (push_args (a + 4) vs ?k) b = ldb ?k b" by (intro Cons.IH) simp
  moreover have "ldb ?k b = ldb k b"
    using Cons.prems [of 0] Cons.prems [of 1] Cons.prems [of 2] Cons.prems [of 3]
    by (simp add: ldb_def st32_def ld_st add.assoc)
  ultimately show ?case by simp
qed simp

lemma push_args_ldw:
  assumes "block (translate k) a (4 * length vs)" "j < length vs"
  shows "ldw (push_args a vs k) (a + of_nat (4 * j)) = vs ! j"
  using assms
proof (induction vs arbitrary: a k j)
  case (Cons v vs)
  let ?k = "k\<lparr>phys := st32 (translate k) (phys k) a v\<rparr>"
  have b: "block (translate k) (a + of_nat 4) (4 * length vs)" using block_off [of "translate k" a 4] Cons.prems(1) by simp
  show ?case
  proof (cases j)
    case 0
    have "ldb (push_args (a + 4) vs ?k) (a + of_nat i) = ldb ?k (a + of_nat i)" if "i < 4" for i
    proof (rule push_args_ldb)
      fix x assume "x < 4 * length vs"
      then show "translate ?k (a + 4 + of_nat x) \<noteq> translate ?k (a + of_nat i)"
        using block_neq [OF Cons.prems(1), of "4 + x" i] that by (simp add: add.assoc)
    qed
    from this [of 0] this [of 1] this [of 2] this [of 3]
    have "ldw (push_args (a + 4) vs ?k) a = ldw ?k a" by (simp add: ldw_ldb)
    also have "\<dots> = v"
      using ld32_st32 [OF block_mono [OF Cons.prems(1), of 4]] by (simp add: ldw_def)
    finally show ?thesis using 0 by simp
  next
    case (Suc j')
    have "ldw (push_args (a + 4) vs ?k) (a + 4 + of_nat (4 * j')) = vs ! j'"
      by (rule Cons.IH) (use b Cons.prems(2) Suc in simp_all)
    then show ?thesis using Suc by (simp add: add.assoc)
  qed
qed simp


section \<open>The row of the console\<close>

text \<open>A bound on the row: a newline moves down, any other character wraps back to the screen.\<close>

fun rows :: "nat \<Rightarrow> u8 list \<Rightarrow> nat" where
  "rows n [] = n"
| "rows n (c # cs) = rows (if newline c then n + 1 else 24) cs"

fun fmt_rows :: "nat \<Rightarrow> directive list \<Rightarrow> nat" where
  "fmt_rows n [] = n"
| "fmt_rows n (d # ds) = fmt_rows (case d of Lit c \<Rightarrow> (if newline c then n + 1 else 24) | _ \<Rightarrow> n) ds"

lemma con_ok_rows:
  fixes k :: "'a screen_scheme"
  assumes "con_ok n k" "24 \<le> n"
  shows "con_ok (rows n cs) (fold putc cs k)"
  using assms
proof (induction cs arbitrary: n k)
  case (Cons c cs)
  have "con_ok (if newline c then n + 1 else 24) (putc c k)"
  proof (cases "newline c")
    case True
    then show ?thesis using con_ok_putc [OF Cons.prems, of c] by simp
  next
    case False
    have "0 \<le> screen_x (putc c k)" "screen_x (putc c k) < 80" "0 \<le> screen_y (putc c k)"
      using con_ok_putc [OF Cons.prems, of c] by (simp_all add: con_ok_def)
    moreover have "screen_y (putc c k) \<le> 24"
      using False Cons.prems(1) smod_int_range [of 25 "screen_y k + (screen_x k + 1) smod 80 sdiv 80"]
      by (simp add: putc_def newline_def Let_def NUM_ROWS_def NUM_COLS_def put_cell_def stb_def)
    ultimately show ?thesis using False by (simp add: con_ok_def)
  qed
  then show ?case using Cons.IH [of "if newline c then n + 1 else 24" "putc c k"] Cons.prems(2) by simp
qed simp

lemma rows_mono: "m \<le> n \<Longrightarrow> rows m cs \<le> rows n cs"
  by (induction cs arbitrary: m n) auto

lemma rows_quiet: "newlines cs = 0 \<Longrightarrow> 24 \<le> n \<Longrightarrow> rows n cs \<le> n"
proof (induction cs arbitrary: n)
  case (Cons c cs)
  then have "rows 24 cs \<le> 24" "\<not> newline c" by (auto split: if_splits)
  then show ?case using Cons.prems(2) by simp
qed simp

lemma rows_append: "rows n (xs @ ys) = rows (rows n xs) ys"
  by (induction xs arbitrary: n) auto

lemma newlines_replicate: "\<not> newline c \<Longrightarrow> newlines (replicate n c) = 0"
  by (simp add: newlines_def)

lemma newlines_numeral [simp]:
  fixes v :: u32
  assumes "2 \<le> r" "r \<le> 36"
  shows "newlines (numeral_string r (unat v)) = 0"
proof (rule numeral_string_facts)
  have "unat v < 2 ^ 32" using unsigned_less [of v, where 'a = nat] by simp
  also have "(2 :: nat) ^ 32 \<le> r ^ 32" using assms(1) by (rule power_mono) simp
  finally show "unat v < r ^ 32" .
qed (use assms in simp_all)

lemma rows_render:
  assumes "\<And>v. v \<in> set (str_args ds vs) \<Longrightarrow> newlines (str v) = 0" "Character \<notin> set ds" "24 \<le> n"
    and "length vs = length (filter takes_arg ds)"
  shows "rows n (render str ds vs) \<le> fmt_rows n ds"
    "newlines (render str ds vs) \<le> length ds"
proof -
  have "rows n (render str ds vs) \<le> fmt_rows n ds \<and> newlines (render str ds vs) \<le> length ds"
    using assms
  proof (induction ds arbitrary: n vs)
    case (Cons d ds)
    define ws where "ws = (if takes_arg d then tl vs else vs)"
    have ne: "takes_arg d \<Longrightarrow> vs \<noteq> []" using Cons.prems(4) by auto
    let ?t = "dir_text str d (hd vs)"
    have r: "render str (d # ds) vs = ?t @ render str ds ws"
      using ne by (cases vs; cases d) (auto simp: ws_def)
    have sa: "set (str_args ds ws) \<subseteq> set (str_args (d # ds) vs)" "d = Str \<Longrightarrow> hd vs \<in> set (str_args (d # ds) vs)"
      using ne by (cases vs; cases d; auto simp: ws_def)+
    have ih: "24 \<le> m \<Longrightarrow> rows m (render str ds ws) \<le> fmt_rows m ds \<and> newlines (render str ds ws) \<le> length ds" for m
      by (rule Cons.IH) (use Cons.prems sa in \<open>auto simp: ws_def\<close>)
    show ?case
    proof (cases "\<exists>c. d = Lit c")
      case True
      then obtain c where d: "d = Lit c" by blast
      show ?thesis using ih [of "if newline c then n + 1 else 24"] Cons.prems(3) unfolding r by (auto simp: d)
    next
      case False
      have q: "newlines ?t = 0"
        using False Cons.prems(1) [OF sa(2)] Cons.prems(2)
        by (cases d) (auto simp: newline_def newlines_replicate)
      have "rows n (render str (d # ds) vs) \<le> rows n (render str ds ws)"
        unfolding r rows_append by (rule rows_mono [OF rows_quiet [OF q Cons.prems(3)]])
      then show ?thesis using ih [OF Cons.prems(3)] False q unfolding r by (cases d) auto
    qed
  qed simp
  then show "rows n (render str ds vs) \<le> fmt_rows n ds" "newlines (render str ds vs) \<le> length ds" by auto
qed


section \<open>Printing before paging is on\<close>

text \<open>
  \<open>scratch\<close>: the bytes the output may change, the 32 KB from \<open>VIDEO\<close> and the parts of the stack with
  the arguments and the conversion buffer. \<open>stack_ok\<close>: these are apart.
\<close>

definition unpaged :: "'a machine_scheme \<Rightarrow> bool" where
  "unpaged k \<longleftrightarrow> \<not> bit (cr0 (pg k)) 31"

definition scratch :: "'a kernel_scheme \<Rightarrow> u32 \<Rightarrow> bool" where
  "scratch k a \<longleftrightarrow> (\<exists>i<0x8000. a = VIDEO + of_nat i) \<or> (\<exists>i<64. a = conv_buf k + of_nat i) \<or>
     (\<exists>i<32. a = va k + of_nat i)"

definition clean :: "'a kernel_scheme \<Rightarrow> u32 \<Rightarrow> nat \<Rightarrow> bool" where
  "clean k a n \<longleftrightarrow> (\<forall>i<n. \<not> scratch k (a + of_nat i))"

definition stack_ok :: "'a kernel_scheme \<Rightarrow> bool" where
  "stack_ok k \<longleftrightarrow> apart Some VIDEO 0x8000 (conv_buf k) 64 \<and> apart Some VIDEO 0x8000 (va k) 32 \<and>
     apart Some (va k) 32 (conv_buf k) 64"

text \<open>\<open>boot_rel n k0 k\<close>: \<open>k\<close> is \<open>k0\<close> after some output, with the console at most in row \<open>n\<close>.\<close>

definition boot_rel :: "nat \<Rightarrow> 'a kernel_scheme \<Rightarrow> 'a kernel_scheme \<Rightarrow> bool" where
  "boot_rel n k0 k \<longleftrightarrow> (\<exists>p h x y xm ym f. k = k0\<lparr>phys := p, io := h, screen_x := x, screen_y := y,
       screen_x_multi := xm, screen_y_multi := ym, file_start := f\<rparr>) \<and>
     (\<forall>a. \<not> scratch k0 a \<longrightarrow> phys k a = phys k0 a) \<and> con_ok n k"

lemma unpaged_translate [simp]: "unpaged k \<Longrightarrow> translate k = Some"
  by (simp add: unpaged_def walk_def fun_eq_iff)

lemma unpaged_ldb: "unpaged k \<Longrightarrow> ldb k a = phys k a"
  by (simp add: ldb_def ld_def)

lemma boot_rel_sel:
  assumes "boot_rel n k0 k"
  shows "pg k = pg k0" "literal k = literal k0" "va k = va k0" "conv_buf k = conv_buf k0" "con_ok n k"
    "scratch k = scratch k0"
proof -
  obtain p h x y xm ym f where "k = k0\<lparr>phys := p, io := h, screen_x := x, screen_y := y, screen_x_multi := xm,
      screen_y_multi := ym, file_start := f\<rparr>"
    using assms by (auto simp: boot_rel_def)
  then show "pg k = pg k0" "literal k = literal k0" "va k = va k0" "conv_buf k = conv_buf k0" "con_ok n k"
    "scratch k = scratch k0"
    using assms by (auto simp: boot_rel_def scratch_def fun_eq_iff)
qed

lemma boot_rel_ldb:
  assumes "boot_rel n k0 k" "unpaged k0" "clean k0 a m" "i < m"
  shows "ldb k (a + of_nat i) = ldb k0 (a + of_nat i)"
  using assms boot_rel_sel(1) [OF assms(1)] by (simp add: boot_rel_def clean_def ldb_def ld_def)

lemma boot_rel_ldw:
  assumes "boot_rel n k0 k" "unpaged k0" "clean k0 a m" "i + 4 \<le> m"
  shows "ldw k (a + of_nat i) = ldw k0 (a + of_nat i)"
  using boot_rel_ldb [OF assms(1-3), of i] boot_rel_ldb [OF assms(1-3), of "i + 1"]
    boot_rel_ldb [OF assms(1-3), of "i + 2"] boot_rel_ldb [OF assms(1-3), of "i + 3"] assms(4)
  by (simp add: ldw_ldb ac_simps)

lemma boot_rel_mono: "boot_rel m k0 k \<Longrightarrow> m \<le> n \<Longrightarrow> boot_rel n k0 k"
  by (auto simp: boot_rel_def con_ok_def)

text \<open>The directives of a format.\<close>

fun directives :: "string \<Rightarrow> directive list" where
  "directives [] = []"
| "directives (c # cs) =
     (if c \<noteq> CHR ''%'' then Lit (ch c) # directives cs
      else case cs of
          [] \<Rightarrow> []
        | d # ds \<Rightarrow>
            if d = CHR ''#'' then AltHex # directives (tl ds)
            else (if d = CHR ''x'' then Hex else if d = CHR ''u'' then Unsigned
                  else if d = CHR ''d'' then Decimal else Str) # directives ds)"

definition fmt_ok :: "string \<Rightarrow> bool" where
  "fmt_ok s \<longleftrightarrow> concat (map dir_chars (directives s)) = chars s \<and> Lit (ch CHR ''%'') \<notin> set (directives s) \<and>
     Character \<notin> set (directives s) \<and> length (filter takes_arg (directives s)) \<le> 8 \<and> length (directives s) \<le> 76"

definition has_literal :: "'a kernel_scheme \<Rightarrow> string \<Rightarrow> bool" where
  "has_literal k s \<longleftrightarrow> cstring (ldb k) (literal k s) (chars s) \<and> clean k (literal k s) (length s + 1)"

lemma stack_okD:
  assumes "stack_ok k"
  shows "apart Some VIDEO zone (conv_buf k) 64" "apart Some VIDEO zone (va k) 32" "apart Some (conv_buf k) 64 (va k) 32"
proof -
  have "apart Some VIDEO 0x8000 a n \<Longrightarrow> apart Some VIDEO zone a n" for a n
    by (erule apart_mono) (simp_all add: zone_def)
  then show "apart Some VIDEO zone (conv_buf k) 64" "apart Some VIDEO zone (va k) 32" "apart Some (conv_buf k) 64 (va k) 32"
    using assms by (auto simp: stack_ok_def intro: apart_sym)
qed

lemma clean_apart:
  assumes "clean k a n"
  shows "apart Some VIDEO zone a n" "apart Some (conv_buf k) 64 a n" "apart Some (va k) 32 a n"
proof -
  have "\<not> scratch k (a + of_nat j)" if "j < n" for j using assms that by (simp add: clean_def)
  moreover have "i < zone \<Longrightarrow> i < 0x8000" for i :: nat by (simp add: zone_def)
  ultimately show "apart Some VIDEO zone a n" "apart Some (conv_buf k) 64 a n" "apart Some (va k) 32 a n"
    unfolding apart_def scratch_def by (metis option.inject)+
qed

lemma block_unpaged: "n \<le> 2 ^ 32 \<Longrightarrow> block Some a n"
  unfolding block_def
proof (intro conjI allI impI)
  fix i j :: nat assume "n \<le> 2 ^ 32" "i < n" "j < n" "Some (a + of_nat i) = Some (a + of_nat j)"
  then have "unat (of_nat i :: u32) = unat (of_nat j :: u32)" "i < 2 ^ 32" "j < 2 ^ 32" by simp_all
  then show "i = j" by (simp add: unat_of_nat_small)
qed simp

lemma fold_putc_form:
  fixes k :: "'a screen_scheme"
  shows "\<exists>p x y. fold putc cs k = k\<lparr>phys := p, screen_x := x, screen_y := y\<rparr>"
proof (induction cs arbitrary: k)
  case Nil
  show ?case by (intro exI [of _ "phys k"] exI [of _ "screen_x k"] exI [of _ "screen_y k"]) simp
next
  case (Cons c cs)
  have "\<exists>p x y. putc c k = k\<lparr>phys := p, screen_x := x, screen_y := y\<rparr>"
  proof (cases "c = 10 \<or> c = 13")
    case True
    then show ?thesis
      by (intro exI [of _ "phys k"] exI [of _ 0] exI [of _ "screen_y k + 1"]) (simp add: putc_def)
  next
    case False
    then show ?thesis by (auto simp: putc_def Let_def put_cell_def stb_def)
  qed
  then obtain p x y where c: "putc c k = k\<lparr>phys := p, screen_x := x, screen_y := y\<rparr>" by blast
  obtain p' x' y' where "fold putc cs (putc c k) = (putc c k)\<lparr>phys := p', screen_x := x', screen_y := y'\<rparr>"
    using Cons.IH by blast
  then show ?case by (intro exI [of _ p'] exI [of _ x'] exI [of _ y']) (simp add: c)
qed

lemma printk_boot:
  fixes k0 k :: "'a kernel_scheme"
  assumes rel: "boot_rel n k0 k" "24 \<le> n" "n \<le> 25" and up: "unpaged k0" and st: "stack_ok k0"
    and s: "fmt_ok s" "has_literal k0 s" "length vs = length (filter takes_arg (directives s))"
    and str: "\<And>v. v \<in> set (str_args (directives s) vs) \<Longrightarrow>
      cstring (ldb k0) v (str v) \<and> clean k0 v (length (str v) + 1) \<and> newlines (str v) = 0"
  shows "\<exists>k'. printk s vs k = Some k' \<and> boot_rel (fmt_rows n (directives s)) k0 k' \<and> file_start k' = file_start k"
proof -
  let ?ds = "directives s" and ?k = "push_args (va k0) vs k" and ?conv = "conv_buf k0"
  note sel = boot_rel_sel [OF rel(1)]
  have tr: "translate k = Some" "translate ?k = Some" using up by (simp_all add: sel(1))
  have len: "4 * length vs \<le> 32" using s(1,3) by (simp add: fmt_ok_def)
  have ldb: "ldb ?k (a + of_nat i) = ldb k0 (a + of_nat i)" if "clean k0 a m" "i < m" for a m i
  proof -
    have "ldb ?k (a + of_nat i) = ldb k (a + of_nat i)"
      by (rule push_args_ldb) (use apartD [OF clean_apart(3) [OF that(1)] _ that(2)] len tr in auto)
    then show ?thesis using boot_rel_ldb [OF rel(1) up that] by simp
  qed
  have cs: "cstring (ldb ?k) a cs = cstring (ldb k0) a cs" if "clean k0 a (length cs + 1)" for a cs
    by (rule cstring_cong) (use ldb [OF that] in auto)
  have q: "quiet ?k ?conv a m" if "clean k0 a m" for a m
    using clean_apart [OF that] tr by (simp add: quiet_def)
  have "quiet ?k ?conv (va k0) (4 * length vs)"
    using stack_okD [OF st] apart_mono [OF _ order_refl len] tr by (simp add: quiet_def)
  moreover have "ldw ?k (va k0 + of_nat (4 * j)) = vs ! j" if "j < length vs" for j
    by (rule push_args_ldw) (use that len tr block_unpaged [of "4 * length vs"] in auto)
  ultimately have call: "call_ok ?k ?conv str ?ds (literal k0 s) vs (va k0)"
    using s str cs q by (simp add: call_ok_def fmt_ok_def has_literal_def)
  have conv: "conv_ok ?k ?conv" using stack_okD(1) [OF st] tr block_unpaged [of 64] by (simp add: conv_ok_def)
  have con: "con_ok n ?k" using sel(5) by (simp add: con_ok_def push_args_store)
  note rr = rows_render [of ?ds vs str n, OF _ _ rel(2) s(3)]
  have nl: "newlines (render str ?ds vs) \<le> 76"
    using rr(2) s(1) str by (simp add: fmt_ok_def)
  obtain k' where k': "printf (literal k0 s) (va k0) ?conv ?k = Some (k', of_nat (length (concat (map dir_chars ?ds))))"
    "same_but ?conv 64 (fold putc (render str ?ds vs) ?k) k'"
    using printf_renders [OF call conv con rel(2)] nl rel(3) by auto
  have "printk s vs k = Some k'" using k'(1) by (simp add: printk_def sel)
  moreover have "\<exists>p h x y xm ym f. k' = k0\<lparr>phys := p, io := h, screen_x := x, screen_y := y, screen_x_multi := xm,
      screen_y_multi := ym, file_start := f\<rparr>" "file_start k' = file_start k"
  proof -
    obtain p x y where f: "fold putc (render str ?ds vs) ?k = ?k\<lparr>phys := p, screen_x := x, screen_y := y\<rparr>"
      using fold_putc_form by blast
    obtain p' h' x' y' xm' ym' f' where k: "k = k0\<lparr>phys := p', io := h', screen_x := x', screen_y := y', screen_x_multi := xm',
      screen_y_multi := ym', file_start := f'\<rparr>"
      using rel(1) by (auto simp: boot_rel_def)
    have "k' = (fold putc (render str ?ds vs) ?k)\<lparr>phys := phys k'\<rparr>" using k'(2) by (simp add: same_but_def)
    then have e: "k' = k0\<lparr>phys := phys k', io := h', screen_x := x, screen_y := y, screen_x_multi := xm',
      screen_y_multi := ym', file_start := f'\<rparr>"
      unfolding f by (cases k0) (simp add: push_args_store k)
    then show "\<exists>p h x y xm ym f. k' = k0\<lparr>phys := p, io := h, screen_x := x, screen_y := y, screen_x_multi := xm,
      screen_y_multi := ym, file_start := f\<rparr>" by blast
    show "file_start k' = file_start k" by (subst e) (simp add: k)
  qed
  moreover have "phys k' a = phys k0 a" if "\<not> scratch k0 a" for a
  proof -
    have cl: "clean k0 a 1" using that by (simp add: clean_def)
    have "ldb k' a = ldb (fold putc (render str ?ds vs) ?k) a"
      using same_but_ldb [OF k'(2), of a 1 0] clean_apart(2) [OF cl] tr by simp
    also have "\<dots> = ldb ?k a"
      using fold_putc(2) [OF con rel(2), of "render str ?ds vs" a 1 0] nl rel(3) clean_apart(1) [OF cl] tr by simp
    also have "\<dots> = ldb k0 a" using ldb [OF cl, of 0] by simp
    finally show ?thesis using up tr same_but_sel(1) [OF k'(2)] by (simp add: ldb_def ld_def)
  qed
  moreover have "con_ok (fmt_rows n ?ds) k'"
  proof -
    have "con_ok (rows n (render str ?ds vs)) k'"
      using con_ok_rows [OF con rel(2)] same_but_con_ok [OF k'(2)] by simp
    moreover have "rows n (render str ?ds vs) \<le> fmt_rows n ?ds" using rr(1) s(1) str by (simp add: fmt_ok_def)
    ultimately show ?thesis by (auto simp: con_ok_def)
  qed
  ultimately show ?thesis by (auto simp: boot_rel_def)
qed

section \<open>The boot information\<close>

text \<open>The formats of the boot output whose arguments are numbers.\<close>

definition boot_formats :: "string list" where
  "boot_formats = [''flags = 0x%#x'' @ [CHR 0x0A], ''mem_lower = %uKB, mem_upper = %uKB'' @ [CHR 0x0A],
     ''boot_device = 0x%#x'' @ [CHR 0x0A], ''Module %d loaded at address: 0x%#x'' @ [CHR 0x0A],
     ''Module %d ends at address: 0x%#x'' @ [CHR 0x0A], ''First few bytes of module:'' @ [CHR 0x0A],
     ''elf_sec: num = %u, size = 0x%#x, addr = 0x%#x, shndx = 0x%#x'' @ [CHR 0x0A],
     ''mmap_addr = 0x%#x, mmap_length = 0x%x'' @ [CHR 0x0A],
     ''    size = 0x%x, base_addr = 0x%#x%#x'' @ [CHR 0x0A] @ ''    type = 0x%x,  length    = 0x%#x%#x'' @ [CHR 0x0A],
     ''0x%x '', ''Invalid magic number: 0x%#x'' @ [CHR 0x0A]]"

definition cmdline_format :: string where "cmdline_format = ''cmdline = %s'' @ [CHR 0x0A]"

definition can_print :: "'a kernel_scheme \<Rightarrow> bool" where
  "can_print k \<longleftrightarrow> unpaged k \<and> stack_ok k \<and> (\<forall>s\<in>set boot_formats. has_literal k s) \<and>
     has_literal k cmdline_format \<and> has_literal k [CHR 0x0A]"

lemma boot_formats_ok:
  "\<forall>s\<in>set boot_formats. fmt_ok s \<and> Str \<notin> set (directives s) \<and> fmt_rows 25 (directives s) \<le> 25"
proof -
  have "list_all (\<lambda>s. fmt_ok s \<and> Str \<notin> set (directives s) \<and> fmt_rows 25 (directives s) \<le> 25) boot_formats"
    by code_simp
  then show ?thesis by (simp add: list_all_iff)
qed

lemma str_args_none: "Str \<notin> set ds \<Longrightarrow> set (str_args ds vs) = {}"
proof (induction ds arbitrary: vs)
  case (Cons d ds)
  then show ?case by (cases vs) auto
qed simp

lemma boot_print:
  fixes k0 k :: "'a kernel_scheme"
  assumes "boot_rel n k0 k" "24 \<le> n" "n \<le> 25" "can_print k0" "s \<in> set boot_formats"
    and "length vs = length (filter takes_arg (directives s))"
  shows "\<exists>k'. printk s vs k = Some k' \<and> boot_rel (fmt_rows n (directives s)) k0 k' \<and> file_start k' = file_start k"
  using printk_boot [OF assms(1-3), of s vs "\<lambda>_. []"] assms(4-6) boot_formats_ok str_args_none [of "directives s" vs]
  by (auto simp: can_print_def)

lemma boot_print_line:
  fixes k0 k :: "'a kernel_scheme"
  assumes "boot_rel 25 k0 k" "can_print k0" "s \<in> set boot_formats"
    and "length vs = length (filter takes_arg (directives s))"
  obtains k' where "printk s vs k = Some k'" "boot_rel 25 k0 k'" "file_start k' = file_start k"
  using boot_print [OF assms(1) _ _ assms(2-4)] boot_formats_ok assms(3) boot_rel_mono by force

lemma print_bytes_ok:
  fixes k0 k :: "'a kernel_scheme"
  assumes "boot_rel n k0 k" "24 \<le> n" "n \<le> 25" "can_print k0"
  shows "\<exists>k'. print_bytes a (Suc m) k = Some k' \<and> boot_rel 24 k0 k' \<and> file_start k' = file_start k"
  using assms(1-3)
proof (induction m arbitrary: a k n)
  case 0
  have r: "fmt_rows n (directives ''0x%x '') = 24" by (simp add: newline_def)
  show ?case
    using boot_print [OF 0 assms(4), of "''0x%x ''" "[word_of_int (sint (ldb k a))]"] r by (auto simp: boot_formats_def)
next
  case (Suc m)
  have r: "fmt_rows n (directives ''0x%x '') = 24" by (simp add: newline_def)
  obtain k1 where k1: "printk ''0x%x '' [word_of_int (sint (ldb k a))] k = Some k1" "boot_rel 24 k0 k1" "file_start k1 = file_start k"
    using boot_print [OF Suc.prems assms(4), of "''0x%x ''" "[word_of_int (sint (ldb k a))]"] r by (auto simp: boot_formats_def)
  show ?case using Suc.IH [OF k1(2), of "a + 1"] k1 by (simp del: print_bytes.simps) (simp add: k1(1))
qed

lemma boot_rel_file_start: "boot_rel n k0 k \<Longrightarrow> boot_rel n k0 (k\<lparr>file_start := f\<rparr>)"
proof -
  assume a: "boot_rel n k0 k"
  then obtain p h x y xm ym g where k: "k = k0\<lparr>phys := p, io := h, screen_x := x, screen_y := y, screen_x_multi := xm,
      screen_y_multi := ym, file_start := g\<rparr>" by (auto simp: boot_rel_def)
  have "k\<lparr>file_start := f\<rparr> = k0\<lparr>phys := p, io := h, screen_x := x, screen_y := y, screen_x_multi := xm,
      screen_y_multi := ym, file_start := f\<rparr>" by (simp add: k)
  moreover have "\<forall>a. \<not> scratch k0 a \<longrightarrow> phys (k\<lparr>file_start := f\<rparr>) a = phys k0 a" "con_ok n (k\<lparr>file_start := f\<rparr>)"
    using a by (simp_all add: boot_rel_def con_ok_def)
  ultimately show ?thesis unfolding boot_rel_def by blast
qed

lemma boot_print_newline:
  fixes k0 k :: "'a kernel_scheme"
  assumes "boot_rel 24 k0 k" "can_print k0"
  obtains k' where "printk [CHR 0x0A] [] k = Some k'" "boot_rel 25 k0 k'" "file_start k' = file_start k"
proof -
  have "directives [CHR 0x0A] = [Lit 10]" "fmt_ok [CHR 0x0A]" by code_simp+
  moreover have "fmt_rows 24 [Lit 10] = 25" by (simp add: newline_def)
  ultimately show thesis
    using that printk_boot [OF assms(1), of "[CHR 0x0A]" "[]" "\<lambda>_. []"] assms(2) by (auto simp: can_print_def)
qed

text \<open>One round of the loop over the modules.\<close>

lemma print_modules_round:
  fixes k0 k :: "'a kernel_scheme"
  assumes "boot_rel 25 k0 k" "can_print k0" "mc < mbi_mods_count k mbi"
  obtains k' where "print_modules mbi md mc k = print_modules mbi (md + 16) (mc + 1) k'" "boot_rel 25 k0 k'"
    "file_start k \<noteq> 0 \<Longrightarrow> file_start k' = file_start k"
    "file_start k = 0 \<Longrightarrow> clean k0 md 4 \<Longrightarrow> file_start k' = mod_start k0 md"
proof -
  let ?s1 = "''Module %d loaded at address: 0x%#x'' @ [CHR 0x0A]" and ?s2 = "''Module %d ends at address: 0x%#x'' @ [CHR 0x0A]"
    and ?s3 = "''First few bytes of module:'' @ [CHR 0x0A]"
  have s: "?s1 \<in> set boot_formats" "?s2 \<in> set boot_formats" "?s3 \<in> set boot_formats" by (simp_all add: boot_formats_def)
  have up: "unpaged k0" using assms(2) by (simp add: can_print_def)
  obtain k1 where k1: "printk ?s1 [mc, mod_start k md] k = Some k1" "boot_rel 25 k0 k1" "file_start k1 = file_start k"
    using boot_print_line [OF assms(1,2) s(1), of "[mc, mod_start k md]"] by auto
  define k2 where "k2 = (if file_start k1 = 0 then k1\<lparr>file_start := mod_start k1 md\<rparr> else k1)"
  have k2: "boot_rel 25 k0 k2" using k1(2) boot_rel_file_start by (auto simp: k2_def)
  obtain k3 where k3: "printk ?s2 [mc, mod_end k2 md] k2 = Some k3" "boot_rel 25 k0 k3" "file_start k3 = file_start k2"
    using boot_print_line [OF k2 assms(2) s(2), of "[mc, mod_end k2 md]"] by auto
  obtain k4 where k4: "printk ?s3 [] k3 = Some k4" "boot_rel 25 k0 k4" "file_start k4 = file_start k3"
    using boot_print_line [OF k3(2) assms(2) s(3), of "[]"] by auto
  obtain k5 where k5: "print_bytes (mod_start k4 md) 16 k4 = Some k5" "boot_rel 24 k0 k5" "file_start k5 = file_start k4"
    using print_bytes_ok [OF k4(2) _ _ assms(2), of "mod_start k4 md" 15] by (auto simp del: print_bytes.simps simp: eval_nat_numeral)
  obtain k6 where k6: "printk [CHR 0x0A] [] k5 = Some k6" "boot_rel 25 k0 k6" "file_start k6 = file_start k5"
    using boot_print_newline [OF k5(2) assms(2)] .
  have "print_modules mbi md mc k = print_modules mbi (md + 16) (mc + 1) k6"
    using assms(3) k1(1) k3(1) k4(1) k5(1) k6(1)
    by (subst print_modules.simps) (simp add: k2_def [symmetric] del: print_bytes.simps)
  moreover have "file_start k6 = file_start k2" using k3(3) k4(3) k5(3) k6(3) by simp
  moreover have "mod_start k1 md = mod_start k0 md" if "clean k0 md 4"
    using boot_rel_ldw [OF k1(2) up that, of 0] by (simp add: mod_start_def)
  ultimately show thesis using that k6(2) k1(3) by (auto simp: k2_def)
qed

lemma mods_count_boot:
  assumes "boot_rel n k0 k" "can_print k0" "clean k0 mbi 52"
  shows "mbi_mods_count k mbi = mbi_mods_count k0 mbi"
  using boot_rel_ldw [OF assms(1) _ assms(3), of 20] assms(2) by (simp add: mbi_mods_count_def can_print_def)

lemma print_modules_ok:
  fixes k0 k :: "'a kernel_scheme"
  assumes "boot_rel 25 k0 k" "can_print k0" "clean k0 mbi 52"
  shows "\<exists>k'. print_modules mbi md mc k = Some k' \<and> boot_rel 25 k0 k' \<and> (file_start k \<noteq> 0 \<longrightarrow> file_start k' = file_start k)"
  using assms(1)
proof (induction "unat (mbi_mods_count k0 mbi) - unat mc" arbitrary: md mc k rule: less_induct)
  case less
  note c = mods_count_boot [OF less.prems assms(2,3)]
  show ?case
  proof (cases "mc < mbi_mods_count k mbi")
    case False
    then show ?thesis using less.prems by (intro exI [of _ k]) (subst print_modules.simps, simp)
  next
    case True
    obtain k' where k': "print_modules mbi md mc k = print_modules mbi (md + 16) (mc + 1) k'" "boot_rel 25 k0 k'"
      "file_start k \<noteq> 0 \<Longrightarrow> file_start k' = file_start k"
      using print_modules_round [OF less.prems assms(2) True] by metis
    have "unat (mc + 1) = unat mc + 1"
      using True unat_lt_u32 [of "mbi_mods_count k mbi"] by (simp add: word_less_nat_alt unat_word_ariths)
    then have "unat (mbi_mods_count k0 mbi) - unat (mc + 1) < unat (mbi_mods_count k0 mbi) - unat mc"
      using True c by (simp add: word_less_nat_alt)
    from less.hyps [OF this k'(2)] show ?thesis using k'(1,3) by (metis (no_types))
  qed
qed

fun mmap_chain :: "'a kernel_scheme \<Rightarrow> u32 \<Rightarrow> u32 \<Rightarrow> nat \<Rightarrow> bool" where
  "mmap_chain k stop a 0 \<longleftrightarrow> \<not> a < stop"
| "mmap_chain k stop a (Suc n) \<longleftrightarrow> a < stop \<and> clean k a 4 \<and> mmap_chain k stop (a + mmap_size k a + 4) n"

lemma print_mmap_ok:
  fixes k0 k :: "'a kernel_scheme"
  assumes "boot_rel 25 k0 k" "can_print k0" "clean k0 mbi 52"
    and "mmap_chain k0 (mbi_mmap_addr k0 mbi + mbi_mmap_length k0 mbi) a n"
  shows "\<exists>k'. print_mmap mbi a k = Some k' \<and> boot_rel 25 k0 k' \<and> file_start k' = file_start k"
  using assms(1,4)
proof (induction n arbitrary: a k)
  case 0
  have up: "unpaged k0" using assms(2) by (simp add: can_print_def)
  have "mbi_mmap_addr k mbi = mbi_mmap_addr k0 mbi" "mbi_mmap_length k mbi = mbi_mmap_length k0 mbi"
    using boot_rel_ldw [OF 0(1) up assms(3), of 48] boot_rel_ldw [OF 0(1) up assms(3), of 44]
    by (simp_all add: mbi_mmap_addr_def mbi_mmap_length_def)
  then show ?case using 0 by (intro exI [of _ k]) (subst print_mmap.simps, simp)
next
  case (Suc n)
  let ?s = "''    size = 0x%x, base_addr = 0x%#x%#x'' @ [CHR 0x0A] @ ''    type = 0x%x,  length    = 0x%#x%#x'' @ [CHR 0x0A]"
  let ?vs = "[mmap_size k a, mmap_base_high k a, mmap_base_low k a, mmap_type k a, mmap_length_high k a, mmap_length_low k a]"
  have up: "unpaged k0" using assms(2) by (simp add: can_print_def)
  have m: "mbi_mmap_addr k mbi = mbi_mmap_addr k0 mbi" "mbi_mmap_length k mbi = mbi_mmap_length k0 mbi"
    using boot_rel_ldw [OF Suc.prems(1) up assms(3), of 48] boot_rel_ldw [OF Suc.prems(1) up assms(3), of 44]
    by (simp_all add: mbi_mmap_addr_def mbi_mmap_length_def)
  have f: "?s \<in> set boot_formats" by (simp add: boot_formats_def)
  obtain k1 where k1: "printk ?s ?vs k = Some k1" "boot_rel 25 k0 k1" "file_start k1 = file_start k"
    using boot_print_line [OF Suc.prems(1) assms(2) f, of ?vs] by auto
  have "clean k0 a 4" using Suc.prems(2) by simp
  then have "mmap_size k1 a = mmap_size k0 a"
    using boot_rel_ldw [OF k1(2) up, of a 4 0] by (simp add: mmap_size_def)
  then show ?case
    using Suc.IH [OF k1(2), of "a + mmap_size k0 a + 4"] Suc.prems(2) k1(1,3) m by (subst print_mmap.simps) simp
qed

text \<open>What the boot loader has to pass: a file system module, and a memory map that ends.\<close>

definition bootinfo_ok :: "'a kernel_scheme \<Rightarrow> u32 \<Rightarrow> bool" where
  "bootinfo_ok k mbi \<longleftrightarrow> clean k mbi 52 \<and>
     \<not> (CHECK_FLAG (mbi_flags k mbi) 4 \<and> CHECK_FLAG (mbi_flags k mbi) 5) \<and>
     (CHECK_FLAG (mbi_flags k mbi) 2 \<longrightarrow> (\<exists>cs. cstring (ldb k) (mbi_cmdline k mbi) cs \<and>
        clean k (mbi_cmdline k mbi) (length cs + 1) \<and> newlines cs = 0)) \<and>
     CHECK_FLAG (mbi_flags k mbi) 3 \<and> 0 < mbi_mods_count k mbi \<and> clean k (mbi_mods_addr k mbi) 4 \<and>
     mod_start k (mbi_mods_addr k mbi) \<noteq> 0 \<and>
     (CHECK_FLAG (mbi_flags k mbi) 6 \<longrightarrow>
        (\<exists>n. mmap_chain k (mbi_mmap_addr k mbi + mbi_mmap_length k mbi) (mbi_mmap_addr k mbi) n))"

lemma boot_print_if:
  fixes k0 k :: "'a kernel_scheme"
  assumes "boot_rel 25 k0 k" "can_print k0" "s \<in> set boot_formats"
    and "length vs = length (filter takes_arg (directives s))"
  obtains k' where "(if b then printk s vs k else Some k) = Some k'" "boot_rel 25 k0 k'" "file_start k' = file_start k"
proof (cases b)
  case True
  then show thesis using that boot_print_line [OF assms] by (metis (no_types))
qed (use that assms(1) in auto)

lemma mbi_boot:
  assumes "boot_rel n k0 k" "can_print k0" "clean k0 mbi 52"
  shows "mbi_flags k mbi = mbi_flags k0 mbi" "mbi_cmdline k mbi = mbi_cmdline k0 mbi"
    "mbi_mods_addr k mbi = mbi_mods_addr k0 mbi" "mbi_mods_count k mbi = mbi_mods_count k0 mbi"
    "mbi_mmap_addr k mbi = mbi_mmap_addr k0 mbi" "mbi_mmap_length k mbi = mbi_mmap_length k0 mbi"
proof -
  have up: "unpaged k0" using assms(2) by (simp add: can_print_def)
  note w = boot_rel_ldw [OF assms(1) up assms(3)]
  show "mbi_flags k mbi = mbi_flags k0 mbi" "mbi_cmdline k mbi = mbi_cmdline k0 mbi"
    "mbi_mods_addr k mbi = mbi_mods_addr k0 mbi" "mbi_mods_count k mbi = mbi_mods_count k0 mbi"
    "mbi_mmap_addr k mbi = mbi_mmap_addr k0 mbi" "mbi_mmap_length k mbi = mbi_mmap_length k0 mbi"
    using w [of 0] w [of 16] w [of 24] w [of 20] w [of 48] w [of 44]
    by (simp_all add: mbi_flags_def mbi_cmdline_def mbi_mods_addr_def mbi_mods_count_def mbi_mmap_addr_def mbi_mmap_length_def)
qed

lemma boot_print_cmdline:
  fixes k0 k :: "'a kernel_scheme"
  assumes "boot_rel 25 k0 k" "can_print k0" "b \<Longrightarrow> cstring (ldb k0) a cs \<and> clean k0 a (length cs + 1) \<and> newlines cs = 0"
  obtains k' where "(if b then printk cmdline_format [a] k else Some k) = Some k'" "boot_rel 25 k0 k'" "file_start k' = file_start k"
proof (cases b)
  case True
  have d: "fmt_ok cmdline_format" "filter takes_arg (directives cmdline_format) = [Str]"
    "fmt_rows 25 (directives cmdline_format) = 25" by code_simp+
  have "set (str_args (directives cmdline_format) [a]) \<subseteq> {a}" by (auto simp: cmdline_format_def)
  then show thesis
    using that printk_boot [OF assms(1), of cmdline_format "[a]" "\<lambda>_. cs"] assms(2,3) True d by (auto simp: can_print_def)
qed (use that assms(1) in auto)

lemma print_modules_first:
  fixes k0 k :: "'a kernel_scheme"
  assumes "boot_rel 25 k0 k" "can_print k0" "clean k0 mbi 52" "0 < mbi_mods_count k0 mbi" "clean k0 md 4" "mod_start k0 md \<noteq> 0"
    "file_start k = 0"
  obtains k' where "print_modules mbi md 0 k = Some k'" "boot_rel 25 k0 k'" "file_start k' = mod_start k0 md"
proof -
  obtain k1 where k1: "print_modules mbi md 0 k = print_modules mbi (md + 16) (0 + 1) k1" "boot_rel 25 k0 k1"
    "file_start k1 = mod_start k0 md"
    using print_modules_round [OF assms(1,2), of 0 mbi md] assms(4,5,7) mbi_boot(4) [OF assms(1-3)] by auto
  obtain k2 where "print_modules mbi (md + 16) (0 + 1) k1 = Some k2" "boot_rel 25 k0 k2" "file_start k2 = mod_start k0 md"
    using print_modules_ok [OF k1(2) assms(2,3), of "md + 16" "0 + 1"] k1(3) assms(6) by force
  then show thesis using that k1(1) by simp
qed

lemma print_info_ok:
  fixes k0 k :: "'a kernel_scheme"
  assumes "boot_rel 25 k0 k" "can_print k0" "bootinfo_ok k0 mbi"
  obtains k' where "print_info mbi k = Some (Inr k')" "boot_rel 25 k0 k'" "file_start k' = mod_start k0 (mbi_mods_addr k0 mbi)"
proof -
  let ?b = "CHECK_FLAG (mbi_flags k0 mbi)"
  note i = assms(3) [unfolded bootinfo_ok_def]
  have c: "clean k0 mbi 52" using i by simp
  note m = mbi_boot [OF _ assms(2) c]
  obtain k1 where k1: "printk (''flags = 0x%#x'' @ [CHR 0x0A]) [mbi_flags k0 mbi] k = Some k1" "boot_rel 25 k0 k1"
    by (rule boot_print_line [OF assms(1,2), of "''flags = 0x%#x'' @ [CHR 0x0A]" "[mbi_flags k0 mbi]"])
      (simp_all add: boot_formats_def)
  obtain k2 where k2: "(if ?b 0 then printk (''mem_lower = %uKB, mem_upper = %uKB'' @ [CHR 0x0A]) [mbi_mem_lower k1 mbi, mbi_mem_upper k1 mbi] k1
      else Some k1) = Some k2" "boot_rel 25 k0 k2"
    by (rule boot_print_if [OF k1(2) assms(2), of "''mem_lower = %uKB, mem_upper = %uKB'' @ [CHR 0x0A]"
        "[mbi_mem_lower k1 mbi, mbi_mem_upper k1 mbi]" "?b 0"]) (simp_all add: boot_formats_def)
  obtain k3 where k3: "(if ?b 1 then printk (''boot_device = 0x%#x'' @ [CHR 0x0A]) [mbi_boot_device k2 mbi] k2 else Some k2) = Some k3"
    "boot_rel 25 k0 k3"
    by (rule boot_print_if [OF k2(2) assms(2), of "''boot_device = 0x%#x'' @ [CHR 0x0A]" "[mbi_boot_device k2 mbi]" "?b 1"])
      (simp_all add: boot_formats_def)
  obtain cs where "?b 2 \<Longrightarrow> cstring (ldb k0) (mbi_cmdline k0 mbi) cs \<and> clean k0 (mbi_cmdline k0 mbi) (length cs + 1) \<and> newlines cs = 0"
    using i by blast
  then obtain k4 where k4: "(if ?b 2 then printk cmdline_format [mbi_cmdline k0 mbi] k3 else Some k3) = Some k4" "boot_rel 25 k0 k4"
    using boot_print_cmdline [OF k3(2) assms(2), of "?b 2" "mbi_cmdline k0 mbi" cs] by blast
  obtain k5 where k5: "print_modules mbi (mbi_mods_addr k0 mbi) 0 (k4\<lparr>file_start := 0\<rparr>) = Some k5" "boot_rel 25 k0 k5"
    "file_start k5 = mod_start k0 (mbi_mods_addr k0 mbi)"
    using print_modules_first [OF boot_rel_file_start [OF k4(2)] assms(2) c] i by auto
  let ?e = "mbi + 28" and ?s = "''elf_sec: num = %u, size = 0x%#x, addr = 0x%#x, shndx = 0x%#x'' @ [CHR 0x0A]"
  obtain k6 where k6: "(if ?b 5 then printk ?s [elf_num k5 ?e, elf_size k5 ?e, elf_addr k5 ?e, elf_shndx k5 ?e] k5 else Some k5) = Some k6"
    "boot_rel 25 k0 k6" "file_start k6 = file_start k5"
    by (rule boot_print_if [OF k5(2) assms(2), of ?s "[elf_num k5 ?e, elf_size k5 ?e, elf_addr k5 ?e, elf_shndx k5 ?e]" "?b 5"])
      (simp_all add: boot_formats_def)
  let ?t = "''mmap_addr = 0x%#x, mmap_length = 0x%x'' @ [CHR 0x0A]"
  obtain k7 where k7: "printk ?t [mbi_mmap_addr k0 mbi, mbi_mmap_length k0 mbi] k6 = Some k7" "boot_rel 25 k0 k7" "file_start k7 = file_start k6"
    by (rule boot_print_line [OF k6(2) assms(2), of ?t "[mbi_mmap_addr k0 mbi, mbi_mmap_length k0 mbi]"]) (simp_all add: boot_formats_def)
  have "\<exists>k8. (if ?b 6 then print_mmap mbi (mbi_mmap_addr k0 mbi) k7 else Some k6) = Some k8 \<and> boot_rel 25 k0 k8 \<and> file_start k8 = file_start k6"
    using print_mmap_ok [OF k7(2) assms(2) c] i k6(2) k7(3) by (cases "?b 6") auto
  then obtain k8 where k8: "(if ?b 6 then print_mmap mbi (mbi_mmap_addr k0 mbi) k7 else Some k6) = Some k8" "boot_rel 25 k0 k8"
    "file_start k8 = file_start k6" by blast
  have "print_info mbi k = Some (Inr k8)"
    using i k1(1) k2(1) k3(1) k4(1) [unfolded cmdline_format_def] k5(1) k6(1) k7(1) k8(1)
    by (simp only: print_info_def m [OF assms(1)] m [OF k1(2)] m [OF k2(2)] m [OF k3(2)] m [OF k4(2)] m [OF k5(2)] m [OF k6(2)]
        m [OF k7(2)] Let_def bind.bind_lunit if_True if_False cong: if_cong)
  then show thesis using that k8(2,3) k6(3) k5(3) by simp
qed

section \<open>Clearing the screen\<close>

lemma boot_rel_clear:
  fixes k :: "'a kernel_scheme"
  assumes "unpaged k" "con_ok n k"
  shows "boot_rel n k (clear k)"
proof -
  have "shows_frame VIDEO_PHYSICAL (of_nat STATIC_VIDEO_IND) (pg k)"
    using assms(1) by (simp add: shows_frame_def windows_in_page)
  from keeps_clear [OF this] have kp: "phys (clear k) a = phys k a" if "a \<notin> page_cells (of_nat STATIC_VIDEO_IND)" for a
    using that by (simp add: keeps_def)
  have "phys (clear k) a = phys k a" if "\<not> scratch k a" for a
  proof (rule kp)
    have "VIDEO_PHYSICAL + of_nat i = VIDEO + of_nat (0x4000 + i)" for i
      by (simp add: VIDEO_def VIDEO_PHYSICAL_def)
    then have "scratch k (VIDEO_PHYSICAL + of_nat i)" if "i < 4096" for i
      unfolding scratch_def using that by (intro disjI1 exI [of _ "0x4000 + i"]) simp
    then show "a \<notin> page_cells (of_nat STATIC_VIDEO_IND)"
      using that by (auto simp: page_cells_def windows_in_page(2) [symmetric])
  qed
  moreover have "con_ok n (clear k)" using assms(2) by (simp add: con_ok_def)
  moreover obtain p h xm ym where c: "clear k = k\<lparr>phys := p, io := h, screen_x_multi := xm, screen_y_multi := ym\<rparr>"
    using screen_only_clear [of k] by (auto simp: screen_only_def)
  have "clear k = k\<lparr>phys := p, io := h, screen_x := screen_x k, screen_y := screen_y k, screen_x_multi := xm,
      screen_y_multi := ym, file_start := file_start k\<rparr>" unfolding c by simp
  ultimately show ?thesis unfolding boot_rel_def by blast
qed

text \<open>Without a Multiboot loader the kernel prints the number it got and returns.\<close>

lemma entry_bad_magic:
  fixes k :: "'a kernel_scheme"
  assumes "can_print k" "con_ok 25 k" "magic \<noteq> MULTIBOOT_BOOTLOADER_MAGIC"
  shows "\<exists>k'. entry dev junk junk' magic mbi k = Some (Ret k' 0) \<and> boot_rel 25 k k'"
proof -
  let ?s = "''Invalid magic number: 0x%#x'' @ [CHR 0x0A]"
  have "boot_rel 25 k (clear k)" using boot_rel_clear [OF _ assms(2)] assms(1) by (simp add: can_print_def)
  then obtain k' where "printk ?s [magic] (clear k) = Some k'" "boot_rel 25 k k'"
    using boot_print_line [OF _ assms(1), of "clear k" ?s "[magic]"] by (auto simp: boot_formats_def)
  then show ?thesis using assms(3) by (simp add: entry_def Let_def)
qed

end
