(* ===== verification/SysInv.thy ===== *)
theory SysInv
  imports Pit Keyboard
begin

text \<open>
  The invariant of the running system: the layout of the kernel's memory, the file system image,
  the line buffers and screens, the process table with its parent links, the file descriptors,
  and the mapping of the current process.
\<close>

section \<open>Kernel memory\<close>

text \<open>The objects in the kernel's page the invariant speaks about, with their sizes.\<close>

definition regions :: "'a proc_scheme \<Rightarrow> (u32 \<times> nat) list" where
  "regions k = [(file_start k, image_size k), (shell_name k, 6), (keyboard_buffer k, 387), (print_buffer k, 6150),
     (fname k, 4096), (tempBuf k, 28), (arg_buf k, 32768)]"

definition before :: "u32 \<times> nat \<Rightarrow> u32 \<times> nat \<Rightarrow> bool" where
  "before r s \<longleftrightarrow> unat (fst r) + snd r \<le> unat (fst s)"

definition layout_inv :: "'a proc_scheme \<Rightarrow> bool" where
  "layout_inv k \<longleftrightarrow> (\<forall>r\<in>set (regions k). in_kernel (fst r) (snd r)) \<and>
     sorted_wrt (\<lambda>r s. before r s \<or> before s r) (regions k)"

text \<open>The memory that only the keyboard driver may change, and what every kernel entry may change.\<close>

definition protected :: "'a proc_scheme \<Rightarrow> u32 set" where
  "protected k = bytes_at (file_start k) (image_size k) \<union> bytes_at (shell_name k) 6 \<union> bytes_at (keyboard_buffer k) 387"

definition free_cells :: "'a proc_scheme \<Rightarrow> u32 set" where
  "free_cells k = {p. unat p < 0x400000 \<or> 0x800000 \<le> unat p} \<union> bytes_at (print_buffer k) 6150 \<union>
     bytes_at (fname k) 4096 \<union> bytes_at (tempBuf k) 28 \<union> bytes_at (arg_buf k) 32768"

lemma in_kernel_bytes:
  assumes "in_kernel a n" "p \<in> bytes_at a n"
  shows "unat a \<le> unat p" "unat p < unat a + n" "0x400000 \<le> unat p" "unat p < 0x800000"
proof -
  obtain i where i: "i < n" "p = a + of_nat i" using assms(2) by (auto simp: bytes_at_def)
  have "unat p = unat a + i"
    using assms(1) i by (simp add: in_kernel_def unat_word_ariths unat_of_nat_small)
  then show "unat a \<le> unat p" "unat p < unat a + n" "0x400000 \<le> unat p" "unat p < 0x800000"
    using assms(1) i by (simp_all add: in_kernel_def)
qed

lemma before_disjoint:
  assumes "in_kernel (fst r) (snd r)" "in_kernel (fst s) (snd s)" "before r s \<or> before s r"
  shows "bytes_at (fst r) (snd r) \<inter> bytes_at (fst s) (snd s) = {}"
  using in_kernel_bytes [OF assms(1)] in_kernel_bytes [OF assms(2)] assms(3)
  by (fastforce simp: before_def)

lemma layout_invD:
  assumes "layout_inv k"
  shows "in_kernel (file_start k) (image_size k)" "in_kernel (shell_name k) 6" "in_kernel (keyboard_buffer k) 387"
    "in_kernel (print_buffer k) 6150" "in_kernel (fname k) 4096" "in_kernel (tempBuf k) 28" "in_kernel (arg_buf k) 32768"
  using assms by (simp_all add: layout_inv_def regions_def)

lemma layout_pairwise:
  assumes "layout_inv k" "r \<in> set (regions k)" "s \<in> set (regions k)" "r \<noteq> s"
  shows "before r s \<or> before s r"
proof -
  obtain i j where ij: "i < length (regions k)" "j < length (regions k)" "r = regions k ! i" "s = regions k ! j"
    using assms(2,3) by (auto simp: in_set_conv_nth)
  then consider "i < j" | "j < i" using assms(4) by (metis linorder_neqE_nat)
  then show ?thesis
    using assms(1) ij by cases (auto simp: layout_inv_def sorted_wrt_iff_nth_less)
qed

lemma free_not_protected:
  assumes "layout_inv k"
  shows "free_cells k \<inter> protected k = {}"
proof -
  let ?P = "[(file_start k, image_size k), (shell_name k, 6), (keyboard_buffer k, 387)]"
  let ?F = "[(print_buffer k, 6150), (fname k, 4096), (tempBuf k, 28), (arg_buf k, 32768)]"
  have sw: "sorted_wrt (\<lambda>r s. before r s \<or> before s r) (?P @ ?F)"
    and ik: "\<forall>r\<in>set (?P @ ?F). in_kernel (fst r) (snd r)"
    using assms by (simp_all add: layout_inv_def regions_def)
  have "bytes_at (fst r) (snd r) \<inter> bytes_at (fst s) (snd s) = {}" if "r \<in> set ?P" "s \<in> set ?F" for r s
  proof (rule before_disjoint)
    show "in_kernel (fst r) (snd r)" "in_kernel (fst s) (snd s)" using ik that unfolding set_append by blast+
    show "before r s \<or> before s r" using sw that by (simp only: sorted_wrt_append)
  qed
  then have d: "\<forall>r\<in>set ?P. \<forall>s\<in>set ?F. bytes_at (fst r) (snd r) \<inter> bytes_at (fst s) (snd s) = {}" by blast
  have P: "protected k = (\<Union>r\<in>set ?P. bytes_at (fst r) (snd r))" unfolding protected_def by auto
  have F: "free_cells k = {p. unat p < 0x400000 \<or> 0x800000 \<le> unat p} \<union> (\<Union>s\<in>set ?F. bytes_at (fst s) (snd s))"
    unfolding free_cells_def by auto
  have "x \<notin> {p. unat p < 0x400000 \<or> 0x800000 \<le> unat p}" if x: "x \<in> protected k" for x
  proof -
    obtain r where r: "r \<in> set ?P" "x \<in> bytes_at (fst r) (snd r)" using x unfolding P by blast
    have "in_kernel (fst r) (snd r)" using ik r(1) unfolding set_append by blast
    from in_kernel_bytes(3,4) [OF this r(2)] show ?thesis by simp
  qed
  then show ?thesis unfolding F using d unfolding P by blast
qed

section \<open>Processes\<close>

definition running :: "'a proc_scheme \<Rightarrow> int \<Rightarrow> bool" where
  "running k p \<longleftrightarrow> 1 \<le> p \<and> p < 8 \<and> process_status k p \<noteq> 0"

abbreviation blk :: "'a proc_scheme \<Rightarrow> int \<Rightarrow> pcb_t" where
  "blk k p \<equiv> pcbs k (get_kernel_stack_bottom p)"

text \<open>
  \<open>waits k p q\<close>: \<open>p\<close> has started \<open>q\<close> on its own terminal and waits for it. The links of the control
  blocks say exactly this; the block of a free slot has no child; the current process is not
  waiting, but it may have just ended.
\<close>

definition waits :: "'a proc_scheme \<Rightarrow> int \<Rightarrow> int \<Rightarrow> bool" where
  "waits k p q \<longleftrightarrow> running k p \<and> running k q \<and> child (blk k p) = get_kernel_stack_bottom q \<and>
     parent (blk k q) = get_kernel_stack_bottom p \<and> is_terminal (blk k q) = 0 \<and>
     pcb_terminal (blk k p) = pcb_terminal (blk k q)"

definition proc_inv :: "'a proc_scheme \<Rightarrow> bool" where
  "proc_inv k \<longleftrightarrow> total_running_process k = int (card {p. running k p}) \<and> 0 < total_running_process k \<and>
     1 \<le> current_pid k \<and> current_pid k < 8 \<and> pcb_pid (blk k (current_pid k)) = current_pid k \<and>
     child (blk k (current_pid k)) = 0 \<and>
     (\<forall>p. running k p \<longrightarrow> pcb_pid (blk k p) = p \<and> pcb_terminal (blk k p) \<in> {0, 1, 2} \<and>
        (child (blk k p) = 0 \<or> (\<exists>q. waits k p q)) \<and> (is_terminal (blk k p) = 0 \<longrightarrow> (\<exists>q. waits k q p))) \<and>
     (\<forall>p. 1 \<le> p \<and> p < 8 \<and> \<not> running k p \<longrightarrow> child (blk k p) = 0)"

text \<open>
  The descriptors of a running process: the standard streams are in place, the two operations of an
  open descriptor belong together, and a regular file is read inside its bounds.
\<close>

definition fd_pairs :: "(fop \<times> fop) set" where
  "fd_pairs = {(Op_terminal_read, Op_null), (Op_null, Op_terminal_write), (Op_rtc_read, Op_rtc_write),
     (Op_filesys_read, Op_filesys_write), (Op_dir_read, Op_dir_write)}"

definition fd_ok :: "'a filesys_scheme \<Rightarrow> file_desc_t \<Rightarrow> bool" where
  "fd_ok k d \<longleftrightarrow> (fd_read d, fd_write d) \<in> fd_pairs \<and>
     (fd_read d = Op_filesys_read \<longrightarrow> unat (fd_inode d) < nat (num_inodes k) \<and>
        unat (file_position d) \<le> unat (inode_length k (fd_inode d)))"

definition pcb_fds_ok :: "'a filesys_scheme \<Rightarrow> pcb_t \<Rightarrow> bool" where
  "pcb_fds_ok k p \<longleftrightarrow> streams_ok p \<and> fd_write (file_array p 0) = Op_null \<and> fd_read (file_array p 1) = Op_null \<and>
     (\<forall>i. 2 \<le> i \<and> i < 8 \<and> flags (file_array p i) \<noteq> 0 \<longrightarrow>
        fd_ok k (file_array p i) \<and> fd_read (file_array p i) \<in> {Op_rtc_read, Op_filesys_read, Op_dir_read})"

definition fds_ok :: "'a proc_scheme \<Rightarrow> bool" where
  "fds_ok k \<longleftrightarrow> (\<forall>p. running k p \<longrightarrow> pcb_fds_ok k (blk k p))"

section \<open>The invariant\<close>

text \<open>
  Every entry of the directory has an inode of the image and one of the three types, and every
  file fits into a program page.
\<close>

definition image_ok :: "'a filesys_scheme \<Rightarrow> (nat \<Rightarrow> u8 list) \<Rightarrow> bool" where
  "image_ok k names \<longleftrightarrow> fs_ok k \<and> entry_names k names \<and>
     (\<forall>i<nat (num_dir_entry k). unat (inode (copy_dentry k (of_nat i))) < nat (num_inodes k) \<and>
        fileType (copy_dentry k (of_nat i)) \<in> {0, 1, 2}) \<and>
     (\<forall>n. unat n < nat (num_inodes k) \<longrightarrow> unat (inode_length k n) \<le> 0x3B8000)"

definition shell_string :: "u8 list" where "shell_string = chars ''shell''"

definition maps_task :: "int \<Rightarrow> paging \<Rightarrow> bool" where
  "maps_task p g \<longleftrightarrow> page_dir g USER_SPACE_START = (unused_pde 0)\<lparr>pd_present := 1, pd_user_supervisor := 1,
     pd_aligned_address := word_of_int (p * SINGLE_PAGE_DIR_OFFSET + USER_LEVEL_OFFSET)\<rparr>"

definition sys_inv :: "(nat \<Rightarrow> u8 list) \<Rightarrow> 'a proc_scheme \<Rightarrow> bool" where
  "sys_inv names k \<longleftrightarrow> layout_inv k \<and> image_ok k names \<and> cstring (ldb k) (shell_name k) shell_string \<and>
     kbd_inv k \<and> proc_inv k \<and> fds_ok k \<and> maps_task (current_pid k) (pg k) \<and>
     active_terminal k = pcb_terminal (blk k (current_pid k))"

lemma sys_invD:
  assumes "sys_inv names k"
  shows "layout_inv k" "image_ok k names" "cstring (ldb k) (shell_name k) shell_string" "kbd_inv k" "proc_inv k"
    "fds_ok k" "maps_task (current_pid k) (pg k)" "active_terminal k = pcb_terminal (blk k (current_pid k))"
    "video_inv k" "\<exists>v. kernel_map v (pg k)"
  using assms by (auto simp: sys_inv_def kbd_inv_def video_inv_def)

lemma proc_invD:
  assumes "proc_inv k"
  shows "total_running_process k = int (card {p. running k p})" "0 < total_running_process k" "1 \<le> current_pid k"
    "current_pid k < 8" "pcb_pid (blk k (current_pid k)) = current_pid k" "child (blk k (current_pid k)) = 0"
    "get_current_pcb k = get_kernel_stack_bottom (current_pid k)"
    "running k p \<Longrightarrow> pcb_pid (blk k p) = p" "running k p \<Longrightarrow> pcb_terminal (blk k p) \<in> {0, 1, 2}"
    "running k p \<Longrightarrow> child (blk k p) = 0 \<or> (\<exists>q. waits k p q)"
    "running k p \<Longrightarrow> is_terminal (blk k p) = 0 \<Longrightarrow> \<exists>q. waits k q p"
    "1 \<le> p \<Longrightarrow> p < 8 \<Longrightarrow> \<not> running k p \<Longrightarrow> child (blk k p) = 0"
  using assms by (auto simp: proc_inv_def get_current_pcb_def)

section \<open>Steps that leave the structure alone\<close>

text \<open>The part of a control block the process structure uses.\<close>

definition core :: "pcb_t \<Rightarrow> u32 \<times> u32 \<times> int \<times> int \<times> int" where
  "core p = (parent p, child p, pcb_terminal p, is_terminal p, pcb_pid p)"

definition same_static :: "'a proc_scheme \<Rightarrow> 'a proc_scheme \<Rightarrow> bool" where
  "same_static k k' \<longleftrightarrow> file_start k' = file_start k \<and> num_inodes k' = num_inodes k \<and>
     num_data_blocks k' = num_data_blocks k \<and> num_dir_entry k' = num_dir_entry k \<and>
     data_block_start k' = data_block_start k \<and> dir_table k' = dir_table k \<and> inode_table k' = inode_table k \<and>
     shell_name k' = shell_name k \<and> keyboard_buffer k' = keyboard_buffer k \<and> print_buffer k' = print_buffer k \<and>
     fname k' = fname k \<and> tempBuf k' = tempBuf k \<and> arg_buf k' = arg_buf k"

definition same_procs :: "'a proc_scheme \<Rightarrow> 'a proc_scheme \<Rightarrow> bool" where
  "same_procs k k' \<longleftrightarrow> process_status k' = process_status k \<and> total_running_process k' = total_running_process k \<and>
     current_pid k' = current_pid k \<and> (\<forall>a. core (pcbs k' a) = core (pcbs k a))"

lemma same_static_layout:
  assumes "same_static k k'"
  shows "regions k' = regions k" "layout_inv k' = layout_inv k" "protected k' = protected k" "free_cells k' = free_cells k"
proof -
  show "regions k' = regions k" using assms by (simp add: same_static_def regions_def image_size_def)
  then show "layout_inv k' = layout_inv k" by (simp add: layout_inv_def)
  show "protected k' = protected k" "free_cells k' = free_cells k"
    using assms by (simp_all add: same_static_def protected_def free_cells_def image_size_def)
qed

lemma same_procs_inv:
  assumes "same_procs k k'"
  shows "proc_inv k' = proc_inv k" "pcb_terminal (pcbs k' a) = pcb_terminal (pcbs k a)"
proof -
  have c: "parent (pcbs k' a) = parent (pcbs k a)" "child (pcbs k' a) = child (pcbs k a)"
    "pcb_terminal (pcbs k' a) = pcb_terminal (pcbs k a)" "is_terminal (pcbs k' a) = is_terminal (pcbs k a)"
    "pcb_pid (pcbs k' a) = pcb_pid (pcbs k a)" for a
    using assms by (simp_all add: same_procs_def core_def)
  have r: "running k' = running k" using assms by (simp add: same_procs_def running_def fun_eq_iff)
  have "waits k' = waits k" by (simp add: fun_eq_iff waits_def r c)
  then show "proc_inv k' = proc_inv k" "pcb_terminal (pcbs k' a) = pcb_terminal (pcbs k a)"
    using assms by (simp_all add: proc_inv_def r c same_procs_def)
qed

text \<open>Kernel memory outside the free cells is the same, seen through any two mappings of the kernel.\<close>

lemma ldb_protected:
  fixes k k' :: "'a proc_scheme"
  assumes "kernel_map v (pg k)" "kernel_map w (pg k')" "layout_inv k" "only_at (free_cells k) k k'"
    "bytes_at a n \<subseteq> protected k" "in_kernel a n" "i < n"
  shows "ldb k' (a + of_nat i) = ldb k (a + of_nat i)"
proof -
  have "a + of_nat i \<in> bytes_at a n" using assms(7) by (simp add: bytes_at_def)
  then have "a + of_nat i \<notin> free_cells k" using assms(5) free_not_protected [OF assms(3)] by blast
  then have "phys k' (a + of_nat i) = phys k (a + of_nat i)" using assms(4) by (simp add: only_at_def)
  then show ?thesis
    using in_kernel_walk(1) [OF assms(1,6,7)] in_kernel_walk(1) [OF assms(2,6,7)] by (simp add: ldb_def ld_def)
qed

section \<open>User memory\<close>

text \<open>A range of addresses inside the program page.\<close>

definition ubuf :: "u32 \<Rightarrow> nat \<Rightarrow> bool" where
  "ubuf a n \<longleftrightarrow> 0x8000000 \<le> unat a \<and> unat a + n \<le> 0x8400000"

definition user_cell :: "int \<Rightarrow> u32 \<Rightarrow> u32" where
  "user_cell p a = of_nat (0x800000 + nat p * 0x400000 + (unat a - 0x8000000))"

lemma maps_task_setup:
  assumes "kernel_map v g" "maps_task p g"
  shows "walk (setup_task_page p g) = walk g"
proof -
  have "page_dir (setup_task_page p g) = page_dir g"
    using assms(2) by (auto simp: setup_task_page_eq maps_task_def)
  moreover have "table_at (setup_task_page p g) = table_at g"
    by (simp add: fun_eq_iff table_at_def setup_task_page_eq)
  ultimately show ?thesis
    using kernel_mapD(2-4) [OF assms(1)] kernel_mapD(2-4) [OF kernel_map_setup_task_page [OF assms(1)], of p]
    by (simp add: fun_eq_iff walk_def Let_def)
qed

lemma ubuf_off:
  assumes "ubuf a n" "i < n"
  shows "unat (a + of_nat i) = unat a + i" "ubuf (a + of_nat i) 1"
proof -
  show "unat (a + of_nat i) = unat a + i" using assms by (intro unat_off) (simp add: ubuf_def)
  then show "ubuf (a + of_nat i) 1" using assms by (simp add: ubuf_def)
qed

lemma ubuf_walk1:
  assumes "kernel_map v g" "maps_task p g" "0 \<le> p" "p < 8" "ubuf a 1"
  shows "walk g a = Some (user_cell p a)" "unat (user_cell p a) = 0x800000 + nat p * 0x400000 + (unat a - 0x8000000)"
proof -
  let ?off = "unat a - 0x8000000"
  have o: "?off < 2 ^ 22" "a = of_nat (0x8000000 + ?off)"
    using assms(5) by (auto simp: ubuf_def)
  have "walk g a = walk (setup_task_page (int (nat p)) g) (of_nat (0x8000000 + ?off))"
    using maps_task_setup [OF assms(1,2)] assms(3) o(2) by simp
  also have "\<dots> = Some (user_cell p a)"
    unfolding user_cell_def using assms(4) by (intro walk_task_page [OF assms(1) _ o(1)]) simp
  finally show "walk g a = Some (user_cell p a)" .
  show "unat (user_cell p a) = 0x800000 + nat p * 0x400000 + ?off"
    unfolding user_cell_def by (rule unat_of_nat_small) (use assms(3,4) o(1) in simp)
qed

lemma user_cell_inj:
  assumes "0 \<le> p" "p < 8" "ubuf a 1" "ubuf b 1" "user_cell p a = user_cell p b"
  shows "a = b"
proof -
  have "unat (user_cell p x) = 0x800000 + nat p * 0x400000 + (unat x - 0x8000000)" if "ubuf x 1" for x
    unfolding user_cell_def by (rule unat_of_nat_small) (use assms(1,2) that in \<open>simp add: ubuf_def; linarith\<close>)
  from this [OF assms(3)] this [OF assms(4)] have "unat a = unat b"
    using assms(3-5) by (simp add: ubuf_def) linarith
  then show ?thesis by (simp add: word_unat_eq_iff)
qed

text \<open>The mapping of the current process: what the lemmas on user memory need of a state.\<close>

definition user_map :: "'a proc_scheme \<Rightarrow> bool" where
  "user_map k \<longleftrightarrow> video_inv k \<and> maps_task (current_pid k) (pg k) \<and> 0 \<le> current_pid k \<and> current_pid k < 8"

lemma user_mapD:
  assumes "user_map k"
  obtains v where "kernel_map v (pg k)" "maps_task (current_pid k) (pg k)" "0 \<le> current_pid k" "current_pid k < 8"
  using assms by (auto simp: user_map_def video_inv_def)

lemma user_walk:
  assumes "user_map k" "ubuf a n" "i < n"
  shows "translate k (a + of_nat i) = Some (user_cell (current_pid k) (a + of_nat i))"
    "0x800000 \<le> unat (user_cell (current_pid k) (a + of_nat i))"
  using assms(1) ubuf_off(2) [OF assms(2,3)] by (auto elim!: user_mapD simp: ubuf_walk1)

lemma user_block:
  assumes "user_map k" "ubuf a n"
  shows "block (translate k) a n"
  unfolding block_def
proof (intro conjI allI impI)
  fix i j assume ij: "i < n" "j < n" "translate k (a + of_nat i) = translate k (a + of_nat j)"
  then have "user_cell (current_pid k) (a + of_nat i) = user_cell (current_pid k) (a + of_nat j)"
    by (simp add: user_walk(1) [OF assms])
  then have "a + of_nat i = a + of_nat j"
    using assms(1) user_cell_inj [OF _ _ ubuf_off(2) [OF assms(2) ij(1)] ubuf_off(2) [OF assms(2) ij(2)]]
    by (metis user_mapD)
  then have "unat (a + of_nat i) = unat (a + of_nat j)" by simp
  then show "i = j" by (simp only: ubuf_off(1) [OF assms(2) ij(1)] ubuf_off(1) [OF assms(2) ij(2)])
qed (simp add: user_walk(1) [OF assms])

lemma user_apart_kernel:
  assumes "user_map k" "ubuf a n" "in_kernel b m"
  shows "apart (translate k) a n b m" "apart (translate k) b m a n"
proof -
  have *: "translate k (a + of_nat i) \<noteq> translate k (b + of_nat j)" if "i < n" "j < m" for i j
  proof -
    obtain v where v: "kernel_map v (pg k)" using user_mapD [OF assms(1)] by blast
    have "unat (b + of_nat j) < 0x800000"
      using in_kernel_walk(2) [OF v assms(3) that(2)] assms(3) that(2) by (simp add: in_kernel_def)
    then show ?thesis
      using user_walk [OF assms(1,2) that(1)] in_kernel_walk(1) [OF v assms(3) that(2)] by auto
  qed
  show "apart (translate k) a n b m" "apart (translate k) b m a n"
    using * by (auto simp: apart_def dest: not_sym)
qed

lemma user_apart:
  assumes "user_map k" "ubuf a n" "ubuf b m" "unat a + n \<le> unat b \<or> unat b + m \<le> unat a"
  shows "apart (translate k) a n b m"
  unfolding apart_def
proof (intro allI impI notI)
  fix i j assume ij: "i < n" "j < m" "translate k (a + of_nat i) = translate k (b + of_nat j)"
  then have "user_cell (current_pid k) (a + of_nat i) = user_cell (current_pid k) (b + of_nat j)"
    by (simp add: user_walk(1) [OF assms(1,2)] user_walk(1) [OF assms(1,3)])
  then have "a + of_nat i = b + of_nat j"
    using assms(1) user_cell_inj [OF _ _ ubuf_off(2) [OF assms(2) ij(1)] ubuf_off(2) [OF assms(3) ij(2)]]
    by (metis user_mapD)
  then have "unat (a + of_nat i) = unat (b + of_nat j)" by simp
  then show False
    using ij assms(4) by (simp only: ubuf_off(1) [OF assms(2) ij(1)] ubuf_off(1) [OF assms(3) ij(2)]) linarith
qed

lemma user_off_screen:
  assumes "user_map k" "ubuf a n" "t \<in> {0, 1, 2}"
  shows "off_screen (term_frame d t) (translate k) a n"
  unfolding off_screen_def
proof (intro allI impI exI conjI)
  fix i assume i: "i < n"
  show "translate k (a + of_nat i) = Some (user_cell (current_pid k) (a + of_nat i))"
    using user_walk [OF assms(1,2) i] by simp
  show "user_cell (current_pid k) (a + of_nat i) \<notin> page_cells (term_frame d t)"
    using user_walk(2) [OF assms(1,2) i] term_frame_low [OF assms(3), of _ d] by (fastforce simp: page_cells_def)
qed

lemma only_at_user_store:
  assumes "user_map k" "ubuf a (length vs)"
  shows "only_at (free_cells k) k (store_bytes k a vs)"
  by (rule only_at_store_bytes) (use user_walk [OF assms] in \<open>auto simp: free_cells_def\<close>)

section \<open>Quiet steps\<close>

text \<open>
  A quiet step leaves the process structure, the mapping, the keyboard state and all kernel memory
  outside the scratch buffers as they are: every system call but \<^verbatim>\<open>halt\<close> and \<^verbatim>\<open>execute\<close> is one.
\<close>

definition quiet :: "'a proc_scheme \<Rightarrow> 'a proc_scheme \<Rightarrow> bool" where
  "quiet k k' \<longleftrightarrow> same_static k k' \<and> same_procs k k' \<and> pg k' = pg k \<and> active_terminal k' = active_terminal k \<and>
     display_terminal k' = display_terminal k \<and> cursor_ind k' = cursor_ind k \<and>
     arg_available k' = arg_available k \<and> same_keys k k' \<and> only_at (free_cells k) k k'"

lemma quietD:
  assumes "quiet k k'"
  shows "same_static k k'" "same_procs k k'" "pg k' = pg k" "active_terminal k' = active_terminal k"
    "display_terminal k' = display_terminal k" "cursor_ind k' = cursor_ind k" "only_at (free_cells k) k k'"
    "current_pid k' = current_pid k" "get_current_pcb k' = get_current_pcb k" "arg_buf k' = arg_buf k"
    "print_buffer k' = print_buffer k" "keyboard_buffer k' = keyboard_buffer k" "running k' = running k"
    "arg_available k' = arg_available k" "same_keys k k'"
  using assms by (auto simp: quiet_def same_procs_def same_static_def get_current_pcb_def running_def fun_eq_iff)

lemma quiet_refl [simp]: "quiet k k"
  by (simp add: quiet_def same_static_def same_procs_def only_at_def same_keys_def)

lemma quiet_trans:
  assumes "quiet k k'" "quiet k' k''"
  shows "quiet k k''"
proof -
  have "only_at (free_cells k) k' k''"
    using quietD(7) [OF assms(2)] same_static_layout(4) [OF quietD(1) [OF assms(1)]] by simp
  then have "only_at (free_cells k) k k''" using only_at_trans [OF quietD(7) [OF assms(1)]] by blast
  then show ?thesis using assms same_keys_trans [of k k' k''] by (simp add: quiet_def same_static_def same_procs_def)
qed

lemma quiet_protected:
  assumes "quiet k k'" "layout_inv k" "video_inv k" "bytes_at a n \<subseteq> protected k" "in_kernel a n" "i < n"
  shows "ldb k' (a + of_nat i) = ldb k (a + of_nat i)"
proof -
  obtain v where "kernel_map v (pg k)" using assms(3) by (auto simp: video_inv_def)
  then show ?thesis using ldb_protected [of v k v k' a n i] assms quietD [OF assms(1)] by simp
qed

lemma quiet_same_image:
  assumes "quiet k k'" "layout_inv k" "video_inv k"
  shows "same_image k k'"
proof -
  have "ldb k' (file_start k + of_nat x) = ldb k (file_start k + of_nat x)" if "x < image_size k" for x
    by (rule quiet_protected [OF assms _ layout_invD(1) [OF assms(2)] that]) (auto simp: protected_def)
  then show ?thesis using quietD(1) [OF assms(1)] by (simp add: same_static_def same_image_def)
qed

lemma same_image_dentry:
  assumes "fs_ok k" "same_image k k'" "i < nat (num_dir_entry k)"
  shows "copy_dentry k' (of_nat i) = copy_dentry k (of_nat i)"
proof -
  have b: "ldb k' (dentry_addr k (of_nat i) + of_nat x) = ldb k (dentry_addr k (of_nat i) + of_nat x)"
    if "x < 64" for x by (rule same_image_dentry_byte [OF assms that])
  have "ldb k' (dentry_addr k (of_nat i) + 40 + of_nat x) = ldb k (dentry_addr k (of_nat i) + 40 + of_nat x)"
    if "x < 24" for x using b [of "40 + x"] that by (simp add: add.assoc)
  then show ?thesis
    using b b [of 32] b [of 33] b [of 34] b [of 35] b [of 36] b [of 37] b [of 38] b [of 39]
    by (simp add: copy_dentry_def same_image_dentry_addr [OF assms(2)] ldw_ldb add.assoc load_list_def
        fileNameLength_def reserved_dentry_length_def)
qed

lemma image_ok_same:
  assumes "same_image k k'" "image_ok k names"
  shows "image_ok k' names"
proof -
  have ok: "fs_ok k" using assms(2) by (simp add: image_ok_def)
  note sel = same_image_sel [OF assms(1)] same_image_inode(1) [OF ok assms(1)]
  have "copy_dentry k' (of_nat i) = copy_dentry k (of_nat i)" if "i < nat (num_dir_entry k)" for i
    by (rule same_image_dentry [OF ok assms(1) that])
  then show ?thesis
    using assms(2) same_image_fs_ok [OF assms(1) ok] same_image_entry_names [OF ok assms(1)]
    by (simp add: image_ok_def sel)
qed

lemma aterm_ok_cursor:
  assumes "aterm_ok (terminal k t)" "screen_x_multi k' t = screen_x_multi k t" "screen_y_multi k' t = screen_y_multi k t"
  shows "aterm_ok (terminal k' t)"
  using assms by (simp add: aterm_ok_def terminal_def frame_grid_def)

lemma kbd_inv_quiet:
  assumes "quiet k k'" "layout_inv k" "kbd_inv k" "\<And>t. t \<in> {0, 1, 2} \<Longrightarrow> aterm_ok (terminal k' t)"
  shows "kbd_inv k'"
proof -
  note Q = quietD [OF assms(1)]
  have v: "video_inv k" using assms(3) by (simp add: kbd_inv_def)
  have rows: "load_list ldb k' (key_row k t) 129 = load_list ldb k (key_row k t) 129" if t: "t \<in> {0, 1, 2}" for t
  proof (rule nth_equalityI)
    fix i assume "i < length (load_list ldb k' (key_row k t) 129)"
    then have i: "i < 129" by simp
    have "key_row k t + of_nat i = keyboard_buffer k + of_nat (129 * nat t + i)"
      using t by (auto simp: key_row_def TOTAL_KEY_NUM_def)
    moreover have "ldb k' (keyboard_buffer k + of_nat (129 * nat t + i)) = ldb k (keyboard_buffer k + of_nat (129 * nat t + i))"
      by (rule quiet_protected [OF assms(1,2) v _ layout_invD(3) [OF assms(2)]])
        (use i t in \<open>auto simp: protected_def\<close>)
    ultimately show "load_list ldb k' (key_row k t) 129 ! i = load_list ldb k (key_row k t) 129 ! i"
      using i by (simp add: add.assoc)
  qed simp
  have "key_row k' = key_row k" using Q by (simp add: key_row_def fun_eq_iff)
  moreover have "video_inv k'" using v Q by (simp add: video_inv_def)
  moreover have "kbd_layout k'" using assms(3) Q by (simp add: kbd_inv_def kbd_layout_def)
  ultimately show ?thesis
    using assms(3,4) rows Q by (simp add: kbd_inv_def kline_def)
qed

lemma fds_ok_same:
  assumes "same_image k k'" "fs_ok k" "pcb_fds_ok k p"
  shows "pcb_fds_ok k' p"
proof -
  have "fd_ok k' d" if "fd_ok k d" for d
    using that same_image_sel(2) [OF assms(1)] same_image_inode(1) [OF assms(2,1)] by (auto simp: fd_ok_def)
  then show ?thesis using assms(3) by (simp add: pcb_fds_ok_def)
qed

lemma sys_inv_quiet:
  assumes "sys_inv names k" "quiet k k'" "fds_ok k'" "\<And>t. t \<in> {0, 1, 2} \<Longrightarrow> aterm_ok (terminal k' t)"
  shows "sys_inv names k'"
proof -
  note I = sys_invD [OF assms(1)] and Q = quietD [OF assms(2)]
  have sh: "ldb k' (shell_name k + of_nat i) = ldb k (shell_name k + of_nat i)" if "i < 6" for i
    by (rule quiet_protected [OF assms(2) I(1,9) _ layout_invD(2) [OF I(1)] that]) (auto simp: protected_def)
  have "shell_name k' = shell_name k" using Q(1) by (simp add: same_static_def)
  with sh sh [of 5] have "cstring (ldb k') (shell_name k') shell_string"
    using I(3) by (auto simp: cstring_def shell_string_def)
  moreover have "kbd_inv k'" by (rule kbd_inv_quiet [OF assms(2) I(1,4) assms(4)])
  moreover have "image_ok k' names" by (rule image_ok_same [OF quiet_same_image [OF assms(2) I(1,9)] I(2)])
  moreover have "proc_inv k'" "active_terminal k' = pcb_terminal (blk k' (current_pid k'))"
    using I(5,8) same_procs_inv [OF Q(2)] Q by simp_all
  ultimately show ?thesis
    using I(1,7) same_static_layout(2) [OF Q(1)] Q assms(3) by (simp add: sys_inv_def)
qed

end
