(* ===== verification/UserApi.thy ===== *)
theory UserApi
  imports SysInv
begin

text \<open>
  What a user program sees of the system: its memory, the screen of its terminal, its descriptors, the
  position in the directory, its arguments and the state of the keyboard line, with the effect of every
  system call on them. The locale \<open>user_os\<close> is the contract between programs and the kernel.
\<close>

section \<open>The view of a program\<close>

record ufile =
  uf_raw :: "u8 list"
  uf_type :: int
  uf_data :: "u8 list"

definition uf_name :: "ufile \<Rightarrow> u8 list" where
  "uf_name e = takeWhile (\<lambda>c. c \<noteq> 0) (uf_raw e)"

datatype ufd =
    Fd_closed
  | Fd_keyboard
  | Fd_screen
  | Fd_clock
  | Fd_directory
  | Fd_regular "u8 list" nat

record uview =
  umem :: "u32 \<Rightarrow> u8"
  uout :: aterm
  ufds :: "nat \<Rightarrow> ufd"
  udir :: nat
  uargs :: "u8 list option"
  uready :: bool
  urow :: "u8 list"
  utick :: bool

abbreviation mbytes :: "(u32 \<Rightarrow> u8) \<Rightarrow> u32 \<Rightarrow> nat \<Rightarrow> u8 list" where
  "mbytes \<equiv> load_list (\<lambda>m. m)"

definition put_bytes :: "u32 \<Rightarrow> u8 list \<Rightarrow> (u32 \<Rightarrow> u8) \<Rightarrow> u32 \<Rightarrow> u8" where
  "put_bytes a vs m = store_list fun_upd m a vs"

definition set_fd :: "nat \<Rightarrow> ufd \<Rightarrow> uview \<Rightarrow> uview" where
  "set_fd i d v = v\<lparr>ufds := (ufds v)(i := d)\<rparr>"

definition set_mem :: "u32 \<Rightarrow> u8 list \<Rightarrow> uview \<Rightarrow> uview" where
  "set_mem a vs v = v\<lparr>umem := put_bytes a vs (umem v)\<rparr>"

section \<open>The calls\<close>

text \<open>The first 32 characters of the string at an address: all that a file name can have.\<close>

definition name_at :: "(u32 \<Rightarrow> u8) \<Rightarrow> u32 \<Rightarrow> u8 list" where
  "name_at m a = takeWhile (\<lambda>c. c \<noteq> 0) (mbytes m a 32)"

definition first_closed :: "(nat \<Rightarrow> ufd) \<Rightarrow> nat" where
  "first_closed f = (case find (\<lambda>i. f i = Fd_closed) [0..<8] of Some i \<Rightarrow> i | None \<Rightarrow> 8)"

definition fd_for :: "ufile \<Rightarrow> ufd" where
  "fd_for e = (if uf_type e = 0 then Fd_clock else if uf_type e = 1 then Fd_directory else Fd_regular (uf_data e) 0)"

definition u_open :: "ufile list \<Rightarrow> u32 \<Rightarrow> uview \<Rightarrow> uview \<times> int" where
  "u_open img a v =
     (case find (\<lambda>e. uf_name e = name_at (umem v) a) img of
        None \<Rightarrow> (v, -1)
      | Some e \<Rightarrow>
          let i = first_closed (ufds v) in
          if i = 8 then (v, -1)
          else ((set_fd i (fd_for e) v)\<lparr>udir := (if uf_type e = 1 then 0 else udir v)\<rparr>, int i))"

definition u_read :: "ufile list \<Rightarrow> int \<Rightarrow> u32 \<Rightarrow> int \<Rightarrow> uview \<Rightarrow> uview \<times> int" where
  "u_read img fd a n v =
     (if fd \<ge> 8 \<or> fd < 0 \<or> fd = 1 then (v, -1)
      else case ufds v (nat fd) of
          Fd_regular c p \<Rightarrow>
            let m = min (nat n) (length c - p)
            in (set_fd (nat fd) (Fd_regular c (p + m)) (set_mem a (take m (drop p c)) v), int m)
        | Fd_directory \<Rightarrow>
            if udir v < length img
            then ((set_mem a (uf_raw (img ! udir v) @ [0]) v)\<lparr>udir := udir v + 1\<rparr>,
                  int (length (uf_name (img ! udir v))))
            else (v, 0)
        | Fd_keyboard \<Rightarrow>
            ((set_mem a (take (nat n) (urow v)) v)\<lparr>uready := False\<rparr>,
             int (length (takeWhile (\<lambda>c. c \<noteq> 0) (urow v))))
        | Fd_clock \<Rightarrow> (v\<lparr>utick := False\<rparr>, 0)
        | _ \<Rightarrow> (v, -1))"

text \<open>What a write to the clock answers: the frequency has to be a power of two, above 1024 it is cut off.\<close>

definition clock_answer :: "(u32 \<Rightarrow> u8) \<Rightarrow> u32 \<Rightarrow> int" where
  "clock_answer m a =
     (if a = 0 then -1
      else let f = sint (word_of_bytes (m a) (m (a + 1)) (m (a + 2)) (m (a + 3)))
           in if f \<le> 0 \<or> freq_flag (if f > 1024 then 1024 else f) False then -1 else 0)"

text \<open>Output goes through the line buffer of the terminal, so it replaces a line that waits there.\<close>

definition u_write :: "int \<Rightarrow> u32 \<Rightarrow> int \<Rightarrow> uview \<Rightarrow> uview \<times> int" where
  "u_write fd a n v =
     (if fd \<ge> 8 \<or> fd < 0 \<or> fd = 0 then (v, -1)
      else case ufds v (nat fd) of
          Fd_screen \<Rightarrow>
            let vs = mbytes (umem v) a (nat n)
            in (v\<lparr>uout := fold aterm_putc vs (uout v), urow := vs @ [0] @ drop (nat n + 1) (urow v)\<rparr>, n)
        | Fd_clock \<Rightarrow> (v, clock_answer (umem v) a)
        | _ \<Rightarrow> (v, -1))"

definition u_close :: "int \<Rightarrow> uview \<Rightarrow> uview \<times> int" where
  "u_close fd v =
     (if fd \<ge> 8 \<or> fd \<le> 1 \<or> ufds v (nat fd) = Fd_closed then (v, -1)
      else (set_fd (nat fd) Fd_closed v, 0))"

definition u_getargs :: "u32 \<Rightarrow> int \<Rightarrow> uview \<Rightarrow> uview \<times> int" where
  "u_getargs a n v =
     (if a = 0 then (v, -1)
      else case uargs v of None \<Rightarrow> (v, -1) | Some raw \<Rightarrow> (set_mem a (take (nat n) raw) v, 0))"

definition u_vidmap :: "u32 \<Rightarrow> uview \<Rightarrow> uview \<times> int" where
  "u_vidmap a v =
     (if sint a < USER_PAGE_START \<or> sint a \<ge> USER_PAGE_END then (v, -1)
      else (set_mem a [byte_of VIDEO_USER 0, byte_of VIDEO_USER 1, byte_of VIDEO_USER 2, byte_of VIDEO_USER 3] v, 0))"

definition u_call :: "ufile list \<Rightarrow> u32 \<Rightarrow> u32 \<Rightarrow> u32 \<Rightarrow> u32 \<Rightarrow> uview \<Rightarrow> uview \<times> int" where
  "u_call img eax ebx ecx edx v =
     (if eax = 3 then u_read img (sint ebx) ecx (sint edx) v
      else if eax = 4 then u_write (sint ebx) ecx (sint edx) v
      else if eax = 5 then u_open img ebx v
      else if eax = 6 then u_close (sint ebx) v
      else if eax = 7 then u_getargs ebx (sint ecx) v
      else if eax = 8 then u_vidmap ebx v
      else (v, -1))"

section \<open>When a call is covered\<close>

text \<open>
  The buffers lie in the program page and are large enough for what the kernel stores, a write to the
  terminal fits into its line buffer, and a blocking read has something to deliver. \<^verbatim>\<open>halt\<close> and
  \<^verbatim>\<open>execute\<close> do not return to the program in the same state and are treated on their own.
\<close>

definition read_ok :: "int \<Rightarrow> u32 \<Rightarrow> int \<Rightarrow> uview \<Rightarrow> bool" where
  "read_ok fd a n v \<longleftrightarrow> (0 \<le> fd \<and> fd < 8 \<longrightarrow>
     (case ufds v (nat fd) of
        Fd_regular c p \<Rightarrow> 0 \<le> n \<and> ubuf a (nat n)
      | Fd_directory \<Rightarrow> ubuf a 33
      | Fd_keyboard \<Rightarrow> 0 \<le> n \<and> n \<le> 2050 \<and> ubuf a (nat n) \<and> uready v \<and> 0 \<in> set (take (nat n) (urow v))
      | Fd_clock \<Rightarrow> utick v
      | _ \<Rightarrow> True))"

definition write_ok :: "int \<Rightarrow> u32 \<Rightarrow> int \<Rightarrow> uview \<Rightarrow> bool" where
  "write_ok fd a n v \<longleftrightarrow> (0 \<le> fd \<and> fd < 8 \<longrightarrow>
     (case ufds v (nat fd) of
        Fd_screen \<Rightarrow> 0 \<le> n \<and> n < 2050 \<and> ubuf a (nat n)
      | Fd_clock \<Rightarrow> a = 0 \<or> ubuf a 4
      | _ \<Rightarrow> True))"

definition string_ok :: "(u32 \<Rightarrow> u8) \<Rightarrow> u32 \<Rightarrow> bool" where
  "string_ok m a \<longleftrightarrow> (\<exists>cs. cstring m a cs \<and> ubuf a (length cs + 1))"

definition call_ok :: "u32 \<Rightarrow> u32 \<Rightarrow> u32 \<Rightarrow> u32 \<Rightarrow> uview \<Rightarrow> bool" where
  "call_ok eax ebx ecx edx v \<longleftrightarrow> eax \<noteq> 1 \<and> eax \<noteq> 2 \<and>
     (eax = 3 \<longrightarrow> read_ok (sint ebx) ecx (sint edx) v) \<and>
     (eax = 4 \<longrightarrow> write_ok (sint ebx) ecx (sint edx) v) \<and>
     (eax = 5 \<longrightarrow> string_ok (umem v) ebx) \<and>
     (eax = 7 \<longrightarrow> ebx = 0 \<or> uargs v = None \<or> 0 \<le> sint ecx \<and> sint ecx \<le> 4096 \<and> ubuf ebx (nat (sint ecx))) \<and>
     (eax = 8 \<longrightarrow> sint ebx < USER_PAGE_START \<or> sint ebx \<ge> USER_PAGE_END \<or> ubuf ebx 4)"

text \<open>What every view has: no memory outside the page, the standard streams, files read inside their bounds.\<close>

definition view_ok :: "ufile list \<Rightarrow> uview \<Rightarrow> bool" where
  "view_ok img v \<longleftrightarrow> (\<forall>a. \<not> ubuf a 1 \<longrightarrow> umem v a = 0) \<and> aterm_ok (uout v) \<and> ufds v 0 = Fd_keyboard \<and> ufds v 1 = Fd_screen \<and>
     (\<forall>i c p. 2 \<le> i \<and> i < 8 \<longrightarrow> ufds v i \<noteq> Fd_keyboard \<and> ufds v i \<noteq> Fd_screen \<and>
        (ufds v i = Fd_regular c p \<longrightarrow> p \<le> length c)) \<and>
     length (urow v) = 2050 \<and> (\<forall>raw. uargs v = Some raw \<longrightarrow> length raw = 4096) \<and>
     (\<forall>e\<in>set img. length (uf_raw e) = 32 \<and> uf_type e \<in> {0, 1, 2} \<and> length (uf_data e) < 2 ^ 22)"

section \<open>The contract\<close>

text \<open>The operations a program has: its own loads and stores, and the trap with \<^verbatim>\<open>eax\<close>, \<^verbatim>\<open>ebx\<close>, \<^verbatim>\<open>ecx\<close>, \<^verbatim>\<open>edx\<close>.\<close>

record 'w os =
  os_load :: "'w \<Rightarrow> u32 \<Rightarrow> u8"
  os_store :: "'w \<Rightarrow> u32 \<Rightarrow> u8 \<Rightarrow> 'w"
  os_call :: "u32 \<Rightarrow> u32 \<Rightarrow> u32 \<Rightarrow> u32 \<Rightarrow> 'w \<Rightarrow> ('w \<times> int) option"

locale user_os =
  fixes os :: "'w os" and inv :: "'w \<Rightarrow> bool" and view :: "'w \<Rightarrow> uview" and img :: "ufile list"
  assumes view: "inv w \<Longrightarrow> view_ok img (view w)"
    and load: "inv w \<Longrightarrow> ubuf a 1 \<Longrightarrow> os_load os w a = umem (view w) a"
    and store: "inv w \<Longrightarrow> ubuf a 1 \<Longrightarrow> inv (os_store os w a c) \<and>
      view (os_store os w a c) = (view w)\<lparr>umem := (umem (view w))(a := c)\<rparr>"
    and call: "inv w \<Longrightarrow> call_ok eax ebx ecx edx (view w) \<Longrightarrow>
      \<exists>w'. os_call os eax ebx ecx edx w = Some (w', snd (u_call img eax ebx ecx edx (view w))) \<and> inv w' \<and>
        view w' = fst (u_call img eax ebx ecx edx (view w))"

section \<open>The kernel's state as a view\<close>

definition image_of :: "'a filesys_scheme \<Rightarrow> ufile list" where
  "image_of k = map (\<lambda>i. let d = copy_dentry k (of_nat i) in
     \<lparr>uf_raw = fileName d, uf_type = fileType d,
      uf_data = file_part k (inode d) 0 (unat (inode_length k (inode d)))\<rparr>) [0..<nat (num_dir_entry k)]"

definition abs_fd :: "'a filesys_scheme \<Rightarrow> file_desc_t \<Rightarrow> ufd" where
  "abs_fd k d =
     (if flags d = 0 then Fd_closed
      else case fd_read d of
          Op_terminal_read \<Rightarrow> Fd_keyboard
        | Op_rtc_read \<Rightarrow> Fd_clock
        | Op_filesys_read \<Rightarrow> Fd_regular (file_part k (fd_inode d) 0 (unat (inode_length k (fd_inode d)))) (unat (file_position d))
        | Op_dir_read \<Rightarrow> Fd_directory
        | _ \<Rightarrow> Fd_screen)"

definition kview :: "'a proc_scheme \<Rightarrow> uview" where
  "kview k = \<lparr>umem = (\<lambda>a. if ubuf a 1 then ldb k a else 0), uout = terminal k (active_terminal k),
     ufds = (\<lambda>i. if i < 8 then abs_fd k (file_array (pcbs k (get_current_pcb k)) i) else Fd_closed), udir = nat (current_dir_read_index k),
     uargs = (if arg_available k (current_pid k) = 0 then None else Some (load_list ldb k (arg_row k (current_pid k)) 4096)),
     uready = (terminal_read_ready k (active_terminal k) = 1),
     urow = load_list ldb k (print_row k (active_terminal k)) 2050, utick = (next_interrupt k \<noteq> 0)\<rparr>"

definition user_inv :: "ufile list \<Rightarrow> 'a proc_scheme \<Rightarrow> bool" where
  "user_inv img k \<longleftrightarrow> (\<exists>names. sys_inv names k) \<and> running k (current_pid k) \<and> 0 \<le> current_dir_read_index k \<and>
     image_of k = img"

end
