(* ===== verification/SysCalls.thy ===== *)
theory SysCalls
  imports UserApi
begin

text \<open>
  The kernel keeps the contract of the system call interface: every covered call returns, acts on the
  program's view as specified, and preserves the invariant of the system.
\<close>

section \<open>The invariant of a running program\<close>

lemma user_invD:
  assumes "user_inv img k"
  obtains names where "sys_inv names k" "layout_inv k" "image_ok k names" "fs_ok k" "entry_names k names" "kbd_inv k"
    "video_inv k" "user_map k" "running k (current_pid k)" "pcb_fds_ok k (pcbs k (get_current_pcb k))"
    "get_current_pcb k = get_kernel_stack_bottom (current_pid k)" "image_of k = img" "0 \<le> current_dir_read_index k"
    "1 \<le> current_pid k" "current_pid k < 8" "active_terminal k \<in> {0, 1, 2}"
proof -
  obtain names where n: "sys_inv names k" "running k (current_pid k)" "image_of k = img" "0 \<le> current_dir_read_index k"
    using assms by (auto simp: user_inv_def)
  note I = sys_invD [OF n(1)] and P = proc_invD(3,4,7) [OF sys_invD(5) [OF n(1)]]
  have "user_map k" using I P by (simp add: user_map_def)
  moreover have "pcb_fds_ok k (pcbs k (get_current_pcb k))" using I(6) n(2) P(3) by (simp add: fds_ok_def)
  ultimately show ?thesis
    using that [OF n(1)] n I P by (simp add: image_ok_def video_inv_def)
qed

lemma image_of_same:
  assumes "same_image k k'" "image_ok k names"
  shows "image_of k' = image_of k"
proof -
  have ok: "fs_ok k" using assms(2) by (simp add: image_ok_def)
  have "copy_dentry k' (of_nat i) = copy_dentry k (of_nat i)" "inode_length k' n = inode_length k n"
    "file_part k' n 0 (unat (inode_length k n)) = file_part k n 0 (unat (inode_length k n))"
    if "i < nat (num_dir_entry k)" "n = inode (copy_dentry k (of_nat i))" for i n
    using that assms(2) same_image_dentry [OF ok assms(1)] same_image_inode(1) [OF ok assms(1)]
      same_image_file_part [OF ok assms(1)] by (auto simp: image_ok_def)
  then show ?thesis using same_image_sel(4) [OF assms(1)] by (simp add: image_of_def Let_def)
qed

lemma abs_fd_same:
  assumes "same_image k k'" "fs_ok k" "flags d \<noteq> 0 \<Longrightarrow> fd_read d = Op_filesys_read \<Longrightarrow> unat (fd_inode d) < nat (num_inodes k)"
  shows "abs_fd k' d = abs_fd k d"
  using assms same_image_inode(1) [OF assms(2,1)] same_image_file_part [OF assms(2,1)]
  by (auto simp: abs_fd_def split: fop.splits)

lemma pcb_fds_inode:
  assumes "pcb_fds_ok k p" "i < 8" "flags (file_array p i) \<noteq> 0" "fd_read (file_array p i) = Op_filesys_read"
  shows "unat (fd_inode (file_array p i)) < nat (num_inodes k)"
proof -
  consider "i = 0" | "i = 1" | "2 \<le> i" by linarith
  then show ?thesis using assms by cases (auto simp: pcb_fds_ok_def streams_ok_def fd_ok_def)
qed

text \<open>A quiet step that changes at most the control block of the current process.\<close>

lemma user_inv_step:
  fixes k k' :: "'a proc_scheme"
  assumes "user_inv img k" "quiet k k'" "\<And>a. a \<noteq> get_current_pcb k \<Longrightarrow> pcbs k' a = pcbs k a"
    "pcb_fds_ok k (pcbs k' (get_current_pcb k))" "\<And>t. t \<in> {0, 1, 2} \<Longrightarrow> aterm_ok (terminal k' t)"
    "0 \<le> current_dir_read_index k'"
  shows "user_inv img k'" "same_image k k'"
proof -
  obtain names where U: "sys_inv names k" "layout_inv k" "image_ok k names" "fs_ok k" "video_inv k" "running k (current_pid k)"
    "image_of k = img" using user_invD [OF assms(1)] by metis
  note Q = quietD [OF assms(2)]
  show img: "same_image k k'" by (rule quiet_same_image [OF assms(2) U(2,5)])
  have "pcb_fds_ok k' (blk k' p)" if "running k' p" for p
  proof (rule fds_ok_same [OF img U(4)])
    show "pcb_fds_ok k (blk k' p)"
      using that assms(3,4) Q(13) sys_invD(6) [OF U(1)] by (cases "get_kernel_stack_bottom p = get_current_pcb k")
        (auto simp: fds_ok_def)
  qed
  then have "sys_inv names k'"
    by (intro sys_inv_quiet [OF U(1) assms(2) _ assms(5)]) (simp_all add: fds_ok_def)
  then show "user_inv img k'"
    using U Q assms(6) image_of_same [OF img U(3)] by (auto simp: user_inv_def)
qed

text \<open>A quiet step that leaves the control blocks alone.\<close>

lemma user_inv_mem:
  fixes k k' :: "'a proc_scheme"
  assumes "user_inv img k" "quiet k k'" "pcbs k' = pcbs k" "\<And>t. t \<in> {0, 1, 2} \<Longrightarrow> aterm_ok (terminal k' t)"
    "0 \<le> current_dir_read_index k'"
  shows "user_inv img k'" "same_image k k'"
    "i < 8 \<Longrightarrow> abs_fd k' (file_array (pcbs k (get_current_pcb k)) i) = abs_fd k (file_array (pcbs k (get_current_pcb k)) i)"
proof -
  obtain names where U: "pcb_fds_ok k (pcbs k (get_current_pcb k))" "fs_ok k" using user_invD [OF assms(1)] by metis
  show "user_inv img k'" and img: "same_image k k'"
    using user_inv_step [OF assms(1,2) _ _ assms(4,5)] U assms(3) by auto
  show "abs_fd k' (file_array (pcbs k (get_current_pcb k)) i) = abs_fd k (file_array (pcbs k (get_current_pcb k)) i)" if "i < 8"
    using abs_fd_same [OF img U(2)] pcb_fds_inode [OF U(1) that] by blast
qed

section \<open>Stores of the program\<close>

lemma arg_row_in_kernel:
  assumes "layout_inv k" "0 \<le> p" "p < 8"
  shows "in_kernel (arg_row k p) 4096" "arg_row k p = arg_buf k + of_nat (4096 * nat p)"
proof -
  have n: "word_of_int p = (of_nat (nat p) :: u32)" using assms(2) by simp
  show e: "arg_row k p = arg_buf k + of_nat (4096 * nat p)" by (simp add: arg_row_def MAX_ARG_SIZE_def n)
  have "unat (arg_row k p) = unat (arg_buf k) + 4096 * nat p"
    unfolding e using layout_invD(7) [OF assms(1)] assms(3) by (intro unat_off) (simp add: in_kernel_def; linarith)
  moreover have "4096 * nat p + 4096 \<le> 32768" using assms(3) by simp
  ultimately show "in_kernel (arg_row k p) 4096" using layout_invD(7) [OF assms(1)] by (simp add: in_kernel_def)
qed

lemma layout_kbd:
  assumes "layout_inv k"
  shows "kbd_layout k"
proof -
  have "before (keyboard_buffer k, 387) (print_buffer k, 6150) \<or> before (print_buffer k, 6150) (keyboard_buffer k, 387)"
    by (rule layout_pairwise [OF assms]) (simp_all add: regions_def)
  then show ?thesis using layout_invD(3,4) [OF assms] by (simp add: kbd_layout_def before_def)
qed

lemma user_rows_in_kernel:
  assumes "user_inv img k"
  shows "in_kernel (print_row k (active_terminal k)) 2050" "in_kernel (arg_row k (current_pid k)) 4096"
proof -
  obtain names where "layout_inv k" "1 \<le> current_pid k" "current_pid k < 8" "active_terminal k \<in> {0, 1, 2}"
    using user_invD [OF assms] by metis
  then show "in_kernel (print_row k (active_terminal k)) 2050" "in_kernel (arg_row k (current_pid k)) 4096"
    using key_row_rows(4) [OF layout_kbd, of k "active_terminal k"] arg_row_in_kernel(1) [of k "current_pid k"] by simp_all
qed

lemma store_bytes_proc_sel [simp]:
  fixes k :: "'a proc_scheme"
  shows "pcbs (store_bytes k a vs) = pcbs k" "current_pid (store_bytes k a vs) = current_pid k"
    "current_dir_read_index (store_bytes k a vs) = current_dir_read_index k"
    "arg_available (store_bytes k a vs) = arg_available k" "next_interrupt (store_bytes k a vs) = next_interrupt k"
    "terminal_read_ready (store_bytes k a vs) = terminal_read_ready k"
    "get_current_pcb (store_bytes k a vs) = get_current_pcb k" "arg_row (store_bytes k a vs) = arg_row k"
    "print_row (store_bytes k a vs) = print_row k"
  by (simp_all add: store_bytes_def get_current_pcb_def arg_row_def print_row_def fun_eq_iff)

lemma quiet_store_bytes:
  "only_at (free_cells k) k (store_bytes k a vs) \<Longrightarrow> quiet k (store_bytes k a vs)"
  by (simp add: quiet_def same_static_def same_procs_def same_keys_def store_bytes_def)

lemma terminal_user_store:
  assumes "user_map k" "ubuf a (length vs)" "t \<in> {0, 1, 2}"
  shows "terminal (store_bytes k a vs) t = terminal k t"
proof -
  have "phys (store_bytes k a vs) (in_page (term_frame (display_terminal k) t) off) =
      phys k (in_page (term_frame (display_terminal k) t) off)" if "off < 4096" for off
    unfolding store_bytes_def
  proof (simp, rule phys_store_list_out)
    fix i assume i: "i < length vs"
    show "translate k (a + of_nat i) \<noteq> Some (in_page (term_frame (display_terminal k) t) off)"
      using user_off_screen [OF assms, of "display_terminal k"] i that by (fastforce simp: off_screen_def page_cells_def)
  qed
  then show ?thesis by (auto simp: terminal_def store_bytes_def intro: frame_grid_cong)
qed

lemma ldb_user_stb:
  assumes "user_map k" "ubuf a 1" "ubuf b 1"
  shows "ldb (stb k a c) b = (if b = a then c else ldb k b)"
proof -
  have "translate k a = Some (user_cell (current_pid k) a)" "translate k b = Some (user_cell (current_pid k) b)"
    using user_walk(1) [OF assms(1,2), of 0] user_walk(1) [OF assms(1,3), of 0] by simp_all
  moreover have "user_cell (current_pid k) a = user_cell (current_pid k) b \<longleftrightarrow> a = b"
    using assms(1) user_cell_inj [OF _ _ assms(2,3)] by (metis user_mapD)
  ultimately show ?thesis by (auto simp: ldb_def stb_def ld_def st_def)
qed

lemma ubuf_Cons: "ubuf a (Suc n) \<Longrightarrow> ubuf a 1 \<and> ubuf (a + 1) n"
  using unat_off [of a 1] by (simp add: ubuf_def)

lemma put_bytes_simps [simp]:
  "put_bytes a [] m = m" "put_bytes a (v # vs) m = put_bytes (a + 1) vs (m(a := v))"
  by (simp_all add: put_bytes_def)

lemma umem_user_store:
  assumes "user_map k" "ubuf a (length vs)"
  shows "umem (kview (store_bytes k a vs)) = put_bytes a vs (umem (kview k))"
  using assms
proof (induction vs arbitrary: k a)
  case Nil
  then show ?case by (simp add: store_bytes_def kview_def ldb_def)
next
  case (Cons v vs)
  have u: "ubuf a 1" "ubuf (a + 1) (length vs)" using ubuf_Cons Cons.prems(2) by simp_all
  have e: "store_bytes k a (v # vs) = store_bytes (stb k a v) (a + 1) vs" by (simp add: store_bytes_def stb_def)
  have um: "user_map (stb k a v)" using Cons.prems(1) by (simp add: user_map_def stb_def video_inv_def)
  have "umem (kview (stb k a v)) = (umem (kview k))(a := v)"
    using ldb_user_stb [OF Cons.prems(1) u(1)] u(1) by (auto simp: kview_def fun_eq_iff)
  then show ?case by (simp only: e Cons.IH [OF um u(2)] put_bytes_simps)
qed

lemma user_store:
  fixes k :: "'a proc_scheme"
  assumes "user_inv img k" "ubuf a (length vs)"
  shows "user_inv img (store_bytes k a vs)" "kview (store_bytes k a vs) = set_mem a vs (kview k)"
    "quiet k (store_bytes k a vs)"
proof -
  obtain names where U: "user_map k" "kbd_inv k" "0 \<le> current_dir_read_index k" "active_terminal k \<in> {0, 1, 2}"
    using user_invD [OF assms(1)] by metis
  let ?k' = "store_bytes k a vs"
  show q: "quiet k ?k'" by (rule quiet_store_bytes [OF only_at_user_store [OF U(1) assms(2)]])
  have t: "terminal ?k' t = terminal k t" if "t \<in> {0, 1, 2}" for t by (rule terminal_user_store [OF U(1) assms(2) that])
  then have ok: "aterm_ok (terminal ?k' t)" if "t \<in> {0, 1, 2}" for t using kbd_invD(1) [OF U(2) that] that by simp
  note M = user_inv_mem [OF assms(1) q _ ok] and R = user_rows_in_kernel [OF assms(1)]
  show "user_inv img ?k'" by (rule M(1)) (use U(3) in simp_all)
  have ld: "load_list ldb ?k' r n = load_list ldb k r n" if "in_kernel r n" for r n
    by (rule load_list_store_apart) (rule user_apart_kernel(1) [OF U(1) assms(2) that])
  show "kview ?k' = set_mem a vs (kview k)"
    by (rule uview.equality)
      (use umem_user_store [OF U(1) assms(2)] t [OF U(4)] M(3) U(3) ld [OF R(1)] ld [OF R(2)] in
        \<open>simp_all add: set_mem_def kview_def cong: if_cong\<close>)
qed

section \<open>Output\<close>

lemma page_cells_low:
  assumes "t \<in> {0, 1, 2}" "q \<in> page_cells (term_frame d t)"
  shows "unat q < 0xC0000"
  using assms term_frame_low by (auto simp: page_cells_def)

lemma load_list_free:
  assumes "\<And>i. i < n \<Longrightarrow> ldb k' (a + of_nat i) = ldb k (a + of_nat i)"
  shows "load_list ldb k' a n = load_list ldb k a n"
  using assms by (simp add: load_list_def)

lemma ldb_keeps:
  assumes "keeps v k k'" "translate k a = Some q" "q \<notin> page_cells v"
  shows "ldb k' a = ldb k a"
  using assms by (simp add: keeps_def ldb_def ld_def)

lemma umem_mbytes:
  assumes "ubuf a n"
  shows "mbytes (umem (kview k)) a n = load_list ldb k a n"
  using ubuf_off(2) [OF assms] by (simp add: load_list_def kview_def)

lemma bytes_at_sub:
  assumes "x + n \<le> m"
  shows "bytes_at (a + of_nat x) n \<subseteq> bytes_at a m"
proof
  fix p assume "p \<in> bytes_at (a + of_nat x) n"
  then obtain i where "i < n" "p = a + of_nat (x + i)" by (auto simp: bytes_at_def add.assoc)
  then show "p \<in> bytes_at a m" using assms by (auto simp: bytes_at_def simp del: of_nat_add)
qed

lemma rows_apart_layout:
  assumes "layout_inv k" "video_inv k" "t \<in> {0, 1, 2}" "0 \<le> p" "p < 8" "n \<le> 2050"
  shows "apart (translate k) (print_row k t) n (arg_row k p) 4096"
proof -
  obtain v where v: "kernel_map v (pg k)" using assms(2) by (auto simp: video_inv_def)
  have "before (print_buffer k, 6150) (arg_buf k, 32768) \<or> before (arg_buf k, 32768) (print_buffer k, 6150)"
    by (rule layout_pairwise [OF assms(1)]) (simp_all add: regions_def)
  moreover have "unat (arg_row k p) = unat (arg_buf k) + 4096 * nat p"
    unfolding arg_row_in_kernel(2) [OF assms(1,4,5)] using layout_invD(7) [OF assms(1)] assms(5)
    by (intro unat_off) (simp add: in_kernel_def; linarith)
  ultimately have "unat (print_row k t) + n \<le> unat (arg_row k p) \<or> unat (arg_row k p) + 4096 \<le> unat (print_row k t)"
    using key_row_rows(2) [OF layout_kbd [OF assms(1)] assms(3)] assms(3-6) by (auto simp: before_def)
  then show ?thesis
    using key_row_rows(4) [OF layout_kbd [OF assms(1)] assms(3)] arg_row_in_kernel(1) [OF assms(1,4,5)] assms(6)
    by (intro apart_in_kernel [OF v]) (auto simp: in_kernel_def)
qed

lemma aterm_ok_fold: "aterm_ok T \<Longrightarrow> aterm_ok (fold aterm_putc bs T)"
  by (induction bs arbitrary: T) (auto intro: aterm_ok_putc)

text \<open>A store to the beginning of a row of the kernel replaces exactly that part.\<close>

lemma load_list_store_prefix:
  assumes w: "kernel_map w (pg k)" and r: "in_kernel r m" and vs: "length vs \<le> m"
  shows "load_list ldb (store_bytes k r vs) r m = vs @ drop (length vs) (load_list ldb k r m)"
proof (rule nth_equalityI)
  fix i assume "i < length (load_list ldb (store_bytes k r vs) r m)"
  then have i: "i < m" by simp
  show "load_list ldb (store_bytes k r vs) r m ! i = (vs @ drop (length vs) (load_list ldb k r m)) ! i"
  proof (cases "i < length vs")
    case True
    have "in_kernel r (length vs)" using r vs by (simp add: in_kernel_def)
    then show ?thesis
      using ldb_store_bytes [OF in_kernel_block [OF w], of r vs i] True i by (simp add: nth_append)
  next
    case False
    have u: "unat (r + of_nat i) = unat r + i" using in_kernel_walk(2) [OF w r i] .
    have "apart (translate k) r (length vs) (r + of_nat i) 1"
      by (rule apart_in_kernel [OF w]) (use r vs i False u in \<open>simp_all add: in_kernel_def\<close>)
    then have "ldb (store_bytes k r vs) (r + of_nat i) = ldb k (r + of_nat i)"
      using ldb_store_apart [of k r vs "r + of_nat i" 1 0] by simp
    then show ?thesis using False i by (simp add: nth_append)
  qed
qed (use vs in simp)

text \<open>A step that changes only a screen: the memory of the program and of the kernel is the same.\<close>

lemma keeps_memory:
  fixes k k' :: "'a proc_scheme"
  assumes "user_map k" "t \<in> {0, 1, 2}" "keeps (term_frame d t) k k'"
  shows "ubuf b 1 \<Longrightarrow> ldb k' b = ldb k b" "in_kernel r m \<Longrightarrow> load_list ldb k' r m = load_list ldb k r m"
    "only_at (free_cells k) k k'"
proof -
  have out: "ldb k' (b + of_nat i) = ldb k (b + of_nat i)" if "off_screen (term_frame d t) (translate k) b m" "i < m" for b m i
    using that ldb_keeps [OF assms(3)] by (auto simp: off_screen_def)
  obtain w where w: "kernel_map w (pg k)" using user_mapD [OF assms(1)] by blast
  show "ldb k' b = ldb k b" if "ubuf b 1"
    using out [OF user_off_screen [OF assms(1) that assms(2)], of 0] by simp
  show "load_list ldb k' r m = load_list ldb k r m" if "in_kernel r m"
    by (rule load_list_free) (rule out [OF in_kernel_off_screen [OF w that assms(2)]])
  show "only_at (free_cells k) k k'"
    using assms(3) page_cells_low [OF assms(2)] by (fastforce simp: keeps_def only_at_def free_cells_def)
qed

lemma print_row_cells:
  assumes "t \<in> {0, 1, 2}" "n \<le> 2050"
  shows "bytes_at (print_row k t) n \<subseteq> bytes_at (print_buffer k) 6150"
proof -
  have "print_row k t = print_buffer k + of_nat (2050 * nat t)" using assms(1) by (auto simp: print_row_def PRINT_LIM_def)
  moreover have "2050 * nat t + n \<le> 6150" using assms by auto
  ultimately show ?thesis by (simp only: bytes_at_sub)
qed

text \<open>What a store to the line buffer of the terminal leaves alone.\<close>

lemma row_store:
  fixes k :: "'a proc_scheme"
  assumes "user_inv img k" "length vs \<le> 2050"
  defines "k1 \<equiv> store_bytes k (print_row k (active_terminal k)) vs"
  shows "only_at (free_cells k) k k1" "user_map k1" "ubuf b 1 \<Longrightarrow> ldb k1 b = ldb k b"
    "load_list ldb k1 (print_row k (active_terminal k)) 2050 = vs @ drop (length vs) (urow (kview k))"
    "load_list ldb k1 (arg_row k (current_pid k)) 4096 = load_list ldb k (arg_row k (current_pid k)) 4096"
proof -
  obtain names where U: "user_map k" "active_terminal k \<in> {0, 1, 2}" "video_inv k" "layout_inv k" "1 \<le> current_pid k" "current_pid k < 8"
    using user_invD [OF assms(1)] by metis
  let ?r = "print_row k (active_terminal k)"
  note R = user_rows_in_kernel [OF assms(1)]
  obtain w where w: "kernel_map w (pg k)" using U(3) by (auto simp: video_inv_def)
  have row: "in_kernel ?r (length vs)" using R(1) assms(2) by (simp add: in_kernel_def)
  show "only_at (free_cells k) k k1"
    unfolding k1_def using print_row_cells [OF U(2) assms(2)] by (intro only_at_kernel_store [OF w row]) (auto simp: free_cells_def)
  show "user_map k1" using U(1) by (simp add: user_map_def k1_def video_inv_def)
  show "ldb k1 b = ldb k b" if "ubuf b 1"
    using ldb_store_apart [OF user_apart_kernel(2) [OF U(1) that row], of 0] by (simp add: k1_def)
  show "load_list ldb k1 ?r 2050 = vs @ drop (length vs) (urow (kview k))"
    unfolding k1_def load_list_store_prefix [OF w R(1) assms(2)] by (simp add: kview_def)
  show "load_list ldb k1 (arg_row k (current_pid k)) 4096 = load_list ldb k (arg_row k (current_pid k)) 4096"
    unfolding k1_def
    by (rule load_list_store_apart) (use rows_apart_layout [OF U(4,3,2) _ U(6) assms(2)] U(5) in simp)
qed

lemma user_terminal_write:
  fixes k :: "'a proc_scheme"
  assumes "user_inv img k" "n < 2050" "ubuf a n"
  shows "\<exists>k'. terminal_write a (int n) k = Some (k', int n) \<and> user_inv img k' \<and> quiet k k' \<and> pcbs k' = pcbs k \<and>
    kview k' = (kview k)\<lparr>uout := fold aterm_putc (mbytes (umem (kview k)) a n) (uout (kview k)),
      urow := mbytes (umem (kview k)) a n @ [0] @ drop (n + 1) (urow (kview k))\<rparr>"
proof -
  obtain names where U: "user_map k" "kbd_inv k" "0 \<le> current_dir_read_index k" "active_terminal k \<in> {0, 1, 2}" "video_inv k"
    using user_invD [OF assms(1)] by metis
  define bytes where "bytes = load_list ldb k a n"
  define k1 where "k1 = store_bytes k (print_row k (active_terminal k)) (bytes @ [0])"
  let ?r = "print_row k (active_terminal k)" and ?v = "term_frame (display_terminal k) (active_terminal k)"
  note R = user_rows_in_kernel [OF assms(1)]
  have row: "in_kernel ?r (n + 1)" "in_kernel ?r n" using R(1) assms(2) by (simp_all add: in_kernel_def)
  have ok: "aterm_ok (terminal k t)" if "t \<in> {0, 1, 2}" for t by (rule kbd_invD(1) [OF U(2) that])
  obtain k' p h x y xb yb where k': "terminal_write a (int n) k = Some (k', int n)"
    "\<forall>t\<in>{0, 1, 2}. terminal k' t = (if t = active_terminal k then fold aterm_putc bytes (terminal k t) else terminal k t)"
    "k' = k\<lparr>phys := p, iflag := True, io := h, screen_x_multi := x, screen_y_multi := y,
       screen_x_before_input := xb, screen_y_before_input := yb\<rparr>"
    "keeps ?v k1 k'"
    using terminal_write_full [OF U(5) ok [OF U(4)] _ row(1), of a] user_apart_kernel(2) [OF U(1) assms(3) row(2)] assms(2)
    unfolding bytes_def k1_def by (auto simp: PRINT_LIM_def)
  have "length (bytes @ [0]) \<le> 2050" using assms(2) by (simp add: bytes_def)
  note S = row_store [OF assms(1) this, folded k1_def]
  have "free_cells k1 = free_cells k" by (simp add: k1_def free_cells_def store_bytes_def)
  with keeps_memory [OF S(2) U(4) k'(4)] S(1) have K: "only_at (free_cells k) k k'"
    "\<And>b. ubuf b 1 \<Longrightarrow> ldb k' b = ldb k1 b" "\<And>r m. in_kernel r m \<Longrightarrow> load_list ldb k' r m = load_list ldb k1 r m"
    by (auto intro: only_at_trans)
  then have q: "quiet k k'"
    unfolding quiet_def same_static_def same_procs_def same_keys_def by (simp add: k'(3))
  have sel: "pcbs k' = pcbs k" "get_current_pcb k' = get_current_pcb k" "current_pid k' = current_pid k"
    "print_row k' = print_row k" "arg_row k' = arg_row k" "active_terminal k' = active_terminal k"
    "current_dir_read_index k' = current_dir_read_index k"
    "arg_available k' = arg_available k" "terminal_read_ready k' = terminal_read_ready k" "next_interrupt k' = next_interrupt k"
    by (simp_all add: k'(3) get_current_pcb_def fun_eq_iff print_row_def arg_row_def)
  have ok': "aterm_ok (terminal k' t)" if "t \<in> {0, 1, 2}" for t
    using bspec [OF k'(2) that] ok [OF that] by (auto intro: aterm_ok_fold)
  have "0 \<le> current_dir_read_index k'" using U(3) sel by simp
  note M = user_inv_mem [OF assms(1) q sel(1) ok' this]
  have um: "umem (kview k') = umem (kview k)" using K(2) S(3) by (simp add: kview_def fun_eq_iff)
  have "kview k' = (kview k)\<lparr>uout := fold aterm_putc bytes (uout (kview k)),
      urow := bytes @ [0] @ drop (n + 1) (urow (kview k))\<rparr>" (is "_ = ?V")
  proof (rule uview.equality)
    show "umem (kview k') = umem ?V" using um by simp
    show "ufds (kview k') = ufds ?V" using M(3) by (simp add: kview_def sel cong: if_cong)
    show "urow (kview k') = urow ?V" using K(3) [OF R(1)] S(4) by (simp add: kview_def sel bytes_def)
    show "uargs (kview k') = uargs ?V" using K(3) [OF R(2)] S(5) by (simp add: kview_def sel)
  qed (use bspec [OF k'(2) U(4)] in \<open>simp_all add: kview_def sel\<close>)
  then show ?thesis using k'(1) M(1) q sel(1) umem_mbytes [OF assms(3), of k] by (metis bytes_def)
qed

section \<open>Steps on the variables\<close>

text \<open>
  A step that changes the descriptors of the current process, the directory position, the flags of the
  blocking reads, or the devices.
\<close>

lemma user_vars:
  fixes k :: "'a proc_scheme"
  assumes "user_inv img k" "core q = core (pcbs k (get_current_pcb k))" "pcb_fds_ok k q" "0 \<le> j"
    and k'_def: "k' = k\<lparr>iflag := b, io := h, current_dir_read_index := j, next_interrupt := ni, terminal_read_ready := rr,
    pcbs := (pcbs k)(get_current_pcb k := q)\<rparr>"
  shows "user_inv img k'" "quiet k k'"
    "kview k' = (kview k)\<lparr>ufds := (\<lambda>i. if i < 8 then abs_fd k (file_array q i) else Fd_closed), udir := nat j,
       uready := (rr (active_terminal k) = 1), utick := (ni \<noteq> 0)\<rparr>"
proof -
  obtain names where U: "kbd_inv k" "fs_ok k" using user_invD [OF assms(1)] by metis
  show q: "quiet k k'"
    using assms(2) by (simp add: quiet_def same_static_def same_procs_def same_keys_def only_at_def k'_def)
  have sel: "get_current_pcb k' = get_current_pcb k" "ldb k' = ldb k" "arg_row k' = arg_row k" "print_row k' = print_row k"
    by (simp_all add: k'_def get_current_pcb_def fun_eq_iff ldb_def arg_row_def print_row_def)
  have vars: "pcbs k' (get_current_pcb k) = q" "current_pid k' = current_pid k" "active_terminal k' = active_terminal k"
    "arg_available k' = arg_available k" "current_dir_read_index k' = j" "next_interrupt k' = ni" "terminal_read_ready k' = rr"
    by (simp_all add: k'_def)
  have ld: "load_list ldb k' a n = load_list ldb k a n" for a n by (simp add: load_list_def sel)
  have t: "terminal k' t = terminal k t" for t by (simp add: k'_def terminal_def)
  have "user_inv img k' \<and> same_image k k'"
    using user_inv_step [OF assms(1) q] kbd_invD(1) [OF U(1)] assms(3,4) t by (simp add: k'_def)
  then show "user_inv img k'" by simp
  have "inode_length k' = inode_length k" and "file_byte k' = file_byte k"
    by (simp_all add: fun_eq_iff k'_def file_byte_def inode_length_def inode_data_def data_block_def ldw_ldb ldb_def)
  then have "abs_fd k' d = abs_fd k d" for d by (simp add: abs_fd_def file_part_def split: fop.splits)
  then show "kview k' = (kview k)\<lparr>ufds := (\<lambda>i. if i < 8 then abs_fd k (file_array q i) else Fd_closed), udir := nat j,
       uready := (rr (active_terminal k) = 1), utick := (ni \<noteq> 0)\<rparr>"
    by (intro uview.equality) (simp_all add: kview_def sel t vars ld cong: if_cong)
qed

lemma view_fd:
  "i < 8 \<Longrightarrow> ufds (kview k) i = abs_fd k (file_array (pcbs k (get_current_pcb k)) i)"
  by (simp add: kview_def)

text \<open>Only the descriptors of the current process change.\<close>

lemma user_fd_step:
  fixes k :: "'a proc_scheme"
  assumes "user_inv img k" "i < 8" "pcb_fds_ok k (upd_fd i f (pcbs k (get_current_pcb k)))"
  defines "k' \<equiv> upd_pcb (get_current_pcb k) (upd_fd i f) k"
  shows "user_inv img k'" "quiet k k'"
    "kview k' = set_fd i (abs_fd k (f (file_array (pcbs k (get_current_pcb k)) i))) (kview k)"
proof -
  let ?q = "upd_fd i f (pcbs k (get_current_pcb k))"
  have d: "0 \<le> current_dir_read_index k" using user_invD [OF assms(1)] by metis
  have e: "k' = k\<lparr>iflag := iflag k, io := io k, current_dir_read_index := current_dir_read_index k,
      next_interrupt := next_interrupt k, terminal_read_ready := terminal_read_ready k,
      pcbs := (pcbs k)(get_current_pcb k := ?q)\<rparr>"
    by (simp add: k'_def upd_pcb_def)
  note S = user_vars [OF assms(1) _ assms(3) d e]
  have c: "core ?q = core (pcbs k (get_current_pcb k))" by (simp add: core_def)
  show "user_inv img k'" "quiet k k'" using S(1,2) c by simp_all
  show "kview k' = set_fd i (abs_fd k (f (file_array (pcbs k (get_current_pcb k)) i))) (kview k)"
    unfolding S(3) [OF c] set_fd_def using assms(2) by (intro uview.equality) (auto simp: kview_def)
qed

section \<open>Close, getargs, vidmap\<close>

lemma abs_fd_closed [simp]: "flags d = 0 \<Longrightarrow> abs_fd k d = Fd_closed"
  by (simp add: abs_fd_def)

lemma abs_fd_closed_iff: "abs_fd k d = Fd_closed \<longleftrightarrow> flags d = 0"
  by (simp add: abs_fd_def split: fop.splits)

lemma user_close:
  fixes k :: "'a proc_scheme"
  assumes "user_inv img k"
  shows "\<exists>k'. close_file fd k = (k', snd (u_close fd (kview k))) \<and> user_inv img k' \<and> quiet k k' \<and>
    kview k' = fst (u_close fd (kview k))"
proof -
  let ?p = "pcbs k (get_current_pcb k)"
  consider "fd \<ge> 8 \<or> fd \<le> 1 \<or> flags (file_array ?p (nat fd)) = 0"
    | "2 \<le> fd" "fd < 8" "flags (file_array ?p (nat fd)) \<noteq> 0" by linarith
  then show ?thesis
  proof cases
    case 1
    then show ?thesis
      using assms by (auto simp: close_file_def u_close_def FDT_SIZE_def Let_def view_fd abs_fd_closed_iff)
  next
    case 2
    obtain names where "pcb_fds_ok k ?p" using user_invD [OF assms] by metis
    then have "pcb_fds_ok k (upd_fd (nat fd) (\<lambda>d. d\<lparr>flags := 0\<rparr>) ?p)"
      using 2 by (auto simp: pcb_fds_ok_def streams_ok_def nat_eq_iff)
    from user_fd_step [OF assms _ this] show ?thesis
      using 2 by (simp add: close_file_def u_close_def FDT_SIZE_def Let_def view_fd abs_fd_closed_iff)
  qed
qed

lemma user_getargs:
  fixes k :: "'a proc_scheme"
  assumes "user_inv img k" "a = 0 \<or> uargs (kview k) = None \<or> 0 \<le> n \<and> n \<le> 4096 \<and> ubuf a (nat n)"
  shows "\<exists>k'. getargs a n k = (k', snd (u_getargs a n (kview k))) \<and> user_inv img k' \<and> quiet k k' \<and>
    kview k' = fst (u_getargs a n (kview k))"
proof (cases "a = 0 \<or> arg_available k (current_pid k) = 0")
  case True
  then show ?thesis using assms(1) by (auto simp: getargs_def u_getargs_def kview_def)
next
  case False
  let ?r = "arg_row k (current_pid k)"
  have n: "0 \<le> n" "n \<le> 4096" "ubuf a (nat n)" using assms(2) False by (auto simp: kview_def)
  obtain names where U: "user_map k" using user_invD [OF assms(1)] by metis
  have u: "unat (word_of_int n :: u32) = nat n" using n(1,2) by (simp add: unsigned_of_int take_bit_int_eq_self)
  have R: "in_kernel ?r (nat n)" using user_rows_in_kernel(2) [OF assms(1)] n(2) by (simp add: in_kernel_def; linarith)
  have "memcpy k a ?r (word_of_int n) = store_bytes k a (load_list ldb k ?r (nat n))"
    using memcpy_store_bytes [of k a "word_of_int n" ?r] user_apart_kernel(1) [OF U n(3) R] u by simp
  moreover have "load_list ldb k ?r (nat n) = take (nat n) (load_list ldb k ?r 4096)"
    using n(2) by (intro nth_equalityI) simp_all
  ultimately have "getargs a n k = (store_bytes k a (load_list ldb k ?r (nat n)), 0)"
    "u_getargs a n (kview k) = (set_mem a (load_list ldb k ?r (nat n)) (kview k), 0)"
    using False by (simp_all add: getargs_def u_getargs_def) (simp add: kview_def)
  then show ?thesis
    using user_store [OF assms(1), of a "load_list ldb k ?r (nat n)"] n(3) by simp
qed

lemma st32_store_bytes: "k\<lparr>phys := st32 (translate k) (phys k) a v\<rparr> =
    store_bytes k a [byte_of v 0, byte_of v 1, byte_of v 2, byte_of v 3]"
  by (simp add: store_bytes_def st32_def add.assoc)

lemma user_vidmap:
  fixes k :: "'a proc_scheme"
  assumes "user_inv img k" "sint a < USER_PAGE_START \<or> sint a \<ge> USER_PAGE_END \<or> ubuf a 4"
  shows "\<exists>k'. vidmap a k = (k', snd (u_vidmap a (kview k))) \<and> user_inv img k' \<and> quiet k k' \<and>
    kview k' = fst (u_vidmap a (kview k))"
proof (cases "sint a < USER_PAGE_START \<or> sint a \<ge> USER_PAGE_END")
  case True
  then show ?thesis using assms(1) by (auto simp: vidmap_def u_vidmap_def)
next
  case False
  then have "a \<noteq> 0" by (auto simp: USER_PAGE_START_def)
  with False show ?thesis
    using user_store [OF assms(1), of a "[byte_of VIDEO_USER 0, byte_of VIDEO_USER 1, byte_of VIDEO_USER 2, byte_of VIDEO_USER 3]"] assms(2)
    by (simp add: vidmap_def u_vidmap_def st32_store_bytes numeral_eq_Suc)
qed

section \<open>Reading\<close>

lemma abs_fd_kinds:
  assumes "pcb_fds_ok k p" "i < 8" "abs_fd k (file_array p i) = d"
  shows "d = Fd_keyboard \<Longrightarrow> i = 0" "d = Fd_screen \<Longrightarrow> i = 1" "d \<noteq> Fd_closed \<Longrightarrow> flags (file_array p i) \<noteq> 0"
    "d = Fd_clock \<Longrightarrow> 2 \<le> i \<and> fd_read (file_array p i) = Op_rtc_read \<and> fd_write (file_array p i) = Op_rtc_write"
    "d = Fd_directory \<Longrightarrow> 2 \<le> i \<and> fd_read (file_array p i) = Op_dir_read \<and> fd_write (file_array p i) = Op_dir_write"
    "d = Fd_regular c n \<Longrightarrow> 2 \<le> i \<and> fd_read (file_array p i) = Op_filesys_read \<and> fd_write (file_array p i) = Op_filesys_write \<and>
       unat (fd_inode (file_array p i)) < nat (num_inodes k) \<and> unat (file_position (file_array p i)) = n \<and>
       n \<le> unat (inode_length k (fd_inode (file_array p i))) \<and>
       c = file_part k (fd_inode (file_array p i)) 0 (unat (inode_length k (fd_inode (file_array p i))))"
proof -
  have s: "abs_fd k (file_array p 0) = Fd_keyboard" "abs_fd k (file_array p 1) = Fd_screen"
    using assms(1) by (simp_all add: pcb_fds_ok_def streams_ok_def abs_fd_def)
  consider "i = 0" | "i = 1" | "2 \<le> i" "flags (file_array p i) = 0"
    | "2 \<le> i" "flags (file_array p i) \<noteq> 0" "fd_ok k (file_array p i)"
      "fd_read (file_array p i) \<in> {Op_rtc_read, Op_filesys_read, Op_dir_read}"
    using assms(1,2) unfolding pcb_fds_ok_def by (metis One_nat_def Suc_1 less_2_cases not_less)
  note cs = this
  show "d = Fd_keyboard \<Longrightarrow> i = 0" "d = Fd_screen \<Longrightarrow> i = 1" "d \<noteq> Fd_closed \<Longrightarrow> flags (file_array p i) \<noteq> 0"
    "d = Fd_clock \<Longrightarrow> 2 \<le> i \<and> fd_read (file_array p i) = Op_rtc_read \<and> fd_write (file_array p i) = Op_rtc_write"
    "d = Fd_directory \<Longrightarrow> 2 \<le> i \<and> fd_read (file_array p i) = Op_dir_read \<and> fd_write (file_array p i) = Op_dir_write"
    "d = Fd_regular c n \<Longrightarrow> 2 \<le> i \<and> fd_read (file_array p i) = Op_filesys_read \<and> fd_write (file_array p i) = Op_filesys_write \<and>
       unat (fd_inode (file_array p i)) < nat (num_inodes k) \<and> unat (file_position (file_array p i)) = n \<and>
       n \<le> unat (inode_length k (fd_inode (file_array p i))) \<and>
       c = file_part k (fd_inode (file_array p i)) 0 (unat (inode_length k (fd_inode (file_array p i))))"
    using assms(3) s by (cases rule: cs; auto simp: abs_fd_def fd_ok_def fd_pairs_def)+
qed

text \<open>A step of an operation followed by the new position of the descriptor.\<close>

lemma read_file_op:
  assumes "0 \<le> fd" "fd < 8" "fd \<noteq> 1" "flags (file_array (pcbs k (get_current_pcb k)) (nat fd)) \<noteq> 0"
    "d = file_array (pcbs k (get_current_pcb k)) (nat fd)"
    "call_op dev (fd_read d) (fd_inode d) (file_position d) a (word_of_int n) k = Some (k1, r)" "r \<noteq> -1"
  shows "read_file dev fd a n k = Some (upd_pcb (get_current_pcb k)
    (upd_fd (nat fd) (\<lambda>d. d\<lparr>file_position := file_position d + word_of_int r\<rparr>)) k1, r)"
  using assms by (simp add: read_file_def FDT_SIZE_def Let_def)

lemma pcb_fds_ok_pos:
  assumes "pcb_fds_ok k p" "i < 8"
    "flags (file_array p i) \<noteq> 0 \<and> fd_read (file_array p i) = Op_filesys_read \<Longrightarrow>
       unat (file_position (f (file_array p i))) \<le> unat (inode_length k (fd_inode (file_array p i)))"
    "\<And>d. fd_read (f d) = fd_read d \<and> fd_write (f d) = fd_write d \<and> flags (f d) = flags d \<and> fd_inode (f d) = fd_inode d"
  shows "pcb_fds_ok k (upd_fd i f p)"
  using assms by (auto simp: pcb_fds_ok_def streams_ok_def fd_ok_def)

lemma user_read_position:
  fixes k k1 :: "'a proc_scheme"
  assumes "user_inv img k1" "i < 8"
    "\<And>c n. ufds (kview k1) i = Fd_regular c n \<Longrightarrow> n + unat r \<le> length c"
  defines "k' \<equiv> upd_pcb (get_current_pcb k1) (upd_fd i (\<lambda>d. d\<lparr>file_position := file_position d + r\<rparr>)) k1"
  shows "user_inv img k'" "quiet k1 k'"
    "kview k' = (case ufds (kview k1) i of Fd_regular c n \<Rightarrow> set_fd i (Fd_regular c (n + unat r)) (kview k1) | _ \<Rightarrow> kview k1)"
proof -
  let ?p = "pcbs k1 (get_current_pcb k1)" and ?f = "\<lambda>d. d\<lparr>file_position := file_position d + r\<rparr>"
  obtain names where P: "pcb_fds_ok k1 ?p" using user_invD [OF assms(1)] by metis
  note kinds = abs_fd_kinds [OF P assms(2) view_fd [OF assms(2), symmetric]]
  have pos: "unat (file_position (file_array ?p i) + r) = n + unat r" "n + unat r \<le> length c"
    if "ufds (kview k1) i = Fd_regular c n" for c n
  proof -
    show "n + unat r \<le> length c" by (rule assms(3) [OF that])
    moreover have "length c < 2 ^ 32"
      using kinds(6) [OF that] unsigned_less [of "inode_length k1 (fd_inode (file_array ?p i))"] by simp
    ultimately show "unat (file_position (file_array ?p i) + r) = n + unat r"
      using kinds(6) [OF that] by (simp add: unat_word_ariths)
  qed
  have "pcb_fds_ok k1 (upd_fd i ?f ?p)"
  proof (rule pcb_fds_ok_pos [OF P assms(2)])
    assume "flags (file_array ?p i) \<noteq> 0 \<and> fd_read (file_array ?p i) = Op_filesys_read"
    then obtain c n where c: "ufds (kview k1) i = Fd_regular c n" by (simp add: view_fd [OF assms(2)] abs_fd_def)
    then show "unat (file_position (?f (file_array ?p i))) \<le> unat (inode_length k1 (fd_inode (file_array ?p i)))"
      using pos [OF c] kinds(6) [OF c] by simp
  qed simp
  note S = user_fd_step [OF assms(1,2) this, folded k'_def]
  show "user_inv img k'" "quiet k1 k'" by (rule S)+
  have "abs_fd k1 (?f (file_array ?p i)) = (case ufds (kview k1) i of Fd_regular c n \<Rightarrow> Fd_regular c (n + unat r) | d \<Rightarrow> d)"
  proof (cases "ufds (kview k1) i")
    case (Fd_regular c n)
    then show ?thesis using pos(1) [OF Fd_regular] kinds(6) [OF Fd_regular] kinds(3) by (simp add: abs_fd_def)
  qed (use view_fd [OF assms(2), of k1] in \<open>auto simp: abs_fd_def split: fop.splits if_splits\<close>)
  then show "kview k' = (case ufds (kview k1) i of Fd_regular c n \<Rightarrow> set_fd i (Fd_regular c (n + unat r)) (kview k1) | _ \<Rightarrow> kview k1)"
    unfolding S(3) by (simp split: ufd.splits add: set_fd_def) (auto simp: fun_upd_idem)
qed

lemma file_part_take:
  assumes "p + m \<le> n"
  shows "file_part k i p (p + m) = take m (drop p (file_part k i 0 n))"
  using assms by (simp add: file_part_def take_map drop_map)

lemma set_fd_mem: "set_fd i d (set_mem a vs v) = set_mem a vs (set_fd i d v)"
  by (simp add: set_fd_def set_mem_def)

lemma ufds_set_mem [simp]: "ufds (set_mem a vs v) = ufds v"
  by (simp add: set_mem_def)

lemma user_read_regular:
  fixes k :: "'a proc_scheme"
  assumes "user_inv img k" "2 \<le> fd" "fd < 8" "ufds (kview k) (nat fd) = Fd_regular c p" "0 \<le> n" "ubuf a (nat n)"
  shows "\<exists>k'. read_file dev fd a n k = Some (k', snd (u_read img fd a n (kview k))) \<and> user_inv img k' \<and> quiet k k' \<and>
    kview k' = fst (u_read img fd a n (kview k))"
proof -
  let ?P = "pcbs k (get_current_pcb k)" and ?m = "min (nat n) (length c - p)"
  obtain names where U: "pcb_fds_ok k ?P" "fs_ok k" "image_ok k names" "user_map k" "layout_inv k"
    using user_invD [OF assms(1)] by metis
  have i: "nat fd < 8" using assms(2,3) by simp
  note K = abs_fd_kinds(3,6) [OF U(1) i view_fd [OF i, symmetric]]
  define d where "d = file_array ?P (nat fd)"
  have D: "flags d \<noteq> 0" "fd_read d = Op_filesys_read" "unat (fd_inode d) < nat (num_inodes k)" "unat (file_position d) = p"
    "c = file_part k (fd_inode d) 0 (unat (inode_length k (fd_inode d)))" "p \<le> length c"
    using K(2) [OF assms(4)] K(1) assms(4) by (simp_all add: d_def)
  have len: "length c = unat (inode_length k (fd_inode d))" by (simp add: D(5))
  have "length c \<le> 0x3B8000" unfolding len using U(3) D(3) by (simp add: image_ok_def)
  then have lim: "unat (file_position d) + nat n < 2 ^ 31" using D(4,6) assms(6) by (simp add: ubuf_def)
  have mm: "ubuf a ?m" using assms(6) unfolding ubuf_def by linarith
  have ap: "apart (translate k) a ?m (file_start k) (image_size k)"
    by (rule user_apart_kernel(1) [OF U(4) mm layout_invD(1) [OF U(5)]])
  define vs where "vs = take ?m (drop p c)"
  have vs: "file_part k (fd_inode d) p (p + ?m) = vs" "length vs = ?m"
    using file_part_take [of p ?m "length c" k "fd_inode d"] D(6) by (simp_all add: vs_def D(5))
  let ?f = "\<lambda>d. d\<lparr>file_position := file_position d + of_nat ?m\<rparr>"
  have rd: "read_file dev fd a (int (nat n)) k = Some (upd_pcb (get_current_pcb k) (upd_fd (nat fd) ?f)
      (store_bytes k a vs), int ?m)"
    using read_file_regular [where d = d and N = ?m and buf = a, OF _ _ _ d_def D(1,2) U(2) D(3) lim] assms(2,3) ap vs D(4)
    by (simp add: len)
  have "ubuf a (length vs)" using mm by (simp only: vs(2))
  note S = user_store [OF assms(1) this]
  have u: "unat (of_nat ?m :: u32) = ?m"
    using \<open>length c \<le> 0x3B8000\<close> by (intro unat_of_nat_small) (simp add: min_def; linarith)
  have R: "user_inv img (upd_pcb (get_current_pcb k) (upd_fd (nat fd) ?f) (store_bytes k a vs))"
    "quiet (store_bytes k a vs) (upd_pcb (get_current_pcb k) (upd_fd (nat fd) ?f) (store_bytes k a vs))"
    "kview (upd_pcb (get_current_pcb k) (upd_fd (nat fd) ?f) (store_bytes k a vs)) =
       set_fd (nat fd) (Fd_regular c (p + ?m)) (set_mem a vs (kview k))"
    using user_read_position [OF S(1) i, of "of_nat ?m"] u D(6) by (simp_all add: S(2) assms(4))
  show ?thesis
    using rd R(1) quiet_trans [OF S(3) R(2)] R(3) assms(2-5) by (simp add: u_read_def vs_def Let_def)
qed

lemma user_read_clock:
  fixes k :: "'a proc_scheme"
  assumes "user_inv img k" "2 \<le> fd" "fd < 8" "ufds (kview k) (nat fd) = Fd_clock" "utick (kview k)"
  shows "\<exists>k'. read_file dev fd a n k = Some (k', snd (u_read img fd a n (kview k))) \<and> user_inv img k' \<and> quiet k k' \<and>
    kview k' = fst (u_read img fd a n (kview k))"
proof -
  let ?P = "pcbs k (get_current_pcb k)"
  obtain names where U: "pcb_fds_ok k ?P" "0 \<le> current_dir_read_index k" using user_invD [OF assms(1)] by metis
  have i: "nat fd < 8" using assms(2,3) by simp
  note K = abs_fd_kinds(3,4) [OF U(1) i view_fd [OF i, symmetric]]
  define k1 where "k1 = k\<lparr>iflag := True, io := io k, current_dir_read_index := current_dir_read_index k,
      next_interrupt := 0, terminal_read_ready := terminal_read_ready k, pcbs := (pcbs k)(get_current_pcb k := ?P)\<rparr>"
  note V = user_vars [OF assms(1) refl U(1,2) k1_def]
  have v: "kview k1 = (kview k)\<lparr>utick := False\<rparr>" unfolding V(3) by (simp add: kview_def)
  have "call_op dev Op_rtc_read x y a z k = Some (k1, 0)" for x y z
    using assms(5) by (simp add: call_op_def rtc_read_wrapper_def rtc_read_def Let_def sti_def k1_def kview_def)
  then have "read_file dev fd a n k = Some (upd_pcb (get_current_pcb k)
    (upd_fd (nat fd) (\<lambda>d. d\<lparr>file_position := file_position d + 0\<rparr>)) k1, 0)"
    using read_file_op [of fd k _ dev a n k1 0] K assms(2-4) by simp
  moreover have "get_current_pcb k1 = get_current_pcb k" using quietD(9) [OF V(2)] .
  ultimately show ?thesis
    using user_read_position [OF V(1) i, of 0] quiet_trans [OF V(2)] assms(2-4)
    by (simp add: v u_read_def)
qed

lemma takeWhile_load:
  assumes "cstring (f m) a cs"
  shows "takeWhile (\<lambda>c. c \<noteq> 0) (load_list f m a n) = take n cs"
proof (cases "n \<le> length cs")
  case True
  then have "load_list f m a n = take n cs" using cstringD(4) [OF assms] by (intro nth_equalityI) simp_all
  moreover have "0 \<notin> set (take n cs)" using cstringD(2) [OF assms] in_set_takeD by fast
  ultimately show ?thesis by (simp add: takeWhile_eq_all_conv) metis
next
  case False
  then have n: "n = length cs + Suc (n - length cs - 1)" by simp
  have "load_list f m a (length cs) = cs" using cstringD(4) [OF assms] by (intro nth_equalityI) simp_all
  then have "load_list f m a n = cs @ 0 # load_list f m (a + of_nat (length cs) + 1) (n - length cs - 1)"
    using cstringD(3) [OF assms] by (subst n) (simp only: load_list_add load_list_Suc)
  then show ?thesis using cstringD(2) [OF assms] False by (auto simp: takeWhile_append)
qed

lemma uf_name_takeWhile:
  assumes "entry_names k names" "i < nat (num_dir_entry k)"
  shows "uf_name (image_of k ! i) = take 32 (names i)" "length (uf_raw (image_of k ! i)) = 32"
    "uf_raw (image_of k ! i) = fileName (copy_dentry k (of_nat i))"
proof -
  show r: "uf_raw (image_of k ! i) = fileName (copy_dentry k (of_nat i))"
    using assms(2) by (simp add: image_of_def Let_def)
  then show "length (uf_raw (image_of k ! i)) = 32" by (simp add: copy_dentry_def fileNameLength_def)
  have nm: "cstring (ldb k) (dentry_addr k (of_nat i)) (names i)" using assms by (simp add: entry_names_def)
  show "uf_name (image_of k ! i) = take 32 (names i)"
    unfolding uf_name_def r copy_dentry_def using takeWhile_load [of ldb k, OF nm, of 32] by (simp add: fileNameLength_def)
qed

lemma user_read_directory:
  fixes k :: "'a proc_scheme"
  assumes "user_inv img k" "2 \<le> fd" "fd < 8" "ufds (kview k) (nat fd) = Fd_directory" "ubuf a 33"
  shows "\<exists>k'. read_file dev fd a n k = Some (k', snd (u_read img fd a n (kview k))) \<and> user_inv img k' \<and> quiet k k' \<and>
    kview k' = fst (u_read img fd a n (kview k))"
proof -
  let ?P = "pcbs k (get_current_pcb k)"
  obtain names where U: "pcb_fds_ok k ?P" "0 \<le> current_dir_read_index k" "fs_ok k" "entry_names k names" "user_map k"
    "image_of k = img" using user_invD [OF assms(1)] by metis
  have i: "nat fd < 8" using assms(2,3) by simp
  note K = abs_fd_kinds(3,5) [OF U(1) i view_fd [OF i, symmetric]]
  define j where "j = nat (current_dir_read_index k)"
  have j: "current_dir_read_index k = int j" "udir (kview k) = j" using U(2) by (simp_all add: j_def kview_def)
  have L: "length img = nat (num_dir_entry k)" by (simp add: U(6) [symmetric] image_of_def)
  obtain k1 r where k1: "dir_read a k = Some (k1, int r)" "user_inv img k1" "quiet k k1" "pcbs k1 = pcbs k"
    "(kview k1, int r) = (if j < length img then ((set_mem a (uf_raw (img ! j) @ [0]) (kview k))\<lparr>udir := j + 1\<rparr>,
        int (length (uf_name (img ! j)))) else (kview k, 0))"
  proof (cases "j < length img")
    case False
    then have "num_dir_entry k \<le> current_dir_read_index k" using L j(1) by simp
    then show thesis using that [of k 0] dir_read_end [of k a] assms(1) False by simp
  next
    case True
    define vs where "vs = uf_raw (img ! j) @ [0]"
    note N = uf_name_takeWhile [OF U(4), of j, unfolded U(6)]
    have ub: "ubuf a (length vs)" using assms(5) N(2) True L by (simp add: vs_def)
    note S = user_store [OF assms(1) ub]
    have P1: "pcb_fds_ok (store_bytes k a vs) (pcbs (store_bytes k a vs) (get_current_pcb (store_bytes k a vs)))"
      using user_invD [OF S(1)] by metis
    define k1 where "k1 = (store_bytes k a vs)\<lparr>iflag := iflag (store_bytes k a vs), io := io (store_bytes k a vs),
      current_dir_read_index := int (j + 1), next_interrupt := next_interrupt (store_bytes k a vs),
      terminal_read_ready := terminal_read_ready (store_bytes k a vs),
      pcbs := (pcbs (store_bytes k a vs))(get_current_pcb (store_bytes k a vs) :=
        pcbs (store_bytes k a vs) (get_current_pcb (store_bytes k a vs)))\<rparr>"
    have "0 \<le> int (j + 1)" by simp
    note V = user_vars [OF S(1) refl P1 this k1_def]
    have "block (translate k) a 33" using user_block [OF U(5) assms(5)] .
    from dir_read_next(1) [OF U(3,4) j(1) _ this]
    have "dir_read a k = Some (k1, int (length (take 32 (names j))))"
      using True L N by (simp add: k1_def vs_def)
    moreover have "kview k1 = (set_mem a vs (kview k))\<lparr>udir := j + 1\<rparr>"
      unfolding V(3) by (intro uview.equality) (simp_all add: S(2) [symmetric], simp_all add: kview_def cong: if_cong)
    ultimately show thesis
      using that [of k1 "length (take 32 (names j))"] V quiet_trans [OF S(3) V(2)] True N L by (simp add: vs_def k1_def)
  qed
  have u: "ufds (kview k1) (nat fd) = Fd_directory" using k1(5) assms(4) by (auto split: if_splits)
  have "call_op dev Op_dir_read x y a z k = Some (k1, int r)" for x y z
    using k1(1) by (simp add: call_op_def dir_read_wrapper_def)
  then have "read_file dev fd a n k = Some (upd_pcb (get_current_pcb k)
    (upd_fd (nat fd) (\<lambda>d. d\<lparr>file_position := file_position d + word_of_int (int r)\<rparr>)) k1, int r)"
    using read_file_op [of fd k _ dev a n k1 "int r"] K assms(2-4) by simp
  moreover have "get_current_pcb k1 = get_current_pcb k" using quietD(9) [OF k1(3)] .
  ultimately show ?thesis
    using user_read_position [OF k1(2) i, of "word_of_int (int r)"] quiet_trans [OF k1(3)] assms(2-4) k1(5) j(2)
    by (simp add: u u_read_def split: if_splits)
qed

lemma first_zero:
  assumes "0 \<in> set (take n (xs :: u8 list))"
  defines "cs \<equiv> takeWhile (\<lambda>c. c \<noteq> 0) xs"
  shows "length cs < n" "take n xs ! length cs = 0" "i < length cs \<Longrightarrow> take n xs ! i = cs ! i"
proof -
  obtain j where j: "j < n" "j < length xs" "xs ! j = 0" using assms(1) by (auto simp: in_set_conv_nth)
  have "length cs \<le> j" using nth_length_takeWhile j(3) takeWhile_nth [of j _ xs] set_takeWhileD [of 0 "\<lambda>c. c \<noteq> 0" xs]
    by (metis cs_def leI nth_mem)
  then have l: "length cs < n" "length cs < length xs" using j by simp_all
  then show "length cs < n" by simp
  have "\<not> xs ! length cs \<noteq> 0" using nth_length_takeWhile [of "\<lambda>c. c \<noteq> 0" xs] l(2) by (simp add: cs_def)
  then show "take n xs ! length cs = 0" using l by simp
  show "take n xs ! i = cs ! i" if "i < length cs" using that l takeWhile_nth [of i _ xs] by (simp add: cs_def)
qed

lemma user_read_keyboard:
  fixes k :: "'a proc_scheme"
  assumes "user_inv img k" "0 \<le> n" "n \<le> 2050" "ubuf a (nat n)" "uready (kview k)" "0 \<in> set (take (nat n) (urow (kview k)))"
  shows "\<exists>k'. read_file dev 0 a n k = Some (k', snd (u_read img 0 a n (kview k))) \<and> user_inv img k' \<and> quiet k k' \<and>
    kview k' = fst (u_read img 0 a n (kview k))"
proof -
  let ?P = "pcbs k (get_current_pcb k)" and ?t = "active_terminal k"
  obtain names where U: "pcb_fds_ok k ?P" "0 \<le> current_dir_read_index k" "user_map k" using user_invD [OF assms(1)] by metis
  define r where "r = print_row k ?t"
  define vs where "vs = take (nat n) (urow (kview k))"
  define cs where "cs = takeWhile (\<lambda>c. c \<noteq> 0) (urow (kview k))"
  have row: "urow (kview k) = load_list ldb k r 2050" by (simp add: kview_def r_def)
  have len: "length vs = nat n" using assms(2,3) by (simp add: vs_def row)
  have R: "in_kernel r (nat n)"
    using user_rows_in_kernel(1) [OF assms(1)] assms(3) by (simp add: r_def in_kernel_def; linarith)
  have u: "unat (word_of_int n :: u32) = nat n" using assms(2,3) by (simp add: unsigned_of_int take_bit_int_eq_self)
  have sn: "sint (word_of_int n :: u32) = n"
    using sint_of_nat_len [of "nat n"] assms(2,3) by simp
  have "load_list ldb k r (nat n) = vs"
    using assms(3) by (intro nth_equalityI) (simp_all add: len, simp add: vs_def row)
  then have mc: "memcpy (k\<lparr>iflag := True\<rparr>) a r (word_of_int n) = (store_bytes k a vs)\<lparr>iflag := True\<rparr>"
    using memcpy_store_bytes [of "k\<lparr>iflag := True\<rparr>" a "word_of_int n" r] user_apart_kernel(1) [OF U(3) assms(4) R] u
    by (simp add: load_list_def ldb_def store_bytes_def)
  have ub: "ubuf a (length vs)" using assms(4) len by simp
  note S = user_store [OF assms(1) ub]
  let ?k = "store_bytes k a vs"
  have P1: "pcb_fds_ok ?k (pcbs ?k (get_current_pcb ?k))" "0 \<le> current_dir_read_index ?k" using user_invD [OF S(1)] by metis+
  define k1 where "k1 = ?k\<lparr>iflag := True, io := io ?k, current_dir_read_index := current_dir_read_index ?k,
      next_interrupt := next_interrupt ?k, terminal_read_ready := (terminal_read_ready ?k)(?t := 0),
      pcbs := (pcbs ?k)(get_current_pcb ?k := pcbs ?k (get_current_pcb ?k))\<rparr>"
  note V = user_vars [OF S(1) refl P1 k1_def]
  have v1: "kview k1 = (set_mem a vs (kview k))\<lparr>uready := False\<rparr>"
    unfolding V(3) by (intro uview.equality) (simp_all add: S(2) [symmetric], simp_all add: kview_def cong: if_cong)
  have "\<exists>i<nat n. vs ! i = 0" using assms(6) len by (simp add: vs_def in_set_conv_nth) metis
  have cs_len: "length cs < nat n" and cs_end: "vs ! length cs = 0" and cs_in: "\<And>i. i < length cs \<Longrightarrow> vs ! i = cs ! i"
    using first_zero [OF assms(6)] len by (simp_all add: cs_def vs_def)
  have "cstring (ldb k1) a cs"
  proof -
    have "ldb k1 (a + of_nat i) = vs ! i" if "i < nat n" for i
      using ldb_store_bytes [of k a vs i] user_block [OF U(3) ub] that len by (simp add: k1_def ldb_def)
    then show ?thesis
      using cs_len cs_end cs_in assms(3) set_takeWhileD [of 0 "\<lambda>c. c \<noteq> 0"] by (auto simp: cstring_def cs_def)
  qed
  then have "strlen k1 a = Some (of_nat (length cs))" by (rule strlen_cstring)
  moreover have "sint (of_nat (length cs) :: u32) = int (length cs)" using cs_len assms(3) by (intro sint_of_nat_len) simp
  moreover have "k1 = ?k\<lparr>iflag := True, terminal_read_ready := (terminal_read_ready k)(?t := 0)\<rparr>"
    unfolding k1_def by (rule proc.equality) simp_all
  ultimately have "terminal_read a n k = Some (k1, int (length cs))"
    using mc assms(5) unfolding terminal_read_def get_active_terminal_def
    by (simp add: Let_def kview_def sti_def r_def print_row_def)
  then have "call_op dev Op_terminal_read x y a (word_of_int n) k = Some (k1, int (length cs))" for x y
    by (simp add: call_op_def terminal_read_wrapper_def sn)
  then have "read_file dev 0 a n k = Some (upd_pcb (get_current_pcb k)
    (upd_fd (nat 0) (\<lambda>d. d\<lparr>file_position := file_position d + word_of_int (int (length cs))\<rparr>)) k1, int (length cs))"
    using read_file_op [of 0 k _ dev a n k1 "int (length cs)"] U(1) by (simp add: pcb_fds_ok_def streams_ok_def)
  moreover have "get_current_pcb k1 = get_current_pcb k" using quietD(9) [OF V(2)] by simp
  moreover have f0: "ufds (kview k) 0 = Fd_keyboard" using U(1) by (simp add: view_fd abs_fd_def pcb_fds_ok_def streams_ok_def)
  ultimately show ?thesis
    using user_read_position [OF V(1), of 0 "word_of_int (int (length cs))"] quiet_trans [OF S(3) quiet_trans [OF V(2)]]
    by (simp add: v1 u_read_def cs_def vs_def)
qed

text \<open>All kinds of descriptors together.\<close>

lemma user_read:
  fixes k :: "'a proc_scheme"
  assumes "user_inv img k" "read_ok fd a n (kview k)"
  shows "\<exists>k'. read_file dev fd a n k = Some (k', snd (u_read img fd a n (kview k))) \<and> user_inv img k' \<and> quiet k k' \<and>
    kview k' = fst (u_read img fd a n (kview k))"
proof (cases "0 \<le> fd \<and> fd < 8 \<and> fd \<noteq> 1")
  case False
  then show ?thesis using assms(1) by (auto simp: read_file_def u_read_def FDT_SIZE_def)
next
  case fd: True
  let ?P = "pcbs k (get_current_pcb k)"
  obtain names where U: "pcb_fds_ok k ?P" using user_invD [OF assms(1)] by metis
  have i: "nat fd < 8" using fd by linarith
  note K = abs_fd_kinds [OF U(1) i view_fd [OF i, symmetric]]
  have ok: "case ufds (kview k) (nat fd) of
        Fd_regular c p \<Rightarrow> 0 \<le> n \<and> ubuf a (nat n)
      | Fd_directory \<Rightarrow> ubuf a 33
      | Fd_keyboard \<Rightarrow> 0 \<le> n \<and> n \<le> 2050 \<and> ubuf a (nat n) \<and> uready (kview k) \<and> 0 \<in> set (take (nat n) (urow (kview k)))
      | Fd_clock \<Rightarrow> utick (kview k)
      | _ \<Rightarrow> True"
    using assms(2) fd by (simp add: read_ok_def)
  show ?thesis
  proof (cases "ufds (kview k) (nat fd)")
    case Fd_closed
    then have "flags (file_array ?P (nat fd)) = 0" using view_fd [OF i, of k] by (simp add: abs_fd_closed_iff)
    then show ?thesis using assms(1) fd Fd_closed by (simp add: read_file_def u_read_def FDT_SIZE_def Let_def)
  next
    case Fd_screen
    then have "nat fd = 1" by (rule K(2))
    with fd have False by linarith
    then show ?thesis ..
  next
    case Fd_keyboard
    then have "nat fd = 0" by (rule K(1))
    then have "fd = 0" using fd by simp
    then show ?thesis using user_read_keyboard [OF assms(1)] ok Fd_keyboard by simp
  next
    case Fd_clock
    then have "2 \<le> fd" using K(4) by linarith
    then show ?thesis using user_read_clock [OF assms(1)] ok Fd_clock fd by simp
  next
    case Fd_directory
    then have "2 \<le> fd" using K(5) by linarith
    then show ?thesis using user_read_directory [OF assms(1)] ok Fd_directory fd by simp
  next
    case (Fd_regular c p)
    then have "2 \<le> fd" using K(6) by fastforce
    then show ?thesis using user_read_regular [OF assms(1)] ok Fd_regular fd by simp
  qed
qed

section \<open>Writing\<close>

lemma rtc_write_answer:
  fixes k :: "'a rtc_scheme"
  assumes "\<And>i. i < 4 \<Longrightarrow> a \<noteq> 0 \<Longrightarrow> m (a + of_nat i) = ldb k (a + of_nat i)"
  shows "\<exists>h. rtc_write dev a 4 k = (k\<lparr>iflag := True, io := h\<rparr>, clock_answer m a)"
proof -
  have "\<exists>h. sti (set_freq dev f (cli k)) = k\<lparr>iflag := True, io := h\<rparr>" for f
    by (simp add: set_freq_def Let_def outb_def inb_def sti_def cli_def)
      (metis (no_types, lifting) machine.surjective machine.update_convs(3,4))
  moreover have "\<exists>h. sti (cli k) = k\<lparr>iflag := True, io := h\<rparr>"
    by (intro exI [of _ "io k"]) (simp add: sti_def cli_def)
  moreover have "ldw (cli k) a = word_of_bytes (m a) (m (a + 1)) (m (a + 2)) (m (a + 3))" if "a \<noteq> 0"
    using assms [of 0] assms [of 1] assms [of 2] assms [of 3] that by (simp add: ldw_ldb ldb_def cli_def)
  ultimately show ?thesis
    unfolding rtc_write_def clock_answer_def Let_def by (cases "a = 0") (auto simp: MAX_FREQ_def)
qed

lemma user_write:
  fixes k :: "'a proc_scheme"
  assumes "user_inv img k" "write_ok fd a n (kview k)"
  shows "\<exists>k'. write_file dev fd a n k = Some (k', snd (u_write fd a n (kview k))) \<and> user_inv img k' \<and> quiet k k' \<and>
    kview k' = fst (u_write fd a n (kview k))"
proof (cases "0 \<le> fd \<and> fd < 8 \<and> fd \<noteq> 0")
  case False
  then show ?thesis using assms(1) by (auto simp: write_file_def u_write_def FDT_SIZE_def)
next
  case fd: True
  let ?P = "pcbs k (get_current_pcb k)"
  obtain names where U: "pcb_fds_ok k ?P" "0 \<le> current_dir_read_index k" using user_invD [OF assms(1)] by metis
  have i: "nat fd < 8" using fd by linarith
  note K = abs_fd_kinds [OF U(1) i view_fd [OF i, symmetric]]
  have ok: "case ufds (kview k) (nat fd) of Fd_screen \<Rightarrow> 0 \<le> n \<and> n < 2050 \<and> ubuf a (nat n)
      | Fd_clock \<Rightarrow> a = 0 \<or> ubuf a 4 | _ \<Rightarrow> True" using assms(2) fd by (simp add: write_ok_def)
  show ?thesis
  proof (cases "ufds (kview k) (nat fd)")
    case Fd_closed
    then have "flags (file_array ?P (nat fd)) = 0" using view_fd [OF i, of k] by (simp add: abs_fd_closed_iff)
    then show ?thesis using assms(1) fd Fd_closed by (simp add: write_file_def u_write_def FDT_SIZE_def Let_def)
  next
    case Fd_keyboard
    then have "nat fd = 0" by (rule K(1))
    with fd have False by linarith
    then show ?thesis ..
  next
    case Fd_screen
    then have "nat fd = 1" by (rule K(2))
    then have "fd = 1" using fd by simp
    moreover have "sint (word_of_int n :: u32) = n"
      using sint_of_nat_len [of "nat n"] ok Fd_screen by (simp add: nat_less_iff)
    moreover obtain k' where "terminal_write a n k = Some (k', n)" "user_inv img k'" "quiet k k'"
      "kview k' = (kview k)\<lparr>uout := fold aterm_putc (mbytes (umem (kview k)) a (nat n)) (uout (kview k)),
        urow := mbytes (umem (kview k)) a (nat n) @ [0] @ drop (nat n + 1) (urow (kview k))\<rparr>"
      using user_terminal_write [OF assms(1), of "nat n" a] ok Fd_screen by (auto simp: nat_less_iff)
    ultimately show ?thesis
      using U(1) ok Fd_screen
      by (simp add: write_file_def u_write_def FDT_SIZE_def Let_def pcb_fds_ok_def streams_ok_def call_op_def
          terminal_write_wrapper_def)
  next
    case Fd_clock
    have "ubuf a 4 \<longrightarrow> umem (kview k) (a + of_nat j) = ldb k (a + of_nat j)" if "j < 4" for j
      using ubuf_off(2) [of a 4 j] that by (simp add: kview_def)
    then obtain h where h: "rtc_write dev a 4 k = (k\<lparr>iflag := True, io := h\<rparr>, clock_answer (umem (kview k)) a)"
      using rtc_write_answer [of a "umem (kview k)" k dev] ok Fd_clock by auto
    define k1 where "k1 = k\<lparr>iflag := True, io := h, current_dir_read_index := current_dir_read_index k,
      next_interrupt := next_interrupt k, terminal_read_ready := terminal_read_ready k, pcbs := (pcbs k)(get_current_pcb k := ?P)\<rparr>"
    note V = user_vars [OF assms(1) refl U(1,2) k1_def]
    have "kview k1 = kview k" unfolding V(3) by (simp add: kview_def)
    moreover have "k1 = k\<lparr>iflag := True, io := h\<rparr>" by (simp add: k1_def)
    ultimately show ?thesis
      using V(1,2) h K(3,4) Fd_clock fd
      by (simp add: write_file_def u_write_def FDT_SIZE_def Let_def call_op_def rtc_write_wrapper_def)
  next
    case Fd_directory
    then show ?thesis
      using assms(1) K(3,5) fd by (simp add: write_file_def u_write_def FDT_SIZE_def Let_def call_op_def dir_write_wrapper_def dir_write_def)
  next
    case (Fd_regular c p)
    then show ?thesis
      using assms(1) K(3,6) fd by (simp add: write_file_def u_write_def FDT_SIZE_def Let_def call_op_def filesys_write_wrapper_def
          filesys_write_def)
  qed
qed

section \<open>Opening\<close>

lemma first_closed_free:
  "first_closed (\<lambda>i. if i < 8 then abs_fd k (file_array p i) else Fd_closed) = free_fd_from p 0"
proof -
  have "free_fd_from p j = (case find (\<lambda>i. flags (file_array p i) = 0) [j..<8] of Some i \<Rightarrow> i | None \<Rightarrow> 8)" if "j \<le> 8" for j
    using that
  proof (induction p j rule: free_fd_from.induct)
    case (1 p j)
    then show ?case by (cases "j < 8") (subst free_fd_from.simps, auto simp: FDT_SIZE_def upt_conv_Cons)+
  qed
  moreover have "find (\<lambda>i. (if i < 8 then abs_fd k (file_array p i) else Fd_closed) = Fd_closed) [0..<8] =
      find (\<lambda>i. flags (file_array p i) = 0) [0..<8]"
    by (rule find_cong) (auto simp: abs_fd_closed_iff)
  ultimately show ?thesis by (simp add: first_closed_def)
qed

lemma find_map: "find P (map f xs) = map_option f (find (P \<circ> f) xs)"
  by (induction xs) auto

lemma find_image:
  assumes "entry_names k names"
  shows "find (\<lambda>e. uf_name e = take 32 cs) (image_of k) =
    map_option (\<lambda>i. image_of k ! i) (find (\<lambda>i. take 32 (names i) = take 32 cs) [0..<nat (num_dir_entry k)])"
proof -
  have "image_of k = map (\<lambda>i. image_of k ! i) [0..<nat (num_dir_entry k)]"
    by (rule nth_equalityI) (simp_all add: image_of_def)
  then have "find (\<lambda>e. uf_name e = take 32 cs) (image_of k) =
      map_option (\<lambda>i. image_of k ! i) (find ((\<lambda>e. uf_name e = take 32 cs) \<circ> (\<lambda>i. image_of k ! i)) [0..<nat (num_dir_entry k)])"
    by (metis find_map)
  also have "find ((\<lambda>e. uf_name e = take 32 cs) \<circ> (\<lambda>i. image_of k ! i)) [0..<nat (num_dir_entry k)] =
      find (\<lambda>i. take 32 (names i) = take 32 cs) [0..<nat (num_dir_entry k)]"
    by (rule find_cong) (simp_all add: uf_name_takeWhile(1) [OF assms])
  finally show ?thesis .
qed

lemma name_at_cstring:
  assumes "cstring m a cs"
  shows "name_at m a = take 32 cs"
  using takeWhile_load [of "\<lambda>m. m" m a cs 32] assms by (simp add: name_at_def)

lemma opened_fd:
  assumes "uf_type (image_of k ! j) \<in> {0, 1, 2}" "j < nat (num_dir_entry k)"
  shows "abs_fd k (opened (copy_dentry k (of_nat j)) d) = fd_for (image_of k ! j)"
  using assms by (auto simp: opened_def abs_fd_def fd_for_def image_of_def Let_def)

lemma open_file_eq:
  fixes k :: "'a proc_scheme"
  assumes "read_dentry_by_name k a = Some (Some e)" "i = free_fd_from (pcbs k (get_current_pcb k)) 0" "i \<noteq> 8"
    "fileType e \<in> {0, 1, 2}"
  shows "open_file a k = Some (k\<lparr>current_dir_read_index := (if fileType e = 1 then 0 else current_dir_read_index k),
    pcbs := (pcbs k)(get_current_pcb k := upd_fd i (opened e) ((pcbs k (get_current_pcb k))
      \<lparr>available := (available (pcbs k (get_current_pcb k)))(i := 1)\<rparr>))\<rparr>, int i)"
proof -
  consider "fileType e = 0" | "fileType e = 1" | "fileType e = 2" using assms(4) by auto
  then show ?thesis
    using assms(1,3) unfolding open_file_def
    by cases (simp_all add: assms(2) [symmetric] Let_def FDT_SIZE_def RTC_TYPE_def DIR_TYPE_def REG_TYPE_def filesys_open_def
        upd_pcb_def upd_fd_def opened_def)
qed

lemma user_open:
  fixes k :: "'a proc_scheme"
  assumes "user_inv img k" "string_ok (umem (kview k)) a"
  shows "\<exists>k'. open_file a k = Some (k', snd (u_open img a (kview k))) \<and> user_inv img k' \<and> quiet k k' \<and>
    kview k' = fst (u_open img a (kview k))"
proof -
  let ?P = "pcbs k (get_current_pcb k)"
  obtain names where U: "pcb_fds_ok k ?P" "0 \<le> current_dir_read_index k" "entry_names k names" "image_ok k names" "image_of k = img"
    using user_invD [OF assms(1)] by metis
  obtain cs where cs: "cstring (umem (kview k)) a cs" "ubuf a (length cs + 1)" using assms(2) by (auto simp: string_ok_def)
  have "cstring (ldb k) a cs"
    using cs(1) ubuf_off(2) [OF cs(2)] by (subst cstring_cong [of cs _ a "umem (kview k)"]) (auto simp: kview_def)
  moreover have "length cs < 2 ^ 31" using cs(2) by (simp add: ubuf_def)
  ultimately have look: "read_dentry_by_name k a = Some (map_option (\<lambda>i. copy_dentry k (of_nat i))
      (find (\<lambda>i. take 32 (names i) = take 32 cs) [0..<nat (num_dir_entry k)]))"
    by (rule read_dentry_by_name_eq [OF U(3)])
  have fi: "find (\<lambda>e. uf_name e = name_at (umem (kview k)) a) img =
      map_option (\<lambda>i. img ! i) (find (\<lambda>i. take 32 (names i) = take 32 cs) [0..<nat (num_dir_entry k)])"
    using find_image [OF U(3), of cs] by (simp add: name_at_cstring [OF cs(1)] U(5))
  define i where "i = free_fd_from ?P 0"
  have fc: "first_closed (ufds (kview k)) = i" using first_closed_free [of k ?P] by (simp add: kview_def i_def)
  show ?thesis
  proof (cases "find (\<lambda>i. take 32 (names i) = take 32 cs) [0..<nat (num_dir_entry k)]")
    case None
    then show ?thesis using look fi assms(1) by (simp add: open_file_def u_open_def)
  next
    case (Some j)
    then have j: "j < nat (num_dir_entry k)" by (auto simp: find_Some_iff)
    show ?thesis
    proof (cases "i = 8")
      case True
      then show ?thesis using look fi fc assms(1) Some by (simp add: open_file_def u_open_def FDT_SIZE_def i_def)
    next
      case False
      define e where "e = copy_dentry k (of_nat j)"
      have i: "2 \<le> i" "i < 8"
        using free_fd_streams [of ?P] free_fd_from_spec [of 0 ?P] U(1) False by (auto simp: i_def pcb_fds_ok_def)
      have ty: "fileType e \<in> {0, 1, 2}" "unat (inode e) < nat (num_inodes k)" using U(4) j by (auto simp: image_ok_def e_def)
      have uty: "uf_type (img ! j) = fileType e" using j by (simp add: U(5) [symmetric] image_of_def e_def Let_def)
      define q where "q = upd_fd i (opened e) (?P\<lparr>available := (available ?P)(i := 1)\<rparr>)"
      have q: "core q = core ?P" by (simp add: q_def core_def upd_fd_def)
      have qo: "pcb_fds_ok k q"
        using U(1) i ty by (auto simp: pcb_fds_ok_def streams_ok_def q_def opened_def Let_def fd_ok_def fd_pairs_def)
      define k1 where "k1 = k\<lparr>iflag := iflag k, io := io k,
          current_dir_read_index := (if fileType e = 1 then 0 else current_dir_read_index k),
          next_interrupt := next_interrupt k, terminal_read_ready := terminal_read_ready k,
          pcbs := (pcbs k)(get_current_pcb k := q)\<rparr>"
      have dir: "0 \<le> (if fileType e = 1 then 0 else current_dir_read_index k)" using U(2) by simp
      note V = user_vars [OF assms(1) q qo dir k1_def]
      have fa: "file_array q = (file_array ?P)(i := opened e (file_array ?P i))" by (simp add: q_def)
      have "open_file a k = Some (k1, int i)"
        using open_file_eq [OF _ i_def False ty(1)] look Some by (simp add: e_def k1_def q_def)
      moreover have "kview k1 = (set_fd i (fd_for (img ! j)) (kview k))\<lparr>udir := (if fileType e = 1 then 0 else udir (kview k))\<rparr>"
        unfolding V(3) fa
        using opened_fd [of k j "file_array ?P i"] j uty ty(1) i(2) U(5)
        by (intro uview.equality) (auto simp: kview_def set_fd_def e_def fun_eq_iff)
      ultimately show ?thesis
        using V(1,2) fi fc Some False uty by (simp add: u_open_def)
    qed
  qed
qed

section \<open>The refinement\<close>

lemma syscall_numbers:
  assumes "0 < sint (w :: u32)" "sint w \<le> 8"
  shows "w \<in> {1, 2, 3, 4, 5, 6, 7, 8}"
proof -
  have "w = word_of_int (sint w)" by simp
  moreover have "sint w \<in> {1..8}" using assms by simp
  then have "sint w \<in> {1, 2, 3, 4, 5, 6, 7, 8}" by (auto simp: simp_from_to)
  ultimately show ?thesis by (metis (no_types, opaque_lifting) insert_iff empty_iff word_of_int_1 word_of_int_numeral)
qed

lemma system_call_refines:
  fixes k :: "'a proc_scheme"
  assumes "user_inv img k" "call_ok eax ebx ecx edx (kview k)"
  shows "\<exists>k'. system_call dev eax ebx ecx edx k = Some (Ret k' (snd (u_call img eax ebx ecx edx (kview k)))) \<and>
    user_inv img k' \<and> kview k' = fst (u_call img eax ebx ecx edx (kview k)) \<and> quiet k k'"
proof -
  consider "sint eax > 8 \<or> sint eax \<le> 0" | "eax = 3" | "eax = 4" | "eax = 5" | "eax = 6" | "eax = 7" | "eax = 8"
    using syscall_numbers [of eax] assms(2) unfolding call_ok_def insert_iff empty_iff by (metis linorder_not_le)
  then show ?thesis
  proof cases
    case 1
    then have "eax \<notin> {3, 4, 5, 6, 7, 8}" by auto
    then show ?thesis using 1 assms(1) by (simp add: system_call_def u_call_def)
  qed (use user_read [OF assms(1), of "sint ebx" ecx "sint edx" dev] user_write [OF assms(1), of "sint ebx" ecx "sint edx" dev]
      user_open [OF assms(1), of ebx] user_close [OF assms(1), of "sint ebx"] user_getargs [OF assms(1), of ebx "sint ecx"]
      user_vidmap [OF assms(1), of ebx] assms(2) in \<open>auto simp: system_call_def u_call_def call_ok_def ret_def\<close>)
qed

section \<open>The kernel as the system of a program\<close>

text \<open>
  Loads and stores of the program go through its page, and \<^verbatim>\<open>int 0x80\<close> enters the kernel. A call that
  does not come back to the program, or that waits for a device, has no result here.
\<close>

definition trap :: "device \<Rightarrow> u32 \<Rightarrow> u32 \<Rightarrow> u32 \<Rightarrow> u32 \<Rightarrow> 'a proc_scheme \<Rightarrow> ('a proc_scheme \<times> int) option" where
  "trap dev eax ebx ecx edx k =
     (case system_call dev eax ebx ecx edx k of Some (Ret k' r) \<Rightarrow> Some (k', r) | _ \<Rightarrow> None)"

definition kernel_os :: "device \<Rightarrow> ('a proc_scheme) os" where
  "kernel_os dev = \<lparr>os_load = ldb, os_store = stb, os_call = trap dev\<rparr>"

lemma kview_ok:
  fixes k :: "'a proc_scheme"
  assumes "user_inv img k"
  shows "view_ok img (kview k)"
proof -
  let ?P = "pcbs k (get_current_pcb k)"
  obtain names where U: "pcb_fds_ok k ?P" "kbd_inv k" "active_terminal k \<in> {0, 1, 2}" "image_ok k names" "image_of k = img"
    using user_invD [OF assms] by metis
  have s: "ufds (kview k) 0 = Fd_keyboard" "ufds (kview k) 1 = Fd_screen"
    using U(1) by (simp_all add: view_fd abs_fd_def pcb_fds_ok_def streams_ok_def)
  have f: "ufds (kview k) i \<noteq> Fd_keyboard \<and> ufds (kview k) i \<noteq> Fd_screen \<and> (ufds (kview k) i = Fd_regular c p \<longrightarrow> p \<le> length c)"
    if "2 \<le> i" "i < 8" for i c p
  proof -
    note K = abs_fd_kinds(1,2,6) [OF U(1) that(2) view_fd [OF that(2), symmetric]]
    have "p \<le> length c" if "ufds (kview k) i = Fd_regular c p" using K(3) [OF that] by simp
    then show ?thesis using K(1,2) that(1) by auto
  qed
  have e: "length (uf_raw e) = 32 \<and> uf_type e \<in> {0, 1, 2} \<and> length (uf_data e) < 2 ^ 22" if "e \<in> set img" for e
  proof -
    obtain i where "i < length (image_of k)" "e = image_of k ! i"
      using \<open>e \<in> set img\<close> unfolding U(5) [symmetric] by (metis in_set_conv_nth)
    then have i: "i < nat (num_dir_entry k)" "e = image_of k ! i" by (simp_all add: image_of_def)
    define d where "d = copy_dentry k (of_nat i)"
    have "unat (inode d) < nat (num_inodes k)" "fileType d \<in> {0, 1, 2}" using U(4) i(1) by (simp_all add: image_ok_def d_def)
    moreover from this have "unat (inode_length k (inode d)) \<le> 0x3B8000" using U(4) by (simp add: image_ok_def)
    moreover have "length (fileName d) = 32" by (simp add: d_def copy_dentry_def fileNameLength_def)
    ultimately show ?thesis using i by (simp add: image_of_def Let_def flip: d_def)
  qed
  show ?thesis
    unfolding view_ok_def
  proof (intro conjI)
    show "\<forall>i c p. 2 \<le> i \<and> i < 8 \<longrightarrow> ufds (kview k) i \<noteq> Fd_keyboard \<and> ufds (kview k) i \<noteq> Fd_screen \<and>
        (ufds (kview k) i = Fd_regular c p \<longrightarrow> p \<le> length c)" using f by blast
    show "\<forall>e\<in>set img. length (uf_raw e) = 32 \<and> uf_type e \<in> {0, 1, 2} \<and> length (uf_data e) < 2 ^ 22" using e by blast
  qed (use s kbd_invD(1) [OF U(2,3)] in \<open>simp_all add: kview_def\<close>)
qed

interpretation kos: user_os "kernel_os dev" "user_inv img" kview img
  for dev :: device and img
proof
  fix w :: "'a proc_scheme" and a c
  assume w: "user_inv img w"
  show "view_ok img (kview w)" by (rule kview_ok [OF w])
  show "os_load (kernel_os dev) w a = umem (kview w) a" if "ubuf a 1"
    using that by (simp add: kernel_os_def kview_def)
  show "user_inv img (os_store (kernel_os dev) w a c) \<and>
      kview (os_store (kernel_os dev) w a c) = (kview w)\<lparr>umem := (umem (kview w))(a := c)\<rparr>" if "ubuf a 1"
    using user_store [OF w, of a "[c]"] that by (simp add: kernel_os_def stb_eq_store_bytes set_mem_def)
next
  fix w :: "'a proc_scheme" and eax ebx ecx edx
  assume "user_inv img w" "call_ok eax ebx ecx edx (kview w)"
  from system_call_refines [OF this, of dev]
  show "\<exists>w'. os_call (kernel_os dev) eax ebx ecx edx w = Some (w', snd (u_call img eax ebx ecx edx (kview w))) \<and>
      user_inv img w' \<and> kview w' = fst (u_call img eax ebx ecx edx (kview w))"
    by (auto simp: kernel_os_def trap_def)
qed

end
