(* ===== verification/UserLib.thy ===== *)
theory UserLib
  imports SysCalls
begin

text \<open>
  The support library of the user programs, \<^verbatim>\<open>syscalls/ece391support.c\<close>, and the system call stubs of
  \<^verbatim>\<open>syscalls/ece391syscall.S\<close>, over the operations \<open>os\<close> that a program has; what they do is proved once
  from the contract \<open>user_os\<close>.
\<close>

section \<open>The system call stubs\<close>

definition ece391_execute :: "'w os \<Rightarrow> u32 \<Rightarrow> 'w \<Rightarrow> ('w \<times> int) option" where
  "ece391_execute os command w = os_call os 2 command 0 0 w"

definition ece391_read :: "'w os \<Rightarrow> int \<Rightarrow> u32 \<Rightarrow> int \<Rightarrow> 'w \<Rightarrow> ('w \<times> int) option" where
  "ece391_read os fd buf nbytes w = os_call os 3 (word_of_int fd) buf (word_of_int nbytes) w"

definition ece391_write :: "'w os \<Rightarrow> int \<Rightarrow> u32 \<Rightarrow> int \<Rightarrow> 'w \<Rightarrow> ('w \<times> int) option" where
  "ece391_write os fd buf nbytes w = os_call os 4 (word_of_int fd) buf (word_of_int nbytes) w"

definition ece391_open :: "'w os \<Rightarrow> u32 \<Rightarrow> 'w \<Rightarrow> ('w \<times> int) option" where
  "ece391_open os filename w = os_call os 5 filename 0 0 w"

definition ece391_close :: "'w os \<Rightarrow> int \<Rightarrow> 'w \<Rightarrow> ('w \<times> int) option" where
  "ece391_close os fd w = os_call os 6 (word_of_int fd) 0 0 w"

definition ece391_getargs :: "'w os \<Rightarrow> u32 \<Rightarrow> int \<Rightarrow> 'w \<Rightarrow> ('w \<times> int) option" where
  "ece391_getargs os buf nbytes w = os_call os 7 buf (word_of_int nbytes) 0 w"

definition ece391_vidmap :: "'w os \<Rightarrow> u32 \<Rightarrow> 'w \<Rightarrow> ('w \<times> int) option" where
  "ece391_vidmap os screen_start w = os_call os 8 screen_start 0 0 w"

definition ece391_set_handler :: "'w os \<Rightarrow> int \<Rightarrow> u32 \<Rightarrow> 'w \<Rightarrow> ('w \<times> int) option" where
  "ece391_set_handler os signum handler w = os_call os 9 (word_of_int signum) handler 0 w"

section \<open>The support library\<close>

partial_function (option) strlen_loop :: "(u32 \<Rightarrow> u8) \<Rightarrow> u32 \<Rightarrow> u32 \<Rightarrow> u32 option" where
  "strlen_loop f s len = (if f s \<noteq> 0 then strlen_loop f (s + 1) (len + 1) else Some len)"

definition ece391_strlen :: "'w os \<Rightarrow> 'w \<Rightarrow> u32 \<Rightarrow> u32 option" where
  "ece391_strlen os w s = strlen_loop (os_load os w) s 0"

partial_function (option) ece391_strcpy :: "'w os \<Rightarrow> u32 \<Rightarrow> u32 \<Rightarrow> 'w \<Rightarrow> 'w option" where
  "ece391_strcpy os dst src w =
     (let c = os_load os w src; w = os_store os w dst c
      in if c \<noteq> 0 then ece391_strcpy os (dst + 1) (src + 1) w else Some w)"

definition ece391_fdputs :: "'w os \<Rightarrow> int \<Rightarrow> u32 \<Rightarrow> 'w \<Rightarrow> 'w option" where
  "ece391_fdputs os fd s w = do {
     len \<leftarrow> ece391_strlen os w s;
     (w, _) \<leftarrow> ece391_write os fd s (sint len) w;
     Some w
   }"

partial_function (option) strcmp_loop :: "(u32 \<Rightarrow> u8) \<Rightarrow> u32 \<Rightarrow> u32 \<Rightarrow> int option" where
  "strcmp_loop f s1 s2 =
     (if f s1 = f s2 then if f s1 = 0 then Some 0 else strcmp_loop f (s1 + 1) (s2 + 1)
      else Some (uint (f s1) - uint (f s2)))"

definition ece391_strcmp :: "'w os \<Rightarrow> 'w \<Rightarrow> u32 \<Rightarrow> u32 \<Rightarrow> int option" where
  "ece391_strcmp os w s1 s2 = strcmp_loop (os_load os w) s1 s2"

function strncmp_loop :: "(u32 \<Rightarrow> u8) \<Rightarrow> u32 \<Rightarrow> u32 \<Rightarrow> u32 \<Rightarrow> int" where
  "strncmp_loop f s1 s2 n =
     (if f s1 = f s2
      then if f s1 = 0 \<or> n - 1 = 0 then 0 else strncmp_loop f (s1 + 1) (s2 + 1) (n - 1)
      else uint (f s1) - uint (f s2))"
  by pat_completeness auto
termination
proof (relation "measure (\<lambda>(f, s1, s2, n). unat (n - 1))", simp)
  fix f :: "u32 \<Rightarrow> u8" and s1 s2 n :: u32
  assume "\<not> (f s1 = 0 \<or> n - 1 = 0)"
  then have "unat (n - 1 - 1) < unat (n - 1)" using unat_pos_u32 unat_minus_one_u32 by fastforce
  then show "((f, s1 + 1, s2 + 1, n - 1), f, s1, s2, n) \<in> measure (\<lambda>(f, s1, s2, n). unat (n - 1))" by simp
qed

declare strncmp_loop.simps [simp del]

definition ece391_strncmp :: "'w os \<Rightarrow> 'w \<Rightarrow> u32 \<Rightarrow> u32 \<Rightarrow> u32 \<Rightarrow> int" where
  "ece391_strncmp os w s1 s2 n = (if 0 = n then 0 else strncmp_loop (os_load os w) s1 s2 n)"

function swap_loop :: "'w os \<Rightarrow> u32 \<Rightarrow> int \<Rightarrow> int \<Rightarrow> 'w \<Rightarrow> 'w" where
  "swap_loop os s beg end' w =
     (if beg < end'
      then let tmp = os_load os w (s + word_of_int end');
               w = os_store os w (s + word_of_int end') (os_load os w (s + word_of_int beg));
               w = os_store os w (s + word_of_int beg) tmp
           in swap_loop os s (beg + 1) (end' - 1) w
      else w)"
  by pat_completeness auto
termination
  by (relation "measure (\<lambda>(os, s, beg, end', w). nat (end' - beg))") auto

declare swap_loop.simps [simp del]

definition ece391_strrev :: "'w os \<Rightarrow> u32 \<Rightarrow> 'w \<Rightarrow> 'w option" where
  "ece391_strrev os s w = do {
     len \<leftarrow> ece391_strlen os w s;
     let end' = sint (len - 1);
     Some (if end' \<le> 0 then w else swap_loop os s 0 end' w)
   }"

partial_function (option) digit_loop :: "'w os \<Rightarrow> u32 \<Rightarrow> u32 \<Rightarrow> u32 \<Rightarrow> 'w \<Rightarrow> 'w option" where
  "digit_loop os newbuf newval radix w =
     (if 0 < newval
      then if radix = 0 then None
           else digit_loop os (newbuf + 1) (newval div radix) radix
                  (os_store os w newbuf (lookup ! unat (newval mod radix)))
      else Some (os_store os w newbuf 0))"

definition ece391_itoa :: "'w os \<Rightarrow> u32 \<Rightarrow> u32 \<Rightarrow> int \<Rightarrow> 'w \<Rightarrow> 'w option" where
  "ece391_itoa os value buf radix w =
     (if value = 0 then Some (os_store os (os_store os w buf (ch CHR ''0'')) (buf + 1) 0)
      else do {
        w \<leftarrow> digit_loop os buf value (word_of_int radix) w;
        ece391_strrev os buf w
      })"

section \<open>Strings in the memory of a program\<close>

lemma sint_of_int_u32: "0 \<le> n \<Longrightarrow> n < 2 ^ 31 \<Longrightarrow> sint (word_of_int n :: u32) = n"
  using sint_of_nat_len [of "nat n"] by (simp add: nat_less_iff)

text \<open>What \<^verbatim>\<open>fdputs\<close> does to the view.\<close>

definition u_puts :: "u8 list \<Rightarrow> uview \<Rightarrow> uview" where
  "u_puts cs v = v\<lparr>uout := fold aterm_putc cs (uout v), urow := cs @ [0] @ drop (length cs + 1) (urow v)\<rparr>"

lemma u_puts_sel [simp]:
  "umem (u_puts cs v) = umem v" "ufds (u_puts cs v) = ufds v" "udir (u_puts cs v) = udir v" "uargs (u_puts cs v) = uargs v"
  "uready (u_puts cs v) = uready v" "utick (u_puts cs v) = utick v" "uout (u_puts cs v) = fold aterm_putc cs (uout v)"
  by (simp_all add: u_puts_def)

lemma strlen_loop_cstring:
  assumes "cstring f s cs"
  shows "strlen_loop f s len = Some (len + of_nat (length cs))"
  using assms
proof (induction cs arbitrary: s len)
  case Nil
  then show ?case by (subst strlen_loop.simps) simp
next
  case (Cons c cs)
  from cstring_Cons [OF Cons.prems] have "f s \<noteq> 0" "cstring f (s + 1) cs" by simp_all
  then show ?case using Cons.IH by (subst strlen_loop.simps) (simp add: algebra_simps)
qed

lemma strcmp_loop_cstring:
  assumes "cstring f s1 cs" "cstring f s2 ds"
  shows "\<exists>r. strcmp_loop f s1 s2 = Some r \<and> (r = 0 \<longleftrightarrow> cs = ds)"
  using assms
proof (induction cs arbitrary: s1 s2 ds)
  case Nil
  then show ?case by (cases ds) (subst strcmp_loop.simps, auto dest: cstring_Cons simp: uint_0_iff)+
next
  case (Cons c cs)
  note c = cstring_Cons [OF Cons.prems(1)]
  show ?case
  proof (cases ds)
    case Nil
    then show ?thesis using c Cons.prems(2) by (subst strcmp_loop.simps) (simp add: uint_0_iff)
  next
    case d: (Cons d ds')
    note d' = cstring_Cons [OF Cons.prems(2) [unfolded d]]
    show ?thesis
    proof (cases "c = d")
      case True
      then show ?thesis using Cons.IH [OF c(3) d'(3)] c d' d by (subst strcmp_loop.simps) simp
    next
      case False
      then show ?thesis using c d' d by (subst strcmp_loop.simps) (simp add: word_uint_eq_iff)
    qed
  qed
qed

context user_os
begin

lemma load_eq: "inv w \<Longrightarrow> ubuf a n \<Longrightarrow> i < n \<Longrightarrow> os_load os w (a + of_nat i) = umem (view w) (a + of_nat i)"
  using load ubuf_off(2) by blast

lemma string_load:
  assumes "inv w" "cstring (umem (view w)) s cs" "ubuf s (length cs + 1)"
  shows "cstring (os_load os w) s cs"
  using assms(2) load_eq [OF assms(1,3)] by (subst cstring_cong [of cs _ s "umem (view w)"]) auto

lemma strlen_ok:
  assumes "inv w" "cstring (umem (view w)) s cs" "ubuf s (length cs + 1)"
  shows "ece391_strlen os w s = Some (of_nat (length cs))"
  using strlen_loop_cstring [OF string_load [OF assms], of 0] by (simp add: ece391_strlen_def)

lemma write_screen:
  assumes "inv w" "n < 2050" "ubuf a n"
  shows "\<exists>w'. ece391_write os 1 a (int n) w = Some (w', int n) \<and> inv w' \<and> view w' = u_puts (mbytes (umem (view w)) a n) (view w)"
proof -
  have s: "sint (word_of_int (int n) :: u32) = int n" using sint_of_nat_len [of n] assms(2) by simp
  have v: "ufds (view w) 1 = Fd_screen" using view [OF assms(1)] by (simp add: view_ok_def)
  have "call_ok 4 (word_of_int 1) a (word_of_int (int n)) (view w)"
    using assms(2,3) s v by (simp add: call_ok_def write_ok_def)
  moreover have "u_call img 4 (word_of_int 1) a (word_of_int (int n)) (view w) = (u_puts (mbytes (umem (view w)) a n) (view w), int n)"
    using s v by (simp add: u_call_def u_write_def u_puts_def Let_def)
  ultimately show ?thesis
    using call [OF assms(1), of 4 "word_of_int 1" a "word_of_int (int n)"] by (simp add: ece391_write_def)
qed

lemma fdputs_ok:
  assumes "inv w" "cstring (umem (view w)) s cs" "ubuf s (length cs + 1)" "length cs < 2050"
  shows "\<exists>w'. ece391_fdputs os 1 s w = Some w' \<and> inv w' \<and> view w' = u_puts cs (view w)"
proof -
  have "mbytes (umem (view w)) s (length cs) = cs"
    using cstringD(4) [OF assms(2)] by (intro nth_equalityI) simp_all
  moreover have "sint (of_nat (length cs) :: u32) = int (length cs)" using assms(4) by (intro sint_of_nat_len) simp
  moreover have "ubuf s (length cs)" using assms(3) by (simp add: ubuf_def)
  ultimately show ?thesis
    using write_screen [OF assms(1,4), of s] strlen_ok [OF assms(1-3)] by (auto simp: ece391_fdputs_def)
qed

lemma strcmp_ok:
  assumes "inv w" "cstring (umem (view w)) s cs" "ubuf s (length cs + 1)" "cstring (umem (view w)) t ds" "ubuf t (length ds + 1)"
  shows "\<exists>r. ece391_strcmp os w s t = Some r \<and> (r = 0 \<longleftrightarrow> cs = ds)"
  using strcmp_loop_cstring [OF string_load [OF assms(1-3)] string_load [OF assms(1,4,5)]] by (simp add: ece391_strcmp_def)

text \<open>The stubs, each with the effect of its call.\<close>

lemma stub:
  assumes "inv w" "call_ok eax ebx ecx edx (view w)" "u_call img eax ebx ecx edx (view w) = (v, r)"
  shows "\<exists>w'. os_call os eax ebx ecx edx w = Some (w', r) \<and> inv w' \<and> view w' = v"
  using call [OF assms(1,2)] assms(3) by simp

lemma read_stub:
  assumes "inv w" "read_ok fd a n (view w)" "sint (word_of_int fd :: u32) = fd" "sint (word_of_int n :: u32) = n"
    "u_read img fd a n (view w) = (v, r)"
  shows "\<exists>w'. ece391_read os fd a n w = Some (w', r) \<and> inv w' \<and> view w' = v"
  unfolding ece391_read_def using assms by (intro stub) (simp_all add: call_ok_def u_call_def)

lemma write_stub:
  assumes "inv w" "write_ok fd a n (view w)" "sint (word_of_int fd :: u32) = fd" "sint (word_of_int n :: u32) = n"
    "u_write fd a n (view w) = (v, r)"
  shows "\<exists>w'. ece391_write os fd a n w = Some (w', r) \<and> inv w' \<and> view w' = v"
  unfolding ece391_write_def using assms by (intro stub) (simp_all add: call_ok_def u_call_def)

lemma open_stub:
  assumes "inv w" "cstring (umem (view w)) a cs" "ubuf a (length cs + 1)" "u_open img a (view w) = (v, r)"
  shows "\<exists>w'. ece391_open os a w = Some (w', r) \<and> inv w' \<and> view w' = v"
  unfolding ece391_open_def using assms by (intro stub) (auto simp: call_ok_def u_call_def string_ok_def)

lemma close_stub:
  assumes "inv w" "sint (word_of_int fd :: u32) = fd" "u_close fd (view w) = (v, r)"
  shows "\<exists>w'. ece391_close os fd w = Some (w', r) \<and> inv w' \<and> view w' = v"
  unfolding ece391_close_def using assms by (intro stub) (simp_all add: call_ok_def u_call_def)

lemma getargs_stub:
  assumes "inv w" "0 \<le> n" "n \<le> 4096" "ubuf a (nat n)" "u_getargs a n (view w) = (v, r)"
  shows "\<exists>w'. ece391_getargs os a n w = Some (w', r) \<and> inv w' \<and> view w' = v"
proof -
  have s: "sint (word_of_int n :: u32) = n" using sint_of_nat_len [of "nat n"] assms(2,3) by (simp add: nat_less_iff)
  show ?thesis unfolding ece391_getargs_def using assms s by (intro stub) (simp_all add: call_ok_def u_call_def)
qed

end

end
