(* ===== verification/UserCat.thy ===== *)
theory UserCat
  imports UserLib
begin

text \<open>
  The programs \<^verbatim>\<open>syscalls/ece391cat.c\<close>, \<^verbatim>\<open>syscalls/ece391ls.c\<close> and \<^verbatim>\<open>syscalls/ece391testprint.c\<close>. The address of
  a local buffer and, for every string literal, the address \<open>lit\<close> gives are parameters.
\<close>

abbreviation nl :: string where "nl \<equiv> [CHR 0x0A]"

section \<open>The programs\<close>

partial_function (option) cat_loop :: "'w os \<Rightarrow> (string \<Rightarrow> u32) \<Rightarrow> u32 \<Rightarrow> int \<Rightarrow> 'w \<Rightarrow> ('w \<times> int) option" where
  "cat_loop os lit buf fd w = do {
     (w, cnt) \<leftarrow> ece391_read os fd buf 1024 w;
     if cnt = 0 then Some (w, 0)
     else if cnt = -1 then do { w \<leftarrow> ece391_fdputs os 1 (lit (''file read failed'' @ nl)) w; Some (w, 3) }
     else do {
       (w, r) \<leftarrow> ece391_write os 1 buf cnt w;
       if r = -1 then Some (w, 3) else cat_loop os lit buf fd w
     }
   }"

definition cat_main :: "'w os \<Rightarrow> (string \<Rightarrow> u32) \<Rightarrow> u32 \<Rightarrow> 'w \<Rightarrow> ('w \<times> int) option" where
  "cat_main os lit buf w = do {
     (w, r) \<leftarrow> ece391_getargs os buf 1024 w;
     if r \<noteq> 0 then do { w \<leftarrow> ece391_fdputs os 1 (lit (''could not read arguments'' @ nl)) w; Some (w, 3) }
     else do {
       (w, fd) \<leftarrow> ece391_open os buf w;
       if fd = -1 then do { w \<leftarrow> ece391_fdputs os 1 (lit (''file not found'' @ nl)) w; Some (w, 2) }
       else cat_loop os lit buf fd w
     }
   }"

partial_function (option) ls_loop :: "'w os \<Rightarrow> (string \<Rightarrow> u32) \<Rightarrow> u32 \<Rightarrow> int \<Rightarrow> 'w \<Rightarrow> ('w \<times> int) option" where
  "ls_loop os lit buf fd w = do {
     (w, cnt) \<leftarrow> ece391_read os fd buf 32 w;
     if cnt = 0 then Some (w, 0)
     else if cnt = -1 then do { w \<leftarrow> ece391_fdputs os 1 (lit (''directory entry read failed'' @ nl)) w; Some (w, 3) }
     else do {
       let w = os_store os w (buf + word_of_int cnt) (ch CHR 0x0A);
       (w, r) \<leftarrow> ece391_write os 1 buf (cnt + 1) w;
       if r = -1 then Some (w, 3) else ls_loop os lit buf fd w
     }
   }"

definition ls_main :: "'w os \<Rightarrow> (string \<Rightarrow> u32) \<Rightarrow> u32 \<Rightarrow> 'w \<Rightarrow> ('w \<times> int) option" where
  "ls_main os lit buf w = do {
     (w, fd) \<leftarrow> ece391_open os (lit ''.'') w;
     if fd = -1 then do { w \<leftarrow> ece391_fdputs os 1 (lit (''directory open failed'' @ nl)) w; Some (w, 2) }
     else ls_loop os lit buf fd w
   }"

definition testprint_main :: "'w os \<Rightarrow> (string \<Rightarrow> u32) \<Rightarrow> 'w \<Rightarrow> ('w \<times> int) option" where
  "testprint_main os lit w = do {
     w \<leftarrow> ece391_fdputs os 1 (lit (''Hello, if this ran, the program was correct. Yay!'' @ nl)) w;
     Some (w, 0)
   }"

section \<open>Literals\<close>

text \<open>The literals of a program are in its page, in place, and apart from its buffer.\<close>

definition literals :: "(string \<Rightarrow> u32) \<Rightarrow> string list \<Rightarrow> (u32 \<Rightarrow> u8) \<Rightarrow> bool" where
  "literals lit ss m \<longleftrightarrow> (\<forall>s\<in>set ss. cstring m (lit s) (chars s) \<and> ubuf (lit s) (length s + 1) \<and> length s < 2050)"

definition away :: "(string \<Rightarrow> u32) \<Rightarrow> string list \<Rightarrow> u32 \<Rightarrow> nat \<Rightarrow> bool" where
  "away lit ss buf n \<longleftrightarrow> (\<forall>s\<in>set ss. unat buf + n \<le> unat (lit s) \<or> unat (lit s) + length s + 1 \<le> unat buf)"

lemma put_bytes_out:
  assumes "\<And>i. i < length vs \<Longrightarrow> b \<noteq> a + of_nat i"
  shows "put_bytes a vs m b = m b"
  using assms
proof (induction vs arbitrary: a m)
  case (Cons v vs)
  have "b \<noteq> a + 1 + of_nat i" if "i < length vs" for i using Cons.prems [of "Suc i"] that by (simp add: add.assoc)
  then have "put_bytes (a + 1) vs (m(a := v)) b = (m(a := v)) b" by (rule Cons.IH)
  moreover have "b \<noteq> a" using Cons.prems [of 0] by simp
  ultimately show ?case by (simp only: put_bytes_simps fun_upd_apply) simp
qed simp

lemma put_bytes_in:
  assumes "i < length vs" "length vs < 2 ^ 32"
  shows "put_bytes a vs m (a + of_nat i) = vs ! i"
  using assms
proof (induction vs arbitrary: a m i)
  case (Cons v vs)
  show ?case
  proof (cases i)
    case 0
    have "a \<noteq> a + 1 + of_nat j" if "j < length vs" for j
    proof -
      have "unat (of_nat (Suc j) :: u32) = Suc j" using that Cons.prems(2) by (intro unat_of_nat_small) simp
      then have "(of_nat (Suc j) :: u32) \<noteq> 0" by (metis nat.distinct(1) unat_0)
      then show ?thesis by (simp add: add.assoc)
    qed
    then have "put_bytes (a + 1) vs (m(a := v)) a = (m(a := v)) a" by (rule put_bytes_out)
    then show ?thesis using 0 by (simp only: put_bytes_simps fun_upd_apply) simp
  next
    case (Suc j)
    then have "put_bytes (a + 1) vs (m(a := v)) (a + 1 + of_nat j) = vs ! j" using Cons.prems by (intro Cons.IH) simp_all
    then show ?thesis using Suc by (simp only: put_bytes_simps) (simp add: add.assoc)
  qed
qed simp

lemma mbytes_put:
  assumes "length vs = n" "n < 2 ^ 32"
  shows "mbytes (put_bytes a vs m) a n = vs"
  using assms put_bytes_in [of _ vs a m] by (intro nth_equalityI) simp_all

lemma ubuf_mono: "ubuf a n \<Longrightarrow> m \<le> n \<Longrightarrow> ubuf a m"
  by (simp add: ubuf_def)

lemma cstring_put_bytes:
  assumes "cstring m s cs" "ubuf s (length cs + 1)" "ubuf a (length vs)"
    "unat a + length vs \<le> unat s \<or> unat s + length cs + 1 \<le> unat a"
  shows "cstring (put_bytes a vs m) s cs"
proof -
  have "put_bytes a vs m (s + of_nat i) = m (s + of_nat i)" if i: "i \<le> length cs" for i
  proof (rule put_bytes_out)
    fix j assume j: "j < length vs"
    have "unat (s + of_nat i) = unat s + i" "unat (a + of_nat j) = unat a + j"
      using ubuf_off(1) [OF assms(2)] ubuf_off(1) [OF assms(3) j] i by simp_all
    moreover have "unat s + i \<noteq> unat a + j" using assms(4) i j by linarith
    ultimately show "s + of_nat i \<noteq> a + of_nat j" by metis
  qed
  then show ?thesis using assms(1) by (subst cstring_cong [of cs _ s m]) auto
qed

lemma literals_put_bytes:
  assumes "literals lit ss m" "away lit ss buf n" "ubuf buf n" "length vs \<le> n"
  shows "literals lit ss (put_bytes buf vs m)"
  unfolding literals_def
proof (intro ballI conjI)
  fix s assume s: "s \<in> set ss"
  have l: "cstring m (lit s) (chars s)" "ubuf (lit s) (length s + 1)" "length s < 2050" using assms(1) s by (simp_all add: literals_def)
  show "cstring (put_bytes buf vs m) (lit s) (chars s)"
    by (rule cstring_put_bytes [OF l(1)]) (use l(2) assms s in \<open>auto simp: away_def ubuf_def\<close>)
  show "ubuf (lit s) (length s + 1)" "length s < 2050" by (rule l)+
qed

context user_os
begin

lemma puts_lit:
  assumes "inv w" "literals lit ss (umem (view w))" "s \<in> set ss"
  shows "\<exists>w'. ece391_fdputs os 1 (lit s) w = Some w' \<and> inv w' \<and> view w' = u_puts (chars s) (view w)"
  using fdputs_ok [OF assms(1), of "lit s" "chars s"] assms(2,3) by (simp add: literals_def)

text \<open>The first closed descriptor is never a standard stream.\<close>

lemma first_closed_fd:
  assumes "inv w" "first_closed (ufds (view w)) = i" "i \<noteq> 8"
  shows "2 \<le> i" "i < 8"
proof -
  have "find (\<lambda>i. ufds (view w) i = Fd_closed) [0..<8] = Some i" using assms(2,3) by (auto simp: first_closed_def split: option.splits)
  then have i: "i < 8" "ufds (view w) i = Fd_closed" by (auto simp: find_Some_iff)
  moreover have "ufds (view w) 0 \<noteq> Fd_closed" "ufds (view w) 1 \<noteq> Fd_closed" using view [OF assms(1)] by (auto simp: view_ok_def)
  ultimately have "i \<noteq> 0" "i \<noteq> 1" by metis+
  then show "2 \<le> i" "i < 8" using i by auto
qed

lemma cat_loop_ok:
  assumes "inv w" "ufds (view w) (nat fd) = Fd_regular c p" "2 \<le> fd" "fd < 8" "ubuf buf 1024"
  shows "\<exists>w'. cat_loop os lit buf fd w = Some (w', 0) \<and> inv w' \<and>
    uout (view w') = fold aterm_putc (drop p c) (uout (view w))"
  using assms(1,2)
proof (induction "length c - p" arbitrary: w p rule: less_induct)
  case less
  let ?m = "min 1024 (length c - p)"
  define vs where "vs = take ?m (drop p c)"
  have len: "length vs = ?m" by (simp add: vs_def)
  have sfd: "sint (word_of_int fd :: u32) = fd" using sint_of_nat_len [of "nat fd"] assms(3,4) by (simp add: nat_less_iff)
  obtain w1 where w1: "ece391_read os fd buf 1024 w = Some (w1, int ?m)" "inv w1"
    "view w1 = set_fd (nat fd) (Fd_regular c (p + ?m)) (set_mem buf vs (view w))"
    using read_stub [OF less.prems(1), of fd buf 1024] less.prems(2) assms(3-5) sfd
    by (auto simp: read_ok_def u_read_def vs_def Let_def)
  show ?case
  proof (cases "?m = 0")
    case True
    then show ?thesis using w1 by (subst cat_loop.simps) (auto simp: set_fd_def set_mem_def)
  next
    case False
    have mem: "umem (view w1) = put_bytes buf vs (umem (view w))" by (simp add: w1(3) set_fd_def set_mem_def)
    have "mbytes (umem (view w1)) buf ?m = vs"
      unfolding mem by (rule mbytes_put) (simp_all add: len)
    moreover have "ubuf buf ?m" by (rule ubuf_mono [OF assms(5)]) simp
    ultimately obtain w2 where w2: "ece391_write os 1 buf (int ?m) w1 = Some (w2, int ?m)" "inv w2" "view w2 = u_puts vs (view w1)"
      using write_screen [OF w1(2), of ?m buf] by fastforce
    have fds: "ufds (view w2) (nat fd) = Fd_regular c (p + ?m)" by (simp add: w2(3) w1(3) set_fd_def)
    have out: "uout (view w2) = fold aterm_putc vs (uout (view w))" by (simp add: w2(3) w1(3) set_fd_def set_mem_def)
    have "length c - (p + ?m) < length c - p" using False by auto
    from less.hyps [OF this w2(2) fds] obtain w' where w': "cat_loop os lit buf fd w2 = Some (w', 0)" "inv w'"
      "uout (view w') = fold aterm_putc (drop (p + ?m) c) (uout (view w2))" by blast
    have "drop p c = vs @ drop (p + ?m) c"
      unfolding vs_def by (metis append_take_drop_id drop_drop add.commute)
    then have "uout (view w') = fold aterm_putc (drop p c) (uout (view w))" using w'(3) out by simp
    moreover have "cat_loop os lit buf fd w = cat_loop os lit buf fd w2"
      using w1(1) w2(1) False by (subst cat_loop.simps) (auto simp: min_def)
    ultimately show ?thesis using w'(1,2) by simp
  qed
qed

lemma cat_args:
  assumes "inv w" "ubuf buf 1024" "uargs (view w) = Some raw" "0 \<in> set (take 1024 raw)"
    and name: "name = takeWhile (\<lambda>c. c \<noteq> 0) raw"
  shows "\<exists>w1. ece391_getargs os buf 1024 w = Some (w1, 0) \<and> inv w1 \<and> view w1 = set_mem buf (take 1024 raw) (view w) \<and>
    cstring (umem (view w1)) buf name \<and> ubuf buf (length name + 1)"
proof -
  have "length raw = 4096" using view [OF assms(1)] assms(3) by (simp add: view_ok_def)
  then have len: "length (take 1024 raw) = 1024" by simp
  have "buf \<noteq> 0" using assms(2) by (auto simp: ubuf_def)
  then have "u_getargs buf 1024 (view w) = (set_mem buf (take 1024 raw) (view w), 0)"
    by (simp add: u_getargs_def assms(3))
  then obtain w1 where w1: "ece391_getargs os buf 1024 w = Some (w1, 0)" "inv w1" "view w1 = set_mem buf (take 1024 raw) (view w)"
    using getargs_stub [OF assms(1), of 1024 buf] assms(2) by auto
  note z = first_zero [OF assms(4), folded name]
  have "umem (view w1) (buf + of_nat i) = take 1024 raw ! i" if "i < 1024" for i
    unfolding w1(3) using put_bytes_in [of i "take 1024 raw" buf "umem (view w)"] len that by (simp add: set_mem_def)
  then have "cstring (umem (view w1)) buf name"
    using z set_takeWhileD [of 0 "\<lambda>c. c \<noteq> 0" raw] by (auto simp: cstring_def name)
  moreover have "ubuf buf (length name + 1)" using z(1) assms(2) by (simp add: ubuf_def)
  ultimately show ?thesis using w1 by blast
qed

lemma cat_file:
  assumes "inv w" "ubuf buf 1024" "uargs (view w) = Some raw" "0 \<in> set (take 1024 raw)"
    and name: "name = takeWhile (\<lambda>c. c \<noteq> 0) raw"
    and e: "find (\<lambda>e. uf_name e = take 32 name) img = Some e" "uf_type e = 2"
    and fd: "first_closed (ufds (view w)) \<noteq> 8"
  shows "\<exists>w'. cat_main os lit buf w = Some (w', 0) \<and> inv w' \<and> uout (view w') = fold aterm_putc (uf_data e) (uout (view w))"
proof -
  define i where "i = first_closed (ufds (view w))"
  note i = first_closed_fd [OF assms(1) i_def [symmetric]]
  obtain w1 where w1: "ece391_getargs os buf 1024 w = Some (w1, 0)" "inv w1" "view w1 = set_mem buf (take 1024 raw) (view w)"
    "cstring (umem (view w1)) buf name" "ubuf buf (length name + 1)"
    using cat_args [OF assms(1-5)] by blast
  have fc: "first_closed (ufds (view w1)) = i" by (simp add: w1(3) i_def)
  have "u_open img buf (view w1) = (set_fd i (Fd_regular (uf_data e) 0) (view w1), int i)"
    using e fd fc by (simp add: u_open_def name_at_cstring [OF w1(4)] i_def fd_for_def set_fd_def Let_def)
  then obtain w2 where w2: "ece391_open os buf w1 = Some (w2, int i)" "inv w2"
    "view w2 = set_fd i (Fd_regular (uf_data e) 0) (view w1)"
    using open_stub [OF w1(2,4,5)] by blast
  have "ufds (view w2) (nat (int i)) = Fd_regular (uf_data e) 0" by (simp add: w2(3) set_fd_def)
  from cat_loop_ok [OF w2(2) this _ _ assms(2)] obtain w' where w': "cat_loop os lit buf (int i) w2 = Some (w', 0)" "inv w'"
    "uout (view w') = fold aterm_putc (drop 0 (uf_data e)) (uout (view w2))"
    using i fd i_def by auto
  have "uout (view w2) = uout (view w)" by (simp add: w2(3) w1(3) set_fd_def set_mem_def)
  then show ?thesis using w1(1) w2(1) w' by (simp add: cat_main_def)
qed

lemma cat_missing:
  assumes "inv w" "ubuf buf 1024" "uargs (view w) = Some raw" "0 \<in> set (take 1024 raw)"
    and name: "name = takeWhile (\<lambda>c. c \<noteq> 0) raw"
    and e: "find (\<lambda>e. uf_name e = take 32 name) img = None"
    and lit: "literals lit [''file not found'' @ nl] (umem (view w))" "away lit [''file not found'' @ nl] buf 1024"
  shows "\<exists>w'. cat_main os lit buf w = Some (w', 2) \<and> inv w' \<and>
    uout (view w') = fold aterm_putc (chars (''file not found'' @ nl)) (uout (view w))"
proof -
  obtain w1 where w1: "ece391_getargs os buf 1024 w = Some (w1, 0)" "inv w1" "view w1 = set_mem buf (take 1024 raw) (view w)"
    "cstring (umem (view w1)) buf name" "ubuf buf (length name + 1)"
    using cat_args [OF assms(1-5)] by blast
  have "u_open img buf (view w1) = (view w1, -1)" by (simp add: u_open_def name_at_cstring [OF w1(4)] e)
  then obtain w2 where w2: "ece391_open os buf w1 = Some (w2, -1)" "inv w2" "view w2 = view w1"
    using open_stub [OF w1(2,4,5)] by blast
  have "literals lit [''file not found'' @ nl] (umem (view w2))"
    using literals_put_bytes [OF lit assms(2), of "take 1024 raw"] by (simp add: w2(3) w1(3) set_mem_def)
  from puts_lit [OF w2(2) this] obtain w' where "ece391_fdputs os 1 (lit (''file not found'' @ nl)) w2 = Some w'" "inv w'"
    "view w' = u_puts (chars (''file not found'' @ nl)) (view w2)" by (auto simp del: append.simps)
  then show ?thesis using w1(1) w2(1) by (simp add: cat_main_def w2(3) w1(3) set_mem_def)
qed

lemma cat_no_args:
  assumes "inv w" "ubuf buf 1024" "uargs (view w) = None"
    and lit: "literals lit [''could not read arguments'' @ nl] (umem (view w))"
  shows "\<exists>w'. cat_main os lit buf w = Some (w', 3) \<and> inv w' \<and>
    uout (view w') = fold aterm_putc (chars (''could not read arguments'' @ nl)) (uout (view w))"
proof -
  have "u_getargs buf 1024 (view w) = (view w, -1)" by (simp add: u_getargs_def assms(3))
  then obtain w1 where w1: "ece391_getargs os buf 1024 w = Some (w1, -1)" "inv w1" "view w1 = view w"
    using getargs_stub [OF assms(1), of 1024 buf] assms(2) by auto
  from puts_lit [OF w1(2) lit [folded w1(3)]] obtain w' where "ece391_fdputs os 1 (lit (''could not read arguments'' @ nl)) w1 = Some w'"
    "inv w'" "view w' = u_puts (chars (''could not read arguments'' @ nl)) (view w1)" by (auto simp del: append.simps)
  then show ?thesis using w1(1) by (simp add: cat_main_def w1(3))
qed

text \<open>The listing: every name on a line of its own.\<close>

lemma ls_loop_ok:
  assumes "inv w" "ufds (view w) (nat fd) = Fd_directory" "2 \<le> fd" "fd < 8" "ubuf buf 33"
    and names: "\<forall>e\<in>set img. uf_name e \<noteq> []"
  shows "\<exists>w'. ls_loop os lit buf fd w = Some (w', 0) \<and> inv w' \<and>
    uout (view w') = fold aterm_putc (concat (map (\<lambda>e. uf_name e @ [10]) (drop (udir (view w)) img))) (uout (view w))"
  using assms(1,2)
proof (induction "length img - udir (view w)" arbitrary: w rule: less_induct)
  case less
  let ?j = "udir (view w)"
  have sfd: "sint (word_of_int fd :: u32) = fd" using sint_of_nat_len [of "nat fd"] assms(3,4) by (simp add: nat_less_iff)
  note rs = read_stub [OF less.prems(1), of fd buf 32, OF _ sfd]
  show ?case
  proof (cases "?j < length img")
    case False
    then show ?thesis
      using rs [of "view w" 0] less.prems(2) assms(3-5) by (subst ls_loop.simps) (auto simp: read_ok_def u_read_def)
  next
    case True
    define e where "e = img ! ?j"
    define n where "n = length (uf_name e)"
    have e: "length (uf_raw e) = 32" "uf_name e \<noteq> []" using view [OF less.prems(1)] names True by (simp_all add: view_ok_def e_def)
    have n: "0 < n" "n \<le> 32" using e length_takeWhile_le [of _ "uf_raw e"] by (auto simp: n_def uf_name_def)
    obtain w1 where w1: "ece391_read os fd buf 32 w = Some (w1, int n)" "inv w1"
      "view w1 = (set_mem buf (uf_raw e @ [0]) (view w))\<lparr>udir := ?j + 1\<rparr>"
      using rs less.prems(2) assms(3-5) True by (auto simp: read_ok_def u_read_def e_def n_def)
    define w2 where "w2 = os_store os w1 (buf + word_of_int (int n)) (ch CHR 0x0A)"
    have w2: "inv w2" "view w2 = (view w1)\<lparr>umem := (umem (view w1))(buf + of_nat n := 10)\<rparr>"
      using store [OF w1(2) ubuf_off(2) [OF assms(5)], of n "ch CHR 0x0A"] n by (simp_all add: w2_def)
    have ub: "ubuf buf (n + 1)" using ubuf_mono [OF assms(5)] n by simp
    have "mbytes (umem (view w2)) buf (n + 1) = uf_name e @ [10]"
    proof (rule nth_equalityI)
      fix i assume "i < length (mbytes (umem (view w2)) buf (n + 1))"
      then have i: "i < n + 1" by simp
      have ne: "buf + of_nat i \<noteq> buf + of_nat n" if "i < n"
        using that ubuf_off(1) [OF ub, of i] ubuf_off(1) [OF ub, of n] by auto
      have "umem (view w1) (buf + of_nat i) = uf_raw e ! i" if "i < n"
        using that n e put_bytes_in [of i "uf_raw e @ [0]" buf "umem (view w)"] by (simp add: w1(3) set_mem_def nth_append)
      moreover have "uf_raw e ! i = uf_name e ! i" if "i < n" using that takeWhile_nth [of i _ "uf_raw e"] by (simp add: uf_name_def n_def)
      ultimately show "mbytes (umem (view w2)) buf (n + 1) ! i = (uf_name e @ [10]) ! i"
      proof (cases "i < n")
        case False
        then have "i = n" using i by simp
        then show ?thesis by (simp add: w2(2) nth_append n_def)
      qed (use ne w2(2) in \<open>simp add: nth_append n_def\<close>)
    qed (simp add: n_def)
    then obtain w3 where w3: "ece391_write os 1 buf (int n + 1) w2 = Some (w3, int n + 1)" "inv w3"
      "view w3 = u_puts (uf_name e @ [10]) (view w2)"
      using write_screen [OF w2(1), of "n + 1" buf] ub n by (auto simp: add.commute)
    have v3: "udir (view w3) = ?j + 1" "ufds (view w3) (nat fd) = Fd_directory"
      "uout (view w3) = fold aterm_putc (uf_name e @ [10]) (uout (view w))"
      using less.prems(2) by (simp_all add: w3(3) w2(2) w1(3) set_mem_def)
    have "length img - udir (view w3) < length img - ?j" using True v3(1) by simp
    from less.hyps [OF this w3(2) v3(2)] obtain w' where w': "ls_loop os lit buf fd w3 = Some (w', 0)" "inv w'"
      "uout (view w') = fold aterm_putc (concat (map (\<lambda>e. uf_name e @ [10]) (drop (?j + 1) img))) (uout (view w3))"
      using v3(1) by auto
    have "drop ?j img = e # drop (?j + 1) img" using True by (simp add: e_def Cons_nth_drop_Suc)
    then have "uout (view w') = fold aterm_putc (concat (map (\<lambda>e. uf_name e @ [10]) (drop ?j img))) (uout (view w))"
      using w'(3) v3(3) by simp
    moreover have "ls_loop os lit buf fd w = ls_loop os lit buf fd w3"
      using w1(1) w3(1) n by (subst ls_loop.simps) (simp add: w2_def Let_def)
    ultimately show ?thesis using w'(1,2) by simp
  qed
qed

lemma ls_lists:
  assumes "inv w" "ubuf buf 33" and names: "\<forall>e\<in>set img. uf_name e \<noteq> []"
    and lit: "literals lit [''.''] (umem (view w))"
    and e: "find (\<lambda>e. uf_name e = chars ''.'') img = Some e" "uf_type e = 1"
    and fd: "first_closed (ufds (view w)) \<noteq> 8"
  shows "\<exists>w'. ls_main os lit buf w = Some (w', 0) \<and> inv w' \<and>
    uout (view w') = fold aterm_putc (concat (map (\<lambda>e. uf_name e @ [10]) img)) (uout (view w))"
proof -
  define i where "i = first_closed (ufds (view w))"
  note i = first_closed_fd [OF assms(1) i_def [symmetric]]
  have l: "cstring (umem (view w)) (lit ''.'') (chars ''.'')" "ubuf (lit ''.'') (length (chars ''.'') + 1)"
    using lit by (simp_all add: literals_def)
  have "u_open img (lit ''.'') (view w) = ((set_fd i Fd_directory (view w))\<lparr>udir := 0\<rparr>, int i)"
    using e fd by (simp add: u_open_def name_at_cstring [OF l(1)] i_def fd_for_def Let_def)
  then obtain w2 where w2: "ece391_open os (lit ''.'') w = Some (w2, int i)" "inv w2"
    "view w2 = (set_fd i Fd_directory (view w))\<lparr>udir := 0\<rparr>"
    using open_stub [OF assms(1) l] by blast
  have "ufds (view w2) (nat (int i)) = Fd_directory" by (simp add: w2(3) set_fd_def)
  from ls_loop_ok [OF w2(2) this _ _ assms(2) names, of lit] show ?thesis
    using i fd i_def w2(1) by (auto simp: ls_main_def w2(3) set_fd_def)
qed

lemma testprint_prints:
  assumes "inv w" "literals lit [''Hello, if this ran, the program was correct. Yay!'' @ nl] (umem (view w))"
  shows "\<exists>w'. testprint_main os lit w = Some (w', 0) \<and> inv w' \<and>
    uout (view w') = fold aterm_putc (chars (''Hello, if this ran, the program was correct. Yay!'' @ nl)) (uout (view w))"
proof -
  let ?s = "''Hello, if this ran, the program was correct. Yay!'' @ nl"
  from puts_lit [OF assms] obtain w' where "ece391_fdputs os 1 (lit ?s) w = Some w'" "inv w'" "view w' = u_puts (chars ?s) (view w)"
    by (auto simp del: append.simps)
  then show ?thesis by (simp add: testprint_main_def del: append.simps)
qed

end

end
