(* ===== verification/UserErr.thy ===== *)
theory UserErr
  imports UserCat
begin

text \<open>
  The system call tests of \<^verbatim>\<open>syscalls/ece391syserr.c\<close>, and that a kernel which keeps the contract
  passes all of them.
\<close>

section \<open>The tests\<close>

definition NEG_FD :: int where "NEG_FD = -1073741823"
definition BIG_FD :: int where "BIG_FD = 1073741823"
definition BIG_NUM :: int where "BIG_NUM = 1073741823"
definition NEG_NUM :: int where "NEG_NUM = -1073741823"

text \<open>\<^verbatim>\<open>call_sys\<close> leaves the three argument registers as they are.\<close>

definition call_sys :: "'w os \<Rightarrow> u32 \<Rightarrow> u32 \<Rightarrow> u32 \<Rightarrow> int \<Rightarrow> 'w \<Rightarrow> ('w \<times> int) option" where
  "call_sys os ebx ecx edx num w = os_call os (word_of_int num) ebx ecx edx w"

text \<open>\<^verbatim>\<open>if (-1 != r) { fail = 2; ece391_fdputs(1, msg); }\<close>, and the verdict at the end of a test.\<close>

definition report :: "'w os \<Rightarrow> (string \<Rightarrow> u32) \<Rightarrow> string \<Rightarrow> int \<Rightarrow> 'w \<times> int \<Rightarrow> ('w \<times> int) option" where
  "report os lit msg fail r =
     (if -1 \<noteq> snd r then do { w \<leftarrow> ece391_fdputs os 1 (lit (msg @ nl)) (fst r); Some (w, 2) } else Some (fst r, fail))"

definition verdict :: "'w os \<Rightarrow> (string \<Rightarrow> u32) \<Rightarrow> string \<Rightarrow> 'w \<times> int \<Rightarrow> ('w \<times> int) option" where
  "verdict os lit name r =
     (if snd r \<noteq> 0 then do { w \<leftarrow> ece391_fdputs os 1 (lit (name @ '': FAIL'' @ nl)) (fst r); Some (w, snd r) }
      else do { w \<leftarrow> ece391_fdputs os 1 (lit (name @ '': PASS'' @ nl)) (fst r); Some (w, snd r) })"

definition err_neg_fd :: "'w os \<Rightarrow> (string \<Rightarrow> u32) \<Rightarrow> u32 \<Rightarrow> 'w \<Rightarrow> ('w \<times> int) option" where
  "err_neg_fd os lit buf w = do {
     r \<leftarrow> ece391_read os NEG_FD buf 31 w;
     (w, fail) \<leftarrow> report os lit ''read fail'' 0 r;
     r \<leftarrow> ece391_write os NEG_FD buf 31 w;
     (w, fail) \<leftarrow> report os lit ''write fail'' fail r;
     r \<leftarrow> ece391_close os NEG_FD w;
     r \<leftarrow> report os lit ''close fail'' fail r;
     verdict os lit ''err_neg_fd'' r
   }"

definition err_big_fd :: "'w os \<Rightarrow> (string \<Rightarrow> u32) \<Rightarrow> u32 \<Rightarrow> 'w \<Rightarrow> ('w \<times> int) option" where
  "err_big_fd os lit buf w = do {
     r \<leftarrow> ece391_read os BIG_FD buf 31 w;
     (w, fail) \<leftarrow> report os lit ''read fail'' 0 r;
     r \<leftarrow> ece391_write os BIG_FD buf 31 w;
     (w, fail) \<leftarrow> report os lit ''write fail'' fail r;
     r \<leftarrow> ece391_close os BIG_FD w;
     r \<leftarrow> report os lit ''close fail'' fail r;
     verdict os lit ''err_big_fd'' r
   }"

fun open_lots :: "'w os \<Rightarrow> (string \<Rightarrow> u32) \<Rightarrow> nat \<Rightarrow> int \<Rightarrow> 'w \<Rightarrow> ('w \<times> int) option" where
  "open_lots os lit 0 cnt w = Some (w, cnt)"
| "open_lots os lit (Suc n) cnt w = do {
     (w, r) \<leftarrow> ece391_open os (lit ''.'') w;
     open_lots os lit n (if -1 = r then cnt + 1 else cnt) w
   }"

fun close_each :: "'w os \<Rightarrow> int list \<Rightarrow> 'w \<Rightarrow> 'w option" where
  "close_each os [] w = Some w"
| "close_each os (i # fds) w = do { (w, _) \<leftarrow> ece391_close os i w; close_each os fds w }"

definition err_open_lots :: "'w os \<Rightarrow> (string \<Rightarrow> u32) \<Rightarrow> 'w \<Rightarrow> ('w \<times> int) option" where
  "err_open_lots os lit w = do {
     (w, cnt) \<leftarrow> open_lots os lit 7 0 w;
     w \<leftarrow> close_each os [2, 3, 4, 5, 6, 7] w;
     if cnt = 1 then do { w \<leftarrow> ece391_fdputs os 1 (lit (''err_open_lots: PASS'' @ nl)) w; Some (w, 0) }
     else do { w \<leftarrow> ece391_fdputs os 1 (lit (''err_open_lots: FAIL'' @ nl)) w; Some (w, 2) }
   }"

definition err_open :: "'w os \<Rightarrow> (string \<Rightarrow> u32) \<Rightarrow> 'w \<Rightarrow> ('w \<times> int) option" where
  "err_open os lit w = do {
     r \<leftarrow> ece391_open os (lit ''helloo'') w;
     (w, fail) \<leftarrow> report os lit (CHR 0x27 # ''helloo'' @ CHR 0x27 # '' fail'') 0 r;
     r \<leftarrow> ece391_open os (lit ''shel'') w;
     (w, fail) \<leftarrow> report os lit (CHR 0x27 # ''shel'' @ CHR 0x27 # '' fail'') fail r;
     r \<leftarrow> ece391_open os (lit '''') w;
     r \<leftarrow> report os lit ''empty string fail'' fail r;
     verdict os lit ''err_open'' r
   }"

text \<open>A loop over descriptors, each of which has to be refused.\<close>

fun refuse_each :: "'w os \<Rightarrow> (string \<Rightarrow> u32) \<Rightarrow> string \<Rightarrow> (int \<Rightarrow> 'w \<Rightarrow> ('w \<times> int) option) \<Rightarrow> int list \<Rightarrow> 'w \<times> int \<Rightarrow>
    ('w \<times> int) option" where
  "refuse_each os lit msg sc [] r = Some r"
| "refuse_each os lit msg sc (i # fds) r = do {
     x \<leftarrow> sc i (fst r);
     r \<leftarrow> report os lit msg (snd r) x;
     refuse_each os lit msg sc fds r
   }"

definition err_unopened :: "'w os \<Rightarrow> (string \<Rightarrow> u32) \<Rightarrow> u32 \<Rightarrow> 'w \<Rightarrow> ('w \<times> int) option" where
  "err_unopened os lit buf w = do {
     r \<leftarrow> refuse_each os lit ''close unopened or invalid fd fail'' (ece391_close os) [0, 1, 2, 3, 4, 5, 6, 7] (w, 0);
     r \<leftarrow> refuse_each os lit ''read from unopened fd fail'' (\<lambda>i. ece391_read os i buf 31) [2, 3, 4, 5, 6, 7] r;
     r \<leftarrow> refuse_each os lit ''write to unopened fd fail'' (\<lambda>i. ece391_write os i buf 31) [2, 3, 4, 5, 6, 7] r;
     verdict os lit ''err_unopened'' r
   }"

definition err_vidmap :: "'w os \<Rightarrow> (string \<Rightarrow> u32) \<Rightarrow> 'w \<Rightarrow> ('w \<times> int) option" where
  "err_vidmap os lit w = do {
     r \<leftarrow> ece391_vidmap os 0 w;
     (w, fail) \<leftarrow> report os lit ''Null pointer fail'' 0 r;
     r \<leftarrow> ece391_vidmap os 0x400000 w;
     r \<leftarrow> report os lit ''Kernel pointer fail fail'' fail r;
     verdict os lit ''err_vidmap'' r
   }"

definition err_stdin_out :: "'w os \<Rightarrow> (string \<Rightarrow> u32) \<Rightarrow> u32 \<Rightarrow> 'w \<Rightarrow> ('w \<times> int) option" where
  "err_stdin_out os lit buf w = do {
     r \<leftarrow> ece391_write os 0 buf 31 w;
     (w, fail) \<leftarrow> report os lit ''write to stdin fail'' 0 r;
     r \<leftarrow> ece391_read os 1 buf 31 w;
     r \<leftarrow> report os lit ''read from stdout fail'' fail r;
     verdict os lit ''err_stdin_out'' r
   }"

definition err_syscall_num :: "'w os \<Rightarrow> (string \<Rightarrow> u32) \<Rightarrow> u32 \<Rightarrow> u32 \<Rightarrow> u32 \<Rightarrow> 'w \<Rightarrow> ('w \<times> int) option" where
  "err_syscall_num os lit ebx ecx edx w = do {
     r \<leftarrow> call_sys os ebx ecx edx BIG_NUM w;
     (w, fail) \<leftarrow> report os lit ''syscall 0 fail'' 0 r;
     r \<leftarrow> call_sys os ebx ecx edx NEG_NUM w;
     (w, fail) \<leftarrow> report os lit ''big num syscall fail'' fail r;
     r \<leftarrow> call_sys os ebx ecx edx 0 w;
     r \<leftarrow> report os lit ''neg num syscall fail'' fail r;
     verdict os lit ''err_syscall_num'' r
   }"

text \<open>Case 0 of the menu: all tests in order, the sum of their results, and the overall verdict.\<close>

definition run_all :: "'w os \<Rightarrow> (string \<Rightarrow> u32) \<Rightarrow> u32 \<Rightarrow> u32 \<Rightarrow> u32 \<Rightarrow> u32 \<Rightarrow> 'w \<Rightarrow> ('w \<times> int) option" where
  "run_all os lit buf ebx ecx edx w = do {
     (w, f1) \<leftarrow> err_neg_fd os lit buf w;
     (w, f2) \<leftarrow> err_big_fd os lit buf w;
     (w, f3) \<leftarrow> err_open_lots os lit w;
     (w, f4) \<leftarrow> err_open os lit w;
     (w, f5) \<leftarrow> err_unopened os lit buf w;
     (w, f6) \<leftarrow> err_vidmap os lit w;
     (w, f7) \<leftarrow> err_stdin_out os lit buf w;
     (w, f8) \<leftarrow> err_syscall_num os lit ebx ecx edx w;
     let fail = f1 + f2 + f3 + f4 + f5 + f6 + f7 + f8;
     if fail \<noteq> 0 then do { w \<leftarrow> ece391_fdputs os 1 (lit (nl @ ''Overall Tests: FAIL'' @ nl)) w; Some (w, fail) }
     else do { w \<leftarrow> ece391_fdputs os 1 (lit (nl @ ''Overall Tests: PASS'' @ nl)) w; Some (w, fail) }
   }"

definition syserr_main :: "'w os \<Rightarrow> (string \<Rightarrow> u32) \<Rightarrow> u32 \<Rightarrow> u32 \<Rightarrow> u32 \<Rightarrow> u32 \<Rightarrow> u32 \<Rightarrow> 'w \<Rightarrow> ('w \<times> int) option" where
  "syserr_main os lit buf tbuf ebx ecx edx w = do {
     w \<leftarrow> ece391_fdputs os 1 (lit ''Choose from tests 1-8. 0 to run all: '') w;
     (w, cnt) \<leftarrow> ece391_read os 0 buf 127 w;
     if cnt = -1 then do { w \<leftarrow> ece391_fdputs os 1 (lit (''Can'' @ CHR 0x27 # ''t read test #'' @ nl)) w; Some (w, 2) }
     else
       let select = uint (os_load os w buf) - 48 in
       if select = 0 then run_all os lit tbuf ebx ecx edx w
       else if select = 1 then err_neg_fd os lit tbuf w
       else if select = 2 then err_big_fd os lit tbuf w
       else if select = 3 then err_open_lots os lit w
       else if select = 4 then err_open os lit w
       else if select = 5 then err_unopened os lit tbuf w
       else if select = 6 then err_vidmap os lit w
       else if select = 7 then err_stdin_out os lit tbuf w
       else if select = 8 then err_syscall_num os lit ebx ecx edx w
       else do { w \<leftarrow> ece391_fdputs os 1 (lit ''Invalid test number. Choose from tests 1-8 or 0'') w; Some (w, 0) }
   }"

section \<open>Passing\<close>

text \<open>What a passed test leaves: its line on the screen, the memory and the descriptors as they were.\<close>

definition printed :: "string \<Rightarrow> uview \<Rightarrow> uview \<Rightarrow> bool" where
  "printed s v v' \<longleftrightarrow> umem v' = umem v \<and> ufds v' = ufds v \<and> uout v' = fold aterm_putc (chars s) (uout v)"

lemma printed_trans: "printed s v v' \<Longrightarrow> printed t v' v'' \<Longrightarrow> printed (s @ t) v v''"
  by (simp add: printed_def)

lemma printed_puts: "printed s v (u_puts (chars s) v)"
  by (simp add: printed_def)

definition pass_lines :: "string list" where
  "pass_lines = map (\<lambda>s. s @ '': PASS'' @ nl) [''err_neg_fd'', ''err_big_fd'', ''err_open_lots'', ''err_open'', ''err_unopened'',
     ''err_vidmap'', ''err_stdin_out'', ''err_syscall_num''] @ [nl @ ''Overall Tests: PASS'' @ nl]"

context user_os
begin

lemma report_refused: "report os lit msg fail (w, -1) = Some (w, fail)"
  by (simp add: report_def)

lemma puts_printed:
  assumes "inv w" "literals lit ss (umem (view w))" "s \<in> set ss"
  shows "\<exists>w'. ece391_fdputs os 1 (lit s) w = Some w' \<and> inv w' \<and> printed s (view w) (view w')"
  using puts_lit [OF assms] printed_puts [of s "view w"] by metis

lemma verdict_pass:
  assumes "inv w" "literals lit ss (umem (view w))" "name @ '': PASS'' @ nl \<in> set ss"
  shows "\<exists>w'. verdict os lit name (w, 0) = Some (w', 0) \<and> inv w' \<and> printed (name @ '': PASS'' @ nl) (view w) (view w')"
  using puts_printed [OF assms] unfolding verdict_def by auto

text \<open>A refused call changes nothing.\<close>

lemma refused_calls:
  assumes "inv w" "sint (word_of_int fd :: u32) = fd"
    "fd < 0 \<or> 8 \<le> fd \<or> ufds (view w) (nat fd) = Fd_closed"
  shows "\<exists>w'. ece391_read os fd a 31 w = Some (w', -1) \<and> inv w' \<and> view w' = view w"
    "\<exists>w'. ece391_write os fd a 31 w = Some (w', -1) \<and> inv w' \<and> view w' = view w"
    "\<exists>w'. ece391_close os fd w = Some (w', -1) \<and> inv w' \<and> view w' = view w"
proof -
  have s: "sint (word_of_int 31 :: u32) = 31" by simp
  show "\<exists>w'. ece391_read os fd a 31 w = Some (w', -1) \<and> inv w' \<and> view w' = view w"
    by (rule read_stub [OF assms(1) _ assms(2) s]) (use assms(3) in \<open>auto simp: read_ok_def u_read_def\<close>)
  show "\<exists>w'. ece391_write os fd a 31 w = Some (w', -1) \<and> inv w' \<and> view w' = view w"
    by (rule write_stub [OF assms(1) _ assms(2) s]) (use assms(3) in \<open>auto simp: write_ok_def u_write_def\<close>)
  show "\<exists>w'. ece391_close os fd w = Some (w', -1) \<and> inv w' \<and> view w' = view w"
    by (rule close_stub [OF assms(1,2)]) (use assms(3) in \<open>auto simp: u_close_def\<close>)
qed

lemma bad_fd_pass:
  assumes "inv w" "sint (word_of_int fd :: u32) = fd" "fd < 0 \<or> 8 \<le> fd"
    "literals lit ss (umem (view w))" "name @ '': PASS'' @ nl \<in> set ss"
  shows "\<exists>w'. (do {
     r \<leftarrow> ece391_read os fd buf 31 w;
     (w, fail) \<leftarrow> report os lit ''read fail'' 0 r;
     r \<leftarrow> ece391_write os fd buf 31 w;
     (w, fail) \<leftarrow> report os lit ''write fail'' fail r;
     r \<leftarrow> ece391_close os fd w;
     r \<leftarrow> report os lit ''close fail'' fail r;
     verdict os lit name r
   }) = Some (w', 0) \<and> inv w' \<and> printed (name @ '': PASS'' @ nl) (view w) (view w')"
proof -
  obtain w1 where w1: "ece391_read os fd buf 31 w = Some (w1, -1)" "inv w1" "view w1 = view w"
    using refused_calls(1) [OF assms(1,2), of buf] assms(3) by auto
  obtain w2 where w2: "ece391_write os fd buf 31 w1 = Some (w2, -1)" "inv w2" "view w2 = view w"
    using refused_calls(2) [OF w1(2) assms(2), of buf] assms(3) w1(3) by auto
  obtain w3 where w3: "ece391_close os fd w2 = Some (w3, -1)" "inv w3" "view w3 = view w"
    using refused_calls(3) [OF w2(2) assms(2)] assms(3) w2(3) by auto
  show ?thesis
    using verdict_pass [OF w3(2), of lit ss name] assms(4,5) w1(1) w2(1) w3 by (simp add: report_refused)
qed

lemma neg_fd_pass:
  assumes "inv w" "literals lit ss (umem (view w))" "''err_neg_fd: PASS'' @ nl \<in> set ss"
  shows "\<exists>w'. err_neg_fd os lit buf w = Some (w', 0) \<and> inv w' \<and> printed (''err_neg_fd: PASS'' @ nl) (view w) (view w')"
  using bad_fd_pass [OF assms(1), of NEG_FD lit ss "''err_neg_fd''" buf] assms(2,3)
  by (simp add: err_neg_fd_def NEG_FD_def)

lemma big_fd_pass:
  assumes "inv w" "literals lit ss (umem (view w))" "''err_big_fd: PASS'' @ nl \<in> set ss"
  shows "\<exists>w'. err_big_fd os lit buf w = Some (w', 0) \<and> inv w' \<and> printed (''err_big_fd: PASS'' @ nl) (view w) (view w')"
  using bad_fd_pass [OF assms(1), of BIG_FD lit ss "''err_big_fd''" buf] assms(2,3)
  by (simp add: err_big_fd_def BIG_FD_def)

lemma refuse_each_ok:
  assumes "\<And>i w. i \<in> set fds \<Longrightarrow> inv w \<Longrightarrow> view w = v \<Longrightarrow> \<exists>w'. sc i w = Some (w', -1) \<and> inv w' \<and> view w' = v"
    "inv w" "view w = v"
  shows "\<exists>w'. refuse_each os lit msg sc fds (w, 0) = Some (w', 0) \<and> inv w' \<and> view w' = v"
  using assms
proof (induction fds arbitrary: w)
  case (Cons i fds)
  obtain w1 where w1: "sc i w = Some (w1, -1)" "inv w1" "view w1 = v" using Cons.prems by (metis list.set_intros(1))
  from Cons.IH [OF _ w1(2,3)] Cons.prems(1) show ?case by (simp add: w1(1) report_refused)
qed simp

lemma unopened_pass:
  assumes "inv w" "\<forall>i. 2 \<le> i \<and> i < 8 \<longrightarrow> ufds (view w) i = Fd_closed"
    "literals lit ss (umem (view w))" "''err_unopened: PASS'' @ nl \<in> set ss"
  shows "\<exists>w'. err_unopened os lit buf w = Some (w', 0) \<and> inv w' \<and> printed (''err_unopened: PASS'' @ nl) (view w) (view w')"
proof -
  have cl: "ufds (view w) (nat i) = Fd_closed" "sint (word_of_int i :: u32) = i" if "i \<in> set [2, 3, 4, 5, 6, 7]" for i :: int
    using that assms(2) by auto
  have c: "\<exists>w'. ece391_close os i x = Some (w', -1) \<and> inv w' \<and> view w' = view w"
    if "i \<in> set [0, 1, 2, 3, 4, 5, 6, 7]" "inv x" "view x = view w" for i x
  proof -
    have "u_close i (view x) = (view w, -1)" "sint (word_of_int i :: u32) = i"
      using that assms(2) by (auto simp: u_close_def)
    then show ?thesis using close_stub [OF that(2)] by blast
  qed
  obtain w1 where w1: "refuse_each os lit ''close unopened or invalid fd fail'' (ece391_close os) [0, 1, 2, 3, 4, 5, 6, 7] (w, 0) = Some (w1, 0)"
    "inv w1" "view w1 = view w" using refuse_each_ok [where sc = "ece391_close os" and fds = "[0, 1, 2, 3, 4, 5, 6, 7]", OF c assms(1) refl] by blast
  have "\<exists>w'. ece391_read os i buf 31 x = Some (w', -1) \<and> inv w' \<and> view w' = view w"
    "\<exists>w'. ece391_write os i buf 31 x = Some (w', -1) \<and> inv w' \<and> view w' = view w"
    if "i \<in> set [2, 3, 4, 5, 6, 7]" "inv x" "view x = view w" for i x
    using refused_calls(1,2) [OF that(2) cl(2) [OF that(1)], of buf] cl(1) [OF that(1)] that(3) by auto
  note rw = this
  obtain w2 where w2: "refuse_each os lit ''read from unopened fd fail'' (\<lambda>i. ece391_read os i buf 31) [2, 3, 4, 5, 6, 7] (w1, 0) = Some (w2, 0)"
    "inv w2" "view w2 = view w" using refuse_each_ok [where sc = "\<lambda>i. ece391_read os i buf 31" and fds = "[2, 3, 4, 5, 6, 7]", OF rw(1) w1(2,3)] by blast
  obtain w3 where w3: "refuse_each os lit ''write to unopened fd fail'' (\<lambda>i. ece391_write os i buf 31) [2, 3, 4, 5, 6, 7] (w2, 0) = Some (w3, 0)"
    "inv w3" "view w3 = view w" using refuse_each_ok [where sc = "\<lambda>i. ece391_write os i buf 31" and fds = "[2, 3, 4, 5, 6, 7]", OF rw(2) w2(2,3)] by blast
  have "err_unopened os lit buf w = verdict os lit ''err_unopened'' (w3, 0)"
    unfolding err_unopened_def w1(1) bind.simps w2(1) w3(1) ..
  then show ?thesis using verdict_pass [OF w3(2), of lit ss "''err_unopened''"] assms(3,4) w3(3) by simp
qed

lemma vidmap_pass:
  assumes "inv w" "literals lit ss (umem (view w))" "''err_vidmap: PASS'' @ nl \<in> set ss"
  shows "\<exists>w'. err_vidmap os lit w = Some (w', 0) \<and> inv w' \<and> printed (''err_vidmap: PASS'' @ nl) (view w) (view w')"
proof -
  have v: "\<exists>w'. ece391_vidmap os a x = Some (w', -1) \<and> inv w' \<and> view w' = view x" if "a = 0 \<or> a = 0x400000" "inv x" for a x
    unfolding ece391_vidmap_def
    by (rule stub [OF that(2)]) (use that(1) in \<open>auto simp: call_ok_def u_call_def u_vidmap_def USER_PAGE_START_def\<close>)
  obtain w1 where w1: "ece391_vidmap os 0 w = Some (w1, -1)" "inv w1" "view w1 = view w" using v [OF _ assms(1)] by blast
  obtain w2 where w2: "ece391_vidmap os 0x400000 w1 = Some (w2, -1)" "inv w2" "view w2 = view w" using v [OF _ w1(2)] w1(3) by auto
  show ?thesis
    using verdict_pass [OF w2(2), of lit ss "''err_vidmap''"] assms(2,3) w1(1) w2 by (simp add: err_vidmap_def report_refused)
qed

lemma stdin_out_pass:
  assumes "inv w" "literals lit ss (umem (view w))" "''err_stdin_out: PASS'' @ nl \<in> set ss"
  shows "\<exists>w'. err_stdin_out os lit buf w = Some (w', 0) \<and> inv w' \<and> printed (''err_stdin_out: PASS'' @ nl) (view w) (view w')"
proof -
  obtain w1 where w1: "ece391_write os 0 buf 31 w = Some (w1, -1)" "inv w1" "view w1 = view w"
    using write_stub [OF assms(1), of 0 buf 31 "view w" "-1"] view [OF assms(1)] by (auto simp: write_ok_def u_write_def view_ok_def)
  obtain w2 where w2: "ece391_read os 1 buf 31 w1 = Some (w2, -1)" "inv w2" "view w2 = view w"
    using read_stub [OF w1(2), of 1 buf 31 "view w" "-1"] view [OF w1(2)] w1(3) by (auto simp: read_ok_def u_read_def view_ok_def)
  show ?thesis
    using verdict_pass [OF w2(2), of lit ss "''err_stdin_out''"] assms(2,3) w1(1) w2 by (simp add: err_stdin_out_def report_refused)
qed

lemma syscall_num_pass:
  assumes "inv w" "literals lit ss (umem (view w))" "''err_syscall_num: PASS'' @ nl \<in> set ss"
  shows "\<exists>w'. err_syscall_num os lit ebx ecx edx w = Some (w', 0) \<and> inv w' \<and> printed (''err_syscall_num: PASS'' @ nl) (view w) (view w')"
proof -
  have c: "\<exists>w'. call_sys os ebx ecx edx n x = Some (w', -1) \<and> inv w' \<and> view w' = view x"
    if "n = BIG_NUM \<or> n = NEG_NUM \<or> n = 0" "inv x" for n x
    unfolding call_sys_def
    by (rule stub [OF that(2)]) (use that(1) in \<open>auto simp: call_ok_def u_call_def BIG_NUM_def NEG_NUM_def\<close>)
  obtain w1 where w1: "call_sys os ebx ecx edx BIG_NUM w = Some (w1, -1)" "inv w1" "view w1 = view w" using c [OF _ assms(1)] by blast
  obtain w2 where w2: "call_sys os ebx ecx edx NEG_NUM w1 = Some (w2, -1)" "inv w2" "view w2 = view w" using c [OF _ w1(2)] w1(3) by auto
  obtain w3 where w3: "call_sys os ebx ecx edx 0 w2 = Some (w3, -1)" "inv w3" "view w3 = view w" using c [OF _ w2(2)] w2(3) by auto
  show ?thesis
    using verdict_pass [OF w3(2), of lit ss "''err_syscall_num''"] assms(2,3) w1(1) w2(1) w3 by (simp add: err_syscall_num_def report_refused)
qed

lemma open_pass:
  assumes "inv w" "literals lit ss (umem (view w))" "set [''helloo'', ''shel'', '''', ''err_open: PASS'' @ nl] \<subseteq> set ss"
    "\<forall>e\<in>set img. uf_name e \<notin> set [chars ''helloo'', chars ''shel'', []]"
  shows "\<exists>w'. err_open os lit w = Some (w', 0) \<and> inv w' \<and> printed (''err_open: PASS'' @ nl) (view w) (view w')"
proof -
  have o: "\<exists>w'. ece391_open os (lit s) x = Some (w', -1) \<and> inv w' \<and> view w' = view w"
    if "s \<in> {''helloo'', ''shel'', ''''}" "inv x" "view x = view w" for s x
  proof -
    have l: "cstring (umem (view x)) (lit s) (chars s)" "ubuf (lit s) (length (chars s) + 1)"
      using assms(2,3) that by (auto simp: literals_def)
    have "take 32 (chars s) = chars s" using that(1) by auto
    then have "find (\<lambda>e. uf_name e = take 32 (chars s)) img = None" using assms(4) that(1) by (auto simp: find_None_iff)
    then have "u_open img (lit s) (view x) = (view w, -1)" using that(3) name_at_cstring [OF l(1)] by (simp add: u_open_def)
    then show ?thesis using open_stub [OF that(2) l] by blast
  qed
  obtain w1 where w1: "ece391_open os (lit ''helloo'') w = Some (w1, -1)" "inv w1" "view w1 = view w" using o [OF _ assms(1) refl] by blast
  obtain w2 where w2: "ece391_open os (lit ''shel'') w1 = Some (w2, -1)" "inv w2" "view w2 = view w" using o [OF _ w1(2,3)] by blast
  obtain w3 where w3: "ece391_open os (lit '''') w2 = Some (w3, -1)" "inv w3" "view w3 = view w" using o [OF _ w2(2,3)] by blast
  show ?thesis
    using verdict_pass [OF w3(2), of lit ss "''err_open''"] assms(2,3) w1(1) w2(1) w3 by (simp add: err_open_def report_refused)
qed

text \<open>Six opens succeed, the seventh fails, and closing brings the descriptors back.\<close>

lemma open_dot:
  assumes "inv w" "literals lit ss (umem (view w))" "''.'' \<in> set ss"
    "find (\<lambda>e. uf_name e = chars ''.'') img = Some e" "uf_type e = 1"
  shows "\<exists>w'. ece391_open os (lit ''.'') w = Some (w', snd (u_open img (lit ''.'') (view w))) \<and> inv w' \<and>
    umem (view w') = umem (view w) \<and> uout (view w') = uout (view w) \<and>
    (let i = first_closed (ufds (view w)) in
       if i = 8 then snd (u_open img (lit ''.'') (view w)) = -1 \<and> ufds (view w') = ufds (view w)
       else snd (u_open img (lit ''.'') (view w)) = int i \<and> ufds (view w') = (ufds (view w))(i := Fd_directory))"
proof -
  have l: "cstring (umem (view w)) (lit ''.'') (chars ''.'')" "ubuf (lit ''.'') (length (chars ''.'') + 1)"
    using assms(2,3) by (auto simp: literals_def)
  have "name_at (umem (view w)) (lit ''.'') = chars ''.''" using name_at_cstring [OF l(1)] by simp
  then have o: "u_open img (lit ''.'') (view w) = (let i = first_closed (ufds (view w)) in
      if i = 8 then (view w, -1) else ((set_fd i Fd_directory (view w))\<lparr>udir := 0\<rparr>, int i))"
    using assms(4,5) by (simp add: u_open_def fd_for_def Let_def)
  obtain w' where "ece391_open os (lit ''.'') w = Some (w', snd (u_open img (lit ''.'') (view w)))" "inv w'"
    "view w' = fst (u_open img (lit ''.'') (view w))"
    using open_stub [OF assms(1) l, of "fst (u_open img (lit ''.'') (view w))" "snd (u_open img (lit ''.'') (view w))"] by auto
  then show ?thesis by (auto simp: o Let_def set_fd_def)
qed

lemma open_lots_ok:
  assumes dot: "''.'' \<in> set ss" "find (\<lambda>e. uf_name e = chars ''.'') img = Some e" "uf_type e = 1"
    and "inv w" "literals lit ss (umem (view w))" "2 \<le> j" "j \<le> 8"
    "\<forall>i<8. (ufds (view w) i = Fd_closed) = (j \<le> i)"
  shows "\<exists>w'. open_lots os lit n cnt w = Some (w', cnt + int (n - (8 - j))) \<and> inv w' \<and>
    umem (view w') = umem (view w) \<and> uout (view w') = uout (view w) \<and>
    ufds (view w') = (\<lambda>i. if j \<le> i \<and> i < min 8 (j + n) then Fd_directory else ufds (view w) i)"
  using assms(4-8)
proof (induction n arbitrary: w j cnt)
  case 0
  then show ?case by (intro exI [of _ w]) (auto simp: fun_eq_iff)
next
  case (Suc n)
  have fc: "first_closed (ufds (view w)) = j"
  proof (cases "j = 8")
    case True
    then show ?thesis using Suc.prems(5) by (auto simp: first_closed_def find_None_iff split: option.splits dest!: find_Some_iff [THEN iffD1])
  next
    case False
    then have "find (\<lambda>i. ufds (view w) i = Fd_closed) [0..<8] = Some j"
      using Suc.prems(3-5) by (auto simp: find_Some_iff intro!: exI [of _ j])
    then show ?thesis by (simp add: first_closed_def)
  qed
  obtain w1 where w1: "ece391_open os (lit ''.'') w = Some (w1, if j = 8 then -1 else int j)" "inv w1" "umem (view w1) = umem (view w)"
    "uout (view w1) = uout (view w)" "ufds (view w1) = (if j = 8 then ufds (view w) else (ufds (view w))(j := Fd_directory))"
    using open_dot [OF Suc.prems(1,2) dot] by (auto simp: fc Let_def split: if_splits)
  define j' where "j' = (if j = 8 then 8 else j + 1)"
  have "\<forall>i<8. (ufds (view w1) i = Fd_closed) = (j' \<le> i)" using Suc.prems(5) w1(5) by (auto simp: j'_def)
  moreover have "2 \<le> j'" "j' \<le> 8" using Suc.prems(3,4) by (auto simp: j'_def)
  ultimately obtain w' where w': "open_lots os lit n (if j = 8 then cnt + 1 else cnt) w1 =
      Some (w', (if j = 8 then cnt + 1 else cnt) + int (n - (8 - j')))" "inv w'" "umem (view w') = umem (view w1)"
    "uout (view w') = uout (view w1)" "ufds (view w') = (\<lambda>i. if j' \<le> i \<and> i < min 8 (j' + n) then Fd_directory else ufds (view w1) i)"
    using Suc.IH [OF w1(2), of j' "if j = 8 then cnt + 1 else cnt"] Suc.prems(2) w1(3) by auto
  have "open_lots os lit (Suc n) cnt w = open_lots os lit n (if j = 8 then cnt + 1 else cnt) w1"
    by (auto simp: w1(1))
  moreover have "(if j = 8 then cnt + 1 else cnt) + int (n - (8 - j')) = cnt + int (Suc n - (8 - j))"
    using Suc.prems(4) by (auto simp: j'_def)
  moreover have "ufds (view w') = (\<lambda>i. if j \<le> i \<and> i < min 8 (j + Suc n) then Fd_directory else ufds (view w) i)"
    using Suc.prems(4) by (auto simp: w'(5) w1(5) j'_def fun_eq_iff)
  ultimately show ?case using w' w1(3,4) by auto
qed

lemma close_each_ok:
  assumes "inv w" "\<forall>i\<in>set fds. 2 \<le> i \<and> i < 8"
  shows "\<exists>w'. close_each os fds w = Some w' \<and> inv w' \<and> umem (view w') = umem (view w) \<and> uout (view w') = uout (view w) \<and>
    ufds (view w') = (\<lambda>i. if int i \<in> set fds then Fd_closed else ufds (view w) i)"
  using assms
proof (induction fds arbitrary: w)
  case (Cons i fds)
  have i: "2 \<le> i" "i < 8" using Cons.prems(2) by auto
  have s: "sint (word_of_int i :: u32) = i" using sint_of_nat_len [of "nat i"] i by (simp add: nat_less_iff)
  obtain w1 where w1: "ece391_close os i w = Some (w1, snd (u_close i (view w)))" "inv w1" "view w1 = fst (u_close i (view w))"
    using close_stub [OF Cons.prems(1) s, of "fst (u_close i (view w))" "snd (u_close i (view w))"] by auto
  have v: "umem (view w1) = umem (view w)" "uout (view w1) = uout (view w)" "ufds (view w1) = (ufds (view w))(nat i := Fd_closed)"
    using i by (auto simp: w1(3) u_close_def set_fd_def fun_eq_iff)
  from Cons.IH [OF w1(2)] Cons.prems(2) obtain w' where w': "close_each os fds w1 = Some w'" "inv w'" "umem (view w') = umem (view w1)"
    "uout (view w') = uout (view w1)" "ufds (view w') = (\<lambda>i. if int i \<in> set fds then Fd_closed else ufds (view w1) i)" by auto
  show ?case using w' w1(1) v i by (auto simp: fun_eq_iff)
qed simp

lemma open_lots_pass:
  assumes "inv w" "literals lit ss (umem (view w))" "set [''.'', ''err_open_lots: PASS'' @ nl] \<subseteq> set ss"
    "find (\<lambda>e. uf_name e = chars ''.'') img = Some e" "uf_type e = 1" "\<forall>i. 2 \<le> i \<and> i < 8 \<longrightarrow> ufds (view w) i = Fd_closed"
  shows "\<exists>w'. err_open_lots os lit w = Some (w', 0) \<and> inv w' \<and> printed (''err_open_lots: PASS'' @ nl) (view w) (view w')"
proof -
  have "ufds (view w) i \<noteq> Fd_closed" if "i < 2" for i
    using view [OF assms(1)] that by (auto simp: view_ok_def less_2_cases_iff)
  then have "\<forall>i<8. (ufds (view w) i = Fd_closed) = (2 \<le> i)" using assms(6) by (metis not_le)
  then obtain w1 where w1: "open_lots os lit 7 0 w = Some (w1, 1)" "inv w1" "umem (view w1) = umem (view w)" "uout (view w1) = uout (view w)"
    "ufds (view w1) = (\<lambda>i. if 2 \<le> i \<and> i < min 8 (2 + 7) then Fd_directory else ufds (view w) i)"
    using open_lots_ok [of ss e w lit 2 7 0] assms(1-5) by auto
  obtain w2 where w2: "close_each os [2, 3, 4, 5, 6, 7] w1 = Some w2" "inv w2" "umem (view w2) = umem (view w1)" "uout (view w2) = uout (view w1)"
    "ufds (view w2) = (\<lambda>i. if int i \<in> set [2, 3, 4, 5, 6, 7] then Fd_closed else ufds (view w1) i)"
    using close_each_ok [OF w1(2), of "[2, 3, 4, 5, 6, 7]"] by auto
  have fds: "ufds (view w2) = ufds (view w)"
  proof
    fix i :: nat
    consider "i \<in> {2, 3, 4, 5, 6, 7}" | "i \<notin> {2, 3, 4, 5, 6, 7}" by blast
    then show "ufds (view w2) i = ufds (view w) i" using assms(6) by cases (auto simp: w2(5) w1(5))
  qed
  obtain w' where w': "ece391_fdputs os 1 (lit (''err_open_lots: PASS'' @ nl)) w2 = Some w'" "inv w'"
    "printed (''err_open_lots: PASS'' @ nl) (view w2) (view w')"
    using puts_printed [OF w2(2), of lit ss "''err_open_lots: PASS'' @ nl"] assms(2,3) w2(3) w1(3) by auto
  have "err_open_lots os lit w = Some (w', 0)" unfolding err_open_lots_def w1(1) bind.simps prod.case w2(1) using w'(1) by simp
  then show ?thesis using w'(2,3) w2(3,4) w1(3,4) fds by (auto simp: printed_def)
qed

text \<open>All eight tests pass, one after the other.\<close>

lemma run_all_pass:
  assumes "inv w" "literals lit ([''.'', ''helloo'', ''shel'', ''''] @ pass_lines) (umem (view w))"
    "find (\<lambda>e. uf_name e = chars ''.'') img = Some e" "uf_type e = 1"
    "\<forall>e\<in>set img. uf_name e \<notin> set [chars ''helloo'', chars ''shel'', []]"
    "\<forall>i. 2 \<le> i \<and> i < 8 \<longrightarrow> ufds (view w) i = Fd_closed"
  shows "\<exists>w'. run_all os lit buf ebx ecx edx w = Some (w', 0) \<and> inv w' \<and> printed (concat pass_lines) (view w) (view w')"
proof -
  let ?ss = "[''.'', ''helloo'', ''shel'', ''''] @ pass_lines"
  let ?p = "\<lambda>s. s @ '': PASS'' @ nl"
  have L: "literals lit ?ss (umem v)" "\<forall>i. 2 \<le> i \<and> i < 8 \<longrightarrow> ufds v i = Fd_closed" if "printed t (view w) v" for t v
    using assms(2,6) that unfolding printed_def by simp_all
  have mem: "?p s \<in> set ?ss" if "s \<in> {''err_neg_fd'', ''err_big_fd'', ''err_open_lots'', ''err_open'', ''err_unopened'',
     ''err_vidmap'', ''err_stdin_out'', ''err_syscall_num''}" for s
    using that unfolding pass_lines_def by auto
  obtain w1 where w1: "err_neg_fd os lit buf w = Some (w1, 0)" "inv w1" "printed (?p ''err_neg_fd'') (view w) (view w1)"
    using neg_fd_pass [OF assms(1,2)] mem [of "''err_neg_fd''"] by auto
  obtain w2 where w2: "err_big_fd os lit buf w1 = Some (w2, 0)" "inv w2" "printed (?p ''err_big_fd'') (view w1) (view w2)"
    using big_fd_pass [OF w1(2) L(1) [OF w1(3)]] mem [of "''err_big_fd''"] by auto
  note t2 = printed_trans [OF w1(3) w2(3)]
  obtain w3 where w3: "err_open_lots os lit w2 = Some (w3, 0)" "inv w3" "printed (?p ''err_open_lots'') (view w2) (view w3)"
    using open_lots_pass [OF w2(2) L(1) [OF t2] _ assms(3,4) L(2) [OF t2]] mem [of "''err_open_lots''"] by auto
  note t3 = printed_trans [OF t2 w3(3)]
  obtain w4 where w4: "err_open os lit w3 = Some (w4, 0)" "inv w4" "printed (?p ''err_open'') (view w3) (view w4)"
    using open_pass [OF w3(2) L(1) [OF t3] _ assms(5)] mem [of "''err_open''"] by auto
  note t4 = printed_trans [OF t3 w4(3)]
  obtain w5 where w5: "err_unopened os lit buf w4 = Some (w5, 0)" "inv w5" "printed (?p ''err_unopened'') (view w4) (view w5)"
    using unopened_pass [OF w4(2) L(2) [OF t4] L(1) [OF t4]] mem [of "''err_unopened''"] by auto
  note t5 = printed_trans [OF t4 w5(3)]
  obtain w6 where w6: "err_vidmap os lit w5 = Some (w6, 0)" "inv w6" "printed (?p ''err_vidmap'') (view w5) (view w6)"
    using vidmap_pass [OF w5(2) L(1) [OF t5]] mem [of "''err_vidmap''"] by auto
  note t6 = printed_trans [OF t5 w6(3)]
  obtain w7 where w7: "err_stdin_out os lit buf w6 = Some (w7, 0)" "inv w7" "printed (?p ''err_stdin_out'') (view w6) (view w7)"
    using stdin_out_pass [OF w6(2) L(1) [OF t6]] mem [of "''err_stdin_out''"] by auto
  note t7 = printed_trans [OF t6 w7(3)]
  obtain w8 where w8: "err_syscall_num os lit ebx ecx edx w7 = Some (w8, 0)" "inv w8" "printed (?p ''err_syscall_num'') (view w7) (view w8)"
    using syscall_num_pass [OF w7(2) L(1) [OF t7], of ebx ecx edx] mem [of "''err_syscall_num''"] by auto
  note t8 = printed_trans [OF t7 w8(3)]
  have "nl @ ''Overall Tests: PASS'' @ nl \<in> set ?ss" unfolding pass_lines_def by auto
  from puts_printed [OF w8(2) L(1) [OF t8] this] obtain w' where
    w': "ece391_fdputs os 1 (lit (nl @ ''Overall Tests: PASS'' @ nl)) w8 = Some w'" "inv w'"
      "printed (nl @ ''Overall Tests: PASS'' @ nl) (view w8) (view w')" by blast
  have "run_all os lit buf ebx ecx edx w = Some (w', 0)"
    unfolding run_all_def w1(1) bind.simps w2(1) w3(1) w4(1) w5(1) w6(1) w7(1) w8(1) Let_def prod.case using w'(1) by simp
  moreover have "printed (concat pass_lines) (view w) (view w')"
    using printed_trans [OF t8 w'(3)] unfolding pass_lines_def by (simp del: append.simps)
  ultimately show ?thesis using w'(2) by blast
qed

end

end
