(* ===== verification/Console.thy ===== *)
theory Console
  imports UserErr
begin

text \<open>
  A program at a terminal with somebody typing: the memory and the variables that key events change,
  what the program sees of a typed line, and the contract \<open>user_console\<close> of a system whose keyboard
  delivers a given list of lines.
\<close>

lemma kview_out: "uout (kview k) = terminal k (active_terminal k)"
  by (simp add: kview_def)

section \<open>What key events leave alone\<close>

definition key_cells :: "'a proc_scheme \<Rightarrow> u32 set" where
  "key_cells k = {p. unat p < 0x400000} \<union> bytes_at (keyboard_buffer k) 387 \<union> bytes_at (print_buffer k) 6150"

definition keyed :: "'a proc_scheme \<Rightarrow> 'a proc_scheme \<Rightarrow> bool" where
  "keyed k k' \<longleftrightarrow> same_static k k' \<and> same_keys k k' \<and> pcbs k' = pcbs k \<and> process_status k' = process_status k \<and>
     total_running_process k' = total_running_process k \<and> current_pid k' = current_pid k \<and>
     arg_available k' = arg_available k \<and> current_dir_read_index k' = current_dir_read_index k \<and>
     next_interrupt k' = next_interrupt k \<and> only_at (key_cells k) k k'"

lemma keyed_trans:
  assumes "keyed k k'" "keyed k' k''"
  shows "keyed k k''"
proof -
  have "key_cells k' = key_cells k" using assms(1) by (simp add: keyed_def same_static_def key_cells_def)
  then have "only_at (key_cells k) k k''"
    using assms only_at_trans [of "key_cells k" k k' k''] by (simp add: keyed_def)
  then show ?thesis using assms same_keys_trans [of k k' k''] by (simp add: keyed_def same_static_def)
qed

lemma keyed_var:
  fixes k :: "'a proc_scheme"
  shows "unat c \<notin> modifiers \<Longrightarrow> keyed k (press c k)"
    "i \<notin> modifiers \<Longrightarrow> keyed k (k\<lparr>pressed_key := (pressed_key k)(i := 0), hold_num := hold_num k - 1\<rparr>)"
  by (auto simp: keyed_def press_def same_static_def same_keys_def only_at_def)

lemma keyed_screen:
  fixes k k' :: "'a proc_scheme"
  assumes "screen_only k k'" "keeps (term_frame d t) k k'" "t \<in> {0, 1, 2}"
  shows "keyed k k'"
proof -
  have "only_at (key_cells k) k k'"
    using assms(2) page_cells_low [OF assms(3)] by (fastforce simp: keeps_def only_at_def key_cells_def)
  then show ?thesis
    using assms(1) by (auto simp: screen_only_def keyed_def same_static_def same_keys_def)
qed

lemma keyed_row:
  fixes k :: "'a proc_scheme"
  assumes "kbd_inv k" "t \<in> {0, 1, 2}" "i < 129"
  shows "keyed k ((stb k (key_row k t + of_nat i) v)\<lparr>cursor_ind := f\<rparr>)"
proof -
  note vid = kbd_video [OF assms(1)]
  obtain w where w: "kernel_map w (pg k)" using vid(1) by (auto simp: video_inv_def)
  have e: "key_row k t + of_nat i = keyboard_buffer k + of_nat (129 * nat t + i)"
    using assms(2) by (auto simp: key_row_def TOTAL_KEY_NUM_def)
  have "129 * nat t + i < 387" using assms(2,3) by auto
  then have c: "key_row k t + of_nat i \<in> key_cells k" unfolding e by (auto simp: key_cells_def bytes_at_def simp del: of_nat_add)
  have "translate k (key_row k t + of_nat i) = Some (key_row k t + of_nat i)"
    by (rule in_kernel_walk(1) [OF w key_row_rows(3) [OF vid(2) assms(2)] assms(3)])
  then have "only_at (key_cells k) k (stb k (key_row k t + of_nat i) v)"
    unfolding stb_eq_store_bytes using c by (intro only_at_store_bytes) auto
  then show ?thesis by (simp add: keyed_def same_static_def same_keys_def only_at_def stb_def)
qed

lemma keyed_type:
  fixes k :: "'a proc_scheme"
  assumes inv: "kbd_inv k"
  shows "keyed k (type_char c k)"
proof -
  let ?d = "display_terminal k" and ?v = "character_convert k c"
  note vid = kbd_video [OF inv] and D = kbd_invD [OF inv]
  show ?thesis
  proof (cases "length (kline k ?d) = 128")
    case True
    then have "type_char c k = k"
      using D(2) [OF vid(3)] by (simp add: type_char_def get_display_terminal_def MAX_KEY_IND_def)
    then show ?thesis by (simp add: keyed_def same_static_def same_keys_def only_at_def)
  next
    case False
    define n where "n = length (kline k ?d)"
    have n: "n < 128" "n < 129" "cursor_ind k ?d = int n" using False D(2,3) [OF vid(3)] by (simp_all add: n_def)
    define k2 where "k2 = (stb k (key_row k ?d + of_nat n) ?v)\<lparr>cursor_ind := (cursor_ind k)(?d := int n + 1)\<rparr>"
    have k2: "type_char c k = putc_scroll_display ?v k2"
      using n unfolding type_char_def get_display_terminal_def MAX_KEY_IND_def Let_def k2_def
      by (simp add: stb_upd_cursor algebra_simps)
    note w = row_written [OF inv n(2), where v = ?v and m = "int n + 1", folded k2_def]
    have ok: "aterm_ok (terminal k2 (display_terminal k2))" using w(2,4) D(1) vid(3) by simp
    have "keeps (term_frame ?d ?d) k2 (putc_scroll_display ?v k2)"
      using keeps_putc_scroll_display [OF video_invD(2) [OF w(1)]] ok view_terminal(2) [OF w(1)] w(4) by simp
    then have "keyed k2 (type_char c k)"
      unfolding k2 by (rule keyed_screen [OF screen_only_putc_scroll_display _ vid(3)])
    then show ?thesis using keyed_trans [OF keyed_row [OF inv vid(3) n(2)]] unfolding k2_def by blast
  qed
qed

lemma enter_row:
  fixes k :: "'a proc_scheme"
  assumes inv: "kbd_inv k" and c: "unat c = SCANCODE_ENTER"
  defines "d \<equiv> display_terminal k"
  shows "keyed k (line_keys c k)"
    "load_list ldb (line_keys c k) (print_row k d) 2050 = load_list ldb k (key_row k d) 129 @ replicate 1921 0"
proof -
  note vid = kbd_video [OF inv, folded d_def]
  obtain w where w: "kernel_map w (pg k)" using vid(1) by (auto simp: video_inv_def)
  note rw = key_row_rows [OF vid(2,3)]
  let ?K = "load_list ldb k (key_row k d) 129" and ?P = "print_row k d" and ?R = "key_row k d"
  define k1 where "k1 = store_bytes k ?P (replicate 2050 0)"
  define k2 where "k2 = store_bytes k1 ?P ?K"
  define k3 where "k3 = store_bytes k2 ?R (replicate 129 0)"
  have lk: "line_keys c k = k3\<lparr>terminal_read_ready := (terminal_read_ready k)(d := 1), cursor_ind := (cursor_ind k)(d := 0)\<rparr>"
    unfolding k3_def k2_def k1_def d_def by (rule enter_form [OF inv c])
  have P: "in_kernel ?P 129" using rw(4) by (simp add: in_kernel_def)
  have cells: "bytes_at ?P 2050 \<subseteq> key_cells k" "bytes_at ?P 129 \<subseteq> key_cells k" "bytes_at ?R 129 \<subseteq> key_cells k"
  proof -
    have "bytes_at ?R 129 \<subseteq> bytes_at (keyboard_buffer k) 387"
    proof -
      have "?R = keyboard_buffer k + of_nat (129 * nat d)" using vid(3) by (auto simp: key_row_def TOTAL_KEY_NUM_def)
      moreover have "129 * nat d + 129 \<le> 387" using vid(3) by auto
      ultimately show ?thesis by (simp only: bytes_at_sub)
    qed
    then show "bytes_at ?P 2050 \<subseteq> key_cells k" "bytes_at ?P 129 \<subseteq> key_cells k" "bytes_at ?R 129 \<subseteq> key_cells k"
      using print_row_cells [OF vid(3), of 2050 k] print_row_cells [OF vid(3), of 129 k] unfolding key_cells_def by fastforce+
  qed
  have o1: "only_at (key_cells k) k k1"
    unfolding k1_def by (rule only_at_kernel_store [OF w]) (use rw(4) cells in auto)
  have o2: "only_at (key_cells k) k1 k2"
    unfolding k2_def by (rule only_at_kernel_store [of w _ ?P 129]) (use w P cells in \<open>auto simp: k1_def\<close>)
  have o3: "only_at (key_cells k) k2 k3"
    unfolding k3_def by (rule only_at_kernel_store [of w _ ?R 129]) (use w rw(3) cells in \<open>auto simp: k1_def k2_def\<close>)
  have "only_at (key_cells k) k k3" by (rule only_at_trans [OF o1 only_at_trans [OF o2 o3]])
  then show "keyed k (line_keys c k)"
    by (simp add: lk keyed_def same_static_def same_keys_def only_at_def k3_def k2_def k1_def store_bytes_def)
  have "ldb (line_keys c k) = ldb k3" by (simp add: lk fun_eq_iff ldb_def)
  then have "load_list ldb (line_keys c k) ?P 2050 = load_list ldb k3 ?P 2050" by (simp add: load_list_def)
  also have "\<dots> = load_list ldb k2 ?P 2050"
    unfolding k3_def by (rule load_list_store_apart)
      (use key_rows_apart(3) [OF w vid(2,3,3)] in \<open>simp add: k2_def k1_def\<close>)
  also have "\<dots> = ?K @ drop 129 (load_list ldb k1 ?P 2050)"
    unfolding k2_def using load_list_store_prefix [of w k1 ?P 2050 ?K] w rw(4) by (simp add: k1_def)
  also have "load_list ldb k1 ?P 2050 = replicate 2050 0"
    unfolding k1_def using load_list_store_prefix [OF w rw(4), of "replicate 2050 0"] by simp
  finally show "load_list ldb (line_keys c k) ?P 2050 = ?K @ replicate 1921 0" by simp
qed

lemma keyed_text:
  fixes k :: "'a proc_scheme"
  assumes inv: "kbd_inv k" and c: "text_key k c" "no_chord k" and r: "scancode_processing c k = Some (Ret k' 0)"
  shows "keyed k k'"
proof (cases "unat c > 127")
  case True
  then have "k' = k\<lparr>pressed_key := (pressed_key k)(unat c - 128 := 0), hold_num := hold_num k - 1\<rparr>"
    using r by (simp add: scancode_processing_def MAX_KEY_IND_def line_keys_def scancode_defs Let_def)
  moreover have "unat c - 128 \<notin> modifiers" using c(1) True by (simp add: text_key_def)
  ultimately show ?thesis using keyed_var(2) by simp
next
  case False
  have m: "scancodes_map k (unat c) \<noteq> 0" "unat c \<notin> modifiers" "unat c \<noteq> SCANCODE_ENTER" "unat c \<noteq> SCANCODE_BACKSPACE"
    using c(1) False by (auto simp: text_key_def)
  then have "k' = type_char c (press c k)"
    using r scancode_text [OF _ m(1,2) c(2)] False by (simp add: line_keys_def)
  moreover have "keyed k (press c k)" by (rule keyed_var(1) [OF m(2)])
  moreover have "kbd_inv (press c k)" using inv press_sel(1) [of c k] by simp
  ultimately show ?thesis using keyed_trans keyed_type by blast
qed

lemma keyed_keys:
  fixes k :: "'a proc_scheme"
  assumes "kbd_inv k" "no_chord k" "\<forall>c\<in>set cs. text_key k c" "process_keys cs k = Some (Ret k' 0)"
  shows "keyed k k'"
  using assms
proof (induction cs arbitrary: k)
  case Nil
  then show ?case by (simp add: keyed_def same_static_def same_keys_def only_at_def)
next
  case (Cons c cs)
  have t: "text_key k c" using Cons.prems(3) by simp
  from text_key_step [OF Cons.prems(1) t Cons.prems(2)] obtain k1 where
    k1: "scancode_processing c k = Some (Ret k1 0)" "kbd_inv k1" "same_keys k k1" by blast
  note sk = same_keysD [OF k1(3)]
  have "keyed k1 k'" using Cons.IH [OF k1(2)] Cons.prems(2-4) k1(1) sk by simp
  then show ?case using keyed_trans [OF keyed_text [OF Cons.prems(1) t Cons.prems(2) k1(1)]] by blast
qed

section \<open>The program while keys arrive\<close>

lemma keyed_region:
  fixes k k' :: "'a proc_scheme"
  assumes "keyed k k'" "layout_inv k" "video_inv k" "r \<in> set (regions k)"
    "r \<noteq> (keyboard_buffer k, 387)" "r \<noteq> (print_buffer k, 6150)" "i < snd r"
  shows "ldb k' (fst r + of_nat i) = ldb k (fst r + of_nat i)"
proof -
  obtain v where v: "kernel_map v (pg k)" using assms(3) by (auto simp: video_inv_def)
  have ik: "in_kernel (fst r) (snd r)" using assms(2,4) by (auto simp: layout_inv_def)
  have m: "fst r + of_nat i \<in> bytes_at (fst r) (snd r)" using assms(7) by (auto simp: bytes_at_def)
  have "before r s \<or> before s r" if "s \<in> {(keyboard_buffer k, 387), (print_buffer k, 6150)}" for s
    by (rule layout_pairwise [OF assms(2,4)]) (use that assms(5,6) in \<open>auto simp: regions_def\<close>)
  then have "bytes_at (fst r) (snd r) \<inter> bytes_at (fst s) (snd s) = {}" if "s \<in> {(keyboard_buffer k, 387), (print_buffer k, 6150)}" for s
    using before_disjoint [OF ik, of s] layout_invD(3,4) [OF assms(2)] that by auto
  from this [of "(keyboard_buffer k, 387)"] this [of "(print_buffer k, 6150)"] have "fst r + of_nat i \<notin> key_cells k"
    using m in_kernel_bytes(3) [OF ik m] by (auto simp: key_cells_def)
  then have "phys k' (fst r + of_nat i) = phys k (fst r + of_nat i)" using assms(1) by (simp add: keyed_def only_at_def)
  moreover have "pg k' = pg k" using assms(1) by (simp add: keyed_def same_keys_def)
  ultimately show ?thesis using in_kernel_walk(1) [OF v ik assms(7)] by (simp add: ldb_def ld_def)
qed

lemma keyed_user_byte:
  fixes k k' :: "'a proc_scheme"
  assumes "keyed k k'" "layout_inv k" "user_map k" "ubuf b 1"
  shows "ldb k' b = ldb k b"
proof -
  note t = user_walk [OF assms(3,4), of 0, simplified]
  let ?p = "user_cell (current_pid k) b"
  have "?p \<notin> key_cells k"
    using t(2) in_kernel_bytes(4) [OF layout_invD(3) [OF assms(2)], of ?p] in_kernel_bytes(4) [OF layout_invD(4) [OF assms(2)], of ?p]
    by (auto simp: key_cells_def)
  then have "phys k' ?p = phys k ?p" using assms(1) by (simp add: keyed_def only_at_def)
  moreover have "pg k' = pg k" using assms(1) by (simp add: keyed_def same_keys_def)
  ultimately show ?thesis using t(1) by (simp add: ldb_def ld_def)
qed

lemma keyed_image:
  fixes k k' :: "'a proc_scheme"
  assumes "keyed k k'" "layout_inv k" "video_inv k"
  shows "same_image k k'"
proof -
  have "image_size k mod 4096 = 0" by (simp add: image_size_def)
  then have "image_size k \<noteq> 387" "image_size k \<noteq> 6150" by auto
  then have "ldb k' (file_start k + of_nat x) = ldb k (file_start k + of_nat x)" if "x < image_size k" for x
    using keyed_region [OF assms, of "(file_start k, image_size k)" x] that by (auto simp: regions_def)
  then show ?thesis using assms(1) by (simp add: keyed_def same_static_def same_image_def)
qed

lemma keyed_user:
  fixes k k' :: "'a proc_scheme"
  assumes "user_inv img k" "keyed k k'" "kbd_inv k'"
  shows "user_inv img k'" "kview k' = (kview k)\<lparr>uout := terminal k' (active_terminal k),
    uready := (terminal_read_ready k' (active_terminal k) = 1), urow := load_list ldb k' (print_row k (active_terminal k)) 2050\<rparr>"
proof -
  obtain names where U: "sys_inv names k" "layout_inv k" "image_ok k names" "fs_ok k" "video_inv k" "user_map k"
    "pcb_fds_ok k (pcbs k (get_current_pcb k))" "running k (current_pid k)" "0 \<le> current_dir_read_index k" "image_of k = img"
    "1 \<le> current_pid k" "current_pid k < 8"
    using user_invD [OF assms(1)] by metis
  have S: "same_static k k'" "same_keys k k'" "pcbs k' = pcbs k" "process_status k' = process_status k"
    "total_running_process k' = total_running_process k" "current_pid k' = current_pid k" "arg_available k' = arg_available k"
    "current_dir_read_index k' = current_dir_read_index k" "next_interrupt k' = next_interrupt k"
    using assms(2) by (simp_all add: keyed_def)
  have T: "active_terminal k' = active_terminal k" "pg k' = pg k" "get_current_pcb k' = get_current_pcb k"
    "print_row k' = print_row k" "arg_row k' = arg_row k" "shell_name k' = shell_name k"
    using S by (simp_all add: same_keys_def same_static_def get_current_pcb_def print_row_def arg_row_def fun_eq_iff)
  note img = keyed_image [OF assms(2) U(2,5)]
  have P: "same_procs k k'" by (simp add: same_procs_def S)
  have run: "running k' = running k" by (simp add: running_def fun_eq_iff S)
  have "cstring (ldb k') (shell_name k') shell_string"
  proof -
    have "ldb k' (shell_name k + of_nat i) = ldb k (shell_name k + of_nat i)" if "i < 6" for i
      using keyed_region [OF assms(2) U(2,5), of "(shell_name k, 6)" i] that by (simp add: regions_def)
    from this this [of 5] show ?thesis using sys_invD(3) [OF U(1)] T(6) by (auto simp: cstring_def shell_string_def)
  qed
  moreover have "fds_ok k'"
    using fds_ok_same [OF img U(4)] sys_invD(6) [OF U(1)] by (simp add: fds_ok_def run S)
  moreover have "maps_task (current_pid k') (pg k')" "active_terminal k' = pcb_terminal (blk k' (current_pid k'))" "proc_inv k'"
    using sys_invD(5,7,8) [OF U(1)] same_procs_inv [OF P] by (simp_all add: S T)
  moreover have "layout_inv k'" using U(2) same_static_layout(2) [OF S(1)] by simp
  ultimately have "sys_inv names k'" using image_ok_same [OF img U(3)] assms(3) by (simp add: sys_inv_def)
  then show "user_inv img k'"
    using U(8-10) image_of_same [OF img U(3)] by (auto simp: user_inv_def run S)
  have um: "umem (kview k') = umem (kview k)"
    using keyed_user_byte [OF assms(2) U(2,6)] by (simp add: kview_def fun_eq_iff)
  have fds: "ufds (kview k') = ufds (kview k)"
    using abs_fd_same [OF img U(4)] pcb_fds_inode [OF U(7)] by (simp add: kview_def fun_eq_iff S T)
  have "ldb k' (arg_row k (current_pid k) + of_nat i) = ldb k (arg_row k (current_pid k) + of_nat i)" if "i < 4096" for i
  proof -
    have "arg_row k (current_pid k) + of_nat i = arg_buf k + of_nat (4096 * nat (current_pid k) + i)"
      using arg_row_in_kernel(2) [OF U(2)] U(11,12) by simp
    moreover have "4096 * nat (current_pid k) + i < 32768" using that U(12) by simp
    ultimately show ?thesis
      using keyed_region [OF assms(2) U(2,5), of "(arg_buf k, 32768)" "4096 * nat (current_pid k) + i"] by (simp add: regions_def add.assoc)
  qed
  then have "load_list ldb k' (arg_row k (current_pid k)) 4096 = load_list ldb k (arg_row k (current_pid k)) 4096"
    by (rule load_list_free)
  then show "kview k' = (kview k)\<lparr>uout := terminal k' (active_terminal k),
    uready := (terminal_read_ready k' (active_terminal k) = 1), urow := load_list ldb k' (print_row k (active_terminal k)) 2050\<rparr>"
    by (intro uview.equality) (use um fds in simp, simp add: kview_def S T, use um fds in simp, simp_all add: kview_def S T)
qed

section \<open>A typed line\<close>

text \<open>
  Key codes that type a line: text keys and Enter, not more than the line buffer holds. The terminal of
  the program is displayed and nothing has been typed yet.
\<close>

definition typed_line :: "'a kbd_scheme \<Rightarrow> u8 list \<Rightarrow> u8 list" where
  "typed_line k ks = concat (map (key_text k) (butlast ks)) @ [character_convert k (last ks)]"

definition types_line :: "'a kbd_scheme \<Rightarrow> u8 list \<Rightarrow> bool" where
  "types_line k ks \<longleftrightarrow> ks \<noteq> [] \<and> unat (last ks) = SCANCODE_ENTER \<and> (\<forall>c\<in>set (butlast ks). text_key k c) \<and>
     length (typed_line k ks) \<le> 128 \<and> 0 \<notin> set (typed_line k ks)"

definition console_ready :: "'a kbd_scheme \<Rightarrow> bool" where
  "console_ready k \<longleftrightarrow> no_chord k \<and> scancodes_map k SCANCODE_ENTER \<noteq> 0 \<and> display_terminal k = active_terminal k \<and>
     cursor_ind k (active_terminal k) = 0"

definition line_row :: "u8 list \<Rightarrow> u8 list" where
  "line_row L = L @ replicate (2050 - length L) 0"

lemma same_keys_line:
  assumes "same_keys k k'"
  shows "typed_line k' = typed_line k" "types_line k' = types_line k"
proof -
  show "typed_line k' = typed_line k" by (simp add: typed_line_def fun_eq_iff same_keysD [OF assms])
  then show "types_line k' = types_line k" by (simp add: types_line_def fun_eq_iff same_keysD [OF assms])
qed

lemma typed_keys:
  fixes k :: "'a proc_scheme"
  assumes inv: "user_inv img k" and r: "console_ready k" and t: "types_line k ks"
  shows "\<exists>k'. process_keys ks k = Some (Ret k' 0) \<and> user_inv img k' \<and> console_ready k' \<and> same_keys k k' \<and>
    kview k' = (kview k)\<lparr>uout := fold aterm_putc (typed_line k ks) (uout (kview k)), uready := True, urow := line_row (typed_line k ks)\<rparr>"
proof -
  define cs e L d where "cs = butlast ks" and "e = last ks" and "L = typed_line k ks" and "d = active_terminal k"
  have ks: "ks = cs @ [e]" using t by (simp add: types_line_def cs_def e_def)
  have e: "unat e = SCANCODE_ENTER" "\<forall>c\<in>set cs. text_key k c" "length L \<le> 128" "0 \<notin> set L"
    "L = concat (map (key_text k) cs) @ [character_convert k e]"
    using t by (simp_all add: types_line_def cs_def e_def L_def typed_line_def)
  have K: "kbd_inv k" and d3: "d \<in> {0, 1, 2}" unfolding d_def using user_invD [OF inv] by metis+
  have R: "no_chord k" "scancodes_map k SCANCODE_ENTER \<noteq> 0" "display_terminal k = d" "kline k d = []"
    using r by (simp_all add: console_ready_def d_def kline_def)
  let ?t = "concat (map (key_text k) cs)"
  obtain k0 where k0: "process_keys cs k = Some (Ret k0 0)" "kbd_inv k0" "same_keys k k0" "con k0 = fold (con_type d) ?t (con k)"
    using process_text [OF K R(1) e(2)] R(3) by auto
  note sk = same_keysD [OF k0(3)]
  define k1 where "k1 = type_char e (press e k0)"
  have m: "unat e \<notin> modifiers" using e(1) by (simp add: modifiers_def scancode_defs)
  have p0: "kbd_inv (press e k0)" using k0(2) press_sel(1) [of e k0] by simp
  have k1: "kbd_inv k1" "con k1 = con_type d (character_convert k e) (con k0)"
    using type_char_con [OF p0, of e] press_sel [of e k0] same_keysD [OF press_sel(3) [OF m, of k0]] sk R(3)
    by (simp_all add: k1_def)
  have key0: "keyed k k1"
    unfolding k1_def by (rule keyed_trans [OF keyed_keys [OF K R(1) e(2) k0(1)] keyed_trans [OF keyed_var(1) [OF m] keyed_type [OF p0]]])
  have sk1: "same_keys k k1" "print_row k1 = print_row k" "key_row k1 = key_row k" "display_terminal k1 = d"
    using key0 R(3) by (simp_all add: keyed_def same_keys_def print_row_def key_row_def fun_eq_iff)
  define k' where "k' = line_keys e k1"
  have "scancode_processing e k0 = Some (Ret k' 0)"
    using scancode_text [of e k0] e(1) m R(1,2) sk by (simp add: k'_def k1_def scancode_defs)
  then have ex: "process_keys ks k = Some (Ret k' 0)" using k0(1) by (simp add: ks process_keys_append)
  note row = enter_row [OF k1(1) e(1), folded k'_def]
  have key: "keyed k k'" by (rule keyed_trans [OF key0 row(1)])
  note sub = submit_con [OF k1(1) e(1), folded k'_def]
  have "con k1 = fold (con_type d) L (con k)" by (simp add: k1(2) k0(4) e(5))
  with fold_con_type [of "con k" d L] have F: "clines (con k1) d = L" "cscreens (con k1) d = fold aterm_putc L (terminal k d)"
    using R(4) e(3) d3 by simp_all
  have L1: "kline k1 d = L" using F(1) con_sel(1) [OF d3, of k1] by simp
  have "load_list ldb k' (print_row k d) 2050 = (L @ replicate (129 - length L) 0) @ replicate 1921 0"
    using row(2) kbd_invD(4) [OF k1(1) d3] L1 by (simp add: sk1)
  also have "\<dots> = line_row L" using e(3) by (simp add: line_row_def flip: replicate_add)
  finally have lr: "load_list ldb k' (print_row k d) 2050 = line_row L" .
  have c': "kline k' d = []" "terminal k' d = fold aterm_putc L (terminal k d)"
    using sub(1) F(2) con_sel [OF d3, of k'] sk1(4) by (simp_all add: con_submit_def)
  have kb: "kbd_inv k'" and rdy: "terminal_read_ready k' d = 1" using sub(1,3) sk1(4) by simp_all
  note V = keyed_user [OF inv key kb, folded d_def]
  have skk: "same_keys k k'" using key by (simp add: keyed_def)
  have "cursor_ind k' d = 0" using kbd_invD(2) [OF kb d3] c'(1) by simp
  then have "console_ready k'" using r same_keysD [OF skk] by (simp add: console_ready_def d_def)
  then show ?thesis
    using ex V skk lr rdy c'(2) by (auto simp: L_def kview_def d_def)
qed

section \<open>Refused commands\<close>

lemma regions_apart:
  assumes "layout_inv k" "kernel_map v (pg k)" "(a, m) \<in> set (regions k)" "(b, n) \<in> set (regions k)" "(a, m) \<noteq> (b, n)"
    "x + c \<le> m" "y + d \<le> n"
  shows "apart (translate k) (a + of_nat x) c (b + of_nat y) d"
proof -
  have ik: "in_kernel a m" "in_kernel b n" using assms(1,3,4) by (force simp: layout_inv_def)+
  have u: "unat (a + of_nat x) = unat a + x" "unat (b + of_nat y) = unat b + y"
    using ik assms(6,7) by (intro unat_off; simp add: in_kernel_def)+
  have "before (a, m) (b, n) \<or> before (b, n) (a, m)" by (rule layout_pairwise [OF assms(1,3-5)])
  then show ?thesis
    using ik assms(6,7) by (intro apart_in_kernel [OF assms(2)]) (auto simp: in_kernel_def before_def u)
qed

lemma layout_buffers:
  fixes k :: "'a proc_scheme"
  assumes "layout_inv k" and v: "kernel_map v (pg k)"
    and ap: "apart (translate k) (fname k) c command c" "apart (translate k) (tempBuf k) 28 command c"
      "apart (translate k) (arg_row k pid) c command c"
    and "c \<le> 4096" "0 \<le> pid" "pid < 8"
  shows "launch_layout k command c pid"
proof -
  note L = layout_invD [OF assms(1)]
  have row: "arg_row k pid = arg_buf k + of_nat (4096 * nat pid)" "in_kernel (arg_row k pid) c" "4096 * nat pid + c \<le> 32768"
    using arg_row_in_kernel [OF assms(1,7,8)] assms(6,8) by (auto simp: in_kernel_def)
  have f: "in_kernel (fname k) c" using L(5) assms(6) by (simp add: in_kernel_def)
  note A = regions_apart [OF assms(1) v]
  have fs: "apart (translate k) b d (file_start k) (image_size k)"
    if "(b0, n) \<in> set (tl (regions k))" "b = b0 + of_nat y" "y + d \<le> n" for b b0 n y d
  proof -
    have e: "(file_start k, image_size k) # tl (regions k) = regions k" by (simp add: regions_def)
    have "sorted_wrt (\<lambda>r s. before r s \<or> before s r) ((file_start k, image_size k) # tl (regions k))"
      unfolding e using assms(1) by (simp add: layout_inv_def)
    then have "before (file_start k, image_size k) (b0, n) \<or> before (b0, n) (file_start k, image_size k)"
      using that(1) by (simp only: sorted_wrt.simps)
    moreover have "in_kernel b0 n"
    proof -
      have "(b0, n) \<in> set (regions k)" using that(1) by (cases "regions k") auto
      then show ?thesis using assms(1) by (force simp: layout_inv_def)
    qed
    moreover from this have "unat b = unat b0 + y" unfolding that(2) using that(3) by (intro unat_off) (simp add: in_kernel_def)
    ultimately show ?thesis
      using L(1) that(3) by (intro apart_in_kernel [OF v]) (auto simp: before_def in_kernel_def)
  qed
  show ?thesis
    unfolding launch_layout_def Let_def
  proof (intro conjI)
    show "apart (translate k) (fname k) c (file_start k) (image_size k)"
      by (rule fs [of "fname k" 4096 _ 0]) (use assms(6) in \<open>simp_all add: regions_def\<close>)
    show "apart (translate k) (tempBuf k) 28 (file_start k) (image_size k)"
      by (rule fs [of "tempBuf k" 28 _ 0]) (simp_all add: regions_def)
    show "apart (translate k) (arg_row k pid) c (file_start k) (image_size k)"
      by (rule fs [of "arg_buf k" 32768 _ "4096 * nat pid"]) (use row in \<open>simp_all add: regions_def\<close>)
    show "apart (translate k) (tempBuf k) 28 (fname k) c"
      using A [of "tempBuf k" 28 "fname k" 4096 0 28 0 c] assms(6) by (simp add: regions_def)
    show "apart (translate k) (arg_row k pid) c (fname k) c"
      using A [of "arg_buf k" 32768 "fname k" 4096 "4096 * nat pid" c 0 c] assms(6) row by (simp add: regions_def)
    show "apart (translate k) (arg_row k pid) c (tempBuf k) 28"
      using A [of "arg_buf k" 32768 "tempBuf k" 28 "4096 * nat pid" c 0 28] row by (simp add: regions_def)
  qed (use L f row(2) ap in auto)
qed

lemma layout_launch:
  fixes k :: "'a proc_scheme"
  assumes "layout_inv k" "user_map k" "ubuf command c" "c \<le> 4096" "0 \<le> pid" "pid < 8"
  shows "launch_layout k command c pid"
proof -
  obtain v where v: "kernel_map v (pg k)" using user_mapD [OF assms(2)] by blast
  have "in_kernel (fname k) c" "in_kernel (tempBuf k) 28" "in_kernel (arg_row k pid) c"
    using layout_invD(5,6) [OF assms(1)] arg_row_in_kernel [OF assms(1,5,6)] assms(4) by (auto simp: in_kernel_def)
  from this [THEN user_apart_kernel(2) [OF assms(2,3)]] show ?thesis
    by (rule layout_buffers [OF assms(1) v _ _ _ assms(4-6)])
qed

text \<open>The name of the shell, which the keyboard driver passes.\<close>

lemma layout_shell:
  fixes k :: "'a proc_scheme"
  assumes "layout_inv k" "kernel_map v (pg k)" "0 \<le> pid" "pid < 8"
  shows "launch_layout k (shell_name k) 6 pid"
proof -
  note A = regions_apart [OF assms(1,2), of _ _ "shell_name k" 6 _ _ 0 6]
  have "apart (translate k) (fname k) 6 (shell_name k) 6"
    using A [of "fname k" 4096 0 6] by (simp add: regions_def)
  moreover have "apart (translate k) (tempBuf k) 28 (shell_name k) 6"
    using A [of "tempBuf k" 28 0 28] by (simp add: regions_def)
  moreover have "apart (translate k) (arg_row k pid) 6 (shell_name k) 6"
    using A [of "arg_buf k" 32768 "4096 * nat pid" 6] arg_row_in_kernel(2) [OF assms(1,3,4)] assms(4) by (simp add: regions_def)
  ultimately show ?thesis by (intro layout_buffers [OF assms(1,2)]) (use assms(3,4) in auto)
qed

text \<open>A step that only uses the two scratch buffers of \<^verbatim>\<open>execute\<close> is not seen by the program.\<close>

lemma scratch_view:
  fixes k k' :: "'a proc_scheme"
  assumes inv: "user_inv img k" and eq: "k' = k\<lparr>iflag := i, phys := p\<rparr>"
    and at: "only_at (bytes_at (fname k) 4096 \<union> bytes_at (tempBuf k) 28) k k'"
  shows "user_inv img k'" "kview k' = kview k" "quiet k k'"
proof -
  let ?S = "bytes_at (fname k) 4096 \<union> bytes_at (tempBuf k) 28"
  obtain names where U: "layout_inv k" "kbd_inv k" "video_inv k" "user_map k" "0 \<le> current_dir_read_index k"
    "active_terminal k \<in> {0, 1, 2}" "1 \<le> current_pid k" "current_pid k < 8" using user_invD [OF inv] by metis
  obtain v where v: "kernel_map v (pg k)" using U(3) by (auto simp: video_inv_def)
  note L = layout_invD [OF U(1)]
  have "only_at (free_cells k) k k'" by (rule only_at_mono [OF at]) (auto simp: free_cells_def)
  then show q: "quiet k k'" by (simp add: quiet_def same_static_def same_procs_def same_keys_def eq)
  have S: "0x400000 \<le> unat x" "unat x < 0x800000" if "x \<in> ?S" for x
    using that in_kernel_bytes(3,4) [OF L(5), of x] in_kernel_bytes(3,4) [OF L(6), of x] by auto
  have out: "phys k' x = phys k x" if "unat x < 0x400000 \<or> 0x800000 \<le> unat x" for x
  proof -
    have "x \<notin> ?S" using S [of x] that by auto
    then show ?thesis using at by (simp add: only_at_def)
  qed
  have scr: "terminal k' t = terminal k t" if "t \<in> {0, 1, 2}" for t
  proof -
    have "phys k' (in_page (term_frame (display_terminal k) t) off) = phys k (in_page (term_frame (display_terminal k) t) off)"
      if "off < 4096" for off
      using out [of "in_page (term_frame (display_terminal k) t) off"] term_frame_low [OF \<open>t \<in> {0, 1, 2}\<close> that, of "display_terminal k"]
      by linarith
    then show ?thesis by (auto simp: terminal_def eq intro!: frame_grid_cong)
  qed
  have um: "umem (kview k') = umem (kview k)"
    using out user_walk [OF U(4), of _ 1 0] by (auto simp: kview_def fun_eq_iff ldb_def ld_def eq)
  have row: "load_list ldb k' (b + of_nat x) n = load_list ldb k (b + of_nat x) n"
    if b: "(b, m) \<in> set (regions k)" "(b, m) \<noteq> (fname k, 4096)" "(b, m) \<noteq> (tempBuf k, 28)" "x + n \<le> m" for b m x n
  proof (rule load_list_free)
    fix j assume j: "j < n"
    let ?c = "b + of_nat x + of_nat j"
    have ik: "in_kernel b m" using U(1) b(1) by (force simp: layout_inv_def)
    have c: "?c = b + of_nat (x + j)" by (simp add: add.assoc)
    have "bytes_at b m \<inter> bytes_at c d = {}" if "(c, d) \<in> {(fname k, 4096), (tempBuf k, 28)}" for c d
      using before_disjoint [of "(b, m)" "(c, d)"] layout_pairwise [OF U(1) b(1), of "(c, d)"] ik L(5,6) that b(2,3)
      by (auto simp: regions_def)
    then have "bytes_at b m \<inter> ?S = {}" by blast
    moreover have "?c \<in> bytes_at b m" unfolding c bytes_at_def using j b(4) by (auto simp del: of_nat_add)
    ultimately have "?c \<notin> ?S" by blast
    then have "phys k' ?c = phys k ?c" using at by (simp add: only_at_def)
    moreover have "translate k ?c = Some ?c" unfolding c by (rule in_kernel_walk(1) [OF v ik]) (use j b(4) in simp)
    ultimately show "ldb k' ?c = ldb k ?c" by (simp add: ldb_def ld_def eq)
  qed
  have "load_list ldb k' (print_row k (active_terminal k)) 2050 = load_list ldb k (print_row k (active_terminal k)) 2050"
  proof -
    have "print_row k (active_terminal k) = print_buffer k + of_nat (2050 * nat (active_terminal k))"
      using U(6) by (auto simp: print_row_def PRINT_LIM_def)
    moreover have "2050 * nat (active_terminal k) + 2050 \<le> 6150" using U(6) by auto
    ultimately show ?thesis using row [of "print_buffer k" 6150 "2050 * nat (active_terminal k)" 2050] by (simp add: regions_def)
  qed
  moreover have "load_list ldb k' (arg_row k (current_pid k)) 4096 = load_list ldb k (arg_row k (current_pid k)) 4096"
    using row [of "arg_buf k" 32768 "4096 * nat (current_pid k)" 4096] arg_row_in_kernel(2) [OF U(1), of "current_pid k"] U(7,8)
    by (simp add: regions_def)
  moreover have ok: "aterm_ok (terminal k' t)" if "t \<in> {0, 1, 2}" for t using scr [OF that] kbd_invD(1) [OF U(2) that] by simp
  have "pcbs k' = pcbs k" "0 \<le> current_dir_read_index k'" using U(5) by (simp_all add: eq)
  note M = user_inv_mem [OF inv q this(1) ok this(2)]
  show "user_inv img k'" by (rule M(1))
  have "get_current_pcb k' = get_current_pcb k" "pcbs k' = pcbs k" by (simp_all add: eq get_current_pcb_def)
  then have fds: "ufds (kview k') = ufds (kview k)" using M(3) by (simp add: kview_def fun_eq_iff)
  ultimately show "kview k' = kview k"
    using um scr [OF U(6)] by (intro uview.equality) (simp_all add: kview_def eq print_row_def arg_row_def)
qed

lemma user_execute_missing:
  fixes k :: "'a proc_scheme"
  assumes inv: "user_inv img k" and cs: "cstring (umem (kview k)) a cs" "ubuf a (length cs + 1)" "length cs < 4096"
    and bad: "\<forall>e\<in>set img. uf_name e \<noteq> take 32 (takeWhile (\<lambda>c. c \<noteq> 32) cs)"
  shows "\<exists>k'. system_call dev 2 a 0 0 k = Some (Ret k' (-1)) \<and> user_inv img k' \<and> kview k' = kview k \<and> quiet k k'"
proof -
  obtain names where U: "layout_inv k" "fs_ok k" "entry_names k names" "video_inv k" "user_map k" "image_of k = img"
    using user_invD [OF inv] by metis
  obtain v where v: "kernel_map v (pg k)" using U(4) by (auto simp: video_inv_def)
  have c: "cstring (ldb k) a cs"
    using cs(1) ubuf_off(2) [OF cs(2)] by (subst cstring_cong [of cs _ a "umem (kview k)"]) (auto simp: kview_def)
  have a0: "a \<noteq> 0" using cs(2) by (auto simp: ubuf_def)
  have lay: "launch_layout k a (length cs + 1) 1" by (rule layout_launch [OF U(1,5) cs(2)]) (use cs(3) in auto)
  have "take 32 (names i) \<noteq> take 32 (takeWhile (\<lambda>c. c \<noteq> 32) cs)" if "i < nat (num_dir_entry k)" for i
    using bad uf_name_takeWhile(1) [OF U(3) that] nth_mem [of i "image_of k"] that by (auto simp: U(6) [symmetric] image_of_def)
  then have bad': "(\<forall>i<nat (num_dir_entry k). take 32 (names i) \<noteq> take 32 (takeWhile (\<lambda>c. c \<noteq> 32) cs)) \<or>
      (\<exists>i n len. names_file k names (takeWhile (\<lambda>c. c \<noteq> 32) cs) i n len \<and>
         (take 4 (header k n len) \<noteq> executable_checking \<or> get_empty_pid k = -1))" by blast
  have len: "length cs < 2 ^ 31" using cs(3) by simp
  obtain k' where k': "execute a k = Some (Ret k' (-1))" "mem_only (cli k) k'"
    "only_at (bytes_at (fname k) (length cs + 1) \<union> bytes_at (tempBuf k) 28) k k'"
    using execute_refused [OF v U(2,3) a0 c len lay refl bad'] unfolding execute_def by blast
  have e: "k' = k\<lparr>iflag := False, phys := phys k'\<rparr>" using k'(2) by (simp add: mem_only_def cli_def)
  have "only_at (bytes_at (fname k) 4096 \<union> bytes_at (tempBuf k) 28) k k'"
    by (rule only_at_mono [OF k'(3)]) (use bytes_at_mono [of "length cs + 1" 4096 "fname k"] cs(3) in auto)
  note V = scratch_view [OF inv e this]
  show ?thesis using V k'(1) unfolding system_call_def by (intro exI [of _ k']) simp
qed

section \<open>The contract of a system with a keyboard\<close>

text \<open>
  \<open>lines\<close> are the lines that will be typed, in order, one whenever the program waits for input: the
  line is echoed, and the read returns it with its newline. A command that names no file is refused
  and changes nothing the program can see.
\<close>

locale user_console = user_os os inv view img
  for os :: "'w os" and inv :: "'w \<Rightarrow> bool" and view :: "'w \<Rightarrow> uview" and img :: "ufile list" +
  fixes lines :: "'w \<Rightarrow> u8 list list"
  assumes line: "inv w \<Longrightarrow> L \<in> set (lines w) \<Longrightarrow> length L \<le> 128 \<and> 0 \<notin> set L"
    and lines_store: "inv w \<Longrightarrow> ubuf a 1 \<Longrightarrow> lines (os_store os w a c) = lines w"
    and lines_call: "inv w \<Longrightarrow> call_ok eax ebx ecx edx (view w) \<Longrightarrow> os_call os eax ebx ecx edx w = Some (w', r) \<Longrightarrow>
      lines w' = lines w"
    and typed: "inv w \<Longrightarrow> \<not> uready (view w) \<Longrightarrow> lines w = L # Ls \<Longrightarrow> length L < n \<Longrightarrow> n \<le> 2050 \<Longrightarrow> ubuf a n \<Longrightarrow>
      \<exists>w'. os_call os 3 0 a (of_nat n) w = Some (w', int (length L)) \<and> inv w' \<and> lines w' = Ls \<and>
        view w' = (set_mem a (take n (line_row L)) (view w))
          \<lparr>uout := fold aterm_putc L (uout (view w)), uready := False, urow := line_row L\<rparr>"
    and refused: "inv w \<Longrightarrow> cstring (umem (view w)) a cs \<Longrightarrow> ubuf a (length cs + 1) \<Longrightarrow> length cs < 4096 \<Longrightarrow>
      (\<forall>e\<in>set img. uf_name e \<noteq> take 32 (takeWhile (\<lambda>c. c \<noteq> 32) cs)) \<Longrightarrow>
      \<exists>w'. os_call os 2 a 0 0 w = Some (w', -1) \<and> inv w' \<and> view w' = view w \<and> lines w' = lines w"

text \<open>
  The kernel with somebody at its keyboard: the state and the key codes still to come, a list for every
  line. A call that has to wait goes on after the next line has been typed.
\<close>

definition console_trap :: "device \<Rightarrow> u32 \<Rightarrow> u32 \<Rightarrow> u32 \<Rightarrow> u32 \<Rightarrow> 'a proc_scheme \<times> u8 list list \<Rightarrow>
    (('a proc_scheme \<times> u8 list list) \<times> int) option" where
  "console_trap dev eax ebx ecx edx w =
     (case system_call dev eax ebx ecx edx (fst w) of
        Some (Ret k r) \<Rightarrow> Some ((k, snd w), r)
      | Some _ \<Rightarrow> None
      | None \<Rightarrow>
          (case snd w of
             [] \<Rightarrow> None
           | ks # rest \<Rightarrow>
               (case process_keys ks (fst w) of
                  Some (Ret k _) \<Rightarrow> map_option (\<lambda>(k, r). ((k, rest), r)) (trap dev eax ebx ecx edx k)
                | _ \<Rightarrow> None)))"

definition console_os :: "device \<Rightarrow> ('a proc_scheme \<times> u8 list list) os" where
  "console_os dev = \<lparr>os_load = (\<lambda>w. ldb (fst w)), os_store = (\<lambda>w a c. (stb (fst w) a c, snd w)), os_call = console_trap dev\<rparr>"

definition console_inv :: "ufile list \<Rightarrow> 'a proc_scheme \<times> u8 list list \<Rightarrow> bool" where
  "console_inv img w \<longleftrightarrow> user_inv img (fst w) \<and> console_ready (fst w) \<and> (\<forall>ks\<in>set (snd w). types_line (fst w) ks)"

definition console_lines :: "'a proc_scheme \<times> u8 list list \<Rightarrow> u8 list list" where
  "console_lines w = map (typed_line (fst w)) (snd w)"

lemma console_quiet:
  fixes k k' :: "'a proc_scheme"
  assumes "console_inv img (k, inp)" "user_inv img k'" "quiet k k'"
  shows "console_inv img (k', inp)" "console_lines (k', inp) = console_lines (k, inp)"
proof -
  note Q = quietD [OF assms(3)]
  have "same_keys k k'" using Q by simp
  note S = same_keys_line [OF this] same_keysD [OF this]
  show "console_inv img (k', inp)" "console_lines (k', inp) = console_lines (k, inp)"
    using assms(1,2) Q(6) by (simp_all add: console_inv_def console_ready_def console_lines_def S)
qed

lemma read_waits:
  assumes "\<not> uready (kview k)" "user_inv img k"
  shows "system_call dev 3 0 a n k = None"
proof -
  have "ufds (kview k) 0 = Fd_keyboard" using kview_ok [OF assms(2)] by (simp add: view_ok_def)
  then have "fd_read (file_array (pcbs k (get_current_pcb k)) 0) = Op_terminal_read \<and> flags (file_array (pcbs k (get_current_pcb k)) 0) \<noteq> 0"
    by (auto simp: kview_def abs_fd_def split: if_splits fop.splits)
  then show ?thesis
    using assms(1) unfolding system_call_def read_file_def 
    by (simp add: kview_def terminal_read_def terminal_read_wrapper_def Let_def sti_def get_active_terminal_def call_op_def FDT_SIZE_def)
qed

lemma console_typed:
  fixes w :: "'a proc_scheme \<times> u8 list list"
  assumes "console_inv img w" "\<not> uready (kview (fst w))" "console_lines w = L # Ls" "length L < n" "n \<le> 2050" "ubuf a n"
  shows "\<exists>w'. console_trap dev 3 0 a (of_nat n) w = Some (w', int (length L)) \<and> console_inv img w' \<and> console_lines w' = Ls \<and>
    kview (fst w') = (set_mem a (take n (line_row L)) (kview (fst w)))
      \<lparr>uout := fold aterm_putc L (uout (kview (fst w))), uready := False, urow := line_row L\<rparr>"
proof -
  obtain k ks rest where w: "w = (k, ks # rest)" "L = typed_line k ks" "Ls = map (typed_line k) rest"
    using assms(3) by (cases w; cases "snd w") (auto simp: console_lines_def)
  have inv: "user_inv img k" "console_ready k" "types_line k ks" "\<forall>ks\<in>set rest. types_line k ks"
    using assms(1) by (simp_all add: w console_inv_def)
  from typed_keys [OF inv(1-3)] obtain k1 where k1: "process_keys ks k = Some (Ret k1 0)" "user_inv img k1" "console_ready k1" "same_keys k k1"
    "kview k1 = (kview k)\<lparr>uout := fold aterm_putc L (uout (kview k)), uready := True, urow := line_row L\<rparr>"
    unfolding w(2) by blast
  note S = same_keys_line [OF k1(4)]
  have L: "length L \<le> 128" "0 \<notin> set L" using inv(3) by (simp_all add: types_line_def w)
  have tw: "takeWhile (\<lambda>c. c \<noteq> 0) (line_row L) = L"
    using L by (simp add: line_row_def takeWhile_append takeWhile_eq_all_conv)
  have z: "0 \<in> set (take n (line_row L))"
    using L(1) assms(4) by (auto simp: line_row_def in_set_conv_nth intro!: exI [of _ "length L"])
  have s: "sint (of_nat n :: u32) = int n" using assms(5) by (intro sint_of_nat_len) simp
  have kb: "ufds (kview k1) 0 = Fd_keyboard" using kview_ok [OF k1(2)] by (simp add: view_ok_def)
  have ok: "call_ok 3 0 a (of_nat n) (kview k1)"
    using assms(5,6) z s kb by (simp add: call_ok_def read_ok_def k1(5))
  have sp: "u_call img 3 0 a (of_nat n) (kview k1) =
      ((set_mem a (take n (line_row L)) (kview k))\<lparr>uout := fold aterm_putc L (uout (kview k)), uready := False, urow := line_row L\<rparr>, int (length L))"
    using kb s tw by (simp add: u_call_def u_read_def k1(5) set_mem_def)
  from system_call_refines [OF k1(2) ok, of dev] obtain k' where k': "system_call dev 3 0 a (of_nat n) k1 = Some (Ret k' (int (length L)))"
    "user_inv img k'" "quiet k1 k'"
    "kview k' = (set_mem a (take n (line_row L)) (kview k))\<lparr>uout := fold aterm_putc L (uout (kview k)), uready := False, urow := line_row L\<rparr>"
    unfolding sp by auto
  have c1: "console_inv img (k1, rest)" using k1(2,3) inv(4) S by (simp add: console_inv_def)
  have "system_call dev 3 0 a (of_nat n) k = None" using read_waits [OF _ inv(1)] assms(2) by (simp add: w)
  then have "console_trap dev 3 0 a (of_nat n) w = Some ((k', rest), int (length L))"
    using k1(1) k'(1) by (simp add: console_trap_def w trap_def)
  moreover have "console_lines (k1, rest) = Ls" by (simp add: console_lines_def w S)
  ultimately show ?thesis using console_quiet [OF c1 k'(2,3)] k'(4) by (simp add: w)
qed

interpretation cos: user_console "console_os dev" "console_inv img" "\<lambda>w. kview (fst w)" img console_lines
  for dev :: device and img
proof
  fix w :: "'a proc_scheme \<times> u8 list list" and a c L
  assume inv: "console_inv img w"
  then have u: "user_inv img (fst w)" by (simp add: console_inv_def)
  show "view_ok img (kview (fst w))" by (rule kview_ok [OF u])
  show "os_load (console_os dev) w a = umem (kview (fst w)) a" if "ubuf a 1"
    using that by (simp add: console_os_def kview_def)
  show "length L \<le> 128 \<and> 0 \<notin> set L" if "L \<in> set (console_lines w)"
    using inv that by (auto simp: console_inv_def console_lines_def types_line_def)
  show "console_inv img (os_store (console_os dev) w a c) \<and>
      kview (fst (os_store (console_os dev) w a c)) = (kview (fst w))\<lparr>umem := (umem (kview (fst w)))(a := c)\<rparr>"
    and "console_lines (os_store (console_os dev) w a c) = console_lines w" if "ubuf a 1"
  proof -
    note S = user_store [OF u, of a "[c]", folded stb_eq_store_bytes]
    have S': "user_inv img (stb (fst w) a c)" "quiet (fst w) (stb (fst w) a c)" "kview (stb (fst w) a c) = set_mem a [c] (kview (fst w))"
      using S that by simp_all
    note C = console_quiet [of img "fst w" "snd w" "stb (fst w) a c", simplified, OF inv S'(1,2)]
    show "console_inv img (os_store (console_os dev) w a c) \<and>
      kview (fst (os_store (console_os dev) w a c)) = (kview (fst w))\<lparr>umem := (umem (kview (fst w)))(a := c)\<rparr>"
      using C(1) S'(3) by (simp add: console_os_def set_mem_def)
    show "console_lines (os_store (console_os dev) w a c) = console_lines w" using C(2) by (simp add: console_os_def)
  qed
next
  fix w :: "'a proc_scheme \<times> u8 list list" and eax ebx ecx edx
  assume inv: "console_inv img w" and ok: "call_ok eax ebx ecx edx (kview (fst w))"
  have u: "user_inv img (fst w)" using inv by (simp add: console_inv_def)
  from system_call_refines [OF u ok, of dev] obtain k' where
    k': "system_call dev eax ebx ecx edx (fst w) = Some (Ret k' (snd (u_call img eax ebx ecx edx (kview (fst w)))))"
      "user_inv img k'" "kview k' = fst (u_call img eax ebx ecx edx (kview (fst w)))" "quiet (fst w) k'" by blast
  note C = console_quiet [of img "fst w" "snd w" k', simplified, OF inv k'(2,4)]
  show "\<exists>w'. os_call (console_os dev) eax ebx ecx edx w = Some (w', snd (u_call img eax ebx ecx edx (kview (fst w)))) \<and>
      console_inv img w' \<and> kview (fst w') = fst (u_call img eax ebx ecx edx (kview (fst w)))"
    using k' C(1) by (auto simp: console_os_def console_trap_def)
  show "console_lines w' = console_lines w" if "os_call (console_os dev) eax ebx ecx edx w = Some (w', r)" for w' r
    using that k'(1) C(2) by (auto simp: console_os_def console_trap_def)
next
  fix w :: "'a proc_scheme \<times> u8 list list" and L Ls n a
  assume "console_inv img w" "\<not> uready (kview (fst w))" "console_lines w = L # Ls" "length L < n" "n \<le> 2050" "ubuf a n"
  from console_typed [OF this, of dev]
  show "\<exists>w'. os_call (console_os dev) 3 0 a (of_nat n) w = Some (w', int (length L)) \<and> console_inv img w' \<and> console_lines w' = Ls \<and>
      kview (fst w') = (set_mem a (take n (line_row L)) (kview (fst w)))
        \<lparr>uout := fold aterm_putc L (uout (kview (fst w))), uready := False, urow := line_row L\<rparr>"
    by (simp add: console_os_def)
next
  fix w :: "'a proc_scheme \<times> u8 list list" and a cs
  assume inv: "console_inv img w" and r: "cstring (umem (kview (fst w))) a cs" "ubuf a (length cs + 1)" "length cs < 4096"
    "\<forall>e\<in>set img. uf_name e \<noteq> take 32 (takeWhile (\<lambda>c. c \<noteq> 32) cs)"
  have u: "user_inv img (fst w)" using inv by (simp add: console_inv_def)
  from user_execute_missing [OF u r, of dev] obtain k' where k': "system_call dev 2 a 0 0 (fst w) = Some (Ret k' (-1))"
    "user_inv img k'" "kview k' = kview (fst w)" "quiet (fst w) k'" by blast
  note C = console_quiet [of img "fst w" "snd w" k', simplified, OF inv k'(2,4)]
  show "\<exists>w'. os_call (console_os dev) 2 a 0 0 w = Some (w', -1) \<and> console_inv img w' \<and> kview (fst w') = kview (fst w) \<and>
      console_lines w' = console_lines w"
    using k' C by (auto simp: console_os_def console_trap_def)
qed

end
