(* ===== verification/UserShell.thy ===== *)
theory UserShell
  imports Console
begin

text \<open>
  The programs that talk to the keyboard: \<^verbatim>\<open>syscalls/ece391hello.c\<close>, \<^verbatim>\<open>syscalls/ece391shell.c\<close> and the menu of
  \<^verbatim>\<open>syscalls/ece391syserr.c\<close>, on a system with the contract \<open>user_console\<close>.
\<close>

section \<open>The programs\<close>

definition hello_main :: "'w os \<Rightarrow> (string \<Rightarrow> u32) \<Rightarrow> u32 \<Rightarrow> 'w \<Rightarrow> ('w \<times> int) option" where
  "hello_main os lit buf w = do {
     w \<leftarrow> ece391_fdputs os 1 (lit (''Hi, what'' @ CHR 0x27 # ''s your name? '')) w;
     (w, cnt) \<leftarrow> ece391_read os 0 buf 1023 w;
     if cnt = -1
     then do { w \<leftarrow> ece391_fdputs os 1 (lit (''Can'' @ CHR 0x27 # ''t read name from keyboard.'' @ nl)) w; Some (w, 3) }
     else do {
       let w = os_store os w (buf + word_of_int cnt) 0;
       w \<leftarrow> ece391_fdputs os 1 (lit ''Hello, '') w;
       w \<leftarrow> ece391_fdputs os 1 buf w;
       Some (w, 0)
     }
   }"

partial_function (option) shell_loop :: "'w os \<Rightarrow> (string \<Rightarrow> u32) \<Rightarrow> u32 \<Rightarrow> 'w \<Rightarrow> ('w \<times> int) option" where
  "shell_loop os lit buf w = do {
     w \<leftarrow> ece391_fdputs os 1 (lit ''391OS> '') w;
     (w, cnt) \<leftarrow> ece391_read os 0 buf 1023 w;
     if cnt = -1 then do { w \<leftarrow> ece391_fdputs os 1 (lit (''read from keyboard failed'' @ nl)) w; Some (w, 3) }
     else do {
       let cnt = (if cnt > 0 \<and> os_load os w (buf + word_of_int (cnt - 1)) = 10 then cnt - 1 else cnt);
       let w = os_store os w (buf + word_of_int cnt) 0;
       r \<leftarrow> ece391_strcmp os w buf (lit ''exit'');
       if r = 0 then Some (w, 0)
       else if os_load os w buf = 0 then shell_loop os lit buf w
       else do {
         (w, rval) \<leftarrow> ece391_execute os buf w;
         w \<leftarrow> (if rval = -1 then ece391_fdputs os 1 (lit (''no such command'' @ nl)) w
               else if rval = 256 then ece391_fdputs os 1 (lit (''program terminated by exception'' @ nl)) w
               else if rval \<noteq> 0 then ece391_fdputs os 1 (lit (''program terminated abnormally'' @ nl)) w
               else Some w);
         shell_loop os lit buf w
       }
     }
   }"

definition shell_main :: "'w os \<Rightarrow> (string \<Rightarrow> u32) \<Rightarrow> u32 \<Rightarrow> 'w \<Rightarrow> ('w \<times> int) option" where
  "shell_main os lit buf w = do {
     w \<leftarrow> ece391_fdputs os 1 (lit (''Starting 391 Shell'' @ nl)) w;
     shell_loop os lit buf w
   }"

section \<open>Output and input of a console program\<close>

text \<open>
  The calls of \<open>user_os\<close> leave the lines to come alone, so for a fixed list of them a console is a
  \<open>user_os\<close> again, and every lemma on it keeps the list.
\<close>

sublocale user_console < kept: user_os os "\<lambda>w. inv w \<and> lines w = Ls" view img for Ls
proof
  fix w a c assume w: "inv w \<and> lines w = Ls"
  show "view_ok img (view w)" using view w by blast
  show "os_load os w a = umem (view w) a" if "ubuf a 1" using load w that by blast
  show "(inv (os_store os w a c) \<and> lines (os_store os w a c) = Ls) \<and>
      view (os_store os w a c) = (view w)\<lparr>umem := (umem (view w))(a := c)\<rparr>" if "ubuf a 1"
    using store lines_store w that by blast
next
  fix w eax ebx ecx edx assume w: "inv w \<and> lines w = Ls" and ok: "call_ok eax ebx ecx edx (view w)"
  from call [OF conjunct1 [OF w] ok] lines_call [OF conjunct1 [OF w] ok] w
  show "\<exists>w'. os_call os eax ebx ecx edx w = Some (w', snd (u_call img eax ebx ecx edx (view w))) \<and> (inv w' \<and> lines w' = Ls) \<and>
      view w' = fst (u_call img eax ebx ecx edx (view w))" by blast
qed

text \<open>Memory that is the same but for a buffer.\<close>

definition outside :: "u32 \<Rightarrow> nat \<Rightarrow> (u32 \<Rightarrow> u8) \<Rightarrow> (u32 \<Rightarrow> u8) \<Rightarrow> bool" where
  "outside buf n m m' \<longleftrightarrow> (\<forall>x. (\<forall>i<n. x \<noteq> buf + of_nat i) \<longrightarrow> m' x = m x)"

lemma outside_refl [simp]: "outside buf n m m"
  by (simp add: outside_def)

lemma outside_trans: "outside buf n m m' \<Longrightarrow> outside buf n m' m'' \<Longrightarrow> outside buf n m m''"
  by (simp add: outside_def)

lemma outside_put: "length vs \<le> n \<Longrightarrow> outside buf n m (put_bytes buf vs m)"
  unfolding outside_def by (meson put_bytes_out order.strict_trans2)

lemma outside_upd: "i < n \<Longrightarrow> outside buf n m (m(buf + of_nat i := v))"
  by (auto simp: outside_def)

text \<open>Two buffers that do not overlap.\<close>

definition disjoint_bufs :: "u32 \<Rightarrow> nat \<Rightarrow> u32 \<Rightarrow> nat \<Rightarrow> bool" where
  "disjoint_bufs a m b n \<longleftrightarrow> unat a + m \<le> unat b \<or> unat b + n \<le> unat a"

lemma outside_far:
  assumes "outside b n m m'" "ubuf a k" "ubuf b n" "disjoint_bufs a k b n" "i < k"
  shows "m' (a + of_nat i) = m (a + of_nat i)"
proof -
  have "a + of_nat i \<noteq> b + of_nat j" if "j < n" for j
    using ubuf_off(1) [OF assms(2,5)] ubuf_off(1) [OF assms(3) that] assms(4,5) that by (auto simp: disjoint_bufs_def)
  then show ?thesis using assms(1) by (simp add: outside_def)
qed

lemma cstring_outside:
  assumes "cstring m a cs" "ubuf a (length cs + 1)" "ubuf buf n" "outside buf n m m'"
    "unat buf + n \<le> unat a \<or> unat a + length cs + 1 \<le> unat buf"
  shows "cstring m' a cs"
proof -
  have "m' (a + of_nat j) = m (a + of_nat j)" if "j \<le> length cs" for j
  proof -
    have "unat (a + of_nat j) = unat a + j" using ubuf_off(1) [OF assms(2)] that by simp
    then have "a + of_nat j \<noteq> buf + of_nat i" if "i < n" for i
      using ubuf_off(1) [OF assms(3) that] assms(5) \<open>j \<le> length cs\<close> that by auto
    then show ?thesis using assms(4) by (simp add: outside_def)
  qed
  then show ?thesis using assms(1) by (subst cstring_cong [of cs _ a m]) auto
qed

lemma literals_outside:
  assumes "literals lit ss m" "away lit ss buf n" "ubuf buf n" "outside buf n m m'"
  shows "literals lit ss m'"
  using assms cstring_outside [OF _ _ assms(3,4), of "lit s" "chars s" for s] by (simp add: literals_def away_def)

lemma cstring_head:
  assumes "cstring f a cs"
  shows "f a = (if cs = [] then 0 else hd cs)"
  using assms by (cases cs) (simp, simp add: cstring_Cons(1))

text \<open>The line in the buffer, cut off at some position.\<close>

lemma line_string:
  assumes "0 \<notin> set L" "length L \<le> 128" "n \<le> length L" "ubuf buf 1024"
    and m: "m = (put_bytes buf (take 1023 (line_row L)) m0)(buf + of_nat n := 0)"
  shows "cstring m buf (take n L)" "outside buf 1024 m0 m"
proof -
  have len: "length (take 1023 (line_row L)) = 1023" using assms(2) by (simp add: line_row_def)
  have b: "m (buf + of_nat i) = (if i = n then 0 else take 1023 (line_row L) ! i)" if "i < 1023" for i
  proof -
    have "buf + of_nat i \<noteq> buf + of_nat n" if "i \<noteq> n"
      using that \<open>i < 1023\<close> assms(2,3) ubuf_off(1) [OF assms(4), of i] ubuf_off(1) [OF assms(4), of n] by auto
    then show ?thesis using put_bytes_in [of i "take 1023 (line_row L)" buf m0] that len by (auto simp: m)
  qed
  show "cstring m buf (take n L)"
    using assms(1-3) b by (auto simp: cstring_def line_row_def nth_append dest: in_set_takeD)
  show "outside buf 1024 m0 m"
    unfolding m by (rule outside_trans [OF outside_put outside_upd]) (use len assms(2,3) in simp_all)
qed

context user_console
begin

lemma puts_lit_con:
  assumes "inv w" "literals lit ss (umem (view w))" "s \<in> set ss"
  shows "\<exists>w'. ece391_fdputs os 1 (lit s) w = Some w' \<and> inv w' \<and> lines w' = lines w \<and> view w' = u_puts (chars s) (view w)"
  using kept.puts_lit [of w "lines w" lit ss s] assms by auto

lemma puts_buf_con:
  assumes "inv w" "cstring (umem (view w)) s cs" "ubuf s (length cs + 1)" "length cs < 2050"
  shows "\<exists>w'. ece391_fdputs os 1 s w = Some w' \<and> inv w' \<and> lines w' = lines w \<and> view w' = u_puts cs (view w)"
  using kept.fdputs_ok [of w "lines w" s cs] assms by auto

lemma store_con:
  assumes "inv w" "ubuf a n" "i < n"
  shows "inv (os_store os w (a + of_nat i) c)" "lines (os_store os w (a + of_nat i) c) = lines w"
    "view (os_store os w (a + of_nat i) c) = (view w)\<lparr>umem := (umem (view w))(a + of_nat i := c)\<rparr>"
  using store [OF assms(1) ubuf_off(2) [OF assms(2,3)], of c] lines_store [OF assms(1) ubuf_off(2) [OF assms(2,3)], of c] by auto

lemma read_line:
  assumes "inv w" "\<not> uready (view w)" "lines w = L # Ls" "ubuf buf n" "length L < n" "n \<le> 2050"
  shows "\<exists>w'. ece391_read os 0 buf (int n) w = Some (w', int (length L)) \<and> inv w' \<and> lines w' = Ls \<and>
    view w' = (set_mem buf (take n (line_row L)) (view w))
      \<lparr>uout := fold aterm_putc L (uout (view w)), uready := False, urow := line_row L\<rparr>"
  using typed [OF assms(1-3,5,6,4)] by (simp add: ece391_read_def)

text \<open>The greeting repeats the name that was typed.\<close>

lemma hello_greets:
  assumes "inv w" "\<not> uready (view w)" "lines w = L # Ls" "ubuf buf 1024"
    and ss: "ss = [''Hi, what'' @ CHR 0x27 # ''s your name? '', ''Hello, '']"
    and lit: "literals lit ss (umem (view w))" "away lit ss buf 1024"
  shows "\<exists>w'. hello_main os lit buf w = Some (w', 0) \<and> inv w' \<and> lines w' = Ls \<and>
    uout (view w') = fold aterm_putc (chars (''Hi, what'' @ CHR 0x27 # ''s your name? '') @ L @ chars ''Hello, '' @ L) (uout (view w))"
proof -
  have L: "length L \<le> 128" "0 \<notin> set L" using line [OF assms(1), of L] assms(3) by simp_all
  obtain w1 where w1: "ece391_fdputs os 1 (lit (ss ! 0)) w = Some w1" "inv w1" "lines w1 = L # Ls" "view w1 = u_puts (chars (ss ! 0)) (view w)"
    using puts_lit_con [OF assms(1) lit(1), of "ss ! 0"] assms(3) by (auto simp: ss simp del: append.simps)
  obtain w2 where w2: "ece391_read os 0 buf (int 1023) w1 = Some (w2, int (length L))" "inv w2" "lines w2 = Ls"
    "view w2 = (set_mem buf (take 1023 (line_row L)) (view w1))\<lparr>uout := fold aterm_putc L (uout (view w1)), uready := False, urow := line_row L\<rparr>"
    using read_line [OF w1(2) _ w1(3), of buf 1023] ubuf_mono [OF assms(4), of 1023] assms(2) w1(4) L(1) by auto
  define w3 where "w3 = os_store os w2 (buf + of_nat (length L)) 0"
  have w3: "inv w3" "lines w3 = Ls" "view w3 = (view w2)\<lparr>umem := (umem (view w2))(buf + of_nat (length L) := 0)\<rparr>"
    using store_con [OF w2(2) assms(4), of "length L" 0] L(1) w2(3) by (simp_all add: w3_def)
  have m: "umem (view w3) = (put_bytes buf (take 1023 (line_row L)) (umem (view w)))(buf + of_nat (length L) := 0)"
    by (simp add: w3(3) w2(4) w1(4) set_mem_def)
  note S = line_string [OF L(2,1) le_refl assms(4) m]
  obtain w4 where w4: "ece391_fdputs os 1 (lit (ss ! 1)) w3 = Some w4" "inv w4" "lines w4 = Ls" "view w4 = u_puts (chars (ss ! 1)) (view w3)"
    using puts_lit_con [OF w3(1) literals_outside [OF lit assms(4) S(2)], of "ss ! 1"] w3(2) by (auto simp: ss simp del: append.simps)
  have "cstring (umem (view w4)) buf L" using S(1) by (simp add: w4(4))
  then obtain w5 where w5: "ece391_fdputs os 1 buf w4 = Some w5" "inv w5" "lines w5 = Ls" "view w5 = u_puts L (view w4)"
    using puts_buf_con [OF w4(2), of buf L] ubuf_mono [OF assms(4)] L(1) w4(3) by auto
  have "hello_main os lit buf w = Some (w5, 0)"
    using w1(1) w2(1) w4(1) w5(1) by (simp add: hello_main_def ss w3_def del: append.simps)
  then show ?thesis
    using w5 by (simp add: w4(4) w3(3) w2(4) w1(4) set_mem_def ss del: append.simps)
qed

end

text \<open>
  A session: empty lines and commands that name no file, and at last \<^verbatim>\<open>exit\<close>. Every line is answered
  by the prompt, its echo and, for an unknown command, the message.
\<close>

definition shell_reply :: "u8 list \<Rightarrow> u8 list" where
  "shell_reply cs = chars ''391OS> '' @ cs @ [10] @ (if cs = [] then [] else chars (''no such command'' @ nl))"

definition shell_strings :: "string list" where
  "shell_strings = [''391OS> '', ''exit'', ''no such command'' @ nl, ''Starting 391 Shell'' @ nl]"

definition unknown_command :: "ufile list \<Rightarrow> u8 list \<Rightarrow> bool" where
  "unknown_command img cs \<longleftrightarrow> cs \<noteq> chars ''exit'' \<and>
     (cs \<noteq> [] \<longrightarrow> (\<forall>e\<in>set img. uf_name e \<noteq> take 32 (takeWhile (\<lambda>c. c \<noteq> 32) cs)))"

context user_console
begin

text \<open>One turn of the loop up to the comparison with \<^verbatim>\<open>exit\<close>.\<close>

lemma shell_turn:
  assumes "inv w" "\<not> uready (view w)" "lines w = (cs @ [10]) # Ls" "ubuf buf 1024"
    and lit: "literals lit shell_strings (umem (view w))" "away lit shell_strings buf 1024"
  shows "\<exists>w'. inv w' \<and> \<not> uready (view w') \<and> lines w' = Ls \<and>
    cstring (umem (view w')) buf cs \<and> os_load os w' buf = (if cs = [] then 0 else hd cs) \<and>
    literals lit shell_strings (umem (view w')) \<and> 0 \<notin> set cs \<and> length cs < 128 \<and>
    uout (view w') = fold aterm_putc (chars ''391OS> '' @ cs @ [10]) (uout (view w)) \<and>
    shell_loop os lit buf w =
      (if cs = chars ''exit'' then Some (w', 0)
       else if os_load os w' buf = 0 then shell_loop os lit buf w'
       else do {
         (w, rval) \<leftarrow> ece391_execute os buf w';
         w \<leftarrow> (if rval = -1 then ece391_fdputs os 1 (lit (''no such command'' @ nl)) w
               else if rval = 256 then ece391_fdputs os 1 (lit (''program terminated by exception'' @ nl)) w
               else if rval \<noteq> 0 then ece391_fdputs os 1 (lit (''program terminated abnormally'' @ nl)) w
               else Some w);
         shell_loop os lit buf w
       })"
proof -
  define L where "L = cs @ [10 :: u8]"
  define n where "n = length cs"
  have L: "length L \<le> 128" "0 \<notin> set L" using line [OF assms(1), of L] assms(3) by (simp_all add: L_def)
  have n: "n \<le> length L" "take n L = cs" "length L = n + 1" "n < 128" using L(1) by (simp_all add: L_def n_def)
  obtain w1 where w1: "ece391_fdputs os 1 (lit ''391OS> '') w = Some w1" "inv w1" "lines w1 = L # Ls" "view w1 = u_puts (chars ''391OS> '') (view w)"
    using puts_lit_con [OF assms(1) lit(1), of "''391OS> ''"] assms(3) by (auto simp: shell_strings_def L_def)
  obtain w2 where w2: "ece391_read os 0 buf (int 1023) w1 = Some (w2, int (length L))" "inv w2" "lines w2 = Ls"
    "view w2 = (set_mem buf (take 1023 (line_row L)) (view w1))\<lparr>uout := fold aterm_putc L (uout (view w1)), uready := False, urow := line_row L\<rparr>"
    using read_line [OF w1(2) _ w1(3), of buf 1023] ubuf_mono [OF assms(4), of 1023] assms(2) w1(4) L(1) by auto
  have "os_load os w2 (buf + of_nat n) = take 1023 (line_row L) ! n"
    using load [OF w2(2) ubuf_off(2) [OF assms(4), of n]] n(4) put_bytes_in [of n "take 1023 (line_row L)" buf "umem (view w)"]
    by (simp add: w2(4) w1(4) set_mem_def line_row_def)
  also have "\<dots> = 10" using n(3,4) by (simp add: line_row_def L_def n_def nth_append)
  finally have nl: "os_load os w2 (buf + of_nat n) = 10" .
  define w3 where "w3 = os_store os w2 (buf + of_nat n) 0"
  have w3: "inv w3" "lines w3 = Ls" "view w3 = (view w2)\<lparr>umem := (umem (view w2))(buf + of_nat n := 0)\<rparr>"
    using store_con [OF w2(2) assms(4), of n 0] n(4) w2(3) by (simp_all add: w3_def)
  have m: "umem (view w3) = (put_bytes buf (take 1023 (line_row L)) (umem (view w)))(buf + of_nat n := 0)"
    by (simp add: w3(3) w2(4) w1(4) set_mem_def)
  note S = line_string [OF L(2,1) n(1) assms(4) m, unfolded n(2)]
  have lit3: "literals lit shell_strings (umem (view w3))" by (rule literals_outside [OF lit assms(4) S(2)])
  have ub: "ubuf buf (length cs + 1)" using ubuf_mono [OF assms(4), of "n + 1"] n(4) by (simp add: n_def)
  have ex: "cstring (umem (view w3)) (lit ''exit'') (chars ''exit'')" "ubuf (lit ''exit'') (length (chars ''exit'') + 1)"
    using lit3 by (simp_all add: literals_def shell_strings_def)
  obtain r where r: "ece391_strcmp os w3 buf (lit ''exit'') = Some r" "r = 0 \<longleftrightarrow> cs = chars ''exit''"
    using strcmp_ok [OF w3(1) S(1) ub ex] by blast
  have hd: "os_load os w3 buf = (if cs = [] then 0 else hd cs)"
    using load [OF w3(1), of buf] ubuf_mono [OF assms(4), of 1] cstring_head [OF S(1)] by simp
  have out: "uout (view w3) = fold aterm_putc (chars ''391OS> '' @ cs @ [10]) (uout (view w))"
    by (simp add: w3(3) w2(4) w1(4) set_mem_def L_def)
  have "shell_loop os lit buf w =
      (if cs = chars ''exit'' then Some (w3, 0)
       else if os_load os w3 buf = 0 then shell_loop os lit buf w3
       else do {
         (w, rval) \<leftarrow> ece391_execute os buf w3;
         w \<leftarrow> (if rval = -1 then ece391_fdputs os 1 (lit (''no such command'' @ nl)) w
               else if rval = 256 then ece391_fdputs os 1 (lit (''program terminated by exception'' @ nl)) w
               else if rval \<noteq> 0 then ece391_fdputs os 1 (lit (''program terminated abnormally'' @ nl)) w
               else Some w);
         shell_loop os lit buf w
       })"
    unfolding shell_loop.simps [of os lit buf w]
    using w1(1) w2(1) nl r n(3) by (simp add: w3_def)
  then show ?thesis
    using w3(1,2) S(1) hd lit3 L(2) n(4) out by (intro exI [of _ w3]) (simp add: w3(3) w2(4) L_def n_def)
qed

lemma shell_session:
  assumes "inv w" "\<not> uready (view w)" "lines w = map (\<lambda>cs. cs @ [10]) (css @ [chars ''exit'']) @ Ls" "ubuf buf 1024"
    and lit: "literals lit shell_strings (umem (view w))" "away lit shell_strings buf 1024"
    and css: "\<forall>cs\<in>set css. unknown_command img cs"
  shows "\<exists>w'. shell_loop os lit buf w = Some (w', 0) \<and> inv w' \<and> lines w' = Ls \<and>
    uout (view w') = fold aterm_putc (concat (map shell_reply css) @ chars ''391OS> '' @ chars ''exit'' @ [10]) (uout (view w))"
  using assms(1-3,5,7)
proof (induction css arbitrary: w)
  case Nil
  then show ?case using shell_turn [of w "chars ''exit''" Ls buf lit] assms(4,6) by auto
next
  case (Cons cs css)
  let ?Ls = "map (\<lambda>cs. cs @ [10]) (css @ [chars ''exit'']) @ Ls"
  have u: "unknown_command img cs" "\<forall>cs\<in>set css. unknown_command img cs" using Cons.prems(5) by simp_all
  have ln: "lines w = (cs @ [10]) # ?Ls" using Cons.prems(3) by simp
  obtain w1 where w1: "inv w1" "\<not> uready (view w1)" "lines w1 = ?Ls"
    "cstring (umem (view w1)) buf cs" "os_load os w1 buf = (if cs = [] then 0 else hd cs)"
    "literals lit shell_strings (umem (view w1))" "0 \<notin> set cs" "length cs < 128"
    "uout (view w1) = fold aterm_putc (chars ''391OS> '' @ cs @ [10]) (uout (view w))"
    "shell_loop os lit buf w = (if cs = chars ''exit'' then Some (w1, 0)
       else if os_load os w1 buf = 0 then shell_loop os lit buf w1
       else do {
         (w, rval) \<leftarrow> ece391_execute os buf w1;
         w \<leftarrow> (if rval = -1 then ece391_fdputs os 1 (lit (''no such command'' @ nl)) w
               else if rval = 256 then ece391_fdputs os 1 (lit (''program terminated by exception'' @ nl)) w
               else if rval \<noteq> 0 then ece391_fdputs os 1 (lit (''program terminated abnormally'' @ nl)) w
               else Some w);
         shell_loop os lit buf w
       })"
    using shell_turn [OF Cons.prems(1,2) ln assms(4) Cons.prems(4) assms(6)] by blast
  have r: "cs \<noteq> chars ''exit''" using u(1) by (simp add: unknown_command_def)
  show ?case
  proof (cases "cs = []")
    case True
    then show ?thesis using Cons.IH [OF w1(1-3,6) u(2)] w1(5,9,10) r by (auto simp: shell_reply_def)
  next
    case False
    have ne: "os_load os w1 buf \<noteq> 0" using w1(5,7) False by (metis hd_in_set)
    have "ubuf buf (length cs + 1)" using ubuf_mono [OF assms(4)] w1(8) by simp
    from refused [OF w1(1,4) this] obtain w2 where w2: "ece391_execute os buf w1 = Some (w2, -1)" "inv w2" "view w2 = view w1" "lines w2 = ?Ls"
      using u(1) w1(8,3) False by (auto simp: ece391_execute_def unknown_command_def)
    obtain w3 where w3: "ece391_fdputs os 1 (lit (''no such command'' @ nl)) w2 = Some w3" "inv w3" "lines w3 = ?Ls"
      "view w3 = u_puts (chars (''no such command'' @ nl)) (view w2)"
      using puts_lit_con [OF w2(2), of lit shell_strings "''no such command'' @ nl"] w1(6) w2(3,4)
      by (auto simp: shell_strings_def simp del: append.simps)
    have "shell_loop os lit buf w = shell_loop os lit buf w3"
      unfolding w1(10) using r ne w2(1) w3(1) by simp
    moreover have "\<not> uready (view w3)" "literals lit shell_strings (umem (view w3))"
      "uout (view w3) = fold aterm_putc (shell_reply cs) (uout (view w))"
      using w1(2,6,9) w2(3) w3(4) False by (simp_all add: shell_reply_def)
    ultimately show ?thesis using Cons.IH [OF w3(2) _ w3(3) _ u(2)] by auto
  qed
qed

lemma shell_runs:
  assumes "inv w" "\<not> uready (view w)" "lines w = map (\<lambda>cs. cs @ [10]) (css @ [chars ''exit'']) @ Ls" "ubuf buf 1024"
    and lit: "literals lit shell_strings (umem (view w))" "away lit shell_strings buf 1024"
    and css: "\<forall>cs\<in>set css. unknown_command img cs"
  shows "\<exists>w'. shell_main os lit buf w = Some (w', 0) \<and> inv w' \<and> lines w' = Ls \<and>
    uout (view w') = fold aterm_putc (chars (''Starting 391 Shell'' @ nl) @ concat (map shell_reply css) @
      chars ''391OS> '' @ chars ''exit'' @ [10]) (uout (view w))"
proof -
  obtain w1 where w1: "ece391_fdputs os 1 (lit (''Starting 391 Shell'' @ nl)) w = Some w1" "inv w1" "lines w1 = lines w"
    "view w1 = u_puts (chars (''Starting 391 Shell'' @ nl)) (view w)"
    using puts_lit_con [OF assms(1,5), of "''Starting 391 Shell'' @ nl"] by (auto simp: shell_strings_def simp del: append.simps)
  have "\<not> uready (view w1)" "literals lit shell_strings (umem (view w1))" using assms(2,5) w1(4) by simp_all
  from shell_session [OF w1(2) this(1) assms(3) [folded w1(3)] assms(4) this(2) assms(6,7)] show ?thesis
    using w1(1,4) by (auto simp: shell_main_def simp del: append.simps)
qed

end

context user_console
begin

text \<open>The menu of the system call tests: a line that begins with \<^verbatim>\<open>0\<close> runs all of them.\<close>

lemma syserr_all:
  assumes "inv w" "\<not> uready (view w)" "lines w = (48 # cs) # Ls" "length cs < 126" "ubuf buf 127"
    and ss: "ss = ''Choose from tests 1-8. 0 to run all: '' # [''.'', ''helloo'', ''shel'', ''''] @ pass_lines"
    and lit: "literals lit ss (umem (view w))" "away lit ss buf 127"
    and img: "find (\<lambda>e. uf_name e = chars ''.'') img = Some e" "uf_type e = 1"
      "\<forall>e\<in>set img. uf_name e \<notin> set [chars ''helloo'', chars ''shel'', []]"
    and fds: "\<forall>i. 2 \<le> i \<and> i < 8 \<longrightarrow> ufds (view w) i = Fd_closed"
  shows "\<exists>w'. syserr_main os lit buf tbuf ebx ecx edx w = Some (w', 0) \<and> inv w' \<and> lines w' = Ls \<and>
    uout (view w') = fold aterm_putc (chars ''Choose from tests 1-8. 0 to run all: '' @ (48 # cs) @ chars (concat pass_lines)) (uout (view w))"
proof -
  let ?c = "''Choose from tests 1-8. 0 to run all: ''" and ?L = "48 # cs"
  obtain w1 where w1: "ece391_fdputs os 1 (lit ?c) w = Some w1" "inv w1" "lines w1 = lines w" "view w1 = u_puts (chars ?c) (view w)"
    using puts_lit_con [OF assms(1) lit(1), of ?c] by (auto simp: ss)
  obtain w2 where w2: "ece391_read os 0 buf (int 127) w1 = Some (w2, int (length ?L))" "inv w2" "lines w2 = Ls"
    "view w2 = (set_mem buf (take 127 (line_row ?L)) (view w1))\<lparr>uout := fold aterm_putc ?L (uout (view w1)), uready := False, urow := line_row ?L\<rparr>"
    using read_line [OF w1(2), of ?L Ls buf 127] assms(2-5) w1(3,4) by auto
  have "umem (view w2) (buf + of_nat 0) = take 127 (line_row ?L) ! 0"
    using put_bytes_in [of 0 "take 127 (line_row ?L)" buf "umem (view w)"] by (simp add: w2(4) w1(4) set_mem_def line_row_def)
  then have b: "os_load os w2 buf = 48" using load [OF w2(2), of buf] ubuf_mono [OF assms(5), of 1] by (simp add: line_row_def)
  have "outside buf 127 (umem (view w)) (umem (view w2))" by (simp add: w2(4) w1(4) set_mem_def outside_put)
  from literals_outside [OF lit assms(5) this]
  have "literals lit ([''.'', ''helloo'', ''shel'', ''''] @ pass_lines) (umem (view w2))" by (simp add: literals_def ss)
  moreover have "\<forall>i. 2 \<le> i \<and> i < 8 \<longrightarrow> ufds (view w2) i = Fd_closed" using fds by (simp add: w2(4) w1(4) set_mem_def)
  ultimately obtain w' where w': "run_all os lit tbuf ebx ecx edx w2 = Some (w', 0)" "inv w'" "lines w' = Ls"
    "printed (concat pass_lines) (view w2) (view w')"
    using kept.run_all_pass [of w2 Ls lit e] w2(2,3) img by blast
  have "syserr_main os lit buf tbuf ebx ecx edx w = Some (w', 0)"
    using w1(1) w2(1) b w'(1) by (simp add: syserr_main_def)
  then show ?thesis using w'(2-4) by (simp add: printed_def w2(4) w1(4) set_mem_def)
qed

end

end
