(* ===== verification/UserCount.thy ===== *)
theory UserCount
  imports UserShell
begin

text \<open>
  Numbers: \<^verbatim>\<open>ece391_itoa\<close> of the support library writes the numeral the kernel's \<^verbatim>\<open>itoa\<close> writes, and
  \<^verbatim>\<open>syscalls/ece391counter.c\<close> counts to the limit that was chosen.
\<close>

section \<open>itoa of the support library\<close>

lemma mem_id [simp]: "st Some m a v = m(a := v)" "ld Some m = m"
  by (simp_all add: st_def ld_def fun_eq_iff)

context user_os
begin

lemma store_at:
  assumes "inv w" "ubuf a n" "i < n"
  shows "inv (os_store os w (a + of_nat i) c)"
    "view (os_store os w (a + of_nat i) c) = (view w)\<lparr>umem := (umem (view w))(a + of_nat i := c)\<rparr>"
  using store [OF assms(1) ubuf_off(2) [OF assms(2,3)]] by blast+

text \<open>The three loops run on the memory of the program as the kernel's do on theirs.\<close>

lemma digit_loop_ok:
  assumes "inv w" "2 \<le> unat radix" "ubuf buf (length (digits (unat radix) (unat v)) + 1)"
  shows "\<exists>w'. digit_loop os buf v radix w = Some w' \<and> inv w' \<and>
    view w' = (view w)\<lparr>umem := store_list (st Some) (umem (view w)) buf (map ((!) lookup) (digits (unat radix) (unat v)) @ [0])\<rparr>"
  using assms(1,3)
proof (induction "unat v" arbitrary: w buf v rule: less_induct)
  case less
  show ?case
  proof (cases "v = 0")
    case True
    then show ?thesis using store_at [OF less.prems(1), of buf 1 0 0] less.prems(2) by (subst digit_loop.simps) simp
  next
    case False
    have r: "radix \<noteq> 0" using assms(2) by auto
    have u: "unat (v div radix) = unat v div unat radix" "unat (v mod radix) = unat v mod unat radix"
      by (simp_all add: unat_div unat_mod)
    have v: "unat v \<noteq> 0" using False by (simp add: unat_eq_0)
    let ?d = "digits (unat radix) (unat v)" and ?d' = "digits (unat radix) (unat (v div radix))"
    have d: "?d = unat (v mod radix) # ?d'" using digits_step [OF v assms(2)] by (simp add: u)
    define c where "c = lookup ! unat (v mod radix)"
    define w1 where "w1 = os_store os w buf c"
    have ub: "ubuf buf 1" "ubuf (buf + 1) (length ?d' + 1)" using less.prems(2) ubuf_Cons by (auto simp: d)
    have w1: "inv w1" "view w1 = (view w)\<lparr>umem := (umem (view w))(buf := c)\<rparr>"
      using store [OF less.prems(1) ub(1), of c] by (simp_all add: w1_def)
    have lt: "unat (v div radix) < unat v" using v assms(2) by (simp add: u div_less_dividend)
    from less.hyps [OF lt w1(1) ub(2)] obtain w' where w': "digit_loop os (buf + 1) (v div radix) radix w1 = Some w'" "inv w'"
      "view w' = (view w1)\<lparr>umem := store_list (st Some) (umem (view w1)) (buf + 1) (map ((!) lookup) ?d' @ [0])\<rparr>" by blast
    have "digit_loop os buf v radix w = Some w'"
      using w'(1) r False by (subst digit_loop.simps) (simp add: w1_def c_def word_neq_0_conv)
    then show ?thesis using w'(2,3) by (simp add: d w1(2) c_def)
  qed
qed

lemma swap_loop_ok:
  assumes "inv w" "ubuf s n" "0 \<le> b" "e < int n"
  shows "inv (swap_loop os s b e w) \<and>
    view (swap_loop os s b e w) = (view w)\<lparr>umem := strrev_loop Some (umem (view w)) s b e\<rparr>"
  using assms(1,3,4)
proof (induction "nat (e - b)" arbitrary: w b e rule: less_induct)
  case less
  show ?case
  proof (cases "b < e")
    case False
    then show ?thesis using less.prems(1) by (simp add: swap_loop.simps [of os] strrev_loop.simps [of Some])
  next
    case True
    define i j where "i = nat b" and "j = nat e"
    have ij: "i < n" "j < n" "b = int i" "e = int j" using True less.prems(2,3) by (auto simp: i_def j_def)
    define w1 where "w1 = os_store os w (s + of_nat j) (os_load os w (s + of_nat i))"
    define w2 where "w2 = os_store os w1 (s + of_nat i) (os_load os w (s + of_nat j))"
    have l: "os_load os w (s + of_nat i) = umem (view w) (s + of_nat i)" "os_load os w (s + of_nat j) = umem (view w) (s + of_nat j)"
      using load_eq [OF less.prems(1) assms(2)] ij by simp_all
    have w1: "inv w1" "view w1 = (view w)\<lparr>umem := (umem (view w))(s + of_nat j := umem (view w) (s + of_nat i))\<rparr>"
      unfolding w1_def l by (rule store_at [OF less.prems(1) assms(2) ij(2)])+
    have w2: "inv w2" "view w2 = (view w1)\<lparr>umem := (umem (view w1))(s + of_nat i := umem (view w) (s + of_nat j))\<rparr>"
      unfolding w2_def l by (rule store_at [OF w1(1) assms(2) ij(1)])+
    have "swap_loop os s b e w = swap_loop os s (b + 1) (e - 1) w2"
      using True by (subst swap_loop.simps) (simp add: w1_def w2_def ij Let_def)
    moreover have "strrev_loop Some (umem (view w)) s b e = strrev_loop Some (umem (view w2)) s (b + 1) (e - 1)"
      using True by (subst strrev_loop.simps) (simp add: w2(2) w1(2) ij Let_def)
    moreover have "nat (e - 1 - (b + 1)) < nat (e - b)" using True by simp
    ultimately show ?thesis using less.hyps [of "e - 1" "b + 1" w2] w2 w1 less.prems by simp
  qed
qed

lemma strrev_ok:
  assumes "inv w" "cstring (umem (view w)) s cs" "ubuf s (length cs + 1)" "strrev_p Some (umem (view w)) s = Some p'"
  shows "\<exists>w'. ece391_strrev os s w = Some w' \<and> inv w' \<and> view w' = (view w)\<lparr>umem := p'\<rparr>"
proof -
  let ?e = "sint (of_nat (length cs) - 1 :: u32)"
  have len: "length cs < 2 ^ 31" using assms(3) by (simp add: ubuf_def)
  have e: "?e = int (length cs) - 1" by (rule sint_len_minus_1 [OF len])
  have p': "p' = strrev_loop Some (umem (view w)) s 0 ?e"
    using assms(4) strlen_p_cstring [of Some "umem (view w)" s cs] assms(2) by (simp add: strrev_p_def)
  have "ece391_strrev os s w = Some (if ?e \<le> 0 then w else swap_loop os s 0 ?e w)"
    using strlen_ok [OF assms(1-3)] by (simp add: ece391_strrev_def)
  moreover have "strrev_loop Some (umem (view w)) s 0 ?e = umem (view w)" if "?e \<le> 0"
    using that by (subst strrev_loop.simps) simp
  moreover have "?e < int (length cs + 1)" using e by simp
  ultimately show ?thesis
    using swap_loop_ok [OF assms(1,3), of 0 ?e] assms(1) by (auto simp: p')
qed

lemma itoa_ok:
  assumes "inv w" "2 \<le> radix" "radix \<le> 36" "ubuf buf 33"
  shows "\<exists>w' m. ece391_itoa os v buf radix w = Some w' \<and> inv w' \<and> view w' = (view w)\<lparr>umem := m\<rparr> \<and>
    cstring m buf (numeral_string (nat radix) (unat v)) \<and> outside buf 33 (umem (view w)) m"
proof -
  let ?r = "word_of_int radix :: u32" and ?m = "umem (view w)"
  have r: "unat ?r = nat radix" using assms(2,3) by (simp add: unat_eq_nat_uint uint_word_of_int)
  have r2: "2 \<le> unat ?r" "unat ?r \<le> 36" using assms(2,3) by (simp_all add: r)
  have blk: "block Some buf 33"
  proof -
    have "i = j" if "i < 33" "j < 33" "buf + of_nat i = buf + of_nat j" for i j
      using that(3) ubuf_off(1) [OF assms(4) that(1)] ubuf_off(1) [OF assms(4) that(2)] by (metis add_left_cancel)
    then show ?thesis by (simp add: block_def)
  qed
  from itoa_p_correct [OF r2 blk, of ?m v] obtain m where m: "itoa_p Some ?m v buf ?r = Some m"
    "cstring m buf (numeral_string (nat radix) (unat v))" "outside buf 33 ?m m"
    by (auto simp: r outside_def eq_commute [of _ "buf + _"])
  have "\<exists>w'. ece391_itoa os v buf radix w = Some w' \<and> inv w' \<and> view w' = (view w)\<lparr>umem := m\<rparr>"
  proof (cases "v = 0")
    case True
    define w1 where "w1 = os_store os w buf (ch CHR ''0'')"
    have w1: "inv w1" "view w1 = (view w)\<lparr>umem := ?m(buf := ch CHR ''0'')\<rparr>"
      using store_at [OF assms(1,4), of 0 "ch CHR ''0''"] by (simp_all add: w1_def)
    have "m = ?m(buf := ch CHR ''0'', buf + 1 := 0)" using m(1) True by (simp add: itoa_p_def)
    moreover have "os_store os w buf 48 = w1" by (simp add: w1_def)
    ultimately show ?thesis
      using store_at [OF w1(1) assms(4), of 1 0] True by (simp add: ece391_itoa_def w1(2))
  next
    case False
    let ?d = "digits (unat ?r) (unat v)" and ?cs = "map ((!) lookup) (digits (unat ?r) (unat v))"
    have len: "length ?d \<le> 32" using length_digits_le [OF r2(1), of "unat v" 32] unat_lt_u32 [of v] by simp
    have ub: "ubuf buf (length ?d + 1)" using ubuf_mono [OF assms(4)] len by simp
    obtain w1 where w1: "digit_loop os buf v ?r w = Some w1" "inv w1"
      "view w1 = (view w)\<lparr>umem := store_list (st Some) ?m buf (?cs @ [0])\<rparr>"
      using digit_loop_ok [OF assms(1) r2(1) ub] by blast
    have "0 \<notin> set ?cs" using digits_less [OF r2(1)] lookup_digit(2) r2(2) by fastforce
    with cstring_stored [of Some buf ?cs ?m] block_mono [OF blk, of "length ?cs + 1"] len
    have c: "cstring (umem (view w1)) buf ?cs" by (simp add: w1(3))
    have "strrev_p Some (umem (view w1)) buf = Some m"
      using m(1) False itoa_loop_eq [OF r2(1), of Some ?m buf v] by (simp add: itoa_p_def w1(3))
    from strrev_ok [OF w1(2) c _ this] ub show ?thesis
      using w1(1,3) False by (auto simp: ece391_itoa_def)
  qed
  then show ?thesis using m(2,3) by blast
qed

end

section \<open>The counter\<close>

function count_loop :: "'w os \<Rightarrow> (string \<Rightarrow> u32) \<Rightarrow> u32 \<Rightarrow> u32 \<Rightarrow> u32 \<Rightarrow> 'w \<Rightarrow> 'w option" where
  "count_loop os lit buf i max' w =
     (if i < max'
      then do {
        w \<leftarrow> ece391_itoa os (i + 1) buf 10 w;
        w \<leftarrow> ece391_fdputs os 1 buf w;
        w \<leftarrow> ece391_fdputs os 1 (lit nl) w;
        count_loop os lit buf (i + 1) max' w
      }
      else Some w)"
  by pat_completeness auto
termination
proof (relation "measure (\<lambda>(os, lit, buf, i, max', w). unat (max' - i))", simp)
  fix i max' :: u32 and os :: "'w os" and lit :: "string \<Rightarrow> u32" and buf and w w1 w2 w3 :: 'w
  assume "i < max'"
  then have "unat (max' - (i + 1)) < unat (max' - i)" by unat_arith
  then show "((os, lit, buf, i + 1, max', w3), os, lit, buf, i, max', w) \<in> measure (\<lambda>(os, lit, buf, i, max', w). unat (max' - i))"
    by simp
qed

declare count_loop.simps [simp del]

text \<open>The limit stays 0 when the line is short but its first character is none of the three digits.\<close>

definition counter_main :: "'w os \<Rightarrow> (string \<Rightarrow> u32) \<Rightarrow> u32 \<Rightarrow> 'w \<Rightarrow> ('w \<times> int) option" where
  "counter_main os lit buf w = do {
     w \<leftarrow> ece391_fdputs os 1 (lit (''Enter the Test Number: (0): 100, (1): 10000, (2): 100000'' @ nl)) w;
     (w, cnt) \<leftarrow> ece391_read os 0 buf 1023 w;
     if cnt = -1
     then do { w \<leftarrow> ece391_fdputs os 1 (lit (''Can'' @ CHR 0x27 # ''t read the number from keyboard.'' @ nl)) w; Some (w, 3) }
     else do {
       let w = os_store os w (buf + word_of_int cnt) 0;
       n \<leftarrow> ece391_strlen os w buf;
       let c = os_load os w buf;
       if n > 2 \<or> n = 2 \<and> (c < ch CHR ''0'' \<or> c > ch CHR ''2'')
       then do { w \<leftarrow> ece391_fdputs os 1 (lit (''Wrong Choice!'' @ nl)) w; Some (w, 0) }
       else do {
         let max' = (if c = ch CHR ''0'' then 100 else if c = ch CHR ''1'' then 10000 else if c = ch CHR ''2'' then 100000 else 0);
         w \<leftarrow> count_loop os lit buf 0 max' w;
         Some (w, 0)
       }
     }
   }"

lemma numeral_length:
  assumes "2 \<le> r" "v < 2 ^ 32"
  shows "length (numeral_string r v) \<le> 32"
  using length_digits_le [OF assms(1), of v 32] power_mono [of 2 r 32] assms by (auto simp: numeral_string_def)

text \<open>The numbers of a range, one a line.\<close>

definition count_lines :: "nat \<Rightarrow> nat \<Rightarrow> u8 list" where
  "count_lines i n = concat (map (\<lambda>j. numeral_string 10 j @ [10]) [i..<n])"

context user_os
begin

lemma count_loop_ok:
  assumes "inv w" "ubuf buf 33" "literals lit [nl] (umem (view w))" "away lit [nl] buf 33" "i \<le> max'"
  shows "\<exists>w'. count_loop os lit buf i max' w = Some w' \<and> inv w' \<and>
    uout (view w') = fold aterm_putc (count_lines (unat i + 1) (unat max' + 1)) (uout (view w))"
  using assms(1,3,5)
proof (induction "unat max' - unat i" arbitrary: w i rule: less_induct)
  case less
  show ?case
  proof (cases "i < max'")
    case False
    then have "i = max'" using less.prems(3) by simp
    then show ?thesis using less.prems(1) by (simp add: count_loop.simps [of os] count_lines_def)
  next
    case True
    have u: "unat (i + 1) = unat i + 1" using True by unat_arith
    obtain w1 m where w1: "ece391_itoa os (i + 1) buf 10 w = Some w1" "inv w1" "view w1 = (view w)\<lparr>umem := m\<rparr>"
      "cstring m buf (numeral_string 10 (unat i + 1))" "outside buf 33 (umem (view w)) m"
      using itoa_ok [OF less.prems(1) _ _ assms(2), of 10 "i + 1"] by (auto simp: u)
    let ?s = "numeral_string 10 (unat i + 1)"
    have len: "length ?s \<le> 32" by (rule numeral_length) (use unat_lt_u32 [of "i + 1"] u in auto)
    obtain w2 where w2: "ece391_fdputs os 1 buf w1 = Some w2" "inv w2" "view w2 = u_puts ?s (view w1)"
      using fdputs_ok [OF w1(2), of buf ?s] w1(3,4) ubuf_mono [OF assms(2)] len by auto
    have l2: "literals lit [nl] (umem (view w2))"
      using literals_outside [OF less.prems(2) assms(4,2) w1(5)] by (simp add: w2(3) w1(3))
    obtain w3 where w3: "ece391_fdputs os 1 (lit nl) w2 = Some w3" "inv w3" "view w3 = u_puts (chars nl) (view w2)"
      using puts_lit [OF w2(2) l2, of nl] by auto
    have "i + 1 \<le> max'" "unat max' - unat (i + 1) < unat max' - unat i" using True by unat_arith+
    moreover have "literals lit [nl] (umem (view w3))" using l2 by (simp add: w3(3))
    ultimately obtain w' where w': "count_loop os lit buf (i + 1) max' w3 = Some w'" "inv w'"
      "uout (view w') = fold aterm_putc (count_lines (unat (i + 1) + 1) (unat max' + 1)) (uout (view w3))"
      using less.hyps [of "i + 1" w3] w3(2) by blast
    have "count_lines (unat i + 1) (unat max' + 1) = ?s @ [10] @ count_lines (unat (i + 1) + 1) (unat max' + 1)"
      using True by (simp add: count_lines_def u upt_conv_Cons word_less_nat_alt del: upt_Suc)
    then have "uout (view w') = fold aterm_putc (count_lines (unat i + 1) (unat max' + 1)) (uout (view w))"
      using w'(3) by (simp add: w3(3) w2(3) w1(3))
    then show ?thesis
      using w1(1) w2(1) w3(1) w'(1,2) True by (subst count_loop.simps) simp
  qed
qed

end

context user_console
begin

lemma counter_counts:
  assumes "inv w" "\<not> uready (view w)" "lines w = [48 + of_nat c, 10] # Ls" "c < 3" "ubuf buf 1024"
    and ss: "ss = [''Enter the Test Number: (0): 100, (1): 10000, (2): 100000'' @ nl, nl]"
    and lit: "literals lit ss (umem (view w))" "away lit ss buf 1024"
  shows "\<exists>w'. counter_main os lit buf w = Some (w', 0) \<and> inv w' \<and> lines w' = Ls \<and>
    uout (view w') = fold aterm_putc (chars (''Enter the Test Number: (0): 100, (1): 10000, (2): 100000'' @ nl) @
      [48 + of_nat c, 10] @ count_lines 1 ([100, 10000, 100000] ! c + 1)) (uout (view w))"
proof -
  let ?L = "[48 + of_nat c, 10 :: u8]"
  have L: "length ?L \<le> 128" "0 \<notin> set ?L" using line [OF assms(1), of ?L] assms(3) by auto
  obtain w1 where w1: "ece391_fdputs os 1 (lit (ss ! 0)) w = Some w1" "inv w1" "lines w1 = ?L # Ls" "view w1 = u_puts (chars (ss ! 0)) (view w)"
    using puts_lit_con [OF assms(1) lit(1), of "ss ! 0"] assms(3) by (auto simp: ss simp del: append.simps)
  obtain w2 where w2: "ece391_read os 0 buf (int 1023) w1 = Some (w2, int (length ?L))" "inv w2" "lines w2 = Ls"
    "view w2 = (set_mem buf (take 1023 (line_row ?L)) (view w1))\<lparr>uout := fold aterm_putc ?L (uout (view w1)), uready := False, urow := line_row ?L\<rparr>"
    using read_line [OF w1(2) _ w1(3), of buf 1023] ubuf_mono [OF assms(5), of 1023] assms(2) w1(4) by auto
  define w3 where "w3 = os_store os w2 (buf + of_nat (length ?L)) 0"
  have w3: "inv w3" "lines w3 = Ls" "view w3 = (view w2)\<lparr>umem := (umem (view w2))(buf + of_nat (length ?L) := 0)\<rparr>"
    using store_con [OF w2(2) assms(5), of "length ?L" 0] w2(3) unfolding w3_def by auto
  have m: "umem (view w3) = (put_bytes buf (take 1023 (line_row ?L)) (umem (view w)))(buf + of_nat (length ?L) := 0)"
    by (simp add: w3(3) w2(4) w1(4) set_mem_def)
  note S = line_string [OF L(2,1) le_refl assms(5) m, simplified take_all_iff [THEN iffD2, OF le_refl]]
  have n: "ece391_strlen os w3 buf = Some 2"
    using strlen_ok [OF w3(1) S(1)] ubuf_mono [OF assms(5), of "Suc (Suc (Suc 0))"] by simp
  have b: "os_load os w3 buf = 48 + of_nat c"
    using load [OF w3(1), of buf] ubuf_mono [OF assms(5), of 1] cstring_head [OF S(1)] by simp
  have l3: "literals lit [nl] (umem (view w3))" "away lit [nl] buf 33"
    using literals_outside [OF lit assms(5) S(2)] lit(2) by (auto simp: literals_def away_def ss)
  let ?m = "[100, 10000, 100000 :: u32] ! c"
  have c: "c = 0 \<or> c = 1 \<or> c = 2" using assms(4) by auto
  obtain w4 where w4: "count_loop os lit buf 0 ?m w3 = Some w4" "inv w4" "lines w4 = Ls"
    "uout (view w4) = fold aterm_putc (count_lines 1 (unat ?m + 1)) (uout (view w3))"
    using kept.count_loop_ok [of w3 Ls buf lit 0 ?m] w3(1,2) ubuf_mono [OF assms(5), of 33] l3 by auto
  have "counter_main os lit buf w = Some (w4, 0)"
    using w1(1) w2(1) n b w4(1) c by (auto simp: counter_main_def ss w3_def simp del: append.simps)
  moreover have "unat ?m = [100, 10000, 100000] ! c" using c by auto
  ultimately show ?thesis
    using w4(2-4) by (simp add: w3(3) w2(4) w1(4) set_mem_def ss del: append.simps)
qed

end

end
