(* ===== verification/System.thy ===== *)
theory System
  imports Console Pit
begin

text \<open>
  The whole system as a transition system: what programs, key presses and timer ticks do to a state,
  and that the invariant of the system holds in every state they lead to.
\<close>

section \<open>Frames\<close>

text \<open>The image and the name of the shell, across a step that may also change the mapping.\<close>

lemma region_same:
  fixes k k' :: "'a proc_scheme"
  assumes "layout_inv k" "kernel_map v (pg k)" "kernel_map w (pg k')"
    "only_at (free_cells k \<union> bytes_at (keyboard_buffer k) 387) k k'"
    "(a, n) \<in> {(file_start k, image_size k), (shell_name k, 6)}" "i < n"
  shows "ldb k' (a + of_nat i) = ldb k (a + of_nat i)"
proof -
  have ik: "in_kernel a n" using layout_invD(1,2) [OF assms(1)] assms(5) by auto
  have m: "a + of_nat i \<in> bytes_at a n" using assms(6) by (simp add: bytes_at_def)
  have "bytes_at a n \<subseteq> protected k" using assms(5) by (auto simp: protected_def)
  then have 1: "a + of_nat i \<notin> free_cells k" using m free_not_protected [OF assms(1)] by blast
  have "(a, n) \<noteq> (keyboard_buffer k, 387)" using assms(5) by (auto simp: image_size_def)
  then have "before (a, n) (keyboard_buffer k, 387) \<or> before (keyboard_buffer k, 387) (a, n)"
    by (intro layout_pairwise [OF assms(1)]) (use assms(5) in \<open>auto simp: regions_def\<close>)
  then have "bytes_at a n \<inter> bytes_at (keyboard_buffer k) 387 = {}"
    using before_disjoint [of "(a, n)" "(keyboard_buffer k, 387)"] ik layout_invD(3) [OF assms(1)] by simp
  then have "phys k' (a + of_nat i) = phys k (a + of_nat i)" using 1 m assms(4) by (auto simp: only_at_def)
  then show ?thesis
    using in_kernel_walk(1) [OF assms(2) ik assms(6)] in_kernel_walk(1) [OF assms(3) ik assms(6)] by (simp add: ldb_def ld_def)
qed

lemma frame_image:
  fixes k k' :: "'a proc_scheme"
  assumes "sys_inv names k" "same_static k k'" "video_inv k'" "only_at (free_cells k \<union> bytes_at (keyboard_buffer k) 387) k k'"
  shows "same_image k k'" "cstring (ldb k') (shell_name k') shell_string" "image_ok k' names" "layout_inv k'"
proof -
  note I = sys_invD [OF assms(1)]
  obtain v w where vw: "kernel_map v (pg k)" "kernel_map w (pg k')" using I(9) assms(3) by (auto simp: video_inv_def)
  note R = region_same [OF I(1) vw assms(4)]
  show img: "same_image k k'"
    using R [of "file_start k" "image_size k"] assms(2) by (simp add: same_image_def same_static_def)
  have "shell_name k' = shell_name k" using assms(2) by (simp add: same_static_def)
  then show "cstring (ldb k') (shell_name k') shell_string"
    using R [of "shell_name k" 6] R [of "shell_name k" 6 5] I(3) by (auto simp: cstring_def shell_string_def)
  show "image_ok k' names" by (rule image_ok_same [OF img I(2)])
  show "layout_inv k'" using I(1) same_static_layout(2) [OF assms(2)] by simp
qed

lemma frame_kbd:
  fixes k k' :: "'a proc_scheme"
  assumes "sys_inv names k" "same_static k k'" "video_inv k'" "only_at (free_cells k) k k'" "cursor_ind k' = cursor_ind k"
    "\<And>t. t \<in> {0, 1, 2} \<Longrightarrow> aterm_ok (terminal k' t)"
  shows "kbd_inv k'"
proof -
  note I = sys_invD [OF assms(1)]
  obtain v w where vw: "kernel_map v (pg k)" "kernel_map w (pg k')" using I(9) assms(3) by (auto simp: video_inv_def)
  have st: "keyboard_buffer k' = keyboard_buffer k" "print_buffer k' = print_buffer k" using assms(2) by (simp_all add: same_static_def)
  have rows: "load_list ldb k' (key_row k t) 129 = load_list ldb k (key_row k t) 129" if t: "t \<in> {0, 1, 2}" for t
  proof (rule load_list_free)
    fix i :: nat assume i: "i < 129"
    have e: "key_row k t + of_nat i = keyboard_buffer k + of_nat (129 * nat t + i)"
      using t by (auto simp: key_row_def TOTAL_KEY_NUM_def)
    show "ldb k' (key_row k t + of_nat i) = ldb k (key_row k t + of_nat i)"
      unfolding e by (rule ldb_protected [OF vw I(1) assms(4) _ layout_invD(3) [OF I(1)]])
        (use i t in \<open>auto simp: protected_def\<close>)
  qed
  have "key_row k' = key_row k" by (simp add: key_row_def fun_eq_iff st)
  moreover have "kbd_layout k'" using I(4) st by (simp add: kbd_inv_def kbd_layout_def)
  ultimately show ?thesis
    using I(4) assms(3,5,6) rows by (simp add: kbd_inv_def kline_def)
qed

text \<open>Steps that do not touch the low memory leave the screens alone.\<close>

lemma terminal_low:
  assumes "\<And>p. unat p < 0xC0000 \<Longrightarrow> phys k' p = phys k p" "display_terminal k' = display_terminal k"
    "screen_x_multi k' = screen_x_multi k" "screen_y_multi k' = screen_y_multi k" "t \<in> {0, 1, 2}"
  shows "terminal k' t = terminal k t"
  using assms(1) [OF term_frame_low [OF assms(5)]] assms(2-4) by (auto simp: terminal_def intro!: frame_grid_cong)

section \<open>The timer\<close>

lemma switched_video:
  fixes k' :: "'a proc_scheme"
  assumes "kernel_map v g" "pg k' = set_active_terminal_paging t (if t = display_terminal k' then 1 else 0) g"
    "active_terminal k' = t" "t \<in> {0, 1, 2}" "display_terminal k' \<in> {0, 1, 2}"
  shows "video_inv k'"
proof -
  define k1 where "k1 = k'\<lparr>pg := g\<rparr>"
  have 1: "video_inv (set_active_terminal t k1)"
    by (rule video_inv_set_active_terminal [of v]) (use assms in \<open>simp_all add: k1_def\<close>)
  have 2: "pg k' = pg (set_active_terminal t k1)" "active_terminal k' = active_terminal (set_active_terminal t k1)"
    "display_terminal k' = display_terminal (set_active_terminal t k1)"
    using assms(2,3) by (simp_all add: set_active_terminal_def Let_def k1_def)
  show ?thesis by (rule video_inv_cong [OF 2, THEN iffD2, OF 1])
qed

lemma maps_task_switch:
  "maps_task p (set_active_terminal_paging t b (setup_task_page p g))" "maps_task p (setup_task_page p g)"
proof -
  show "maps_task p (setup_task_page p g)" by (simp add: maps_task_def setup_task_page_eq)
  then show "maps_task p (set_active_terminal_paging t b (setup_task_page p g))"
    by (simp add: maps_task_def set_active_terminal_paging_eq Let_def)
qed

text \<open>What every step has to keep.\<close>

definition system_ok :: "ufile list \<Rightarrow> 'a proc_scheme \<Rightarrow> bool" where
  "system_ok img k \<longleftrightarrow> (\<exists>names. sys_inv names k) \<and> 0 \<le> current_dir_read_index k \<and> image_of k = img"

lemma system_ok_user: "user_inv img k \<longleftrightarrow> system_ok img k \<and> running k (current_pid k)"
  by (auto simp: user_inv_def system_ok_def)

lemma system_step:
  fixes k k' :: "'a proc_scheme"
  assumes ok: "system_ok img k" and st: "same_static k k'" "current_dir_read_index k' = current_dir_read_index k"
    and mem: "only_at (free_cells k \<union> bytes_at (keyboard_buffer k) 387) k k'" "kbd_inv k'"
    and procs: "proc_inv k'" "\<And>p. running k' p \<Longrightarrow> pcb_fds_ok k (blk k' p)"
    and pag: "maps_task (current_pid k') (pg k')" "active_terminal k' = pcb_terminal (blk k' (current_pid k'))"
  shows "system_ok img k'"
proof -
  obtain names where I: "sys_inv names k" "image_of k = img" "0 \<le> current_dir_read_index k" using ok by (auto simp: system_ok_def)
  have v: "video_inv k'" using mem(2) by (simp add: kbd_inv_def)
  note F = frame_image [OF I(1) st(1) v mem(1)]
  have fs: "fs_ok k" using sys_invD(2) [OF I(1)] by (simp add: image_ok_def)
  have "fds_ok k'" using procs(2) fds_ok_same [OF F(1) fs] by (simp add: fds_ok_def)
  then have "sys_inv names k'" using F mem(2) procs(1) pag by (simp add: sys_inv_def)
  moreover have "image_of k' = img" using image_of_same [OF F(1) sys_invD(2) [OF I(1)]] I(2) by simp
  ultimately show ?thesis using I(3) st(2) by (auto simp: system_ok_def)
qed

lemma system_okD:
  fixes k :: "'a proc_scheme"
  assumes "system_ok img k"
  obtains names v where "sys_inv names k" "layout_inv k" "image_ok k names" "kbd_inv k" "proc_inv k" "fds_ok k"
    "maps_task (current_pid k) (pg k)" "active_terminal k = pcb_terminal (blk k (current_pid k))" "video_inv k"
    "kernel_map v (pg k)" "display_terminal k \<in> {0, 1, 2}" "active_terminal k \<in> {0, 1, 2}"
    "1 \<le> current_pid k" "current_pid k < 8" "get_current_pcb k = get_kernel_stack_bottom (current_pid k)"
proof -
  obtain names where I: "sys_inv names k" using assms by (auto simp: system_ok_def)
  obtain v where "kernel_map v (pg k)" using sys_invD(10) [OF I] by blast
  then show thesis
    using that [OF I] sys_invD [OF I] proc_invD(3,4,7) [OF sys_invD(5) [OF I]] by (auto simp: video_inv_def)
qed

lemma sched_of_proc: "proc_inv k \<Longrightarrow> sched_ok k"
  using proc_invD(2-5,7) [of k] proc_invD(8) [of k] by (auto simp: sched_ok_def ready_def running_def)

text \<open>The variables the timer handler leaves alone.\<close>

lemma tick_static:
  fixes k :: "'a proc_scheme"
  assumes "pit_handler k = Some r" "r = Ret k' v \<or> r = Resume k' e b"
  shows "same_static k k'" "current_dir_read_index k' = current_dir_read_index k" "cursor_ind k' = cursor_ind k"
    "screen_x_multi k' = screen_x_multi k" "screen_y_multi k' = screen_y_multi k"
proof -
  define k1 where "k1 = send_eoi PIT_IRQ_NUM (cli k)"
  have k1: "same_static k k1" "current_dir_read_index k1 = current_dir_read_index k" "cursor_ind k1 = cursor_ind k"
    "screen_x_multi k1 = screen_x_multi k" "screen_y_multi k1 = screen_y_multi k"
    by (simp_all add: k1_def same_static_def send_eoi_def outb_def cli_def)
  have sw: "same_static k (switch_to i k1)" "current_dir_read_index (switch_to i k1) = current_dir_read_index k"
    "cursor_ind (switch_to i k1) = cursor_ind k" "screen_x_multi (switch_to i k1) = screen_x_multi k"
    "screen_y_multi (switch_to i k1) = screen_y_multi k" for i
    using k1 by (simp_all add: same_static_def switch_to_def Let_def set_current_pid_def set_active_terminal_def upd_pcb_def)
  have "k' = k1 \<or> (\<exists>i. k' = switch_to i k1)"
    using assms unfolding pit_handler_def Let_def k1_def [symmetric] by (auto simp: bind_eq_Some_conv split: if_splits)
  then show "same_static k k'" "current_dir_read_index k' = current_dir_read_index k" "cursor_ind k' = cursor_ind k"
    "screen_x_multi k' = screen_x_multi k" "screen_y_multi k' = screen_y_multi k"
    using k1 sw by auto
qed

definition state_of :: "'k outcome \<Rightarrow> 'k" where
  "state_of r = (case r of Ret k v \<Rightarrow> k | To_user k e \<Rightarrow> k | Resume k e b \<Rightarrow> k | Spin k \<Rightarrow> k)"

lemma state_of_simps [simp]:
  "state_of (Ret k v) = k" "state_of (To_user k e) = k" "state_of (Resume k e b) = k" "state_of (Spin k) = k"
  by (simp_all add: state_of_def)

lemma tick_ok:
  fixes k :: "'a proc_scheme"
  assumes "system_ok img k"
  shows "\<exists>r. pit_handler k = Some r \<and> system_ok img (state_of r)"
proof -
  obtain names v where I: "layout_inv k" "kbd_inv k" "proc_inv k" "fds_ok k" "maps_task (current_pid k) (pg k)"
    "active_terminal k = pcb_terminal (blk k (current_pid k))" "kernel_map v (pg k)" "display_terminal k \<in> {0, 1, 2}"
    "sys_inv names k" using system_okD [OF assms] by metis
  from sched_of_proc [OF I(3)] show ?thesis
  proof (cases rule: pit_handler_cases)
    case (stay k')
    note st = tick_static [OF stay(1) disjI1 [OF refl]]
    have "running k' = running k" by (simp add: running_def stay(4) fun_eq_iff)
    moreover have "proc_inv k'" using same_procs_inv(1) [of k k'] I(3) stay by (simp add: same_procs_def)
    moreover have "kbd_inv k'" by (subst kbd_cong(1) [of k' k]) (use stay st I(2) in \<open>auto simp: same_static_def\<close>)
    ultimately have "system_ok img k'"
      using system_step [OF assms st(1,2) only_at_same] stay I by (simp add: fds_ok_def)
    then show ?thesis using stay(1) by simp
  next
    case (switch k' m i)
    note st = tick_static [OF switch(1) disjI2 [OF refl]]
    have i: "running k i" using switch(6) by (simp add: ready_def running_def)
    have run: "running k' = running k" by (simp add: running_def switch(9) fun_eq_iff)
    have c: "core (pcbs k' a) = core (pcbs k a)" "file_array (pcbs k' a) = file_array (pcbs k a)" for a
      by (simp_all add: switch(12) core_def)
    then have b: "pcb_pid (pcbs k' a) = pcb_pid (pcbs k a)" "child (pcbs k' a) = child (pcbs k a)" "parent (pcbs k' a) = parent (pcbs k a)"
      "pcb_terminal (pcbs k' a) = pcb_terminal (pcbs k a)" "is_terminal (pcbs k' a) = is_terminal (pcbs k a)" for a
      by (simp_all add: core_def)
    have t: "active_terminal k' = pcb_terminal (blk k i)" "active_terminal k' \<in> {0, 1, 2}"
      using switch(13) proc_invD(9) [OF I(3) i] by simp_all
    have w: "waits k' = waits k" by (simp add: fun_eq_iff waits_def run b)
    have p: "proc_inv k'"
      using I(3) i switch(6,8,10) proc_invD(8) [OF I(3) i] by (simp add: proc_inv_def run b w ready_def running_def)
    have vid: "video_inv k'"
      by (rule switched_video [OF kernel_map_setup_task_page [OF I(7), of i]]) (use switch t I(8) in simp_all)
    have scr: "terminal k' s = terminal k s" if "s \<in> {0, 1, 2}" for s
      by (rule terminal_low) (use switch st that in simp_all)
    have kb: "kbd_inv k'"
      by (rule frame_kbd [OF I(9) st(1) vid only_at_same st(3)]) (use switch scr kbd_invD(1) [OF I(2)] in simp_all)
    have "system_ok img k'"
    proof (rule system_step [OF assms st(1,2) only_at_same [OF switch(11)] kb p])
      show "pcb_fds_ok k (blk k' p)" if "running k' p" for p
        using I(4) that c(2) by (simp add: fds_ok_def run pcb_fds_ok_def streams_ok_def)
      show "maps_task (current_pid k') (pg k')" unfolding switch(8,16) by (rule maps_task_switch)
      show "active_terminal k' = pcb_terminal (blk k' (current_pid k'))" using t b switch(8) by simp
    qed
    then show ?thesis using switch(1) by simp
  qed
qed

section \<open>Starting and ending programs\<close>

text \<open>The process structure after a program has been started.\<close>

lemma proc_inv_entered:
  fixes k k' :: "'a proc_scheme"
  assumes inv: "proc_inv k" and pid: "1 \<le> pid" "pid < 8" "process_status k pid = 0" "pid \<noteq> current_pid k"
    and ent: "entered pid (get_kernel_stack_bottom (current_pid k)) t it (start_slot pid k) k'"
    and t: "t \<in> {0, 1, 2}" "it = 0 \<Longrightarrow> running k (current_pid k) \<and> t = pcb_terminal (blk k (current_pid k))"
  shows "proc_inv k'" "\<And>p. running k' p \<longleftrightarrow> p = pid \<or> running k p"
    "\<And>p. running k p \<Longrightarrow> file_array (blk k' p) = file_array (blk k p)"
    "blk k' pid = (blk k' pid)\<lparr>file_array := file_array (fresh_pcb pid (blk k pid))\<rparr>"
proof -
  let ?c = "current_pid k" and ?b = "get_kernel_stack_bottom"
  note P = proc_invD [OF inv]
  have inj: "?b p = ?b q \<longleftrightarrow> p = q" if "1 \<le> p" "p < 8" "1 \<le> q" "q < 8" for p q
    using stack_bottom_inj [of p q] that by auto
  have nr: "\<not> running k pid" using pid by (simp add: running_def)
  have e: "current_pid k' = pid" "process_status k' = (process_status k)(pid := 1)"
    "total_running_process k' = total_running_process k + 1" "pcb_pid (blk k' pid) = pid" "pcb_terminal (blk k' pid) = t"
    "is_terminal (blk k' pid) = it" "parent (blk k' pid) = ?b ?c"
    using ent by (simp_all add: entered_def Let_def start_slot_tables)
  have slot: "child (pcbs (start_slot pid k) (?b pid)) = child (blk k pid)"
    "file_array (pcbs (start_slot pid k) (?b pid)) = file_array (fresh_pcb pid (blk k pid))"
    by (simp_all add: start_slot_def pcb_init_eq upd_pcb_def fresh_pcb_def)
  have ch: "child (blk k' pid) = 0"
    using ent slot(1) P(12) [OF pid(1,2) nr] by (simp add: entered_def Let_def)
  show fa: "blk k' pid = (blk k' pid)\<lparr>file_array := file_array (fresh_pcb pid (blk k pid))\<rparr>"
    using ent slot(2) by (intro pcb_t.equality) (simp_all add: entered_def Let_def)
  have ne: "?b ?c \<noteq> ?b pid" using inj [of ?c pid] P(3,4) pid by simp
  have cur: "child (blk k' ?c) = (if it = 0 then ?b pid else 0)" "pcb_pid (blk k' ?c) = ?c" "parent (blk k' ?c) = parent (blk k ?c)"
    "pcb_terminal (blk k' ?c) = pcb_terminal (blk k ?c)" "is_terminal (blk k' ?c) = is_terminal (blk k ?c)"
    "file_array (blk k' ?c) = file_array (blk k ?c)"
    using ent start_slot_tables(3) [OF ne, of k] P(5,6) by (simp_all add: entered_def Let_def)
  have oth: "blk k' p = blk k p" if "1 \<le> p" "p < 8" "p \<noteq> pid" "p \<noteq> ?c" for p
    using ent inj [of p pid] inj [of p ?c] P(3,4) pid that start_slot_tables(3) [of "?b p" pid k] by (simp add: entered_def Let_def)
  show run: "running k' p \<longleftrightarrow> p = pid \<or> running k p" for p using pid by (auto simp: running_def e)
  show "file_array (blk k' p) = file_array (blk k p)" if "running k p" for p
    using oth [of p] cur(6) that nr by (cases "p = ?c"; cases "p = pid") (auto simp: running_def)
  have fin: "finite {p. running k p}" by (rule finite_subset [of _ "{0..8}"]) (auto simp: running_def)
  have card: "card {p. running k' p} = Suc (card {p. running k p})"
  proof -
    have "{p. running k' p} = insert pid {p. running k p}" using run by auto
    then show ?thesis using fin nr by simp
  qed
  have old: "pcb_pid (blk k' p) = pcb_pid (blk k p)" "parent (blk k' p) = parent (blk k p)"
    "pcb_terminal (blk k' p) = pcb_terminal (blk k p)" "is_terminal (blk k' p) = is_terminal (blk k p)"
    "p \<noteq> ?c \<Longrightarrow> child (blk k' p) = child (blk k p)" if "1 \<le> p" "p < 8" "p \<noteq> pid" for p
    using oth [OF that] cur P(5) by (cases "p = ?c"; simp)+
  have w: "waits k' p q" if "waits k p q" for p q
  proof -
    have r: "running k p" "running k q" using that by (simp_all add: waits_def)
    then have n: "p \<noteq> pid" "q \<noteq> pid" "1 \<le> p" "p < 8" "1 \<le> q" "q < 8" using nr by (auto simp: running_def)
    have "child (blk k p) \<noteq> 0" using that stack_bottom_nonzero [of q] n by (simp add: waits_def)
    then have "p \<noteq> ?c" using P(6) by auto
    then show ?thesis using that old [of p] old [of q] n run by (simp add: waits_def)
  qed
  have new: "waits k' ?c pid" if "it = 0" using that t(2) run e cur by (simp add: waits_def)
  have "pcb_pid (blk k' p) = p \<and> pcb_terminal (blk k' p) \<in> {0, 1, 2} \<and> (child (blk k' p) = 0 \<or> (\<exists>q. waits k' p q)) \<and>
      (is_terminal (blk k' p) = 0 \<longrightarrow> (\<exists>q. waits k' q p))" if "running k' p" for p
  proof (cases "p = pid")
    case True
    then show ?thesis using e ch t(1) new by auto
  next
    case False
    then have r: "running k p" using that run by simp
    then have "1 \<le> p" "p < 8" by (simp_all add: running_def)
    note o = old [OF this False]
    have "child (blk k' p) = 0 \<or> (\<exists>q. waits k' p q)"
      using P(10) [OF r] w new cur(1) o(5) by (cases "p = ?c") (auto split: if_splits)
    then show ?thesis using o P(8,9,11) [OF r] w by auto
  qed
  moreover have "child (blk k' p) = 0" if "1 \<le> p" "p < 8" "\<not> running k' p" for p
  proof (cases "p = ?c")
    case True
    then show ?thesis using cur(1) t(2) that run by auto
  next
    case False
    then show ?thesis using old(5) [of p] P(12) [of p] that run by auto
  qed
  ultimately show "proc_inv k'" using e ch card P(1,2) pid unfolding proc_inv_def by simp
qed

lemma pcb_fds_fresh:
  assumes "p = p\<lparr>file_array := file_array (fresh_pcb pid q)\<rparr>"
  shows "pcb_fds_ok k p"
proof -
  have "file_array p = file_array (fresh_pcb pid q)" by (subst assms) simp
  then show ?thesis by (simp add: pcb_fds_ok_def streams_ok_def fresh_pcb_def)
qed

lemma launch_cells_free:
  assumes "layout_inv k" "0 \<le> pid" "pid < 8" "c \<le> 4096"
  shows "launch_cells k pid c \<subseteq> free_cells k" "x \<in> launch_cells k pid c \<Longrightarrow> 0x400000 \<le> unat x"
proof -
  note L = layout_invD [OF assms(1)]
  note row = arg_row_in_kernel [OF assms(1-3)]
  have task: "0x800000 \<le> unat y" if y: "y \<in> task_cells pid" for y
  proof -
    obtain i where i: "i < 0x400000" "y = of_nat (0x800000 + nat pid * 0x400000 + i)" using y unfolding task_cells_def by blast
    have "unat y = 0x800000 + nat pid * 0x400000 + i"
      unfolding i(2) by (rule unat_of_nat_small) (use i(1) assms(2,3) in simp)
    then show ?thesis by simp
  qed
  have "bytes_at (arg_row k pid) c \<subseteq> bytes_at (arg_buf k) 32768"
    unfolding row(2) by (rule bytes_at_sub) (use assms(3,4) in simp)
  moreover have "bytes_at (fname k) c \<subseteq> bytes_at (fname k) 4096" by (rule bytes_at_mono [OF assms(4)])
  ultimately show "launch_cells k pid c \<subseteq> free_cells k"
    using task unfolding launch_cells_def free_cells_def by blast
  have "0x400000 \<le> unat x" if "x \<in> bytes_at (arg_row k pid) c"
    using in_kernel_bytes(3) [OF L(7)] that \<open>bytes_at (arg_row k pid) c \<subseteq> bytes_at (arg_buf k) 32768\<close> by blast
  moreover have "0x400000 \<le> unat x" if "x \<in> bytes_at (fname k) c"
    using in_kernel_bytes(3) [OF L(5)] that bytes_at_mono [OF assms(4), of "fname k"] by blast
  ultimately show "0x400000 \<le> unat x" if "x \<in> launch_cells k pid c"
    using that task [of x] in_kernel_bytes(3) [OF L(6), of x] unfolding launch_cells_def by force
qed

lemma launched_ok:
  fixes k k' :: "'a proc_scheme"
  assumes ok: "system_ok img k" and pid: "pid = get_empty_pid k" "pid \<noteq> -1" "pid \<noteq> current_pid k"
    and ent: "entered pid (get_current_pcb k) t it (start_slot pid k) k'"
    and fr: "proc_frame k k'" "pg k' = set_active_terminal_paging t (if t = display_terminal k then 1 else 0) (setup_task_page pid (pg k))"
      "only_at (launch_cells k pid c) k k'" "c \<le> 4096"
    and t: "t \<in> {0, 1, 2}" "it = 0 \<Longrightarrow> running k (current_pid k) \<and> t = pcb_terminal (blk k (current_pid k))"
  shows "system_ok img k'"
proof -
  obtain names v where I: "layout_inv k" "kbd_inv k" "proc_inv k" "fds_ok k" "kernel_map v (pg k)" "display_terminal k \<in> {0, 1, 2}"
    "sys_inv names k" "get_current_pcb k = get_kernel_stack_bottom (current_pid k)" using system_okD [OF ok] by metis
  have p: "1 \<le> pid" "pid < 8" "process_status k pid = 0" using get_empty_pid_Some [of k] pid by auto
  note N = proc_inv_entered [OF I(3) p pid(3) ent [unfolded I(8)] t]
  note S = proc_frame_sel [OF fr(1)]
  have e: "current_pid k' = pid" "active_terminal k' = t" "pcb_terminal (blk k' pid) = t"
    using ent by (simp_all add: entered_def Let_def)
  have st: "same_static k k'" by (simp add: same_static_def S)
  have vid: "video_inv k'"
    by (rule switched_video [OF kernel_map_setup_task_page [OF I(5), of pid]]) (use S e t I(6) fr(2) in simp_all)
  note L = launch_cells_free [OF I(1) _ p(2) fr(4)]
  have at: "only_at (free_cells k) k k'" by (rule only_at_mono [OF fr(3) L(1)]) (use p in simp)
  have low: "phys k' x = phys k x" if "unat x < 0xC0000" for x
  proof -
    have "x \<notin> launch_cells k pid c" using L(2) [of x] p(1) that by force
    then show ?thesis using fr(3) by (simp add: only_at_def)
  qed
  have scr: "terminal k' s = terminal k s" if "s \<in> {0, 1, 2}" for s by (rule terminal_low [OF low _ _ _ that]) (simp_all add: S)
  have kb: "kbd_inv k'" by (rule frame_kbd [OF I(7) st vid at]) (use S scr kbd_invD(1) [OF I(2)] in simp_all)
  show ?thesis
  proof (rule system_step [OF ok st _ only_at_mono [OF at] kb N(1)])
    show "pcb_fds_ok k (blk k' q)" if "running k' q" for q
    proof (cases "q = pid")
      case True
      then show ?thesis using pcb_fds_fresh [OF N(4)] by simp
    next
      case False
      then show ?thesis using that N(2,3) I(4) by (simp add: fds_ok_def pcb_fds_ok_def streams_ok_def)
    qed
    show "maps_task (current_pid k') (pg k')" unfolding fr(2) e by (rule maps_task_switch)
  qed (use S e in simp_all)
qed

text \<open>A program ends: the slot of the current process is free again.\<close>

lemma running_without:
  assumes "proc_inv k" "running k c" "process_status k' = (process_status k)(c := 0)"
  shows "running k' p \<longleftrightarrow> running k p \<and> p \<noteq> c" "card {p. running k p} = Suc (card {p. running k' p})"
proof -
  show r: "running k' p \<longleftrightarrow> running k p \<and> p \<noteq> c" for p using assms(3) by (auto simp: running_def)
  have "finite {p. running k' p}" by (rule finite_subset [of _ "{0..8}"]) (auto simp: running_def)
  moreover have "{p. running k p} = insert c {p. running k' p}" "c \<notin> {p. running k' p}" using r assms(2) by auto
  ultimately show "card {p. running k p} = Suc (card {p. running k' p})" by simp
qed

lemma proc_inv_left:
  fixes k k' :: "'a proc_scheme"
  assumes inv: "proc_inv k" and c: "running k (current_pid k)" "is_terminal (blk k (current_pid k)) \<noteq> 0" "total_running_process k \<noteq> 1"
    and k': "process_status k' = (process_status k)(current_pid k := 0)" "total_running_process k' = total_running_process k - 1"
      "current_pid k' = current_pid k" "pcbs k' = pcbs k"
  shows "proc_inv k'"
proof -
  let ?c = "current_pid k"
  note P = proc_invD [OF inv] and R = running_without [OF inv c(1) k'(1)]
  have w: "waits k' p q" if "waits k p q" for p q
  proof -
    have "child (blk k p) \<noteq> 0" using that stack_bottom_nonzero [of q] by (simp add: waits_def running_def)
    then have "p \<noteq> ?c" using P(6) by auto
    moreover have "q \<noteq> ?c" using that c(2) by (auto simp: waits_def)
    ultimately show ?thesis using that R(1) k' by (simp add: waits_def)
  qed
  have "pcb_pid (blk k' p) = p \<and> pcb_terminal (blk k' p) \<in> {0, 1, 2} \<and> (child (blk k' p) = 0 \<or> (\<exists>q. waits k' p q)) \<and>
      (is_terminal (blk k' p) = 0 \<longrightarrow> (\<exists>q. waits k' q p))" if "running k' p" for p
    using P(8-11) [of p] that R(1) w k'(4) by auto
  moreover have "child (blk k' p) = 0" if "1 \<le> p" "p < 8" "\<not> running k' p" for p
    using P(6) P(12) [of p] that R(1) k'(4) by (cases "p = ?c") auto
  ultimately show ?thesis using k' P(1-6) R(2) c(3) unfolding proc_inv_def by simp
qed

lemma proc_inv_returned:
  fixes k k' :: "'a proc_scheme"
  assumes inv: "proc_inv k" and w: "waits k par (current_pid k)"
    and k': "process_status k' = (process_status k)(current_pid k := 0)" "total_running_process k' = total_running_process k - 1"
      "current_pid k' = par" "pcbs k' = (pcbs k)(get_kernel_stack_bottom par := (blk k par)\<lparr>child := 0\<rparr>)"
  shows "proc_inv k'"
proof -
  let ?c = "current_pid k" and ?b = "get_kernel_stack_bottom"
  note P = proc_invD [OF inv]
  have c: "running k ?c" "running k par" "child (blk k par) = ?b ?c" "parent (blk k ?c) = ?b par"
    using w by (simp_all add: waits_def)
  note R = running_without [OF inv c(1) k'(1)]
  have inj: "?b p = ?b q \<longleftrightarrow> p = q" if "1 \<le> p" "p < 8" "1 \<le> q" "q < 8" for p q
    using stack_bottom_inj [of p q] that by auto
  have par: "1 \<le> par" "par < 8" "par \<noteq> ?c" using c P(6) stack_bottom_nonzero [of ?c] by (auto simp: running_def)
  have b: "pcb_pid (blk k' p) = pcb_pid (blk k p)" "parent (blk k' p) = parent (blk k p)" "pcb_terminal (blk k' p) = pcb_terminal (blk k p)"
    "is_terminal (blk k' p) = is_terminal (blk k p)" for p by (simp_all add: k'(4))
  have ch: "child (blk k' p) = (if p = par then 0 else child (blk k p))" if "1 \<le> p" "p < 8" for p
    using inj [OF that par(1,2)] by (simp add: k'(4))
  have ws: "waits k' p q" if "waits k p q" "q \<noteq> ?c" for p q
  proof -
    have r: "running k p" "running k q" "1 \<le> p" "p < 8" "1 \<le> q" "q < 8" using that(1) by (auto simp: waits_def running_def)
    have "p \<noteq> ?c" using that(1) P(6) stack_bottom_nonzero [of q] r by (auto simp: waits_def)
    moreover have "p \<noteq> par" using that c(3) inj [of q ?c] r P(3,4) by (auto simp: waits_def)
    ultimately show ?thesis using that r R(1) b ch [of p] by (simp add: waits_def)
  qed
  have "pcb_pid (blk k' p) = p \<and> pcb_terminal (blk k' p) \<in> {0, 1, 2} \<and> (child (blk k' p) = 0 \<or> (\<exists>q. waits k' p q)) \<and>
      (is_terminal (blk k' p) = 0 \<longrightarrow> (\<exists>q. waits k' q p))" if "running k' p" for p
  proof -
    have r: "running k p" "p \<noteq> ?c" "1 \<le> p" "p < 8" using that R(1) by (auto simp: running_def)
    have "p = par" if "waits k p ?c" using that c(4) inj [of p par] par r by (simp add: waits_def)
    then have "child (blk k' p) = 0 \<or> (\<exists>q. waits k' p q)" using P(10) [OF r(1)] ws ch [OF r(3,4)] by auto
    then show ?thesis using P(8,9,11) [OF r(1)] ws r(2) b by auto
  qed
  moreover have "child (blk k' p) = 0" if "1 \<le> p" "p < 8" "\<not> running k' p" for p
    using P(6) P(12) [of p] that R(1) ch [OF that(1,2)] by (cases "p = ?c") auto
  moreover have "0 < card {p. running k' p}"
  proof -
    have "finite {p. running k' p}" by (rule finite_subset [of _ "{0..8}"]) (auto simp: running_def)
    moreover have "par \<in> {p. running k' p}" using R(1) c(2) par(3) by simp
    ultimately show ?thesis by (auto simp: card_gt_0_iff)
  qed
  ultimately show ?thesis
    using k' par P(1) P(8) [OF c(2)] R(2) ch [OF par(1,2)] b unfolding proc_inv_def by simp
qed

text \<open>Steps that only use the kernel's scratch memory.\<close>

lemma system_scratch:
  fixes k k' :: "'a proc_scheme"
  assumes ok: "system_ok img k" and fr: "proc_frame k k'" "pg k' = pg k" "active_terminal k' = active_terminal k" "pcbs k' = pcbs k"
      "process_status k' = process_status k" "total_running_process k' = total_running_process k" "current_pid k' = current_pid k"
    and at: "only_at (bytes_at (fname k) 4096 \<union> bytes_at (tempBuf k) 28) k k'"
  shows "system_ok img k'"
proof -
  let ?S = "bytes_at (fname k) 4096 \<union> bytes_at (tempBuf k) 28"
  obtain names v where I: "layout_inv k" "kbd_inv k" "proc_inv k" "fds_ok k" "maps_task (current_pid k) (pg k)"
    "active_terminal k = pcb_terminal (blk k (current_pid k))" "video_inv k" "sys_inv names k" using system_okD [OF ok] by metis
  note S = proc_frame_sel [OF fr(1)] and L = layout_invD(5,6) [OF I(1)]
  have free: "only_at (free_cells k) k k'" by (rule only_at_mono [OF at]) (auto simp: free_cells_def)
  have "phys k' x = phys k x" if "unat x < 0xC0000" for x
  proof -
    have "x \<notin> ?S" using in_kernel_bytes(3) [OF L(1), of x] in_kernel_bytes(3) [OF L(2), of x] that by auto
    then show ?thesis using at by (simp add: only_at_def)
  qed
  then have scr: "terminal k' s = terminal k s" if "s \<in> {0, 1, 2}" for s by (rule terminal_low [OF _ _ _ _ that]) (simp_all add: S)
  have st: "same_static k k'" by (simp add: same_static_def S)
  have vid: "video_inv k'" by (subst video_inv_cong [of k' k]) (use fr S I(7) in simp_all)
  have kb: "kbd_inv k'" by (rule frame_kbd [OF I(8) st vid free]) (use S scr kbd_invD(1) [OF I(2)] in simp_all)
  have p: "proc_inv k'" using same_procs_inv(1) [of k k'] I(3) fr by (simp add: same_procs_def)
  have "running k' = running k" by (simp add: running_def fr fun_eq_iff)
  then show ?thesis
    by (intro system_step [OF ok st _ only_at_mono [OF free] kb p]) (use S I fr in \<open>auto simp: fds_ok_def\<close>)
qed

text \<open>\<^verbatim>\<open>halt\<close> of the last process: the header of the shell is read again and the shell entered.\<close>

lemma read_shell:
  fixes k :: "'a proc_scheme"
  assumes "sys_inv names k"
  shows "\<exists>k' r. filesys_read_by_name (shell_name k) (tempBuf k) EXEC_INFO_BYTES k = Some (k', r) \<and> mem_only k k' \<and>
    only_at (bytes_at (tempBuf k) 28) k k'"
proof -
  note I = sys_invD [OF assms] and L = layout_invD [OF sys_invD(1) [OF assms]]
  obtain v where v: "kernel_map v (pg k)" using I(10) by blast
  have ok: "fs_ok k" "entry_names k names" using I(2) by (simp_all add: image_ok_def)
  have len: "length shell_string < 2 ^ 31" by (simp add: shell_string_def)
  show ?thesis
  proof (cases "find (\<lambda>i. take 32 (names i) = take 32 shell_string) [0..<nat (num_dir_entry k)]")
    case None
    then have "read_dentry_by_name k (shell_name k) = Some None" using read_dentry_by_name_eq [OF ok(2) I(3) len] by simp
    then show ?thesis by (simp add: filesys_read_by_name_def only_at_def)
  next
    case (Some i)
    then have i: "i < nat (num_dir_entry k)" by (auto simp: find_Some_iff)
    define n where "n = inode (copy_dentry k (of_nat i))"
    define m where "m = min 28 (unat (inode_length k n))"
    have nf: "names_file k names shell_string i n (unat (inode_length k n))"
      using Some I(2) i by (simp add: names_file_def n_def image_ok_def)
    have "apart (translate k) (tempBuf k) m (file_start k) (image_size k)"
    proof (rule apart_mono)
      show "apart (translate k) (tempBuf k) 28 (file_start k) (image_size k)"
        using regions_apart [OF I(1) v, of "tempBuf k" 28 "file_start k" "image_size k" 0 28 0 "image_size k"]
        by (simp add: regions_def image_size_def)
    qed (simp_all add: m_def)
    from read_by_name_eq(2) [OF ok I(3) len nf _ _ _ this, of 28]
    have r: "filesys_read_by_name (shell_name k) (tempBuf k) 28 k = Some (store_bytes k (tempBuf k) (file_part k n 0 m), int m)"
      by (simp add: m_def)
    have "only_at (bytes_at (tempBuf k) 28) k (store_bytes k (tempBuf k) (file_part k n 0 m))"
      by (rule only_at_kernel_store [OF v L(6)]) (simp_all add: m_def file_part_def)
    then show ?thesis using r by (simp add: EXEC_INFO_BYTES_def store_bytes_def mem_only_def)
  qed
qed

text \<open>The frame of a step that ends the current process.\<close>

lemma ended_ok:
  fixes k k' :: "'a proc_scheme"
  assumes ok: "system_ok img k" and p: "proc_inv k'"
    and fr: "same_static k k'" "current_dir_read_index k' = current_dir_read_index k" "cursor_ind k' = cursor_ind k"
    and mem: "only_at {p. unat p < 0x400000} k k'" "\<And>t. t \<in> {0, 1, 2} \<Longrightarrow> aterm_ok (terminal k' t)"
    and vid: "video_inv k'" "maps_task (current_pid k') (pg k')" "active_terminal k' = pcb_terminal (blk k' (current_pid k'))"
    and procs: "\<And>q. running k' q \<Longrightarrow> running k q \<and> file_array (blk k' q) = file_array (blk k q)"
  shows "system_ok img k'"
proof -
  obtain names v where I: "fds_ok k" "sys_inv names k" using system_okD [OF ok] by metis
  have free: "only_at (free_cells k) k k'" by (rule only_at_mono [OF mem(1)]) (auto simp: free_cells_def)
  have kb: "kbd_inv k'" by (rule frame_kbd [OF I(2) fr(1) vid(1) free fr(3) mem(2)])
  show ?thesis
    by (intro system_step [OF ok fr(1,2) only_at_mono [OF free] kb p _ vid(2,3)])
      (use procs I(1) in \<open>auto simp: fds_ok_def pcb_fds_ok_def streams_ok_def\<close>)
qed

lemma halt_ok:
  fixes k :: "'a proc_scheme"
  assumes ok: "system_ok img k" and run: "running k (current_pid k)"
  shows "\<exists>r. halt status k = Some r \<and> system_ok img (state_of r)"
proof -
  let ?c = "current_pid k" and ?b = "get_kernel_stack_bottom"
  obtain names v where I: "layout_inv k" "kbd_inv k" "proc_inv k" "maps_task (current_pid k) (pg k)"
    "active_terminal k = pcb_terminal (blk k (current_pid k))" "video_inv k" "sys_inv names k" "kernel_map v (pg k)"
    "get_current_pcb k = ?b ?c" using system_okD [OF ok] by metis
  note P = proc_invD [OF I(3)]
  consider (last_one) "total_running_process k = 1" | (shell) "total_running_process k \<noteq> 1" "is_terminal (blk k ?c) \<noteq> 0"
    | (child) "total_running_process k \<noteq> 1" "is_terminal (blk k ?c) = 0" by blast
  then show ?thesis
  proof cases
    case last_one
    from read_shell [OF I(7)] obtain k1 r where k1: "filesys_read_by_name (shell_name k) (tempBuf k) EXEC_INFO_BYTES k = Some (k1, r)"
      "mem_only k k1" "only_at (bytes_at (tempBuf k) 28) k k1" by blast
    define k2 where "k2 = sti (cli (k1\<lparr>entry_point := ldw k1 (tempBuf k1 + 24)\<rparr>))"
    have h: "halt status k = Some (To_user k2 (ldw k1 (tempBuf k1 + 24)))"
      using last_one k1(1) by (simp add: halt_def Let_def back_to_user_mode_def k2_def sti_def cli_def)
    have m: "k1 = k\<lparr>phys := phys k1\<rparr>" using k1(2) by (simp add: mem_only_def)
    have "only_at (bytes_at (fname k) 4096 \<union> bytes_at (tempBuf k) 28) k k2"
      using k1(3) by (simp add: only_at_def k2_def sti_def cli_def)
    moreover have "k2 = k\<lparr>iflag := True, phys := phys k1, entry_point := ldw k1 (tempBuf k1 + 24)\<rparr>"
      by (subst m) (simp add: k2_def sti_def cli_def, subst m, simp)
    ultimately have "system_ok img k2"
      by (intro system_scratch [OF ok]) (simp_all add: proc_frame_def)
    then show ?thesis using h by simp
  next
    case shell
    define k1 where "k1 = k\<lparr>total_running_process := total_running_process k - 1, process_status := (process_status k)(?c := 0), iflag := True\<rparr>"
    have h: "halt status k = Some (Spin (clear k1))"
      using shell I(9) P(5) by (simp add: halt_def Let_def k1_def sti_def)
    have v1: "video_inv k1" by (subst video_inv_cong [of k1 k]) (use I(6) in \<open>simp_all add: k1_def\<close>)
    define k2 where "k2 = clear k1"
    obtain p h' x y where e: "k2 = k1\<lparr>phys := p, io := h', screen_x_multi := x, screen_y_multi := y\<rparr>"
      using screen_only_clear [of k1] by (auto simp: screen_only_def k2_def)
    have inv: "proc_inv k2"
      by (rule proc_inv_left [OF I(3) run shell(2,1)]) (simp_all add: e k1_def)
    have d: "display_terminal k \<in> {0, 1, 2}" using I(6) by (simp add: video_inv_def)
    have at: "only_at {p. unat p < 0x400000} k k2"
      using keeps_clear [OF video_invD(2) [OF v1], folded k2_def] page_cells_low [OF d, of _ "display_terminal k"]
      by (fastforce simp: keeps_def only_at_def k1_def)
    have ok': "aterm_ok (terminal k2 t)" if "t \<in> {0, 1, 2}" for t
      using terminal_clear [OF v1 that, folded k2_def] kbd_invD(1) [OF I(2) that] aterm_ok_blank by (simp add: k1_def terminal_def)
    have "system_ok img k2"
    proof (rule ended_ok [OF ok inv _ _ _ at ok'])
      show "video_inv k2" by (subst video_inv_cong [of k2 k1]) (use v1 in \<open>simp_all add: e\<close>)
      show "running k q \<and> file_array (blk k2 q) = file_array (blk k q)" if "running k2 q" for q
        using that by (auto simp: e k1_def running_def split: if_splits)
    qed (use I(4,5) in \<open>simp_all add: e k1_def same_static_def\<close>)
    then show ?thesis using h by (simp add: k2_def)
  next
    case child
    obtain par where w: "waits k par ?c" using P(11) [OF run child(2)] by blast
    have wp: "parent (blk k ?c) = ?b par" "pcb_terminal (blk k par) = pcb_terminal (blk k ?c)" "running k par"
      "1 \<le> par" "par < 8" using w by (simp_all add: waits_def running_def)
    have pp: "pcb_pid (blk k par) = par" using P(8) [OF wp(3)] .
    have ne: "par \<noteq> ?c" using w P(6) stack_bottom_nonzero [of ?c] P(3,4) by (auto simp: waits_def)
    have neb: "?b par \<noteq> ?b ?c" using ne stack_bottom_inj [of par ?c] wp(4,5) P(3,4) by auto
    define k1 where "k1 = k\<lparr>total_running_process := total_running_process k - 1, process_status := (process_status k)(?c := 0),
      pg := setup_task_page par (pg k), current_pid := par, pcbs := (pcbs k)(?b par := (blk k par)\<lparr>child := 0\<rparr>),
      tss_esp0 := ?b par + 0x2000 - 8, tss_ss0 := KERNEL_DS, esp := parent_esp (blk k ?c), ebp := parent_ebp (blk k ?c)\<rparr>"
    have h: "halt status k = Some (Resume k1 (esp k1) (ebp k1))"
      using child I(9) P(5) wp(1) pp neb
      by (simp add: halt_def Let_def k1_def upd_pcb_def ASSIGNED_PCB_SIZE_def MEM_DEFENSE_SIZE_def)
    have inv: "proc_inv k1" by (rule proc_inv_returned [OF I(3) w]) (simp_all add: k1_def)
    have km: "kernel_map v (pg k1)" using kernel_map_setup_task_page [OF I(8)] by (simp add: k1_def)
    have "video_inv k1"
    proof -
      from I(6) have "kernel_map (term_frame (display_terminal k) (active_terminal k)) (pg k)" by (simp add: video_inv_def)
      from kernel_map_setup_task_page [OF this, of par] I(6) show ?thesis by (simp add: video_inv_def k1_def)
    qed
    moreover have "maps_task par (pg k1)" by (simp add: k1_def maps_task_switch)
    moreover have "aterm_ok (terminal k1 t)" if "t \<in> {0, 1, 2}" for t
      using kbd_invD(1) [OF I(2) that] by (simp add: k1_def terminal_def)
    ultimately have "system_ok img k1"
      by (intro ended_ok [OF ok inv]) (use I(5) wp(2) in \<open>auto simp: k1_def same_static_def only_at_def running_def split: if_splits\<close>)
    then show ?thesis using h by simp
  qed
qed

text \<open>\<^verbatim>\<open>execute\<close>, whether it starts the program or refuses the command.\<close>

lemma execute_ok:
  fixes k :: "'a proc_scheme"
  assumes ok: "system_ok img k" and cs: "command \<noteq> 0" "cstring (ldb k) command cs" "length cs < 4096"
    and lay: "\<And>pid. 0 \<le> pid \<Longrightarrow> pid < 8 \<Longrightarrow> launch_layout k command (length cs + 1) pid"
    and slot: "get_empty_pid k \<noteq> current_pid k"
    and t: "t \<in> {0, 1, 2}" "it = 0 \<Longrightarrow> running k (current_pid k) \<and> t = pcb_terminal (blk k (current_pid k))"
  shows "\<exists>r. execute_with_terminal_num command t it k = Some r \<and> system_ok img (state_of r)"
proof -
  obtain names v where I: "image_ok k names" "kernel_map v (pg k)" "1 \<le> current_pid k" "current_pid k < 8"
    "get_current_pcb k = get_kernel_stack_bottom (current_pid k)" using system_okD [OF ok] by metis
  have fs: "fs_ok k" "entry_names k names" using I(1) by (simp_all add: image_ok_def)
  define name where "name = takeWhile (\<lambda>c. c \<noteq> 32) cs"
  define pid where "pid = get_empty_pid k"
  have len: "length cs < 2 ^ 31" using cs(3) by simp
  show ?thesis
  proof (cases "(\<forall>i<nat (num_dir_entry k). take 32 (names i) \<noteq> take 32 name) \<or>
      (\<exists>i n len. names_file k names name i n len \<and> (take 4 (header k n len) \<noteq> executable_checking \<or> get_empty_pid k = -1))")
    case True
    from execute_refused [OF I(2) fs cs(1,2) len lay [of 1] name_def True] obtain k' where
      k': "execute_with_terminal_num command t it k = Some (Ret k' (-1))" "mem_only (cli k) k'"
        "only_at (bytes_at (fname k) (length cs + 1) \<union> bytes_at (tempBuf k) 28) k k'" by fastforce
    have e: "k' = k\<lparr>iflag := False, phys := phys k'\<rparr>" using k'(2) by (simp add: mem_only_def cli_def)
    have at: "only_at (bytes_at (fname k) 4096 \<union> bytes_at (tempBuf k) 28) k k'"
      by (rule only_at_mono [OF k'(3)]) (use bytes_at_mono [of "length cs + 1" 4096 "fname k"] cs(3) in auto)
    have "proc_frame k k'" by (subst e) (simp add: proc_frame_def)
    moreover have "pg k' = pg k" "active_terminal k' = active_terminal k" "pcbs k' = pcbs k" "process_status k' = process_status k"
      "total_running_process k' = total_running_process k" "current_pid k' = current_pid k" by (subst e, simp)+
    ultimately have "system_ok img k'" using system_scratch [OF ok _ _ _ _ _ _ _ at] by blast
    then show ?thesis using k'(1) by simp
  next
    case False
    then obtain i where i: "find (\<lambda>i. take 32 (names i) = take 32 name) [0..<nat (num_dir_entry k)] = Some i"
      by (cases "find (\<lambda>i. take 32 (names i) = take 32 name) [0..<nat (num_dir_entry k)]") (auto simp: find_None_iff)
    then have ib: "i < nat (num_dir_entry k)" by (auto simp: find_Some_iff)
    define n where "n = inode (copy_dentry k (of_nat i))"
    have nf: "names_file k names name i n (unat (inode_length k n))"
      using i ib I(1) by (simp add: names_file_def n_def image_ok_def)
    have g: "take 4 (header k n (unat (inode_length k n))) = executable_checking" "pid \<noteq> -1" using False nf by (auto simp: pid_def)
    have "unat n < nat (num_inodes k)" using nf unfolding names_file_def by blast
    then have ru: "runnable k names command cs i n (unat (inode_length k n))"
      using fs cs(1,2) len nf I(1) by (simp add: runnable_def image_ok_def flip: name_def)
    have p: "1 \<le> pid" "pid < 8" using get_empty_pid_Some [of k] g(2) by (auto simp: pid_def)
    have ne: "pid \<noteq> current_pid k" using slot by (simp add: pid_def)
    have neb: "get_current_pcb k \<noteq> get_kernel_stack_bottom pid"
      unfolding I(5) using ne stack_bottom_inj [of "current_pid k" pid] p I(3,4) by auto
    have lp: "launch_layout k command (length cs + 1) pid" by (rule lay) (use p in auto)
    from execute_enters_any [OF I(2) ru g(1) lp pid_def g(2) neb refl] obtain k' where
      k': "execute_with_terminal_num command t it k = Some (To_user k' (header_entry (header k n (unat (inode_length k n)))))"
        "entered pid (get_current_pcb k) t it (start_slot pid k) k'" "proc_frame k k'"
        "pg k' = set_active_terminal_paging t (if t = display_terminal k then 1 else 0) (setup_task_page pid (pg k))"
        "only_at (launch_cells k pid (length cs + 1)) k k'" by blast
    have "system_ok img k'"
      by (rule launched_ok [OF ok pid_def g(2) ne k'(2-5) _ t]) (use cs(3) in simp_all)
    then show ?thesis using k'(1) by simp
  qed
qed

lemma user_execute_ok:
  fixes k :: "'a proc_scheme"
  assumes ok: "system_ok img k" "running k (current_pid k)"
    and cs: "cstring (ldb k) command cs" "ubuf command (length cs + 1)" "length cs < 4096"
  shows "\<exists>r. execute command k = Some r \<and> system_ok img (state_of r)"
proof -
  obtain names v where I: "layout_inv k" "proc_inv k" "maps_task (current_pid k) (pg k)" "video_inv k" "1 \<le> current_pid k" "current_pid k < 8"
    "get_current_pcb k = get_kernel_stack_bottom (current_pid k)" using system_okD [OF ok(1)] by metis
  have um: "user_map k" using I by (simp add: user_map_def)
  have "get_empty_pid k \<noteq> current_pid k" using get_empty_pid_Some(3) [of k] ok(2) I(5) by (auto simp: running_def)
  moreover have "command \<noteq> 0" using cs(2) by (auto simp: ubuf_def)
  ultimately show ?thesis
    unfolding execute_def I(7) using layout_launch [OF I(1) um cs(2)] cs(3) ok(2) proc_invD(9) [OF I(2) ok(2)]
    by (intro execute_ok [OF ok(1) _ cs(1,3)]) auto
qed

section \<open>Keys\<close>

text \<open>What every key event leaves alone, a switch of the displayed terminal included.\<close>

definition key_frame :: "'a proc_scheme \<Rightarrow> 'a proc_scheme \<Rightarrow> bool" where
  "key_frame k k' \<longleftrightarrow> same_static k k' \<and> pcbs k' = pcbs k \<and> process_status k' = process_status k \<and>
     total_running_process k' = total_running_process k \<and> current_pid k' = current_pid k \<and>
     current_dir_read_index k' = current_dir_read_index k \<and> active_terminal k' = active_terminal k \<and>
     page_dir (pg k') = page_dir (pg k) \<and> only_at (key_cells k) k k'"

lemma key_frame_trans:
  assumes "key_frame k k'" "key_frame k' k''"
  shows "key_frame k k''"
proof -
  have "key_cells k' = key_cells k" using assms(1) by (simp add: key_frame_def same_static_def key_cells_def)
  then have "only_at (key_cells k) k k''"
    using assms only_at_trans [of "key_cells k" k k' k''] by (simp add: key_frame_def)
  then show ?thesis using assms by (simp add: key_frame_def same_static_def)
qed

lemma keyed_frame: "keyed k k' \<Longrightarrow> key_frame k k'"
  by (simp add: keyed_def key_frame_def same_keys_def)

lemma system_key:
  fixes k k' :: "'a proc_scheme"
  assumes "system_ok img k" "key_frame k k'" "kbd_inv k'"
  shows "system_ok img k'"
proof -
  obtain names v where I: "layout_inv k" "proc_inv k" "fds_ok k" "maps_task (current_pid k) (pg k)"
    "active_terminal k = pcb_terminal (blk k (current_pid k))" using system_okD [OF assms(1)] by metis
  have F: "same_static k k'" "pcbs k' = pcbs k" "process_status k' = process_status k"
     "total_running_process k' = total_running_process k" "current_pid k' = current_pid k"
     "current_dir_read_index k' = current_dir_read_index k" "active_terminal k' = active_terminal k"
     "page_dir (pg k') = page_dir (pg k)" "only_at (key_cells k) k k'" using assms(2) by (simp_all add: key_frame_def)
  have at: "only_at (free_cells k \<union> bytes_at (keyboard_buffer k) 387) k k'"
    by (rule only_at_mono [OF F(9)]) (auto simp: key_cells_def free_cells_def)
  have "proc_inv k'" using same_procs_inv(1) [of k k'] I(2) F by (simp add: same_procs_def)
  moreover have "running k' = running k" by (simp add: running_def F fun_eq_iff)
  ultimately show ?thesis
    by (intro system_step [OF assms(1) F(1,6) at assms(3)]) (use F I in \<open>auto simp: fds_ok_def maps_task_def\<close>)
qed

text \<open>Steps of the driver that only change which keys are down.\<close>

lemma key_vars:
  fixes k :: "'a proc_scheme"
  assumes "k' = k\<lparr>pressed_key := p, cap_status := s, hold_num := h\<rparr>"
  shows "key_frame k k'" "kbd_inv k' = kbd_inv k" "kline k' = kline k" "terminal k' = terminal k"
    "system_ok img k \<Longrightarrow> system_ok img k'"
proof -
  show fr: "key_frame k k'" by (simp add: assms key_frame_def same_static_def only_at_def)
  show kb: "kbd_inv k' = kbd_inv k" by (rule kbd_cong) (simp_all add: assms)
  show "terminal k' = terminal k" by (simp add: assms terminal_def fun_eq_iff)
  have "ldb k' = ldb k" by (simp add: fun_eq_iff ldb_def assms)
  then show "kline k' = kline k" by (simp add: assms kline_def fun_eq_iff load_list_def key_row_def)
  show "system_ok img k'" if "system_ok img k"
    using system_key [OF that fr] kb that by (auto elim: system_okD)
qed

lemma backspace_frame:
  fixes k :: "'a proc_scheme"
  assumes inv: "kbd_inv k"
    and org: "kline k (display_terminal k) \<noteq> [] \<Longrightarrow>
      (ax (terminal k (display_terminal k)), ay (terminal k (display_terminal k))) \<noteq> (0, 0)"
    and c: "unat c = SCANCODE_BACKSPACE"
  shows "keyed k (line_keys c k)"
proof -
  let ?d = "display_terminal k"
  note vid = kbd_video [OF inv] and D = kbd_invD [OF inv]
  show ?thesis
  proof (cases "kline k ?d = []")
    case True
    then have "line_keys c k = k"
      using D(2) [OF vid(3)] c by (simp add: line_keys_def get_display_terminal_def scancode_defs)
    then show ?thesis by (simp add: keyed_def same_static_def same_keys_def only_at_def)
  next
    case False
    define n where "n = length (kline k ?d) - 1"
    have "length (kline k ?d) = n + 1" using False by (simp add: n_def)
    then have n: "n < 129" "cursor_ind k ?d = int n + 1" using D(2,3) [OF vid(3)] by simp_all
    define k2 where "k2 = (stb k (key_row k ?d + of_nat n) 0)\<lparr>cursor_ind := (cursor_ind k)(?d := int n)\<rparr>"
    have k2: "line_keys c k = erase_last_ch_display k2"
      using n c unfolding line_keys_def get_display_terminal_def Let_def k2_def
      by (simp add: stb_upd_cursor scancode_defs)
    note w = row_written [OF inv n(1), where v = 0 and m = "int n", folded k2_def]
    have ok: "aterm_ok (terminal k2 (display_terminal k2))" using w(2,4) D(1) vid(3) by simp
    have org2: "(screen_x_multi k2 (display_terminal k2), screen_y_multi k2 (display_terminal k2)) \<noteq> (0, 0)"
      using org False by (simp add: w(4-6) terminal_def)
    have "keeps (term_frame ?d ?d) k2 (erase_last_ch_display k2)"
      using keeps_erase_last_ch_display [OF video_invD(2) [OF w(1)]] ok org2 view_terminal(2) [OF w(1)] w(4) by simp
    then have "keyed k2 (line_keys c k)"
      unfolding k2 by (rule keyed_screen [OF screen_only_erase_last_ch_display _ vid(3)])
    then show ?thesis using keyed_trans [OF keyed_row [OF inv vid(3) n(1)]] unfolding k2_def by blast
  qed
qed

text \<open>A Backspace that finds nothing to erase above the screen.\<close>

definition erasable :: "u8 \<Rightarrow> 'a kbd_scheme \<Rightarrow> bool" where
  "erasable c k \<longleftrightarrow> (let t = display_terminal k in
     unat c = SCANCODE_BACKSPACE \<longrightarrow> kline k t \<noteq> [] \<longrightarrow> (ax (terminal k t), ay (terminal k t)) \<noteq> (0, 0))"

lemma line_keys_ok:
  fixes k :: "'a proc_scheme"
  assumes "system_ok img k" "erasable c k"
  shows "system_ok img (line_keys c k)"
proof -
  obtain names v where inv: "kbd_inv k" using system_okD [OF assms(1)] by metis
  consider "unat c = SCANCODE_ENTER" | "unat c = SCANCODE_BACKSPACE" | "unat c \<notin> {SCANCODE_ENTER, SCANCODE_BACKSPACE}" by auto
  then show ?thesis
  proof cases
    case 1
    then show ?thesis
      using system_key [OF assms(1) keyed_frame [OF enter_row(1) [OF inv 1]]] submit_con(1) [OF inv 1] by blast
  next
    case 2
    have "kline k (display_terminal k) \<noteq> [] \<Longrightarrow>
      (ax (terminal k (display_terminal k)), ay (terminal k (display_terminal k))) \<noteq> (0, 0)"
      using assms(2) 2 by (simp add: erasable_def Let_def)
    then show ?thesis
      using system_key [OF assms(1) keyed_frame [OF backspace_frame [OF inv _ 2]]] backspace_con [OF inv _ 2] by blast
  next
    case 3
    then show ?thesis using assms(1) by (simp add: line_keys_def Let_def)
  qed
qed

lemma type_char_ok:
  fixes k :: "'a proc_scheme"
  assumes "system_ok img k"
  shows "system_ok img (type_char c k)"
proof -
  obtain names v where inv: "kbd_inv k" using system_okD [OF assms] by metis
  then show ?thesis using system_key [OF assms keyed_frame [OF keyed_type]] type_char_con by blast
qed

text \<open>Control-L: the screen and the line of the displayed terminal become empty.\<close>

lemma clear_line_ok:
  fixes k :: "'a proc_scheme"
  assumes ok: "system_ok img k"
  defines "d \<equiv> display_terminal k"
  shows "system_ok img ((memset (clear k) (key_row k d) 0 129)\<lparr>cursor_ind := (cursor_ind k)(d := 0)\<rparr>)"
proof -
  obtain names v where inv: "kbd_inv k" "kernel_map v (pg k)" using system_okD [OF ok] by metis
  note vid = kbd_video [OF inv(1), folded d_def] and D = kbd_invD [OF inv(1)]
  define k1 where "k1 = clear k"
  define k2 where "k2 = store_bytes k1 (key_row k d) (replicate 129 0)"
  define k' where "k' = k2\<lparr>cursor_ind := (cursor_ind k)(d := 0)\<rparr>"
  note so = screen_only_kbd_sel [OF screen_only_clear [of k], folded k1_def]
  have kp: "keeps (term_frame d d) k k1" unfolding k1_def d_def by (rule keeps_clear [OF video_invD(2) [OF vid(1)]])
  have v1: "video_inv k1" by (subst video_inv_cong [of k1 k]) (use vid(1) so in simp_all)
  note rw = key_row_rows(3) [OF vid(2)]
  have rows: "load_list ldb k' (key_row k t) 129 = (if t = d then replicate 129 0 else load_list ldb k (key_row k t) 129)"
    if t: "t \<in> {0, 1, 2}" for t
  proof -
    have 1: "load_list ldb k' (key_row k t) 129 = load_list ldb k2 (key_row k t) 129" by (simp add: k'_def load_list_def ldb_def)
    show ?thesis
    proof (cases "t = d")
      case True
      have "block (translate k1) (key_row k d) 129" using in_kernel_block [OF inv(2) rw [OF vid(3)]] so by simp
      then show ?thesis using True 1 load_list_store_bytes [of k1 "key_row k d" "replicate 129 0" 129] by (simp add: k2_def)
    next
      case False
      have "load_list ldb k2 (key_row k t) 129 = load_list ldb k1 (key_row k t) 129"
        unfolding k2_def by (rule load_list_store_apart) (use key_rows_apart(1) [OF inv(2) vid(2,3) t] False so in simp)
      then show ?thesis using 1 False load_list_keeps [OF vid(1) kp vid(3) rw [OF t]] by simp
    qed
  qed
  have scr: "terminal k' t = (if t = d then aterm_blank else terminal k t)" if t: "t \<in> {0, 1, 2}" for t
  proof -
    have "in_kernel (key_row k d) (length (replicate 129 (0 :: u8)))" using rw [OF vid(3)] by simp
    from terminal_store_bytes [OF v1 this t] have "terminal k2 t = terminal k1 t" by (simp add: k2_def)
    then show ?thesis using terminal_clear [OF vid(1) t, folded k1_def] by (simp add: k'_def terminal_def d_def)
  qed
  let ?L = "\<lambda>t. if t = d then [] else kline k t"
  have "load_list ldb k' (key_row k t) 129 = ?L t @ replicate (129 - length (?L t)) 0"
    "cursor_ind k' t = int (length (?L t)) \<and> length (?L t) \<le> 128"
    "terminal k' t = (if t = d then aterm_blank else terminal k t) \<and> aterm_ok (if t = d then aterm_blank else terminal k t)"
    if t: "t \<in> {0, 1, 2}" for t
    using rows [OF t] scr [OF t] D [OF t] aterm_ok_blank by (simp_all add: k'_def)
  then have kb: "kbd_inv k'" by (rule kbd_invI(1) [OF inv(1), rotated -3]) (use so in \<open>simp_all add: k'_def k2_def\<close>)
  have f1: "keyed k k1" unfolding k1_def by (rule keyed_screen [OF screen_only_clear kp [unfolded k1_def] vid(3)])
  have "key_row k d = keyboard_buffer k + of_nat (129 * nat d)" "129 * nat d + 129 \<le> 387"
    using vid(3) by (auto simp: key_row_def TOTAL_KEY_NUM_def)
  then have "bytes_at (key_row k d) 129 \<subseteq> key_cells k1"
    using bytes_at_sub [of "129 * nat d" 129 387 "keyboard_buffer k"] so by (auto simp: key_cells_def)
  then have "only_at (key_cells k1) k1 k2"
    unfolding k2_def using only_at_kernel_store [of v k1 "key_row k d" 129 "replicate 129 0"] inv(2) rw [OF vid(3)] so by simp
  then have "key_frame k1 k'" by (simp add: key_frame_def same_static_def only_at_def k'_def k2_def store_bytes_def)
  then have "key_frame k k'" by (rule key_frame_trans [OF keyed_frame [OF f1]])
  from system_key [OF ok this kb] show ?thesis by (simp add: k'_def k2_def k1_def memset_store_bytes)
qed

text \<open>Switching the displayed terminal.\<close>

lemma display_frame:
  fixes k :: "'a proc_scheme"
  assumes inv: "kbd_inv k" and t: "t \<in> {0, 1, 2}"
  shows "key_frame k (set_disiplay_terminal t k)" "kbd_inv (set_disiplay_terminal t k)"
    "get_empty_pid (set_disiplay_terminal t k) = get_empty_pid k"
    "terminal_2_running (set_disiplay_terminal t k) = terminal_2_running k"
    "terminal_3_running (set_disiplay_terminal t k) = terminal_3_running k"
proof -
  define k' where "k' = set_disiplay_terminal t k"
  note vid = kbd_video [OF inv] and D = kbd_invD [OF inv]
  obtain w where w: "kernel_map w (pg k)" using vid(1) by (auto simp: video_inv_def)
  have v: "video_inv k'" unfolding k'_def by (rule video_inv_set_disiplay_terminal [OF vid(1) t])
  have dir: "page_dir (pg k') = page_dir (pg k)"
    by (simp add: k'_def set_disiplay_terminal_def set_active_terminal_def Let_def set_active_terminal_paging_eq update_cursor_def outb_def memcpy_def)
  have hi: "phys k' a = phys k a" if "0xBC000 \<le> unat a" for a
    unfolding k'_def by (rule set_disiplay_terminal_other [OF vid(1) t that])
  have at: "only_at (key_cells k) k k'" using hi by (auto simp: only_at_def key_cells_def)
  have sel: "pcbs k' = pcbs k" "process_status k' = process_status k" "total_running_process k' = total_running_process k"
    "current_pid k' = current_pid k" "current_dir_read_index k' = current_dir_read_index k" "same_static k k'"
    "cursor_ind k' = cursor_ind k" "terminal_2_running k' = terminal_2_running k" "terminal_3_running k' = terminal_3_running k"
    "keyboard_buffer k' = keyboard_buffer k" "print_buffer k' = print_buffer k"
    by (simp_all add: k'_def set_disiplay_terminal_def set_active_terminal_def Let_def update_cursor_def outb_def memcpy_def same_static_def)
  show "key_frame k (set_disiplay_terminal t k)"
    using at dir sel set_disiplay_terminal_sel(2) [of t k] by (simp add: key_frame_def flip: k'_def)
  show "get_empty_pid (set_disiplay_terminal t k) = get_empty_pid k"
    using sel by (simp add: get_empty_pid_def empty_pid_from_cong [of k' k] flip: k'_def)
  show "terminal_2_running (set_disiplay_terminal t k) = terminal_2_running k"
    "terminal_3_running (set_disiplay_terminal t k) = terminal_3_running k" using sel by (simp_all flip: k'_def)
  have rows: "load_list ldb k' (key_row k s) 129 = load_list ldb k (key_row k s) 129" if s: "s \<in> {0, 1, 2}" for s
  proof (rule load_list_free)
    fix i :: nat assume i: "i < 129"
    note rw = key_row_rows(3) [OF vid(2) s]
    obtain w' where w': "kernel_map w' (pg k')" using v by (auto simp: video_inv_def)
    have "unat (key_row k s + of_nat i) = unat (key_row k s) + i" by (rule in_kernel_walk(2) [OF w rw i])
    then have "phys k' (key_row k s + of_nat i) = phys k (key_row k s + of_nat i)" using rw by (intro hi) (simp add: in_kernel_def)
    then show "ldb k' (key_row k s + of_nat i) = ldb k (key_row k s + of_nat i)"
      using in_kernel_walk(1) [OF w rw i] in_kernel_walk(1) [OF w' rw i] by (simp add: ldb_def ld_def)
  qed
  have row: "key_row k' = key_row k" by (simp add: key_row_def fun_eq_iff sel)
  have "kbd_layout k'" using vid(2) sel by (simp add: kbd_layout_def)
  then have "kbd_inv k'"
    using inv v rows terminal_set_disiplay_terminal [OF vid(1) t, folded k'_def] by (simp add: kbd_inv_def kline_def row sel)
  then show "kbd_inv (set_disiplay_terminal t k)" by (simp add: k'_def)
qed

lemma display_ok:
  fixes k :: "'a proc_scheme"
  assumes "system_ok img k" "t \<in> {0, 1, 2}"
  shows "system_ok img (set_disiplay_terminal t k)"
proof -
  obtain names v where inv: "kbd_inv k" using system_okD [OF assms(1)] by metis
  show ?thesis by (rule system_key [OF assms(1) display_frame(1,2) [OF inv assms(2)]])
qed

lemma start_terminal_ok:
  fixes k :: "'a proc_scheme"
  assumes ok: "system_ok img k" and slot: "get_empty_pid k \<noteq> current_pid k" and t: "t \<in> {0, 1, 2}"
    and cont: "\<And>k'. system_ok img k' \<Longrightarrow> \<exists>r. cont k' = Some r \<and> system_ok img (state_of r)"
  shows "\<exists>r. start_terminal t k cont = Some r \<and> system_ok img (state_of r)"
proof -
  obtain names v where I: "layout_inv k" "kernel_map v (pg k)" "sys_inv names k" using system_okD [OF ok] by metis
  have "in_kernel (shell_name k) 6" by (rule layout_invD(2) [OF I(1)])
  then have "shell_name k \<noteq> 0" by (auto simp: in_kernel_def)
  moreover have "length shell_string = 5" by (simp add: shell_string_def)
  ultimately have "\<exists>r. execute_with_terminal_num (shell_name k) t 1 k = Some r \<and> system_ok img (state_of r)"
    using layout_shell [OF I(1,2)] by (intro execute_ok [OF ok _ sys_invD(3) [OF I(3)] _ _ slot t]) simp_all
  then obtain r where r: "execute_with_terminal_num (shell_name k) t 1 k = Some r" "system_ok img (state_of r)" by blast
  then show ?thesis using cont by (cases r) (simp_all add: start_terminal_def)
qed

lemma key_flags_ok:
  fixes k :: "'a proc_scheme"
  assumes "system_ok img k"
  shows "system_ok img (k\<lparr>terminal_2_running := v\<rparr>)" "system_ok img (k\<lparr>terminal_3_running := v\<rparr>)"
proof -
  obtain names w where inv: "kbd_inv k" using system_okD [OF assms] by metis
  have "kbd_inv (k\<lparr>terminal_2_running := v\<rparr>) = kbd_inv k" "kbd_inv (k\<lparr>terminal_3_running := v\<rparr>) = kbd_inv k"
    by (rule kbd_cong; simp)+
  then show "system_ok img (k\<lparr>terminal_2_running := v\<rparr>)" "system_ok img (k\<lparr>terminal_3_running := v\<rparr>)"
    using inv by (intro system_key [OF assms]; simp add: key_frame_def same_static_def only_at_def)+
qed

lemma alt_keys_ok:
  fixes k :: "'a proc_scheme"
  assumes ok: "system_ok img k" and slot: "unat c \<in> {SCANCODE_F2, SCANCODE_F3} \<Longrightarrow> get_empty_pid k \<noteq> current_pid k"
    and cont: "\<And>k'. unat c \<in> {SCANCODE_F1, SCANCODE_F2, SCANCODE_F3} \<Longrightarrow> system_ok img k' \<Longrightarrow>
        \<exists>r. cont k' = Some r \<and> system_ok img (state_of r)"
      "\<exists>r. cont k = Some r \<and> system_ok img (state_of r)"
  shows "\<exists>r. alt_keys c k cont = Some r \<and> system_ok img (state_of r)"
proof -
  obtain names v where inv: "kbd_inv k" using system_okD [OF ok] by metis
  have disp: "system_ok img (set_disiplay_terminal t k)" "get_empty_pid (set_disiplay_terminal t k) = get_empty_pid k"
    "current_pid (set_disiplay_terminal t k) = current_pid k" if "t \<in> {0, 1, 2}" for t
    using display_ok [OF ok that] display_frame(1,3) [OF inv that] by (simp_all add: key_frame_def)
  have gep: "get_empty_pid (k\<lparr>terminal_2_running := v\<rparr>) = get_empty_pid k" "get_empty_pid (k\<lparr>terminal_3_running := v\<rparr>) = get_empty_pid k"
    for k :: "'a proc_scheme" and v
    by (simp_all add: get_empty_pid_def empty_pid_from_cong [of "k\<lparr>terminal_2_running := v\<rparr>" k]
        empty_pid_from_cong [of "k\<lparr>terminal_3_running := v\<rparr>" k])
  consider "unat c = SCANCODE_F1" | "unat c = SCANCODE_F2" | "unat c = SCANCODE_F3"
    | "unat c \<notin> {SCANCODE_F1, SCANCODE_F2, SCANCODE_F3}" by auto
  then show ?thesis
  proof cases
    case 1
    then show ?thesis using cont(1) disp(1) [of 0] by (simp add: alt_keys_def)
  next
    case 2
    let ?k = "set_disiplay_terminal 1 k"
    have "\<exists>r. start_terminal 1 (?k\<lparr>terminal_2_running := 1\<rparr>) cont = Some r \<and> system_ok img (state_of r)"
      by (rule start_terminal_ok [OF key_flags_ok(1)]) (use disp [of 1] slot cont(1) 2 gep in simp_all)
    then show ?thesis using 2 cont(1) disp(1) [of 1] by (simp add: alt_keys_def Let_def scancode_defs)
  next
    case 3
    let ?k = "set_disiplay_terminal 2 k"
    have "\<exists>r. start_terminal 2 (?k\<lparr>terminal_3_running := 1\<rparr>) cont = Some r \<and> system_ok img (state_of r)"
      by (rule start_terminal_ok [OF key_flags_ok(2)]) (use disp [of 2] slot cont(1) 3 gep in simp_all)
    then show ?thesis using 3 cont(1) disp(1) [of 2] by (simp add: alt_keys_def Let_def scancode_defs)
  next
    case 4
    then show ?thesis using cont(2) by (simp add: alt_keys_def)
  qed
qed

text \<open>
  The keys the driver handles safely: Backspace has no character of its own and is not pressed with the
  cursor in the top left corner while there is text to erase, and a terminal is not started into the slot of a
  process that has just ended and is still current.
\<close>

definition key_ok :: "u8 \<Rightarrow> 'a proc_scheme \<Rightarrow> bool" where
  "key_ok c k \<longleftrightarrow> erasable c k \<and> (unat c = SCANCODE_BACKSPACE \<longrightarrow> scancodes_map k SCANCODE_BACKSPACE = 0) \<and>
     (unat c \<in> {SCANCODE_F2, SCANCODE_F3} \<longrightarrow> get_empty_pid k \<noteq> current_pid k)"

lemma key_step_ok:
  fixes k :: "'a proc_scheme"
  assumes ok: "system_ok img k" and key: "key_ok c k"
  shows "\<exists>r. scancode_processing c k = Some r \<and> system_ok img (state_of r)"
proof (cases "unat c > 127")
  case True
  define k1 where "k1 = k\<lparr>pressed_key := (pressed_key k)(unat c - 128 := 0), cap_status := cap_status k, hold_num := hold_num k - 1\<rparr>"
  have "scancode_processing c k = Some (Ret k1 0)"
    using True by (simp add: scancode_processing_def MAX_KEY_IND_def line_keys_def scancode_defs k1_def Let_def)
  then show ?thesis using key_vars(5) [OF k1_def ok] by simp
next
  case False
  define k1 where "k1 = k\<lparr>pressed_key := (pressed_key k)(unat c := 1),
    cap_status := (if unat c = SCANCODE_CAPSLOCK then 1 - cap_status k else cap_status k), hold_num := hold_num k + 1\<rparr>"
  note V = key_vars [OF k1_def]
  have sel: "scancodes_map k1 = scancodes_map k" "display_terminal k1 = display_terminal k" "current_pid k1 = current_pid k"
    "get_empty_pid k1 = get_empty_pid k" by (simp_all add: k1_def get_empty_pid_def empty_pid_from_cong [of k1 k, unfolded k1_def])
  have ok1: "system_ok img k1" by (rule V(5) [OF ok])
  have er: "erasable c k1" using key by (simp add: key_ok_def erasable_def Let_def sel V(3,4))
  let ?cont = "\<lambda>k :: 'a proc_scheme. Some (Ret (line_keys c k) 0)"
  have plain: "\<exists>r. ?cont k' = Some r \<and> system_ok img (state_of r)" if "system_ok img k'" "erasable c k'" for k' :: "'a proc_scheme"
    using line_keys_ok [OF that] by simp
  have other: "erasable c k'" if "unat c \<noteq> SCANCODE_BACKSPACE" for k' :: "'a proc_scheme" using that by (simp add: erasable_def)
  have form: "scancode_processing c k =
      (if unat c = SCANCODE_L \<and> pressed_key k1 SCANCODE_LEFTCONTROL = 1
       then ?cont ((memset (clear k1) (key_row k1 (display_terminal k1)) 0 129)\<lparr>cursor_ind := (cursor_ind k1)(display_terminal k1 := 0)\<rparr>)
       else if pressed_key k1 SCANCODE_LEFTALT = 1 then alt_keys c k1 ?cont
       else if scancodes_map k1 (unat c) \<noteq> 0 then ?cont (type_char c k1) else ?cont k1)"
  proof -
    have clear: "cursor_ind (clear k1) = cursor_ind k1" "keyboard_buffer (clear k1) = keyboard_buffer k1"
      using screen_only_kbd_sel [OF screen_only_clear [of k1]] by simp_all
    let ?K = "k\<lparr>pressed_key := (pressed_key k)(unat c := 1)\<rparr>\<lparr>hold_num := hold_num (k\<lparr>pressed_key := (pressed_key k)(unat c := 1)\<rparr>) + 1\<rparr>"
    have e: "(if unat c = SCANCODE_CAPSLOCK then ?K\<lparr>cap_status := 1 - cap_status ?K\<rparr> else ?K) = k1" by (simp add: k1_def)
    show ?thesis
      using False unfolding scancode_processing_def Let_def MAX_KEY_IND_def get_display_terminal_def e
      by (simp add: memset_def TOTAL_KEY_NUM_def key_row_def clear cong: if_cong)
  qed
  consider (control) "unat c = SCANCODE_L" "pressed_key k1 SCANCODE_LEFTCONTROL = 1"
    | (alt) "\<not> (unat c = SCANCODE_L \<and> pressed_key k1 SCANCODE_LEFTCONTROL = 1)" "pressed_key k1 SCANCODE_LEFTALT = 1"
    | (text_key) "\<not> (unat c = SCANCODE_L \<and> pressed_key k1 SCANCODE_LEFTCONTROL = 1)" "pressed_key k1 SCANCODE_LEFTALT \<noteq> 1"
        "scancodes_map k1 (unat c) \<noteq> 0"
    | (none) "\<not> (unat c = SCANCODE_L \<and> pressed_key k1 SCANCODE_LEFTCONTROL = 1)" "pressed_key k1 SCANCODE_LEFTALT \<noteq> 1"
        "scancodes_map k1 (unat c) = 0" by blast
  then show ?thesis
  proof cases
    case control
    then have "unat c \<noteq> SCANCODE_BACKSPACE" by (simp add: scancode_defs)
    from plain [OF clear_line_ok [OF ok1] other [OF this]] show ?thesis using control by (simp add: form)
  next
    case alt
    have "\<exists>r. alt_keys c k1 ?cont = Some r \<and> system_ok img (state_of r)"
    proof (rule alt_keys_ok [OF ok1])
      show "get_empty_pid k1 \<noteq> current_pid k1" if "unat c \<in> {SCANCODE_F2, SCANCODE_F3}"
        using key that by (auto simp: key_ok_def sel)
      show "\<exists>r. ?cont k' = Some r \<and> system_ok img (state_of r)"
        if "unat c \<in> {SCANCODE_F1, SCANCODE_F2, SCANCODE_F3}" "system_ok img k'" for k' :: "'a proc_scheme"
        by (rule plain [OF that(2) other]) (use that(1) in \<open>auto simp: scancode_defs\<close>)
    qed (rule plain [OF ok1 er])
    then show ?thesis unfolding form if_not_P [OF alt(1)] if_P [OF alt(2)] .
  next
    case text_key
    then have "unat c \<noteq> SCANCODE_BACKSPACE" using key by (auto simp: key_ok_def sel)
    from plain [OF type_char_ok [OF ok1] other [OF this], of c] show ?thesis using text_key by (auto simp: form)
  next
    case none
    then show ?thesis using line_keys_ok [OF ok1 er] by (auto simp: form)
  qed
qed

section \<open>The transition system\<close>

text \<open>
  What drives the kernel: an interrupt of the timer or of the clock, one key code, a store of the running program
  into its page, and its \<^verbatim>\<open>int 0x80\<close>.
\<close>

datatype event =
    Timer
  | Clock
  | Key u8
  | Store u32 u8
  | Trap u32 u32 u32 u32

definition handle :: "device \<Rightarrow> event \<Rightarrow> 'a proc_scheme \<Rightarrow> 'a proc_scheme outcome option" where
  "handle dev e k = (case e of
     Timer \<Rightarrow> pit_handler k
   | Clock \<Rightarrow> Some (Ret (rtc_interrupt_handler dev k) 0)
   | Key c \<Rightarrow> scancode_processing c k
   | Store a c \<Rightarrow> Some (Ret (stb k a c) 0)
   | Trap eax ebx ecx edx \<Rightarrow> system_call dev eax ebx ecx edx k)"

text \<open>
  The events covered: a program only acts while it runs, its stores stay in its page, it ends, starts a
  program with a command line in its page, or makes another call with arguments in its page.
\<close>

definition command_ok :: "u32 \<Rightarrow> 'a proc_scheme \<Rightarrow> bool" where
  "command_ok a k \<longleftrightarrow> (\<exists>cs. cstring (ldb k) a cs \<and> ubuf a (length cs + 1) \<and> length cs < 4096)"

definition event_ok :: "event \<Rightarrow> 'a proc_scheme \<Rightarrow> bool" where
  "event_ok e k = (case e of
     Timer \<Rightarrow> True
   | Clock \<Rightarrow> True
   | Key c \<Rightarrow> key_ok c k
   | Store a c \<Rightarrow> running k (current_pid k) \<and> ubuf a 1
   | Trap eax ebx ecx edx \<Rightarrow> running k (current_pid k) \<and>
       (eax = 1 \<or> eax = 2 \<and> command_ok ebx k \<or> call_ok eax ebx ecx edx (kview k)))"

lemma clock_ok:
  fixes k :: "'a proc_scheme"
  assumes "system_ok img k"
  shows "system_ok img (rtc_interrupt_handler dev k)"
proof -
  obtain names w where inv: "kbd_inv k" using system_okD [OF assms] by metis
  define k' where "k' = rtc_interrupt_handler dev k"
  note d = k'_def rtc_interrupt_handler_def interruption_test_def send_eoi_def Let_def outb_def inb_def cli_def sti_def
  have "kbd_inv k' = kbd_inv k" by (rule kbd_cong) (simp_all add: d)
  moreover have "key_frame k k'" by (simp add: key_frame_def same_static_def only_at_def d)
  ultimately show ?thesis using system_key [OF assms] inv by (simp add: k'_def)
qed

lemma handle_ok:
  fixes k :: "'a proc_scheme"
  assumes ok: "system_ok img k" and e: "event_ok e k"
  shows "\<exists>r. handle dev e k = Some r \<and> system_ok img (state_of r)"
proof (cases e)
  case (Store a c)
  then have u: "user_inv img k" "ubuf a 1" using ok e by (simp_all add: system_ok_user event_ok_def)
  from kos.store [OF this] have "user_inv img (stb k a c)" by (simp add: kernel_os_def)
  then show ?thesis using Store by (simp add: handle_def system_ok_user)
next
  case (Trap eax ebx ecx edx)
  have run: "running k (current_pid k)" using e Trap by (simp add: event_ok_def)
  consider "eax = 1" | "eax = 2" "command_ok ebx k" | "call_ok eax ebx ecx edx (kview k)" using e Trap by (auto simp: event_ok_def)
  then show ?thesis
  proof cases
    case 1
    then show ?thesis using halt_ok [OF ok run] Trap by (simp add: handle_def system_call_def)
  next
    case 2
    then show ?thesis using user_execute_ok [OF ok run] Trap by (auto simp: handle_def system_call_def command_ok_def)
  next
    case 3
    have "user_inv img k" using ok run by (simp add: system_ok_user)
    from system_call_refines [OF this 3, of dev] show ?thesis using Trap by (auto simp: handle_def system_ok_user)
  qed
qed (use tick_ok [OF ok] clock_ok [OF ok] key_step_ok [OF ok] e in \<open>auto simp: handle_def event_ok_def\<close>)

inductive reach :: "device \<Rightarrow> 'a proc_scheme \<Rightarrow> 'a proc_scheme \<Rightarrow> bool" for dev k0 where
  start: "reach dev k0 k0"
| event: "reach dev k0 k \<Longrightarrow> event_ok e k \<Longrightarrow> handle dev e k = Some r \<Longrightarrow> reach dev k0 (state_of r)"

lemma reach_ok:
  assumes "reach dev k0 k" "system_ok img k0"
  shows "system_ok img k"
  using assms
proof (induction rule: reach.induct)
  case (event k e r)
  then show ?case using handle_ok [of img k e dev] by auto
qed

end
