(* ===== verification/UserVideo.thy ===== *)
theory UserVideo
  imports System UserShell
begin

text \<open>
  Programs that draw and keep time: the window onto the screen that \<^verbatim>\<open>vidmap\<close> gives to a program, and
  reads of the clock that wait for its interrupt. Interface \<open>user_screen\<close>, an extension of \<open>user_os\<close>,
  interpreted on the kernel with the interrupts of the clock.
\<close>

section \<open>The window of a program onto the screen\<close>

definition aterm_poke :: "nat \<Rightarrow> u8 \<Rightarrow> aterm \<Rightarrow> aterm" where
  "aterm_poke i c T = T\<lparr>agrid := (agrid T)[i := (c, snd (agrid T ! i))]\<rparr>"

lemma aterm_ok_poke [simp]: "aterm_ok (aterm_poke i c T) = aterm_ok T"
  by (simp add: aterm_poke_def aterm_ok_def)

lemma shows_frame_user:
  assumes "kernel_map v g"
  shows "shows_frame VIDEO_USER v g"
  unfolding shows_frame_def
proof (intro allI impI)
  fix off :: nat assume off: "off < 4096"
  define n :: "20 word" where "n = 0xA0B8"
  have n: "unat (drop_bit 10 n) = USER_VIDEO_START" "unat (take_bit 10 n) = VIDEO_IND" "VIDEO_USER + of_nat off = in_page n off"
    by (simp_all add: n_def paging_consts VIDEO_USER_def in_page_def)
  have "user_video_page_table g VIDEO_IND = (user_pte VIDEO_IND)\<lparr>pt_page_address := v\<rparr>"
    using assms by (simp add: kernel_map_def maps_video_def)
  then show "walk g (VIDEO_USER + of_nat off) = Some (in_page v off)"
    unfolding n(3) using kernel_mapD [OF assms] off walk_in_page [of g off n "user_video_page_table g"]
    by (simp add: n(1,2) table_at_user_video user_pte_def kernel_pte_def VIDEO_IND_def)
qed

lemma frame_grid_poke:
  assumes "i < 2000"
  shows "frame_grid v (p(in_page v (2 * i) := c)) = (frame_grid v p)[i := (c, snd (frame_grid v p ! i))]"
proof (rule nth_equalityI)
  fix j assume "j < length (frame_grid v (p(in_page v (2 * i) := c)))"
  then have j: "j < 2000" by (simp add: frame_grid_def)
  then have "in_page v (2 * j) = in_page v (2 * i) \<longleftrightarrow> j = i" "in_page v (2 * j + 1) \<noteq> in_page v (2 * i)"
    using assms by (auto simp: in_page_inj) presburger
  then show "frame_grid v (p(in_page v (2 * i) := c)) ! j = (frame_grid v p)[i := (c, snd (frame_grid v p ! i))] ! j"
    using j assms by (auto simp: frame_grid_def nth_list_update)
qed (simp add: frame_grid_def)

lemma user_poke:
  fixes k :: "'a proc_scheme" and c :: u8
  assumes "user_inv img k" "i < 2000"
  defines "k' \<equiv> stb k (VIDEO_USER + of_nat (2 * i)) c"
  shows "user_inv img k'" "quiet k k'" "kview k' = (kview k)\<lparr>uout := aterm_poke i c (uout (kview k))\<rparr>"
proof -
  obtain names where U: "user_map k" "kbd_inv k" "0 \<le> current_dir_read_index k" "active_terminal k \<in> {0, 1, 2}" "video_inv k"
    using user_invD [OF assms(1)] by metis
  let ?t = "active_terminal k"
  let ?v = "term_frame (display_terminal k) ?t"
  have sh: "shows_frame VIDEO_USER ?v (pg k)" using shows_frame_user U(5) by (simp add: video_inv_def)
  have off: "2 * i < 4096" using assms(2) by simp
  have K: "keeps ?v k k'" unfolding k'_def by (rule keeps_stb [OF sh off])
  have e: "k' = k\<lparr>phys := (phys k)(in_page ?v (2 * i) := c)\<rparr>"
    using sh off by (simp add: k'_def stb_def st_def shows_frame_def del: of_nat_mult)
  note M = keeps_memory [OF U(1,4) K]
  have q: "quiet k k'" using M(3) unfolding quiet_def same_static_def same_procs_def same_keys_def by (simp add: e)
  have sel: "pcbs k' = pcbs k" "get_current_pcb k' = get_current_pcb k" "current_pid k' = current_pid k"
    "print_row k' = print_row k" "arg_row k' = arg_row k" "active_terminal k' = active_terminal k"
    "current_dir_read_index k' = current_dir_read_index k"
    "arg_available k' = arg_available k" "terminal_read_ready k' = terminal_read_ready k" "next_interrupt k' = next_interrupt k"
    by (simp_all add: e get_current_pcb_def fun_eq_iff print_row_def arg_row_def)
  have o: "terminal k' ?t = aterm_poke i c (terminal k ?t)"
    by (simp add: terminal_def e frame_grid_poke [OF assms(2)] aterm_poke_def)
  have "terminal k' u = terminal k u" if "u \<in> {0, 1, 2}" "u \<noteq> ?t" for u
    by (rule terminal_keeps [OF K U(4) that]) (simp_all add: e)
  then have ok: "aterm_ok (terminal k' u)" if "u \<in> {0, 1, 2}" for u
    using that kbd_invD(1) [OF U(2) that] o by (cases "u = ?t") auto
  have "0 \<le> current_dir_read_index k'" using U(3) sel by simp
  note I = user_inv_mem [OF assms(1) q sel(1) ok this]
  show "user_inv img k'" by (rule I(1))
  show "quiet k k'" by (rule q)
  note R = user_rows_in_kernel [OF assms(1)]
  show "kview k' = (kview k)\<lparr>uout := aterm_poke i c (uout (kview k))\<rparr>" (is "_ = ?V")
  proof (rule uview.equality)
    show "umem (kview k') = umem ?V" using M(1) by (simp add: kview_def fun_eq_iff)
    show "ufds (kview k') = ufds ?V" using I(3) by (simp add: kview_def sel cong: if_cong)
    show "urow (kview k') = urow ?V" using M(2) [OF R(1)] by (simp add: kview_def sel)
    show "uargs (kview k') = uargs ?V" using M(2) [OF R(2)] by (simp add: kview_def sel)
  qed (simp_all add: kview_def sel o)
qed

section \<open>Waiting for the clock\<close>

text \<open>
  A read of the clock waits in the kernel until the interrupt of the clock has come: when the call is
  still waiting, the handler runs and the call goes on.
\<close>

definition clock_trap :: "device \<Rightarrow> u32 \<Rightarrow> u32 \<Rightarrow> u32 \<Rightarrow> u32 \<Rightarrow> 'a proc_scheme \<Rightarrow> ('a proc_scheme \<times> int) option" where
  "clock_trap dev eax ebx ecx edx k =
     (case system_call dev eax ebx ecx edx k of
        Some (Ret k' r) \<Rightarrow> Some (k', r)
      | Some _ \<Rightarrow> None
      | None \<Rightarrow> trap dev eax ebx ecx edx (rtc_interrupt_handler dev k))"

definition clock_os :: "device \<Rightarrow> ('a proc_scheme) os" where
  "clock_os dev = \<lparr>os_load = ldb, os_store = stb, os_call = clock_trap dev\<rparr>"

lemma clock_tick:
  fixes k :: "'a proc_scheme"
  assumes "user_inv img k"
  shows "user_inv img (rtc_interrupt_handler dev k)" "kview (rtc_interrupt_handler dev k) = (kview k)\<lparr>utick := True\<rparr>"
proof -
  define k' where "k' = rtc_interrupt_handler dev k"
  note d = k'_def rtc_interrupt_handler_def interruption_test_def send_eoi_def Let_def outb_def inb_def cli_def sti_def
  have q: "quiet k k'" unfolding quiet_def same_static_def same_procs_def same_keys_def only_at_def by (simp add: d)
  have m: "ldb k' = ldb k" "load_list ldb k' = load_list ldb k" "terminal k' = terminal k" "pcbs k' = pcbs k"
    by (simp_all add: fun_eq_iff ldb_def load_list_def terminal_def d)
  obtain names where "kbd_inv k" "0 \<le> current_dir_read_index k" using user_invD [OF assms] by metis
  then have ok: "\<And>t. t \<in> {0, 1, 2} \<Longrightarrow> aterm_ok (terminal k' t)" "0 \<le> current_dir_read_index k'"
    using kbd_invD(1) by (auto simp: m) (simp add: d)
  note I = user_inv_mem [OF assms q m(4) ok]
  show "user_inv img (rtc_interrupt_handler dev k)" using I(1) by (simp add: k'_def)
  have sel: "get_current_pcb k' = get_current_pcb k" "current_pid k' = current_pid k"
    "print_row k' = print_row k" "arg_row k' = arg_row k" "active_terminal k' = active_terminal k"
    "current_dir_read_index k' = current_dir_read_index k"
    "arg_available k' = arg_available k" "terminal_read_ready k' = terminal_read_ready k" "next_interrupt k' = 1"
    by (simp_all add: d get_current_pcb_def fun_eq_iff print_row_def arg_row_def)
  have "ufds (kview k') = ufds (kview k)" using I(3) by (simp add: kview_def sel m cong: if_cong)
  then show "kview (rtc_interrupt_handler dev k) = (kview k)\<lparr>utick := True\<rparr>"
    unfolding k'_def [symmetric]
    by (intro uview.equality) (simp_all only: kview_def sel m uview.simps uview.update_convs uview.select_convs, simp_all)
qed

lemma clock_waits:
  fixes k :: "'a proc_scheme"
  assumes "0 \<le> sint ebx" "sint ebx < 8" "ufds (kview k) (nat (sint ebx)) = Fd_clock" "\<not> utick (kview k)"
  shows "system_call dev 3 ebx ecx edx k = None \<or> sint ebx = 1"
proof -
  let ?d = "file_array (pcbs k (get_current_pcb k)) (nat (sint ebx))"
  have "abs_fd k ?d = Fd_clock" using assms(1-3) by (auto simp: kview_def split: if_splits)
  then have "flags ?d \<noteq> 0" "fd_read ?d = Op_rtc_read" by (auto simp: abs_fd_def split: if_splits fop.splits)
  moreover have "next_interrupt k = 0" using assms(4) by (simp add: kview_def)
  ultimately show ?thesis
    using assms(1,2) by (simp add: system_call_def read_file_def FDT_SIZE_def call_op_def rtc_read_wrapper_def rtc_read_def sti_def)
qed

lemma user_clock_read:
  fixes k :: "'a proc_scheme"
  assumes "user_inv img k" "0 \<le> sint ebx" "sint ebx < 8" "ufds (kview k) (nat (sint ebx)) = Fd_clock"
  shows "\<exists>k'. clock_trap dev 3 ebx ecx edx k = Some (k', 0) \<and> user_inv img k' \<and> kview k' = (kview k)\<lparr>utick := False\<rparr>"
proof -
  have ne: "sint ebx \<noteq> 1" using kview_ok [OF assms(1)] assms(4) by (auto simp: view_ok_def)
  have go: "\<exists>k'. trap dev 3 ebx ecx edx k1 = Some (k', 0) \<and> user_inv img k' \<and> kview k' = (kview k)\<lparr>utick := False\<rparr>"
    if "user_inv img k1" "kview k1 = (kview k)\<lparr>utick := True\<rparr>" for k1 :: "'a proc_scheme"
    using kos.call [OF that(1), of 3 ebx ecx edx dev] assms(2-4) ne
    by (simp add: that(2) call_ok_def read_ok_def u_call_def u_read_def kernel_os_def)
  show ?thesis
  proof (cases "utick (kview k)")
    case True
    then have "kview k = (kview k)\<lparr>utick := True\<rparr>" by simp
    from go [OF assms(1) this] show ?thesis
      by (auto simp: trap_def clock_trap_def split: option.splits outcome.splits)
  next
    case False
    from go [OF clock_tick [OF assms(1)]] show ?thesis
      using clock_waits [OF assms(2-4) False] ne by (simp add: clock_trap_def)
  qed
qed

section \<open>The contract\<close>

text \<open>An integer variable of the program in its memory.\<close>

definition os_store_int :: "'w os \<Rightarrow> 'w \<Rightarrow> u32 \<Rightarrow> u32 \<Rightarrow> 'w" where
  "os_store_int os w a v = store_list (os_store os) w a [byte_of v 0, byte_of v 1, byte_of v 2, byte_of v 3]"

context user_os
begin

lemma store_list_ok:
  "inv w \<Longrightarrow> ubuf a (length vs) \<Longrightarrow> inv (store_list (os_store os) w a vs) \<and> view (store_list (os_store os) w a vs) = set_mem a vs (view w)"
proof (induction vs arbitrary: w a)
  case (Cons v vs)
  have "ubuf a 1" using ubuf_off(2) [OF Cons.prems(2), of 0] by simp
  note s = store [OF Cons.prems(1) this, of v]
  have "vs = [] \<or> ubuf (a + 1) (length vs)" using ubuf_off(1) [OF Cons.prems(2), of 1] Cons.prems(2) by (auto simp: ubuf_def)
  then show ?case using Cons.IH [of "os_store os w a v" "a + 1"] s by (auto simp: set_mem_def put_bytes_def)
qed (simp add: set_mem_def put_bytes_def)

lemma store_int_ok:
  assumes "inv w" "ubuf a 4"
  shows "inv (os_store_int os w a v)" "view (os_store_int os w a v) = set_mem a [byte_of v 0, byte_of v 1, byte_of v 2, byte_of v 3] (view w)"
  using store_list_ok [OF assms(1), of a "[byte_of v 0, byte_of v 1, byte_of v 2, byte_of v 3]"] assms(2)
  by (simp_all add: os_store_int_def numeral_eq_Suc)

end

locale user_screen = user_os +
  assumes poke: "inv w \<Longrightarrow> i < 2000 \<Longrightarrow> inv (os_store os w (VIDEO_USER + of_nat (2 * i)) c) \<and>
      view (os_store os w (VIDEO_USER + of_nat (2 * i)) c) = (view w)\<lparr>uout := aterm_poke i c (uout (view w))\<rparr>"
    and clock: "inv w \<Longrightarrow> 0 \<le> sint ebx \<Longrightarrow> sint ebx < 8 \<Longrightarrow> ufds (view w) (nat (sint ebx)) = Fd_clock \<Longrightarrow>
      \<exists>w'. os_call os 3 ebx ecx edx w = Some (w', 0) \<and> inv w' \<and> view w' = (view w)\<lparr>utick := False\<rparr>"
begin

lemma clock_read:
  assumes "inv w" "0 \<le> fd" "fd < 8" "ufds (view w) (nat fd) = Fd_clock"
  shows "\<exists>w'. ece391_read os fd buf n w = Some (w', 0) \<and> inv w' \<and> view w' = (view w)\<lparr>utick := False\<rparr>"
proof -
  have "sint (word_of_int fd :: u32) = fd" using sint_of_int_u32 [of fd] assms(2,3) by simp
  then show ?thesis using clock [OF assms(1), of "word_of_int fd"] assms(2-4) by (simp add: ece391_read_def)
qed

end

interpretation scr: user_screen "clock_os dev" "user_inv img" kview img
  for dev :: device and img
proof
  fix w :: "'a proc_scheme" and a c i
  assume w: "user_inv img w"
  show "view_ok img (kview w)" by (rule kview_ok [OF w])
  show "os_load (clock_os dev) w a = umem (kview w) a" if "ubuf a 1"
    using kos.load [OF w that] by (simp add: clock_os_def kernel_os_def)
  show "user_inv img (os_store (clock_os dev) w a c) \<and>
      kview (os_store (clock_os dev) w a c) = (kview w)\<lparr>umem := (umem (kview w))(a := c)\<rparr>" if "ubuf a 1"
    using kos.store [OF w that] by (simp add: clock_os_def kernel_os_def)
  show "user_inv img (os_store (clock_os dev) w (VIDEO_USER + of_nat (2 * i)) c) \<and>
      kview (os_store (clock_os dev) w (VIDEO_USER + of_nat (2 * i)) c) = (kview w)\<lparr>uout := aterm_poke i c (uout (kview w))\<rparr>" if "i < 2000"
    using user_poke [OF w that] by (simp add: clock_os_def)
next
  fix w :: "'a proc_scheme" and eax ebx ecx edx
  assume "user_inv img w" "call_ok eax ebx ecx edx (kview w)"
  from system_call_refines [OF this, of dev]
  show "\<exists>w'. os_call (clock_os dev) eax ebx ecx edx w = Some (w', snd (u_call img eax ebx ecx edx (kview w))) \<and>
      user_inv img w' \<and> kview w' = fst (u_call img eax ebx ecx edx (kview w))"
    by (auto simp: clock_os_def clock_trap_def)
next
  fix w :: "'a proc_scheme" and ebx ecx edx :: u32
  assume w: "user_inv img w" and fd: "0 \<le> sint ebx" "sint ebx < 8" "ufds (kview w) (nat (sint ebx)) = Fd_clock"
  show "\<exists>w'. os_call (clock_os dev) 3 ebx ecx edx w = Some (w', 0) \<and> user_inv img w' \<and> kview w' = (kview w)\<lparr>utick := False\<rparr>"
    using user_clock_read [OF w fd] by (simp add: clock_os_def)
qed

end
