(* ===== verification/UserGrep.thy ===== *)
theory UserGrep
  imports UserVideo "HOL-Library.Sublist"
begin

text \<open>
  The program \<^verbatim>\<open>syscalls/ece391grep.c\<close>: it searches the lines of every file of the directory for its
  argument. The lines are read through one buffer of 1024 bytes and a spare one for the terminator; a line that
  is not complete is moved to the front before the next read. The addresses of the local buffers are
  parameters, as for the other programs.
\<close>

section \<open>The program\<close>

text \<open>\<^verbatim>\<open>while (line_end < last && '\n' != data[line_end]) line_end++;\<close>\<close>

function scan_line :: "'w os \<Rightarrow> u32 \<Rightarrow> int \<Rightarrow> int \<Rightarrow> 'w \<Rightarrow> int" where
  "scan_line os data limit line_end w =
     (if line_end < limit \<and> os_load os w (data + word_of_int line_end) \<noteq> ch CHR 0x0A
      then scan_line os data limit (line_end + 1) w else line_end)"
  by pat_completeness auto
termination
  by (relation "measure (\<lambda>(os, data, limit, line_end, w). nat (limit - line_end))") auto

declare scan_line.simps [simp del]

text \<open>The search of one line. The first character is compared as a signed one, the rest as unsigned ones.\<close>

function search_line :: "'w os \<Rightarrow> (string \<Rightarrow> u32) \<Rightarrow> u32 \<Rightarrow> u32 \<Rightarrow> u32 \<Rightarrow> u32 \<Rightarrow> int \<Rightarrow> int \<Rightarrow> int \<Rightarrow> 'w \<Rightarrow> 'w option" where
  "search_line os lit s s_len fname' data line_start line_end check w =
     (if check < line_end
      then if sint (os_load os w s) = uint (os_load os w (data + word_of_int check)) \<and>
              ece391_strncmp os w (data + word_of_int check) s s_len = 0
           then do {
             w \<leftarrow> ece391_fdputs os 1 fname' w;
             w \<leftarrow> ece391_fdputs os 1 (lit '':'') w;
             w \<leftarrow> ece391_fdputs os 1 (data + word_of_int line_start) w;
             ece391_fdputs os 1 (lit nl) w
           }
           else search_line os lit s s_len fname' data line_start line_end (check + 1) w
      else Some w)"
  by pat_completeness auto
termination
  by (relation "measure (\<lambda>(os, lit, s, s_len, fname', data, line_start, line_end, check, w). nat (line_end - check))") auto

declare search_line.simps [simp del]

partial_function (option) line_loop ::
  "'w os \<Rightarrow> (string \<Rightarrow> u32) \<Rightarrow> u32 \<Rightarrow> u32 \<Rightarrow> u32 \<Rightarrow> u32 \<Rightarrow> int \<Rightarrow> int \<Rightarrow> int \<Rightarrow> 'w \<Rightarrow> ('w \<times> int) option" where
  "line_loop os lit s s_len fname' data cnt limit line_start w =
     (let line_end = scan_line os data limit line_start w in
      if os_load os w (data + word_of_int line_end) \<noteq> ch CHR 0x0A \<and> cnt \<noteq> 0 \<and> line_start \<noteq> 0
      then do {
        let w = os_store os w (data + word_of_int line_end) 0;
        w \<leftarrow> ece391_strcpy os data (data + word_of_int line_start) w;
        Some (w, limit - line_start)
      }
      else do {
        let w = os_store os w (data + word_of_int line_end) 0;
        w \<leftarrow> search_line os lit s s_len fname' data line_start line_end line_start w;
        let line_start = line_end + 1;
        if line_start \<ge> limit then Some (w, 0)
        else line_loop os lit s s_len fname' data cnt limit line_start w
      })"

partial_function (option) file_loop ::
  "'w os \<Rightarrow> (string \<Rightarrow> u32) \<Rightarrow> u32 \<Rightarrow> u32 \<Rightarrow> u32 \<Rightarrow> u32 \<Rightarrow> int \<Rightarrow> int \<Rightarrow> 'w \<Rightarrow> ('w \<times> int) option" where
  "file_loop os lit s s_len fname' data fd limit w = do {
     (w, cnt) \<leftarrow> ece391_read os fd (data + word_of_int limit) (1024 - limit) w;
     if cnt = -1 then do { w \<leftarrow> ece391_fdputs os 1 (lit (''file read failed'' @ nl)) w; Some (w, -1) }
     else do {
       (w, limit) \<leftarrow> line_loop os lit s s_len fname' data cnt (limit + cnt) 0 w;
       if cnt = 0 then Some (w, 0) else file_loop os lit s s_len fname' data fd limit w
     }
   }"

definition do_one_file :: "'w os \<Rightarrow> (string \<Rightarrow> u32) \<Rightarrow> u32 \<Rightarrow> u32 \<Rightarrow> u32 \<Rightarrow> 'w \<Rightarrow> ('w \<times> int) option" where
  "do_one_file os lit data s fname' w = do {
     s_len \<leftarrow> ece391_strlen os w s;
     (w, fd) \<leftarrow> ece391_open os fname' w;
     if fd = -1 then do { w \<leftarrow> ece391_fdputs os 1 (lit (''file open failed'' @ nl)) w; Some (w, -1) }
     else do {
       (w, r) \<leftarrow> file_loop os lit s s_len fname' data fd 0 w;
       if r = -1 then Some (w, -1)
       else do {
         (w, r) \<leftarrow> ece391_close os fd w;
         if r = -1 then do { w \<leftarrow> ece391_fdputs os 1 (lit (''file close failed'' @ nl)) w; Some (w, -1) }
         else Some (w, 0)
       }
     }
   }"

partial_function (option) grep_loop ::
  "'w os \<Rightarrow> (string \<Rightarrow> u32) \<Rightarrow> u32 \<Rightarrow> u32 \<Rightarrow> u32 \<Rightarrow> int \<Rightarrow> 'w \<Rightarrow> ('w \<times> int) option" where
  "grep_loop os lit data buf search fd w = do {
     (w, cnt) \<leftarrow> ece391_read os fd buf 32 w;
     if cnt = 0 then Some (w, 0)
     else if cnt = -1 then do { w \<leftarrow> ece391_fdputs os 1 (lit (''directory entry read failed'' @ nl)) w; Some (w, 3) }
     else if os_load os w buf = ch CHR ''.'' then grep_loop os lit data buf search fd w
     else do {
       let w = os_store os w (buf + word_of_int cnt) 0;
       (w, r) \<leftarrow> do_one_file os lit data search buf w;
       if r \<noteq> 0 then Some (w, 3) else grep_loop os lit data buf search fd w
     }
   }"

definition grep_main :: "'w os \<Rightarrow> (string \<Rightarrow> u32) \<Rightarrow> u32 \<Rightarrow> u32 \<Rightarrow> u32 \<Rightarrow> 'w \<Rightarrow> ('w \<times> int) option" where
  "grep_main os lit data buf search w = do {
     (w, r) \<leftarrow> ece391_getargs os search 1024 w;
     if r \<noteq> 0 then do { w \<leftarrow> ece391_fdputs os 1 (lit (''could not read argument'' @ nl)) w; Some (w, 3) }
     else do {
       (w, fd) \<leftarrow> ece391_open os (lit ''.'') w;
       if fd = -1 then do { w \<leftarrow> ece391_fdputs os 1 (lit (''directory open failed'' @ nl)) w; Some (w, 2) }
       else grep_loop os lit data buf search fd w
     }
   }"

section \<open>What it should print\<close>

text \<open>The lines of a text: the last one may lack its newline, and there is no empty line after the last newline.\<close>

function text_lines :: "u8 list \<Rightarrow> u8 list list" where
  "text_lines c = (if c = [] then [] else takeWhile (\<lambda>x. x \<noteq> 10) c # text_lines (tl (dropWhile (\<lambda>x. x \<noteq> 10) c)))"
  by pat_completeness auto
termination
proof (relation "measure length", simp)
  fix c :: "u8 list" assume "c \<noteq> []"
  then have "length (dropWhile (\<lambda>x. x \<noteq> 10) c) < Suc (length c)" "0 < length c" by (simp_all add: le_imp_less_Suc length_dropWhile_le)
  then show "(tl (dropWhile (\<lambda>x. x \<noteq> 10) c), c) \<in> measure length" by (simp, linarith)
qed

declare text_lines.simps [simp del]

lemma text_lines_Nil [simp]: "text_lines [] = []"
  by (simp add: text_lines.simps)

lemma text_lines_newline: "10 \<notin> set l \<Longrightarrow> text_lines (l @ 10 # r) = l # text_lines r"
proof -
  assume l: "10 \<notin> set l"
  then have "takeWhile (\<lambda>x. x \<noteq> 10) (l @ 10 # r) = l" "dropWhile (\<lambda>x. x \<noteq> 10) (l @ 10 # r) = 10 # r"
    by (subst takeWhile_append2 dropWhile_append2; auto)+
  then show ?thesis by (subst text_lines.simps) simp
qed

lemma text_lines_last: "10 \<notin> set l \<Longrightarrow> l \<noteq> [] \<Longrightarrow> text_lines l = [l]"
proof -
  assume l: "10 \<notin> set l" "l \<noteq> []"
  then have e: "takeWhile (\<lambda>x. x \<noteq> 10) l = l" "dropWhile (\<lambda>x. x \<noteq> 10) l = []" by (auto simp: takeWhile_eq_all_conv)
  show ?thesis unfolding text_lines.simps [of l] e using l(2) by simp
qed

text \<open>A line is printed when it contains the argument, unless that is empty or starts with a byte above 127.\<close>

definition line_matches :: "u8 list \<Rightarrow> u8 list \<Rightarrow> bool" where
  "line_matches ss l \<longleftrightarrow> ss \<noteq> [] \<and> 0 \<le> sint (hd ss) \<and> sublist ss l"

definition found_line :: "u8 list \<Rightarrow> u8 list \<Rightarrow> u8 list" where
  "found_line fs l = fs @ chars '':'' @ l @ [10]"

definition grep_output :: "u8 list \<Rightarrow> u8 list \<Rightarrow> u8 list list \<Rightarrow> u8 list" where
  "grep_output ss fs ls = concat (map (found_line fs) (filter (line_matches ss) ls))"

lemma grep_output_append [simp]: "grep_output ss fs (ls @ ms) = grep_output ss fs ls @ grep_output ss fs ms"
  by (simp add: grep_output_def)

lemma grep_output_Nil [simp]: "grep_output ss fs [] = []"
  by (simp add: grep_output_def)

section \<open>Comparing\<close>

lemma signed_unsigned: "sint (c :: u8) = uint (d :: u8) \<longleftrightarrow> c = d \<and> 0 \<le> sint c"
proof
  assume e: "sint c = uint d"
  have "c = word_of_int (sint c)" "d = word_of_int (uint d)" by simp_all
  then have "c = d" using e by metis
  then show "c = d \<and> 0 \<le> sint c" using e by simp
next
  assume a: "c = d \<and> 0 \<le> sint c"
  have "sint c < 128" using sint_lt [of c] by simp
  moreover have "0 \<le> sint c" using a by blast
  ultimately have "uint (word_of_int (sint c) :: u8) = sint c" by (subst uint_word_of_int) (simp add: mod_pos_pos_trivial)
  then show "sint c = uint d" using a by simp
qed

lemma strncmp_prefix:
  assumes "cstring f a cs" "cstring f b ss" "ss \<noteq> []"
  shows "strncmp_loop f a b (of_nat (length ss)) = 0 \<longleftrightarrow> prefix ss cs"
  using assms
proof (induction ss arbitrary: a b cs)
  case (Cons s ss)
  note b = cstring_Cons [OF Cons.prems(2)]
  have n: "(of_nat (length (s # ss)) :: u32) - 1 = of_nat (length ss)" by simp
  have len: "length ss < 2 ^ 32" using Cons.prems(2) by (simp add: cstring_def)
  have z: "(of_nat (length ss) :: u32) = 0 \<longleftrightarrow> ss = []"
  proof -
    have u: "unat (of_nat (length ss) :: u32) = length ss" using len by (intro unat_of_nat_small) simp
    have "length ss = 0" if "(of_nat (length ss) :: u32) = 0" using u unfolding that by simp
    then show ?thesis by auto
  qed
  show ?case
  proof (cases cs)
    case Nil
    then have "f a = 0" using Cons.prems(1) by simp
    then show ?thesis using b Nil by (subst strncmp_loop.simps) (simp add: uint_0_iff)
  next
    case c: (Cons c cs')
    note a = cstring_Cons [OF Cons.prems(1) [unfolded c]]
    show ?thesis
    proof (cases "c = s")
      case True
      have "strncmp_loop f a b (of_nat (length (s # ss))) =
          (if ss = [] then 0 else strncmp_loop f (a + 1) (b + 1) (of_nat (length ss)))"
        using a b True by (subst strncmp_loop.simps) (simp add: z)
      then show ?thesis using Cons.IH [OF a(3) b(3)] True c by auto
    next
      case False
      then have "uint c \<noteq> uint s" by (simp add: word_uint_eq_iff)
      then show ?thesis using a b c False by (subst strncmp_loop.simps) simp
    qed
  qed
qed simp

lemma sublist_drop: "ss \<noteq> [] \<Longrightarrow> sublist ss l \<longleftrightarrow> (\<exists>j<length l. prefix ss (drop j l))"
proof
  assume ss: "ss \<noteq> []"
  show "\<exists>j<length l. prefix ss (drop j l)" if sub: "sublist ss l"
  proof -
    obtain ps qs where l: "l = ps @ ss @ qs" using sub by (auto simp: sublist_def)
    then show ?thesis using ss by (intro exI [of _ "length ps"]) simp
  qed
  show "sublist ss l" if sub: "\<exists>j<length l. prefix ss (drop j l)"
  proof -
    obtain j zs where "drop j l = ss @ zs" using sub by (auto simp: prefix_def)
    then have "l = take j l @ ss @ zs" by (metis append_take_drop_id)
    then show ?thesis by (metis sublist_appendI)
  qed
qed

section \<open>One line\<close>

text \<open>The strings the search uses, apart from the buffer for the lines.\<close>

definition grep_env :: "(string \<Rightarrow> u32) \<Rightarrow> u32 \<Rightarrow> u8 list \<Rightarrow> u32 \<Rightarrow> u8 list \<Rightarrow> u32 \<Rightarrow> (u32 \<Rightarrow> u8) \<Rightarrow> bool" where
  "grep_env lit sa ss fa fs data m \<longleftrightarrow> ubuf data 1025 \<and>
     cstring m sa ss \<and> ubuf sa (length ss + 1) \<and> (unat data + 1025 \<le> unat sa \<or> unat sa + length ss + 1 \<le> unat data) \<and>
     cstring m fa fs \<and> ubuf fa (length fs + 1) \<and> (unat data + 1025 \<le> unat fa \<or> unat fa + length fs + 1 \<le> unat data) \<and>
     length fs < 2050 \<and> literals lit ['':'', nl] m \<and> away lit ['':'', nl] data 1025"

lemma grep_env_outside:
  assumes "grep_env lit sa ss fa fs data m" "outside data 1025 m m'"
  shows "grep_env lit sa ss fa fs data m'"
  using assms cstring_outside [of m sa ss data 1025 m'] cstring_outside [of m fa fs data 1025 m']
    literals_outside [of lit "['':'', nl]" m data 1025 m'] unfolding grep_env_def by blast

definition emits :: "u8 list \<Rightarrow> uview \<Rightarrow> uview \<Rightarrow> bool" where
  "emits vs v v' \<longleftrightarrow> umem v' = umem v \<and> ufds v' = ufds v \<and> udir v' = udir v \<and> uout v' = fold aterm_putc vs (uout v)"

lemma emits_trans: "emits xs v v' \<Longrightarrow> emits ys v' v'' \<Longrightarrow> emits (xs @ ys) v v''"
  by (simp add: emits_def)

lemma emits_puts: "emits vs v (u_puts vs v)"
  by (simp add: emits_def)

lemma emits_refl [simp]: "emits [] v v"
  by (simp add: emits_def)

text \<open>\<open>held m a l\<close>: the line \<open>l\<close> is at \<open>a\<close>, without a zero byte.\<close>

definition held :: "(u32 \<Rightarrow> u8) \<Rightarrow> u32 \<Rightarrow> u8 list \<Rightarrow> bool" where
  "held m a l \<longleftrightarrow> 0 \<notin> set l \<and> length l \<le> 1024 \<and> (\<forall>i<length l. m (a + of_nat i) = l ! i)"

lemma held_drop:
  assumes "held m a l"
  shows "held m (a + of_nat j) (drop j l)"
proof -
  have "m (a + of_nat j + of_nat i) = drop j l ! i" if "i < length (drop j l)" for i
    using assms that by (simp add: held_def add.assoc flip: of_nat_add)
  then show ?thesis using assms by (auto simp: held_def dest: in_set_dropD)
qed

lemma held_cong: "held m a l \<Longrightarrow> (\<And>i. i < length l \<Longrightarrow> m' (a + of_nat i) = m (a + of_nat i)) \<Longrightarrow> held m' a l"
  by (simp add: held_def)

lemma held_cstring:
  assumes "held m a l" "m (a + of_nat (length l)) = 0" "j \<le> length l"
  shows "cstring m (a + of_nat j) (drop j l)"
proof -
  have "held m (a + of_nat j) (drop j l)" by (rule held_drop [OF assms(1)])
  moreover have "a + of_nat j + of_nat (length (drop j l)) = a + of_nat (length l)"
    using assms(3) by (simp add: add.assoc flip: of_nat_add)
  ultimately show ?thesis using assms by (auto simp: cstring_def held_def)
qed

context user_os
begin

lemma emit_string:
  assumes "inv w" "cstring (umem (view w)) a cs" "ubuf a (length cs + 1)" "length cs < 2050"
  shows "\<exists>w'. ece391_fdputs os 1 a w = Some w' \<and> inv w' \<and> emits cs (view w) (view w')"
  using fdputs_ok [OF assms] emits_puts by metis

lemma found_ok:
  assumes w: "inv w" and env: "grep_env lit sa ss fa fs data (umem (view w))"
    and l: "held (umem (view w)) (data + of_nat ls) l" "umem (view w) (data + of_nat (ls + length l)) = 0" "ls + length l \<le> 1024"
  shows "\<exists>w'. do {
      w \<leftarrow> ece391_fdputs os 1 fa w;
      w \<leftarrow> ece391_fdputs os 1 (lit '':'') w;
      w \<leftarrow> ece391_fdputs os 1 (data + word_of_int (int ls)) w;
      ece391_fdputs os 1 (lit nl) w
    } = Some w' \<and> inv w' \<and> emits (found_line fs l) (view w) (view w')"
proof -
  have E: "ubuf data 1025" "cstring (umem (view w)) fa fs" "ubuf fa (length fs + 1)" "length fs < 2050"
    "literals lit ['':'', nl] (umem (view w))" using env by (simp_all add: grep_env_def)
  have d: "ubuf (data + of_nat ls) (length l + 1)"
    using E(1) ubuf_off(1) [OF E(1), of ls] l(3) by (simp add: ubuf_def)
  obtain w1 where w1: "ece391_fdputs os 1 fa w = Some w1" "inv w1" "emits fs (view w) (view w1)"
    using emit_string [OF w E(2-4)] by blast
  have "literals lit ['':'', nl] (umem (view w1))" using E(5) w1(3) by (simp add: emits_def)
  then obtain w2 where w2: "ece391_fdputs os 1 (lit '':'') w1 = Some w2" "inv w2" "emits (chars '':'') (view w1) (view w2)"
    using puts_lit [OF w1(2)] emits_puts by (metis list.set_intros(1))
  have m2: "umem (view w2) = umem (view w)" using w1(3) w2(3) by (simp add: emits_def)
  have "cstring (umem (view w2)) (data + of_nat ls) l"
    using held_cstring [OF l(1), of 0] l(2) by (simp add: m2 add.assoc)
  then obtain w3 where w3: "ece391_fdputs os 1 (data + of_nat ls) w2 = Some w3" "inv w3" "emits l (view w2) (view w3)"
    using emit_string [OF w2(2) _ d] l(3) by fastforce
  have "literals lit ['':'', nl] (umem (view w3))" using E(5) m2 w3(3) by (simp add: emits_def)
  then obtain w4 where w4: "ece391_fdputs os 1 (lit nl) w3 = Some w4" "inv w4" "emits (chars nl) (view w3) (view w4)"
    using puts_lit [OF w3(2)] emits_puts by (metis list.set_intros)
  have "emits (found_line fs l) (view w) (view w4)"
    using emits_trans [OF w1(3) emits_trans [OF w2(3) emits_trans [OF w3(3) w4(3)]]] by (simp add: found_line_def)
  then show ?thesis using w1(1) w2(1) w3(1) w4(1,2) by simp
qed

lemma search_line_from:
  assumes w: "inv w" and env: "grep_env lit sa ss fa fs data (umem (view w))"
    and l: "held (umem (view w)) (data + of_nat ls) l" "umem (view w) (data + of_nat (ls + length l)) = 0" "ls + length l \<le> 1024"
    and j: "j \<le> length l"
  shows "\<exists>w'. search_line os lit sa (of_nat (length ss)) fa data (int ls) (int (ls + length l)) (int (ls + j)) w = Some w' \<and> inv w' \<and>
    emits (if ss \<noteq> [] \<and> 0 \<le> sint (hd ss) \<and> (\<exists>i. j \<le> i \<and> i < length l \<and> prefix ss (drop i l)) then found_line fs l else []) (view w) (view w')"
  using j
proof (induction "length l - j" arbitrary: j)
  case 0
  then show ?case using w by (subst search_line.simps) auto
next
  case (Suc n)
  have j: "j < length l" using Suc.hyps(2) by simp
  have E: "ubuf data 1025" "cstring (umem (view w)) sa ss" "ubuf sa (length ss + 1)" using env by (simp_all add: grep_env_def)
  let ?a = "data + of_nat (ls + j)"
  have ld: "os_load os w ?a = l ! j"
    using load_eq [OF w E(1), of "ls + j"] l(1,3) j by (simp add: held_def add.assoc)
  have ls: "os_load os w sa = (if ss = [] then 0 else hd ss)"
    using cstring_head [OF string_load [OF w E(2,3)]] .
  have nz: "l ! j \<noteq> 0" using l(1) j by (auto simp: held_def in_set_conv_nth)
  have cs: "cstring (os_load os w) ?a (drop j l)"
  proof (rule string_load [OF w])
    show "cstring (umem (view w)) ?a (drop j l)" using held_cstring [OF l(1) _ Suc.prems] l(2) by (simp add: add.assoc)
    show "ubuf ?a (length (drop j l) + 1)" using E(1) ubuf_off(1) [OF E(1), of "ls + j"] l(3) j by (simp add: ubuf_def)
  qed
  have hit: "sint (os_load os w sa) = uint (os_load os w ?a) \<and> ece391_strncmp os w ?a sa (of_nat (length ss)) = 0 \<longleftrightarrow>
      ss \<noteq> [] \<and> 0 \<le> sint (hd ss) \<and> prefix ss (drop j l)"
  proof (cases "ss = []")
    case True
    then show ?thesis using ls ld nz by (simp add: uint_0_iff)
  next
    case False
    have "length ss < 2 ^ 32" using E(2) by (simp add: cstring_def)
    then have "unat (of_nat (length ss) :: u32) = length ss" by (intro unat_of_nat_small) simp
    then have "(of_nat (length ss) :: u32) \<noteq> 0" using False by (metis length_0_conv unat_0)
    then have "ece391_strncmp os w ?a sa (of_nat (length ss)) = 0 \<longleftrightarrow> prefix ss (drop j l)"
      using strncmp_prefix [OF cs string_load [OF w E(2,3)] False] by (simp add: ece391_strncmp_def)
    moreover have "hd ss = l ! j" if "prefix ss (drop j l)"
      using that False j by (auto simp: prefix_def hd_append simp flip: hd_drop_conv_nth)
    ultimately show ?thesis using ls ld False by (auto simp: signed_unsigned)
  qed
  have step: "(\<exists>i. j \<le> i \<and> i < length l \<and> prefix ss (drop i l)) \<longleftrightarrow> prefix ss (drop j l) \<or> (\<exists>i. Suc j \<le> i \<and> i < length l \<and> prefix ss (drop i l))"
    using j by (metis Suc_leD Suc_leI order_le_less)
  show ?case
  proof (cases "ss \<noteq> [] \<and> 0 \<le> sint (hd ss) \<and> prefix ss (drop j l)")
    case True
    then show ?thesis
      using found_ok [OF w env l] hit j by (subst search_line.simps) (auto simp: step)
  next
    case False
    have "search_line os lit sa (of_nat (length ss)) fa data (int ls) (int (ls + length l)) (int (ls + j)) w =
        search_line os lit sa (of_nat (length ss)) fa data (int ls) (int (ls + length l)) (int (ls + Suc j)) w"
      using False hit j by (subst search_line.simps) (auto simp: algebra_simps)
    moreover have "(ss \<noteq> [] \<and> 0 \<le> sint (hd ss) \<and> (\<exists>i. j \<le> i \<and> i < length l \<and> prefix ss (drop i l))) =
        (ss \<noteq> [] \<and> 0 \<le> sint (hd ss) \<and> (\<exists>i. Suc j \<le> i \<and> i < length l \<and> prefix ss (drop i l)))" using False step by blast
    moreover have "n = length l - Suc j" "Suc j \<le> length l" using Suc.hyps(2) j by simp_all
    ultimately show ?thesis using Suc.hyps(1) [of "Suc j"] by (simp only:)
  qed
qed

lemma search_line_ok:
  assumes "inv w" "grep_env lit sa ss fa fs data (umem (view w))"
    "held (umem (view w)) (data + of_nat ls) l" "umem (view w) (data + of_nat (ls + length l)) = 0" "ls + length l \<le> 1024"
  shows "\<exists>w'. search_line os lit sa (of_nat (length ss)) fa data (int ls) (int (ls + length l)) (int ls) w = Some w' \<and> inv w' \<and>
    emits (grep_output ss fs [l]) (view w) (view w')"
proof -
  have e: "(ss \<noteq> [] \<and> 0 \<le> sint (hd ss) \<and> (\<exists>i. 0 \<le> i \<and> i < length l \<and> prefix ss (drop i l))) = line_matches ss l"
    using sublist_drop [of ss l] by (auto simp: line_matches_def)
  have g: "grep_output ss fs [l] = (if line_matches ss l then found_line fs l else [])" by (simp add: grep_output_def)
  show ?thesis unfolding g using search_line_from [OF assms, of 0, unfolded e] by (simp split del: if_split)
qed

text \<open>The scan for the end of a line, and the move of an incomplete line to the front.\<close>

lemma scan_line_ok:
  assumes "inv w" "ubuf data 1025" "held (umem (view w)) (data + of_nat ls) X" "ls + length X \<le> 1024"
  shows "scan_line os data (int (ls + length X)) (int ls) w = int (ls + length (takeWhile (\<lambda>x. x \<noteq> 10) X))"
  using assms(3,4)
proof (induction X arbitrary: ls)
  case Nil
  then show ?case by (subst scan_line.simps) simp
next
  case (Cons x X)
  have "umem (view w) (data + of_nat ls) = x" using Cons.prems(1) by (auto simp: held_def dest: spec [of _ 0])
  then have x: "os_load os w (data + of_nat ls) = x" using load_eq [OF assms(1,2), of ls] Cons.prems(2) by simp
  have h: "held (umem (view w)) (data + of_nat (Suc ls)) X"
    using held_drop [OF Cons.prems(1), of 1] by (simp add: algebra_simps)
  show ?case
  proof (cases "x = 10")
    case True
    then show ?thesis using x by (subst scan_line.simps) simp
  next
    case False
    have "scan_line os data (int (ls + length (x # X))) (int ls) w = scan_line os data (int (Suc ls + length X)) (int (Suc ls)) w"
      using x False by (subst scan_line.simps) (simp add: algebra_simps)
    also have "\<dots> = int (Suc ls + length (takeWhile (\<lambda>x. x \<noteq> 10) X))" by (rule Cons.IH [OF h]) (use Cons.prems(2) in simp)
    finally show ?thesis using False by simp
  qed
qed

lemma strcpy_down:
  assumes "inv w" "cstring (umem (view w)) src cs" "ubuf src (length cs + 1)" "ubuf dst (length cs + 1)" "unat dst < unat src"
  shows "\<exists>w'. ece391_strcpy os dst src w = Some w' \<and> inv w' \<and> view w' = set_mem dst (cs @ [0]) (view w)"
  using assms
proof (induction cs arbitrary: w src dst)
  case Nil
  have l: "os_load os w src = 0" using string_load [OF Nil.prems(1-3)] by simp
  show ?case
    using store [OF Nil.prems(1), of dst 0] Nil.prems(4) l by (subst ece391_strcpy.simps) (simp add: set_mem_def put_bytes_def)
next
  case (Cons c cs)
  note c = cstring_Cons [OF Cons.prems(2)] and l = cstring_Cons [OF string_load [OF Cons.prems(1-3)]]
  define w1 where "w1 = os_store os w dst c"
  have "ubuf dst 1" using Cons.prems(4) by (simp add: ubuf_def)
  from store [OF Cons.prems(1) this, of c] have w1: "inv w1" "view w1 = (view w)\<lparr>umem := (umem (view w))(dst := c)\<rparr>" by (simp_all add: w1_def)
  have u: "unat (src + 1) = unat src + 1" "unat (dst + 1) = unat dst + 1"
    using ubuf_off(1) [OF Cons.prems(3), of 1] ubuf_off(1) [OF Cons.prems(4), of 1] by simp_all
  have b: "ubuf (src + 1) (length cs + 1)" "ubuf (dst + 1) (length cs + 1)" using Cons.prems(3,4) u by (simp_all add: ubuf_def)
  have "src + 1 + of_nat i \<noteq> dst" if "i \<le> length cs" for i
    using ubuf_off(1) [OF b(1), of i] that u(1) Cons.prems(5) by auto
  then have "cstring (umem (view w1)) (src + 1) cs"
    using c(3) by (subst cstring_cong [of cs _ "src + 1" "umem (view w)"]) (auto simp: w1(2))
  from Cons.IH [OF w1(1) this b] u Cons.prems(5) obtain w' where
    "ece391_strcpy os (dst + 1) (src + 1) w1 = Some w'" "inv w'" "view w' = set_mem (dst + 1) (cs @ [0]) (view w1)" by auto
  moreover have "ece391_strcpy os dst src w = ece391_strcpy os (dst + 1) (src + 1) w1"
    using l by (subst ece391_strcpy.simps) (simp add: w1_def Let_def)
  ultimately show ?case by (simp add: set_mem_def w1(2) put_bytes_def)
qed

lemma line_loop_ok:
  assumes "inv w" "grep_env lit sa ss fa fs data (umem (view w))" "held (umem (view w)) (data + of_nat ls) X"
    "ls + length X = n" "n \<le> 1024" "X = [] \<Longrightarrow> ls = 0"
    "R \<noteq> [] \<Longrightarrow> n = 1024 \<and> umem (view w) (data + 1024) \<noteq> 10 \<and> cnt \<noteq> 0 \<and> (\<forall>l\<in>set (text_lines (X @ R)). length l < 1024)"
  shows "\<exists>w' P Ls. line_loop os lit sa (of_nat (length ss)) fa data cnt (int n) (int ls) w = Some (w', int (length P)) \<and> inv w' \<and>
    outside data 1025 (umem (view w)) (umem (view w')) \<and> held (umem (view w')) data P \<and> 10 \<notin> set P \<and> length P < 1024 \<and>
    (P \<noteq> [] \<longrightarrow> cnt \<noteq> 0) \<and> set P \<subseteq> set X \<and> (umem (view w) (data + 1024) \<noteq> 10 \<longrightarrow> umem (view w') (data + 1024) \<noteq> 10) \<and>
    text_lines (X @ R) = Ls @ text_lines (P @ R) \<and> ufds (view w') = ufds (view w) \<and> udir (view w') = udir (view w) \<and>
    uout (view w') = fold aterm_putc (grep_output ss fs Ls) (uout (view w))"
  using assms
proof (induction "length X" arbitrary: w ls X rule: less_induct)
  case less
  note w = less.prems(1) and env = less.prems(2) and X = less.prems(3) and n = less.prems(4,5)
  let ?m = "umem (view w)"
  define l where "l = takeWhile (\<lambda>x. x \<noteq> 10) X"
  define le where "le = ls + length l"
  have ub: "ubuf data 1025" using env by (simp add: grep_env_def)
  have ll: "length l \<le> length X" unfolding l_def by (rule length_takeWhile_le)
  have le: "le \<le> n" "le < 1025" using ll n by (simp_all add: le_def)
  have l10: "10 \<notin> set l" using set_takeWhileD [of 10 "\<lambda>x. x \<noteq> 10" X] by (auto simp: l_def)
  define Y where "Y = drop (length l + 1) X"
  have split: "le = n \<and> l = X \<or> le < n \<and> X = l @ 10 # Y"
  proof (cases "l = X")
    case False
    have d: "dropWhile (\<lambda>x. x \<noteq> 10) X = drop (length l) X" by (simp add: l_def dropWhile_eq_drop)
    moreover have "dropWhile (\<lambda>x. x \<noteq> 10) X \<noteq> []" using False by (auto simp: l_def takeWhile_eq_all_conv)
    ultimately have e: "drop (length l) X = 10 # drop (length l + 1) X"
      using hd_dropWhile [of "\<lambda>x. x \<noteq> 10" X] by (cases "drop (length l) X") (auto simp: drop_Suc simp flip: tl_drop)
    then have "X = l @ 10 # drop (length l + 1) X" using takeWhile_dropWhile_id [of "\<lambda>x. x \<noteq> 10" X] d by (simp add: l_def)
    moreover have "length l < length X" using e by (cases "length X \<le> length l") simp_all
    ultimately show ?thesis using n by (simp add: le_def Y_def)
  qed (use n in \<open>simp add: le_def\<close>)
  have scan: "scan_line os data (int n) (int ls) w = int le"
    using scan_line_ok [OF w ub X] n by (simp add: l_def le_def)
  have ld: "os_load os w (data + of_nat le) = ?m (data + of_nat le)" by (rule load_eq [OF w ub le(2)])
  define w1 where "w1 = os_store os w (data + of_nat le) 0"
  have w1: "inv w1" "view w1 = (view w)\<lparr>umem := ?m(data + of_nat le := 0)\<rparr>"
    using store [OF w ubuf_off(2) [OF ub le(2)], of 0] by (simp_all add: w1_def)
  have ne: "data + of_nat i \<noteq> data + of_nat j" if "i < 1025" "j < 1025" "i \<noteq> j" for i j
    using that ubuf_off(1) [OF ub, of i] ubuf_off(1) [OF ub, of j] by auto
  have m1: "umem (view w1) (data + of_nat i) = (if i = le then 0 else ?m (data + of_nat i))" if "i < 1025" for i
    using ne [OF that le(2)] by (simp add: w1(2))
  have out1: "outside data 1025 ?m (umem (view w1))" using outside_upd [OF le(2)] by (simp add: w1(2))
  note env1 = grep_env_outside [OF env out1]
  have h1: "held (umem (view w1)) (data + of_nat ls) l"
  proof (rule held_cong)
    show "held ?m (data + of_nat ls) l"
    proof -
      have "X ! i = l ! i" if "i < length l" for i using takeWhile_nth [of i _ X] that by (simp add: l_def)
      then show ?thesis using X ll set_takeWhileD [of 0 _ X] by (auto simp: held_def l_def)
    qed
    show "umem (view w1) (data + of_nat ls + of_nat i) = ?m (data + of_nat ls + of_nat i)" if "i < length l" for i
      using m1 [of "ls + i"] that le by (simp add: le_def add.assoc)
  qed
  have z1: "umem (view w1) (data + of_nat (ls + length l)) = 0" using m1 [OF le(2)] by (simp add: le_def)
  have at10: "?m (data + of_nat le) = 10" if "le < n"
  proof -
    have "X = l @ 10 # Y" using split that by auto
    then have "X ! length l = 10" "length l < length X" by simp_all
    then show ?thesis using X by (simp add: held_def le_def add.assoc)
  qed
  show ?case
  proof (cases "?m (data + of_nat le) \<noteq> 10 \<and> cnt \<noteq> 0 \<and> ls \<noteq> 0")
    case True
    have lX: "l = X" "le = n" using at10 True split by auto
    have "cstring (umem (view w1)) (data + of_nat ls) X" using held_cstring [OF h1, of 0] z1 lX by (simp add: add.assoc)
    moreover have us: "unat (data + of_nat ls) = unat data + ls" using ubuf_off(1) [OF ub, of ls] n by simp
    ultimately obtain w2 where w2: "ece391_strcpy os data (data + of_nat ls) w1 = Some w2" "inv w2"
      "view w2 = set_mem data (X @ [0]) (view w1)"
      using strcpy_down [OF w1(1), of "data + of_nat ls" X data] ub n True by (auto simp: ubuf_def)
    have len: "length X < 1024" using n True by simp
    have mem: "umem (view w2) = put_bytes data (X @ [0]) (umem (view w1))" by (simp add: w2(3) set_mem_def)
    have "held (umem (view w2)) data X"
      using put_bytes_in [of _ "X @ [0]" data "umem (view w1)"] X len unfolding mem held_def by (auto simp: nth_append)
    moreover have "outside data 1025 ?m (umem (view w2))"
      unfolding mem by (rule outside_trans [OF out1 outside_put]) (use len in simp)
    moreover have "umem (view w2) (data + 1024) = umem (view w1) (data + 1024)"
      unfolding mem by (rule put_bytes_out) (use ne [of 1024] len in auto)
    moreover have "umem (view w1) (data + 1024) \<in> {0, ?m (data + 1024)}" using m1 [of 1024] by (cases "le = 1024") auto
    moreover have "line_loop os lit sa (of_nat (length ss)) fa data cnt (int n) (int ls) w = Some (w2, int (length X))"
      using True w2(1) ld n(1) by (subst line_loop.simps) (auto simp: scan Let_def w1_def)
    ultimately show ?thesis
      using w2(2) l10 lX(1) len True by (intro exI [of _ w2] exI [of _ X] exI [of _ "[]"]) (auto simp: w2(3) w1(2) set_mem_def)
  next
    case False
    obtain w2 where w2: "search_line os lit sa (of_nat (length ss)) fa data (int ls) (int le) (int ls) w1 = Some w2" "inv w2"
      "emits (grep_output ss fs [l]) (view w1) (view w2)"
      using search_line_ok [OF w1(1) env1 h1 z1] le(2) by (auto simp: le_def)
    have v2: "umem (view w2) = umem (view w1)" "ufds (view w2) = ufds (view w)" "udir (view w2) = udir (view w)"
      "uout (view w2) = fold aterm_putc (grep_output ss fs [l]) (uout (view w))"
      using w2(3) by (simp_all add: emits_def w1(2))
    have unf: "line_loop os lit sa (of_nat (length ss)) fa data cnt (int n) (int ls) w =
        (if n \<le> le + 1 then Some (w2, 0) else line_loop os lit sa (of_nat (length ss)) fa data cnt (int n) (int (le + 1)) w2)"
      using False w2(1) ld by (subst line_loop.simps) (auto simp: scan Let_def w1_def algebra_simps)
    have keep: "umem (view w2) (data + 1024) \<in> {0, ?m (data + 1024)}" using m1 [of 1024] by (cases "le = 1024") (auto simp: v2)
    show ?thesis
    proof (cases "n \<le> le + 1")
      case True
      have "text_lines (X @ R) = (if X = [] then [] else [l]) @ text_lines R"
      proof (cases "le < n")
        case lt: True
        then have "X = l @ [10]" using split True n by (auto simp: le_def)
        then show ?thesis using text_lines_newline [OF l10, of R] by simp
      next
        case ge: False
        then have lX: "l = X" "le = n" using split by auto
        have "R = []"
        proof (rule ccontr)
          assume R: "R \<noteq> []"
          note H = less.prems(7) [OF R]
          then have "ls = 0" using False lX by auto
          then have "length X = 1024" using n H by simp
          moreover have "length (takeWhile (\<lambda>x. x \<noteq> 10) (X @ R)) \<ge> length X"
            using l10 lX(1) by (subst takeWhile_append2) auto
          moreover have "takeWhile (\<lambda>x. x \<noteq> 10) (X @ R) \<in> set (text_lines (X @ R))"
            using R by (subst text_lines.simps) simp
          ultimately show False using H by fastforce
        qed
        then show ?thesis using text_lines_last [OF l10] lX(1) by auto
      qed
      moreover have "grep_output ss fs (if X = [] then [] else [l]) = grep_output ss fs [l]"
        by (auto simp: l_def grep_output_def line_matches_def)
      ultimately show ?thesis
        using unf True w2(2) v2 keep out1
        by (intro exI [of _ w2] exI [of _ "[]"] exI [of _ "if X = [] then [] else [l]"]) (auto simp: held_def)
    next
      case more: False
      then have XY: "X = l @ 10 # Y" using split by auto
      have hY: "held (umem (view w2)) (data + of_nat (le + 1)) Y"
      proof (rule held_cong)
        show "held ?m (data + of_nat (le + 1)) Y"
          using held_drop [OF X, of "length l + 1"] by (simp add: Y_def le_def algebra_simps)
        show "umem (view w2) (data + of_nat (le + 1) + of_nat i) = ?m (data + of_nat (le + 1) + of_nat i)" if "i < length Y" for i
          using m1 [of "le + 1 + i"] that n XY by (simp add: v2 le_def add.assoc)
      qed
      have nY: "le + 1 + length Y = n" using XY n(1) by (simp add: le_def)
      have len: "length Y < length X" using XY by simp
      have tl: "text_lines (X @ R) = l # text_lines (Y @ R)" using text_lines_newline [OF l10, of "Y @ R"] XY by simp
      have env2: "grep_env lit sa ss fa fs data (umem (view w2))" using env1 v2 by simp
      have H2: "n = 1024 \<and> umem (view w2) (data + 1024) \<noteq> 10 \<and> cnt \<noteq> 0 \<and> (\<forall>l\<in>set (text_lines (Y @ R)). length l < 1024)" if "R \<noteq> []"
        using less.prems(7) [OF that] keep tl by auto
      have "Y = [] \<Longrightarrow> le + 1 = 0" using more nY by simp
      from less.hyps [OF len w2(2) env2 hY nY n(2) this H2] obtain w' P Ls where
        w': "line_loop os lit sa (of_nat (length ss)) fa data cnt (int n) (int (le + 1)) w2 = Some (w', int (length P))" "inv w'"
          "outside data 1025 (umem (view w2)) (umem (view w'))" "held (umem (view w')) data P" "10 \<notin> set P" "length P < 1024"
          "P \<noteq> [] \<longrightarrow> cnt \<noteq> 0" "set P \<subseteq> set Y" "umem (view w2) (data + 1024) \<noteq> 10 \<longrightarrow> umem (view w') (data + 1024) \<noteq> 10"
          "text_lines (Y @ R) = Ls @ text_lines (P @ R)" "ufds (view w') = ufds (view w2)" "udir (view w') = udir (view w2)"
          "uout (view w') = fold aterm_putc (grep_output ss fs Ls) (uout (view w2))" by metis
      have "outside data 1025 ?m (umem (view w'))" using outside_trans [OF out1] w'(3) v2(1) by simp
      moreover have "set P \<subseteq> set X" using w'(8) XY by auto
      moreover have "fold aterm_putc (grep_output ss fs (l # Ls)) (uout (view w)) = uout (view w')"
        using w'(13) v2(4) grep_output_append [of ss fs "[l]" Ls] by simp
      ultimately show ?thesis
        using unf more w' v2 keep tl by (intro exI [of _ w'] exI [of _ P] exI [of _ "l # Ls"]) auto
    qed
  qed
qed

text \<open>The file from a position on, with the beginning of a line in front of the buffer.\<close>

lemma file_loop_ok:
  assumes "inv w" "grep_env lit sa ss fa fs data (umem (view w))" "2 \<le> fd" "fd < 8"
    "ufds (view w) (nat fd) = Fd_regular c p" "held (umem (view w)) data P" "10 \<notin> set P" "length P < 1024"
    "umem (view w) (data + 1024) \<noteq> 10" "0 \<notin> set c" "\<forall>l\<in>set (text_lines (P @ drop p c)). length l < 1024"
  shows "\<exists>w' q. file_loop os lit sa (of_nat (length ss)) fa data fd (int (length P)) w = Some (w', 0) \<and> inv w' \<and> umem (view w') (data + 1024) \<noteq> 10 \<and>
    outside data 1025 (umem (view w)) (umem (view w')) \<and> ufds (view w') = (ufds (view w))(nat fd := Fd_regular c q) \<and>
    udir (view w') = udir (view w) \<and>
    uout (view w') = fold aterm_putc (grep_output ss fs (text_lines (P @ drop p c))) (uout (view w))"
  using assms
proof (induction "length c - p" arbitrary: w p P rule: less_induct)
  case less
  note w = less.prems(1) and env = less.prems(2) and fd = less.prems(3,4,5) and P = less.prems(6-8)
  have ub: "ubuf data 1025" using env by (simp add: grep_env_def)
  define k where "k = min (1024 - length P) (length c - p)"
  define vs where "vs = take k (drop p c)"
  have vs: "length vs = k" "drop p c = vs @ drop (p + k) c"
    by (simp_all add: vs_def k_def) (metis append_take_drop_id drop_drop add.commute)
  let ?a = "data + of_nat (length P)"
  have a: "ubuf ?a (1024 - length P)" using ub ubuf_off(1) [OF ub, of "length P"] P(3) by (simp add: ubuf_def)
  have sn: "sint (word_of_int (1024 - int (length P)) :: u32) = 1024 - int (length P)"
    "nat (1024 - int (length P)) = 1024 - length P"
    by (rule sint_of_int_u32) (use P(3) in simp_all)
  obtain w1 where w1: "ece391_read os fd ?a (1024 - int (length P)) w = Some (w1, int k)" "inv w1"
    "view w1 = set_fd (nat fd) (Fd_regular c (p + k)) (set_mem ?a vs (view w))"
    using read_stub [OF w, of fd ?a "1024 - int (length P)"] fd a sn sint_of_int_u32 [of fd] P(3)
    by (auto simp: read_ok_def u_read_def vs_def k_def Let_def)
  have m1: "umem (view w1) = put_bytes ?a vs (umem (view w))" by (simp add: w1(3) set_fd_def set_mem_def)
  have ne: "data + of_nat i \<noteq> data + of_nat j" if "i < 1025" "j < 1025" "i \<noteq> j" for i j
    using that ubuf_off(1) [OF ub, of i] ubuf_off(1) [OF ub, of j] by auto
  have kl: "length P + k \<le> 1024" using P(3) by (simp add: k_def)
  have far: "umem (view w1) (data + of_nat i) = umem (view w) (data + of_nat i)" if "i < length P \<or> length P + k \<le> i" "i < 1025" for i
    unfolding m1
  proof (rule put_bytes_out)
    fix j assume j: "j < length vs"
    have "?a + of_nat j = data + of_nat (length P + j)" by (simp add: add.assoc)
    then show "data + of_nat i \<noteq> ?a + of_nat j" using ne [of i "length P + j"] that j kl vs(1) by auto
  qed
  have out1: "outside data 1025 (umem (view w)) (umem (view w1))"
    unfolding outside_def
  proof (intro allI impI)
    fix x assume x: "\<forall>i<1025. x \<noteq> data + of_nat i"
    show "umem (view w1) x = umem (view w) x"
      unfolding m1
    proof (rule put_bytes_out)
      fix j assume j: "j < length vs"
      have e: "?a + of_nat j = data + of_nat (length P + j)" by (simp add: add.assoc)
      show "x \<noteq> ?a + of_nat j" unfolding e by (rule x [rule_format]) (use j kl vs(1) in simp)
    qed
  qed
  have zv: "0 \<notin> set vs" using less.prems(10) by (auto simp: vs_def dest: in_set_takeD in_set_dropD)
  have h1: "held (umem (view w1)) (data + of_nat 0) (P @ vs)"
    unfolding held_def
  proof (intro conjI allI impI)
    show "0 \<notin> set (P @ vs)" "length (P @ vs) \<le> 1024" using P(1) zv kl vs(1) by (auto simp: held_def)
    fix i assume i: "i < length (P @ vs)"
    show "umem (view w1) (data + of_nat 0 + of_nat i) = (P @ vs) ! i"
    proof (cases "i < length P")
      case True
      then show ?thesis using far [of i] P by (simp add: held_def nth_append)
    next
      case False
      then have "data + of_nat i = ?a + of_nat (i - length P)" by (simp add: add.assoc flip: of_nat_add)
      then show ?thesis using put_bytes_in [of "i - length P" vs ?a "umem (view w)"] False i kl vs(1) by (simp add: m1 nth_append)
    qed
  qed
  define R where "R = drop (p + k) c"
  have tl: "P @ drop p c = (P @ vs) @ R" using vs(2) by (simp add: R_def)
  have H: "length (P @ vs) = 1024 \<and> umem (view w1) (data + 1024) \<noteq> 10 \<and> int k \<noteq> 0 \<and> (\<forall>l\<in>set (text_lines ((P @ vs) @ R)). length l < 1024)"
    if "R \<noteq> []"
  proof -
    have "p + k < length c" using that by (simp add: R_def)
    then have "k = 1024 - length P" by (auto simp: k_def)
    then show ?thesis using far [of 1024] P(3) less.prems(9,11) vs(1) tl by simp
  qed
  from line_loop_ok [OF w1(2) grep_env_outside [OF env out1] h1 _ _ _ H] kl vs(1)
  obtain w2 Q Ls where w2: "line_loop os lit sa (of_nat (length ss)) fa data (int k) (int (length P + k)) 0 w1 = Some (w2, int (length Q))"
      "inv w2" "outside data 1025 (umem (view w1)) (umem (view w2))" "held (umem (view w2)) data Q" "10 \<notin> set Q" "length Q < 1024"
      "Q \<noteq> [] \<longrightarrow> int k \<noteq> 0" "umem (view w1) (data + 1024) \<noteq> 10 \<longrightarrow> umem (view w2) (data + 1024) \<noteq> 10"
      "text_lines ((P @ vs) @ R) = Ls @ text_lines (Q @ R)" "ufds (view w2) = ufds (view w1)" "udir (view w2) = udir (view w1)"
      "uout (view w2) = fold aterm_putc (grep_output ss fs Ls) (uout (view w1))" by auto
  have out2: "outside data 1025 (umem (view w)) (umem (view w2))" by (rule outside_trans [OF out1 w2(3)])
  have v2: "ufds (view w2) = (ufds (view w))(nat fd := Fd_regular c (p + k))" "udir (view w2) = udir (view w)"
    "uout (view w2) = fold aterm_putc (grep_output ss fs Ls) (uout (view w))"
    using w2(10-12) by (simp_all add: w1(3) set_fd_def set_mem_def)
  have unf: "file_loop os lit sa (of_nat (length ss)) fa data fd (int (length P)) w =
      (if k = 0 then Some (w2, 0) else file_loop os lit sa (of_nat (length ss)) fa data fd (int (length Q)) w2)"
    using w1(1) w2(1) by (subst file_loop.simps) simp
  have z2: "umem (view w2) (data + 1024) \<noteq> 10" using w2(8) far [of 1024] kl less.prems(9) by simp
  show ?case
  proof (cases "k = 0")
    case True
    have "R = []" using True P(3) by (auto simp: R_def k_def)
    then have "text_lines (P @ drop p c) = Ls" using w2(7,9) True tl by simp
    then show ?thesis using unf True w2(2) v2 out2 z2 by (intro exI [of _ w2] exI [of _ p]) simp
  next
    case False
    have dec: "length c - (p + k) < length c - p" using False by (auto simp: k_def)
    have "\<forall>l\<in>set (text_lines (Q @ drop (p + k) c)). length l < 1024"
      using less.prems(11) tl w2(9) by (auto simp: R_def)
    moreover have "ufds (view w2) (nat fd) = Fd_regular c (p + k)" by (simp add: v2)
    ultimately obtain w' q where w': "file_loop os lit sa (of_nat (length ss)) fa data fd (int (length Q)) w2 = Some (w', 0)" "inv w'" "umem (view w') (data + 1024) \<noteq> 10"
      "outside data 1025 (umem (view w2)) (umem (view w'))" "ufds (view w') = (ufds (view w2))(nat fd := Fd_regular c q)"
      "udir (view w') = udir (view w2)"
      "uout (view w') = fold aterm_putc (grep_output ss fs (text_lines (Q @ R))) (uout (view w2))"
      using less.hyps [OF dec w2(2) grep_env_outside [OF env out2] fd(1,2) _ w2(4-6) z2 less.prems(10)] unfolding R_def by metis
    have "uout (view w') = fold aterm_putc (grep_output ss fs (text_lines (P @ drop p c))) (uout (view w))"
      using w'(7) v2(3) tl w2(9) by simp
    then show ?thesis
      using unf False w'(1-3,5,6) v2(1,2) outside_trans [OF out2 w'(4)] by (intro exI [of _ w'] exI [of _ q]) simp
  qed
qed

lemma do_one_file_ok:
  assumes w: "inv w" and env: "grep_env lit sa ss fa fs data (umem (view w))"
    and e: "find (\<lambda>e. uf_name e = take 32 fs) img = Some e" "uf_type e = 2" and fd: "first_closed (ufds (view w)) \<noteq> 8"
    and data: "umem (view w) (data + 1024) \<noteq> 10" "0 \<notin> set (uf_data e)" "\<forall>l\<in>set (text_lines (uf_data e)). length l < 1024"
  shows "\<exists>w'. do_one_file os lit data sa fa w = Some (w', 0) \<and> inv w' \<and> outside data 1025 (umem (view w)) (umem (view w')) \<and>
    umem (view w') (data + 1024) \<noteq> 10 \<and> ufds (view w') = ufds (view w) \<and> udir (view w') = udir (view w) \<and>
    uout (view w') = fold aterm_putc (grep_output ss fs (text_lines (uf_data e))) (uout (view w))"
proof -
  define i where "i = first_closed (ufds (view w))"
  note i = first_closed_fd [OF w i_def [symmetric] fd [folded i_def]]
  have "find (\<lambda>i. ufds (view w) i = Fd_closed) [0..<8] = Some i" using fd by (auto simp: i_def first_closed_def split: option.splits)
  then have fc: "ufds (view w) i = Fd_closed" by (auto simp: find_Some_iff)
  have E: "cstring (umem (view w)) sa ss" "ubuf sa (length ss + 1)" "cstring (umem (view w)) fa fs" "ubuf fa (length fs + 1)"
    using env by (simp_all add: grep_env_def)
  have s: "ece391_strlen os w sa = Some (of_nat (length ss))" by (rule strlen_ok [OF w E(1,2)])
  have "u_open img fa (view w) = (set_fd i (Fd_regular (uf_data e) 0) (view w), int i)"
    using e fd by (simp add: u_open_def name_at_cstring [OF E(3)] i_def fd_for_def set_fd_def Let_def)
  then obtain w1 where w1: "ece391_open os fa w = Some (w1, int i)" "inv w1" "view w1 = set_fd i (Fd_regular (uf_data e) 0) (view w)"
    using open_stub [OF w E(3,4)] by blast
  have m1: "umem (view w1) = umem (view w)" by (simp add: w1(3) set_fd_def)
  have f1: "ufds (view w1) (nat (int i)) = Fd_regular (uf_data e) 0" by (simp add: w1(3) set_fd_def)
  have h1: "held (umem (view w1)) data []" by (simp add: held_def)
  have ib: "2 \<le> int i" "int i < 8" using i by simp_all
  have "\<exists>w' q. file_loop os lit sa (of_nat (length ss)) fa data (int i) (int (length ([] :: u8 list))) w1 = Some (w', 0) \<and> inv w' \<and> umem (view w') (data + 1024) \<noteq> 10 \<and>
    outside data 1025 (umem (view w1)) (umem (view w')) \<and> ufds (view w') = (ufds (view w1))(nat (int i) := Fd_regular (uf_data e) q) \<and>
    udir (view w') = udir (view w1) \<and>
    uout (view w') = fold aterm_putc (grep_output ss fs (text_lines ([] @ drop 0 (uf_data e)))) (uout (view w1))"
    by (rule file_loop_ok [OF w1(2) _ ib f1 h1]) (use env data in \<open>simp_all add: m1\<close>)
  then obtain w2 q where
    w2: "file_loop os lit sa (of_nat (length ss)) fa data (int i) 0 w1 = Some (w2, 0)" "inv w2" "umem (view w2) (data + 1024) \<noteq> 10"
      "outside data 1025 (umem (view w1)) (umem (view w2))" "ufds (view w2) = (ufds (view w1))(i := Fd_regular (uf_data e) q)"
      "udir (view w2) = udir (view w1)"
      "uout (view w2) = fold aterm_putc (grep_output ss fs (text_lines (uf_data e))) (uout (view w1))" by auto
  have "u_close (int i) (view w2) = (set_fd i Fd_closed (view w2), 0)" using i by (simp add: u_close_def w2(5))
  then obtain w3 where w3: "ece391_close os (int i) w2 = Some (w3, 0)" "inv w3" "view w3 = set_fd i Fd_closed (view w2)"
    using close_stub [OF w2(2), of "int i"] sint_of_int_u32 [of "int i"] i by auto
  have "ufds (view w3) = ufds (view w)" using fc by (auto simp: w3(3) w2(5) w1(3) set_fd_def)
  then show ?thesis
    using s w1(1) w2(1,3,4,6,7) w3 m1 i(1) by (auto simp: do_one_file_def set_fd_def w1(3))
qed

lemma do_one_file_missing:
  assumes w: "inv w" and env: "grep_env lit sa ss fa fs data (umem (view w))"
    and e: "find (\<lambda>e. uf_name e = take 32 fs) img = None" and lit: "literals lit [''file open failed'' @ nl] (umem (view w))"
  shows "\<exists>w'. do_one_file os lit data sa fa w = Some (w', -1) \<and> inv w' \<and> emits (chars (''file open failed'' @ nl)) (view w) (view w')"
proof -
  have E: "cstring (umem (view w)) sa ss" "ubuf sa (length ss + 1)" "cstring (umem (view w)) fa fs" "ubuf fa (length fs + 1)"
    using env by (simp_all add: grep_env_def)
  have "u_open img fa (view w) = (view w, -1)" using e by (simp add: u_open_def name_at_cstring [OF E(3)])
  then obtain w1 where w1: "ece391_open os fa w = Some (w1, -1)" "inv w1" "view w1 = view w" using open_stub [OF w E(3,4)] by blast
  obtain w2 where "ece391_fdputs os 1 (lit (''file open failed'' @ nl)) w1 = Some w2" "inv w2"
    "view w2 = u_puts (chars (''file open failed'' @ nl)) (view w1)"
    using puts_lit [OF w1(2), of lit "[''file open failed'' @ nl]"] lit w1(3) by (auto simp del: append.simps)
  then show ?thesis
    using strlen_ok [OF w E(1,2)] w1 emits_puts [of "chars (''file open failed'' @ nl)" "view w"]
    by (simp add: do_one_file_def del: append.simps)
qed

end

section \<open>The whole directory\<close>

text \<open>The three buffers and the literals are apart, and the argument is in its buffer.\<close>

definition grep_state :: "(string \<Rightarrow> u32) \<Rightarrow> u32 \<Rightarrow> u32 \<Rightarrow> u32 \<Rightarrow> u8 list \<Rightarrow> (u32 \<Rightarrow> u8) \<Rightarrow> bool" where
  "grep_state lit data buf search ss m \<longleftrightarrow> ubuf data 1025 \<and> ubuf buf 33 \<and> disjoint_bufs data 1025 buf 33 \<and>
     cstring m search ss \<and> ubuf search (length ss + 1) \<and> disjoint_bufs data 1025 search (length ss + 1) \<and>
     disjoint_bufs buf 33 search (length ss + 1) \<and> literals lit ['':'', nl] m \<and> away lit ['':'', nl] data 1025 \<and>
     away lit ['':'', nl] buf 33 \<and> m (data + 1024) \<noteq> 10"

lemma grep_state_outside:
  assumes "grep_state lit data buf search ss m" "outside buf 33 m m' \<or> outside data 1025 m m' \<and> m' (data + 1024) \<noteq> 10"
  shows "grep_state lit data buf search ss m'"
proof -
  have d: "m' (data + 1024) \<noteq> 10"
    using assms outside_far [of buf 33 m m' data 1025 1024] by (auto simp: grep_state_def)
  consider "outside buf 33 m m'" | "outside data 1025 m m'" using assms(2) by blast
  then show ?thesis
  proof cases
    case 1
    then show ?thesis
      using assms(1) d cstring_outside [of m search ss buf 33 m'] literals_outside [of lit "['':'', nl]" m buf 33 m']
      unfolding grep_state_def disjoint_bufs_def by auto
  next
    case 2
    then show ?thesis
      using assms(1) d cstring_outside [of m search ss data 1025 m'] literals_outside [of lit "['':'', nl]" m data 1025 m']
      unfolding grep_state_def disjoint_bufs_def by auto
  qed
qed

text \<open>A directory of the clock and of text files with short lines, apart from names that start with a dot.\<close>

definition text_directory :: "ufile list \<Rightarrow> bool" where
  "text_directory img \<longleftrightarrow> (\<forall>e\<in>set img. uf_name e \<noteq> [] \<and> (hd (uf_name e) \<noteq> 46 \<longrightarrow>
     find (\<lambda>e'. uf_name e' = uf_name e) img = Some e \<and>
     (uf_type e = 0 \<or> uf_type e = 2 \<and> 0 \<notin> set (uf_data e) \<and> (\<forall>l\<in>set (text_lines (uf_data e)). length l < 1024))))"

definition entry_output :: "u8 list \<Rightarrow> ufile \<Rightarrow> u8 list" where
  "entry_output ss e = (if hd (uf_name e) = 46 \<or> uf_type e = 0 then [] else grep_output ss (uf_name e) (text_lines (uf_data e)))"

context user_screen
begin

text \<open>The clock is read once, after its next tick, and has no line.\<close>

lemma do_one_file_clock:
  assumes w: "inv w" and env: "grep_env lit sa ss fa fs data (umem (view w))"
    and e: "find (\<lambda>e. uf_name e = take 32 fs) img = Some e" "uf_type e = 0" and fd: "first_closed (ufds (view w)) \<noteq> 8"
  shows "\<exists>w'. do_one_file os lit data sa fa w = Some (w', 0) \<and> inv w' \<and> outside data 1024 (umem (view w)) (umem (view w')) \<and>
    ufds (view w') = ufds (view w) \<and> udir (view w') = udir (view w) \<and> uout (view w') = uout (view w)"
proof -
  define i where "i = first_closed (ufds (view w))"
  note i = first_closed_fd [OF w i_def [symmetric] fd [folded i_def]]
  have "find (\<lambda>i. ufds (view w) i = Fd_closed) [0..<8] = Some i" using fd by (auto simp: i_def first_closed_def split: option.splits)
  then have fc: "ufds (view w) i = Fd_closed" by (auto simp: find_Some_iff)
  have E: "cstring (umem (view w)) sa ss" "ubuf sa (length ss + 1)" "cstring (umem (view w)) fa fs" "ubuf fa (length fs + 1)" "ubuf data 1025"
    using env by (simp_all add: grep_env_def)
  have "u_open img fa (view w) = (set_fd i Fd_clock (view w), int i)"
    using e fd by (simp add: u_open_def name_at_cstring [OF E(3)] i_def fd_for_def set_fd_def Let_def)
  then obtain w1 where w1: "ece391_open os fa w = Some (w1, int i)" "inv w1" "view w1 = set_fd i Fd_clock (view w)"
    using open_stub [OF w E(3,4)] by blast
  obtain w2 where w2: "ece391_read os (int i) data 1024 w1 = Some (w2, 0)" "inv w2" "view w2 = (view w1)\<lparr>utick := False\<rparr>"
    using clock_read [OF w1(2), of "int i" data 1024] i by (auto simp: w1(3) set_fd_def)
  have b: "ubuf data 1" using ubuf_off(2) [OF E(5), of 0] by simp
  define w3 where "w3 = os_store os w2 data 0"
  have w3: "inv w3" "view w3 = (view w2)\<lparr>umem := (umem (view w2))(data := 0)\<rparr>" using store [OF w2(2) b, of 0] by (simp_all add: w3_def)
  have "file_loop os lit sa (of_nat (length ss)) fa data (int i) 0 w1 = Some (w3, 0)"
    using w2(1) by (subst file_loop.simps, subst line_loop.simps) (simp add: scan_line.simps search_line.simps w3_def Let_def)
  moreover have "u_close (int i) (view w3) = (set_fd i Fd_closed (view w3), 0)"
    using i by (simp add: u_close_def w3(2) w2(3) w1(3) set_fd_def)
  then obtain w4 where w4: "ece391_close os (int i) w3 = Some (w4, 0)" "inv w4" "view w4 = set_fd i Fd_closed (view w3)"
    using close_stub [OF w3(1), of "int i"] sint_of_int_u32 [of "int i"] i by auto
  ultimately have "do_one_file os lit data sa fa w = Some (w4, 0)"
    using strlen_ok [OF w E(1,2)] w1(1) i by (simp add: do_one_file_def)
  moreover have "ufds (view w4) = ufds (view w)" using fc by (auto simp: w4(3) w3(2) w2(3) w1(3) set_fd_def)
  ultimately show ?thesis
    using w4(2) outside_upd [of 0 1024 data "umem (view w)" 0] by (auto simp: w4(3) w3(2) w2(3) w1(3) set_fd_def)
qed

lemma grep_entry:
  assumes w: "inv w" and st: "grep_state lit data buf search ss (umem (view w))" and e: "e \<in> set img" "text_directory img" "hd (uf_name e) \<noteq> 46"
    and buf: "cstring (umem (view w)) buf (uf_name e)" and fd: "first_closed (ufds (view w)) \<noteq> 8"
  shows "\<exists>w'. do_one_file os lit data search buf w = Some (w', 0) \<and> inv w' \<and> grep_state lit data buf search ss (umem (view w')) \<and>
    ufds (view w') = ufds (view w) \<and> udir (view w') = udir (view w) \<and>
    uout (view w') = fold aterm_putc (entry_output ss e) (uout (view w))"
proof -
  have "length (uf_raw e) = 32" using view [OF w] e(1) by (simp add: view_ok_def)
  then have n: "length (uf_name e) \<le> 32" using length_takeWhile_le [of _ "uf_raw e"] by (simp add: uf_name_def)
  have env: "grep_env lit search ss buf (uf_name e) data (umem (view w))"
    using st buf n by (auto simp: grep_env_def grep_state_def disjoint_bufs_def ubuf_def)
  have f: "find (\<lambda>e'. uf_name e' = take 32 (uf_name e)) img = Some e" using e n by (auto simp: text_directory_def)
  have d: "umem (view w) (data + 1024) \<noteq> 10" "ubuf data 1025" using st by (simp_all add: grep_state_def)
  consider "uf_type e = 0" | "uf_type e = 2" "0 \<notin> set (uf_data e)" "\<forall>l\<in>set (text_lines (uf_data e)). length l < 1024"
    using e by (auto simp: text_directory_def)
  then show ?thesis
  proof cases
    case 1
    from do_one_file_clock [OF w env f 1 fd] obtain w' where
      w': "do_one_file os lit data search buf w = Some (w', 0)" "inv w'" "outside data 1024 (umem (view w)) (umem (view w'))"
        "ufds (view w') = ufds (view w)" "udir (view w') = udir (view w)" "uout (view w') = uout (view w)" by blast
    have "data + 1024 \<noteq> data + of_nat i" if "i < 1024" for i
      using ubuf_off(1) [OF d(2), of 1024] ubuf_off(1) [OF d(2), of i] that by auto
    then have "umem (view w') (data + 1024) \<noteq> 10" using w'(3) d(1) by (simp add: outside_def)
    moreover have "outside data 1025 (umem (view w)) (umem (view w'))" using w'(3) by (simp add: outside_def)
    ultimately have "grep_state lit data buf search ss (umem (view w'))" using grep_state_outside [OF st] by blast
    then show ?thesis using w' 1 by (simp add: entry_output_def)
  next
    case 2
    from do_one_file_ok [OF w env f 2(1) fd d(1) 2(2,3)] obtain w' where
      w': "do_one_file os lit data search buf w = Some (w', 0)" "inv w'" "outside data 1025 (umem (view w)) (umem (view w'))"
        "umem (view w') (data + 1024) \<noteq> 10" "ufds (view w') = ufds (view w)" "udir (view w') = udir (view w)"
        "uout (view w') = fold aterm_putc (grep_output ss (uf_name e) (text_lines (uf_data e))) (uout (view w))" by auto
    have "grep_state lit data buf search ss (umem (view w'))" using grep_state_outside [OF st] w'(3,4) by blast
    then show ?thesis using w' e(3) 2(1) by (simp add: entry_output_def)
  qed
qed

lemma grep_loop_ok:
  assumes "inv w" "grep_state lit data buf search ss (umem (view w))" "text_directory img"
    "ufds (view w) (nat fd) = Fd_directory" "2 \<le> fd" "fd < 8" "first_closed (ufds (view w)) \<noteq> 8"
  shows "\<exists>w'. grep_loop os lit data buf search fd w = Some (w', 0) \<and> inv w' \<and>
    uout (view w') = fold aterm_putc (concat (map (entry_output ss) (drop (udir (view w)) img))) (uout (view w))"
  using assms(1,2,4,7)
proof (induction "length img - udir (view w)" arbitrary: w rule: less_induct)
  case less
  let ?j = "udir (view w)"
  note st = less.prems(2)
  have sfd: "sint (word_of_int fd :: u32) = fd" using sint_of_int_u32 [of fd] assms(5,6) by simp
  have ub: "ubuf buf 33" using st by (simp add: grep_state_def)
  note rs = read_stub [OF less.prems(1), of fd buf 32, OF _ sfd]
  show ?case
  proof (cases "?j < length img")
    case False
    then show ?thesis
      using rs [of "view w" 0] less.prems(3) assms(5,6) ub by (subst grep_loop.simps) (auto simp: read_ok_def u_read_def)
  next
    case True
    define e where "e = img ! ?j"
    define n where "n = length (uf_name e)"
    have ei: "e \<in> set img" using True by (simp add: e_def)
    have e: "length (uf_raw e) = 32" "uf_name e \<noteq> []"
      using view [OF less.prems(1)] ei assms(3) by (simp_all add: view_ok_def text_directory_def)
    have n: "0 < n" "n \<le> 32" using e length_takeWhile_le [of _ "uf_raw e"] by (auto simp: n_def uf_name_def)
    obtain w1 where w1: "ece391_read os fd buf 32 w = Some (w1, int n)" "inv w1"
      "view w1 = (set_mem buf (uf_raw e @ [0]) (view w))\<lparr>udir := ?j + 1\<rparr>"
      using rs less.prems(3) assms(5,6) ub True by (auto simp: read_ok_def u_read_def e_def n_def)
    have m1: "umem (view w1) (buf + of_nat i) = (uf_raw e @ [0]) ! i" if "i < 33" for i
      using put_bytes_in [of i "uf_raw e @ [0]" buf "umem (view w)"] e(1) that by (simp add: w1(3) set_mem_def)
    have nm: "uf_raw e ! i = uf_name e ! i" if "i < n" for i
      using that takeWhile_nth [of i _ "uf_raw e"] by (simp add: uf_name_def n_def)
    have hd1: "os_load os w1 buf = hd (uf_name e)"
      using load_eq [OF w1(2) ub, of 0] m1 [of 0] nm [of 0] n e by (simp add: hd_conv_nth nth_append n_def)
    have out1: "outside buf 33 (umem (view w)) (umem (view w1))"
      using outside_put [of "uf_raw e @ [0]" 33 buf "umem (view w)"] e(1) by (simp add: w1(3) set_mem_def)
    have st1: "grep_state lit data buf search ss (umem (view w1))" using grep_state_outside [OF st] out1 by blast
    have dj: "drop ?j img = e # drop (?j + 1) img" using True by (simp add: e_def Cons_nth_drop_Suc)
    obtain w2 where w2: "grep_loop os lit data buf search fd w = grep_loop os lit data buf search fd w2" "inv w2"
      "grep_state lit data buf search ss (umem (view w2))" "ufds (view w2) = ufds (view w)" "udir (view w2) = ?j + 1"
      "uout (view w2) = fold aterm_putc (entry_output ss e) (uout (view w))"
    proof (cases "hd (uf_name e) = 46")
      case dot: True
      have "grep_loop os lit data buf search fd w = grep_loop os lit data buf search fd w1"
        using w1(1) n hd1 dot by (subst grep_loop.simps) simp
      then show thesis using that [of w1] w1(2) st1 dot by (simp add: w1(3) set_mem_def entry_output_def)
    next
      case nodot: False
      define w0 where "w0 = os_store os w1 (buf + of_nat n) 0"
      have nb: "n < 33" using n by simp
      have w0: "inv w0" "view w0 = (view w1)\<lparr>umem := (umem (view w1))(buf + of_nat n := 0)\<rparr>"
        using store [OF w1(2) ubuf_off(2) [OF ub nb], of 0] by (simp_all add: w0_def)
      have st0: "grep_state lit data buf search ss (umem (view w0))"
        using grep_state_outside [OF st1] outside_upd [OF nb] by (simp add: w0(2))
      have "buf + of_nat i \<noteq> buf + of_nat n" if "i < n" for i
        using that nb ubuf_off(1) [OF ub, of i] ubuf_off(1) [OF ub, of n] by auto
      then have "cstring (umem (view w0)) buf (uf_name e)"
        using m1 nm n e(1) set_takeWhileD [of 0 "\<lambda>c. c \<noteq> 0" "uf_raw e"]
        by (auto simp: cstring_def w0(2) n_def nth_append uf_name_def)
      then obtain w' where w': "do_one_file os lit data search buf w0 = Some (w', 0)" "inv w'" "grep_state lit data buf search ss (umem (view w'))"
        "ufds (view w') = ufds (view w0)" "udir (view w') = udir (view w0)"
        "uout (view w') = fold aterm_putc (entry_output ss e) (uout (view w0))"
        using grep_entry [OF w0(1) st0 ei assms(3) nodot] less.prems(4) by (auto simp: w0(2) w1(3) set_mem_def)
      have "grep_loop os lit data buf search fd w = grep_loop os lit data buf search fd w'"
        using w1(1) n hd1 nodot w'(1) by (subst grep_loop.simps) (simp add: w0_def Let_def)
      then show thesis using that [of w'] w' by (simp add: w0(2) w1(3) set_mem_def)
    qed
    have dec: "length img - udir (view w2) < length img - ?j" using True w2(5) by simp
    from less.hyps [OF dec w2(2,3)] obtain w' where w': "grep_loop os lit data buf search fd w2 = Some (w', 0)" "inv w'"
      "uout (view w') = fold aterm_putc (concat (map (entry_output ss) (drop (?j + 1) img))) (uout (view w2))"
      using w2(4,5) less.prems(3,4) by auto
    then show ?thesis using w2(1,6) dj by simp
  qed
qed

lemma grep_searches:
  assumes w: "inv w" and args: "uargs (view w) = Some raw" "0 \<in> set (take 1024 raw)" "ss = takeWhile (\<lambda>c. c \<noteq> 0) raw"
    and bufs: "ubuf data 1025" "ubuf buf 33" "ubuf search 1024" "disjoint_bufs data 1025 buf 33" "disjoint_bufs data 1025 search 1024"
      "disjoint_bufs buf 33 search 1024" "umem (view w) (data + 1024) \<noteq> 10"
    and lit: "literals lit ['':'', nl, ''.''] (umem (view w))" "away lit ['':'', nl] data 1025" "away lit ['':'', nl] buf 33"
      "away lit ['':'', nl, ''.''] search 1024"
    and dir: "text_directory img" "find (\<lambda>e. uf_name e = chars ''.'') img = Some d" "uf_type d = 1"
    and fds: "first_closed (ufds (view w)) = i" "i \<noteq> 8" "first_closed ((ufds (view w))(i := Fd_directory)) \<noteq> 8"
  shows "\<exists>w'. grep_main os lit data buf search w = Some (w', 0) \<and> inv w' \<and>
    uout (view w') = fold aterm_putc (concat (map (entry_output ss) img)) (uout (view w))"
proof -
  obtain w1 where w1: "ece391_getargs os search 1024 w = Some (w1, 0)" "inv w1" "view w1 = set_mem search (take 1024 raw) (view w)"
    "cstring (umem (view w1)) search ss" "ubuf search (length ss + 1)"
    using cat_args [OF w bufs(3) args] by blast
  have out: "outside search 1024 (umem (view w)) (umem (view w1))" using outside_put [of "take 1024 raw" 1024] by (simp add: w1(3) set_mem_def)
  note L = literals_outside [OF lit(1,4) bufs(3) out]
  have len: "length ss + 1 \<le> 1024" using first_zero(1) [OF args(2)] args(3) by simp
  have d1: "umem (view w1) (data + 1024) \<noteq> 10" using outside_far [OF out bufs(1,3,5), of 1024] bufs(7) by simp
  have st: "grep_state lit data buf search ss (umem (view w1))"
    using bufs w1(4,5) L lit(2,3) d1 len by (auto simp: grep_state_def disjoint_bufs_def literals_def)
  have dot: "cstring (umem (view w1)) (lit ''.'') (chars ''.'')" "ubuf (lit ''.'') (length (chars ''.'') + 1)" using L by (simp_all add: literals_def)
  have f1: "ufds (view w1) = ufds (view w)" by (simp add: w1(3) set_mem_def)
  have "u_open img (lit ''.'') (view w1) = ((set_fd i Fd_directory (view w1))\<lparr>udir := 0\<rparr>, int i)"
    using dir(2,3) fds by (simp add: u_open_def name_at_cstring [OF dot(1)] fd_for_def Let_def f1)
  then obtain w2 where w2: "ece391_open os (lit ''.'') w1 = Some (w2, int i)" "inv w2" "view w2 = (set_fd i Fd_directory (view w1))\<lparr>udir := 0\<rparr>"
    using open_stub [OF w1(2) dot] by blast
  have i: "2 \<le> int i" "int i < 8" using first_closed_fd [OF w fds(1,2)] by simp_all
  have v2: "umem (view w2) = umem (view w1)" "ufds (view w2) = (ufds (view w))(i := Fd_directory)" "udir (view w2) = 0"
    "uout (view w2) = uout (view w)" by (simp_all add: w2(3) w1(3) set_fd_def set_mem_def)
  have "grep_state lit data buf search ss (umem (view w2))" "ufds (view w2) (nat (int i)) = Fd_directory" "first_closed (ufds (view w2)) \<noteq> 8"
    using st fds(3) by (simp_all add: v2)
  from grep_loop_ok [OF w2(2) this(1) dir(1) this(2) i this(3)] show ?thesis
    using w1(1) w2(1) i by (auto simp: grep_main_def v2)
qed

end

end
