(* ===== verification/UserPing.thy ===== *)
theory UserPing
  imports UserVideo
begin

text \<open>
  The program \<^verbatim>\<open>syscalls/ece391pingpong.c\<close>: a letter that moves between two walls, one step for every
  tick of the clock. The program does not end; what it prints is stated for any number of rounds.
\<close>

section \<open>The program\<close>

definition SCREENWIDTH :: nat where "SCREENWIDTH = 79"
definition ENDING :: nat where "ENDING = 2"
definition BUFMAX :: nat where "BUFMAX = SCREENWIDTH + ENDING"
definition START :: nat where "START = 1"
definition STARTLOOP :: nat where "STARTLOOP = START + 1"
definition LOOPMAX :: nat where "LOOPMAX = BUFMAX - ENDING - 1"
definition STARTCHAR :: u8 where "STARTCHAR = ch CHR ''A''"
definition ENDCHAR :: u8 where "ENDCHAR = ch CHR ''Z''"

lemma ping_consts [simp]:
  "STARTLOOP = 2" "LOOPMAX = 78" "BUFMAX = 81" "START = 1" "STARTCHAR = 65" "ENDCHAR = 90"
  by (simp_all add: SCREENWIDTH_def ENDING_def BUFMAX_def START_def STARTLOOP_def LOOPMAX_def STARTCHAR_def ENDCHAR_def)

definition fill :: "'w os \<Rightarrow> u32 \<Rightarrow> nat \<Rightarrow> nat \<Rightarrow> 'w \<Rightarrow> 'w" where
  "fill os buf a b w = for_range a b (\<lambda>i w. os_store os w (buf + of_nat i) (ch CHR '' '')) w"

text \<open>The setting up: the walls, and the clock at 32 Hz.\<close>

definition ping_setup :: "'w os \<Rightarrow> (string \<Rightarrow> u32) \<Rightarrow> u32 \<Rightarrow> u32 \<Rightarrow> 'w \<Rightarrow> ('w \<times> int) option" where
  "ping_setup os lit buf ret_val w = do {
     let w = fill os buf 0 BUFMAX w;
     let w = os_store os w (buf + of_nat (BUFMAX - 1)) 0;
     let w = os_store os w (buf + of_nat (BUFMAX - 2)) (ch CHR 0x0A);
     let w = os_store os w (buf + of_nat (BUFMAX - 3)) (ch CHR ''|'');
     let w = os_store os w (buf + of_nat START) (ch CHR ''|'');
     (w, rtc_fd) \<leftarrow> ece391_open os (lit ''rtc'') w;
     let w = os_store_int os w ret_val 32;
     (w, r) \<leftarrow> ece391_write os rtc_fd ret_val 4 w;
     Some (os_store_int os w ret_val (word_of_int r), rtc_fd)
   }"

definition ping_step :: "'w os \<Rightarrow> u32 \<Rightarrow> u32 \<Rightarrow> int \<Rightarrow> u8 \<Rightarrow> nat \<Rightarrow> 'w \<Rightarrow> 'w option" where
  "ping_step os buf garbage rtc_fd curchar j w = do {
     let w = fill os buf STARTLOOP LOOPMAX w;
     let w = os_store os w (buf + of_nat j) curchar;
     w \<leftarrow> ece391_fdputs os 1 buf w;
     (w, _) \<leftarrow> ece391_read os rtc_fd garbage 4 w;
     Some w
   }"

text \<open>The two loops over the columns, outwards from \<open>j\<close> and back from column \<open>j - 1\<close>.\<close>

function move_out :: "'w os \<Rightarrow> u32 \<Rightarrow> u32 \<Rightarrow> int \<Rightarrow> u8 \<Rightarrow> nat \<Rightarrow> 'w \<Rightarrow> 'w option" where
  "move_out os buf garbage rtc_fd curchar j w =
     (if j < LOOPMAX
      then do { w \<leftarrow> ping_step os buf garbage rtc_fd curchar j w; move_out os buf garbage rtc_fd curchar (j + 1) w }
      else Some w)"
  by pat_completeness auto
termination
  by (relation "measure (\<lambda>(os, buf, garbage, rtc_fd, curchar, j, w). LOOPMAX - j)") auto

function bounce_back :: "'w os \<Rightarrow> u32 \<Rightarrow> u32 \<Rightarrow> int \<Rightarrow> u8 \<Rightarrow> nat \<Rightarrow> 'w \<Rightarrow> 'w option" where
  "bounce_back os buf garbage rtc_fd curchar j w =
     (if STARTLOOP \<le> j
      then do { w \<leftarrow> ping_step os buf garbage rtc_fd curchar j w; bounce_back os buf garbage rtc_fd curchar (j - 1) w }
      else Some w)"
  by pat_completeness auto
termination
  by (relation "measure (\<lambda>(os, buf, garbage, rtc_fd, curchar, j, w). j)") auto

declare move_out.simps [simp del] bounce_back.simps [simp del]

definition next_char :: "u8 \<Rightarrow> u8" where
  "next_char curchar = (if curchar = ENDCHAR then STARTCHAR else curchar + 1)"

definition ping_round :: "'w os \<Rightarrow> u32 \<Rightarrow> u32 \<Rightarrow> int \<Rightarrow> u8 \<Rightarrow> 'w \<Rightarrow> ('w \<times> u8) option" where
  "ping_round os buf garbage rtc_fd curchar w = do {
     w \<leftarrow> move_out os buf garbage rtc_fd curchar STARTLOOP w;
     w \<leftarrow> bounce_back os buf garbage rtc_fd curchar (LOOPMAX - 1) w;
     Some (w, next_char curchar)
   }"

text \<open>The first \<open>n\<close> rounds of \<^verbatim>\<open>while(1)\<close>.\<close>

fun ping_rounds :: "'w os \<Rightarrow> u32 \<Rightarrow> u32 \<Rightarrow> int \<Rightarrow> nat \<Rightarrow> u8 \<Rightarrow> 'w \<Rightarrow> ('w \<times> u8) option" where
  "ping_rounds os buf garbage rtc_fd 0 curchar w = Some (w, curchar)"
| "ping_rounds os buf garbage rtc_fd (Suc n) curchar w = do {
     (w, curchar) \<leftarrow> ping_round os buf garbage rtc_fd curchar w;
     ping_rounds os buf garbage rtc_fd n curchar w
   }"

definition pingpong_main :: "'w os \<Rightarrow> (string \<Rightarrow> u32) \<Rightarrow> u32 \<Rightarrow> u32 \<Rightarrow> u32 \<Rightarrow> nat \<Rightarrow> 'w \<Rightarrow> 'w option" where
  "pingpong_main os lit buf ret_val garbage n w = do {
     (w, rtc_fd) \<leftarrow> ping_setup os lit buf ret_val w;
     (w, _) \<leftarrow> ping_rounds os buf garbage rtc_fd n STARTCHAR w;
     Some w
   }"

section \<open>What it prints\<close>

text \<open>The line with the letter in column \<open>j\<close>, the lines of a round, and the letters of the rounds.\<close>

definition ping_line :: "u8 \<Rightarrow> nat \<Rightarrow> u8 list" where
  "ping_line c j = ([32, 124] @ replicate 76 32 @ [124, 10])[j := c]"

definition round_text :: "u8 \<Rightarrow> u8 list" where
  "round_text c = concat (map (ping_line c) ([2..<78] @ rev [2..<78]))"

definition letter :: "nat \<Rightarrow> u8" where
  "letter n = 65 + of_nat (n mod 26)"

lemma next_char_letter: "next_char (letter n) = letter (Suc n)"
proof -
  have l: "65 + of_nat (n mod 26) = (90 :: u8) \<longleftrightarrow> n mod 26 = 25"
  proof -
    have "unat (65 + of_nat (n mod 26) :: u8) = 65 + n mod 26"
      using unat_of_nat_small [of "65 + n mod 26", where 'a = 8] by simp
    then show ?thesis by (auto simp: word_unat_eq_iff)
  qed
  have "Suc n mod 26 = (if n mod 26 = 25 then 0 else n mod 26 + 1)" by (simp add: mod_Suc)
  then show ?thesis using l by (simp add: next_char_def letter_def)
qed

lemma ping_line_nth:
  assumes "2 \<le> j" "j < 78" "i < 81"
  shows "(ping_line c j @ [0]) ! i = (if i = j then c else if i = 1 \<or> i = 78 then 124 else if i = 79 then 10 else if i = 80 then 0 else 32)"
proof -
  define xs :: "u8 list" where "xs = [32, 124] @ replicate 76 32 @ [124, 10]"
  have len: "length xs = 80" by (simp add: xs_def)
  have "xs ! i = (if i = 1 \<or> i = 78 then 124 else if i = 79 then 10 else 32)" if "i < 80"
    using that by (auto simp: xs_def nth_append nth_Cons')
  then have "xs[j := c] ! i = (if i = j then c else if i = 1 \<or> i = 78 then 124 else if i = 79 then 10 else 32)" if "i < 80"
    using that assms len by (simp add: nth_list_update)
  then show ?thesis
    unfolding ping_line_def xs_def [symmetric] using assms len by (cases "i < 80") (simp_all add: nth_append)
qed

lemma length_ping_line [simp]: "length (ping_line c j) = 80"
  unfolding ping_line_def length_list_update by simp

lemma ping_line_nonzero:
  assumes "2 \<le> j" "j < 78" "c \<noteq> 0"
  shows "0 \<notin> set (ping_line c j)"
proof
  assume "0 \<in> set (ping_line c j)"
  then obtain i where i: "i < 80" "ping_line c j ! i = 0" by (auto simp: in_set_conv_nth)
  then show False using ping_line_nth [OF assms(1,2), of i c] assms(3) by (auto simp: nth_append split: if_splits)
qed

definition walls :: "(u32 \<Rightarrow> u8) \<Rightarrow> u32 \<Rightarrow> bool" where
  "walls m buf \<longleftrightarrow> m buf = 32 \<and> m (buf + 1) = 124 \<and> m (buf + 78) = 124 \<and> m (buf + 79) = 10 \<and> m (buf + 80) = 0"

context user_os
begin

lemma fill_ok:
  assumes "inv w" "ubuf buf n" "b \<le> n"
  shows "inv (fill os buf a b w) \<and> (\<exists>m. view (fill os buf a b w) = (view w)\<lparr>umem := m\<rparr> \<and> outside buf n (umem (view w)) m \<and>
    (\<forall>i<n. m (buf + of_nat i) = (if a \<le> i \<and> i < b then 32 else umem (view w) (buf + of_nat i))))"
  using assms(3)
proof (induction b)
  case 0
  then show ?case using assms(1) by (auto simp: fill_def intro!: exI [of _ "umem (view w)"])
next
  case (Suc b)
  then obtain m where m: "inv (fill os buf a b w)" "view (fill os buf a b w) = (view w)\<lparr>umem := m\<rparr>" "outside buf n (umem (view w)) m"
    "\<forall>i<n. m (buf + of_nat i) = (if a \<le> i \<and> i < b then 32 else umem (view w) (buf + of_nat i))" by auto
  show ?case
  proof (cases "a \<le> b")
    case True
    have b: "b < n" using Suc.prems by simp
    have e: "fill os buf a (Suc b) w = os_store os (fill os buf a b w) (buf + of_nat b) 32"
      using True by (simp add: fill_def for_range_Suc)
    define m' where "m' = m(buf + of_nat b := 32)"
    have "m' (buf + of_nat i) = (if a \<le> i \<and> i < Suc b then 32 else umem (view w) (buf + of_nat i))" if "i < n" for i
    proof (cases "i = b")
      case False
      then have "buf + of_nat i \<noteq> buf + of_nat b" using ubuf_off(1) [OF assms(2) that] ubuf_off(1) [OF assms(2) b] by auto
      then show ?thesis using m(4) that False by (auto simp: m'_def less_Suc_eq)
    qed (use True in \<open>simp add: m'_def\<close>)
    moreover have "outside buf n (umem (view w)) m'"
      unfolding m'_def by (rule outside_trans [OF m(3) outside_upd [OF b]])
    moreover have "inv (os_store os (fill os buf a b w) (buf + of_nat b) 32)"
      "view (os_store os (fill os buf a b w) (buf + of_nat b) 32) = (view w)\<lparr>umem := m'\<rparr>"
      using store [OF m(1) ubuf_off(2) [OF assms(2) b], of 32] by (simp_all add: m(2) m'_def)
    ultimately show ?thesis unfolding e by blast
  next
    case False
    then have "fill os buf a (Suc b) w = fill os buf a b w" by (simp add: fill_def)
    moreover have "(if a \<le> i \<and> i < Suc b then 32 else umem (view w) (buf + of_nat i)) =
        (if a \<le> i \<and> i < b then 32 else umem (view w) (buf + of_nat i))" for i using False by auto
    ultimately show ?thesis using m by (simp only:) blast
  qed
qed

end

context user_screen
begin

lemma ping_step_ok:
  assumes w: "inv w" "walls (umem (view w)) buf" and buf: "ubuf buf 81" and j: "2 \<le> j" "j < 78" and c: "c \<noteq> 0"
    and fd: "2 \<le> fd" "fd < 8" "ufds (view w) (nat fd) = Fd_clock"
  shows "\<exists>w'. ping_step os buf garbage fd c j w = Some w' \<and> inv w' \<and> walls (umem (view w')) buf \<and> ufds (view w') = ufds (view w) \<and>
    uout (view w') = fold aterm_putc (ping_line c j) (uout (view w))"
proof -
  define w1 where "w1 = fill os buf STARTLOOP LOOPMAX w"
  obtain m where m: "inv w1" "view w1 = (view w)\<lparr>umem := m\<rparr>"
    "\<forall>i<81. m (buf + of_nat i) = (if 2 \<le> i \<and> i < 78 then 32 else umem (view w) (buf + of_nat i))"
    using fill_ok [OF w(1) buf, of 78 2] by (auto simp: w1_def)
  define w2 where "w2 = os_store os w1 (buf + of_nat j) c"
  define m' where "m' = m(buf + of_nat j := c)"
  have w2: "inv w2" "view w2 = (view w)\<lparr>umem := m'\<rparr>"
    using store [OF m(1) ubuf_off(2) [OF buf], of j c] j by (simp_all add: w2_def m(2) m'_def)
  have line: "m' (buf + of_nat i) = (ping_line c j @ [0]) ! i" if "i < 81" for i
  proof (cases "i = j")
    case True
    then show ?thesis using ping_line_nth [OF j that, of c] by (simp add: m'_def)
  next
    case False
    then have "buf + of_nat i \<noteq> buf + of_nat j" using ubuf_off(1) [OF buf that] ubuf_off(1) [OF buf, of j] j by auto
    then have m: "m' (buf + of_nat i) = (if 2 \<le> i \<and> i < 78 then 32 else umem (view w) (buf + of_nat i))"
      using m(3) that by (simp add: m'_def)
    show ?thesis
    proof (cases "2 \<le> i \<and> i < 78")
      case True
      then show ?thesis unfolding m ping_line_nth [OF j that] using False by auto
    next
      case out: False
      then have "i \<in> {0, 1, 78, 79, 80}" using that by auto
      then show ?thesis unfolding m ping_line_nth [OF j that] using w(2) False out by (auto simp: walls_def)
    qed
  qed
  have W: "walls m' buf"
    using line [of 0] line [of 1] line [of 78] line [of 79] line [of 80] j by (simp add: walls_def ping_line_nth [OF j])
  have "cstring m' buf (ping_line c j)"
    using line ping_line_nonzero [OF j c] line [of 80] by (simp add: cstring_def nth_append)
  then obtain w3 where w3: "ece391_fdputs os 1 buf w2 = Some w3" "inv w3" "view w3 = u_puts (ping_line c j) (view w2)"
    using fdputs_ok [OF w2(1), of buf "ping_line c j"] buf by (auto simp: w2(2))
  obtain w4 where w4: "ece391_read os fd garbage 4 w3 = Some (w4, 0)" "inv w4" "view w4 = (view w3)\<lparr>utick := False\<rparr>"
    using clock_read [OF w3(2), of fd garbage 4] fd by (auto simp: w3(3) w2(2))
  have "ping_step os buf garbage fd c j w = Some w4"
    using w3(1) w4(1) by (simp add: ping_step_def w2_def w1_def Let_def)
  then show ?thesis using w4(2) W by (auto simp: w4(3) w3(3) w2(2))
qed

text \<open>Along a list of columns.\<close>

abbreviation ping_ok where
  "ping_ok buf fd w \<equiv> inv w \<and> walls (umem (view w)) buf \<and> ufds (view w) (nat fd) = Fd_clock"

lemma move_out_ok:
  assumes "ubuf buf 81" "2 \<le> fd" "fd < 8" "c \<noteq> 0" "2 \<le> j" "ping_ok buf fd w"
  shows "\<exists>w'. move_out os buf garbage fd c j w = Some w' \<and> ping_ok buf fd w' \<and>
    uout (view w') = fold aterm_putc (concat (map (ping_line c) [j..<78])) (uout (view w))"
  using assms(5,6)
proof (induction "78 - j" arbitrary: j w)
  case 0
  then show ?case by (subst move_out.simps) simp
next
  case (Suc n)
  then have j: "j < 78" "n = 78 - Suc j" "2 \<le> Suc j" by simp_all
  obtain w1 where w1: "ping_step os buf garbage fd c j w = Some w1" "inv w1" "walls (umem (view w1)) buf" "ufds (view w1) = ufds (view w)"
    "uout (view w1) = fold aterm_putc (ping_line c j) (uout (view w))"
    using ping_step_ok [of w buf j c fd garbage] Suc.prems assms(1-4) j(1) by blast
  have "ping_ok buf fd w1" using w1 Suc.prems by simp
  from Suc.hyps(1) [OF j(2,3) this] obtain w' where w': "move_out os buf garbage fd c (Suc j) w1 = Some w'" "ping_ok buf fd w'"
    "uout (view w') = fold aterm_putc (concat (map (ping_line c) [Suc j..<78])) (uout (view w1))" by blast
  have "move_out os buf garbage fd c j w = Some w'" using w1(1) w'(1) j(1) by (subst move_out.simps) simp
  moreover have "uout (view w') = fold aterm_putc (concat (map (ping_line c) [j..<78])) (uout (view w))"
    unfolding w'(3) w1(5) upt_conv_Cons [OF j(1)] by simp
  ultimately show ?case using w'(2) by blast
qed

lemma bounce_back_ok:
  assumes "ubuf buf 81" "2 \<le> fd" "fd < 8" "c \<noteq> 0" "j < 78" "ping_ok buf fd w"
  shows "\<exists>w'. bounce_back os buf garbage fd c j w = Some w' \<and> ping_ok buf fd w' \<and>
    uout (view w') = fold aterm_putc (concat (map (ping_line c) (rev [2..<Suc j]))) (uout (view w))"
  using assms(5,6)
proof (induction j arbitrary: w)
  case 0
  then show ?case by (subst bounce_back.simps) simp
next
  case (Suc j)
  show ?case
  proof (cases "2 \<le> Suc j")
    case True
    obtain w1 where w1: "ping_step os buf garbage fd c (Suc j) w = Some w1" "inv w1" "walls (umem (view w1)) buf" "ufds (view w1) = ufds (view w)"
      "uout (view w1) = fold aterm_putc (ping_line c (Suc j)) (uout (view w))"
      using ping_step_ok [of w buf "Suc j" c fd garbage] Suc.prems assms(1-4) True by blast
    have "j < 78" "ping_ok buf fd w1" using w1 Suc.prems by simp_all
    from Suc.IH [OF this] obtain w' where w': "bounce_back os buf garbage fd c j w1 = Some w'" "ping_ok buf fd w'"
      "uout (view w') = fold aterm_putc (concat (map (ping_line c) (rev [2..<Suc j]))) (uout (view w1))" by blast
    have "bounce_back os buf garbage fd c (Suc j) w = Some w'" using w1(1) w'(1) True by (subst bounce_back.simps) simp
    moreover have "rev [2..<Suc (Suc j)] = Suc j # rev [2..<Suc j]" using True by simp
    then have "uout (view w') = fold aterm_putc (concat (map (ping_line c) (rev [2..<Suc (Suc j)]))) (uout (view w))"
      unfolding w'(3) w1(5) by (simp only: list.map concat.simps fold_append o_apply)
    ultimately show ?thesis using w'(2) by blast
  next
    case False
    then show ?thesis using Suc.prems by (subst bounce_back.simps) simp
  qed
qed

lemma ping_rounds_ok:
  assumes "ubuf buf 81" "2 \<le> fd" "fd < 8" "ping_ok buf fd w"
  shows "\<exists>w'. ping_rounds os buf garbage fd n (letter i) w = Some (w', letter (i + n)) \<and> ping_ok buf fd w' \<and>
    uout (view w') = fold aterm_putc (concat (map (\<lambda>j. round_text (letter j)) [i..<i + n])) (uout (view w))"
  using assms(4)
proof (induction n arbitrary: i w)
  case (Suc n)
  have c: "letter i \<noteq> 0"
    using unat_of_nat_small [of "65 + i mod 26", where 'a = 8] by (auto simp: letter_def word_unat_eq_iff)
  obtain w1 where w1: "move_out os buf garbage fd (letter i) 2 w = Some w1" "ping_ok buf fd w1"
    "uout (view w1) = fold aterm_putc (concat (map (ping_line (letter i)) [2..<78])) (uout (view w))"
    using move_out_ok [OF assms(1-3) c _ Suc.prems] by blast
  obtain w2 where w2: "bounce_back os buf garbage fd (letter i) 77 w1 = Some w2" "ping_ok buf fd w2"
    "uout (view w2) = fold aterm_putc (concat (map (ping_line (letter i)) (rev [2..<78]))) (uout (view w1))"
    using bounce_back_ok [OF assms(1-3) c _ w1(2), of 77] by auto
  have r: "ping_round os buf garbage fd (letter i) w = Some (w2, letter (Suc i))" using w1(1) w2(1) by (simp add: ping_round_def next_char_letter)
  have o: "uout (view w2) = fold aterm_putc (round_text (letter i)) (uout (view w))"
    unfolding round_text_def map_append concat_append fold_append o_apply w2(3) w1(3) ..
  from Suc.IH [OF w2(2), of "Suc i"] obtain w' where w': "ping_rounds os buf garbage fd n (letter (Suc i)) w2 = Some (w', letter (Suc i + n))" "ping_ok buf fd w'"
    "uout (view w') = fold aterm_putc (concat (map (\<lambda>j. round_text (letter j)) [Suc i..<Suc i + n])) (uout (view w2))" by blast
  have "[i..<i + Suc n] = i # [Suc i..<Suc i + n]" by (simp add: upt_conv_Cons)
  then show ?case using r w' o by simp
qed simp

text \<open>The buffers of the program are apart from each other and from the name of the clock.\<close>

lemma ping_setup_ok:
  assumes w: "inv w" and buf: "ubuf buf 81" "ubuf ret_val 4" "disjoint_bufs buf 81 ret_val 4"
    and lit: "literals lit [''rtc''] (umem (view w))" "away lit [''rtc''] buf 81"
    and img: "find (\<lambda>e. uf_name e = chars ''rtc'') img = Some e" "uf_type e = 0" and fd: "first_closed (ufds (view w)) = i" "i \<noteq> 8"
  shows "\<exists>w'. ping_setup os lit buf ret_val w = Some (w', int i) \<and> ping_ok buf (int i) w' \<and> uout (view w') = uout (view w)"
proof -
  define w1 where "w1 = fill os buf 0 81 w"
  obtain m where m: "inv w1" "view w1 = (view w)\<lparr>umem := m\<rparr>" "outside buf 81 (umem (view w)) m"
    "\<forall>i<81. m (buf + of_nat i) = 32"
    using fill_ok [OF w buf(1), of 81 0] by (auto simp: w1_def)
  define m' where "m' = m(buf + 80 := 0, buf + 79 := 10, buf + 78 := 124, buf + 1 := 124)"
  define w2 where "w2 = os_store os (os_store os (os_store os (os_store os w1 (buf + 80) 0) (buf + 79) 10) (buf + 78) 124) (buf + 1) 124"
  have b: "ubuf (buf + 80) 1" "ubuf (buf + 79) 1" "ubuf (buf + 78) 1" "ubuf (buf + 1) 1"
    using ubuf_off(2) [OF buf(1), of 80] ubuf_off(2) [OF buf(1), of 79] ubuf_off(2) [OF buf(1), of 78] ubuf_off(2) [OF buf(1), of 1] by simp_all
  have w2: "inv w2" "view w2 = (view w)\<lparr>umem := m'\<rparr>"
    using store [OF m(1) b(1), of 0] store [OF _ b(2), of _ 10] store [OF _ b(3), of _ 124] store [OF _ b(4), of _ 124]
    by (simp_all add: w2_def m'_def m(2))
  have out: "outside buf 81 (umem (view w)) m'"
    unfolding outside_def
  proof (intro allI impI)
    fix x assume x: "\<forall>i<81. x \<noteq> buf + of_nat i"
    from this [rule_format, of 80] this [rule_format, of 79] this [rule_format, of 78] this [rule_format, of 1]
    show "m' x = umem (view w) x" using m(3) x by (simp add: m'_def outside_def)
  qed
  have W: "walls m' buf"
    using spec [OF m(4), of 0] by (simp add: walls_def m'_def)
  have L: "literals lit [''rtc''] m'" by (rule literals_outside [OF lit buf(1) out])
  have n: "cstring (umem (view w2)) (lit ''rtc'') (chars ''rtc'')" "ubuf (lit ''rtc'') (length (chars ''rtc'') + 1)"
    using L by (simp_all add: literals_def w2(2))
  have i: "2 \<le> i" "i < 8" using first_closed_fd [OF w fd] by simp_all
  have "u_open img (lit ''rtc'') (view w2) = (set_fd i Fd_clock (view w2), int i)"
    using img fd name_at_cstring [OF n(1)] by (simp add: u_open_def fd_for_def w2(2) set_fd_def Let_def)
  then obtain w3 where w3: "ece391_open os (lit ''rtc'') w2 = Some (w3, int i)" "inv w3" "view w3 = set_fd i Fd_clock (view w2)"
    using open_stub [OF w2(1) n] by blast
  define w4 where "w4 = os_store_int os w3 ret_val 32"
  note w4 = store_int_ok [OF w3(2) buf(2), of 32, folded w4_def]
  have c4: "ufds (view w4) i = Fd_clock" by (simp add: w4(2) w3(3) set_mem_def set_fd_def)
  obtain r where "u_write (int i) ret_val 4 (view w4) = (view w4, r)" using i c4 by (simp add: u_write_def)
  then obtain w5 where w5: "ece391_write os (int i) ret_val 4 w4 = Some (w5, r)" "inv w5" "view w5 = view w4"
    using write_stub [OF w4(1), of "int i" ret_val 4] i c4 buf(2) sint_of_int_u32 [of "int i"] by (auto simp: write_ok_def)
  define w6 where "w6 = os_store_int os w5 ret_val (word_of_int r)"
  note w6 = store_int_ok [OF w5(2) buf(2), of "word_of_int r", folded w6_def]
  define m6 where "m6 = umem (view w6)"
  have "m6 = put_bytes ret_val [byte_of (word_of_int r) 0, byte_of (word_of_int r) 1, byte_of (word_of_int r) 2, byte_of (word_of_int r) 3]
      (put_bytes ret_val [byte_of 32 0, byte_of 32 1, byte_of 32 2, byte_of 32 3] m')"
    by (simp add: m6_def w6(2) w5(3) w4(2) w3(3) w2(2) set_mem_def set_fd_def del: put_bytes_simps)
  then have "outside ret_val 4 m' m6"
    using outside_trans [OF outside_put outside_put, of _ 4 _ ret_val m'] by (simp del: put_bytes_simps)
  from outside_far [OF this buf] have k: "m6 (buf + of_nat j) = m' (buf + of_nat j)" if "j < 81" for j using that by simp
  have "walls m6 buf"
    using W k [of 0] k [of 1] k [of 78] k [of 79] k [of 80] by (simp add: walls_def)
  moreover have "ping_setup os lit buf ret_val w = Some (w6, int i)"
    using w3(1) w5(1) by (simp add: ping_setup_def w1_def [symmetric] w2_def [symmetric] w4_def [symmetric] w6_def Let_def)
  ultimately show ?thesis
    using w6(1) c4 i by (auto simp: m6_def w6(2) w5(3) w4(2) w3(3) w2(2) set_mem_def set_fd_def)
qed

lemma pingpong_ok:
  assumes "inv w" "ubuf buf 81" "ubuf ret_val 4" "disjoint_bufs buf 81 ret_val 4"
    and "literals lit [''rtc''] (umem (view w))" "away lit [''rtc''] buf 81"
    and "find (\<lambda>e. uf_name e = chars ''rtc'') img = Some e" "uf_type e = 0" and "first_closed (ufds (view w)) \<noteq> 8"
  shows "\<exists>w'. pingpong_main os lit buf ret_val garbage n w = Some w' \<and> inv w' \<and>
    uout (view w') = fold aterm_putc (concat (map (\<lambda>j. round_text (letter j)) [0..<n])) (uout (view w))"
proof -
  define i where "i = first_closed (ufds (view w))"
  have i: "2 \<le> int i" "int i < 8" using first_closed_fd [OF assms(1) i_def [symmetric]] assms(9) by (simp_all add: i_def)
  obtain w1 where w1: "ping_setup os lit buf ret_val w = Some (w1, int i)" "ping_ok buf (int i) w1" "uout (view w1) = uout (view w)"
    using ping_setup_ok [OF assms(1-8) i_def [symmetric]] assms(9) by (auto simp: i_def)
  have "STARTCHAR = letter 0" by (simp add: letter_def)
  then show ?thesis
    using ping_rounds_ok [OF assms(2) i w1(2), of garbage n 0] w1(1,3) by (auto simp: pingpong_main_def)
qed

end

end
