(* ===== verification/UserBlink.thy ===== *)
theory UserBlink
  imports UserVideo
begin

text \<open>
  The blinking characters of the fish animation: the list of \<^verbatim>\<open>fish/blink.S\<close>, assembly over the structure
  of \<^verbatim>\<open>fish/blink.h\<close>, and the allocator and the copy loops of \<^verbatim>\<open>fish/fish.c\<close> that it calls. All of it works
  on the bytes of the program's memory; the addresses of the variables are fields of \<open>fish_vars\<close>.
\<close>

unbundle bit_operations_syntax

section \<open>The structure and the variables\<close>

type_synonym u16 = "16 word"

record blink =
  location :: u16
  on_char :: u8
  off_char :: u8
  on_length :: u16
  off_length :: u16
  countdown :: u16
  status :: u16

record mp1_blink_struct = blink +
  next_blink :: u32

definition LOCATION :: u32 where "LOCATION = 0"
definition ON_CHAR :: u32 where "ON_CHAR = 2"
definition OFF_CHAR :: u32 where "OFF_CHAR = 3"
definition ON_LENGTH :: u32 where "ON_LENGTH = 4"
definition OFF_LENGTH :: u32 where "OFF_LENGTH = 6"
definition COUNTDOWN :: u32 where "COUNTDOWN = 8"
definition STATUS :: u32 where "STATUS = 10"
definition NEXT :: u32 where "NEXT = 12"
definition STRUCT_SIZE :: nat where "STRUCT_SIZE = 16"

lemmas blink_offsets = LOCATION_def ON_CHAR_def OFF_CHAR_def ON_LENGTH_def OFF_LENGTH_def COUNTDOWN_def STATUS_def NEXT_def STRUCT_SIZE_def

record fish_vars =
  blink_array :: u32
  mp1_list_head :: u32
  vmem_base_addr :: u32
  add_temp :: u32
  find_temp :: u32

section \<open>Words in the memory of a program\<close>

definition os_load_short :: "'w os \<Rightarrow> 'w \<Rightarrow> u32 \<Rightarrow> u16" where
  "os_load_short os w a = ucast (os_load os w a) OR push_bit 8 (ucast (os_load os w (a + 1)))"

definition os_load_int :: "'w os \<Rightarrow> 'w \<Rightarrow> u32 \<Rightarrow> u32" where
  "os_load_int os w a = word_of_bytes (os_load os w a) (os_load os w (a + 1)) (os_load os w (a + 2)) (os_load os w (a + 3))"

definition os_store_short :: "'w os \<Rightarrow> 'w \<Rightarrow> u32 \<Rightarrow> u16 \<Rightarrow> 'w" where
  "os_store_short os w a v = store_list (os_store os) w a [ucast v, ucast (drop_bit 8 v)]"

section \<open>Copying and allocating\<close>

definition ece391_memset :: "'w os \<Rightarrow> u32 \<Rightarrow> u8 \<Rightarrow> nat \<Rightarrow> 'w \<Rightarrow> 'w" where
  "ece391_memset os memory c n w = for_range 0 n (\<lambda>i w. os_store os w (memory + of_nat i) c) w"

definition ece391_memcpy :: "'w os \<Rightarrow> u32 \<Rightarrow> u32 \<Rightarrow> nat \<Rightarrow> 'w \<Rightarrow> 'w \<times> int" where
  "ece391_memcpy os dest src n w = (for_range 0 n (\<lambda>i w. os_store os w (dest + of_nat i) (os_load os w (src + of_nat i))) w, 0)"

definition blink_slot :: "fish_vars \<Rightarrow> nat \<Rightarrow> u32" where
  "blink_slot E i = blink_array E + of_nat (STRUCT_SIZE * i)"

definition mp1_malloc :: "'w os \<Rightarrow> fish_vars \<Rightarrow> 'w \<Rightarrow> u32" where
  "mp1_malloc os E w =
     (case find (\<lambda>i. os_load_short os w (blink_slot E i + LOCATION) = 0) [0..<80 * 25] of
        Some i \<Rightarrow> blink_slot E i
      | None \<Rightarrow> 0)"

definition mp1_free :: "'w os \<Rightarrow> u32 \<Rightarrow> 'w \<Rightarrow> 'w" where
  "mp1_free os memory w = ece391_memset os memory 0 STRUCT_SIZE w"

section \<open>The screen\<close>

definition mp1_poke :: "'w os \<Rightarrow> fish_vars \<Rightarrow> u8 \<Rightarrow> u32 \<Rightarrow> 'w \<Rightarrow> 'w" where
  "mp1_poke os E cl eax w = os_store os w (os_load_int os w (vmem_base_addr E) + eax) cl"

text \<open>The offset of a location on the screen: \<^verbatim>\<open>movzwl\<close> and \<^verbatim>\<open>shl $1\<close>.\<close>

definition screen_offset :: "u16 \<Rightarrow> u32" where
  "screen_offset l = push_bit 1 (ucast l)"

text \<open>One element of the list in \<^verbatim>\<open>mp1_rtc_tasklet\<close>, from \<^verbatim>\<open>decw\<close> to \<^verbatim>\<open>next_loop\<close>.\<close>

definition blink_step :: "'w os \<Rightarrow> fish_vars \<Rightarrow> u32 \<Rightarrow> 'w \<Rightarrow> 'w" where
  "blink_step os E ebx w =
     (let w = os_store_short os w (ebx + COUNTDOWN) (os_load_short os w (ebx + COUNTDOWN) - 1)
      in if sint (os_load_short os w (ebx + COUNTDOWN)) > 0 then w
         else
           let eax = screen_offset (os_load_short os w (ebx + LOCATION));
               on = os_load_short os w (ebx + STATUS) AND 1 \<noteq> 0;
               w = mp1_poke os E (os_load os w (ebx + (if on then OFF_CHAR else ON_CHAR))) eax w;
               dx = os_load_short os w (ebx + (if on then OFF_LENGTH else ON_LENGTH));
               w = os_store_short os w (ebx + COUNTDOWN) dx
           in os_store_short os w (ebx + STATUS) (os_load_short os w (ebx + STATUS) XOR 1))"

partial_function (option) tasklet_loop :: "'w os \<Rightarrow> fish_vars \<Rightarrow> u32 \<Rightarrow> 'w \<Rightarrow> 'w option" where
  "tasklet_loop os E ebx w =
     (if ebx = 0 then Some w
      else let w = blink_step os E ebx w in tasklet_loop os E (os_load_int os w (ebx + NEXT)) w)"

definition mp1_rtc_tasklet :: "'w os \<Rightarrow> fish_vars \<Rightarrow> 'w \<Rightarrow> 'w option" where
  "mp1_rtc_tasklet os E w = tasklet_loop os E (os_load_int os w (mp1_list_head E)) w"

section \<open>The commands\<close>

partial_function (option) find_loop :: "'w os \<Rightarrow> u16 \<Rightarrow> u32 \<Rightarrow> 'w \<Rightarrow> u32 option" where
  "find_loop os key ebx w =
     (if ebx = 0 then Some 0
      else if os_load_short os w (ebx + LOCATION) = key then Some ebx
      else find_loop os key (os_load_int os w (ebx + NEXT)) w)"

definition mp1_find_helper :: "'w os \<Rightarrow> fish_vars \<Rightarrow> u32 \<Rightarrow> 'w \<Rightarrow> u32 option" where
  "mp1_find_helper os E arg w = find_loop os (ucast arg) (os_load_int os w (mp1_list_head E)) w"

definition mp1_ioctl_add :: "'w os \<Rightarrow> fish_vars \<Rightarrow> u32 \<Rightarrow> 'w \<Rightarrow> 'w \<times> int" where
  "mp1_ioctl_add os E arg w =
     (let ebx = add_temp E; (w, eax) = ece391_memcpy os ebx arg STRUCT_SIZE w
      in if eax \<noteq> 0 then (w, -1)
         else if os_load_short os w (ebx + LOCATION) \<ge> 80 * 25 then (w, -1)
         else
           let w = os_store_short os w (ebx + STATUS) 1;
               w = os_store_short os w (ebx + COUNTDOWN) (os_load_short os w (ebx + ON_LENGTH));
               eax = mp1_malloc os E w
           in if eax = 0 then (w, -1)
              else
                let edx = eax;
                    w = fst (ece391_memcpy os edx ebx STRUCT_SIZE w);
                    w = os_store_int os w (edx + NEXT) (os_load_int os w (mp1_list_head E));
                    w = os_store_int os w (mp1_list_head E) edx;
                    w = mp1_poke os E (os_load os w (edx + ON_CHAR)) (screen_offset (os_load_short os w (edx + LOCATION))) w
                in (w, 0))"

partial_function (option) prev_loop :: "'w os \<Rightarrow> u32 \<Rightarrow> u32 \<Rightarrow> 'w \<Rightarrow> u32 option" where
  "prev_loop os eax edx w =
     (if os_load_int os w edx = eax then Some edx
      else prev_loop os eax (os_load_int os w edx + NEXT) w)"

definition mp1_ioctl_remove :: "'w os \<Rightarrow> fish_vars \<Rightarrow> u32 \<Rightarrow> 'w \<Rightarrow> ('w \<times> int) option" where
  "mp1_ioctl_remove os E arg w = do {
     eax \<leftarrow> mp1_find_helper os E arg w;
     if eax = 0 then Some (w, -1)
     else do {
       edx \<leftarrow> prev_loop os eax (mp1_list_head E) w;
       let w = os_store_int os w edx (os_load_int os w (eax + NEXT));
       Some (mp1_free os eax w, 0)
     }
   }"

text \<open>
  \<^verbatim>\<open>testb\<close> clears the overflow flag and sets the sign flag to the top bit of its result, and \<^verbatim>\<open>cmovl\<close> moves
  when the two flags differ.
\<close>

definition mp1_ioctl_sync :: "'w os \<Rightarrow> fish_vars \<Rightarrow> u32 \<Rightarrow> 'w \<Rightarrow> ('w \<times> int) option" where
  "mp1_ioctl_sync os E arg w = do {
     eax \<leftarrow> mp1_find_helper os E (drop_bit 16 arg) w;
     if eax = 0 then Some (w, -1)
     else do {
       let esi = eax;
       eax \<leftarrow> mp1_find_helper os E (arg AND 0xFFFF) w;
       if eax = 0 then Some (w, -1)
       else do {
         let edi = eax;
         let w = os_store_short os w (edi + ON_LENGTH) (os_load_short os w (esi + ON_LENGTH));
         let w = os_store_short os w (edi + OFF_LENGTH) (os_load_short os w (esi + OFF_LENGTH));
         let w = os_store_short os w (edi + COUNTDOWN) (os_load_short os w (esi + COUNTDOWN));
         let w = os_store_short os w (edi + STATUS) (os_load_short os w (esi + STATUS));
         let sign = bit (os_load os w (edi + STATUS) AND 1) 7;
         let cl = (if sign then os_load os w (edi + ON_CHAR) else os_load os w (edi + OFF_CHAR));
         Some (mp1_poke os E cl (screen_offset (os_load_short os w (edi + LOCATION))) w, 0)
       }
     }
   }"

definition mp1_ioctl_find :: "'w os \<Rightarrow> fish_vars \<Rightarrow> u32 \<Rightarrow> 'w \<Rightarrow> ('w \<times> int) option" where
  "mp1_ioctl_find os E arg w = do {
     let (w, eax) = ece391_memcpy os (find_temp E) arg 2 w;
     if eax \<noteq> 0 then Some (w, -1)
     else do {
       eax \<leftarrow> mp1_find_helper os E (ucast (os_load_short os w (find_temp E))) w;
       if eax = 0 then Some (w, -1)
       else do {
         let (w, eax) = ece391_memcpy os arg eax STRUCT_SIZE w;
         Some (w, if eax = 0 then 0 else -1)
       }
     }
   }"

definition RTC_ADD :: u32 where "RTC_ADD = 0"
definition RTC_REMOVE :: u32 where "RTC_REMOVE = 1"
definition RTC_FIND :: u32 where "RTC_FIND = 2"
definition RTC_SYNC :: u32 where "RTC_SYNC = 3"

text \<open>The jump through \<^verbatim>\<open>call_table\<close>, which has four entries; a larger command jumps to no routine.\<close>

definition mp1_ioctl :: "'w os \<Rightarrow> fish_vars \<Rightarrow> u32 \<Rightarrow> u32 \<Rightarrow> 'w \<Rightarrow> ('w \<times> int) option" where
  "mp1_ioctl os E arg cmd w =
     (if cmd = 0 then Some (mp1_ioctl_add os E arg w)
      else if cmd = 1 then mp1_ioctl_remove os E arg w
      else if cmd = 2 then mp1_ioctl_find os E arg w
      else if cmd = 3 then mp1_ioctl_sync os E arg w
      else None)"

section \<open>The array as a list of structures\<close>

definition short_of :: "u8 \<Rightarrow> u8 \<Rightarrow> u16" where
  "short_of a b = ucast a OR push_bit 8 (ucast b)"

definition short_at :: "(u32 \<Rightarrow> u8) \<Rightarrow> u32 \<Rightarrow> u16" where
  "short_at m a = short_of (m a) (m (a + 1))"

definition int_at :: "(u32 \<Rightarrow> u8) \<Rightarrow> u32 \<Rightarrow> u32" where
  "int_at m a = word_of_bytes (m a) (m (a + 1)) (m (a + 2)) (m (a + 3))"

definition blink_of :: "u8 list \<Rightarrow> mp1_blink_struct" where
  "blink_of xs = \<lparr>location = short_of (xs ! 0) (xs ! 1), on_char = xs ! 2, off_char = xs ! 3,
     on_length = short_of (xs ! 4) (xs ! 5), off_length = short_of (xs ! 6) (xs ! 7),
     countdown = short_of (xs ! 8) (xs ! 9), status = short_of (xs ! 10) (xs ! 11),
     next_blink = word_of_bytes (xs ! 12) (xs ! 13) (xs ! 14) (xs ! 15)\<rparr>"

definition struct_at :: "(u32 \<Rightarrow> u8) \<Rightarrow> u32 \<Rightarrow> mp1_blink_struct" where
  "struct_at m a = blink_of (mbytes m a 16)"

definition splice :: "nat \<Rightarrow> u8 list \<Rightarrow> u8 list \<Rightarrow> u8 list" where
  "splice k vs xs = take k xs @ vs @ drop (k + length vs) xs"

lemma short_of_bytes [simp]: "short_of (ucast v) (ucast (drop_bit 8 v)) = v"
  unfolding short_of_def
proof (rule bit_word_eqI)
  fix n assume "n < LENGTH(16)"
  then have "n < 8 \<or> n - 8 + 8 = n \<and> n - 8 < 8" by auto
  then show "bit (ucast (ucast v :: u8) OR push_bit 8 (ucast (ucast (drop_bit 8 v) :: u8)) :: u16) n = bit v n"
    by (auto simp: bit_simps)
qed

lemma blink_of_splice:
  assumes "length xs = 16"
  shows "blink_of (splice 8 [ucast v, ucast (drop_bit 8 v)] xs) = (blink_of xs)\<lparr>countdown := v\<rparr>"
    "blink_of (splice 10 [ucast v, ucast (drop_bit 8 v)] xs) = (blink_of xs)\<lparr>status := v\<rparr>"
    "blink_of (splice 4 [ucast v, ucast (drop_bit 8 v)] xs) = (blink_of xs)\<lparr>on_length := v\<rparr>"
    "blink_of (splice 6 [ucast v, ucast (drop_bit 8 v)] xs) = (blink_of xs)\<lparr>off_length := v\<rparr>"
    "blink_of (splice 12 [byte_of p 0, byte_of p 1, byte_of p 2, byte_of p 3] xs) = (blink_of xs)\<lparr>next_blink := p\<rparr>"
  using assms by (simp_all add: blink_of_def splice_def nth_append)

lemma struct_at_sel:
  "location (struct_at m a) = short_at m a" "on_char (struct_at m a) = m (a + 2)" "off_char (struct_at m a) = m (a + 3)"
  "on_length (struct_at m a) = short_at m (a + 4)" "off_length (struct_at m a) = short_at m (a + 6)"
  "countdown (struct_at m a) = short_at m (a + 8)" "status (struct_at m a) = short_at m (a + 10)"
  "next_blink (struct_at m a) = int_at m (a + 12)"
  by (simp_all add: struct_at_def blink_of_def short_at_def int_at_def load_list_def add.assoc)

lemma mbytes_splice:
  assumes "k + length vs \<le> n" "n < 2 ^ 32"
  shows "mbytes (put_bytes (a + of_nat k) vs m) a n = splice k vs (mbytes m a n)"
proof (rule nth_equalityI)
  fix i assume "i < length (mbytes (put_bytes (a + of_nat k) vs m) a n)"
  then have i: "i < n" by simp
  show "mbytes (put_bytes (a + of_nat k) vs m) a n ! i = splice k vs (mbytes m a n) ! i"
  proof (cases "k \<le> i \<and> i < k + length vs")
    case True
    then have "a + of_nat i = a + of_nat k + of_nat (i - k)" "i - k < length vs" by (auto simp flip: of_nat_add)
    then show ?thesis
      using put_bytes_in [of "i - k" vs "a + of_nat k" m] assms i True by (simp add: splice_def nth_append)
  next
    case False
    have "a + of_nat i \<noteq> a + of_nat k + of_nat j" if "j < length vs" for j
    proof
      assume "a + of_nat i = a + of_nat k + of_nat j"
      then have "(of_nat i :: u32) = of_nat (k + j)" by (simp add: add.assoc)
      then have "unat (of_nat i :: u32) = unat (of_nat (k + j) :: u32)" by simp
      then have "i = k + j" using assms i that by (simp add: unat_of_nat_small del: of_nat_add)
      then show False using False that by simp
    qed
    then have "put_bytes (a + of_nat k) vs m (a + of_nat i) = m (a + of_nat i)" by (rule put_bytes_out)
    then show ?thesis using False i assms by (auto simp: splice_def nth_append)
  qed
qed (use assms in \<open>simp add: splice_def\<close>)

text \<open>The variables do not overlap.\<close>

fun apart_all :: "(u32 \<times> nat) list \<Rightarrow> bool" where
  "apart_all [] = True"
| "apart_all ((a, n) # rs) = (ubuf a n \<and> (\<forall>(b, k)\<in>set rs. disjoint_bufs a n b k) \<and> apart_all rs)"

definition fish_layout :: "fish_vars \<Rightarrow> bool" where
  "fish_layout E \<longleftrightarrow> apart_all [(blink_array E, 32000), (mp1_list_head E, 4), (vmem_base_addr E, 4), (add_temp E, 16), (find_temp E, 2)]"

lemma fish_layoutD:
  assumes "fish_layout E"
  shows "ubuf (blink_array E) 32000" "ubuf (mp1_list_head E) 4" "ubuf (vmem_base_addr E) 4" "ubuf (add_temp E) 16" "ubuf (find_temp E) 2"
    "disjoint_bufs (blink_array E) 32000 (mp1_list_head E) 4" "disjoint_bufs (blink_array E) 32000 (vmem_base_addr E) 4"
    "disjoint_bufs (blink_array E) 32000 (add_temp E) 16" "disjoint_bufs (blink_array E) 32000 (find_temp E) 2"
    "disjoint_bufs (mp1_list_head E) 4 (vmem_base_addr E) 4" "disjoint_bufs (mp1_list_head E) 4 (add_temp E) 16"
    "disjoint_bufs (mp1_list_head E) 4 (find_temp E) 2" "disjoint_bufs (vmem_base_addr E) 4 (add_temp E) 16"
    "disjoint_bufs (vmem_base_addr E) 4 (find_temp E) 2" "disjoint_bufs (add_temp E) 16 (find_temp E) 2"
  using assms by (simp_all add: fish_layout_def)

lemma disjoint_sym: "disjoint_bufs a n b k \<Longrightarrow> disjoint_bufs b k a n"
  by (auto simp: disjoint_bufs_def)

lemma blink_slot_facts:
  assumes "ubuf (blink_array E) 32000" "i < 2000"
  shows "ubuf (blink_slot E i) 16" "unat (blink_slot E i) = unat (blink_array E) + 16 * i" "blink_slot E i \<noteq> 0"
proof -
  show u: "unat (blink_slot E i) = unat (blink_array E) + 16 * i"
    using ubuf_off(1) [OF assms(1), of "16 * i"] assms(2) by (simp add: blink_slot_def STRUCT_SIZE_def)
  then show "ubuf (blink_slot E i) 16" using assms by (simp add: ubuf_def)
  show "blink_slot E i \<noteq> 0"
  proof
    assume "blink_slot E i = 0"
    then have "unat (blink_slot E i) = 0" by simp
    then show False using u assms(1) by (simp add: ubuf_def)
  qed
qed

lemma blink_slot_inj:
  assumes "ubuf (blink_array E) 32000" "i < 2000" "j < 2000"
  shows "blink_slot E i = blink_slot E j \<longleftrightarrow> i = j" "i \<noteq> j \<Longrightarrow> disjoint_bufs (blink_slot E i) 16 (blink_slot E j) 16"
proof -
  note u = blink_slot_facts(2) [OF assms(1,2)] blink_slot_facts(2) [OF assms(1,3)]
  show "blink_slot E i = blink_slot E j \<longleftrightarrow> i = j"
  proof
    assume "blink_slot E i = blink_slot E j"
    then have "unat (blink_slot E i) = unat (blink_slot E j)" by simp
    then show "i = j" unfolding u by simp
  qed simp
  show "disjoint_bufs (blink_slot E i) 16 (blink_slot E j) 16" if "i \<noteq> j"
    unfolding disjoint_bufs_def u using that by linarith
qed

abbreviation slots :: "fish_vars \<Rightarrow> (u32 \<Rightarrow> u8) \<Rightarrow> nat \<Rightarrow> mp1_blink_struct" where
  "slots E m i \<equiv> struct_at m (blink_slot E i)"

section \<open>Loads and stores of fields\<close>

definition upd_struct :: "u32 \<Rightarrow> (mp1_blink_struct \<Rightarrow> mp1_blink_struct) \<Rightarrow> uview \<Rightarrow> uview \<Rightarrow> bool" where
  "upd_struct a f v v' \<longleftrightarrow> v' = v\<lparr>umem := umem v'\<rparr> \<and> struct_at (umem v') a = f (struct_at (umem v) a) \<and> outside a 16 (umem v) (umem v')"

lemma umem_trans: "v' = v\<lparr>umem := umem v'\<rparr> \<Longrightarrow> v'' = v'\<lparr>umem := umem v''\<rparr> \<Longrightarrow> v'' = (v :: uview)\<lparr>umem := umem v''\<rparr>"
  by (cases v, cases v', cases v'') simp

lemma upd_struct_trans: "upd_struct a f v v' \<Longrightarrow> upd_struct a g v' v'' \<Longrightarrow> upd_struct a (g \<circ> f) v v''"
  unfolding upd_struct_def using umem_trans outside_trans by (metis o_apply)

lemma umem_only:
  assumes "v' = v\<lparr>umem := umem v'\<rparr>"
  shows "uout v' = uout v" "ufds v' = ufds v" "udir v' = udir v" "uargs v' = uargs v"
  by (subst assms, simp)+

lemma upd_structD:
  assumes "upd_struct a f v v'"
  shows "v' = v\<lparr>umem := umem v'\<rparr>" "struct_at (umem v') a = f (struct_at (umem v) a)" "outside a 16 (umem v) (umem v')"
  using assms unfolding upd_struct_def by blast+

lemma struct_at_far:
  assumes "outside b n m m'" "ubuf a 16" "ubuf b n" "disjoint_bufs a 16 b n"
  shows "struct_at m' a = struct_at m a"
  unfolding struct_at_def using outside_far [OF assms] by (intro arg_cong [of _ _ blink_of]) (simp add: load_list_def)

lemma int_at_far:
  assumes "outside b n m m'" "ubuf a 4" "ubuf b n" "disjoint_bufs a 4 b n"
  shows "int_at m' a = int_at m a"
  unfolding int_at_def using outside_far [OF assms, of 0] outside_far [OF assms, of 1] outside_far [OF assms, of 2] outside_far [OF assms, of 3]
  by simp

context user_os
begin

lemma load_short_ok: "inv w \<Longrightarrow> ubuf a 2 \<Longrightarrow> os_load_short os w a = short_at (umem (view w)) a"
  using load_eq [of w a 2 0] load_eq [of w a 2 1] by (simp add: os_load_short_def short_at_def short_of_def)

lemma load_int_ok: "inv w \<Longrightarrow> ubuf a 4 \<Longrightarrow> os_load_int os w a = int_at (umem (view w)) a"
  using load_eq [of w a 4 0] load_eq [of w a 4 1] load_eq [of w a 4 2] load_eq [of w a 4 3]
  by (simp add: os_load_int_def int_at_def)

lemma sub_ubuf: "ubuf a n \<Longrightarrow> k + l \<le> n \<Longrightarrow> 0 < l \<Longrightarrow> ubuf (a + of_nat k) l"
  using ubuf_off(1) [of a n k] by (simp add: ubuf_def)

lemma struct_loads:
  assumes "inv w" "ubuf a 16"
  shows "os_load_short os w (a + LOCATION) = location (struct_at (umem (view w)) a)"
    "os_load os w (a + ON_CHAR) = on_char (struct_at (umem (view w)) a)"
    "os_load os w (a + OFF_CHAR) = off_char (struct_at (umem (view w)) a)"
    "os_load_short os w (a + ON_LENGTH) = on_length (struct_at (umem (view w)) a)"
    "os_load_short os w (a + OFF_LENGTH) = off_length (struct_at (umem (view w)) a)"
    "os_load_short os w (a + COUNTDOWN) = countdown (struct_at (umem (view w)) a)"
    "os_load_short os w (a + STATUS) = status (struct_at (umem (view w)) a)"
    "os_load_int os w (a + NEXT) = next_blink (struct_at (umem (view w)) a)"
proof -
  note s = sub_ubuf [OF assms(2), of 0 2] sub_ubuf [OF assms(2), of 4 2] sub_ubuf [OF assms(2), of 6 2] sub_ubuf [OF assms(2), of 8 2]
    sub_ubuf [OF assms(2), of 10 2] sub_ubuf [OF assms(2), of 12 4] sub_ubuf [OF assms(2), of 2 1] sub_ubuf [OF assms(2), of 3 1]
  show "os_load_short os w (a + LOCATION) = location (struct_at (umem (view w)) a)"
    "os_load_short os w (a + ON_LENGTH) = on_length (struct_at (umem (view w)) a)"
    "os_load_short os w (a + OFF_LENGTH) = off_length (struct_at (umem (view w)) a)"
    "os_load_short os w (a + COUNTDOWN) = countdown (struct_at (umem (view w)) a)"
    "os_load_short os w (a + STATUS) = status (struct_at (umem (view w)) a)"
    using s load_short_ok [OF assms(1)] by (simp_all add: blink_offsets struct_at_sel)
  show "os_load os w (a + ON_CHAR) = on_char (struct_at (umem (view w)) a)"
    "os_load os w (a + OFF_CHAR) = off_char (struct_at (umem (view w)) a)"
    using s load [OF assms(1)] by (simp_all add: blink_offsets struct_at_sel)
  show "os_load_int os w (a + NEXT) = next_blink (struct_at (umem (view w)) a)"
    using s load_int_ok [OF assms(1)] by (simp add: blink_offsets struct_at_sel)
qed

lemma struct_store:
  assumes "inv w" "ubuf a 16" "0 < length vs" "k + length vs \<le> 16" "\<And>xs. length xs = 16 \<Longrightarrow> blink_of (splice k vs xs) = f (blink_of xs)"
  shows "inv (store_list (os_store os) w (a + of_nat k) vs) \<and> upd_struct a f (view w) (view (store_list (os_store os) w (a + of_nat k) vs))"
proof -
  have u: "ubuf (a + of_nat k) (length vs)" by (rule sub_ubuf [OF assms(2,4,3)])
  note s = store_list_ok [OF assms(1) u]
  let ?m = "put_bytes (a + of_nat k) vs (umem (view w))"
  have "struct_at ?m a = f (struct_at (umem (view w)) a)"
    unfolding struct_at_def using mbytes_splice [OF assms(4), of a] assms(5) by simp
  moreover have "outside a 16 (umem (view w)) ?m"
    unfolding outside_def
  proof (intro allI impI)
    fix x assume x: "\<forall>i<16. x \<noteq> a + of_nat i"
    show "?m x = umem (view w) x"
    proof (rule put_bytes_out)
      fix j assume "j < length vs"
      then show "x \<noteq> a + of_nat k + of_nat j" using x [rule_format, of "k + j"] assms(4) by (simp add: add.assoc)
    qed
  qed
  ultimately show ?thesis using s by (auto simp: upd_struct_def set_mem_def)
qed

lemma struct_stores:
  assumes "inv w" "ubuf a 16"
  shows "inv (os_store_short os w (a + COUNTDOWN) v)" "upd_struct a (\<lambda>s. s\<lparr>countdown := v\<rparr>) (view w) (view (os_store_short os w (a + COUNTDOWN) v))"
    "inv (os_store_short os w (a + STATUS) v)" "upd_struct a (\<lambda>s. s\<lparr>status := v\<rparr>) (view w) (view (os_store_short os w (a + STATUS) v))"
    "inv (os_store_short os w (a + ON_LENGTH) v)" "upd_struct a (\<lambda>s. s\<lparr>on_length := v\<rparr>) (view w) (view (os_store_short os w (a + ON_LENGTH) v))"
    "inv (os_store_short os w (a + OFF_LENGTH) v)" "upd_struct a (\<lambda>s. s\<lparr>off_length := v\<rparr>) (view w) (view (os_store_short os w (a + OFF_LENGTH) v))"
    "inv (os_store_int os w (a + NEXT) p)" "upd_struct a (\<lambda>s. s\<lparr>next_blink := p\<rparr>) (view w) (view (os_store_int os w (a + NEXT) p))"
  using struct_store [OF assms, of "[ucast v, ucast (drop_bit 8 v)]" 8 "\<lambda>s. s\<lparr>countdown := v\<rparr>"]
    struct_store [OF assms, of "[ucast v, ucast (drop_bit 8 v)]" 10 "\<lambda>s. s\<lparr>status := v\<rparr>"]
    struct_store [OF assms, of "[ucast v, ucast (drop_bit 8 v)]" 4 "\<lambda>s. s\<lparr>on_length := v\<rparr>"]
    struct_store [OF assms, of "[ucast v, ucast (drop_bit 8 v)]" 6 "\<lambda>s. s\<lparr>off_length := v\<rparr>"]
    struct_store [OF assms, of "[byte_of p 0, byte_of p 1, byte_of p 2, byte_of p 3]" 12 "\<lambda>s. s\<lparr>next_blink := p\<rparr>"]
  by (simp_all only: blink_of_splice os_store_short_def os_store_int_def blink_offsets) simp_all

end

section \<open>What one tick does to an element\<close>

definition toggles :: "'a blink_scheme \<Rightarrow> bool" where
  "toggles b \<longleftrightarrow> \<not> sint (countdown b - 1) > 0"

definition blink_tick :: "'a blink_scheme \<Rightarrow> 'a blink_scheme" where
  "blink_tick b =
     (if toggles b
      then b\<lparr>countdown := if status b AND 1 \<noteq> 0 then off_length b else on_length b, status := status b XOR 1\<rparr>
      else b\<lparr>countdown := countdown b - 1\<rparr>)"

definition tick_poke :: "'a blink_scheme \<Rightarrow> aterm \<Rightarrow> aterm" where
  "tick_poke b T =
     (if toggles b then aterm_poke (unat (location b)) (if status b AND 1 \<noteq> 0 then off_char b else on_char b) T else T)"

lemma tick_sel [simp]:
  "location (blink_tick b) = location b" "on_char (blink_tick b) = on_char b" "off_char (blink_tick b) = off_char b"
  "on_length (blink_tick b) = on_length b" "off_length (blink_tick b) = off_length b"
  by (simp_all add: blink_tick_def)

lemma next_tick [simp]: "next_blink (blink_tick b) = next_blink b"
  by (simp add: blink_tick_def)

lemma screen_offset_eq: "screen_offset l = of_nat (2 * unat l)"
  by (simp add: screen_offset_def push_bit_eq_mult)

lemma below_2000: "l < (2000 :: u16) \<longleftrightarrow> unat l < 2000"
  by (simp add: word_less_nat_alt)

context user_screen
begin

lemma poke_ok:
  assumes "inv w" "ubuf (vmem_base_addr E) 4" "int_at (umem (view w)) (vmem_base_addr E) = VIDEO_USER" "l < 2000"
  shows "inv (mp1_poke os E c (screen_offset l) w)" "view (mp1_poke os E c (screen_offset l) w) = (view w)\<lparr>uout := aterm_poke (unat l) c (uout (view w))\<rparr>"
  using poke [OF assms(1), of "unat l" c] assms(4) load_int_ok [OF assms(1,2)] assms(3)
  by (simp_all add: mp1_poke_def screen_offset_eq below_2000)

lemma blink_step_ok:
  assumes w: "inv w" and a: "ubuf a 16" and vm: "ubuf (vmem_base_addr E) 4" "disjoint_bufs (vmem_base_addr E) 4 a 16"
      "int_at (umem (view w)) (vmem_base_addr E) = VIDEO_USER"
    and l: "location (struct_at (umem (view w)) a) < 2000"
  shows "inv (blink_step os E a w) \<and>
    (\<exists>v. upd_struct a blink_tick (view w) v \<and> view (blink_step os E a w) = v\<lparr>uout := tick_poke (struct_at (umem (view w)) a) (uout v)\<rparr>)"
proof -
  let ?s = "struct_at (umem (view w)) a"
  define w1 where "w1 = os_store_short os w (a + COUNTDOWN) (countdown ?s - 1)"
  note w1 = struct_stores(1,2) [OF w a, of "countdown ?s - 1", folded w1_def]
  note L1 = struct_loads [OF w1(1) a, unfolded upd_structD(2) [OF w1(2)], simplified]
  show ?thesis
  proof (cases "toggles ?s")
    case False
    then have e: "blink_step os E a w = w1"
      using struct_loads(6) [OF w a] L1(6) by (simp add: blink_step_def w1_def [symmetric] toggles_def)
    have "upd_struct a blink_tick (view w) (view w1)" using w1(2) False by (auto simp: upd_struct_def blink_tick_def)
    then show ?thesis unfolding e using w1(1) False by (intro conjI exI [of _ "view w1"]) (auto simp: tick_poke_def)
  next
    case True
    let ?on = "status ?s AND 1 \<noteq> 0"
    let ?c = "if ?on then off_char ?s else on_char ?s" and ?d = "if ?on then off_length ?s else on_length ?s"
    have vb: "int_at (umem (view w1)) (vmem_base_addr E) = VIDEO_USER"
      using int_at_far [OF upd_structD(3) [OF w1(2)] vm(1) a vm(2)] vm(3) by simp
    define w2 where "w2 = mp1_poke os E ?c (screen_offset (location ?s)) w1"
    note w2 = poke_ok [OF w1(1) vm(1) vb l, of ?c, folded w2_def]
    have s2: "struct_at (umem (view w2)) a = ?s\<lparr>countdown := countdown ?s - 1\<rparr>" using upd_structD(2) [OF w1(2)] by (simp add: w2(2))
    note L2 = struct_loads [OF w2(1) a, unfolded s2, simplified]
    define w3 where "w3 = os_store_short os w2 (a + COUNTDOWN) ?d"
    note w3 = struct_stores(1,2) [OF w2(1) a, of ?d, folded w3_def]
    have s3: "status (struct_at (umem (view w3)) a) = status ?s" using upd_structD(2) [OF w3(2)] s2 by simp
    define w4 where "w4 = os_store_short os w3 (a + STATUS) (status ?s XOR 1)"
    note w4 = struct_stores(3,4) [OF w3(1) a, of "status ?s XOR 1", folded w4_def]
    have ld: "os_load os w1 (a + (if ?on then OFF_CHAR else ON_CHAR)) = ?c"
      "os_load_short os w2 (a + (if ?on then OFF_LENGTH else ON_LENGTH)) = ?d" using L1 L2 by simp_all
    have "blink_step os E a w = w4"
      using True struct_loads(6) [OF w a] L1(1,6,7) ld struct_loads(7) [OF w3(1) a] s3
      by (simp add: blink_step_def w1_def [symmetric] toggles_def w2_def [symmetric] w3_def [symmetric] w4_def Let_def)
    moreover have "struct_at (umem (view w4)) a = blink_tick ?s"
      using upd_structD(2) [OF w4(2)] upd_structD(2) [OF w3(2)] s2 True by (simp add: blink_tick_def)
    moreover have "outside a 16 (umem (view w)) (umem (view w4))"
      using outside_trans [OF upd_structD(3) [OF w1(2)]] outside_trans [OF upd_structD(3) [OF w3(2)] upd_structD(3) [OF w4(2)]]
      by (simp add: w2(2))
    moreover have "view w4 = (view w)\<lparr>umem := umem (view w4), uout := tick_poke ?s (uout (view w))\<rparr>"
      using upd_structD(1) [OF w1(2)] w2(2) upd_structD(1) [OF w3(2)] upd_structD(1) [OF w4(2)] True
      by (cases "view w", cases "view w1", cases "view w2", cases "view w3", cases "view w4") (simp add: tick_poke_def)
    ultimately show ?thesis
      using w4(1) by (intro conjI exI [of _ "(view w)\<lparr>umem := umem (view w4)\<rparr>"]) (simp_all add: upd_struct_def)
  qed
qed

end

section \<open>The list\<close>

primrec chain :: "fish_vars \<Rightarrow> (nat \<Rightarrow> mp1_blink_struct) \<Rightarrow> u32 \<Rightarrow> nat list \<Rightarrow> bool" where
  "chain E S p [] \<longleftrightarrow> p = 0"
| "chain E S p (i # xs) \<longleftrightarrow> i < 2000 \<and> p = blink_slot E i \<and> chain E S (next_blink (S i)) xs"

lemma chain_cong: "(\<And>i. i \<in> set xs \<Longrightarrow> next_blink (S' i) = next_blink (S i)) \<Longrightarrow> chain E S' p xs = chain E S p xs"
  by (induction xs arbitrary: p) auto

lemma chain_bound: "chain E S p xs \<Longrightarrow> i \<in> set xs \<Longrightarrow> i < 2000"
  by (induction xs arbitrary: p) auto

definition draws :: "uview \<Rightarrow> uview \<Rightarrow> bool" where
  "draws v v' \<longleftrightarrow> v' = v\<lparr>umem := umem v', uout := uout v'\<rparr>"

lemma draws_trans: "draws v v' \<Longrightarrow> draws v' v'' \<Longrightarrow> draws v v''"
  unfolding draws_def by (cases v, cases v', cases v'') simp

lemma draws_refl [simp]: "draws v v"
  by (simp add: draws_def)

lemma drawsD:
  assumes "draws v v'"
  shows "ufds v' = ufds v" "udir v' = udir v" "uargs v' = uargs v" "uready v' = uready v" "urow v' = urow v" "utick v' = utick v"
  using assms unfolding draws_def by (cases v, cases v', simp)+

text \<open>
  The state of the list: its elements are the slots \<open>xs\<close> of the array, no slot twice, the other slots are
  free (their location is 0), every location is on the screen, and the video window is the one of \<^verbatim>\<open>vidmap\<close>.
\<close>

definition blinks :: "fish_vars \<Rightarrow> uview \<Rightarrow> nat list \<Rightarrow> bool" where
  "blinks E v xs \<longleftrightarrow> fish_layout E \<and> int_at (umem v) (vmem_base_addr E) = VIDEO_USER \<and> distinct xs \<and>
     chain E (slots E (umem v)) (int_at (umem v) (mp1_list_head E)) xs \<and>
     (\<forall>i<2000. location (slots E (umem v) i) = 0 \<longleftrightarrow> i \<notin> set xs) \<and> (\<forall>i\<in>set xs. location (slots E (umem v) i) < 2000)"

definition blink_list :: "fish_vars \<Rightarrow> uview \<Rightarrow> nat list \<Rightarrow> blink list" where
  "blink_list E v xs = map (\<lambda>i. blink.truncate (slots E (umem v) i)) xs"

lemma slot_outside:
  assumes "ubuf (blink_array E) 32000" "i < 2000" "outside (blink_slot E i) 16 m m'"
  shows "outside (blink_array E) 32000 m m'" "j < 2000 \<Longrightarrow> j \<noteq> i \<Longrightarrow> slots E m' j = slots E m j"
proof -
  have "blink_slot E i + of_nat k = blink_array E + of_nat (16 * i + k)" for k
    by (simp add: blink_slot_def STRUCT_SIZE_def)
  moreover have "16 * i + k < 32000" if "k < 16" for k using that assms(2) by simp
  ultimately show "outside (blink_array E) 32000 m m'" using assms(3) unfolding outside_def by metis
  show "slots E m' j = slots E m j" if "j < 2000" "j \<noteq> i"
    by (rule struct_at_far [OF assms(3) blink_slot_facts(1) [OF assms(1) that(1)] blink_slot_facts(1) [OF assms(1,2)]
        blink_slot_inj(2) [OF assms(1) that(1) assms(2) that(2)]])
qed

lemma slot_disjoint:
  assumes "ubuf (blink_array E) 32000" "i < 2000" "disjoint_bufs (blink_array E) 32000 b n"
  shows "disjoint_bufs b n (blink_slot E i) 16" "disjoint_bufs (blink_slot E i) 16 b n"
  using assms(3) blink_slot_facts(2) [OF assms(1,2)] assms(2) by (auto simp: disjoint_bufs_def)

context user_screen
begin

lemma tasklet_loop_ok:
  assumes "fish_layout E" "inv w" "int_at (umem (view w)) (vmem_base_addr E) = VIDEO_USER"
    "chain E (slots E (umem (view w))) p xs" "distinct xs" "\<And>i. i \<in> set xs \<Longrightarrow> location (slots E (umem (view w)) i) < 2000"
  shows "\<exists>w'. tasklet_loop os E p w = Some w' \<and> inv w' \<and> draws (view w) (view w') \<and>
    outside (blink_array E) 32000 (umem (view w)) (umem (view w')) \<and>
    (\<forall>i<2000. slots E (umem (view w')) i = (if i \<in> set xs then blink_tick (slots E (umem (view w)) i) else slots E (umem (view w)) i)) \<and>
    uout (view w') = fold tick_poke (map (slots E (umem (view w))) xs) (uout (view w))"
  using assms(2-6)
proof (induction xs arbitrary: w p)
  case Nil
  then show ?case by (subst tasklet_loop.simps) simp
next
  case (Cons i xs)
  note lay = fish_layoutD [OF assms(1)]
  let ?m = "umem (view w)"
  have i: "i < 2000" "p = blink_slot E i" "chain E (slots E ?m) (next_blink (slots E ?m i)) xs" using Cons.prems(3) by simp_all
  note u = blink_slot_facts [OF lay(1) i(1)]
  define w1 where "w1 = blink_step os E p w"
  obtain v where w1: "inv w1" "upd_struct p blink_tick (view w) v" "view w1 = v\<lparr>uout := tick_poke (slots E ?m i) (uout v)\<rparr>"
    using blink_step_ok [OF Cons.prems(1) u(1) lay(3) slot_disjoint(1) [OF lay(1) i(1) lay(7)] Cons.prems(2)] Cons.prems(5) i(2)
    by (auto simp: w1_def)
  note U = upd_structD [OF w1(2)]
  have m1: "umem (view w1) = umem v" by (simp add: w1(3))
  note S = slot_outside [OF lay(1) i(1) U(3) [unfolded i(2)]]
  have s1: "slots E (umem (view w1)) j = (if j = i then blink_tick (slots E ?m i) else slots E ?m j)" if "j < 2000" for j
    using S(2) [OF that] U(2) i(2) by (simp add: m1)
  have xs: "j < 2000" "j \<noteq> i" if "j \<in> set xs" for j using chain_bound [OF i(3) that] Cons.prems(4) that by auto
  have "chain E (slots E (umem (view w1))) (next_blink (slots E ?m i)) xs"
    using i(3) by (subst chain_cong [of xs _ "slots E ?m"]) (simp_all add: s1 xs)
  moreover have "location (slots E (umem (view w1)) j) < 2000" if "j \<in> set xs" for j using Cons.prems(5) [of j] that xs [OF that] by (simp add: s1)
  moreover have "int_at (umem (view w1)) (vmem_base_addr E) = VIDEO_USER"
    using int_at_far [OF S(1) lay(3,1) disjoint_sym [OF lay(7)]] Cons.prems(2) by (simp add: m1)
  ultimately obtain w' where w': "tasklet_loop os E (next_blink (slots E ?m i)) w1 = Some w'" "inv w'" "draws (view w1) (view w')"
    "outside (blink_array E) 32000 (umem (view w1)) (umem (view w'))"
    "\<And>j. j < 2000 \<Longrightarrow> slots E (umem (view w')) j = (if j \<in> set xs then blink_tick (slots E (umem (view w1)) j) else slots E (umem (view w1)) j)"
    "uout (view w') = fold tick_poke (map (slots E (umem (view w1))) xs) (uout (view w1))"
    using Cons.IH [OF w1(1), of "next_blink (slots E ?m i)"] Cons.prems(4) by auto
  have "os_load_int os w1 (p + NEXT) = next_blink (slots E ?m i)"
    using struct_loads(8) [OF w1(1) u(1)] s1 [OF i(1)] i(2) by simp
  then have "tasklet_loop os E p w = Some w'" using w'(1) u(3) i(2) by (subst tasklet_loop.simps) (simp add: w1_def)
  moreover have "draws (view w) (view w1)" unfolding draws_def using U(1) w1(3) by (cases "view w", cases v, cases "view w1") simp
  moreover have "slots E (umem (view w')) j = (if j \<in> set (i # xs) then blink_tick (slots E ?m j) else slots E ?m j)" if "j < 2000" for j
    using w'(5) [OF that] s1 [OF that] Cons.prems(4) by auto
  moreover have mp: "map (slots E (umem (view w1))) xs = map (slots E ?m) xs" using s1 xs by simp
  have "uout (view w') = fold tick_poke (map (slots E ?m) (i # xs)) (uout (view w))"
    unfolding w'(6) mp using umem_only(1) [OF U(1)] by (simp add: w1(3))
  ultimately show ?case
    using w'(2) draws_trans [OF _ w'(3)] outside_trans [OF S(1)] w'(4) by (auto simp: m1 simp del: list.map)
qed

end

lemma truncate_tick: "blink.truncate (blink_tick b) = blink_tick (blink.truncate b)" "tick_poke (blink.truncate b) = tick_poke b"
  by (auto simp: blink.truncate_def blink_tick_def toggles_def tick_poke_def fun_eq_iff)

context user_screen
begin

text \<open>The tick of the clock: every element of the list ticks, and those that toggle are drawn.\<close>

lemma tasklet_ok:
  assumes "inv w" "blinks E (view w) xs"
  shows "\<exists>w'. mp1_rtc_tasklet os E w = Some w' \<and> inv w' \<and> blinks E (view w') xs \<and> draws (view w) (view w') \<and>
    outside (blink_array E) 32000 (umem (view w)) (umem (view w')) \<and>
    blink_list E (view w') xs = map blink_tick (blink_list E (view w) xs) \<and>
    uout (view w') = fold tick_poke (blink_list E (view w) xs) (uout (view w))"
proof -
  let ?m = "umem (view w)"
  have B: "fish_layout E" "int_at ?m (vmem_base_addr E) = VIDEO_USER" "distinct xs" "chain E (slots E ?m) (int_at ?m (mp1_list_head E)) xs"
    "\<And>i. i < 2000 \<Longrightarrow> location (slots E ?m i) = 0 \<longleftrightarrow> i \<notin> set xs" "\<And>i. i \<in> set xs \<Longrightarrow> location (slots E ?m i) < 2000"
    using assms(2) by (auto simp: blinks_def)
  note lay = fish_layoutD [OF B(1)]
  obtain w' where w': "tasklet_loop os E (int_at ?m (mp1_list_head E)) w = Some w'" "inv w'" "draws (view w) (view w')"
    "outside (blink_array E) 32000 ?m (umem (view w'))"
    "\<And>i. i < 2000 \<Longrightarrow> slots E (umem (view w')) i = (if i \<in> set xs then blink_tick (slots E ?m i) else slots E ?m i)"
    "uout (view w') = fold tick_poke (map (slots E ?m) xs) (uout (view w))"
    using tasklet_loop_ok [OF B(1) assms(1) B(2,4,3,6)] by blast
  have xs: "i < 2000" if "i \<in> set xs" for i by (rule chain_bound [OF B(4) that])
  have h: "int_at (umem (view w')) (mp1_list_head E) = int_at ?m (mp1_list_head E)"
    "int_at (umem (view w')) (vmem_base_addr E) = VIDEO_USER"
    using int_at_far [OF w'(4) lay(2,1) disjoint_sym [OF lay(6)]] int_at_far [OF w'(4) lay(3,1) disjoint_sym [OF lay(7)]] B(2) by simp_all
  have "chain E (slots E (umem (view w'))) (int_at ?m (mp1_list_head E)) xs"
    using B(4) by (subst chain_cong [of xs _ "slots E ?m"]) (simp_all add: w'(5) xs)
  then have "blinks E (view w') xs" using B h by (simp add: blinks_def w'(5) xs)
  moreover have "blink_list E (view w') xs = map blink_tick (blink_list E (view w) xs)"
    by (simp add: blink_list_def w'(5) xs truncate_tick)
  moreover have "fold tick_poke (map (slots E ?m) xs) T = fold tick_poke (blink_list E (view w) xs) T" for T
    by (simp add: blink_list_def fold_map o_def truncate_tick)
  moreover have "mp1_rtc_tasklet os E w = Some w'"
    using w'(1) load_int_ok [OF assms(1) lay(2)] by (simp add: mp1_rtc_tasklet_def)
  ultimately show ?thesis using w'(2-4,6) by auto
qed

end

section \<open>Copies\<close>

context user_os
begin

lemma memset_ok:
  assumes "inv w" "ubuf a n"
  shows "inv (ece391_memset os a c n w)" "view (ece391_memset os a c n w) = set_mem a (replicate n c) (view w)"
proof -
  have "inv (for_range 0 k (\<lambda>i w. os_store os w (a + of_nat i) c) w) \<and>
      view (for_range 0 k (\<lambda>i w. os_store os w (a + of_nat i) c) w) = set_mem a (replicate k c) (view w)" if "k \<le> n" for k
    using that
  proof (induction k)
    case (Suc k)
    then have b: "ubuf (a + of_nat k) 1" using ubuf_off(2) [OF assms(2), of k] by simp
    have "replicate (Suc k) c = replicate k c @ [c]" by (simp add: replicate_append_same)
    then have "put_bytes a (replicate (Suc k) c) m = (put_bytes a (replicate k c) m)(a + of_nat k := c)" for m
      by (simp only: put_bytes_def store_list_append length_replicate store_list.simps)
    then show ?case using Suc store [OF _ b, of _ c] by (simp add: for_range_Suc set_mem_def del: replicate_Suc)
  qed (use assms(1) in \<open>simp add: set_mem_def put_bytes_def\<close>)
  from this [of n] show "inv (ece391_memset os a c n w)" "view (ece391_memset os a c n w) = set_mem a (replicate n c) (view w)"
    by (simp_all add: ece391_memset_def)
qed

lemma memcpy_ok:
  assumes "inv w" "ubuf a n" "ubuf b n" "disjoint_bufs b n a n"
  shows "inv (fst (ece391_memcpy os a b n w))" "view (fst (ece391_memcpy os a b n w)) = set_mem a (mbytes (umem (view w)) b n) (view w)"
    "snd (ece391_memcpy os a b n w) = 0"
proof -
  let ?f = "\<lambda>i w. os_store os w (a + of_nat i) (os_load os w (b + of_nat i))" and ?m = "umem (view w)"
  have "inv (for_range 0 k ?f w) \<and> view (for_range 0 k ?f w) = set_mem a (mbytes ?m b k) (view w)" if "k \<le> n" for k
    using that
  proof (induction k)
    case (Suc k)
    then have k: "k < n" and IH: "inv (for_range 0 k ?f w)" "view (for_range 0 k ?f w) = set_mem a (mbytes ?m b k) (view w)" by simp_all
    have u: "ubuf (a + of_nat k) 1" by (rule ubuf_off(2) [OF assms(2) k])
    have "outside a n ?m (put_bytes a (mbytes ?m b k) ?m)" by (rule outside_put) (use k in simp)
    from outside_far [OF this assms(3,2,4) k]
    have l: "os_load os (for_range 0 k ?f w) (b + of_nat k) = ?m (b + of_nat k)"
      using load_eq [OF IH(1) assms(3) k] by (simp add: IH(2) set_mem_def)
    have "put_bytes a (mbytes ?m b (Suc k)) ?m = (put_bytes a (mbytes ?m b k) ?m)(a + of_nat k := ?m (b + of_nat k))"
      by (simp add: put_bytes_def load_list_def store_list_append)
    then show ?case using store [OF IH(1) u] by (simp add: for_range_Suc l IH(2) set_mem_def)
  qed (use assms(1) in \<open>simp add: set_mem_def put_bytes_def load_list_def\<close>)
  from this [of n] show "inv (fst (ece391_memcpy os a b n w))" "view (fst (ece391_memcpy os a b n w)) = set_mem a (mbytes ?m b n) (view w)"
    by (simp_all add: ece391_memcpy_def)
qed (simp add: ece391_memcpy_def)

text \<open>As updates of a structure: clearing it, and copying another one.\<close>

lemma struct_set:
  assumes "inv w" "ubuf a 16" "length bs = 16" "inv w'" "view w' = set_mem a bs (view w)"
  shows "upd_struct a (\<lambda>_. blink_of bs) (view w) (view w')"
  using assms(3) mbytes_put [of bs 16 a "umem (view w)"] outside_put [of bs 16 a "umem (view w)"]
  by (simp add: upd_struct_def assms(5) set_mem_def struct_at_def)

lemma free_ok:
  assumes "inv w" "ubuf a 16"
  shows "inv (mp1_free os a w)" "upd_struct a (\<lambda>_. blink_of (replicate 16 0)) (view w) (view (mp1_free os a w))"
  using memset_ok [OF assms, of 0] struct_set [OF assms, of "replicate 16 0"] by (simp_all add: mp1_free_def STRUCT_SIZE_def)

lemma copy_struct:
  assumes "inv w" "ubuf a 16" "ubuf b 16" "disjoint_bufs b 16 a 16"
  shows "inv (fst (ece391_memcpy os a b STRUCT_SIZE w))"
    "upd_struct a (\<lambda>_. struct_at (umem (view w)) b) (view w) (view (fst (ece391_memcpy os a b STRUCT_SIZE w)))"
  using memcpy_ok [OF assms] struct_set [OF assms(1,2), of "mbytes (umem (view w)) b 16"] by (simp_all add: STRUCT_SIZE_def struct_at_def)

end

section \<open>The commands as operations on a list\<close>

definition add_blink :: "'a blink_scheme \<Rightarrow> 'a blink_scheme list \<Rightarrow> 'a blink_scheme list \<times> int" where
  "add_blink b bs = (if location b \<ge> 2000 \<or> length bs = 2000 then (bs, -1) else (b\<lparr>countdown := on_length b, status := 1\<rparr> # bs, 0))"

primrec remove_blink :: "u16 \<Rightarrow> 'a blink_scheme list \<Rightarrow> 'a blink_scheme list" where
  "remove_blink l [] = []"
| "remove_blink l (b # bs) = (if location b = l then bs else b # remove_blink l bs)"

primrec sync_blink :: "u16 \<Rightarrow> 'a blink_scheme \<Rightarrow> 'a blink_scheme list \<Rightarrow> 'a blink_scheme list" where
  "sync_blink l s [] = []"
| "sync_blink l s (b # bs) =
     (if location b = l
      then b\<lparr>on_length := on_length s, off_length := off_length s, countdown := countdown s, status := status s\<rparr> # bs
      else b # sync_blink l s bs)"

text \<open>The bytes that belong to the list.\<close>

definition own :: "fish_vars \<Rightarrow> u32 set" where
  "own E = {x. \<exists>(a, n)\<in>{(blink_array E, 32000), (mp1_list_head E, 4), (add_temp E, 16), (find_temp E, 2)}. \<exists>i<n. x = a + of_nat i}"

definition own_only :: "fish_vars \<Rightarrow> (u32 \<Rightarrow> u8) \<Rightarrow> (u32 \<Rightarrow> u8) \<Rightarrow> bool" where
  "own_only E m m' \<longleftrightarrow> (\<forall>x. x \<notin> own E \<longrightarrow> m' x = m x)"

lemma own_only_trans: "own_only E m m' \<Longrightarrow> own_only E m' m'' \<Longrightarrow> own_only E m m''"
  by (simp add: own_only_def)

lemma own_only_refl [simp]: "own_only E m m"
  by (simp add: own_only_def)

lemma own_only_outside:
  "outside (blink_array E) 32000 m m' \<Longrightarrow> own_only E m m'" "outside (mp1_list_head E) 4 m m' \<Longrightarrow> own_only E m m'"
  "outside (add_temp E) 16 m m' \<Longrightarrow> own_only E m m'" "outside (find_temp E) 2 m m' \<Longrightarrow> own_only E m m'"
  unfolding own_only_def own_def outside_def by blast+

text \<open>A structure of the program, apart from the list.\<close>

definition apart_from :: "fish_vars \<Rightarrow> u32 \<Rightarrow> nat \<Rightarrow> bool" where
  "apart_from E b n \<longleftrightarrow> ubuf b n \<and> disjoint_bufs b n (blink_array E) 32000 \<and> disjoint_bufs b n (mp1_list_head E) 4 \<and>
     disjoint_bufs b n (vmem_base_addr E) 4 \<and> disjoint_bufs b n (add_temp E) 16 \<and> disjoint_bufs b n (find_temp E) 2"

lemma own_only_far:
  assumes "own_only E m m'" "fish_layout E" "apart_from E b n" "i < n"
  shows "m' (b + of_nat i) = m (b + of_nat i)"
proof -
  note lay = fish_layoutD [OF assms(2)]
  have "b + of_nat i \<noteq> a + of_nat j" if "disjoint_bufs b n a k" "ubuf a k" "j < k" for a k j
  proof -
    have u: "ubuf b n" using assms(3) by (simp add: apart_from_def)
    have "unat b + i \<noteq> unat a + j" using that assms(4) by (auto simp: disjoint_bufs_def)
    then show ?thesis using ubuf_off(1) [OF u assms(4)] ubuf_off(1) [OF that(2,3)] by metis
  qed
  then have "b + of_nat i \<notin> own E" using assms(3) lay by (auto simp: own_def apart_from_def)
  then show ?thesis using assms(1) by (simp add: own_only_def)
qed

lemma own_only_struct:
  assumes "own_only E m m'" "fish_layout E" "apart_from E a 16"
  shows "struct_at m' a = struct_at m a"
  unfolding struct_at_def using own_only_far [OF assms] by (intro arg_cong [of _ _ blink_of]) (simp add: load_list_def)

context user_screen
begin

lemma find_loop_ok:
  assumes "fish_layout E" "inv w" "chain E (slots E (umem (view w))) p xs"
  shows "find_loop os key p w =
    Some (case find (\<lambda>i. location (slots E (umem (view w)) i) = key) xs of Some i \<Rightarrow> blink_slot E i | None \<Rightarrow> 0)"
  using assms(3)
proof (induction xs arbitrary: p)
  case Nil
  then show ?case by (subst find_loop.simps) simp
next
  case (Cons i xs)
  have i: "i < 2000" "p = blink_slot E i" "chain E (slots E (umem (view w))) (next_blink (slots E (umem (view w)) i)) xs"
    using Cons.prems by simp_all
  note u = blink_slot_facts [OF fish_layoutD(1) [OF assms(1)] i(1)]
  show ?case
    using struct_loads(1,8) [OF assms(2) u(1)] Cons.IH [OF i(3)] u(3) i(2) by (subst find_loop.simps) simp
qed

lemma find_helper_ok:
  assumes "inv w" "blinks E (view w) xs"
  shows "mp1_find_helper os E a w =
    Some (case find (\<lambda>i. location (slots E (umem (view w)) i) = ucast a) xs of Some i \<Rightarrow> blink_slot E i | None \<Rightarrow> 0)"
  unfolding mp1_find_helper_def using assms(2) load_int_ok [OF assms(1) fish_layoutD(2)]
  by (auto simp: blinks_def intro!: find_loop_ok assms(1))

lemma malloc_ok:
  assumes "inv w" "fish_layout E"
  shows "mp1_malloc os E w =
    (case find (\<lambda>i. location (slots E (umem (view w)) i) = 0) [0..<2000] of Some i \<Rightarrow> blink_slot E i | None \<Rightarrow> 0)"
proof -
  have "find (\<lambda>i. os_load_short os w (blink_slot E i + LOCATION) = 0) [0..<80 * 25] = find (\<lambda>i. location (slots E (umem (view w)) i) = 0) [0..<2000]"
    using struct_loads(1) [OF assms(1) blink_slot_facts(1) [OF fish_layoutD(1) [OF assms(2)]]] by (intro find_cong) auto
  then show ?thesis by (simp only: mp1_malloc_def)
qed

end

lemma int_at_put: "int_at (put_bytes a [byte_of v 0, byte_of v 1, byte_of v 2, byte_of v 3] m) a = v"
  using put_bytes_in [of 0 "[byte_of v 0, byte_of v 1, byte_of v 2, byte_of v 3]" a m] put_bytes_in [of 1 "[byte_of v 0, byte_of v 1, byte_of v 2, byte_of v 3]" a m]
    put_bytes_in [of 2 "[byte_of v 0, byte_of v 1, byte_of v 2, byte_of v 3]" a m] put_bytes_in [of 3 "[byte_of v 0, byte_of v 1, byte_of v 2, byte_of v 3]" a m]
  by (simp add: int_at_def del: put_bytes_simps)

text \<open>A step that leaves the array, the head and the window alone keeps the list.\<close>

lemma blinks_same:
  assumes "blinks E v xs" "\<And>i. i < 2000 \<Longrightarrow> slots E (umem v') i = slots E (umem v) i"
    "int_at (umem v') (mp1_list_head E) = int_at (umem v) (mp1_list_head E)" "int_at (umem v') (vmem_base_addr E) = int_at (umem v) (vmem_base_addr E)"
  shows "blinks E v' xs" "blink_list E v' xs = blink_list E v xs"
proof -
  have xs: "i < 2000" if "i \<in> set xs" for i using assms(1) chain_bound that by (auto simp: blinks_def)
  have "chain E (slots E (umem v')) p xs = chain E (slots E (umem v)) p xs" for p by (rule chain_cong) (simp add: assms(2) xs)
  then show "blinks E v' xs" using assms by (simp add: blinks_def xs)
  show "blink_list E v' xs = blink_list E v xs" by (simp add: blink_list_def assms(2) xs)
qed

lemma blinks_outside:
  assumes "blinks E v xs" "outside b n (umem v) (umem v')" "ubuf b n" "disjoint_bufs (blink_array E) 32000 b n"
    "disjoint_bufs (mp1_list_head E) 4 b n" "disjoint_bufs (vmem_base_addr E) 4 b n"
  shows "blinks E v' xs" "blink_list E v' xs = blink_list E v xs"
proof -
  have lay: "fish_layout E" using assms(1) by (simp add: blinks_def)
  note lay = fish_layoutD [OF this]
  have "slots E (umem v') i = slots E (umem v) i" if "i < 2000" for i
    by (rule struct_at_far [OF assms(2) blink_slot_facts(1) [OF lay(1) that] assms(3) slot_disjoint(2) [OF lay(1) that assms(4)]])
  from blinks_same [OF assms(1) this int_at_far [OF assms(2) lay(2) assms(3,5)] int_at_far [OF assms(2) lay(3) assms(3,6)]]
  show "blinks E v' xs" "blink_list E v' xs = blink_list E v xs" by blast+
qed

lemma blinks_full:
  assumes "blinks E v xs"
  shows "find (\<lambda>i. location (slots E (umem v) i) = 0) [0..<2000] = None \<longleftrightarrow> length xs = 2000"
proof -
  have B: "distinct xs" "\<And>i. i < 2000 \<Longrightarrow> location (slots E (umem v) i) = 0 \<longleftrightarrow> i \<notin> set xs" and sub: "set xs \<subseteq> {..<2000}"
    using assms chain_bound by (auto simp: blinks_def)
  have "find (\<lambda>i. location (slots E (umem v) i) = 0) [0..<2000] = None \<longleftrightarrow> {..<2000} \<subseteq> set xs"
    using B(2) by (auto simp: find_None_iff)
  also have "\<dots> \<longleftrightarrow> card (set xs) = card {..<2000 :: nat}"
    using sub by (metis card_subset_eq finite_lessThan order_antisym_conv order_refl)
  finally show ?thesis using B(1) by (simp add: distinct_card)
qed

text \<open>A new element in front.\<close>

lemma blinks_push:
  assumes "blinks E v xs" "i < 2000" "i \<notin> set xs" "\<And>j. j < 2000 \<Longrightarrow> slots E (umem v') j = (if j = i then s else slots E (umem v) j)"
    "next_blink s = int_at (umem v) (mp1_list_head E)" "location s \<noteq> 0" "location s < 2000"
    "int_at (umem v') (mp1_list_head E) = blink_slot E i" "int_at (umem v') (vmem_base_addr E) = int_at (umem v) (vmem_base_addr E)"
  shows "blinks E v' (i # xs)" "blink_list E v' (i # xs) = blink.truncate s # blink_list E v xs"
proof -
  have xs: "j < 2000" "j \<noteq> i" if "j \<in> set xs" for j using assms(1,3) chain_bound that by (auto simp: blinks_def)
  have "chain E (slots E (umem v')) p xs = chain E (slots E (umem v)) p xs" for p by (rule chain_cong) (simp add: assms(4) xs)
  then show "blinks E v' (i # xs)" using assms by (auto simp: blinks_def xs)
  show "blink_list E v' (i # xs) = blink.truncate s # blink_list E v xs"
    using assms(2,4) xs by (simp add: blink_list_def)
qed

context user_screen
begin

text \<open>The part of \<^verbatim>\<open>mp1_ioctl_add\<close> after the allocation.\<close>

lemma insert_mem:
  assumes w: "inv w" "fish_layout E" "int_at (umem (view w)) (vmem_base_addr E) = VIDEO_USER" and i: "i < 2000"
    and b: "struct_at (umem (view w)) (add_temp E) = b" "location b < 2000"
  defines "w1 \<equiv> fst (ece391_memcpy os (blink_slot E i) (add_temp E) STRUCT_SIZE w)"
  defines "w2 \<equiv> os_store_int os w1 (blink_slot E i + NEXT) (os_load_int os w1 (mp1_list_head E))"
  defines "w3 \<equiv> os_store_int os w2 (mp1_list_head E) (blink_slot E i)"
  defines "w4 \<equiv> mp1_poke os E (os_load os w3 (blink_slot E i + ON_CHAR)) (screen_offset (os_load_short os w3 (blink_slot E i + LOCATION))) w3"
  shows "inv w4 \<and> draws (view w) (view w4) \<and> own_only E (umem (view w)) (umem (view w4)) \<and>
    (\<forall>j<2000. slots E (umem (view w4)) j =
       (if j = i then b\<lparr>next_blink := int_at (umem (view w)) (mp1_list_head E)\<rparr> else slots E (umem (view w)) j)) \<and>
    int_at (umem (view w4)) (mp1_list_head E) = blink_slot E i \<and> int_at (umem (view w4)) (vmem_base_addr E) = VIDEO_USER \<and>
    uout (view w4) = aterm_poke (unat (location b)) (on_char b) (uout (view w))"
proof -
  let ?m = "umem (view w)" and ?a = "blink_slot E i"
  note lay = fish_layoutD [OF w(2)]
  note u = blink_slot_facts [OF lay(1) i]
  note w1 = copy_struct [OF w(1) u(1) lay(4) slot_disjoint(1) [OF lay(1) i lay(8)], folded w1_def, unfolded b(1)]
  note h1 = int_at_far [OF upd_structD(3) [OF w1(2)] lay(2) u(1) slot_disjoint(1) [OF lay(1) i lay(6)]]
  have l1: "os_load_int os w1 (mp1_list_head E) = int_at ?m (mp1_list_head E)" using load_int_ok [OF w1(1) lay(2)] h1 by simp
  have w2': "w2 = os_store_int os w1 (?a + NEXT) (int_at ?m (mp1_list_head E))" by (simp add: w2_def l1)
  note w2 = struct_stores(9,10) [OF w1(1) u(1), of "int_at ?m (mp1_list_head E)", folded w2']
  note U2 = upd_structD [OF upd_struct_trans [OF w1(2) w2(2)]]
  have s2: "slots E (umem (view w2)) i = b\<lparr>next_blink := int_at ?m (mp1_list_head E)\<rparr>" using U2(2) by simp
  note S = slot_outside [OF lay(1) i U2(3)]
  note w3 = store_int_ok [OF w2(1) lay(2), of ?a, folded w3_def]
  have m3: "umem (view w3) = put_bytes (mp1_list_head E) [byte_of ?a 0, byte_of ?a 1, byte_of ?a 2, byte_of ?a 3] (umem (view w2))"
    by (simp add: w3(2) set_mem_def del: put_bytes_simps)
  have o3: "outside (mp1_list_head E) 4 (umem (view w2)) (umem (view w3))" unfolding m3 by (rule outside_put) simp
  have s3: "slots E (umem (view w3)) j = (if j = i then b\<lparr>next_blink := int_at ?m (mp1_list_head E)\<rparr> else slots E ?m j)" if "j < 2000" for j
    using struct_at_far [OF o3 blink_slot_facts(1) [OF lay(1) that] lay(2) slot_disjoint(2) [OF lay(1) that lay(6)]] s2 S(2) that by simp
  have h3: "int_at (umem (view w3)) (mp1_list_head E) = ?a" unfolding m3 by (rule int_at_put)
  have v3: "int_at (umem (view w3)) (vmem_base_addr E) = VIDEO_USER"
    using int_at_far [OF o3 lay(3,2) disjoint_sym [OF lay(10)]] int_at_far [OF S(1) lay(3,1) disjoint_sym [OF lay(7)]] w(3) by simp
  have "os_load os w3 (?a + ON_CHAR) = on_char b" "os_load_short os w3 (?a + LOCATION) = location b"
    using struct_loads(1,2) [OF w3(1) u(1)] s3 [OF i] by simp_all
  then have w4: "inv w4" "view w4 = (view w3)\<lparr>uout := aterm_poke (unat (location b)) (on_char b) (uout (view w3))\<rparr>"
    using poke_ok [OF w3(1) lay(3) v3 b(2)] by (simp_all add: w4_def)
  have "own_only E ?m (umem (view w4))"
    using own_only_trans [OF own_only_outside(1) [OF S(1)] own_only_outside(2) [OF o3]] by (simp add: w4(2))
  moreover have e3: "view w3 = (view w)\<lparr>umem := umem (view w3)\<rparr>" using U2(1) w3(2)
    by (cases "view w", cases "view w2", cases "view w3") (simp add: set_mem_def del: put_bytes_simps)
  then have "draws (view w) (view w4)" "uout (view w4) = aterm_poke (unat (location b)) (on_char b) (uout (view w))"
    using w4(2) umem_only(1) [OF e3] unfolding draws_def by (cases "view w", cases "view w3", cases "view w4", simp)+
  ultimately show ?thesis using w4 s3 h3 v3 by simp
qed

lemma insert_ok:
  assumes w: "inv w" "blinks E (view w) xs" and i: "i < 2000" "i \<notin> set xs"
    and b: "struct_at (umem (view w)) (add_temp E) = b" "location b \<noteq> 0" "location b < 2000"
  defines "w1 \<equiv> fst (ece391_memcpy os (blink_slot E i) (add_temp E) STRUCT_SIZE w)"
  defines "w2 \<equiv> os_store_int os w1 (blink_slot E i + NEXT) (os_load_int os w1 (mp1_list_head E))"
  defines "w3 \<equiv> os_store_int os w2 (mp1_list_head E) (blink_slot E i)"
  defines "w4 \<equiv> mp1_poke os E (os_load os w3 (blink_slot E i + ON_CHAR)) (screen_offset (os_load_short os w3 (blink_slot E i + LOCATION))) w3"
  shows "inv w4 \<and> blinks E (view w4) (i # xs) \<and> blink_list E (view w4) (i # xs) = blink.truncate b # blink_list E (view w) xs \<and>
    draws (view w) (view w4) \<and> own_only E (umem (view w)) (umem (view w4)) \<and>
    uout (view w4) = aterm_poke (unat (location b)) (on_char b) (uout (view w))"
proof -
  have B: "fish_layout E" "int_at (umem (view w)) (vmem_base_addr E) = VIDEO_USER" using w(2) by (simp_all add: blinks_def)
  note I = insert_mem [OF w(1) B i(1) b(1,3), folded w1_def, folded w2_def, folded w3_def, folded w4_def]
  then have "blinks E (view w4) (i # xs)" "blink_list E (view w4) (i # xs) = blink.truncate b # blink_list E (view w) xs"
    using blinks_push [OF w(2) i, of "view w4" "b\<lparr>next_blink := int_at (umem (view w)) (mp1_list_head E)\<rparr>"] b B(2)
    by (simp_all add: blink.truncate_def)
  then show ?thesis using I by blast
qed

end

lemma disjoint_of_apart:
  assumes "apart_from E b n"
  shows "disjoint_bufs (blink_array E) 32000 b n" "disjoint_bufs (mp1_list_head E) 4 b n" "disjoint_bufs (vmem_base_addr E) 4 b n"
    "disjoint_bufs (add_temp E) 16 b n"
  using assms disjoint_sym by (auto simp: apart_from_def)

context user_screen
begin

text \<open>The part before the allocation: the structure is copied and completed.\<close>

lemma add_prepare:
  assumes w: "inv w" "fish_layout E" and a: "apart_from E a 16" and b: "struct_at (umem (view w)) a = b" "location b < 2000"
  shows "\<exists>w3. inv w3 \<and> upd_struct (add_temp E) (\<lambda>_. b\<lparr>countdown := on_length b, status := 1\<rparr>) (view w) (view w3) \<and>
    mp1_ioctl_add os E a w =
      (if mp1_malloc os E w3 = 0 then (w3, -1)
       else let edx = mp1_malloc os E w3;
                w = fst (ece391_memcpy os edx (add_temp E) STRUCT_SIZE w3);
                w = os_store_int os w (edx + NEXT) (os_load_int os w (mp1_list_head E));
                w = os_store_int os w (mp1_list_head E) edx;
                w = mp1_poke os E (os_load os w (edx + ON_CHAR)) (screen_offset (os_load_short os w (edx + LOCATION))) w
            in (w, 0))"
proof -
  let ?t = "add_temp E"
  note lay = fish_layoutD [OF w(2)]
  have ua: "ubuf a 16" "disjoint_bufs a 16 ?t 16" using a by (simp_all add: apart_from_def)
  define w1 where "w1 = fst (ece391_memcpy os ?t a STRUCT_SIZE w)"
  note w1 = copy_struct [OF w(1) lay(4) ua, folded w1_def, unfolded b(1)]
  note L1 = struct_loads [OF w1(1) lay(4), unfolded upd_structD(2) [OF w1(2)]]
  have e1: "ece391_memcpy os ?t a STRUCT_SIZE w = (w1, 0)" by (simp add: w1_def ece391_memcpy_def)
  define w2 where "w2 = os_store_short os w1 (?t + STATUS) 1"
  note w2 = struct_stores(3,4) [OF w1(1) lay(4), of 1, folded w2_def]
  note U2 = upd_struct_trans [OF w1(2) w2(2)]
  have l2: "os_load_short os w2 (?t + ON_LENGTH) = on_length b" using struct_loads(4) [OF w2(1) lay(4)] upd_structD(2) [OF U2] by simp
  define w3 where "w3 = os_store_short os w2 (?t + COUNTDOWN) (on_length b)"
  note w3 = struct_stores(1,2) [OF w2(1) lay(4), of "on_length b", folded w3_def]
  have "upd_struct ?t (\<lambda>_. b\<lparr>countdown := on_length b, status := 1\<rparr>) (view w) (view w3)"
    using upd_struct_trans [OF U2 w3(2)] by (simp add: upd_struct_def)
  moreover have "\<not> 2000 \<le> location b" using b(2) by simp
  ultimately show ?thesis
    using w3(1) e1 L1(1) l2 by (intro exI [of _ w3]) (simp add: mp1_ioctl_add_def w2_def [symmetric] w3_def [symmetric] Let_def)
qed

lemma add_ok:
  assumes w: "inv w" "blinks E (view w) xs" and a: "apart_from E a 16"
    and b: "struct_at (umem (view w)) a = b" "location b \<noteq> 0"
  shows "\<exists>w' r xs'. mp1_ioctl_add os E a w = (w', r) \<and> inv w' \<and> blinks E (view w') xs' \<and> draws (view w) (view w') \<and>
    own_only E (umem (view w)) (umem (view w')) \<and> (blink_list E (view w') xs', r) = add_blink (blink.truncate b) (blink_list E (view w) xs) \<and>
    uout (view w') = (if r = 0 then aterm_poke (unat (location b)) (on_char b) (uout (view w)) else uout (view w))"
proof -
  let ?t = "add_temp E"
  have B: "fish_layout E" using w(2) by (simp add: blinks_def)
  note lay = fish_layoutD [OF B]
  have ua: "ubuf a 16" "disjoint_bufs a 16 ?t 16" using a by (simp_all add: apart_from_def)
  define w1 where "w1 = fst (ece391_memcpy os ?t a STRUCT_SIZE w)"
  note w1 = copy_struct [OF w(1) lay(4) ua, folded w1_def, unfolded b(1)]
  note L1 = struct_loads [OF w1(1) lay(4), unfolded upd_structD(2) [OF w1(2)]]
  have e1: "ece391_memcpy os ?t a STRUCT_SIZE w = (w1, 0)" by (simp add: w1_def ece391_memcpy_def)
  have keep: "blinks E v xs" "blink_list E v xs = blink_list E (view w) xs" if "upd_struct ?t f (view w) v" for f v
    using blinks_outside [OF w(2) upd_structD(3) [OF that] lay(4,8,11,13)] by blast+
  have frame: "draws (view w) v" "own_only E (umem (view w)) (umem v)" "uout v = uout (view w)" if "upd_struct ?t f (view w) v" for f v
  proof -
    note U = upd_structD [OF that]
    show "draws (view w) v" using U(1) unfolding draws_def by (cases "view w", cases v) simp
    show "own_only E (umem (view w)) (umem v)" by (rule own_only_outside(3) [OF U(3)])
    show "uout v = uout (view w)" by (rule umem_only(1) [OF U(1)])
  qed
  show ?thesis
  proof (cases "location b \<ge> 2000")
    case True
    then have "mp1_ioctl_add os E a w = (w1, -1)" using e1 L1(1) by (simp add: mp1_ioctl_add_def Let_def)
    then show ?thesis using w1(1) keep [OF w1(2)] frame [OF w1(2)] True by (auto simp: add_blink_def blink.truncate_def)
  next
    case False
    define b' where "b' = b\<lparr>countdown := on_length b, status := 1\<rparr>"
    have lb: "location b < 2000" using False by simp
    from add_prepare [OF w(1) B a b(1) lb] obtain w3 where w3: "inv w3" "upd_struct ?t (\<lambda>_. b') (view w) (view w3)"
      and run: "mp1_ioctl_add os E a w =
        (if mp1_malloc os E w3 = 0 then (w3, -1)
         else let edx = mp1_malloc os E w3;
                  w = fst (ece391_memcpy os edx ?t STRUCT_SIZE w3);
                  w = os_store_int os w (edx + NEXT) (os_load_int os w (mp1_list_head E));
                  w = os_store_int os w (mp1_list_head E) edx;
                  w = mp1_poke os E (os_load os w (edx + ON_CHAR)) (screen_offset (os_load_short os w (edx + LOCATION))) w
              in (w, 0))" unfolding b'_def by blast
    have s3: "struct_at (umem (view w3)) ?t = b'" using upd_structD(2) [OF w3(2)] .
    note K = keep [OF w3(2)] and F = frame [OF w3(2)]
    note M = malloc_ok [OF w3(1) B]
    show ?thesis
    proof (cases "find (\<lambda>i. location (slots E (umem (view w3)) i) = 0) [0..<2000]")
      case None
      then have "length xs = 2000" using blinks_full [OF K(1)] by simp
      moreover have "mp1_ioctl_add os E a w = (w3, -1)" using run M None by simp
      ultimately show ?thesis using w3(1) K F by (auto simp: add_blink_def blink_list_def)
    next
      case (Some i)
      then have i: "i < 2000" "location (slots E (umem (view w3)) i) = 0" by (auto simp: find_Some_iff)
      then have ni: "i \<notin> set xs" using K(1) by (simp add: blinks_def)
      have "length xs \<noteq> 2000" using blinks_full [OF K(1)] Some by simp
      then have sp: "add_blink (blink.truncate b) (blink_list E (view w) xs) = (blink.truncate b' # blink_list E (view w) xs, 0)"
        using False by (simp add: add_blink_def blink_list_def blink.truncate_def b'_def)
      have loc: "location b' = location b" "on_char b' = on_char b" by (simp_all add: b'_def)
      obtain w4 where w4: "mp1_ioctl_add os E a w = (w4, 0)" "inv w4" "blinks E (view w4) (i # xs)"
        "blink_list E (view w4) (i # xs) = blink.truncate b' # blink_list E (view w3) xs" "draws (view w3) (view w4)"
        "own_only E (umem (view w3)) (umem (view w4))" "uout (view w4) = aterm_poke (unat (location b)) (on_char b) (uout (view w3))"
        using insert_ok [OF w3(1) K(1) i(1) ni s3] run M Some b(2) False blink_slot_facts(3) [OF lay(1) i(1)] by (auto simp: loc Let_def)
      show ?thesis
        using w4 sp K(2) F draws_trans own_only_trans by (intro exI [of _ w4] exI [of _ 0] exI [of _ "i # xs"]) auto
    qed
  qed
qed

end

section \<open>Removing an element\<close>

lemma chain_unlink:
  assumes "chain E S p (ys @ j # i # zs)" "\<And>k. k \<in> set ys \<union> set zs \<Longrightarrow> next_blink (S' k) = next_blink (S k)"
    "next_blink (S' j) = next_blink (S i)"
  shows "chain E S' p (ys @ j # zs)"
  using assms
proof (induction ys arbitrary: p)
  case Nil
  then have "chain E S' (next_blink (S i)) zs" using chain_cong [of zs S' S] by simp
  then show ?case using Nil by simp
qed auto

lemma find_split:
  assumes "find P xs = Some x"
  obtains ys zs where "xs = ys @ x # zs" "P x" "\<forall>y\<in>set ys. \<not> P y"
  using assms
proof (induction xs arbitrary: thesis)
  case (Cons y xs)
  show ?case
  proof (cases "P y")
    case True
    then show ?thesis using Cons.prems(1) [of "[]" xs] Cons.prems(2) by simp
  next
    case False
    then obtain ys zs where "xs = ys @ x # zs" "P x" "\<forall>y\<in>set ys. \<not> P y" using Cons by auto
    then show ?thesis using Cons.prems(1) [of "y # ys" zs] False by simp
  qed
qed simp

lemma remove_blink_split:
  "\<forall>y\<in>set ys. location y \<noteq> l \<Longrightarrow> location x = l \<Longrightarrow> remove_blink l (ys @ x # zs) = ys @ zs"
  "\<forall>y\<in>set ys. location y \<noteq> l \<Longrightarrow> remove_blink l ys = ys"
  by (induction ys) auto

lemma location_truncate [simp]: "location (blink.truncate b) = location b"
  by (simp add: blink.truncate_def)

context user_screen
begin

lemma prev_loop_ok:
  assumes lay: "ubuf (blink_array E) 32000" and w: "inv w"
    and c: "ubuf edx 4" "chain E (slots E (umem (view w))) (int_at (umem (view w)) edx) (ys @ i # zs)" "distinct (ys @ i # zs)"
  shows "prev_loop os (blink_slot E i) edx w = Some (if ys = [] then edx else blink_slot E (last ys) + NEXT)"
  using c
proof (induction ys arbitrary: edx)
  case Nil
  then show ?case using load_int_ok [OF w Nil(1)] by (subst prev_loop.simps) simp
next
  case (Cons j ys)
  let ?m = "umem (view w)"
  have j: "j < 2000" "int_at ?m edx = blink_slot E j" "chain E (slots E ?m) (next_blink (slots E ?m j)) (ys @ i # zs)"
    using Cons.prems(2) by simp_all
  have "i < 2000" using chain_bound [OF j(3)] by simp
  then have ne: "blink_slot E j \<noteq> blink_slot E i" using blink_slot_inj(1) [OF lay j(1)] Cons.prems(3) by auto
  note u = blink_slot_facts(1) [OF lay j(1)]
  have n: "ubuf (blink_slot E j + NEXT) 4" "int_at ?m (blink_slot E j + NEXT) = next_blink (slots E ?m j)"
    using sub_ubuf [OF u, of 12 4] struct_at_sel(8) [of ?m "blink_slot E j"] by (simp_all add: NEXT_def)
  have "prev_loop os (blink_slot E i) edx w = prev_loop os (blink_slot E i) (blink_slot E j + NEXT) w"
    using load_int_ok [OF w Cons.prems(1)] j(2) ne by (subst prev_loop.simps) simp
  also have "\<dots> = Some (if ys = [] then blink_slot E j + NEXT else blink_slot E (last ys) + NEXT)"
    using Cons.IH [OF n(1)] n(2) j(3) Cons.prems(3) by simp
  finally show ?case by simp
qed

text \<open>The removal of element \<open>i\<close>: the cell that points to it gets its successor, and the slot is cleared.\<close>

lemma relink_ok:
  assumes w: "inv w" "blinks E (view w) (ys @ i # zs)"
  defines "edx \<equiv> if ys = [] then mp1_list_head E else blink_slot E (last ys) + NEXT"
  defines "w1 \<equiv> os_store_int os w edx (next_blink (slots E (umem (view w)) i))"
  shows "\<exists>S. inv w1 \<and> view w1 = (view w)\<lparr>umem := umem (view w1)\<rparr> \<and> own_only E (umem (view w)) (umem (view w1)) \<and>
    int_at (umem (view w1)) (vmem_base_addr E) = VIDEO_USER \<and> (\<forall>k<2000. slots E (umem (view w1)) k = S k) \<and>
    (\<forall>k<2000. blink.truncate (S k) = blink.truncate (slots E (umem (view w)) k)) \<and>
    chain E S (int_at (umem (view w1)) (mp1_list_head E)) (ys @ zs)"
proof -
  let ?m = "umem (view w)"
  let ?n = "next_blink (slots E ?m i)"
  have B: "fish_layout E" "int_at ?m (vmem_base_addr E) = VIDEO_USER" "distinct (ys @ i # zs)"
    "chain E (slots E ?m) (int_at ?m (mp1_list_head E)) (ys @ i # zs)" using w(2) by (auto simp: blinks_def)
  note lay = fish_layoutD [OF B(1)]
  have xs: "k < 2000" if "k \<in> set (ys @ i # zs)" for k by (rule chain_bound [OF B(4) that])
  show ?thesis
  proof (cases ys rule: rev_cases)
    case Nil
    have e: "w1 = os_store_int os w (mp1_list_head E) ?n" by (simp add: w1_def edx_def Nil)
    note w1 = store_int_ok [OF w(1) lay(2), of ?n, folded e]
    have m1: "umem (view w1) = put_bytes (mp1_list_head E) [byte_of ?n 0, byte_of ?n 1, byte_of ?n 2, byte_of ?n 3] ?m"
      by (simp add: w1(2) set_mem_def del: put_bytes_simps)
    have o1: "outside (mp1_list_head E) 4 ?m (umem (view w1))" unfolding m1 by (rule outside_put) simp
    have "view w1 = (view w)\<lparr>umem := umem (view w1)\<rparr>" using w1(2) by (simp add: set_mem_def del: put_bytes_simps)
    moreover have "int_at (umem (view w1)) (mp1_list_head E) = ?n" unfolding m1 by (rule int_at_put)
    moreover have "slots E (umem (view w1)) k = slots E ?m k" if "k < 2000" for k
      by (rule struct_at_far [OF o1 blink_slot_facts(1) [OF lay(1) that] lay(2) slot_disjoint(2) [OF lay(1) that lay(6)]])
    moreover have "int_at (umem (view w1)) (vmem_base_addr E) = VIDEO_USER"
      using int_at_far [OF o1 lay(3,2) disjoint_sym [OF lay(10)]] B(2) by simp
    ultimately show ?thesis using w1(1) own_only_outside(2) [OF o1] B(4) Nil by (intro exI [of _ "slots E ?m"]) simp
  next
    case (snoc us j)
    have j: "j < 2000" using xs snoc by simp
    note u = blink_slot_facts(1) [OF lay(1) j]
    have e: "w1 = os_store_int os w (blink_slot E j + NEXT) ?n" by (simp add: w1_def edx_def snoc)
    note w1 = struct_stores(9,10) [OF w(1) u, of ?n, folded e]
    note U = upd_structD [OF w1(2)]
    note O = slot_outside [OF lay(1) j U(3)]
    define S where "S = (\<lambda>k. if k = j then (slots E ?m j)\<lparr>next_blink := ?n\<rparr> else slots E ?m k)"
    have "slots E (umem (view w1)) k = S k" if "k < 2000" for k using O(2) [OF that] U(2) by (simp add: S_def)
    moreover have "int_at (umem (view w1)) (mp1_list_head E) = int_at ?m (mp1_list_head E)"
      "int_at (umem (view w1)) (vmem_base_addr E) = VIDEO_USER"
      using int_at_far [OF O(1) lay(2,1) disjoint_sym [OF lay(6)]] int_at_far [OF O(1) lay(3,1) disjoint_sym [OF lay(7)]] B(2) by simp_all
    moreover have "chain E S (int_at ?m (mp1_list_head E)) (us @ j # zs)"
      by (rule chain_unlink [where S = "slots E ?m" and i = i]) (use B(3,4) snoc in \<open>auto simp: S_def\<close>)
    moreover have "blink.truncate (S k) = blink.truncate (slots E ?m k)" for k by (simp add: S_def blink.truncate_def)
    ultimately show ?thesis using w1(1) U(1) own_only_outside(1) [OF O(1)] snoc by (intro exI [of _ S]) simp
  qed
qed

lemma unlink_ok:
  assumes w: "inv w" "blinks E (view w) (ys @ i # zs)"
  defines "edx \<equiv> if ys = [] then mp1_list_head E else blink_slot E (last ys) + NEXT"
  defines "w1 \<equiv> os_store_int os w edx (next_blink (slots E (umem (view w)) i))"
  defines "w2 \<equiv> mp1_free os (blink_slot E i) w1"
  shows "inv w2 \<and> blinks E (view w2) (ys @ zs) \<and> blink_list E (view w2) (ys @ zs) = blink_list E (view w) (ys @ zs) \<and>
    view w2 = (view w)\<lparr>umem := umem (view w2)\<rparr> \<and> own_only E (umem (view w)) (umem (view w2))"
proof -
  let ?m = "umem (view w)"
  have B: "fish_layout E" "int_at ?m (vmem_base_addr E) = VIDEO_USER" "distinct (ys @ i # zs)"
    "chain E (slots E ?m) (int_at ?m (mp1_list_head E)) (ys @ i # zs)"
    "\<And>k. k < 2000 \<Longrightarrow> location (slots E ?m k) = 0 \<longleftrightarrow> k \<notin> set (ys @ i # zs)" "\<And>k. k \<in> set (ys @ i # zs) \<Longrightarrow> location (slots E ?m k) < 2000"
    using w(2) by (auto simp: blinks_def)
  note lay = fish_layoutD [OF B(1)]
  have xs: "k < 2000" if "k \<in> set (ys @ i # zs)" for k by (rule chain_bound [OF B(4) that])
  then have i: "i < 2000" by simp
  obtain S where S: "inv w1" "view w1 = (view w)\<lparr>umem := umem (view w1)\<rparr>" "own_only E ?m (umem (view w1))"
    "int_at (umem (view w1)) (vmem_base_addr E) = VIDEO_USER" "\<And>k. k < 2000 \<Longrightarrow> slots E (umem (view w1)) k = S k"
    "\<And>k. k < 2000 \<Longrightarrow> blink.truncate (S k) = blink.truncate (slots E ?m k)"
    "chain E S (int_at (umem (view w1)) (mp1_list_head E)) (ys @ zs)"
    using relink_ok [OF w] unfolding w1_def edx_def by blast
  note u = blink_slot_facts(1) [OF lay(1) i]
  note w2 = free_ok [OF S(1) u, folded w2_def]
  note U = upd_structD [OF w2(2)]
  note O = slot_outside [OF lay(1) i U(3)]
  have ni: "i \<notin> set (ys @ zs)" using B(3) by auto
  have s2: "slots E (umem (view w2)) k = (if k = i then blink_of (replicate 16 0) else S k)" if "k < 2000" for k
    using O(2) [OF that] U(2) S(5) [OF that] by simp
  have z: "location (blink_of (replicate 16 0)) = 0" by (simp add: blink_of_def short_of_def)
  have loc: "location (S k) = location (slots E ?m k)" if "k < 2000" for k using S(6) [OF that] location_truncate by metis
  have h: "int_at (umem (view w2)) (mp1_list_head E) = int_at (umem (view w1)) (mp1_list_head E)"
    "int_at (umem (view w2)) (vmem_base_addr E) = VIDEO_USER"
    using int_at_far [OF O(1) lay(2,1) disjoint_sym [OF lay(6)]] int_at_far [OF O(1) lay(3,1) disjoint_sym [OF lay(7)]] S(4) by simp_all
  have zs: "k < 2000" "k \<noteq> i" if "k \<in> set (ys @ zs)" for k using xs [of k] that ni by auto
  have "chain E (slots E (umem (view w2))) (int_at (umem (view w1)) (mp1_list_head E)) (ys @ zs)"
    using S(7) by (subst chain_cong [of _ _ S]) (simp_all add: s2 zs)
  moreover have "location (slots E (umem (view w2)) k) = 0 \<longleftrightarrow> k \<notin> set (ys @ zs)" if "k < 2000" for k
    using s2 [OF that] z loc [OF that] B(5) [OF that] ni by auto
  moreover have "location (slots E (umem (view w2)) k) < 2000" if "k \<in> set (ys @ zs)" for k
    using s2 zs [OF that] loc B(6) [of k] that by auto
  ultimately have "blinks E (view w2) (ys @ zs)" using B(1,3) h by (simp add: blinks_def)
  moreover have "blink_list E (view w2) (ys @ zs) = blink_list E (view w) (ys @ zs)"
    unfolding blink_list_def using s2 zs S(6) by (intro map_cong) auto
  moreover have "own_only E ?m (umem (view w2))" by (rule own_only_trans [OF S(3) own_only_outside(1) [OF O(1)]])
  ultimately show ?thesis using w2(1) umem_trans [OF S(2) U(1)] by blast
qed

end

lemma find_blink:
  "find (\<lambda>b. location b = l) (blink_list E v xs) =
     map_option (\<lambda>i. blink.truncate (slots E (umem v) i)) (find (\<lambda>i. location (slots E (umem v) i) = l) xs)"
  by (induction xs) (auto simp: blink_list_def)

lemma find_list: "find (\<lambda>i. location (slots E (umem v) i) = l) xs = None \<longleftrightarrow> (\<forall>b\<in>set (blink_list E v xs). location b \<noteq> l)"
  by (auto simp: find_None_iff blink_list_def)

context user_screen
begin

lemma remove_ok:
  assumes w: "inv w" "blinks E (view w) xs"
  shows "\<exists>w' r xs'. mp1_ioctl_remove os E a w = Some (w', r) \<and> inv w' \<and> blinks E (view w') xs' \<and>
    view w' = (view w)\<lparr>umem := umem (view w')\<rparr> \<and> own_only E (umem (view w)) (umem (view w')) \<and>
    blink_list E (view w') xs' = remove_blink (ucast a) (blink_list E (view w) xs) \<and>
    r = (if \<exists>b\<in>set (blink_list E (view w) xs). location b = ucast a then 0 else -1)"
proof -
  let ?m = "umem (view w)"
  have B: "fish_layout E" "distinct xs" "chain E (slots E ?m) (int_at ?m (mp1_list_head E)) xs" using w(2) by (auto simp: blinks_def)
  note lay = fish_layoutD [OF B(1)]
  note f = find_helper_ok [OF w, of a]
  show ?thesis
  proof (cases "find (\<lambda>i. location (slots E ?m i) = ucast a) xs")
    case None
    then have n: "\<forall>b\<in>set (blink_list E (view w) xs). location b \<noteq> ucast a" using find_list [where v = "view w"] by simp
    then have "mp1_ioctl_remove os E a w = Some (w, -1)" using f None by (simp add: mp1_ioctl_remove_def)
    then show ?thesis using w n remove_blink_split(2) [OF n] by auto
  next
    case (Some i)
    then obtain ys zs where s: "xs = ys @ i # zs" "location (slots E ?m i) = ucast a" "\<forall>y\<in>set ys. location (slots E ?m y) \<noteq> ucast a"
      by (rule find_split)
    have i: "i < 2000" using chain_bound [OF B(3)] s(1) by simp
    note u = blink_slot_facts [OF lay(1) i]
    have p: "prev_loop os (blink_slot E i) (mp1_list_head E) w = Some (if ys = [] then mp1_list_head E else blink_slot E (last ys) + NEXT)"
      by (rule prev_loop_ok [OF lay(1) w(1) lay(2)]) (use B(2,3) s(1) in auto)
    define w2 where "w2 = mp1_free os (blink_slot E i)
      (os_store_int os w (if ys = [] then mp1_list_head E else blink_slot E (last ys) + NEXT) (next_blink (slots E ?m i)))"
    have "mp1_ioctl_remove os E a w = Some (w2, 0)"
      using f Some p u(3) struct_loads(8) [OF w(1) u(1)] by (simp add: mp1_ioctl_remove_def w2_def)
    moreover have "remove_blink (ucast a) (blink_list E (view w) xs) = blink_list E (view w) (ys @ zs)"
      unfolding blink_list_def s(1) map_append list.map using s(2,3) by (intro remove_blink_split(1)) auto
    moreover have "\<exists>b\<in>set (blink_list E (view w) xs). location b = ucast a" using s(1,2) by (auto simp: blink_list_def)
    ultimately show ?thesis
      using unlink_ok [OF w(1) w(2) [unfolded s(1)], folded w2_def] by (intro exI [of _ w2] exI [of _ 0] exI [of _ "ys @ zs"]) simp
  qed
qed

end

section \<open>Synchronising two elements\<close>

definition sync_from :: "'a blink_scheme \<Rightarrow> 'b blink_scheme \<Rightarrow> 'b blink_scheme" where
  "sync_from s b = b\<lparr>on_length := on_length s, off_length := off_length s, countdown := countdown s, status := status s\<rparr>"

lemma sync_blink_split:
  assumes "\<forall>y\<in>set ys. location y \<noteq> l" "location x = l"
  shows "sync_blink l s (ys @ x # zs) = ys @ sync_from s x # zs"
  using assms by (induction ys) (auto simp: sync_from_def)

text \<open>An element of the list that changes, but for its location and its successor.\<close>

lemma blinks_change:
  assumes "blinks E v (ys @ j # zs)" "\<And>k. k < 2000 \<Longrightarrow> slots E (umem v') k = (if k = j then s else slots E (umem v) k)"
    "location s = location (slots E (umem v) j)" "next_blink s = next_blink (slots E (umem v) j)"
    "int_at (umem v') (mp1_list_head E) = int_at (umem v) (mp1_list_head E)" "int_at (umem v') (vmem_base_addr E) = int_at (umem v) (vmem_base_addr E)"
  shows "blinks E v' (ys @ j # zs)" "blink_list E v' (ys @ j # zs) = blink_list E v ys @ blink.truncate s # blink_list E v zs"
proof -
  have B: "distinct (ys @ j # zs)" using assms(1) by (simp add: blinks_def)
  have xs: "k < 2000" if "k \<in> set (ys @ j # zs)" for k using assms(1) chain_bound that unfolding blinks_def by blast
  have "next_blink (slots E (umem v') k) = next_blink (slots E (umem v) k)" if "k \<in> set (ys @ j # zs)" for k
    using assms(2) [OF xs [OF that]] assms(4) by simp
  then have "chain E (slots E (umem v')) p (ys @ j # zs) = chain E (slots E (umem v)) p (ys @ j # zs)" for p by (rule chain_cong)
  moreover have "location (slots E (umem v') k) = location (slots E (umem v) k)" if "k < 2000" for k using assms(2) [OF that] assms(3) by simp
  ultimately show "blinks E v' (ys @ j # zs)" using assms(1,5,6) xs unfolding blinks_def by (metis (no_types, lifting))
  show "blink_list E v' (ys @ j # zs) = blink_list E v ys @ blink.truncate s # blink_list E v zs"
    using B xs assms(2) by (auto simp: blink_list_def)
qed

lemma low_half: "ucast (a AND 0xFFFF :: u32) = (ucast a :: u16)"
proof -
  have "(0xFFFF :: u32) = mask 16" by (simp add: mask_eq_exp_minus_1)
  show ?thesis unfolding \<open>0xFFFF = mask 16\<close> by (rule bit_word_eqI) (auto simp: bit_simps)
qed

context user_screen
begin

text \<open>The four copies of \<^verbatim>\<open>sync_copy_loop\<close>, also when source and target are the same element.\<close>

lemma copy_fields_ok:
  assumes w: "inv w" and a: "ubuf a 16" and b: "ubuf b 16" "a = b \<or> disjoint_bufs a 16 b 16"
  defines "s \<equiv> struct_at (umem (view w)) a"
  defines "w1 \<equiv> os_store_short os w (b + ON_LENGTH) (os_load_short os w (a + ON_LENGTH))"
  defines "w2 \<equiv> os_store_short os w1 (b + OFF_LENGTH) (os_load_short os w1 (a + OFF_LENGTH))"
  defines "w3 \<equiv> os_store_short os w2 (b + COUNTDOWN) (os_load_short os w2 (a + COUNTDOWN))"
  defines "w4 \<equiv> os_store_short os w3 (b + STATUS) (os_load_short os w3 (a + STATUS))"
  shows "inv w4" "upd_struct b (sync_from s) (view w) (view w4)"
proof -
  have same: "struct_at (umem v') a = s" if "struct_at (umem v) a = s" "upd_struct b f v v'" "f s = s" for v v' f
    using b(2)
  proof
    assume "a = b"
    then show ?thesis using upd_structD(2) [OF that(2)] that(1,3) by simp
  next
    assume "disjoint_bufs a 16 b 16"
    then show ?thesis using struct_at_far [OF upd_structD(3) [OF that(2)] a b(1)] that(1) by simp
  qed
  have e1: "w1 = os_store_short os w (b + ON_LENGTH) (on_length s)" using struct_loads(4) [OF w a] by (simp add: w1_def s_def)
  note w1 = struct_stores(5,6) [OF w b(1), of "on_length s", folded e1]
  have "struct_at (umem (view w)) a = s" by (simp add: s_def)
  then have s1: "struct_at (umem (view w1)) a = s" by (rule same [OF _ w1(2)]) simp
  have e2: "w2 = os_store_short os w1 (b + OFF_LENGTH) (off_length s)" using struct_loads(5) [OF w1(1) a] s1 by (simp add: w2_def)
  note w2 = struct_stores(7,8) [OF w1(1) b(1), of "off_length s", folded e2]
  have s2: "struct_at (umem (view w2)) a = s" by (rule same [OF s1 w2(2)]) simp
  have e3: "w3 = os_store_short os w2 (b + COUNTDOWN) (countdown s)" using struct_loads(6) [OF w2(1) a] s2 by (simp add: w3_def)
  note w3 = struct_stores(1,2) [OF w2(1) b(1), of "countdown s", folded e3]
  have s3: "struct_at (umem (view w3)) a = s" by (rule same [OF s2 w3(2)]) simp
  have e4: "w4 = os_store_short os w3 (b + STATUS) (status s)" using struct_loads(7) [OF w3(1) a] s3 by (simp add: w4_def)
  note w4 = struct_stores(3,4) [OF w3(1) b(1), of "status s", folded e4]
  show "inv w4" by (rule w4(1))
  show "upd_struct b (sync_from s) (view w) (view w4)"
    using upd_struct_trans [OF upd_struct_trans [OF upd_struct_trans [OF w1(2) w2(2)] w3(2)] w4(2)]
    by (simp add: upd_struct_def sync_from_def)
qed

lemma sync_ok:
  assumes w: "inv w" "blinks E (view w) xs"
    and s: "find (\<lambda>b. location b = ucast (drop_bit 16 a)) (blink_list E (view w) xs) = Some s"
    and d: "find (\<lambda>b. location b = ucast a) (blink_list E (view w) xs) = Some d"
  shows "\<exists>w'. mp1_ioctl_sync os E a w = Some (w', 0) \<and> inv w' \<and> blinks E (view w') xs \<and> draws (view w) (view w') \<and>
    own_only E (umem (view w)) (umem (view w')) \<and> blink_list E (view w') xs = sync_blink (ucast a) s (blink_list E (view w) xs) \<and>
    uout (view w') = aterm_poke (unat (location d)) (off_char d) (uout (view w))"
proof -
  let ?m = "umem (view w)"
  have B: "fish_layout E" "int_at ?m (vmem_base_addr E) = VIDEO_USER" "distinct xs" "chain E (slots E ?m) (int_at ?m (mp1_list_head E)) xs"
    "\<And>k. k \<in> set xs \<Longrightarrow> location (slots E ?m k) < 2000" using w(2) by (auto simp: blinks_def)
  note lay = fish_layoutD [OF B(1)]
  obtain i where i: "find (\<lambda>i. location (slots E ?m i) = ucast (drop_bit 16 a)) xs = Some i" "s = blink.truncate (slots E ?m i)"
    using s unfolding find_blink by auto
  obtain j where j: "find (\<lambda>i. location (slots E ?m i) = ucast a) xs = Some j" "d = blink.truncate (slots E ?m j)"
    using d unfolding find_blink by auto
  obtain ys zs where xs: "xs = ys @ j # zs" "location (slots E ?m j) = ucast a" "\<forall>y\<in>set ys. location (slots E ?m y) \<noteq> ucast a"
    using j(1) by (rule find_split)
  have b: "i < 2000" "j < 2000" using chain_bound [OF B(4)] i(1) j(1) by (auto simp: find_Some_iff)
  note ui = blink_slot_facts [OF lay(1) b(1)] and uj = blink_slot_facts [OF lay(1) b(2)]
  have f: "mp1_find_helper os E (drop_bit 16 a) w = Some (blink_slot E i)" "mp1_find_helper os E (a AND 0xFFFF) w = Some (blink_slot E j)"
    using find_helper_ok [OF w] i(1) j(1) by (simp_all add: low_half)
  let ?a = "blink_slot E i" and ?b = "blink_slot E j"
  have ab: "?a = ?b \<or> disjoint_bufs ?a 16 ?b 16" using blink_slot_inj [OF lay(1) b] by blast
  define w4 where "w4 = (let w = os_store_short os w (?b + ON_LENGTH) (os_load_short os w (?a + ON_LENGTH));
    w = os_store_short os w (?b + OFF_LENGTH) (os_load_short os w (?a + OFF_LENGTH));
    w = os_store_short os w (?b + COUNTDOWN) (os_load_short os w (?a + COUNTDOWN))
    in os_store_short os w (?b + STATUS) (os_load_short os w (?a + STATUS)))"
  have w4: "inv w4" "upd_struct ?b (sync_from (slots E ?m i)) (view w) (view w4)"
    unfolding w4_def Let_def by (rule copy_fields_ok [OF w(1) ui(1) uj(1) ab])+
  note U = upd_structD [OF w4(2)]
  note O = slot_outside [OF lay(1) b(2) U(3)]
  let ?d = "sync_from (slots E ?m i) (slots E ?m j)"
  have s4: "slots E (umem (view w4)) k = (if k = j then ?d else slots E ?m k)" if "k < 2000" for k using O(2) [OF that] U(2) by simp
  have h: "int_at (umem (view w4)) (mp1_list_head E) = int_at ?m (mp1_list_head E)"
    "int_at (umem (view w4)) (vmem_base_addr E) = int_at ?m (vmem_base_addr E)"
    using int_at_far [OF O(1) lay(2,1) disjoint_sym [OF lay(6)]] int_at_far [OF O(1) lay(3,1) disjoint_sym [OF lay(7)]] by simp_all
  have nd: "location ?d = location (slots E ?m j)" "next_blink ?d = next_blink (slots E ?m j)" "off_char ?d = off_char (slots E ?m j)"
    by (simp_all add: sync_from_def)
  note L = struct_loads [OF w4(1) uj(1), unfolded s4 [OF b(2)], simplified]
  define w5 where "w5 = mp1_poke os E (off_char d) (screen_offset (location d)) w4"
  have ld: "location d < 2000" "int_at (umem (view w4)) (vmem_base_addr E) = VIDEO_USER" using B(5) [of j] xs(1) j(2) h(2) B(2) by simp_all
  note w5 = poke_ok [OF w4(1) lay(3) ld(2,1), of "off_char d", folded w5_def]
  have "\<not> bit (x AND 1 :: u8) 7" for x by (simp add: bit_simps)
  then have "mp1_ioctl_sync os E a w = Some (w5, 0)"
    using f ui(3) uj(3) L(1,3) nd j(2) by (simp add: mp1_ioctl_sync_def w5_def w4_def Let_def blink.truncate_def)
  moreover note C = blinks_change [OF w(2) [unfolded xs(1)], of "view w4", OF s4 nd(1,2) h, folded xs(1)]
  have "blinks E (view w5) xs" "blink_list E (view w5) xs = blink_list E (view w4) xs"
    using C(1) by (simp_all add: blinks_def w5(2) blink_list_def)
  moreover have "blink_list E (view w4) xs = sync_blink (ucast a) s (blink_list E (view w) xs)"
  proof -
    have "sync_blink (ucast a) s (blink_list E (view w) ys @ d # blink_list E (view w) zs) =
        blink_list E (view w) ys @ sync_from s d # blink_list E (view w) zs"
      using xs(2,3) j(2) by (intro sync_blink_split) (auto simp: blink_list_def)
    moreover have "blink_list E (view w) xs = blink_list E (view w) ys @ d # blink_list E (view w) zs"
      using xs(1) j(2) by (simp add: blink_list_def)
    moreover have "blink.truncate ?d = sync_from s d" by (simp add: sync_from_def blink.truncate_def i(2) j(2))
    ultimately show ?thesis using C(2) by simp
  qed
  moreover have "draws (view w) (view w5)" "uout (view w5) = aterm_poke (unat (location d)) (off_char d) (uout (view w))"
    using U(1) w5(2) umem_only(1) [OF U(1)] unfolding draws_def by (cases "view w", cases "view w4", cases "view w5", simp)+
  moreover have "own_only E ?m (umem (view w5))" using own_only_outside(1) [OF O(1)] by (simp add: w5(2))
  ultimately show ?thesis using w5(1) by auto
qed

text \<open>The failures: one of the locations is not in the list.\<close>

lemma sync_missing:
  assumes "inv w" "blinks E (view w) xs"
    "(\<forall>b\<in>set (blink_list E (view w) xs). location b \<noteq> ucast (drop_bit 16 a)) \<or> (\<forall>b\<in>set (blink_list E (view w) xs). location b \<noteq> ucast a)"
  shows "mp1_ioctl_sync os E a w = Some (w, -1)"
proof -
  have "find (\<lambda>i. location (slots E (umem (view w)) i) = ucast (drop_bit 16 a)) xs = None \<or>
      find (\<lambda>i. location (slots E (umem (view w)) i) = ucast a) xs = None"
    using assms(3) unfolding find_list .
  then show ?thesis
    using find_helper_ok [OF assms(1,2)] by (auto simp: mp1_ioctl_sync_def low_half split: option.splits)
qed

lemma find_ok:
  assumes w: "inv w" "blinks E (view w) xs" and a: "apart_from E a 16"
  shows "\<exists>w' r. mp1_ioctl_find os E a w = Some (w', r) \<and> inv w' \<and> blinks E (view w') xs \<and> blink_list E (view w') xs = blink_list E (view w) xs \<and>
    (case find (\<lambda>b. location b = short_at (umem (view w)) a) (blink_list E (view w) xs) of
       Some b \<Rightarrow> r = 0 \<and> blink.truncate (struct_at (umem (view w')) a) = b
     | None \<Rightarrow> r = -1)"
proof -
  let ?m = "umem (view w)"
  have B: "fish_layout E" "chain E (slots E ?m) (int_at ?m (mp1_list_head E)) xs" using w(2) by (auto simp: blinks_def)
  note lay = fish_layoutD [OF B(1)]
  have ua: "ubuf a 16" "ubuf a 2" "disjoint_bufs a 2 (find_temp E) 2" using a by (auto simp: apart_from_def ubuf_def disjoint_bufs_def)
  define w1 where "w1 = fst (ece391_memcpy os (find_temp E) a 2 w)"
  note w1 = memcpy_ok [OF w(1) lay(5) ua(2,3), folded w1_def]
  have m1: "umem (view w1) = put_bytes (find_temp E) [?m a, ?m (a + 1)] ?m" using w1(2) by (simp add: set_mem_def load_list_def upt_rec del: put_bytes_simps)
  have o1: "outside (find_temp E) 2 ?m (umem (view w1))" unfolding m1 by (rule outside_put) simp
  note K = blinks_outside [OF w(2) o1 lay(5,9,12,14)]
  have "os_load_short os w1 (find_temp E) = short_at ?m a"
    using load_short_ok [OF w1(1) lay(5)] put_bytes_in [of 0 "[?m a, ?m (a + 1)]" "find_temp E" ?m] put_bytes_in [of 1 "[?m a, ?m (a + 1)]" "find_temp E" ?m]
    by (simp add: m1 short_at_def del: put_bytes_simps)
  then have f: "mp1_find_helper os E (ucast (os_load_short os w1 (find_temp E))) w1 =
      Some (case find (\<lambda>i. location (slots E (umem (view w1)) i) = short_at ?m a) xs of Some i \<Rightarrow> blink_slot E i | None \<Rightarrow> 0)"
    using find_helper_ok [OF w1(1) K(1)] by (simp add: ucast_up_ucast_id is_up)
  have e: "ece391_memcpy os (find_temp E) a 2 w = (w1, 0)" by (simp add: w1_def ece391_memcpy_def)
  note fb = find_blink [where v = "view w1" and l = "short_at ?m a" and xs = xs and E = E, unfolded K(2)]
  show ?thesis
  proof (cases "find (\<lambda>i. location (slots E (umem (view w1)) i) = short_at ?m a) xs")
    case None
    then show ?thesis using f e w1(1) K fb by (simp add: mp1_ioctl_find_def)
  next
    case (Some i)
    then have i: "i < 2000" using K(1) chain_bound by (auto simp: blinks_def find_Some_iff)
    note u = blink_slot_facts [OF lay(1) i]
    define w2 where "w2 = fst (ece391_memcpy os a (blink_slot E i) STRUCT_SIZE w1)"
    note w2 = copy_struct [OF w1(1) ua(1) u(1) slot_disjoint(2) [OF lay(1) i disjoint_of_apart(1) [OF a]], folded w2_def]
    note U = upd_structD [OF w2(2)]
    note K2 = blinks_outside [OF K(1) U(3) ua(1) disjoint_of_apart(1-3) [OF a]]
    have "mp1_ioctl_find os E a w = Some (w2, 0)"
      using f e Some u(3) by (simp add: mp1_ioctl_find_def w2_def ece391_memcpy_def)
    then show ?thesis using w2(1) K2 K(2) fb Some U(2) by simp
  qed
qed

text \<open>
  A location of 0 marks a free slot. An element with location 0 is therefore in the list and in a free
  slot at once: the next allocation gives the same slot, which becomes its own successor.
\<close>

lemma cycle_step:
  assumes "fish_layout E" "inv w" "i < 2000" "location (slots E (umem (view w)) i) < 2000"
    "next_blink (slots E (umem (view w)) i) = blink_slot E i" "int_at (umem (view w)) (vmem_base_addr E) = VIDEO_USER"
  defines "w1 \<equiv> blink_step os E (blink_slot E i) w"
  shows "inv w1" "location (slots E (umem (view w1)) i) < 2000" "next_blink (slots E (umem (view w1)) i) = blink_slot E i"
    "int_at (umem (view w1)) (vmem_base_addr E) = VIDEO_USER" "os_load_int os w1 (blink_slot E i + NEXT) = blink_slot E i"
proof -
  note lay = fish_layoutD [OF assms(1)]
  note u = blink_slot_facts [OF lay(1) assms(3)]
  obtain v where v: "inv w1" "upd_struct (blink_slot E i) blink_tick (view w) v" "umem (view w1) = umem v"
    using blink_step_ok [OF assms(2) u(1) lay(3) slot_disjoint(1) [OF lay(1) assms(3) lay(7)] assms(6,4)] by (auto simp: w1_def)
  note U = upd_structD [OF v(2)]
  show "inv w1" by (rule v(1))
  show "location (slots E (umem (view w1)) i) < 2000" "next_blink (slots E (umem (view w1)) i) = blink_slot E i"
    using assms(4,5) U(2) by (simp_all add: v(3))
  then show "os_load_int os w1 (blink_slot E i + NEXT) = blink_slot E i" using struct_loads(8) [OF v(1) u(1)] by simp
  show "int_at (umem (view w1)) (vmem_base_addr E) = VIDEO_USER"
    using int_at_far [OF slot_outside(1) [OF lay(1) assms(3) U(3)] lay(3,1) disjoint_sym [OF lay(7)]] assms(6) by (simp add: v(3))
qed

lemma tasklet_cycle:
  assumes "fish_layout E" "inv w" "i < 2000" "location (slots E (umem (view w)) i) < 2000"
    "next_blink (slots E (umem (view w)) i) = blink_slot E i" "int_at (umem (view w)) (vmem_base_addr E) = VIDEO_USER"
  shows "tasklet_loop os E (blink_slot E i) w = None"
proof -
  define P where "P os' E' p w w' \<longleftrightarrow> (os' = os \<and> E' = E \<and> p = blink_slot E i \<and> inv w \<and> location (slots E (umem (view w)) i) < 2000 \<and>
    next_blink (slots E (umem (view w)) i) = blink_slot E i \<and> int_at (umem (view w)) (vmem_base_addr E) = VIDEO_USER \<longrightarrow> False)"
    for os' :: "'a os" and E' p w and w' :: 'a
  have "P os E (blink_slot E i) w w'" if "tasklet_loop os E (blink_slot E i) w = Some w'" for w'
    using that
  proof (rule tasklet_loop.raw_induct [rotated])
    fix tl os' E' p w and w' :: 'a
    assume IH: "\<And>os E p w w'. tl os E p w = Some w' \<Longrightarrow> P os E p w w'"
      and r: "(if p = 0 then Some w else let w = blink_step os' E' p w in tl os' E' (os_load_int os' w (p + NEXT)) w) = Some w'"
    show "P os' E' p w w'"
      unfolding P_def
    proof (intro impI)
      assume A: "os' = os \<and> E' = E \<and> p = blink_slot E i \<and> inv w \<and> location (slots E (umem (view w)) i) < 2000 \<and>
        next_blink (slots E (umem (view w)) i) = blink_slot E i \<and> int_at (umem (view w)) (vmem_base_addr E) = VIDEO_USER"
      then have C: "inv w" "location (slots E (umem (view w)) i) < 2000" "next_blink (slots E (umem (view w)) i) = blink_slot E i"
        "int_at (umem (view w)) (vmem_base_addr E) = VIDEO_USER" by blast+
      note S = cycle_step [OF assms(1) C(1) assms(3) C(2-4)]
      have "tl os E (blink_slot E i) (blink_step os E (blink_slot E i) w) = Some w'"
        using r A S(5) blink_slot_facts(3) [OF fish_layoutD(1) [OF assms(1)] assms(3)] by (simp add: Let_def)
      from IH [OF this] show False using S by (simp add: P_def)
    qed
  qed
  then have "tasklet_loop os E (blink_slot E i) w \<noteq> Some w'" for w' using assms unfolding P_def by blast
  then show ?thesis by (cases "tasklet_loop os E (blink_slot E i) w") auto
qed

lemma add_at_zero:
  assumes w: "inv w" "fish_layout E" "int_at (umem (view w)) (vmem_base_addr E) = VIDEO_USER" and a: "apart_from E a 16"
    and b: "struct_at (umem (view w)) a = b" "location b = 0" and z: "location (slots E (umem (view w)) 0) = 0"
  shows "\<exists>w'. mp1_ioctl_add os E a w = (w', 0) \<and> inv w' \<and> int_at (umem (view w')) (vmem_base_addr E) = VIDEO_USER \<and>
    struct_at (umem (view w')) a = b \<and> location (slots E (umem (view w')) 0) = 0 \<and> int_at (umem (view w')) (mp1_list_head E) = blink_slot E 0 \<and>
    next_blink (slots E (umem (view w')) 0) = int_at (umem (view w)) (mp1_list_head E)"
proof -
  note lay = fish_layoutD [OF w(2)]
  define b' where "b' = b\<lparr>countdown := on_length b, status := 1\<rparr>"
  have b': "location b' = 0" by (simp add: b'_def b(2))
  have lb: "location b < 2000" "location b' < 2000" by (simp_all add: b(2) b')
  from add_prepare [OF w(1,2) a b(1) lb(1)] obtain w3 where w3: "inv w3" "upd_struct (add_temp E) (\<lambda>_. b') (view w) (view w3)"
    and run: "mp1_ioctl_add os E a w =
        (if mp1_malloc os E w3 = 0 then (w3, -1)
         else let edx = mp1_malloc os E w3;
                  w = fst (ece391_memcpy os edx (add_temp E) STRUCT_SIZE w3);
                  w = os_store_int os w (edx + NEXT) (os_load_int os w (mp1_list_head E));
                  w = os_store_int os w (mp1_list_head E) edx;
                  w = mp1_poke os E (os_load os w (edx + ON_CHAR)) (screen_offset (os_load_short os w (edx + LOCATION))) w
              in (w, 0))" unfolding b'_def by blast
  note U = upd_structD [OF w3(2)]
  have s0: "slots E (umem (view w3)) 0 = slots E (umem (view w)) 0"
    by (rule struct_at_far [OF U(3) blink_slot_facts(1) [OF lay(1)] lay(4) slot_disjoint(2) [OF lay(1) _ lay(8)]]) simp_all
  have "find (\<lambda>i. location (slots E (umem (view w3)) i) = 0) [0..<2000] = Some 0"
    by (subst upt_conv_Cons) (simp_all only: find.simps s0 z, simp_all)
  then have M: "mp1_malloc os E w3 = blink_slot E 0" using malloc_ok [OF w3(1) w(2)] by simp
  have v3: "int_at (umem (view w3)) (vmem_base_addr E) = VIDEO_USER" "int_at (umem (view w3)) (mp1_list_head E) = int_at (umem (view w)) (mp1_list_head E)"
    using int_at_far [OF U(3) lay(3,4,13)] int_at_far [OF U(3) lay(2,4,11)] w(3) by simp_all
  have nz: "blink_slot E 0 \<noteq> 0" using blink_slot_facts(3) [OF lay(1)] by simp
  obtain w4 where w4: "mp1_ioctl_add os E a w = (w4, 0)" "inv w4" "own_only E (umem (view w3)) (umem (view w4))"
    "\<And>j. j < 2000 \<Longrightarrow> slots E (umem (view w4)) j = (if j = 0 then b'\<lparr>next_blink := int_at (umem (view w3)) (mp1_list_head E)\<rparr> else slots E (umem (view w3)) j)"
    "int_at (umem (view w4)) (mp1_list_head E) = blink_slot E 0" "int_at (umem (view w4)) (vmem_base_addr E) = VIDEO_USER"
    using insert_mem [OF w3(1) w(2) v3(1) _ U(2) lb(2), of 0] run M nz by (auto simp: Let_def)
  have "own_only E (umem (view w)) (umem (view w4))" by (rule own_only_trans [OF own_only_outside(3) [OF U(3)] w4(3)])
  from own_only_struct [OF this w(2) a] have "struct_at (umem (view w4)) a = b" using b(1) by simp
  then show ?thesis using w4(1,2,5,6) w4(4) [of 0] b' v3(2) by simp
qed

lemma location_zero_loops:
  assumes "inv w" "blinks E (view w) []" "apart_from E a 16" "location (struct_at (umem (view w)) a) = 0"
  shows "\<exists>w1 w2. mp1_ioctl_add os E a w = (w1, 0) \<and> mp1_ioctl_add os E a w1 = (w2, 0) \<and> mp1_rtc_tasklet os E w2 = None"
proof -
  have B: "fish_layout E" "int_at (umem (view w)) (vmem_base_addr E) = VIDEO_USER" "location (slots E (umem (view w)) 0) = 0"
    using assms(2) by (simp_all add: blinks_def)
  from add_at_zero [OF assms(1) B(1,2) assms(3) refl assms(4) B(3)] obtain w1 where w1: "mp1_ioctl_add os E a w = (w1, 0)" "inv w1"
    "int_at (umem (view w1)) (vmem_base_addr E) = VIDEO_USER" "location (struct_at (umem (view w1)) a) = 0"
    "location (slots E (umem (view w1)) 0) = 0" "int_at (umem (view w1)) (mp1_list_head E) = blink_slot E 0" using assms(4) by auto
  from add_at_zero [OF w1(2) B(1) w1(3) assms(3) refl w1(4,5)] obtain w2 where w2: "mp1_ioctl_add os E a w1 = (w2, 0)" "inv w2"
    "int_at (umem (view w2)) (vmem_base_addr E) = VIDEO_USER" "location (slots E (umem (view w2)) 0) = 0"
    "int_at (umem (view w2)) (mp1_list_head E) = blink_slot E 0" "next_blink (slots E (umem (view w2)) 0) = blink_slot E 0"
    using w1(6) by auto
  have "tasklet_loop os E (blink_slot E 0) w2 = None"
    by (rule tasklet_cycle [OF B(1) w2(2) _ _ w2(6,3)]) (simp_all add: w2(4))
  then have "mp1_rtc_tasklet os E w2 = None"
    using load_int_ok [OF w2(2) fish_layoutD(2) [OF B(1)]] w2(5) by (simp add: mp1_rtc_tasklet_def)
  then show ?thesis using w1(1) w2(1) by blast
qed

end

end
