(* ===== verification/UserFish.thy ===== *)
theory UserFish
  imports UserBlink
begin

text \<open>
  The program \<^verbatim>\<open>fish/fish.c\<close>: it reads two pictures from files, adds a blinking character for every place
  where one of them has a mark, and lets the list of \<open>UserBlink\<close> run at the ticks of the clock.
\<close>

section \<open>The program\<close>

definition WAIT :: nat where "WAIT = 100"

text \<open>The addresses of the strings and of the local variables whose address is taken.\<close>

record fish_locals =
  file0 :: u32
  file1 :: u32
  frame_blink :: u32
  c0 :: u32
  c1 :: u32
  main_blink :: u32
  ret_val :: u32
  garbage :: u32

definition ece391_halt :: "'w os \<Rightarrow> int \<Rightarrow> 'w \<Rightarrow> ('w \<times> int) option" where
  "ece391_halt os code w = os_call os 1 (word_of_int code) 0 0 w"

definition mp1_set_video_mode :: "'w os \<Rightarrow> fish_vars \<Rightarrow> 'w \<Rightarrow> ('w \<times> u32) option" where
  "mp1_set_video_mode os E w = do {
     (w, r) \<leftarrow> ece391_vidmap os (vmem_base_addr E) w;
     Some (w, if r = -1 then 0 else os_load_int os w (vmem_base_addr E))
   }"

text \<open>One of the two reads at the head of the inner loop.\<close>

definition read_frame :: "'w os \<Rightarrow> int \<Rightarrow> u32 \<Rightarrow> bool \<Rightarrow> 'w \<Rightarrow> ('w \<times> bool) option" where
  "read_frame os fd c eof w =
     (if os_load os w c \<noteq> ch CHR 0x0A
      then do {
        (w, num_bytes) \<leftarrow> ece391_read os fd c 1 w;
        if num_bytes = 0 then Some (os_store os w c (ch CHR 0x0A), True) else Some (w, eof)
      }
      else Some (w, eof))"

definition draw_cell :: "'w os \<Rightarrow> fish_vars \<Rightarrow> fish_locals \<Rightarrow> int \<Rightarrow> int \<Rightarrow> 'w \<Rightarrow> 'w option" where
  "draw_cell os E L row col w =
     (let a = os_load os w (c0 L); b = os_load os w (c1 L)
      in if (a \<noteq> ch CHR '' '' \<and> a \<noteq> ch CHR 0x0A) \<or> (b \<noteq> ch CHR '' '' \<and> b \<noteq> ch CHR 0x0A)
         then do {
           let w = os_store os w (frame_blink L + ON_CHAR) (if a = ch CHR 0x0A then ch CHR '' '' else a);
           let w = os_store os w (frame_blink L + OFF_CHAR) (if b = ch CHR 0x0A then ch CHR '' '' else b);
           let w = os_store_short os w (frame_blink L + LOCATION) (word_of_int (row * 80 + col + 40));
           (w, _) \<leftarrow> mp1_ioctl os E (frame_blink L) RTC_ADD w;
           Some w
         }
         else Some w)"

partial_function (option) frame_cols ::
  "'w os \<Rightarrow> fish_vars \<Rightarrow> fish_locals \<Rightarrow> int \<Rightarrow> int \<Rightarrow> int \<Rightarrow> int \<Rightarrow> bool \<Rightarrow> bool \<Rightarrow> 'w \<Rightarrow> ('w \<times> bool \<times> bool) option" where
  "frame_cols os E L fd0 fd1 row col eof0 eof1 w = do {
     (w, eof0) \<leftarrow> read_frame os fd0 (c0 L) eof0 w;
     (w, eof1) \<leftarrow> read_frame os fd1 (c1 L) eof1 w;
     if os_load os w (c0 L) = ch CHR 0x0A \<and> os_load os w (c1 L) = ch CHR 0x0A then Some (w, eof0, eof1)
     else do {
       w \<leftarrow> draw_cell os E L row col w;
       frame_cols os E L fd0 fd1 row (col + 1) eof0 eof1 w
     }
   }"

definition end_row :: "'w os \<Rightarrow> int \<Rightarrow> u32 \<Rightarrow> bool \<Rightarrow> 'w \<Rightarrow> 'w option" where
  "end_row os fd c eof w =
     (if eof
      then do { let w = os_store os w c (ch CHR 0x0A); (w, _) \<leftarrow> ece391_close os fd w; Some w }
      else Some (os_store os w c (ch CHR ''0'')))"

partial_function (option) frame_rows ::
  "'w os \<Rightarrow> fish_vars \<Rightarrow> fish_locals \<Rightarrow> int \<Rightarrow> int \<Rightarrow> int \<Rightarrow> bool \<Rightarrow> bool \<Rightarrow> 'w \<Rightarrow> 'w option" where
  "frame_rows os E L fd0 fd1 row eof0 eof1 w =
     (if \<not> eof0 \<or> \<not> eof1
      then do {
        (w, eof0, eof1) \<leftarrow> frame_cols os E L fd0 fd1 row 0 eof0 eof1 w;
        w \<leftarrow> end_row os fd0 (c0 L) eof0 w;
        w \<leftarrow> end_row os fd1 (c1 L) eof1 w;
        frame_rows os E L fd0 fd1 (row + 1) eof0 eof1 w
      }
      else Some w)"

definition add_frames :: "'w os \<Rightarrow> fish_vars \<Rightarrow> fish_locals \<Rightarrow> u32 \<Rightarrow> u32 \<Rightarrow> int \<Rightarrow> 'w \<Rightarrow> 'w option" where
  "add_frames os E L f0 f1 rtc_fd w = do {
     let w = os_store os w (c0 L) (ch CHR ''0'');
     let w = os_store os w (c1 L) (ch CHR ''0'');
     let w = os_store_short os w (frame_blink L + ON_LENGTH) 15;
     let w = os_store_short os w (frame_blink L + OFF_LENGTH) 15;
     (w, fd0) \<leftarrow> ece391_open os f0 w;
     w \<leftarrow> (if fd0 < 0 then map_option fst (ece391_halt os (-1) w) else Some w);
     (w, fd1) \<leftarrow> ece391_open os f1 w;
     w \<leftarrow> (if fd1 < 0 then map_option fst (ece391_halt os (-1) w) else Some w);
     frame_rows os E L fd0 fd1 0 False False w
   }"

text \<open>\<^verbatim>\<open>for(i=0; i<WAIT; i++)\<close> with \<open>n\<close> rounds left.\<close>

fun wait_ticks :: "'w os \<Rightarrow> fish_vars \<Rightarrow> fish_locals \<Rightarrow> int \<Rightarrow> nat \<Rightarrow> 'w \<Rightarrow> 'w option" where
  "wait_ticks os E L rtc_fd 0 w = Some w"
| "wait_ticks os E L rtc_fd (Suc n) w = do {
     (w, _) \<leftarrow> ece391_read os rtc_fd (garbage L) 4 w;
     w \<leftarrow> mp1_rtc_tasklet os E w;
     wait_ticks os E L rtc_fd n w
   }"

definition fish_main :: "'w os \<Rightarrow> (string \<Rightarrow> u32) \<Rightarrow> fish_vars \<Rightarrow> fish_locals \<Rightarrow> 'w \<Rightarrow> ('w \<times> int) option" where
  "fish_main os lit E L w = do {
     let w = ece391_memset os (blink_array E) 0 (STRUCT_SIZE * 80 * 25) w;
     (w, r) \<leftarrow> mp1_set_video_mode os E w;
     if r = 0 then Some (w, -1)
     else do {
       (w, rtc_fd) \<leftarrow> ece391_open os (lit ''rtc'') w;
       w \<leftarrow> add_frames os E L (file0 L) (file1 L) rtc_fd w;
       let w = os_store_int os w (ret_val L) 32;
       (w, r) \<leftarrow> ece391_write os rtc_fd (ret_val L) 4 w;
       let w = os_store_int os w (ret_val L) (word_of_int r);
       w \<leftarrow> wait_ticks os E L rtc_fd WAIT w;
       let w = os_store os w (main_blink L + ON_CHAR) (ch CHR ''I'');
       let w = os_store os w (main_blink L + OFF_CHAR) (ch CHR ''M'');
       let w = os_store_short os w (main_blink L + ON_LENGTH) 7;
       let w = os_store_short os w (main_blink L + OFF_LENGTH) 6;
       let w = os_store_short os w (main_blink L + LOCATION) (6 * 80 + 60);
       (w, _) \<leftarrow> mp1_ioctl os E (main_blink L) RTC_ADD w;
       w \<leftarrow> wait_ticks os E L rtc_fd WAIT w;
       (w, _) \<leftarrow> mp1_ioctl os E (push_bit 16 40 OR (6 * 80 + 60)) RTC_SYNC w;
       w \<leftarrow> wait_ticks os E L rtc_fd WAIT w;
       (w, _) \<leftarrow> mp1_ioctl os E (6 * 80 + 60) RTC_REMOVE w;
       w \<leftarrow> wait_ticks os E L rtc_fd WAIT w;
       (w, _) \<leftarrow> ece391_close os rtc_fd w;
       Some (w, 0)
     }
   }"

section \<open>What it shows\<close>

text \<open>The state of the animation: the list of blinking characters and the screen.\<close>

type_synonym scene = "blink list \<times> aterm"

definition show_add :: "blink \<Rightarrow> scene \<Rightarrow> scene" where
  "show_add b s = (let (bs, r) = add_blink b (fst s) in (bs, if r = 0 then aterm_poke (unat (location b)) (on_char b) (snd s) else snd s))"

definition show_tick :: "scene \<Rightarrow> scene" where
  "show_tick s = (map blink_tick (fst s), fold tick_poke (fst s) (snd s))"

definition show_remove :: "u16 \<Rightarrow> scene \<Rightarrow> scene" where
  "show_remove l s = (remove_blink l (fst s), snd s)"

definition show_sync :: "u16 \<Rightarrow> u16 \<Rightarrow> scene \<Rightarrow> scene" where
  "show_sync src dst s =
     (case (find (\<lambda>b. location b = src) (fst s), find (\<lambda>b. location b = dst) (fst s)) of
        (Some a, Some b) \<Rightarrow> (sync_blink dst a (fst s), aterm_poke (unat (location b)) (off_char b) (snd s))
      | _ \<Rightarrow> s)"

text \<open>The lines of a picture, the last one without a newline; a line or a picture that is over shows blanks.\<close>

primrec split_lines :: "u8 list \<Rightarrow> u8 list list" where
  "split_lines [] = [[]]"
| "split_lines (x # xs) = (if x = 10 then [] # split_lines xs else (x # hd (split_lines xs)) # tl (split_lines xs))"

definition cell_char :: "u8 \<Rightarrow> u8" where
  "cell_char a = (if a = 10 then 32 else a)"

definition cell :: "int \<Rightarrow> int \<Rightarrow> u8 \<Rightarrow> u8 \<Rightarrow> blink list" where
  "cell row col a b =
     (if cell_char a = 32 \<and> cell_char b = 32 then []
      else [\<lparr>location = word_of_int (row * 80 + col + 40), on_char = cell_char a, off_char = cell_char b, on_length = 15, off_length = 15,
             countdown = 15, status = 1\<rparr>])"

fun row_cells :: "int \<Rightarrow> int \<Rightarrow> u8 list \<Rightarrow> u8 list \<Rightarrow> blink list" where
  "row_cells row col [] [] = []"
| "row_cells row col (a # l) [] = cell row col a 10 @ row_cells row (col + 1) l []"
| "row_cells row col [] (b # m) = cell row col 10 b @ row_cells row (col + 1) [] m"
| "row_cells row col (a # l) (b # m) = cell row col a b @ row_cells row (col + 1) l m"

fun picture :: "int \<Rightarrow> u8 list list \<Rightarrow> u8 list list \<Rightarrow> blink list" where
  "picture row [] [] = []"
| "picture row (l # ls) [] = row_cells row 0 l [] @ picture (row + 1) ls []"
| "picture row [] (m # ms) = row_cells row 0 [] m @ picture (row + 1) [] ms"
| "picture row (l # ls) (m # ms) = row_cells row 0 l m @ picture (row + 1) ls ms"

definition main_mark :: blink where
  "main_mark = \<lparr>location = 540, on_char = 73, off_char = 77, on_length = 7, off_length = 6, countdown = 7, status = 1\<rparr>"

definition fish_show :: "u8 list \<Rightarrow> u8 list \<Rightarrow> aterm \<Rightarrow> scene" where
  "fish_show f g T =
     (let ticks = show_tick ^^ WAIT;
          s = ticks (fold show_add (picture 0 (split_lines f) (split_lines g)) ([], T));
          s = ticks (show_add main_mark s);
          s = ticks (show_sync 40 540 s)
      in ticks (show_remove 540 s))"

definition head_byte :: "u8 list \<Rightarrow> u8" where
  "head_byte l = (case l of [] \<Rightarrow> 10 | x # _ \<Rightarrow> x)"

definition first_line :: "u8 list list \<Rightarrow> u8 list" where
  "first_line ls = (case ls of [] \<Rightarrow> [] | l # _ \<Rightarrow> l)"

lemma row_cells_step:
  "l \<noteq> [] \<or> m \<noteq> [] \<Longrightarrow> row_cells row col l m = cell row col (head_byte l) (head_byte m) @ row_cells row (col + 1) (tl l) (tl m)"
  by (cases l; cases m) (simp_all add: head_byte_def)

lemma picture_step:
  "ls \<noteq> [] \<or> ms \<noteq> [] \<Longrightarrow> picture row ls ms = row_cells row 0 (first_line ls) (first_line ms) @ picture (row + 1) (tl ls) (tl ms)"
  by (cases ls; cases ms) (simp_all add: first_line_def)

lemma split_lines_ne [simp]: "split_lines xs \<noteq> []"
  by (cases xs) simp_all

lemma split_lines_hd: "10 \<notin> set (hd (split_lines xs))"
  by (induction xs) auto

lemma split_lines_cases:
  assumes "split_lines xs = l # ls"
  shows "10 \<notin> set l" "l = x # l' \<Longrightarrow> \<exists>ys. xs = x # ys \<and> split_lines ys = l' # ls"
    "l = [] \<Longrightarrow> ls \<noteq> [] \<Longrightarrow> \<exists>ys. xs = 10 # ys \<and> split_lines ys = ls" "l = [] \<Longrightarrow> ls = [] \<Longrightarrow> xs = []"
proof -
  show "10 \<notin> set l" using split_lines_hd [of xs] assms by simp
qed (use assms in \<open>cases xs; force split: if_splits\<close>)+

lemma add_blink_fresh:
  "add_blink (b\<lparr>countdown := x, status := y\<rparr>) bs = add_blink b bs"
  by (simp add: add_blink_def)

text \<open>Pictures of fewer than 800 bytes stay below location 65536, so no location wraps around to 0.\<close>

lemma row_cells_location:
  assumes "x \<in> set (row_cells row col l m)" "length l \<le> n" "length m \<le> n"
  shows "\<exists>k. col \<le> k \<and> k < col + int n \<and> location x = word_of_int (row * 80 + k + 40)"
proof -
  define P where "P r c i \<longleftrightarrow> (\<exists>k. c \<le> k \<and> k < c + int i \<and> location x = word_of_int (r * 80 + k + 40))" for r c and i :: nat
  have here: "P r c (Suc i)" if "x \<in> set (cell r c a b)" for r c i a b
    using that unfolding P_def by (intro exI [of _ c]) (simp add: cell_def split: if_splits)
  have right: "P r c (Suc i)" if "P r (c + 1) i" for r c i
  proof -
    obtain k where "c + 1 \<le> k" "k < c + 1 + int i" "location x = word_of_int (r * 80 + k + 40)" using \<open>P r (c + 1) i\<close> unfolding P_def by blast
    then show ?thesis unfolding P_def by (intro exI [of _ k]) simp
  qed
  have "P row col n"
    using assms
  proof (induction row col l m arbitrary: n rule: row_cells.induct)
    case (2 row col a l)
    then show ?case using here [of row col a 10] right [of row col] by (cases n) auto
  next
    case (3 row col b m)
    then show ?case using here [of row col 10 b] right [of row col] by (cases n) auto
  next
    case (4 row col a l b m)
    then show ?case using here [of row col a b] right [of row col] by (cases n) auto
  qed simp
  then show ?thesis by (simp only: P_def)
qed

lemma picture_location:
  assumes "x \<in> set (picture row ls ms)" "\<forall>l\<in>set ls \<union> set ms. length l \<le> n" "length ls \<le> h" "length ms \<le> h"
  shows "\<exists>i k. row \<le> i \<and> i < row + int h \<and> 0 \<le> k \<and> k < int n \<and> location x = word_of_int (i * 80 + k + 40)"
proof -
  define P where "P r j \<longleftrightarrow> (\<exists>i k. r \<le> i \<and> i < r + int j \<and> 0 \<le> k \<and> k < int n \<and> location x = word_of_int (i * 80 + k + 40))" for r and j :: nat
  have here: "P r (Suc j)" if "x \<in> set (row_cells r 0 l m)" "length l \<le> n" "length m \<le> n" for r j l m
  proof -
    note cells = that
    obtain k where "0 \<le> k" "k < int n" "location x = word_of_int (r * 80 + k + 40)" using row_cells_location [OF cells] by auto
    then show ?thesis unfolding P_def by (intro exI [of _ r] exI [of _ k]) simp
  qed
  have below: "P r (Suc j)" if "P (r + 1) j" for r j
  proof -
    obtain i k where "r + 1 \<le> i" "i < r + 1 + int j" "0 \<le> k" "k < int n" "location x = word_of_int (i * 80 + k + 40)"
      using \<open>P (r + 1) j\<close> unfolding P_def by blast
    then show ?thesis unfolding P_def by (intro exI [of _ i] exI [of _ k]) simp
  qed
  have "P row h"
    using assms
  proof (induction row ls ms arbitrary: h rule: picture.induct)
    case (2 r l ls)
    then show ?case using here [of r l "[]"] below [of r] by (cases h) auto
  next
    case (3 r m ms)
    then show ?case using here [of r "[]" m] below [of r] by (cases h) auto
  next
    case (4 r l ls m ms)
    then show ?case using here [of r l m] below [of r] by (cases h) auto
  qed simp
  then show ?thesis by (simp only: P_def)
qed

lemma split_lines_size: "length (split_lines xs) \<le> length xs + 1" "l \<in> set (split_lines xs) \<Longrightarrow> length l \<le> length xs"
proof -
  show "length (split_lines xs) \<le> length xs + 1" by (induction xs) (auto simp: Suc_le_eq)
  have "\<forall>l\<in>set (split_lines xs). length l \<le> length xs"
  proof (induction xs)
    case (Cons x xs)
    then have "length (hd (split_lines xs)) \<le> length xs" "\<forall>l\<in>set (tl (split_lines xs)). length l \<le> length xs"
      by (auto dest: list.set_sel(2) [rotated])
    then show ?case using Cons by (auto intro: le_SucI)
  qed simp
  then show "l \<in> set (split_lines xs) \<Longrightarrow> length l \<le> length xs" by blast
qed

lemma small_pictures:
  assumes "length f < 800" "length g < 800"
  shows "\<forall>x\<in>set (picture 0 (split_lines f) (split_lines g)). location x \<noteq> 0"
proof
  fix x assume x: "x \<in> set (picture 0 (split_lines f) (split_lines g))"
  have "\<forall>l\<in>set (split_lines f) \<union> set (split_lines g). length l \<le> 800" "length (split_lines f) \<le> 800" "length (split_lines g) \<le> 800"
    using split_lines_size(2) [of _ f] split_lines_size(2) [of _ g] split_lines_size(1) [of f] split_lines_size(1) [of g] assms by fastforce+
  from picture_location [OF x this] obtain i k where
    ik: "0 \<le> i" "i < 800" "0 \<le> k" "k < 800" "location x = word_of_int (i * 80 + k + 40)" by auto
  define n where "n = i * 80 + k + 40"
  have n: "0 < n" "n < 65536" using ik(1-4) by (simp_all add: n_def)
  have "uint (word_of_int n :: u16) = n" using n by (simp add: uint_word_of_int)
  then show "location x \<noteq> 0" unfolding ik(5) n_def [symmetric] using n(1) by force
qed

definition showing :: "fish_vars \<Rightarrow> scene \<Rightarrow> uview \<Rightarrow> bool" where
  "showing E s v \<longleftrightarrow> (\<exists>xs. blinks E v xs \<and> s = (blink_list E v xs, uout v))"

lemma showing_outside:
  assumes "showing E s v" "outside b n (umem v) (umem v')" "uout v' = uout v" "apart_from E b n"
  shows "showing E s v'"
proof -
  obtain xs where xs: "blinks E v xs" "s = (blink_list E v xs, uout v)" using assms(1) by (auto simp: showing_def)
  have "ubuf b n" using assms(4) by (simp add: apart_from_def)
  note B = blinks_outside [OF xs(1) assms(2) this disjoint_of_apart(1-3) [OF assms(4)]]
  show ?thesis unfolding showing_def using B xs(2) assms(3) by metis
qed

context user_screen
begin

lemma show_add_ok:
  assumes "inv w" "showing E s (view w)" "apart_from E a 16" "struct_at (umem (view w)) a = b" "location b \<noteq> 0"
  shows "\<exists>w' r. mp1_ioctl os E a RTC_ADD w = Some (w', r) \<and> inv w' \<and> showing E (show_add (blink.truncate b) s) (view w') \<and>
    draws (view w) (view w') \<and> own_only E (umem (view w)) (umem (view w'))"
proof -
  obtain xs where xs: "blinks E (view w) xs" "s = (blink_list E (view w) xs, uout (view w))" using assms(2) by (auto simp: showing_def)
  from add_ok [OF assms(1) xs(1) assms(3-5)] obtain w' r xs' where w': "mp1_ioctl_add os E a w = (w', r)" "inv w'" "blinks E (view w') xs'"
    "draws (view w) (view w')" "own_only E (umem (view w)) (umem (view w'))"
    "(blink_list E (view w') xs', r) = add_blink (blink.truncate b) (blink_list E (view w) xs)"
    "uout (view w') = (if r = 0 then aterm_poke (unat (location b)) (on_char b) (uout (view w)) else uout (view w))" by blast
  have "on_char (blink.truncate b) = on_char b" by (simp add: blink.truncate_def)
  then have "show_add (blink.truncate b) s = (blink_list E (view w') xs', uout (view w'))"
    using w'(6) [symmetric] by (simp add: show_add_def xs(2) w'(7))
  then show ?thesis using w' by (auto simp: mp1_ioctl_def RTC_ADD_def showing_def)
qed

lemma show_tick_ok:
  assumes "inv w" "showing E s (view w)"
  shows "\<exists>w'. mp1_rtc_tasklet os E w = Some w' \<and> inv w' \<and> showing E (show_tick s) (view w') \<and>
    draws (view w) (view w') \<and> own_only E (umem (view w)) (umem (view w'))"
proof -
  obtain xs where xs: "blinks E (view w) xs" "s = (blink_list E (view w) xs, uout (view w))" using assms(2) by (auto simp: showing_def)
  from tasklet_ok [OF assms(1) xs(1)] show ?thesis
    by (auto simp: showing_def show_tick_def xs(2) own_only_outside(1) intro!: exI [of _ xs])
qed

lemma show_remove_ok:
  assumes "inv w" "showing E s (view w)"
  shows "\<exists>w' r. mp1_ioctl os E a RTC_REMOVE w = Some (w', r) \<and> inv w' \<and> showing E (show_remove (ucast a) s) (view w') \<and>
    draws (view w) (view w') \<and> own_only E (umem (view w)) (umem (view w'))"
proof -
  obtain xs where xs: "blinks E (view w) xs" "s = (blink_list E (view w) xs, uout (view w))" using assms(2) by (auto simp: showing_def)
  from remove_ok [OF assms(1) xs(1), of a] obtain w' r xs' where w': "mp1_ioctl_remove os E a w = Some (w', r)" "inv w'" "blinks E (view w') xs'"
    "view w' = (view w)\<lparr>umem := umem (view w')\<rparr>" "own_only E (umem (view w)) (umem (view w'))"
    "blink_list E (view w') xs' = remove_blink (ucast a) (blink_list E (view w) xs)" by blast
  have "draws (view w) (view w')" unfolding draws_def using w'(4) by (cases "view w", cases "view w'") simp
  moreover have "show_remove (ucast a) s = (blink_list E (view w') xs', uout (view w'))"
    using umem_only(1) [OF w'(4)] by (simp add: show_remove_def xs(2) w'(6))
  ultimately show ?thesis using w' by (auto simp: mp1_ioctl_def RTC_REMOVE_def showing_def)
qed

lemma show_sync_ok:
  assumes "inv w" "showing E s (view w)"
  shows "\<exists>w' r. mp1_ioctl os E a RTC_SYNC w = Some (w', r) \<and> inv w' \<and> showing E (show_sync (ucast (drop_bit 16 a)) (ucast a) s) (view w') \<and>
    draws (view w) (view w') \<and> own_only E (umem (view w)) (umem (view w'))"
proof -
  obtain xs where xs: "blinks E (view w) xs" "s = (blink_list E (view w) xs, uout (view w))" using assms(2) by (auto simp: showing_def)
  let ?f = "\<lambda>l. find (\<lambda>b. location b = l) (blink_list E (view w) xs)"
  have e: "mp1_ioctl os E a RTC_SYNC w = mp1_ioctl_sync os E a w" by (simp add: mp1_ioctl_def RTC_SYNC_def)
  show ?thesis
  proof (cases "\<exists>x y. ?f (ucast (drop_bit 16 a)) = Some x \<and> ?f (ucast a) = Some y")
    case True
    then obtain x y where f: "?f (ucast (drop_bit 16 a)) = Some x" "?f (ucast a) = Some y" by blast
    from sync_ok [OF assms(1) xs(1) f] obtain w' where w': "mp1_ioctl_sync os E a w = Some (w', 0)" "inv w'" "blinks E (view w') xs"
      "draws (view w) (view w')" "own_only E (umem (view w)) (umem (view w'))"
      "blink_list E (view w') xs = sync_blink (ucast a) x (blink_list E (view w) xs)"
      "uout (view w') = aterm_poke (unat (location y)) (off_char y) (uout (view w))" by blast
    have "show_sync (ucast (drop_bit 16 a)) (ucast a) s = (blink_list E (view w') xs, uout (view w'))"
      using f by (simp add: show_sync_def xs(2) w'(6,7))
    then show ?thesis unfolding e showing_def using w'(1-5) by blast
  next
    case False
    then have n: "?f (ucast (drop_bit 16 a)) = None \<or> ?f (ucast a) = None" by (meson not_None_eq)
    then have "mp1_ioctl_sync os E a w = Some (w, -1)" by (intro sync_missing [OF assms(1) xs(1)]) (auto simp: find_None_iff)
    moreover have "show_sync (ucast (drop_bit 16 a)) (ucast a) s = s" using n by (auto simp: show_sync_def xs(2) split: option.splits)
    ultimately show ?thesis unfolding e using assms by simp
  qed
qed

lemma wait_ticks_ok:
  assumes "0 \<le> fd" "fd < 8" "inv w" "showing E s (view w)" "ufds (view w) (nat fd) = Fd_clock"
  shows "\<exists>w'. wait_ticks os E L fd n w = Some w' \<and> inv w' \<and> showing E ((show_tick ^^ n) s) (view w') \<and>
    ufds (view w') = ufds (view w) \<and> own_only E (umem (view w)) (umem (view w'))"
  using assms(3-5)
proof (induction n arbitrary: w s)
  case (Suc n)
  obtain w1 where w1: "ece391_read os fd (garbage L) 4 w = Some (w1, 0)" "inv w1" "view w1 = (view w)\<lparr>utick := False\<rparr>"
    using clock_read [OF Suc.prems(1) assms(1,2) Suc.prems(3)] by blast
  have "showing E s (view w1)" using Suc.prems(2) by (simp add: showing_def w1(3) blinks_def blink_list_def)
  from show_tick_ok [OF w1(2) this] obtain w2 where w2: "mp1_rtc_tasklet os E w1 = Some w2" "inv w2" "showing E (show_tick s) (view w2)"
    "draws (view w1) (view w2)" "own_only E (umem (view w1)) (umem (view w2))" by blast
  have f: "ufds (view w2) = ufds (view w)" using drawsD(1) [OF w2(4)] by (simp add: w1(3))
  from Suc.IH [OF w2(2,3)] Suc.prems(3) obtain w' where w': "wait_ticks os E L fd n w2 = Some w'" "inv w'"
    "showing E ((show_tick ^^ n) (show_tick s)) (view w')" "ufds (view w') = ufds (view w2)" "own_only E (umem (view w2)) (umem (view w'))"
    by (auto simp: f)
  have "own_only E (umem (view w)) (umem (view w'))" using own_only_trans [OF w2(5) w'(5)] by (simp add: w1(3))
  then show ?case using w' w1(1) w2(1) f by (simp add: funpow_swap1)
qed simp

end

section \<open>Reading the pictures\<close>

text \<open>
  Where the program is in a picture: \<open>Some l\<close>, the line is being read and \<open>l\<close> is left of it; \<open>None\<close>, its end has
  been read. The lines \<open>ls\<close> come after it.
\<close>

definition lines_from :: "uview \<Rightarrow> int \<Rightarrow> u8 list list \<Rightarrow> bool" where
  "lines_from v fd ls \<longleftrightarrow> (\<exists>f p. ufds v (nat fd) = Fd_regular f p \<and> split_lines (drop p f) = ls)"

definition reading :: "uview \<Rightarrow> int \<Rightarrow> u32 \<Rightarrow> bool \<Rightarrow> u8 list option \<Rightarrow> u8 list list \<Rightarrow> bool" where
  "reading v fd c eof cur ls \<longleftrightarrow>
     (case cur of
        Some l \<Rightarrow> umem v c \<noteq> 10 \<and> \<not> eof \<and> lines_from v fd (l # ls)
      | None \<Rightarrow> umem v c = 10 \<and> (eof \<longleftrightarrow> ls = []) \<and> (ls \<noteq> [] \<longrightarrow> lines_from v fd ls))"

definition line :: "u8 list option \<Rightarrow> u8 list" where
  "line cur = (case cur of Some l \<Rightarrow> l | None \<Rightarrow> [])"

definition advance :: "u8 list option \<Rightarrow> u8 list option" where
  "advance cur = (if line cur = [] then None else Some (tl (line cur)))"

lemma line_advance [simp]: "line (advance cur) = tl (line cur)"
  by (simp add: advance_def line_def)

lemma reading_cong: "umem v' c = umem v c \<Longrightarrow> ufds v' (nat fd) = ufds v (nat fd) \<Longrightarrow> reading v' fd c eof cur ls = reading v fd c eof cur ls"
  by (simp add: reading_def lines_from_def cong: option.case_cong)

lemma reading_line: "reading v fd c eof cur ls \<Longrightarrow> 10 \<notin> set (line cur)"
  using split_lines_cases(1) by (fastforce simp: reading_def lines_from_def line_def split: option.splits)

text \<open>What changes when a picture is read: the byte \<open>c\<close> and the descriptor \<open>fd\<close>.\<close>

definition reads :: "int \<Rightarrow> u32 \<Rightarrow> uview \<Rightarrow> uview \<Rightarrow> bool" where
  "reads fd c v v' \<longleftrightarrow> outside c 1 (umem v) (umem v') \<and> uout v' = uout v \<and> (\<forall>i. i \<noteq> nat fd \<longrightarrow> ufds v' i = ufds v i)"

lemma outside_one: "outside c (Suc 0) m m' \<longleftrightarrow> (\<forall>x. x \<noteq> c \<longrightarrow> m' x = m x)"
  by (auto simp: outside_def)

context user_os
begin

lemma one_byte:
  assumes "inv w" "2 \<le> fd" "fd < 8" "ubuf c 1" "ufds (view w) (nat fd) = Fd_regular f p"
  shows "\<exists>w'. ece391_read os fd c 1 w = Some (w', if p < length f then 1 else 0) \<and> inv w' \<and> reads fd c (view w) (view w') \<and>
    (if p < length f then umem (view w') c = f ! p \<and> ufds (view w') (nat fd) = Fd_regular f (p + 1)
     else umem (view w') c = umem (view w) c \<and> ufds (view w') (nat fd) = Fd_regular f p)"
proof -
  have s: "sint (word_of_int fd :: u32) = fd" using sint_of_int_u32 [of fd] assms(2,3) by simp
  have "read_ok fd c 1 (view w)" using assms(4,5) by (simp add: read_ok_def)
  moreover have "u_read img fd c 1 (view w) =
      (if p < length f then (set_fd (nat fd) (Fd_regular f (p + 1)) (set_mem c [f ! p] (view w)), 1)
       else (set_fd (nat fd) (Fd_regular f p) (view w), 0))"
    using assms(2,3,5) by (auto simp: u_read_def min_def set_mem_def put_bytes_def take_Suc_conv_app_nth hd_drop_conv_nth take_Suc Let_def)
  ultimately show ?thesis
    using read_stub [OF assms(1) _ s, of c 1] by (cases "p < length f") (auto simp: reads_def outside_one set_fd_def set_mem_def put_bytes_def)
qed

lemma read_frame_ok:
  assumes "inv w" "2 \<le> fd" "fd < 8" "ubuf c 1" "reading (view w) fd c eof cur ls"
  shows "\<exists>w' eof'. read_frame os fd c eof w = Some (w', eof') \<and> inv w' \<and> reads fd c (view w) (view w') \<and>
    reading (view w') fd c eof' (advance cur) ls \<and> umem (view w') c = head_byte (line cur)"
proof (cases cur)
  case None
  then have "umem (view w) c = 10" using assms(5) by (simp add: reading_def)
  then have "read_frame os fd c eof w = Some (w, eof)" using load [OF assms(1,4)] by (simp add: read_frame_def)
  then show ?thesis using assms(1,5) None \<open>umem (view w) c = 10\<close> by (auto simp: reads_def advance_def line_def head_byte_def)
next
  case (Some l)
  then obtain f p where f: "umem (view w) c \<noteq> 10" "\<not> eof" "ufds (view w) (nat fd) = Fd_regular f p" "split_lines (drop p f) = l # ls"
    using assms(5) by (auto simp: reading_def lines_from_def)
  note S = split_lines_cases [OF f(4)]
  obtain w1 where w1: "ece391_read os fd c 1 w = Some (w1, if p < length f then 1 else 0)" "inv w1" "reads fd c (view w) (view w1)"
    "if p < length f then umem (view w1) c = f ! p \<and> ufds (view w1) (nat fd) = Fd_regular f (p + 1)
     else umem (view w1) c = umem (view w) c \<and> ufds (view w1) (nat fd) = Fd_regular f p"
    using one_byte [OF assms(1-4) f(3)] by blast
  have ld: "os_load os w c = umem (view w) c" by (rule load [OF assms(1,4)])
  show ?thesis
  proof (cases "p < length f")
    case True
    have e: "read_frame os fd c eof w = Some (w1, eof)" using w1(1) f(1) ld True by (simp add: read_frame_def)
    have d: "drop p f = f ! p # drop (p + 1) f" using True by (simp add: Cons_nth_drop_Suc)
    have u: "umem (view w1) c = f ! p" "ufds (view w1) (nat fd) = Fd_regular f (p + 1)" using w1(4) True by simp_all
    show ?thesis
    proof (cases l)
      case Nil
      have "ls \<noteq> []" using S(4) Nil d by auto
      then have "f ! p = 10" "split_lines (drop (p + 1) f) = ls" using S(3) Nil d by auto
      then show ?thesis using e w1(2,3) u Nil Some f(2) \<open>ls \<noteq> []\<close> by (auto simp: reading_def lines_from_def advance_def line_def head_byte_def)
    next
      case (Cons x l')
      have "f ! p = x" "split_lines (drop (p + 1) f) = l' # ls" using S(2) [OF Cons] d by auto
      moreover have "x \<noteq> 10" using S(1) Cons by auto
      ultimately show ?thesis using e w1(2,3) u Cons Some f(2) by (auto simp: reading_def lines_from_def advance_def line_def head_byte_def)
    qed
  next
    case False
    then have l: "l = []" "ls = []" using f(4) by simp_all
    define w2 where "w2 = os_store os w1 c 10"
    have w2: "inv w2" "view w2 = (view w1)\<lparr>umem := (umem (view w1))(c := 10)\<rparr>" using store [OF w1(2) assms(4), of 10] by (simp_all add: w2_def)
    have "read_frame os fd c eof w = Some (w2, True)" using w1(1) f(1) ld False by (simp add: read_frame_def w2_def)
    moreover have "reads fd c (view w) (view w2)" using w1(3) by (simp add: w2(2) reads_def outside_one)
    ultimately show ?thesis using w2 l Some by (auto simp: reading_def advance_def line_def head_byte_def)
  qed
qed

lemma end_row_ok:
  assumes "inv w" "2 \<le> fd" "fd < 8" "ubuf c 1" "reading (view w) fd c eof None ls"
  shows "\<exists>w'. end_row os fd c eof w = Some w' \<and> inv w' \<and> reads fd c (view w) (view w') \<and>
    (if ls = [] then reading (view w') fd c eof None [] else reading (view w') fd c eof (Some (hd ls)) (tl ls))"
proof (cases "ls = []")
  case True
  define w1 where "w1 = os_store os w c 10"
  have w1: "inv w1" "view w1 = (view w)\<lparr>umem := (umem (view w))(c := 10)\<rparr>" using store [OF assms(1,4), of 10] by (simp_all add: w1_def)
  obtain v r where v: "u_close fd (view w1) = (v, r)" by force
  then obtain w2 where w2: "ece391_close os fd w1 = Some (w2, r)" "inv w2" "view w2 = v"
    using close_stub [OF w1(1), of fd] sint_of_int_u32 [of fd] assms(2,3) by auto
  have "eof" using assms(5) True by (simp add: reading_def)
  then have "end_row os fd c eof w = Some w2" using w2(1) by (simp add: end_row_def w1_def)
  moreover have "reads fd c (view w) v" "umem v c = 10" using v by (auto simp: w1(2) u_close_def reads_def outside_one set_fd_def split: if_splits)
  ultimately show ?thesis using w2(2,3) True \<open>eof\<close> by (auto simp: reading_def)
next
  case False
  have e: "\<not> eof" "lines_from (view w) fd ls" using assms(5) False by (simp_all add: reading_def)
  have "inv (os_store os w c 48)" "view (os_store os w c 48) = (view w)\<lparr>umem := (umem (view w))(c := 48)\<rparr>" using store [OF assms(1,4), of 48] by simp_all
  then show ?thesis using e False by (auto simp: end_row_def reads_def outside_one reading_def lines_from_def)
qed

end

section \<open>Adding the pictures\<close>

text \<open>The local variables do not overlap, neither with each other nor with the variables of the list.\<close>

definition locals_of :: "fish_locals \<Rightarrow> (u32 \<times> nat) list" where
  "locals_of L = [(c0 L, 1), (c1 L, 1), (frame_blink L, 16), (main_blink L, 16), (ret_val L, 4)]"

definition locals_layout :: "fish_vars \<Rightarrow> fish_locals \<Rightarrow> bool" where
  "locals_layout E L \<longleftrightarrow> fish_layout E \<and> apart_all (locals_of L) \<and> (\<forall>(a, n)\<in>set (locals_of L). apart_from E a n)"

lemma locals_layoutD:
  assumes "locals_layout E L"
  shows "fish_layout E" "apart_from E (c0 L) 1" "apart_from E (c1 L) 1" "apart_from E (frame_blink L) 16" "apart_from E (main_blink L) 16"
    "apart_from E (ret_val L) 4" "ubuf (c0 L) 1" "ubuf (c1 L) 1" "ubuf (frame_blink L) 16" "ubuf (main_blink L) 16" "ubuf (ret_val L) 4"
    "disjoint_bufs (c0 L) 1 (c1 L) 1" "disjoint_bufs (c0 L) 1 (frame_blink L) 16" "disjoint_bufs (c1 L) 1 (frame_blink L) 16"
  using assms by (simp_all add: locals_layout_def locals_of_def)

lemma locals_differ: "locals_layout E L \<Longrightarrow> c0 L \<noteq> c1 L"
  using locals_layoutD(12) [of E L] by (auto simp: disjoint_bufs_def)

lemma blink_of_splice_char:
  assumes "length xs = 16"
  shows "blink_of (splice 2 [x] xs) = (blink_of xs)\<lparr>on_char := x\<rparr>" "blink_of (splice 3 [x] xs) = (blink_of xs)\<lparr>off_char := x\<rparr>"
    "blink_of (splice 0 [ucast v, ucast (drop_bit 8 v)] xs) = (blink_of xs)\<lparr>location := v\<rparr>"
proof -
  have "blink_of (splice 0 [a, b] xs) = (blink_of xs)\<lparr>location := short_of a b\<rparr>" for a b
    using assms by (simp add: blink_of_def splice_def nth_append numeral_eq_Suc)
  then show "blink_of (splice 0 [ucast v, ucast (drop_bit 8 v)] xs) = (blink_of xs)\<lparr>location := v\<rparr>" by simp
qed (use assms in \<open>simp_all add: blink_of_def splice_def nth_append\<close>)

lemma upd_struct_byte:
  assumes "upd_struct a f v v'" "ubuf a 16" "ubuf c 1" "disjoint_bufs c 1 a 16"
  shows "umem v' c = umem v c"
  using outside_far [OF upd_structD(3) [OF assms(1)] assms(3,2,4), of 0] by simp

context user_os
begin

lemma struct_char_stores:
  assumes "inv w" "ubuf a 16"
  shows "inv (os_store os w (a + ON_CHAR) x)" "upd_struct a (\<lambda>s. s\<lparr>on_char := x\<rparr>) (view w) (view (os_store os w (a + ON_CHAR) x))"
    "inv (os_store os w (a + OFF_CHAR) x)" "upd_struct a (\<lambda>s. s\<lparr>off_char := x\<rparr>) (view w) (view (os_store os w (a + OFF_CHAR) x))"
    "inv (os_store_short os w (a + LOCATION) v)" "upd_struct a (\<lambda>s. s\<lparr>location := v\<rparr>) (view w) (view (os_store_short os w (a + LOCATION) v))"
  using struct_store [OF assms, of "[x]" 2 "\<lambda>s. s\<lparr>on_char := x\<rparr>"] struct_store [OF assms, of "[x]" 3 "\<lambda>s. s\<lparr>off_char := x\<rparr>"]
    struct_store [OF assms, of "[ucast v, ucast (drop_bit 8 v)]" 0 "\<lambda>s. s\<lparr>location := v\<rparr>"]
  by (simp_all add: blink_of_splice_char os_store_short_def blink_offsets)

lemma fill_struct:
  fixes x y :: u8 and l :: u16
  assumes "inv w" "ubuf a 16"
  defines "w' \<equiv> os_store_short os (os_store os (os_store os w (a + ON_CHAR) x) (a + OFF_CHAR) y) (a + LOCATION) l"
  shows "inv w'" "upd_struct a (\<lambda>s. s\<lparr>on_char := x, off_char := y, location := l\<rparr>) (view w) (view w')"
proof -
  note s1 = struct_char_stores(1,2) [OF assms(1,2), of x]
  note s2 = struct_char_stores(3,4) [OF s1(1) assms(2), of y]
  note s3 = struct_char_stores(5,6) [OF s2(1) assms(2), of l]
  show "inv w'" unfolding w'_def by (rule s3(1))
  show "upd_struct a (\<lambda>s. s\<lparr>on_char := x, off_char := y, location := l\<rparr>) (view w) (view w')"
    unfolding w'_def using upd_struct_trans [OF upd_struct_trans [OF s1(2) s2(2)] s3(2)] by (simp add: o_def)
qed

end

definition frame_ready :: "fish_locals \<Rightarrow> uview \<Rightarrow> bool" where
  "frame_ready L v \<longleftrightarrow> on_length (struct_at (umem v) (frame_blink L)) = 15 \<and> off_length (struct_at (umem v) (frame_blink L)) = 15"

lemma frame_ready_outside:
  assumes "frame_ready L v" "outside b n (umem v) (umem v')" "ubuf (frame_blink L) 16" "ubuf b n" "disjoint_bufs b n (frame_blink L) 16"
  shows "frame_ready L v'"
  using assms(1) struct_at_far [OF assms(2-4) disjoint_sym [OF assms(5)]] by (simp add: frame_ready_def)

lemma show_add_fresh:
  assumes "y = x\<lparr>countdown := m, status := n\<rparr>"
  shows "show_add y s = show_add x s"
proof -
  have "add_blink y bs = add_blink x bs" for bs unfolding assms by (rule add_blink_fresh)
  moreover have "location y = location x" "on_char y = on_char x" by (simp_all add: assms)
  ultimately show ?thesis by (simp add: show_add_def split: prod.splits)
qed

lemma cell_cases:
  "cell row col a b = (if (a \<noteq> 32 \<and> a \<noteq> 10) \<or> (b \<noteq> 32 \<and> b \<noteq> 10)
     then [\<lparr>location = word_of_int (row * 80 + col + 40), on_char = cell_char a, off_char = cell_char b, on_length = 15, off_length = 15,
            countdown = 15, status = 1\<rparr>]
     else [])"
  by (auto simp: cell_def cell_char_def)

context user_screen
begin

lemma draw_cell_ok:
  assumes lay: "locals_layout E L" and w: "inv w" "showing E s (view w)" "frame_ready L (view w)"
    and c: "umem (view w) (c0 L) = a" "umem (view w) (c1 L) = b" and loc: "\<forall>x\<in>set (cell row col a b). location x \<noteq> 0"
  shows "\<exists>w'. draw_cell os E L row col w = Some w' \<and> inv w' \<and> showing E (fold show_add (cell row col a b) s) (view w') \<and> frame_ready L (view w') \<and>
    ufds (view w') = ufds (view w) \<and> umem (view w') (c0 L) = a \<and> umem (view w') (c1 L) = b"
proof (cases "cell row col a b")
  case Nil
  then have "draw_cell os E L row col w = Some w"
    using load [OF w(1) locals_layoutD(7) [OF lay]] load [OF w(1) locals_layoutD(8) [OF lay]]
    by (auto simp: draw_cell_def Let_def c cell_cases split: if_splits)
  then show ?thesis using w c Nil by simp
next
  case (Cons x xs)
  note l = locals_layoutD [OF lay]
  define l0 :: u16 where "l0 = word_of_int (row * 80 + col + 40)"
  have x: "x = \<lparr>location = l0, on_char = cell_char a, off_char = cell_char b, on_length = 15, off_length = 15, countdown = 15, status = 1\<rparr>"
    "xs = []" and ab: "(a \<noteq> 32 \<and> a \<noteq> 10) \<or> (b \<noteq> 32 \<and> b \<noteq> 10)"
    using Cons by (auto simp: cell_cases l0_def split: if_splits)
  define w1 where "w1 = os_store_short os (os_store os (os_store os w (frame_blink L + ON_CHAR) (cell_char a)) (frame_blink L + OFF_CHAR) (cell_char b))
    (frame_blink L + LOCATION) l0"
  note w1 = fill_struct [OF w(1) l(9), where x = "cell_char a" and y = "cell_char b" and l = l0, folded w1_def]
  note U = upd_structD [OF w1(2)]
  have s1: "showing E s (view w1)" by (rule showing_outside [OF w(2) U(3) umem_only(1) [OF U(1)] l(4)])
  define b1 where "b1 = struct_at (umem (view w1)) (frame_blink L)"
  have b1: "location b1 = l0" "on_length b1 = 15" "off_length b1 = 15" "on_char b1 = cell_char a" "off_char b1 = cell_char b"
    using w(3) by (simp_all add: b1_def U(2) frame_ready_def)
  have "location b1 \<noteq> 0" using loc Cons x(1) b1(1) by simp
  from show_add_ok [OF w1(1) s1 l(4) b1_def [symmetric] this] obtain w2 r where w2: "mp1_ioctl os E (frame_blink L) RTC_ADD w1 = Some (w2, r)" "inv w2"
    "showing E (show_add (blink.truncate b1) s) (view w2)" "draws (view w1) (view w2)" "own_only E (umem (view w1)) (umem (view w2))" by blast
  have "draw_cell os E L row col w = Some w2"
    using ab w2(1) load [OF w(1) l(7)] load [OF w(1) l(8)] by (auto simp: draw_cell_def Let_def c w1_def l0_def cell_char_def split: if_splits)
  moreover have "blink.truncate b1 = x\<lparr>countdown := countdown b1, status := status b1\<rparr>" by (simp add: blink.truncate_def x(1) b1)
  then have "show_add (blink.truncate b1) s = show_add x s" by (rule show_add_fresh)
  moreover have "frame_ready L (view w2)"
    using own_only_struct [OF w2(5) l(1,4)] b1 by (simp add: frame_ready_def b1_def)
  moreover have "umem (view w2) (c0 L) = a" "umem (view w2) (c1 L) = b"
    using own_only_far [OF w2(5) l(1,2), of 0] own_only_far [OF w2(5) l(1,3), of 0] upd_struct_byte [OF w1(2) l(9,7,13)]
      upd_struct_byte [OF w1(2) l(9,8,14)] c by simp_all
  moreover have "ufds (view w2) = ufds (view w)" using drawsD(1) [OF w2(4)] umem_only(2) [OF U(1)] by simp
  ultimately show ?thesis using w2(2,3) Cons x(2) by simp
qed

end

text \<open>The two pictures under way at the same time.\<close>

definition both :: "fish_vars \<Rightarrow> fish_locals \<Rightarrow> int \<Rightarrow> int \<Rightarrow> scene \<Rightarrow> uview \<Rightarrow> bool" where
  "both E L fd0 fd1 s v \<longleftrightarrow> showing E s v \<and> frame_ready L v \<and> locals_layout E L \<and> 2 \<le> fd0 \<and> fd0 < 8 \<and> 2 \<le> fd1 \<and> fd1 < 8 \<and> fd0 \<noteq> fd1"

lemma both_reads:
  assumes "both E L fd0 fd1 s v" "reads fd c v v'" "c = c0 L \<or> c = c1 L"
  shows "both E L fd0 fd1 s v'"
proof -
  have B: "showing E s v" "frame_ready L v" "locals_layout E L" using assms(1) by (simp_all add: both_def)
  note l = locals_layoutD [OF B(3)]
  have r: "outside c 1 (umem v) (umem v')" "uout v' = uout v" using assms(2) by (simp_all add: reads_def)
  have c: "apart_from E c 1" "ubuf c 1" "disjoint_bufs c 1 (frame_blink L) 16" using assms(3) l by auto
  show ?thesis
    using showing_outside [OF B(1) r c(1)] frame_ready_outside [OF B(2) r(1) l(9) c(2,3)] assms(1) by (simp add: both_def)
qed

lemma both_other:
  assumes "both E L fd0 fd1 s v"
  shows "reads fd0 (c0 L) v v' \<Longrightarrow> reading v' fd1 (c1 L) e cur ls = reading v fd1 (c1 L) e cur ls"
    "reads fd1 (c1 L) v v' \<Longrightarrow> reading v' fd0 (c0 L) e cur ls = reading v fd0 (c0 L) e cur ls"
    "reads fd0 (c0 L) v v' \<Longrightarrow> umem v' (c1 L) = umem v (c1 L)" "reads fd1 (c1 L) v v' \<Longrightarrow> umem v' (c0 L) = umem v (c0 L)"
proof -
  have d: "c0 L \<noteq> c1 L" "nat fd0 \<noteq> nat fd1" using assms locals_differ by (auto simp: both_def)
  show "reading v' fd1 (c1 L) e cur ls = reading v fd1 (c1 L) e cur ls" "umem v' (c1 L) = umem v (c1 L)" if "reads fd0 (c0 L) v v'"
    using that d by (auto simp: reads_def outside_one intro!: reading_cong)
  show "reading v' fd0 (c0 L) e cur ls = reading v fd0 (c0 L) e cur ls" "umem v' (c0 L) = umem v (c0 L)" if "reads fd1 (c1 L) v v'"
    using that d by (auto simp: reads_def outside_one intro!: reading_cong)
qed

definition other_fds :: "int \<Rightarrow> int \<Rightarrow> uview \<Rightarrow> uview \<Rightarrow> bool" where
  "other_fds fd0 fd1 v v' \<longleftrightarrow> (\<forall>i. i \<noteq> nat fd0 \<and> i \<noteq> nat fd1 \<longrightarrow> ufds v' i = ufds v i)"

lemma other_fds_reads: "reads fd0 c v v' \<Longrightarrow> other_fds fd0 fd1 v v'" "reads fd1 c v v' \<Longrightarrow> other_fds fd0 fd1 v v'"
  by (auto simp: reads_def other_fds_def)

lemma other_fds_trans: "other_fds fd0 fd1 v v' \<Longrightarrow> other_fds fd0 fd1 v' v'' \<Longrightarrow> other_fds fd0 fd1 v v''"
  by (simp add: other_fds_def)

context user_screen
begin

text \<open>The two reads of a column.\<close>

lemma read_both:
  assumes w: "inv w" "both E L fd0 fd1 s (view w)"
    and r: "reading (view w) fd0 (c0 L) e0 cur0 ls0" "reading (view w) fd1 (c1 L) e1 cur1 ls1"
  shows "\<exists>w1 e0' w2 e1'. read_frame os fd0 (c0 L) e0 w = Some (w1, e0') \<and> read_frame os fd1 (c1 L) e1 w1 = Some (w2, e1') \<and> inv w2 \<and>
    both E L fd0 fd1 s (view w2) \<and> other_fds fd0 fd1 (view w) (view w2) \<and>
    reading (view w2) fd0 (c0 L) e0' (advance cur0) ls0 \<and> reading (view w2) fd1 (c1 L) e1' (advance cur1) ls1 \<and>
    umem (view w2) (c0 L) = head_byte (line cur0) \<and> umem (view w2) (c1 L) = head_byte (line cur1)"
proof -
  have B: "locals_layout E L" "2 \<le> fd0" "fd0 < 8" "2 \<le> fd1" "fd1 < 8" using w(2) by (simp_all add: both_def)
  note l = locals_layoutD [OF B(1)]
  from read_frame_ok [OF w(1) B(2,3) l(7) r(1)] obtain w1 e0' where w1: "read_frame os fd0 (c0 L) e0 w = Some (w1, e0')" "inv w1"
    "reads fd0 (c0 L) (view w) (view w1)" "reading (view w1) fd0 (c0 L) e0' (advance cur0) ls0" "umem (view w1) (c0 L) = head_byte (line cur0)" by blast
  have b1: "both E L fd0 fd1 s (view w1)" by (rule both_reads [OF w(2) w1(3)]) simp
  have "reading (view w1) fd1 (c1 L) e1 cur1 ls1" using r(2) both_other(1) [OF w(2) w1(3)] by simp
  from read_frame_ok [OF w1(2) B(4,5) l(8) this] obtain w2 e1' where w2: "read_frame os fd1 (c1 L) e1 w1 = Some (w2, e1')" "inv w2"
    "reads fd1 (c1 L) (view w1) (view w2)" "reading (view w2) fd1 (c1 L) e1' (advance cur1) ls1" "umem (view w2) (c1 L) = head_byte (line cur1)" by blast
  have "both E L fd0 fd1 s (view w2)" by (rule both_reads [OF b1 w2(3)]) simp
  then show ?thesis
    using w1 w2 both_other(2,4) [OF b1 w2(3)] other_fds_trans [OF other_fds_reads(1) [OF w1(3)] other_fds_reads(2) [OF w2(3)]] by auto
qed

lemma frame_cols_ok:
  assumes "inv w" "both E L fd0 fd1 s (view w)"
    "reading (view w) fd0 (c0 L) e0 cur0 ls0" "reading (view w) fd1 (c1 L) e1 cur1 ls1"
    "\<forall>x\<in>set (row_cells row col (line cur0) (line cur1)). location x \<noteq> 0"
  shows "\<exists>w' e0' e1'. frame_cols os E L fd0 fd1 row col e0 e1 w = Some (w', e0', e1') \<and> inv w' \<and>
    both E L fd0 fd1 (fold show_add (row_cells row col (line cur0) (line cur1)) s) (view w') \<and> other_fds fd0 fd1 (view w) (view w') \<and>
    reading (view w') fd0 (c0 L) e0' None ls0 \<and> reading (view w') fd1 (c1 L) e1' None ls1"
  using assms
proof (induction "length (line cur0) + length (line cur1)" arbitrary: w s col e0 e1 cur0 cur1 rule: less_induct)
  case less
  from read_both [OF less.prems(1-4)] obtain w1 e0' w2 e1' where
    r: "read_frame os fd0 (c0 L) e0 w = Some (w1, e0')" "read_frame os fd1 (c1 L) e1 w1 = Some (w2, e1')"
    and w2: "inv w2" "both E L fd0 fd1 s (view w2)" "other_fds fd0 fd1 (view w) (view w2)"
      "reading (view w2) fd0 (c0 L) e0' (advance cur0) ls0" "reading (view w2) fd1 (c1 L) e1' (advance cur1) ls1"
      "umem (view w2) (c0 L) = head_byte (line cur0)" "umem (view w2) (c1 L) = head_byte (line cur1)" by blast
  have B: "showing E s (view w2)" "frame_ready L (view w2)" "locals_layout E L" using w2(2) by (simp_all add: both_def)
  note l = locals_layoutD [OF B(3)]
  have t: "head_byte (line cur0) = 10 \<longleftrightarrow> line cur0 = []" "head_byte (line cur1) = 10 \<longleftrightarrow> line cur1 = []"
    using reading_line [OF less.prems(3)] reading_line [OF less.prems(4)] by (auto simp: head_byte_def split: list.splits)
  have ld: "os_load os w2 (c0 L) = head_byte (line cur0)" "os_load os w2 (c1 L) = head_byte (line cur1)"
    using load [OF w2(1) l(7)] load [OF w2(1) l(8)] w2(6,7) by simp_all
  show ?case
  proof (cases "line cur0 = [] \<and> line cur1 = []")
    case True
    then have "frame_cols os E L fd0 fd1 row col e0 e1 w = Some (w2, e0', e1')" by (subst frame_cols.simps) (simp add: r ld head_byte_def)
    then show ?thesis using True w2 by (simp add: advance_def)
  next
    case False
    let ?x = "cell row col (head_byte (line cur0)) (head_byte (line cur1))" and ?m = "length (line cur0) + length (line cur1)"
    have rc: "row_cells row col (line cur0) (line cur1) = ?x @ row_cells row (col + 1) (line (advance cur0)) (line (advance cur1))"
      using False row_cells_step by simp
    have x: "\<forall>x\<in>set ?x. location x \<noteq> 0" "\<forall>x\<in>set (row_cells row (col + 1) (line (advance cur0)) (line (advance cur1))). location x \<noteq> 0"
      using less.prems(5) unfolding rc by auto
    from draw_cell_ok [OF B(3) w2(1) B(1,2) w2(6,7) x(1)] obtain w3 where w3: "draw_cell os E L row col w2 = Some w3" "inv w3"
      "showing E (fold show_add ?x s) (view w3)" "frame_ready L (view w3)" "ufds (view w3) = ufds (view w2)"
      "umem (view w3) (c0 L) = head_byte (line cur0)" "umem (view w3) (c1 L) = head_byte (line cur1)" by blast
    have b3: "both E L fd0 fd1 (fold show_add ?x s) (view w3)" using w2(2) w3(3,4) by (simp add: both_def)
    have r3: "reading (view w3) fd0 (c0 L) e0' (advance cur0) ls0" "reading (view w3) fd1 (c1 L) e1' (advance cur1) ls1"
      using w2(4-7) w3(5-7) by (simp_all cong: reading_cong add: reading_cong [of "view w3" _ "view w2"])
    have "length (line (advance cur0)) + length (line (advance cur1)) < ?m" using False by (cases "line cur0"; cases "line cur1") simp_all
    from less.hyps [OF this w3(2) b3 r3 x(2)] obtain w' e0'' e1'' where
      w': "frame_cols os E L fd0 fd1 row (col + 1) e0' e1' w3 = Some (w', e0'', e1'')" "inv w'"
      "both E L fd0 fd1 (fold show_add (row_cells row (col + 1) (line (advance cur0)) (line (advance cur1))) (fold show_add ?x s)) (view w')"
      "other_fds fd0 fd1 (view w3) (view w')" "reading (view w') fd0 (c0 L) e0'' None ls0" "reading (view w') fd1 (c1 L) e1'' None ls1" by blast
    have "frame_cols os E L fd0 fd1 row col e0 e1 w = Some (w', e0'', e1'')"
      using False w3(1) w'(1) by (subst frame_cols.simps) (auto simp: r ld t)
    moreover have "other_fds fd0 fd1 (view w) (view w')" using w2(3) w'(4) by (simp add: other_fds_def w3(5))
    ultimately show ?thesis using w'(2,3,5,6) by (simp add: rc)
  qed
qed

end

text \<open>At the head of a row, with the lines \<open>ls\<close> still to come.\<close>

definition row_head :: "uview \<Rightarrow> int \<Rightarrow> u32 \<Rightarrow> bool \<Rightarrow> u8 list list \<Rightarrow> bool" where
  "row_head v fd c eof ls \<longleftrightarrow> (if ls = [] then reading v fd c eof None [] else reading v fd c eof (Some (hd ls)) (tl ls))"

lemma row_head_eof: "row_head v fd c eof ls \<Longrightarrow> eof \<longleftrightarrow> ls = []"
  by (auto simp: row_head_def reading_def split: if_splits)

lemma row_head_reading:
  assumes "row_head v fd c eof ls"
  obtains cur where "reading v fd c eof cur (tl ls)" "line cur = first_line ls"
  using assms by (cases ls) (auto simp: row_head_def line_def first_line_def)

context user_screen
begin

lemma end_both:
  assumes w: "inv w" "both E L fd0 fd1 s (view w)"
    and r: "reading (view w) fd0 (c0 L) e0 None ls0" "reading (view w) fd1 (c1 L) e1 None ls1"
  shows "\<exists>w1 w2. end_row os fd0 (c0 L) e0 w = Some w1 \<and> end_row os fd1 (c1 L) e1 w1 = Some w2 \<and> inv w2 \<and>
    both E L fd0 fd1 s (view w2) \<and> other_fds fd0 fd1 (view w) (view w2) \<and>
    row_head (view w2) fd0 (c0 L) e0 ls0 \<and> row_head (view w2) fd1 (c1 L) e1 ls1"
proof -
  have B: "locals_layout E L" "2 \<le> fd0" "fd0 < 8" "2 \<le> fd1" "fd1 < 8" using w(2) by (simp_all add: both_def)
  note l = locals_layoutD [OF B(1)]
  from end_row_ok [OF w(1) B(2,3) l(7) r(1)] obtain w1 where w1: "end_row os fd0 (c0 L) e0 w = Some w1" "inv w1"
    "reads fd0 (c0 L) (view w) (view w1)" "row_head (view w1) fd0 (c0 L) e0 ls0" unfolding row_head_def by blast
  have b1: "both E L fd0 fd1 s (view w1)" by (rule both_reads [OF w(2) w1(3)]) simp
  have "reading (view w1) fd1 (c1 L) e1 None ls1" using r(2) both_other(1) [OF w(2) w1(3)] by simp
  from end_row_ok [OF w1(2) B(4,5) l(8) this] obtain w2 where w2: "end_row os fd1 (c1 L) e1 w1 = Some w2" "inv w2"
    "reads fd1 (c1 L) (view w1) (view w2)" "row_head (view w2) fd1 (c1 L) e1 ls1" unfolding row_head_def by blast
  have "both E L fd0 fd1 s (view w2)" by (rule both_reads [OF b1 w2(3)]) simp
  moreover have "row_head (view w2) fd0 (c0 L) e0 ls0" using w1(4) both_other(2) [OF b1 w2(3)] by (simp add: row_head_def)
  ultimately show ?thesis
    using w1(1) w2(1,2,4) other_fds_trans [OF other_fds_reads(1) [OF w1(3)] other_fds_reads(2) [OF w2(3)]] by blast
qed

lemma frame_rows_ok:
  assumes "inv w" "both E L fd0 fd1 s (view w)" "row_head (view w) fd0 (c0 L) e0 ls0" "row_head (view w) fd1 (c1 L) e1 ls1"
    "\<forall>x\<in>set (picture row ls0 ls1). location x \<noteq> 0"
  shows "\<exists>w'. frame_rows os E L fd0 fd1 row e0 e1 w = Some w' \<and> inv w' \<and>
    both E L fd0 fd1 (fold show_add (picture row ls0 ls1) s) (view w') \<and> other_fds fd0 fd1 (view w) (view w')"
  using assms
proof (induction "length ls0 + length ls1" arbitrary: w s row e0 e1 ls0 ls1 rule: less_induct)
  case less
  have e: "e0 \<longleftrightarrow> ls0 = []" "e1 \<longleftrightarrow> ls1 = []" using row_head_eof less.prems(3,4) by blast+
  show ?case
  proof (cases "ls0 = [] \<and> ls1 = []")
    case True
    then have "frame_rows os E L fd0 fd1 row e0 e1 w = Some w" using e by (subst frame_rows.simps) simp
    then show ?thesis using True less.prems(1,2) by (simp add: other_fds_def)
  next
    case False
    obtain cur0 where c0: "reading (view w) fd0 (c0 L) e0 cur0 (tl ls0)" "line cur0 = first_line ls0" using row_head_reading [OF less.prems(3)] .
    obtain cur1 where c1: "reading (view w) fd1 (c1 L) e1 cur1 (tl ls1)" "line cur1 = first_line ls1" using row_head_reading [OF less.prems(4)] .
    let ?x = "row_cells row 0 (first_line ls0) (first_line ls1)"
    have pc: "picture row ls0 ls1 = ?x @ picture (row + 1) (tl ls0) (tl ls1)" using False picture_step by blast
    have x: "\<forall>x\<in>set (row_cells row 0 (line cur0) (line cur1)). location x \<noteq> 0" "\<forall>x\<in>set (picture (row + 1) (tl ls0) (tl ls1)). location x \<noteq> 0"
      using less.prems(5) unfolding pc c0(2) c1(2) by auto
    from frame_cols_ok [OF less.prems(1,2) c0(1) c1(1) x(1)] obtain w1 e0' e1' where
      w1: "frame_cols os E L fd0 fd1 row 0 e0 e1 w = Some (w1, e0', e1')" "inv w1" "both E L fd0 fd1 (fold show_add ?x s) (view w1)"
      "other_fds fd0 fd1 (view w) (view w1)" "reading (view w1) fd0 (c0 L) e0' None (tl ls0)" "reading (view w1) fd1 (c1 L) e1' None (tl ls1)"
      unfolding c0(2) c1(2) by blast
    from end_both [OF w1(2,3,5,6)] obtain w2 w3 where
      w3: "end_row os fd0 (c0 L) e0' w1 = Some w2" "end_row os fd1 (c1 L) e1' w2 = Some w3" "inv w3" "both E L fd0 fd1 (fold show_add ?x s) (view w3)"
      "other_fds fd0 fd1 (view w1) (view w3)" "row_head (view w3) fd0 (c0 L) e0' (tl ls0)" "row_head (view w3) fd1 (c1 L) e1' (tl ls1)" by blast
    have "length (tl ls0) + length (tl ls1) < length ls0 + length ls1" using False by (cases ls0; cases ls1) simp_all
    from less.hyps [OF this w3(3,4,6,7) x(2)] obtain w' where w': "frame_rows os E L fd0 fd1 (row + 1) e0' e1' w3 = Some w'" "inv w'"
      "both E L fd0 fd1 (fold show_add (picture (row + 1) (tl ls0) (tl ls1)) (fold show_add ?x s)) (view w')" "other_fds fd0 fd1 (view w3) (view w')"
      by blast
    have "frame_rows os E L fd0 fd1 row e0 e1 w = Some w'" using False e w1(1) w3(1,2) w'(1) by (subst frame_rows.simps) simp
    moreover have "other_fds fd0 fd1 (view w) (view w')" using other_fds_trans w1(4) w3(5) w'(4) by blast
    ultimately show ?thesis using w'(2,3) by (simp add: pc)
  qed
qed

end

section \<open>The names of the files\<close>

definition names_of :: "(string \<Rightarrow> u32) \<Rightarrow> fish_locals \<Rightarrow> (u32 \<times> string) list" where
  "names_of lit L = [(lit ''rtc'', ''rtc''), (file0 L, ''frame0.txt''), (file1 L, ''frame1.txt'')]"

definition names_layout :: "fish_vars \<Rightarrow> (string \<Rightarrow> u32) \<Rightarrow> fish_locals \<Rightarrow> bool" where
  "names_layout E lit L \<longleftrightarrow> (\<forall>(a, s)\<in>set (names_of lit L). apart_from E a (length s + 1) \<and>
     (\<forall>(b, n)\<in>set (locals_of L). disjoint_bufs a (length s + 1) b n))"

definition names_in :: "(string \<Rightarrow> u32) \<Rightarrow> fish_locals \<Rightarrow> (u32 \<Rightarrow> u8) \<Rightarrow> bool" where
  "names_in lit L m \<longleftrightarrow> (\<forall>(a, s)\<in>set (names_of lit L). cstring m a (chars s))"

lemma names_outside:
  assumes "names_in lit L m" "names_layout E lit L" "outside b n m m'" "ubuf b n"
    "(b, n) \<in> set (locals_of L) \<or> b = blink_array E \<and> n = 32000 \<or> b = vmem_base_addr E \<and> n = 4"
  shows "names_in lit L m'"
  unfolding names_in_def
proof (intro ballI, clarify)
  fix a s assume as: "(a, s) \<in> set (names_of lit L)"
  have c: "cstring m a (chars s)" using assms(1) as by (auto simp: names_in_def)
  have l: "apart_from E a (length s + 1)" "\<forall>(b, n)\<in>set (locals_of L). disjoint_bufs a (length s + 1) b n"
    using assms(2) as by (auto simp: names_layout_def)
  have "disjoint_bufs a (length s + 1) b n" using assms(5) l by (auto simp: apart_from_def)
  then show "cstring m' a (chars s)"
    using cstring_outside [OF c _ assms(4,3)] l(1) by (auto simp: apart_from_def disjoint_bufs_def)
qed

lemma names_inD:
  assumes "names_in lit L m" "names_layout E lit L" "(a, s) \<in> set (names_of lit L)"
  shows "cstring m a (chars s)" "ubuf a (length (chars s) + 1)"
  using assms by (auto simp: names_in_def names_layout_def apart_from_def)

lemma first_closedI: "i < 8 \<Longrightarrow> f i = Fd_closed \<Longrightarrow> (\<And>j. j < i \<Longrightarrow> f j \<noteq> Fd_closed) \<Longrightarrow> first_closed f = i"
proof -
  assume i: "i < 8" "f i = Fd_closed" "\<And>j. j < i \<Longrightarrow> f j \<noteq> Fd_closed"
  have "find (\<lambda>i. f i = Fd_closed) [0..<8] = Some i" unfolding find_Some_iff using i by (intro exI [of _ i]) simp
  then show ?thesis by (simp add: first_closed_def)
qed

context user_os
begin

lemma open_name:
  assumes "inv w" "names_in lit L (umem (view w))" "names_layout E lit L" "(a, s) \<in> set (names_of lit L)"
    and e: "find (\<lambda>e. uf_name e = chars s) img = Some e" "uf_type e \<noteq> 1" and i: "first_closed (ufds (view w)) = i" "i \<noteq> 8"
  shows "\<exists>w'. ece391_open os a w = Some (w', int i) \<and> inv w' \<and> view w' = set_fd i (fd_for e) (view w)"
proof -
  note n = names_inD [OF assms(2-4)]
  have "take 32 (chars s) = chars s" using assms(4) by (auto simp: names_of_def)
  then have "u_open img a (view w) = (set_fd i (fd_for e) (view w), int i)"
    using e i name_at_cstring [OF n(1)] by (simp add: u_open_def set_fd_def Let_def)
  then show ?thesis using open_stub [OF assms(1) n] by blast
qed

lemma store_byte:
  assumes "inv w" "ubuf a 1"
  shows "inv (os_store os w a c)" "outside a 1 (umem (view w)) (umem (view (os_store os w a c)))" "umem (view (os_store os w a c)) a = c"
    "uout (view (os_store os w a c)) = uout (view w)" "ufds (view (os_store os w a c)) = ufds (view w)"
  using store [OF assms, of c] by (simp_all add: outside_one)

lemma fill_lengths:
  fixes m n :: u16
  assumes "inv w" "ubuf a 16"
  defines "w' \<equiv> os_store_short os (os_store_short os w (a + ON_LENGTH) m) (a + OFF_LENGTH) n"
  shows "inv w'" "upd_struct a (\<lambda>s. s\<lparr>on_length := m, off_length := n\<rparr>) (view w) (view w')"
proof -
  note s1 = struct_stores(5,6) [OF assms(1,2), of m]
  note s2 = struct_stores(7,8) [OF s1(1) assms(2), of n]
  show "inv w'" unfolding w'_def by (rule s2(1))
  show "upd_struct a (\<lambda>s. s\<lparr>on_length := m, off_length := n\<rparr>) (view w) (view w')"
    unfolding w'_def using upd_struct_trans [OF s1(2) s2(2)] by (simp add: o_def)
qed

end

context user_screen
begin

lemma frame_init:
  assumes w: "inv w" "showing E s (view w)" "names_in lit L (umem (view w))" and lay: "locals_layout E L" "names_layout E lit L"
  defines "w1 \<equiv> os_store os (os_store os w (c0 L) 48) (c1 L) 48"
  defines "w2 \<equiv> os_store_short os (os_store_short os w1 (frame_blink L + ON_LENGTH) 15) (frame_blink L + OFF_LENGTH) 15"
  shows "inv w2" "showing E s (view w2)" "names_in lit L (umem (view w2))" "frame_ready L (view w2)" "ufds (view w2) = ufds (view w)"
    "umem (view w2) (c0 L) = 48" "umem (view w2) (c1 L) = 48"
proof -
  note l = locals_layoutD [OF lay(1)]
  define w0 where "w0 = os_store os w (c0 L) 48"
  note w0 = store_byte [OF w(1) l(7), of 48, folded w0_def]
  have w1d: "w1 = os_store os w0 (c1 L) 48" by (simp add: w1_def w0_def)
  note w1 = store_byte [OF w0(1) l(8), of 48, folded w1d]
  note w2 = fill_lengths [OF w1(1) l(9), of 15 15, folded w2_def]
  note U = upd_structD [OF w2(2)]
  have s0: "showing E s (view w0)" by (rule showing_outside [OF w(2) w0(2,4) l(2)])
  have s1: "showing E s (view w1)" by (rule showing_outside [OF s0 w1(2,4) l(3)])
  show "inv w2" by (rule w2(1))
  show "showing E s (view w2)" by (rule showing_outside [OF s1 U(3) umem_only(1) [OF U(1)] l(4)])
  have "names_in lit L (umem (view w0))" by (rule names_outside [OF w(3) lay(2) w0(2) l(7)]) (simp add: locals_of_def)
  then have "names_in lit L (umem (view w1))" by (rule names_outside [OF _ lay(2) w1(2) l(8)]) (simp add: locals_of_def)
  then show "names_in lit L (umem (view w2))" by (rule names_outside [OF _ lay(2) U(3) l(9)]) (simp add: locals_of_def)
  show "frame_ready L (view w2)" by (simp add: frame_ready_def U(2))
  show "ufds (view w2) = ufds (view w)" using umem_only(2) [OF U(1)] w1(5) w0(5) by simp
  have "umem (view w1) (c0 L) = 48" using w1(2) w0(3) locals_differ [OF lay(1)] by (simp add: outside_one)
  then show "umem (view w2) (c0 L) = 48" "umem (view w2) (c1 L) = 48"
    using upd_struct_byte [OF w2(2) l(9,7,13)] upd_struct_byte [OF w2(2) l(9,8,14)] w1(3) by simp_all
qed

text \<open>The two pictures are added cell by cell; the descriptors 3 and 4 serve the files.\<close>

lemma add_frames_ok:
  assumes w: "inv w" "showing E s (view w)" "names_in lit L (umem (view w))" and lay: "locals_layout E L" "names_layout E lit L"
    and f: "find (\<lambda>e. uf_name e = chars ''frame0.txt'') img = Some e0" "uf_type e0 = 2"
      "find (\<lambda>e. uf_name e = chars ''frame1.txt'') img = Some e1" "uf_type e1 = 2"
    and fds: "ufds (view w) 2 \<noteq> Fd_closed" "ufds (view w) 3 = Fd_closed" "ufds (view w) 4 = Fd_closed"
    and loc: "\<forall>x\<in>set (picture 0 (split_lines (uf_data e0)) (split_lines (uf_data e1))). location x \<noteq> 0"
  shows "\<exists>w'. add_frames os E L (file0 L) (file1 L) rtc_fd w = Some w' \<and> inv w' \<and> ufds (view w') 2 = ufds (view w) 2 \<and>
    showing E (fold show_add (picture 0 (split_lines (uf_data e0)) (split_lines (uf_data e1))) s) (view w')"
proof -
  define w1 where "w1 = os_store_short os (os_store_short os (os_store os (os_store os w (c0 L) 48) (c1 L) 48) (frame_blink L + ON_LENGTH) 15)
    (frame_blink L + OFF_LENGTH) 15"
  note w1 = frame_init [OF w lay, folded w1_def]
  have st: "ufds (view w) 0 \<noteq> Fd_closed" "ufds (view w) 1 \<noteq> Fd_closed" using view [OF w(1)] by (simp_all add: view_ok_def)
  have "first_closed (ufds (view w1)) = 3"
    unfolding w1(5) by (rule first_closedI) (use fds st in \<open>auto simp: numeral_eq_Suc less_Suc_eq\<close>)
  with open_name [OF w1(1,3) lay(2) _ f(1)] f(2) obtain w2 where
    w2: "ece391_open os (file0 L) w1 = Some (w2, 3)" "inv w2" "view w2 = set_fd 3 (Fd_regular (uf_data e0) 0) (view w1)"
    by (auto simp: names_of_def fd_for_def)
  have n2: "names_in lit L (umem (view w2))" using w1(3) by (simp add: w2(3) set_fd_def)
  have "first_closed (ufds (view w2)) = 4"
    by (rule first_closedI) (use fds st w1(5) in \<open>auto simp: w2(3) set_fd_def numeral_eq_Suc less_Suc_eq\<close>)
  with open_name [OF w2(2) n2 lay(2) _ f(3)] f(4) obtain w3 where
    w3: "ece391_open os (file1 L) w2 = Some (w3, 4)" "inv w3" "view w3 = set_fd 4 (Fd_regular (uf_data e1) 0) (view w2)"
    by (auto simp: names_of_def fd_for_def)
  have v3: "umem (view w3) = umem (view w1)" "uout (view w3) = uout (view w1)" "ufds (view w3) 2 = ufds (view w) 2"
    "ufds (view w3) 3 = Fd_regular (uf_data e0) 0" "ufds (view w3) 4 = Fd_regular (uf_data e1) 0"
    by (simp_all add: w3(3) w2(3) set_fd_def w1(5))
  have "both E L 3 4 s (view w3)"
    using w1(2,4) lay(1) by (simp add: both_def showing_def frame_ready_def blinks_def blink_list_def v3)
  moreover have "row_head (view w3) 3 (c0 L) False (split_lines (uf_data e0))" "row_head (view w3) 4 (c1 L) False (split_lines (uf_data e1))"
    by (simp_all add: row_head_def reading_def lines_from_def v3 w1(6,7))
  ultimately obtain w' where w': "frame_rows os E L 3 4 0 False False w3 = Some w'" "inv w'"
    "both E L 3 4 (fold show_add (picture 0 (split_lines (uf_data e0)) (split_lines (uf_data e1))) s) (view w')" "other_fds 3 4 (view w3) (view w')"
    using frame_rows_ok [OF w3(2) _ _ _ loc] by blast
  have "add_frames os E L (file0 L) (file1 L) rtc_fd w = Some w'"
    using w2(1) w3(1) w'(1) by (simp add: add_frames_def w1_def Let_def)
  then show ?thesis using w'(2-4) v3(3) by (auto simp: both_def other_fds_def)
qed

end

section \<open>The program as a whole\<close>

lemma mbytes_zero:
  assumes "k + n \<le> N" "N < 2 ^ 32"
  shows "mbytes (put_bytes a (replicate N 0) m) (a + of_nat k) n = replicate n 0"
proof (rule nth_equalityI)
  fix i assume "i < length (mbytes (put_bytes a (replicate N 0) m) (a + of_nat k) n)"
  then have i: "i < n" by simp
  then have "put_bytes a (replicate N 0) m (a + of_nat (k + i)) = 0"
    using put_bytes_in [of "k + i" "replicate N 0" a m] assms by (simp del: of_nat_add)
  then show "mbytes (put_bytes a (replicate N 0) m) (a + of_nat k) n ! i = replicate n 0 ! i" using i by (simp add: add.assoc)
qed simp

context user_os
begin

lemma vidmap_ok:
  assumes "inv w" "ubuf a 4"
  shows "\<exists>w'. ece391_vidmap os a w = Some (w', 0) \<and> inv w' \<and>
    view w' = set_mem a [byte_of VIDEO_USER 0, byte_of VIDEO_USER 1, byte_of VIDEO_USER 2, byte_of VIDEO_USER 3] (view w)"
proof -
  have "sint a = int (unat a)" using sint_of_nat_len [of "unat a"] assms(2) by (simp add: ubuf_def)
  moreover have "0x8000000 \<le> int (unat a)" "int (unat a) < 0x8400000" using assms(2) unfolding ubuf_def by linarith+
  ultimately have "0x8000000 \<le> sint a" "sint a < 0x8400000" by simp_all
  then show ?thesis
    unfolding ece391_vidmap_def using assms(2)
    by (intro stub [OF assms(1)]) (simp_all add: call_ok_def u_call_def u_vidmap_def USER_PAGE_START_def USER_PAGE_END_def)
qed

end

context user_screen
begin

text \<open>An empty list on the window of \<^verbatim>\<open>vidmap\<close>: the array is cleared, the head of the list is 0 from the start.\<close>

lemma fish_init:
  assumes w: "inv w" "names_in lit L (umem (view w))" and lay: "fish_layout E" "names_layout E lit L"
    and h: "int_at (umem (view w)) (mp1_list_head E) = 0"
  defines "w1 \<equiv> ece391_memset os (blink_array E) 0 (STRUCT_SIZE * 80 * 25) w"
  shows "\<exists>w2. mp1_set_video_mode os E w1 = Some (w2, VIDEO_USER) \<and> inv w2 \<and> showing E ([], uout (view w)) (view w2) \<and>
    names_in lit L (umem (view w2)) \<and> ufds (view w2) = ufds (view w)"
proof -
  note l = fish_layoutD [OF lay(1)]
  let ?z = "put_bytes (blink_array E) (replicate 32000 0) (umem (view w))"
  have w1: "inv w1" "view w1 = set_mem (blink_array E) (replicate 32000 0) (view w)"
    using memset_ok [OF w(1) l(1), of 0] by (simp_all add: w1_def STRUCT_SIZE_def)
  let ?v = "[byte_of VIDEO_USER 0, byte_of VIDEO_USER 1, byte_of VIDEO_USER 2, byte_of VIDEO_USER 3]"
  obtain w2 where w2: "ece391_vidmap os (vmem_base_addr E) w1 = Some (w2, 0)" "inv w2" "view w2 = set_mem (vmem_base_addr E) ?v (view w1)"
    using vidmap_ok [OF w1(1) l(3)] by blast
  have m2: "umem (view w2) = put_bytes (vmem_base_addr E) ?v ?z" by (simp add: w2(3) w1(2) set_mem_def del: put_bytes_simps)
  have o1: "outside (blink_array E) 32000 (umem (view w)) ?z" by (rule outside_put) simp
  have o2: "outside (vmem_base_addr E) 4 ?z (umem (view w2))" unfolding m2 by (rule outside_put) simp
  have vb: "int_at (umem (view w2)) (vmem_base_addr E) = VIDEO_USER" unfolding m2 by (rule int_at_put)
  have hd: "int_at (umem (view w2)) (mp1_list_head E) = 0"
    using int_at_far [OF o1 l(2,1) disjoint_sym [OF l(6)]] int_at_far [OF o2 l(2,3,10)] h by simp
  have "location (slots E (umem (view w2)) i) = 0" if "i < 2000" for i
  proof -
    note s = blink_slot_facts [OF l(1) that]
    have "slots E (umem (view w2)) i = slots E ?z i"
      by (rule struct_at_far [OF o2 s(1) l(3)]) (rule slot_disjoint(2) [OF l(1) that l(7)])
    also have "\<dots> = blink_of (replicate 16 0)"
      unfolding struct_at_def blink_slot_def by (subst mbytes_zero) (use that in \<open>simp_all add: STRUCT_SIZE_def\<close>)
    finally show ?thesis by (simp add: blink_of_def short_of_def)
  qed
  then have "blinks E (view w2) []" using lay(1) vb hd by (simp add: blinks_def)
  then have "showing E ([], uout (view w)) (view w2)" by (auto simp: showing_def blink_list_def w2(3) w1(2) set_mem_def)
  moreover have "names_in lit L (umem (view w2))"
    by (rule names_outside [OF names_outside [OF w(2) lay(2) o1 l(1)] lay(2) o2 l(3)]) simp_all
  moreover have "mp1_set_video_mode os E w1 = Some (w2, VIDEO_USER)"
    using w2(1) load_int_ok [OF w2(2) l(3)] vb by (simp add: mp1_set_video_mode_def)
  ultimately show ?thesis using w2(2) by (auto simp: w2(3) w1(2) set_mem_def)
qed

text \<open>The clock is set to 32 Hz.\<close>

lemma set_rate_ok:
  assumes w: "inv w" "showing E s (view w)" "ufds (view w) 2 = Fd_clock" and a: "apart_from E a 4"
  defines "w1 \<equiv> os_store_int os w a 32"
  shows "\<exists>w2 r. ece391_write os 2 a 4 w1 = Some (w2, r) \<and> inv (os_store_int os w2 a (word_of_int r)) \<and>
    showing E s (view (os_store_int os w2 a (word_of_int r))) \<and> ufds (view (os_store_int os w2 a (word_of_int r))) 2 = Fd_clock"
proof -
  have u: "ubuf a 4" using a by (simp add: apart_from_def)
  have keep: "showing E s (view (os_store_int os x a v)) \<and> ufds (view (os_store_int os x a v)) 2 = Fd_clock"
    if "inv x" "showing E s (view x)" "ufds (view x) 2 = Fd_clock" for x v
  proof -
    note S = store_int_ok(2) [OF that(1) u, of v]
    have "outside a 4 (umem (view x)) (umem (view (os_store_int os x a v)))" by (simp add: S set_mem_def outside_put del: put_bytes_simps)
    moreover have "uout (view (os_store_int os x a v)) = uout (view x)" by (simp add: S set_mem_def)
    ultimately show ?thesis using showing_outside [OF that(2) _ _ a] that(3) by (auto simp: S set_mem_def)
  qed
  have w1: "inv w1" "showing E s (view w1)" "ufds (view w1) 2 = Fd_clock"
    using store_int_ok(1) [OF w(1) u] keep [OF w] by (simp_all add: w1_def)
  obtain r where "u_write 2 a 4 (view w1) = (view w1, r)" using w1(3) by (simp add: u_write_def)
  then obtain w2 where w2: "ece391_write os 2 a 4 w1 = Some (w2, r)" "inv w2" "view w2 = view w1"
    using write_stub [OF w1(1), of 2 a 4] u w1(3) by (auto simp: write_ok_def)
  then show ?thesis using store_int_ok(1) [OF w2(2) u] keep [OF w2(2)] w1(2,3) by auto
qed

text \<open>The mark that the program adds, synchronises and removes.\<close>

lemma mark_ok:
  assumes w: "inv w" "showing E s (view w)" and a: "apart_from E a 16"
  defines "w1 \<equiv> os_store os (os_store os w (a + ON_CHAR) 73) (a + OFF_CHAR) 77"
  defines "w2 \<equiv> os_store_short os (os_store_short os w1 (a + ON_LENGTH) 7) (a + OFF_LENGTH) 6"
  defines "w3 \<equiv> os_store_short os w2 (a + LOCATION) 540"
  shows "\<exists>w' r. mp1_ioctl os E a RTC_ADD w3 = Some (w', r) \<and> inv w' \<and> showing E (show_add main_mark s) (view w') \<and> ufds (view w') = ufds (view w)"
proof -
  have u: "ubuf a 16" using a by (simp add: apart_from_def)
  note s1 = struct_char_stores(1,2) [OF w(1) u, of 73]
  note s2 = struct_char_stores(3,4) [OF s1(1) u, of 77, folded w1_def]
  note s3 = fill_lengths [OF s2(1) u, where m = 7 and n = 6, folded w2_def]
  note s4 = struct_char_stores(5,6) [OF s3(1) u, of 540, folded w3_def]
  note U = upd_structD [OF upd_struct_trans [OF upd_struct_trans [OF upd_struct_trans [OF s1(2) s2(2)] s3(2)] s4(2)]]
  define b where "b = struct_at (umem (view w3)) a"
  have b: "blink.truncate b = main_mark\<lparr>countdown := countdown b, status := status b\<rparr>" "location b \<noteq> 0"
    by (simp_all add: b_def U(2) main_mark_def blink.truncate_def)
  have "showing E s (view w3)" by (rule showing_outside [OF w(2) U(3) umem_only(1) [OF U(1)] a])
  from show_add_ok [OF s4(1) this a b_def [symmetric] b(2)] obtain w' r where w': "mp1_ioctl os E a RTC_ADD w3 = Some (w', r)" "inv w'"
    "showing E (show_add (blink.truncate b) s) (view w')" "draws (view w3) (view w')" by blast
  then show ?thesis using show_add_fresh [OF b(1)] drawsD(1) [OF w'(4)] umem_only(2) [OF U(1)] by auto
qed

text \<open>
  The program ends with 0, and the screen is what the two pictures, blinking for four times 100 ticks, and the mark
  leave there.
\<close>

lemma fish_ok:
  assumes w: "inv w" "names_in lit L (umem (view w))" and lay: "locals_layout E L" "names_layout E lit L"
    and h: "int_at (umem (view w)) (mp1_list_head E) = 0"
    and r: "find (\<lambda>e. uf_name e = chars ''rtc'') img = Some e" "uf_type e = 0"
    and f: "find (\<lambda>e. uf_name e = chars ''frame0.txt'') img = Some e0" "uf_type e0 = 2"
      "find (\<lambda>e. uf_name e = chars ''frame1.txt'') img = Some e1" "uf_type e1 = 2"
    and fds: "ufds (view w) 2 = Fd_closed" "ufds (view w) 3 = Fd_closed" "ufds (view w) 4 = Fd_closed"
    and loc: "\<forall>x\<in>set (picture 0 (split_lines (uf_data e0)) (split_lines (uf_data e1))). location x \<noteq> 0"
  shows "\<exists>w'. fish_main os lit E L w = Some (w', 0) \<and> inv w' \<and> uout (view w') = snd (fish_show (uf_data e0) (uf_data e1) (uout (view w)))"
proof -
  note l = locals_layoutD [OF lay(1)]
  let ?T = "uout (view w)" and ?p = "picture 0 (split_lines (uf_data e0)) (split_lines (uf_data e1))"
  let ?w0 = "ece391_memset os (blink_array E) 0 (STRUCT_SIZE * 80 * 25) w"
  define s1 where "s1 = fold show_add ?p ([], ?T)"
  define s2 where "s2 = show_add main_mark ((show_tick ^^ WAIT) s1)"
  define s3 where "s3 = show_sync 40 540 ((show_tick ^^ WAIT) s2)"
  define s4 where "s4 = show_remove 540 ((show_tick ^^ WAIT) s3)"
  have fs: "fish_show (uf_data e0) (uf_data e1) ?T = (show_tick ^^ WAIT) s4"
    by (simp add: fish_show_def s1_def s2_def s3_def s4_def Let_def)
  obtain w1 where w1: "mp1_set_video_mode os E ?w0 = Some (w1, VIDEO_USER)" "inv w1" "showing E ([], ?T) (view w1)"
    "names_in lit L (umem (view w1))" "ufds (view w1) = ufds (view w)"
    using fish_init [OF w l(1) lay(2) h] by blast
  have st: "ufds (view w) 0 \<noteq> Fd_closed" "ufds (view w) 1 \<noteq> Fd_closed" using view [OF w(1)] by (simp_all add: view_ok_def)
  have "first_closed (ufds (view w1)) = 2"
    unfolding w1(5) by (rule first_closedI) (use fds st in \<open>auto simp: numeral_eq_Suc less_Suc_eq\<close>)
  with open_name [OF w1(2,4) lay(2) _ r(1)] r(2) obtain w2 where
    w2: "ece391_open os (lit ''rtc'') w1 = Some (w2, 2)" "inv w2" "view w2 = set_fd 2 Fd_clock (view w1)"
    by (auto simp: names_of_def fd_for_def)
  have v2: "showing E ([], ?T) (view w2)" "names_in lit L (umem (view w2))" "ufds (view w2) 2 = Fd_clock"
    "ufds (view w2) 3 = Fd_closed" "ufds (view w2) 4 = Fd_closed"
    using w1(3,4,5) fds by (simp_all add: w2(3) set_fd_def showing_def blinks_def blink_list_def)
  from add_frames_ok [OF w2(2) v2(1,2) lay f _ v2(4,5) loc] v2(3) obtain w3 where
    w3: "add_frames os E L (file0 L) (file1 L) 2 w2 = Some w3" "inv w3" "ufds (view w3) 2 = Fd_clock" "showing E s1 (view w3)"
    by (auto simp: s1_def)
  define w3' where "w3' = os_store_int os w3 (ret_val L) 32"
  obtain w4 a where w4: "ece391_write os 2 (ret_val L) 4 w3' = Some (w4, a)" "inv (os_store_int os w4 (ret_val L) (word_of_int a))"
    "showing E s1 (view (os_store_int os w4 (ret_val L) (word_of_int a)))" "ufds (view (os_store_int os w4 (ret_val L) (word_of_int a))) 2 = Fd_clock"
    using set_rate_ok [OF w3(2,4,3) l(6)] by (auto simp: w3'_def)
  define w5 where "w5 = os_store_int os w4 (ret_val L) (word_of_int a)"
  have tick: "\<exists>y. wait_ticks os E L 2 WAIT x = Some y \<and> inv y \<and> showing E ((show_tick ^^ WAIT) t) (view y) \<and> ufds (view y) 2 = Fd_clock"
    if "inv x" "showing E t (view x)" "ufds (view x) 2 = Fd_clock" for x t
    using wait_ticks_ok [of 2 x E t L WAIT] that by auto
  obtain w6 where w6: "wait_ticks os E L 2 WAIT w5 = Some w6" "inv w6" "showing E ((show_tick ^^ WAIT) s1) (view w6)" "ufds (view w6) 2 = Fd_clock"
    using tick [of w5 s1] w4(2-4) by (auto simp: w5_def)
  define w7 where "w7 = os_store_short os (os_store_short os (os_store_short os (os_store os (os_store os w6 (main_blink L + ON_CHAR) 73)
    (main_blink L + OFF_CHAR) 77) (main_blink L + ON_LENGTH) 7) (main_blink L + OFF_LENGTH) 6) (main_blink L + LOCATION) 540"
  obtain w8 q where w8: "mp1_ioctl os E (main_blink L) RTC_ADD w7 = Some (w8, q)" "inv w8" "showing E s2 (view w8)" "ufds (view w8) 2 = Fd_clock"
    using mark_ok [OF w6(2,3) l(5), folded w7_def] w6(4) by (auto simp: s2_def)
  obtain w9 where w9: "wait_ticks os E L 2 WAIT w8 = Some w9" "inv w9" "showing E ((show_tick ^^ WAIT) s2) (view w9)" "ufds (view w9) 2 = Fd_clock"
    using tick [OF w8(2-4)] by blast
  have c: "ucast (drop_bit 16 (push_bit 16 40 OR 540 :: u32)) = (40 :: u16)" "ucast (push_bit 16 40 OR 540 :: u32) = (540 :: u16)" "ucast (540 :: u32) = (540 :: u16)"
    by simp_all
  obtain w10 q2 where w10: "mp1_ioctl os E (push_bit 16 40 OR 540) RTC_SYNC w9 = Some (w10, q2)" "inv w10" "showing E s3 (view w10)" "draws (view w9) (view w10)"
    using show_sync_ok [OF w9(2,3), of "push_bit 16 40 OR 540", unfolded c] s3_def by blast
  obtain w11 where w11: "wait_ticks os E L 2 WAIT w10 = Some w11" "inv w11" "showing E ((show_tick ^^ WAIT) s3) (view w11)" "ufds (view w11) 2 = Fd_clock"
    using tick [OF w10(2,3)] w9(4) drawsD(1) [OF w10(4)] by auto
  obtain w12 q3 where w12: "mp1_ioctl os E 540 RTC_REMOVE w11 = Some (w12, q3)" "inv w12" "showing E s4 (view w12)" "draws (view w11) (view w12)"
    using show_remove_ok [OF w11(2,3), of 540, unfolded c] s4_def by blast
  obtain w13 where w13: "wait_ticks os E L 2 WAIT w12 = Some w13" "inv w13" "showing E ((show_tick ^^ WAIT) s4) (view w13)" "ufds (view w13) 2 = Fd_clock"
    using tick [OF w12(2,3)] w11(4) drawsD(1) [OF w12(4)] by auto
  obtain w14 where w14: "ece391_close os 2 w13 = Some (w14, 0)" "inv w14" "view w14 = set_fd 2 Fd_closed (view w13)"
    using close_stub [OF w13(2), of 2] w13(4) by (auto simp: u_close_def)
  have "fish_main os lit E L w = Some (w14, 0)"
    unfolding fish_main_def Let_def
    using w1(1) w2(1) w3(1) w4(1) w6(1) w8(1) w9(1) w10(1) w11(1) w12(1) w13(1) w14(1)
    by (simp add: w3'_def [symmetric] w5_def [symmetric] w7_def [symmetric] VIDEO_USER_def)
  moreover have "uout (view w14) = snd (fish_show (uf_data e0) (uf_data e1) ?T)"
    using w13(3) by (auto simp: fs w14(3) set_fd_def showing_def)
  ultimately show ?thesis using w14(2) by blast
qed

end

end
