(* ===== verification/Sample.thy ===== *)
theory Sample
  imports Pit Keyboard
begin

text \<open>
  A concrete machine after boot, on which the properties are instantiated: paging as the kernel
  sets it up, a file system image with the directory, the clock and one small file, under three names, that looks like an executable and whose second line is the word \<^verbatim>\<open>shell\<close>,
  a command line, and one running process.
\<close>

definition sample_program :: "u8 list" where
  "sample_program = [0x7f, 0x45, 0x4c, 0x46, 10] @ map ch ''shell'' @ [10] @ replicate 13 0x20 @ [0x10, 0x80, 0x04, 0x08] @ replicate 12 0x20"

definition sample_entries :: "(string \<times> u8) list" where
  "sample_entries = [(''.'', 1), (''shell'', 2), (''rtc'', 0), (''frame0.txt'', 2), (''frame1.txt'', 2)]"

definition entry_byte :: "nat \<Rightarrow> nat \<Rightarrow> u8" where
  "entry_byte i x = (case sample_entries ! i of (s, t) \<Rightarrow> if x < length s then ch (s ! x) else if x = 32 then t else 0)"

definition sample_image :: "nat \<Rightarrow> u8" where
  "sample_image x =
     (if 64 \<le> x \<and> x < 384 then entry_byte (x div 64 - 1) (x mod 64)
      else if 8192 \<le> x \<and> x < 8232 then sample_program ! (x - 8192)
      else case map_of [(0, 5), (4, 1), (8, 1), (4096, 40)] x of Some b \<Rightarrow> b | None \<Rightarrow> 0)"

definition sample_command :: "u8 list" where
  "sample_command = map ch ''shell -x''"

definition sample_memory :: pmem where
  "sample_memory a =
     (let x = unat a in
      if 0x500000 \<le> x \<and> x < 0x503000 then sample_image (x - 0x500000)
      else if 0x600000 \<le> x \<and> x < 0x600008 then sample_command ! (x - 0x600000) else 0)"

definition sample_paging :: paging where
  "sample_paging = paging_init
     \<lparr>page_dir = unused_pde, page_table = kernel_pte, user_video_page_table = user_pte,
      page_dir_addr = 0x410000, page_table_addr = 0x411000, user_video_page_table_addr = 0x412000,
      cr0 = 0x11, cr3 = 0, cr4 = 0\<rparr>"

definition idle_pcb :: pcb_t where
  "idle_pcb = \<lparr>parent = 0, child = 0, parent_esp = 0, parent_ebp = 0, current_esp = 0, current_ebp = 0,
     pcb_terminal = 0, is_terminal = 0,
     file_array = (\<lambda>i. \<lparr>fd_read = Op_null, fd_write = Op_null, fd_inode = 0, file_position = 0, flags = 0\<rparr>),
     available = (\<lambda>i. 0), pcb_pid = 0\<rparr>"

definition sample0 :: proc where
  "sample0 =
     \<lparr>phys = sample_memory, pg = sample_paging, iflag = True, io = [],
      screen_x = 0, screen_y = 0, screen_x_multi = (\<lambda>t. 3), screen_y_multi = (\<lambda>t. 4),
      screen_x_before_input = 0, screen_y_before_input = 0, display_terminal = 0, active_terminal = 0,
      file_start = 0x500000, num_dir_entry = 0, num_inodes = 0, num_data_blocks = 0,
      current_dir_read_index = 0, data_block_start = 0, dir_table = 0, inode_table = 0,
      master_mask = 0xff, slave_mask = 0xff, next_interrupt = 0,
      pressed_key = (\<lambda>i. 0), keyboard_buffer = 0x640000, print_buffer = 0x642000,
      cap_status = 0, cursor_ind = (\<lambda>t. 0), hold_num = 0, terminal_read_ready = (\<lambda>t. 0),
      terminal_2_running = 0, terminal_3_running = 0, scancodes_map = (\<lambda>i. 0), special_convert_map = (\<lambda>i. 0),
      arg_buf = 0x630000, fname = 0x610000, tempBuf = 0x620000, shell_name = 0x650000,
      process_status = (\<lambda>p. if p = 1 then 1 else 0), arg_available = (\<lambda>p. 0),
      current_pid = 1, total_running_process = 1, entry_point = 0,
      pcbs = (\<lambda>a. idle_pcb), tss_esp0 = 0, tss_ss0 = 0, esp = 0x7fdf00, ebp = 0x7fdf10\<rparr>"

definition sample :: proc where
  "sample = pcb_init 1 (filesys_init sample0)"

text \<open>Paging and the kernel's memory.\<close>

lemma sample_paging_map: "kernel_map (of_nat VIDEO_IND) sample_paging"
  unfolding sample_paging_def by (rule paging_init_kernel_map) (simp add: layout_ok_def)

lemma sample0_sel [simp]:
  "pg sample0 = sample_paging" "phys sample0 = sample_memory" "file_start sample0 = 0x500000"
  by (simp_all add: sample0_def)

lemma sample0_byte: "0x400000 \<le> unat a \<Longrightarrow> unat a < 0x800000 \<Longrightarrow> ldb sample0 a = sample_memory a"
  using kernel_byte [of _ sample0 a] sample_paging_map by simp

lemma sample0_word:
  assumes "0x400000 \<le> unat a" "unat a < 0x7ffffc"
  shows "ldw sample0 a = word_of_bytes (sample_memory a) (sample_memory (a + 1)) (sample_memory (a + 2)) (sample_memory (a + 3))"
proof -
  have "in_kernel a 4" using assms by (simp add: in_kernel_def)
  from in_kernel_walk(2) [OF sample_paging_map this] have "unat (a + of_nat i) = unat a + i" if "i < 4" for i
    using that by simp
  from this [of 1] this [of 2] this [of 3] show ?thesis
    using assms by (simp add: ldw_ldb sample0_byte)
qed

lemma sample_header [simp]:
  "file_start (filesys_init sample0) = 0x500000" "num_dir_entry (filesys_init sample0) = 5"
  "num_inodes (filesys_init sample0) = 1" "num_data_blocks (filesys_init sample0) = 1"
  "dir_table (filesys_init sample0) = 0x500040" "inode_table (filesys_init sample0) = 0x501000"
  "data_block_start (filesys_init sample0) = 0x502000"
  by (simp_all add: filesys_init_eq sample0_word sample_memory_def sample_image_def word_of_bytes_def)

lemma sample_sel [simp]:
  "pg sample = sample_paging" "phys sample = sample_memory" "file_start sample = 0x500000"
  "num_dir_entry sample = 5" "num_inodes sample = 1" "num_data_blocks sample = 1"
  "dir_table sample = 0x500040" "inode_table sample = 0x501000" "data_block_start sample = 0x502000"
  "fname sample = 0x610000" "tempBuf sample = 0x620000" "arg_buf sample = 0x630000"
  "current_pid sample = 1" "process_status sample p = (if p = 1 then 1 else 0)"
  "total_running_process sample = 1" "get_current_pcb sample = get_kernel_stack_bottom 1"
  "print_buffer sample = 0x642000" "terminal_read_ready sample t = 0" "current_dir_read_index sample = 0"
  "screen_x_multi sample t = 3" "screen_y_multi sample t = 4" "display_terminal sample = 0"
  "active_terminal sample = 0" "esp sample = 0x7fdf00" "ebp sample = 0x7fdf10"
  by (simp_all add: sample_def pcb_init_eq upd_pcb_def get_current_pcb_def)
    (simp_all add: filesys_init_eq sample0_def)

lemma sample_pcb [simp]: "pcbs sample (get_kernel_stack_bottom 1) = fresh_pcb 1 idle_pcb"
  by (simp add: sample_def pcb_init_eq upd_pcb_def) (simp add: filesys_init_eq sample0_def)

lemma sample_ldb: "ldb sample = ldb sample0" and sample_ldw: "ldw sample = ldw sample0"
  by (simp_all add: fun_eq_iff ldb_def ldw_def)

lemma sample_map: "kernel_map (of_nat VIDEO_IND) (pg sample)"
  by (simp add: sample_paging_map)

lemmas sample_eval = sample_ldb sample_ldw sample0_byte sample0_word sample_memory_def sample_image_def
  entry_byte_def sample_entries_def word_of_bytes_def

lemma sample_inode:
  "inode_length sample 0 = 40" "inode_data sample 0 0 = 0"
  by (simp_all add: inode_length_def inode_data_def sizeof_inode_def sample_eval)

lemma sample_fs_ok: "fs_ok sample"
proof -
  have "unat (inode_data sample 0 (int i)) < 1" if "4096 * i < 40" for i
  proof -
    have "i = 0" using that by simp
    then show ?thesis using sample_inode(2) by simp
  qed
  then have "\<forall>n<1. unat (inode_length sample (of_nat n)) \<le> 1023 * 4096 \<and>
      (\<forall>i<1023. 4096 * i < unat (inode_length sample (of_nat n)) \<longrightarrow> unat (inode_data sample (of_nat n) (int i)) < 1)"
    using sample_inode(1) by simp
  then show ?thesis unfolding fs_ok_def by (intro conjI) (simp_all add: image_size_def)
qed

definition sample_names :: "nat \<Rightarrow> u8 list" where
  "sample_names i = map ch (fst (sample_entries ! i))"

lemma five_cases: "i < 5 \<longleftrightarrow> i = 0 \<or> i = 1 \<or> i = 2 \<or> i = 3 \<or> i = (4 :: nat)"
  by auto

lemma sample_dentry_byte:
  assumes "i < 5" "x < 64"
  shows "ldb sample (dentry_addr sample (of_nat i) + of_nat x) = entry_byte i x"
proof -
  define y where "y = 64 + 64 * i + x"
  have "y = x + 64 * (i + 1)" by (simp add: y_def)
  then have y: "64 \<le> y" "y < 384" "y div 64 - 1 = i" "y mod 64 = x" using assms by (simp_all only: mod_mult_self2 div_mult_self2) simp_all
  have a: "dentry_addr sample (of_nat i) + of_nat x = 0x500000 + of_nat y"
    by (simp add: dentry_addr_def sizeof_dentry_def y_def)
  have "unat (0x500000 + of_nat y :: u32) = 0x500000 + y" using unat_off [of "0x500000 :: u32" y] y by simp
  then show ?thesis unfolding a using y by (simp add: sample_ldb sample0_byte sample_memory_def sample_image_def)
qed

lemma sample_dentry:
  assumes "i < 5"
  shows "fileType (copy_dentry sample (of_nat i)) = uint (snd (sample_entries ! i))" "inode (copy_dentry sample (of_nat i)) = 0"
  using assms by (auto simp: five_cases copy_dentry_def dentry_addr_def sizeof_dentry_def sample_eval entry_byte_def sample_entries_def)

lemma sample_entry_names: "entry_names sample sample_names"
proof -
  have n: "\<forall>e\<in>set sample_entries. length (fst e) < 32 \<and> fst e \<noteq> [] \<and> 0 \<notin> set (map ch (fst e))" by (simp add: sample_entries_def)
  have "cstring (ldb sample) (dentry_addr sample (of_nat i)) (sample_names i) \<and> length (sample_names i) \<le> 32" if i: "i < 5" for i
  proof -
    have "sample_entries ! i \<in> set sample_entries" using i by (intro nth_mem) (simp add: sample_entries_def)
    with n have "length (fst (sample_entries ! i)) < 32" "0 \<notin> set (map ch (fst (sample_entries ! i)))" by auto
    then show ?thesis
      using sample_dentry_byte [OF i] by (auto simp: cstring_def sample_names_def entry_byte_def split: prod.splits)
  qed
  then show ?thesis by (fastforce simp: entry_names_def)
qed

lemma sample_command_string: "cstring (ldb sample) 0x600000 sample_command"
  by (simp add: cstring_Cons_iff sample_command_def sample_eval)

lemma sample_names_file: "names_file sample sample_names (map ch ''shell'') 1 0 40"
  by (simp add: names_file_def sample_inode copy_dentry_def dentry_addr_def sizeof_dentry_def sample_eval
      upt_rec sample_names_def sample_entries_def)

lemma sample_launchable: "launchable sample sample_names 0x600000 sample_command 1 0 40"
proof -
  have "takeWhile (\<lambda>c. c \<noteq> 32) sample_command = map ch ''shell''"
    by (simp add: sample_command_def)
  moreover have "file_part sample 0 0 4 = executable_checking"
    by (simp add: file_part_def file_byte_def data_block_def data_block_size_def sample_inode sample_eval
        executable_checking_def upt_rec sample_program_def)
  moreover have "length sample_command < 2 ^ 31" by (simp add: sample_command_def)
  ultimately show ?thesis
    using sample_names_file
    by (simp add: launchable_def runnable_def sample_fs_ok sample_entry_names sample_command_string)
qed

lemma sample_entry: "file_entry sample 0 = 0x08048010"
  by (simp add: file_entry_def file_byte_def data_block_def data_block_size_def sample_inode sample_eval sample_program_def nth_append)

lemma sample_empty_pid: "get_empty_pid sample = 2"
  by (simp add: get_empty_pid_def empty_pid_from.simps MAX_PID_def)

lemma sample_layout: "launch_layout sample 0x600000 (length sample_command + 1) 2"
  by (simp add: launch_layout_def sample_command_def image_size_def arg_row_def MAX_ARG_SIZE_def
      in_kernel_def apart_in_kernel [OF sample_paging_map])

lemma sample_video: "video_inv sample" "aterm_ok (terminal sample t)"
  using sample_paging_map by (simp_all add: video_inv_def term_frame_def aterm_ok_def terminal_def frame_grid_def)

text \<open>The device of the instances: a mask register holds the byte last written to its port.\<close>

fun last_write :: device where
  "last_write [] p = 0xff"
| "last_write (e # h) p = (case e of Outb q v \<Rightarrow> if q = p then v else last_write h p | Inb _ _ \<Rightarrow> last_write h p)"

lemma last_write_readback: "mask_readback last_write"
  by (simp add: mask_readback_def)

text \<open>Two processes, the first current.\<close>

definition sample_two :: proc where
  "sample_two = pcb_init 2 (sample\<lparr>process_status := (\<lambda>p. if p = 1 \<or> p = 2 then 1 else 0), total_running_process := 2\<rparr>)"

lemma sample_two_sel [simp]:
  "pg sample_two = sample_paging" "current_pid sample_two = 1" "total_running_process sample_two = 2"
  "process_status sample_two p = (if p = 1 \<or> p = 2 then 1 else 0)"
  "get_current_pcb sample_two = get_kernel_stack_bottom 1" "esp sample_two = 0x7fdf00" "ebp sample_two = 0x7fdf10"
  by (simp_all add: sample_two_def pcb_init_eq upd_pcb_def get_current_pcb_def)

lemma sample_two_pcb:
  "pcbs sample_two (get_kernel_stack_bottom 1) = fresh_pcb 1 idle_pcb"
  "pcbs sample_two (get_kernel_stack_bottom 2) = fresh_pcb 2 (pcbs sample (get_kernel_stack_bottom 2))"
  by (simp_all add: sample_two_def pcb_init_eq upd_pcb_def stack_bottom_inj)

lemma sample_two_ready: "ready sample_two j \<longleftrightarrow> j = 1 \<or> j = 2"
proof -
  have "child (pcbs sample (get_kernel_stack_bottom 2)) = 0"
    by (simp add: sample_def pcb_init_eq upd_pcb_def stack_bottom_inj filesys_init_eq sample0_def idle_pcb_def)
  then show ?thesis
    using sample_two_pcb by (auto simp: ready_def fresh_pcb_def idle_pcb_def)
qed

lemma sample_two_sched: "sched_ok sample_two"
  using sample_two_pcb by (auto simp: sched_ok_def sample_two_ready fresh_pcb_def)

lemma sample_file_name: "cstring (ldb sample) 0x500080 (map ch ''shell'')"
  by (simp add: cstring_Cons_iff sample_eval)

lemma sample_lookup: "read_dentry_by_name sample 0x500080 = Some (Some (copy_dentry sample 1))"
  using read_dentry_by_name_eq [OF sample_entry_names sample_file_name] by (simp add: upt_rec sample_names_def sample_entries_def)

lemma sample_free_fd: "streams_ok (pcbs sample (get_current_pcb sample))" "free_fd_from (pcbs sample (get_current_pcb sample)) 0 = 2"
proof -
  show s: "streams_ok (pcbs sample (get_current_pcb sample))" by (simp add: streams_ok_fresh)
  have "flags (file_array (pcbs sample (get_current_pcb sample)) 2) = 0" by (simp add: fresh_pcb_def)
  then show "free_fd_from (pcbs sample (get_current_pcb sample)) 0 = 2"
    using free_fd_from_spec [of 0 "pcbs sample (get_current_pcb sample)"] free_fd_streams [OF s]
    by (metis le_neq_implies_less less_numeral_extra(3) zero_less_numeral le_antisym not_le zero_le)
qed

definition sample_open :: proc where
  "sample_open = upd_pcb (get_kernel_stack_bottom 1) (upd_fd 2 (opened (copy_dentry sample 1))) sample"

lemma sample_open_sel:
  "pg sample_open = sample_paging" "get_current_pcb sample_open = get_kernel_stack_bottom 1"
  "file_array (pcbs sample_open (get_kernel_stack_bottom 1)) 2 = opened (copy_dentry sample 1) (file_array (fresh_pcb 1 idle_pcb) 2)"
  "file_start sample_open = 0x500000" "image_size sample_open = 0x3000" "num_inodes sample_open = 1"
  by (simp_all add: sample_open_def upd_pcb_def get_current_pcb_def image_size_def)

lemma sample_open_image: "same_image sample sample_open"
  by (simp add: sample_open_def upd_pcb_def same_image_def ldb_def)

text \<open>Preemption.\<close>

lemma sample_two_switch:
  obtains k' e b where "pit_handler sample_two = Some (Resume k' e b)" "current_pid k' = 2" "sched_ok k'"
    "ready k' = ready sample_two" "pcbs k' (get_kernel_stack_bottom 1) = (fresh_pcb 1 idle_pcb)\<lparr>current_esp := 0x7fdf00, current_ebp := 0x7fdf10\<rparr>"
  using sample_two_sched
proof (cases rule: pit_handler_cases)
  case (stay k')
  then show thesis using sample_two_ready [of 2] by auto
next
  case (switch k' m i)
  have "i = 2" using switch(6) switch(5) sample_two_ready [of i] by auto
  then show thesis
    using that [of k'] switch tick_keeps [OF sample_two_sched] sample_two_pcb by (simp add: tick_def)
qed

definition sample_kbd :: proc where
  "sample_kbd = init_scancodes_map sample"

lemma sample_kbd_sel [simp]:
  "pg sample_kbd = sample_paging" "phys sample_kbd = sample_memory" "display_terminal sample_kbd = 0"
  "active_terminal sample_kbd = 0" "keyboard_buffer sample_kbd = 0x640000" "print_buffer sample_kbd = 0x642000"
  "cursor_ind sample_kbd t = 0" "pressed_key sample_kbd i = 0" "cap_status sample_kbd = 0"
  "screen_x_multi sample_kbd t = 3" "screen_y_multi sample_kbd t = 4"
  by (simp_all add: sample_kbd_def init_scancodes_map_eq)
    (simp_all add: sample_def pcb_init_eq upd_pcb_def filesys_init_eq sample0_def)

lemma sample_kbd_keys:
  "scancodes_map sample_kbd 38 = ch CHR ''l''" "scancodes_map sample_kbd 31 = ch CHR ''s''" "scancodes_map sample_kbd 28 = 10"
  by (simp_all add: sample_kbd_def init_scancodes_map_eq assign_def scancode_assignments_def scancode_defs)

lemma sample_kbd_byte: "in_kernel a n \<Longrightarrow> i < n \<Longrightarrow> ldb sample_kbd (a + of_nat i) = sample_memory (a + of_nat i)"
  using in_kernel_walk [OF sample_paging_map] by (simp add: ldb_def ld_def)

lemma sample_kbd_inv: "kbd_inv sample_kbd" "kline sample_kbd t = []"
proof -
  show l: "kline sample_kbd t = []" for t by (simp add: kline_def)
  have lay: "kbd_layout sample_kbd" by (simp add: kbd_layout_def in_kernel_def)
  have v: "video_inv sample_kbd" using sample_paging_map by (simp add: video_inv_def term_frame_def)
  have "load_list ldb sample_kbd (key_row sample_kbd t) 129 = replicate 129 0" if "t \<in> {0, 1, 2}" for t
  proof (rule nth_equalityI)
    fix i assume i: "i < length (load_list ldb sample_kbd (key_row sample_kbd t) 129)"
    note r = key_row_rows [OF lay that]
    have "unat (key_row sample_kbd t + of_nat i) = 0x640000 + 129 * nat t + i"
      using in_kernel_walk(2) [OF sample_paging_map r(3), of i] i r(1) by simp
    then show "load_list ldb sample_kbd (key_row sample_kbd t) 129 ! i = replicate 129 0 ! i"
      using i sample_kbd_byte [OF r(3), of i] by (simp add: sample_memory_def)
  qed simp
  then show "kbd_inv sample_kbd"
    unfolding kbd_inv_def using v lay by (simp add: l aterm_ok_def terminal_def frame_grid_def)
qed

end
