(* ===== verification/SampleUser.thy ===== *)
theory SampleUser
  imports UserCount UserGrep UserPing UserFish Sample System
begin

text \<open>
  The machine of \<open>Sample\<close> with one user program running on it: its page is mapped, the string literals
  of the programs are in place, the command line has the argument \<^verbatim>\<open>shell\<close>, and only the standard
  streams are open.
\<close>

text \<open>String literals, one every 64 bytes.\<close>

definition text_byte :: "string list \<Rightarrow> nat \<Rightarrow> u8" where
  "text_byte ss x = (let s = ss ! (x div 64) in if x mod 64 < length s then ch (s ! (x mod 64)) else 0)"

definition text_index :: "string list \<Rightarrow> string \<Rightarrow> nat" where
  "text_index ss s = length (takeWhile (\<lambda>t. t \<noteq> s) ss)"

definition sample_text :: "string list" where
  "sample_text = [''.'', ''helloo'', ''shel'', ''''] @ pass_lines @ shell_strings @
     [''file not found'' @ nl, ''Choose from tests 1-8. 0 to run all: '', ''Hi, what'' @ CHR 0x27 # ''s your name? '', ''Hello, '',
      ''Enter the Test Number: (0): 100, (1): 10000, (2): 100000'' @ nl, nl, '':'', ''rtc'', ''frame0.txt'', ''frame1.txt'']"

definition sample_lit :: "string \<Rightarrow> u32" where
  "sample_lit s = of_nat (0x8048000 + 64 * text_index sample_text s)"

definition user_memory :: pmem where
  "user_memory a =
     (let x = unat a in
      if 0x650000 \<le> x \<and> x < 0x650005 then shell_string ! (x - 0x650000)
      else if 0x631000 \<le> x \<and> x < 0x631005 then shell_string ! (x - 0x631000)
      else if 0xC48000 \<le> x \<and> x < 0xC48000 + 64 * length sample_text then text_byte sample_text (x - 0xC48000)
      else sample_memory a)"

definition sample_user :: proc where
  "sample_user = upd_pcb (get_kernel_stack_bottom 1) (\<lambda>p. p\<lparr>is_terminal := 1\<rparr>)
     (sample_kbd\<lparr>phys := user_memory, pg := setup_task_page 1 sample_paging, arg_available := (\<lambda>p. if p = 1 then 1 else 0)\<rparr>)"

lemma sample_user_map: "kernel_map (of_nat VIDEO_IND) (pg sample_user)"
  by (simp add: sample_user_def upd_pcb_def kernel_map_setup_task_page [OF sample_paging_map])

lemma sample_shell_name: "shell_name sample = 0x650000"
  by (simp add: sample_def pcb_init_eq upd_pcb_def) (simp add: filesys_init_eq sample0_def)

lemma sample_user_sel [simp]:
  "phys sample_user = user_memory" "file_start sample_user = 0x500000" "num_dir_entry sample_user = 5"
  "num_inodes sample_user = 1" "num_data_blocks sample_user = 1" "dir_table sample_user = 0x500040"
  "inode_table sample_user = 0x501000" "data_block_start sample_user = 0x502000"
  "fname sample_user = 0x610000" "tempBuf sample_user = 0x620000" "arg_buf sample_user = 0x630000"
  "shell_name sample_user = 0x650000" "keyboard_buffer sample_user = 0x640000" "print_buffer sample_user = 0x642000"
  "current_pid sample_user = 1" "process_status sample_user p = (if p = 1 then 1 else 0)"
  "total_running_process sample_user = 1" "get_current_pcb sample_user = get_kernel_stack_bottom 1"
  "terminal_read_ready sample_user t = 0" "current_dir_read_index sample_user = 0"
  "display_terminal sample_user = 0" "active_terminal sample_user = 0" "cursor_ind sample_user t = 0"
  "screen_x_multi sample_user t = 3" "screen_y_multi sample_user t = 4"
  "arg_available sample_user p = (if p = 1 then 1 else 0)" "pressed_key sample_user i = 0" "cap_status sample_user = 0"
  by (simp_all add: sample_user_def upd_pcb_def get_current_pcb_def)
    (simp_all add: sample_kbd_def init_scancodes_map_eq sample_shell_name)

lemma sample_user_pcb:
  "pcbs sample_user (get_kernel_stack_bottom 1) = (fresh_pcb 1 idle_pcb)\<lparr>is_terminal := 1\<rparr>"
  "1 \<le> p \<Longrightarrow> p < 8 \<Longrightarrow> p \<noteq> 1 \<Longrightarrow> pcbs sample_user (get_kernel_stack_bottom p) = idle_pcb"
  by (simp add: sample_user_def upd_pcb_def sample_kbd_def init_scancodes_map_eq)
    (auto simp: sample_user_def upd_pcb_def sample_kbd_def init_scancodes_map_eq sample_def pcb_init_eq stack_bottom_inj
      filesys_init_eq sample0_def)

lemma sample_user_byte: "0x400000 \<le> unat a \<Longrightarrow> unat a < 0x800000 \<Longrightarrow> ldb sample_user a = user_memory a"
  using kernel_byte [OF sample_user_map] by simp

lemma sample_user_image: "same_image sample sample_user"
proof -
  have "ldb sample_user (0x500000 + of_nat x) = ldb sample (0x500000 + of_nat x)" if "x < 0x3000" for x
  proof -
    have u: "unat (0x500000 + of_nat x :: u32) = 0x500000 + x"
      using unat_off [of "0x500000 :: u32" x] that by simp
    have "user_memory (0x500000 + of_nat x) = sample_memory (0x500000 + of_nat x)"
      using that by (simp add: user_memory_def u)
    then show ?thesis using that by (simp add: sample_user_byte sample_ldb sample0_byte u)
  qed
  then show ?thesis by (simp add: same_image_def image_size_def)
qed

lemma sample_image_ok: "image_ok sample sample_names"
proof -
  have "unat (inode (copy_dentry sample (of_nat i))) < 1 \<and> fileType (copy_dentry sample (of_nat i)) \<in> {0, 1, 2}" if "i < 5" for i
    using that sample_dentry [OF that] by (auto simp: five_cases sample_entries_def)
  moreover have "unat (inode_length sample n) \<le> 0x3B8000" if "unat n < 1" for n
    using that sample_inode by (simp add: unat_eq_zero)
  ultimately show ?thesis by (simp add: image_ok_def sample_fs_ok sample_entry_names)
qed

lemma sample_user_kbd: "kbd_inv sample_user"
proof -
  have lay: "kbd_layout sample_user" by (simp add: kbd_layout_def in_kernel_def)
  have v: "video_inv sample_user" using sample_user_map by (simp add: video_inv_def term_frame_def)
  have l: "kline sample_user t = []" for t by (simp add: kline_def)
  have "load_list ldb sample_user (key_row sample_user t) 129 = replicate 129 0" if "t \<in> {0, 1, 2}" for t
  proof (rule nth_equalityI)
    fix i assume i: "i < length (load_list ldb sample_user (key_row sample_user t) 129)"
    note r = key_row_rows [OF lay that]
    have u: "unat (key_row sample_user t + of_nat i) = 0x640000 + 129 * nat t + i"
      using in_kernel_walk(2) [OF sample_user_map r(3), of i] i r(1) by simp
    have "nat t \<le> 2" using that by auto
    then show "load_list ldb sample_user (key_row sample_user t) 129 ! i = replicate 129 0 ! i"
      using i by (simp add: sample_user_byte user_memory_def sample_memory_def u)
  qed simp
  then show ?thesis
    unfolding kbd_inv_def using v lay by (simp add: l aterm_ok_def terminal_def frame_grid_def)
qed

lemma sample_user_layout: "layout_inv sample_user"
  by (simp add: layout_inv_def regions_def image_size_def in_kernel_def before_def)

lemma sample_user_running: "running sample_user p \<longleftrightarrow> p = 1"
  by (auto simp: running_def)

lemma sample_user_procs: "proc_inv sample_user" "fds_ok sample_user"
proof -
  have "{p. running sample_user p} = {1}" by (auto simp: sample_user_running)
  then show "proc_inv sample_user"
    using sample_user_pcb by (auto simp: proc_inv_def sample_user_running fresh_pcb_def idle_pcb_def)
  show "fds_ok sample_user"
    using sample_user_pcb(1) by (simp add: fds_ok_def sample_user_running pcb_fds_ok_def streams_ok_def fresh_pcb_def)
qed

lemma sample_user_sys: "sys_inv sample_names sample_user"
proof -
  have "cstring (ldb sample_user) 0x650000 shell_string"
    by (simp add: shell_string_def cstring_Cons_iff sample_user_byte user_memory_def sample_memory_def)
  moreover have "maps_task 1 (pg sample_user)"
    by (simp add: sample_user_def upd_pcb_def maps_task_def setup_task_page_eq)
  ultimately show ?thesis
    using sample_user_layout image_ok_same [OF sample_user_image sample_image_ok] sample_user_kbd sample_user_procs sample_user_pcb(1)
    by (simp add: sys_inv_def fresh_pcb_def idle_pcb_def)
qed

definition sample_files :: "ufile list" where
  "sample_files = image_of sample_user"

lemma sample_user_inv: "user_inv sample_files sample_user"
  using sample_user_sys by (auto simp: user_inv_def sample_files_def sample_user_running)

lemma sample_user_streams:
  "ufds (kview sample_user) i = (if i = 0 then Fd_keyboard else if i = 1 then Fd_screen else Fd_closed)"
  using sample_user_pcb(1) by (simp add: kview_def abs_fd_def fresh_pcb_def)

lemma sample_files_nth:
  assumes "i < 5"
  shows "uf_name (sample_files ! i) = chars (fst (sample_entries ! i))" "uf_type (sample_files ! i) = uint (snd (sample_entries ! i))"
    "uf_data (sample_files ! i) = sample_program"
proof -
  have n: "entry_names sample_user sample_names"
    by (rule same_image_entry_names [OF sample_fs_ok sample_user_image sample_entry_names])
  have "length (fst (sample_entries ! i)) < 32" using assms by (auto simp: five_cases sample_entries_def)
  then show "uf_name (sample_files ! i) = chars (fst (sample_entries ! i))"
    using uf_name_takeWhile(1) [OF n, of i] assms by (simp add: sample_files_def sample_names_def)
  have d: "copy_dentry sample_user (of_nat i) = copy_dentry sample (of_nat i)"
    using same_image_dentry [OF sample_fs_ok sample_user_image, of i] assms by simp
  have e: "sample_files ! i = \<lparr>uf_raw = fileName (copy_dentry sample (of_nat i)), uf_type = fileType (copy_dentry sample (of_nat i)),
      uf_data = file_part sample_user 0 0 (unat (inode_length sample_user 0))\<rparr>"
    using assms sample_dentry(2) [OF assms] by (simp add: sample_files_def image_of_def Let_def d)
  show "uf_type (sample_files ! i) = uint (snd (sample_entries ! i))" by (simp add: e sample_dentry(1) [OF assms])
  have l: "inode_length sample_user 0 = 40"
    using same_image_inode(1) [OF sample_fs_ok sample_user_image, of 0] by (simp add: sample_inode)
  have "uf_data (sample_files ! i) = file_part sample_user 0 0 40" by (simp add: e l)
  also have "\<dots> = file_part sample 0 0 40"
    using same_image_file_part [OF sample_fs_ok sample_user_image, of 0 40 0] by (simp add: sample_inode)
  also have "file_byte sample 0 j = sample_program ! j" if "j < 40" for j
  proof -
    have "unat (0x502000 + of_nat j :: u32) = 0x502000 + j" using unat_off [of "0x502000 :: u32" j] that by simp
    then show ?thesis
      using that by (simp add: file_byte_def data_block_def data_block_size_def sample_inode sample_ldb sample0_byte sample_memory_def sample_image_def)
  qed
  then have "file_part sample 0 0 40 = map (\<lambda>j. sample_program ! j) [0..<length sample_program]" by (simp add: file_part_def sample_program_def)
  finally show "uf_data (sample_files ! i) = sample_program" unfolding map_nth .
qed

lemma sample_files_eq:
  obtains d s r f g where "sample_files = [d, s, r, f, g]" "uf_name d = chars ''.''" "uf_type d = 1" "uf_name s = chars ''shell''" "uf_type s = 2"
    "uf_name r = chars ''rtc''" "uf_type r = 0" "uf_name f = chars ''frame0.txt''" "uf_type f = 2" "uf_name g = chars ''frame1.txt''" "uf_type g = 2"
    "uf_data s = sample_program" "uf_data f = sample_program" "uf_data g = sample_program"
proof -
  have l: "length sample_files = 5" by (simp add: sample_files_def image_of_def)
  have "sample_files = map (\<lambda>i. sample_files ! i) [0..<5]" using map_nth [of sample_files] by (simp add: l)
  then have e: "sample_files = [sample_files ! 0, sample_files ! 1, sample_files ! 2, sample_files ! 3, sample_files ! 4]"
    by (simp add: upt_rec eval_nat_numeral)
  have "uf_name (sample_files ! 0) = chars ''.''" "uf_type (sample_files ! 0) = 1" "uf_name (sample_files ! 1) = chars ''shell''" "uf_type (sample_files ! 1) = 2"
    "uf_name (sample_files ! 2) = chars ''rtc''" "uf_type (sample_files ! 2) = 0" "uf_name (sample_files ! 3) = chars ''frame0.txt''" "uf_type (sample_files ! 3) = 2"
    "uf_name (sample_files ! 4) = chars ''frame1.txt''" "uf_type (sample_files ! 4) = 2"
    using sample_files_nth [of 0] sample_files_nth [of 1] sample_files_nth [of 2] sample_files_nth [of 3] sample_files_nth [of 4]
    by (simp_all add: sample_entries_def)
  moreover have "uf_data (sample_files ! 1) = sample_program" "uf_data (sample_files ! 3) = sample_program" "uf_data (sample_files ! 4) = sample_program"
    by (rule sample_files_nth(3), simp)+
  ultimately show thesis by (rule that [OF e])
qed

lemma sample_program_lines:
  "text_lines sample_program = [[0x7f, 0x45, 0x4c, 0x46], chars ''shell'', replicate 13 0x20 @ [0x10, 0x80, 0x04, 0x08] @ replicate 12 0x20]"
proof -
  let ?l = "replicate 13 0x20 @ [0x10, 0x80, 0x04, 0x08] @ replicate 12 (0x20 :: u8)"
  have "text_lines sample_program = text_lines ([0x7f, 0x45, 0x4c, 0x46] @ 10 # chars ''shell'' @ 10 # ?l)" by (simp add: sample_program_def)
  also have "\<dots> = [0x7f, 0x45, 0x4c, 0x46] # text_lines (chars ''shell'' @ 10 # ?l)" by (rule text_lines_newline) auto
  also have "text_lines (chars ''shell'' @ 10 # ?l) = chars ''shell'' # text_lines ?l" by (rule text_lines_newline) auto
  also have "text_lines ?l = [?l]" by (rule text_lines_last) auto
  finally show ?thesis .
qed

lemma sample_user_page:
  assumes "x < 0x400000"
  shows "umem (kview sample_user) (0x8000000 + of_nat x) = user_memory (of_nat (0xC00000 + x))"
proof -
  have u: "unat (0x8000000 + of_nat x :: u32) = 0x8000000 + x" using unat_off [of "0x8000000 :: u32" x] assms by simp
  then have b: "ubuf (0x8000000 + of_nat x) 1" using assms by (simp add: ubuf_def)
  have m: "user_map sample_user" using sample_user_sys sys_invD [OF sample_user_sys] by (simp add: user_map_def)
  have "translate sample_user (0x8000000 + of_nat x) = Some (of_nat (0xC00000 + x))"
    using user_walk(1) [OF m b, of 0] u by (simp add: user_cell_def)
  then show ?thesis using b by (simp add: kview_def ldb_def ld_def)
qed


lemma text_index_nth: "s \<in> set ss \<Longrightarrow> text_index ss s < length ss \<and> ss ! text_index ss s = s"
  unfolding text_index_def by (induction ss) auto

lemma literals_text:
  assumes "\<forall>s\<in>set ss. length s < 64 \<and> 0 \<notin> set (chars s)" "x + 64 * length ss \<le> 0x400000"
    and m: "\<And>i. i < 64 * length ss \<Longrightarrow> m (0x8000000 + of_nat (x + i)) = text_byte ss i"
  shows "literals (\<lambda>s. of_nat (0x8000000 + x + 64 * text_index ss s)) ss m"
  unfolding literals_def
proof
  fix s assume s: "s \<in> set ss"
  define j where "j = text_index ss s"
  define a :: u32 where "a = of_nat (0x8000000 + x + 64 * j)"
  have j: "j < length ss \<and> ss ! j = s"
    unfolding j_def by (rule text_index_nth [OF s])
  have len: "length s < 64" "0 \<notin> set (chars s)" using assms(1) s by auto
  have u: "unat a = 0x8000000 + x + 64 * j" unfolding a_def using assms(2) conjunct1 [OF j] by (intro unat_of_nat_small) simp
  have "m (a + of_nat i) = text_byte ss (64 * j + i)" if "i < 64" for i
    using m [of "64 * j + i"] that conjunct1 [OF j] by (simp add: a_def algebra_simps)
  then have b: "m (a + of_nat i) = (if i < length s then ch (s ! i) else 0)" if "i < 64" for i
    using that conjunct2 [OF j] by (simp add: text_byte_def)
  have "cstring m a (chars s)" using b len by (simp add: cstring_def)
  moreover have "ubuf a (length s + 1)" using u conjunct1 [OF j] assms(2) len(1) by (simp add: ubuf_def)
  ultimately show "cstring m (of_nat (0x8000000 + x + 64 * text_index ss s)) (chars s) \<and>
      ubuf (of_nat (0x8000000 + x + 64 * text_index ss s)) (length s + 1) \<and> length s < 2050"
    using len(1) unfolding a_def j_def by simp
qed

lemma sample_text_facts:
  "length sample_text = 27" "\<forall>s\<in>set sample_text. length s < 64 \<and> 0 \<notin> set (chars s)"
  by (simp_all add: sample_text_def pass_lines_def shell_strings_def)

lemma sample_literals: "literals sample_lit sample_text (umem (kview sample_user))"
proof -
  note sample_text_facts
  moreover have "umem (kview sample_user) (0x8000000 + of_nat (0x48000 + i)) = text_byte sample_text i"
    if "i < 64 * length sample_text" for i
  proof -
    have i: "i < 1728" using that calculation(1) by simp
    have "unat (of_nat (0xC48000 + i) :: u32) = 0xC48000 + i" using i by (intro unat_of_nat_small) simp
    then show ?thesis
      using sample_user_page [of "0x48000 + i"] i calculation(1) by (simp add: user_memory_def)
  qed
  ultimately show ?thesis
    using literals_text [of sample_text "0x48000" "umem (kview sample_user)"]
    by (simp add: sample_lit_def [abs_def])
qed

lemma literals_sub: "literals lit ss m \<Longrightarrow> set ts \<subseteq> set ss \<Longrightarrow> literals lit ts m"
  by (auto simp: literals_def)


text \<open>The buffers of the programs are at the end of the page, away from the literals.\<close>

lemma sample_away:
  assumes "set ss \<subseteq> set sample_text" "0x8050000 \<le> unat buf"
  shows "away sample_lit ss buf n"
  unfolding away_def
proof
  fix s assume "s \<in> set ss"
  then have s: "s \<in> set sample_text" using assms(1) by blast
  have "unat (sample_lit s) = 0x8048000 + 64 * text_index sample_text s"
    unfolding sample_lit_def using text_index_nth [OF s] sample_text_facts(1) by (intro unat_of_nat_small) simp
  then show "unat buf + n \<le> unat (sample_lit s) \<or> unat (sample_lit s) + length s + 1 \<le> unat buf"
    using text_index_nth [OF s] sample_text_facts s assms(2) by fastforce
qed

text \<open>The variables of the animation, with the static ones below the stack.\<close>

definition sample_vars :: fish_vars where
  "sample_vars = \<lparr>blink_array = 0x8100000, mp1_list_head = 0x8110000, vmem_base_addr = 0x8110010, add_temp = 0x8110020, find_temp = 0x8110040\<rparr>"

definition sample_locals :: fish_locals where
  "sample_locals = \<lparr>file0 = sample_lit ''frame0.txt'', file1 = sample_lit ''frame1.txt'', frame_blink = 0x83FF010, c0 = 0x83FF000, c1 = 0x83FF001,
     main_blink = 0x83FF040, ret_val = 0x83FF060, garbage = 0x83FF070\<rparr>"

lemma sample_fish_layout: "fish_layout sample_vars" "locals_layout sample_vars sample_locals"
proof -
  show "fish_layout sample_vars" by (simp add: fish_layout_def sample_vars_def ubuf_def disjoint_bufs_def)
  moreover have "apart_all (locals_of sample_locals)" by (simp add: locals_of_def sample_locals_def ubuf_def disjoint_bufs_def)
  moreover have "\<forall>(a, n)\<in>set (locals_of sample_locals). apart_from sample_vars a n"
    by (simp add: locals_of_def sample_locals_def apart_from_def sample_vars_def ubuf_def disjoint_bufs_def)
  ultimately show "locals_layout sample_vars sample_locals" by (simp add: locals_layout_def)
qed

lemma sample_names_sub: "(a, s) \<in> set (names_of sample_lit sample_locals) \<Longrightarrow> a = sample_lit s \<and> s \<in> set sample_text"
  by (auto simp: names_of_def sample_locals_def sample_text_def)

lemma sample_names_layout: "names_layout sample_vars sample_lit sample_locals" "names_in sample_lit sample_locals (umem (kview sample_user))"
proof -
  have lit: "cstring (umem (kview sample_user)) (sample_lit s) (chars s)" "ubuf (sample_lit s) (length s + 1)" if "s \<in> set sample_text" for s
    using sample_literals that by (simp_all add: literals_def)
  have d: "disjoint_bufs (sample_lit s) (length s + 1) b n" if "s \<in> set sample_text" "0x8050000 \<le> unat b" for s b n
    using sample_away [of "[s]" b n] that by (auto simp: away_def disjoint_bufs_def)
  show "names_in sample_lit sample_locals (umem (kview sample_user))"
    unfolding names_in_def using lit(1) by (auto dest!: sample_names_sub)
  show "names_layout sample_vars sample_lit sample_locals"
    unfolding names_layout_def
  proof (intro ballI, clarify)
    fix a s assume "(a, s) \<in> set (names_of sample_lit sample_locals)"
    then have a: "a = sample_lit s" "s \<in> set sample_text" by (auto dest!: sample_names_sub)
    show "apart_from sample_vars a (length s + 1) \<and> (\<forall>(b, n)\<in>set (locals_of sample_locals). disjoint_bufs a (length s + 1) b n)"
      unfolding a(1) using lit(2) [OF a(2)] d [OF a(2)] by (simp add: apart_from_def sample_vars_def locals_of_def sample_locals_def)
  qed
qed

lemma sample_blank: "0x50000 \<le> x \<Longrightarrow> x < 0x400000 \<Longrightarrow> umem (kview sample_user) (0x8000000 + of_nat x) = 0"
  using sample_user_page [of x] sample_text_facts(1) unat_of_nat_small [of "0xC00000 + x", where 'a = 32]
  by (simp add: user_memory_def sample_memory_def)

lemma sample_list_head: "int_at (umem (kview sample_user)) (mp1_list_head sample_vars) = 0"
  using sample_blank [of "0x110000"] sample_blank [of "0x110001"] sample_blank [of "0x110002"] sample_blank [of "0x110003"]
  by (simp add: int_at_def sample_vars_def word_of_bytes_def)

text \<open>Somebody types on the keyboard of the machine.\<close>

lemma sample_user_scancodes: "scancodes_map sample_user = scancodes_map sample_kbd" "special_convert_map sample_user = special_convert_map sample_kbd"
  by (simp_all add: sample_user_def upd_pcb_def)

lemma sample_user_ready: "console_ready sample_user"
  by (simp add: console_ready_def no_chord_def sample_user_scancodes sample_kbd_keys SCANCODE_ENTER_def)

lemma sample_user_char:
  assumes "unat c \<le> 127"
  shows "character_convert sample_user c = scancodes_map sample_kbd (unat c)"
  using assms by (simp add: character_convert_def sample_user_scancodes)

lemma sample_more_keys:
  "scancodes_map sample_kbd 18 = ch CHR ''e''" "scancodes_map sample_kbd 45 = ch CHR ''x''"
  "scancodes_map sample_kbd 23 = ch CHR ''i''" "scancodes_map sample_kbd 20 = ch CHR ''t''" "scancodes_map sample_kbd 11 = ch CHR ''0''"
  by (simp_all add: sample_kbd_def init_scancodes_map_eq assign_def scancode_assignments_def scancode_defs)

lemma sample_lines:
  "types_line sample_user [18, 45, 23, 20, 28]" "typed_line sample_user [18, 45, 23, 20, 28] = chars ''exit'' @ [10]"
  "types_line sample_user [38, 31, 28]" "typed_line sample_user [38, 31, 28] = chars ''ls'' @ [10]"
  "types_line sample_user [11, 28]" "typed_line sample_user [11, 28] = [48, 10]"
  by (simp_all add: types_line_def typed_line_def text_key_def key_text_def modifiers_def scancode_defs sample_user_char
      sample_user_scancodes sample_kbd_keys sample_more_keys)

lemma sample_first_closed: "first_closed (ufds (kview sample_user)) = 2"
  by (simp add: first_closed_def sample_user_streams upt_rec)

text \<open>The command line of the sample program is \<^verbatim>\<open>shell\<close>.\<close>

lemma sample_args:
  "\<exists>raw. uargs (kview sample_user) = Some raw \<and> 0 \<in> set (take 1024 raw) \<and> takeWhile (\<lambda>c. c \<noteq> 0) raw = chars ''shell''"
proof -
  define raw where "raw = load_list ldb sample_user (arg_row sample_user 1) 4096"
  have r: "arg_row sample_user 1 = 0x631000" by (simp add: arg_row_def MAX_ARG_SIZE_def)
  have b: "raw ! i = (if i < 5 then shell_string ! i else 0)" if "i < 1024" for i
  proof -
    have "unat (0x631000 + of_nat i :: u32) = 0x631000 + i" using unat_off [of "0x631000 :: u32" i] that by simp
    then show ?thesis using that by (simp add: raw_def r sample_user_byte user_memory_def sample_memory_def)
  qed
  have len: "length raw = 4096" by (simp add: raw_def)
  have "raw = take 5 raw @ raw ! 5 # drop (Suc 5) raw" by (rule id_take_nth_drop) (simp add: len)
  moreover have "take 5 raw = chars ''shell''"
    using b len by (intro nth_equalityI) (simp_all add: shell_string_def)
  ultimately have e: "raw = chars ''shell'' @ 0 # drop 6 raw" using b [of 5] by simp
  have "takeWhile (\<lambda>c. c \<noteq> 0) raw = chars ''shell''" by (subst e) simp
  moreover have "0 \<in> set (take 1024 raw)" by (subst e) simp
  moreover have "uargs (kview sample_user) = Some raw" by (simp add: kview_def raw_def)
  ultimately show ?thesis by blast
qed

lemma sample_console:
  assumes "\<forall>ks\<in>set inp. types_line sample_user ks"
  shows "console_inv sample_files (sample_user, inp)" "\<not> uready (kview (fst (sample_user, inp)))"
    "console_lines (sample_user, inp) = map (typed_line sample_user) inp"
  using assms sample_user_inv sample_user_ready by (simp_all add: console_inv_def console_lines_def kview_def)

text \<open>The state after the program has opened the directory, as a reachable state of the system.\<close>

definition sample_next :: proc where
  "sample_next = state_of (the (handle last_write (Trap 5 (sample_lit ''.'') 0 0) sample_user))"

lemma sample_next_reached: "reach last_write sample_user sample_next" "system_ok sample_files sample_user"
proof -
  have l: "cstring (umem (kview sample_user)) (sample_lit ''.'') (chars ''.'')" "ubuf (sample_lit ''.'') (length ''.'' + 1)"
    using sample_literals by (simp_all add: literals_def sample_text_def)
  have c: "call_ok 5 (sample_lit ''.'') 0 0 (kview sample_user)"
    using l by (auto simp: call_ok_def string_ok_def)
  show ok: "system_ok sample_files sample_user" using sample_user_inv by (simp add: system_ok_user)
  have e: "event_ok (Trap 5 (sample_lit ''.'') 0 0) sample_user"
    using c sample_user_inv by (simp add: event_ok_def system_ok_user)
  from handle_ok [OF ok e, of last_write] obtain r where
    "handle last_write (Trap 5 (sample_lit ''.'') 0 0) sample_user = Some r" by blast
  then show "reach last_write sample_user sample_next"
    using reach.event [OF reach.start e, of last_write] by (simp add: sample_next_def)
qed

end
