(* ===== verification/Spec2Isabelle.thy ===== *)
theory Spec2Isabelle
  imports LibSpec BootInfo SampleUser
begin

text \<open>
  \<^bold>\<open>A verification of PonyOS.\<close> PonyOS is a small kernel for 32-bit x86 (\<^verbatim>\<open>src/student-distrib\<close>): three text
  terminals, a read-only file system in memory, up to seven processes with an address space each,
  eight file descriptors per process, ten system calls and a round-robin scheduler driven by the timer.

  \<^bold>\<open>Parts of the program and theories.\<close> The state is one extensible record; each theory adds the global
  variables of its source file, and a routine over a smaller record applies to every larger one.

  \<^item> \<open>Prelude\<close>, \<open>ByteMemory\<close>: loops, words, and byte-addressed memory seen through an address
    translation. Interface \<open>byte_memory\<close> (what a load sees after a store), interpreted on the memory
    of the machine under every translation.
  \<^item> \<open>CLib\<close>, \<open>CString\<close>, \<open>LibSpec\<close>: \<^verbatim>\<open>memset\<close> to \<^verbatim>\<open>itoa\<close> of \<^verbatim>\<open>lib.c\<close>, with their word and byte loops, and what
    they do to memory.
  \<^item> \<open>Machine\<close>, \<open>Paging\<close>: the page directory and tables of \<^verbatim>\<open>x86_desc.h\<close> as bit-field records, the walk
    of the processor over them, \<^verbatim>\<open>paging.c\<close>, and the invariant \<open>kernel_map\<close> of the kernel's own mapping.
  \<^item> \<open>Screen\<close>, \<open>ScreenSpec\<close>, \<open>TerminalSwitch\<close>, \<open>Printf\<close>: the terminals and the console of \<^verbatim>\<open>lib.c\<close>; an abstract
    scrolling terminal \<open>aterm\<close> that the video memory refines (interface \<open>text_grid\<close>, interpreted on the
    cells of a window); the invariant \<open>video_inv\<close>; the text \<^verbatim>\<open>printf\<close> prints for its directives.
  \<^item> \<open>FileSystem\<close>, \<open>FileSpec\<close>: \<^verbatim>\<open>fileSystem.c\<close> over the image in memory, and the bytes of a file as the
    specification of the block-wise reads.
  \<^item> \<open>Pic\<close>, \<open>Rtc\<close>, \<open>Terminal\<close>, \<open>Scancode\<close>, \<open>Keyboard\<close>: \<^verbatim>\<open>i8259.c\<close>, \<^verbatim>\<open>rtc.c\<close>, \<^verbatim>\<open>keyboard.c\<close> and \<^verbatim>\<open>scancode.c\<close>.
  \<^item> \<open>Process\<close>, \<open>ProcessSpec\<close>, \<open>Execution\<close>, \<open>Launch\<close>: \<^verbatim>\<open>systemcall.c\<close>: the process table, the control blocks,
    \<^verbatim>\<open>halt\<close>, \<^verbatim>\<open>execute\<close> and the file calls, with the dispatcher of \<^verbatim>\<open>interrupt_handler_wrapper.S\<close>.
  \<^item> \<open>Pit\<close>: the scheduler of \<^verbatim>\<open>pit.c\<close>. Interface \<open>round_robin\<close> (what one tick does to the current process),
    interpreted on the timer handler.
  \<^item> \<open>Idt\<close>, \<open>Kernel\<close>: \<^verbatim>\<open>idt.c\<close>, the delivery of interrupts through the table it builds, and \<^verbatim>\<open>kernel.c\<close>.
  \<^item> \<open>BootInfo\<close>: the output of the boot information and the rejection of a wrong magic number.
  \<^item> \<open>SysInv\<close>, \<open>UserApi\<close>, \<open>SysCalls\<close>: the invariant \<open>sys_inv\<close> of the running system; what a program sees of it (\<open>uview\<close>)
    and the effect of each call on that view (\<open>u_call\<close>); the proof that \<^verbatim>\<open>system_call\<close> refines it. Interface
    \<open>user_os\<close> between programs and the system, interpreted on the kernel (\<open>kernel_os\<close>).
  \<^item> \<open>UserLib\<close>, \<open>UserCat\<close>, \<open>UserErr\<close>: the support library and the call stubs of \<^verbatim>\<open>src/syscalls\<close>, and the programs
    \<^verbatim>\<open>cat\<close>, \<^verbatim>\<open>ls\<close>, \<^verbatim>\<open>testprint\<close> and \<^verbatim>\<open>syserr\<close>, with lemmas proved once from \<open>user_os\<close>.
  \<^item> \<open>Console\<close>, \<open>UserShell\<close>, \<open>UserCount\<close>: somebody at the keyboard. Interface \<open>user_console\<close>, an extension of
    \<open>user_os\<close> with the lines that will be typed, interpreted on the kernel with the key codes of those lines;
    the programs \<^verbatim>\<open>hello\<close>, \<^verbatim>\<open>shell\<close>, \<^verbatim>\<open>counter\<close> and the menu of \<^verbatim>\<open>syserr\<close>.
  \<^item> \<open>System\<close>: the whole system as a transition system: the relation \<open>reach\<close> by interrupts of the timer, the clock
    and the keyboard, stores of the running program and system calls, and its invariant \<open>system_ok\<close>.
  \<^item> \<open>UserVideo\<close>: the window of a program onto the screen and reads of the clock that wait for its interrupt.
    Interface \<open>user_screen\<close>, an extension of \<open>user_os\<close>, interpreted on the kernel with a running clock (\<open>clock_os\<close>).
  \<^item> \<open>UserGrep\<close>, \<open>UserPing\<close>: the programs \<^verbatim>\<open>grep\<close> (against the lines of a text as its specification) and \<^verbatim>\<open>pingpong\<close>.
  \<^item> \<open>UserBlink\<close>, \<open>UserFish\<close>: the animation of \<^verbatim>\<open>src/fish\<close>: the linked list of \<^verbatim>\<open>blink.S\<close> and its allocator over the
    bytes of the program, abstracted to a list of records (\<open>chain\<close>, \<open>blinks\<close>, \<open>blink_list\<close>), and \<^verbatim>\<open>fish.c\<close>, whose run is
    compared with the operations \<open>show_add\<close>, \<open>show_tick\<close>, \<open>show_sync\<close> and \<open>show_remove\<close> on such a list and a screen.
  \<^item> \<open>Sample\<close>, \<open>SampleUser\<close>: concrete states on which the hypotheses of the theorems hold.

  \<^bold>\<open>Conventions.\<close> Memory is physical memory behind the page walk; an access without a translation has no
  effect and reads 0. A C \<^verbatim>\<open>int\<close> that only counts is an \<open>int\<close>, a value whose width matters a word. A
  routine whose loop may not end, or that blocks, has an \<open>option\<close> result, where \<open>None\<close> means that it does
  not return in this state; a system call or interrupt ends in an \<open>outcome\<close> (\<open>Ret\<close>: it returns, \<open>To_user\<close>: a
  program is entered, \<open>Resume\<close>: another saved stack is continued, \<open>Spin\<close>: it loops for ever). What a device
  answers on an input port is the parameter \<open>dev\<close>, a function of the port history. Addresses
  the linker or the stack decides are fields of the state.

  \<^bold>\<open>What the theorems show.\<close> A program that is started runs from its entry point with its file loaded
  and its arguments stored; halting it brings the caller back; failures of the system calls return -1 and
  change nothing; reads and writes move exactly the bytes of the file, the line typed or the text printed;
  user mode reaches only the program page and the video window; the pages of processes are disjoint;
  the scheduler keeps stacks and reaches every ready process; terminals keep their contents when
  another one is displayed. On top of this, every system call does to the calling program what an
  abstract interface says, and the programs of the repository, run on the model of the kernel, print
  what they should: \<^verbatim>\<open>cat\<close> the file, \<^verbatim>\<open>grep\<close> the lines that match, the shell its answers, \<^verbatim>\<open>counter\<close> its numbers,
  \<^verbatim>\<open>syserr\<close> eight times PASS, \<^verbatim>\<open>pingpong\<close> its moving letter and \<^verbatim>\<open>fish\<close> its blinking pictures. From every state with the
  invariant, every sequence of events is handled and keeps the invariant.
  A loop of a program is a \<open>partial_function\<close>, where \<open>None\<close> is a run without end; the theorems prove the result.
  The endless loop of \<^verbatim>\<open>pingpong\<close> is cut after a number of rounds that the theorem leaves open.

  \<^bold>\<open>Not modelled.\<close> The assembly of \<^verbatim>\<open>boot.S\<close> and \<^verbatim>\<open>x86_desc.S\<close> (static tables; their addresses are fields of
  the state); the tests of \<^verbatim>\<open>tests.c\<close> that are commented out; \<^verbatim>\<open>sigtest\<close>, which needs signals, and those the
  kernel does not deliver; the Linux emulation layer, which runs the programs outside the kernel.
\<close>

text \<open>
  C4: For a command line whose first word names an ELF file of a well-formed image, with a free
  slot, \<^verbatim>\<open>execute\<close> (with any terminal and either kind of process) does
  return to user mode at the entry point in bytes 24 to 27 of the file, with the whole file
  loaded at the load address, the rest of the line after its spaces stored as the argument
  string, and the process table, control blocks and TSS set for the new process.
\<close>

theorem execute_runs_program:
  fixes k :: "'a proc_scheme"
  assumes "kernel_map v (pg k)" and "launchable k names command cs i n len"
    and "pid = get_empty_pid k" "pid \<noteq> -1" and "launch_layout k command (length cs + 1) pid"
    and "get_current_pcb k \<noteq> get_kernel_stack_bottom pid"
    and "args = dropWhile (\<lambda>c. c = 32) (dropWhile (\<lambda>c. c \<noteq> 32) cs)"
  shows "\<exists>k'. execute_with_terminal_num command t it k = Some (To_user k' (file_entry k n)) \<and>
    entered pid (get_current_pcb k) t it (start_slot pid k) k' \<and>
    load_list ldb k' USER_PROGRAM_ADDR len = file_part k n 0 len \<and>
    cstring (ldb k') (arg_row k pid) args \<and> arg_available k' pid = (if args = [] then 0 else 1)"
  using execute_enters [OF assms(1,2,5,3,4,6,7), of t it] by blast

theorem execute_runs_program_witness:
  "\<exists>k'. execute_with_terminal_num 0x600000 0 0 sample = Some (To_user k' 0x08048010) \<and>
    load_list ldb k' USER_PROGRAM_ADDR 40 = file_part sample 0 0 40 \<and>
    cstring (ldb k') (arg_row sample 2) (map ch ''-x'') \<and> arg_available k' 2 = 1"
proof -
  have "get_current_pcb sample \<noteq> get_kernel_stack_bottom 2" by (simp add: stack_bottom_inj)
  moreover have "dropWhile (\<lambda>c. c = 32) (dropWhile (\<lambda>c. c \<noteq> 32) sample_command) = map ch ''-x''"
    by (simp add: sample_command_def)
  ultimately show ?thesis
    using execute_runs_program [OF sample_map sample_launchable sample_empty_pid [symmetric] _ sample_layout _ refl,
        of 0 0] by (auto simp: sample_entry)
qed

text \<open>
  C5: Running a program with \<^verbatim>\<open>execute\<close> and halting it brings control
  back to the saved stack of the caller with the process table, the process count and the
  current process as they were, the child link cleared and the page of the caller mapped.
\<close>

theorem execute_then_halt_returns:
  fixes k :: "'a proc_scheme"
  assumes "kernel_map v (pg k)" and "launchable k names command cs i n len"
    and "launch_layout k command (length cs + 1) (get_empty_pid k)"
    and "get_empty_pid k \<noteq> -1"
    and "1 \<le> current_pid k" "current_pid k < 8" "process_status k (current_pid k) \<noteq> 0"
      "pcb_pid (pcbs k (get_current_pcb k)) = current_pid k"
    and "total_running_process k \<noteq> 0"
  shows "\<exists>k' k''. execute command k = Some (To_user k' (file_entry k n)) \<and>
    halt retval k' = Some (Resume k'' (esp k) (ebp k)) \<and>
    process_status k'' = process_status k \<and> total_running_process k'' = total_running_process k \<and>
    current_pid k'' = current_pid k \<and> child (pcbs k'' (get_current_pcb k)) = 0 \<and>
    pg k'' = setup_task_page (current_pid k) (pg k')"
  using assms by (rule execute_then_halt)

theorem execute_then_halt_returns_witness:
  "\<exists>k' k''. execute 0x600000 sample = Some (To_user k' 0x08048010) \<and>
    halt 0 k' = Some (Resume k'' 0x7fdf00 0x7fdf10) \<and> current_pid k'' = 1 \<and> total_running_process k'' = 1"
proof -
  have "launch_layout sample 0x600000 (length sample_command + 1) (get_empty_pid sample)"
    using sample_layout by (simp only: sample_empty_pid)
  from execute_then_halt_returns [OF sample_map sample_launchable this, of 0] show ?thesis
    by (auto simp: sample_empty_pid sample_entry fresh_pcb_def)
qed

theorem execute_rejects_witness:
  "\<exists>k'. execute_with_terminal_num 0x600006 0 0 sample = Some (Ret k' (-1)) \<and> mem_only (cli sample) k'"
proof -
  have "cstring (ldb sample) 0x600006 (map ch ''-x'')"
    by (simp add: cstring_Cons_iff sample_eval sample_command_def)
  moreover have "launch_layout sample 0x600006 (length (map ch ''-x'') + 1) 2"
    by (simp add: launch_layout_def image_size_def arg_row_def MAX_ARG_SIZE_def in_kernel_def
        apart_in_kernel [OF sample_paging_map])
  moreover have "\<forall>i<nat (num_dir_entry sample). take 32 (sample_names i) \<noteq> take 32 (takeWhile (\<lambda>c. c \<noteq> 32) (map ch ''-x''))"
    by (auto simp: sample_names_def sample_entries_def five_cases)
  ultimately show ?thesis
    using execute_rejects [OF sample_map sample_fs_ok sample_entry_names _ _ _ _ refl, of "0x600006" "map ch ''-x''" 2 0 0]
    by (auto simp del: list.map)
qed

section \<open>Memory protection\<close>

text \<open>
  C20: The program pages of two different processes translate to different physical addresses,
  outside the memory of the kernel.
\<close>

theorem task_pages_disjoint:
  assumes "kernel_map v g" "p < 8" "q < 8" "p \<noteq> q" "off < 2 ^ 22" "off' < 2 ^ 22"
    and "a = of_nat (0x8000000 + off)" "b = of_nat (0x8000000 + off')"
  shows "\<exists>x y. walk (setup_task_page (int p) g) a = Some x \<and> walk (setup_task_page (int q) g) b = Some y \<and>
    x \<noteq> y \<and> 0x800000 \<le> unat x \<and> unat x < 0x2800000"
proof -
  let ?x = "0x800000 + p * 0x400000 + off" and ?y = "0x800000 + q * 0x400000 + off'"
  have u: "unat (of_nat ?x :: u32) = ?x" "unat (of_nat ?y :: u32) = ?y"
    by (rule unat_of_nat_small, use assms(2-6) in simp)+
  have "?x \<noteq> ?y"
  proof
    assume "?x = ?y"
    then have "(p * 0x400000 + off) div 0x400000 = (q * 0x400000 + off') div 0x400000" by simp
    then show False using assms(4-6) by simp
  qed
  then have "(of_nat ?x :: u32) \<noteq> of_nat ?y" using u by metis
  moreover have "walk (setup_task_page (int p) g) a = Some (of_nat ?x)" "walk (setup_task_page (int q) g) b = Some (of_nat ?y)"
    unfolding assms(7,8) by (rule walk_task_page [OF assms(1)]; use assms(2-6) in simp)+
  moreover have "0x800000 \<le> ?x" "?x < 0x2800000" using assms(2,5) by simp_all
  ultimately show ?thesis using u(1) by metis
qed

theorem task_pages_disjoint_witness:
  "\<exists>x y. walk (setup_task_page 1 sample_paging) 0x8048000 = Some x \<and>
    walk (setup_task_page 2 sample_paging) 0x8048000 = Some y \<and> x \<noteq> y"
proof -
  have "(0x8048000 :: u32) = of_nat (0x8000000 + 0x48000)" by simp
  note a = this
  have "\<exists>x y. walk (setup_task_page (int 1) sample_paging) 0x8048000 = Some x \<and>
      walk (setup_task_page (int 2) sample_paging) 0x8048000 = Some y \<and> x \<noteq> y \<and> 0x800000 \<le> unat x \<and> unat x < 0x2800000"
    by (rule task_pages_disjoint [OF sample_paging_map _ _ _ _ _ a a]) simp_all
  then show ?thesis unfolding of_nat_1 of_nat_numeral by blast
qed

text \<open>
  C19: With the page of a process mapped, a user-mode access is allowed exactly in the 4 MB
  program page and in the user-level video window (except its first page): no user access
  reaches the page of the kernel.
\<close>

theorem user_access:
  assumes "kernel_map v g"
  shows "user_may (setup_task_page ind g) a \<longleftrightarrow>
    unat (drop_bit 22 a) = USER_SPACE_START \<or>
    unat (drop_bit 22 a) = USER_VIDEO_START \<and> take_bit 10 (drop_bit 12 a) \<noteq> 0"
  using assms by (rule user_may_iff)

theorem user_access_witness:
  "user_may (setup_task_page 1 sample_paging) 0x08048000 \<and> \<not> user_may (setup_task_page 1 sample_paging) 0x00400000"
  using user_access [OF sample_paging_map, of 1 "0x08048000"] user_access [OF sample_paging_map, of 1 "0x00400000"]
  by (simp add: USER_SPACE_START_def USER_VIDEO_START_def)

text \<open>
  C21: Mapping the page of a process keeps the mapping of the kernel: the paging invariant holds
  again, every address outside the program page translates as before, and the page of the kernel
  is mapped to itself.
\<close>

theorem kernel_mapping_fixed:
  assumes "kernel_map v g"
  shows "kernel_map v (setup_task_page ind g) \<and>
    (\<forall>a. unat (drop_bit 22 a) \<noteq> USER_SPACE_START \<longrightarrow> walk (setup_task_page ind g) a = walk g a) \<and>
    (\<forall>off<2 ^ 22. walk (setup_task_page ind g) (of_nat (2 ^ 22 + off)) = Some (of_nat (2 ^ 22 + off)))"
  using kernel_map_setup_task_page [OF assms] walk_setup_task_page_other [OF assms] walk_kernel_page by blast

theorem kernel_mapping_fixed_witness: "walk (setup_task_page 3 sample_paging) 0x410000 = Some 0x410000"
  using kernel_mapping_fixed [OF sample_paging_map, of 3] by (elim conjE, elim allE [of _ "0x10000"]) simp

section \<open>The terminals\<close>

text \<open>
  C32: Printing a character acts on the terminal of the running process as on an abstract
  scrolling terminal and leaves the other two alone, whichever terminal is displayed, and keeps
  the invariants of the terminals.
\<close>

theorem putc_on_active_terminal:
  assumes "video_inv k" "aterm_ok (terminal k (active_terminal k))"
  shows "video_inv (putc_scroll c k) \<and>
    (\<forall>t\<in>{0, 1, 2}. terminal (putc_scroll c k) t =
      (if t = active_terminal k then aterm_putc c (terminal k t) else terminal k t)) \<and>
    aterm_ok (terminal (putc_scroll c k) (active_terminal k))"
proof -
  have "video_inv (putc_scroll c k)" using assms(1) video_inv_cong [of "putc_scroll c k" k] by simp
  moreover have "active_terminal k \<in> {0, 1, 2}" using assms(1) by (simp add: video_inv_def)
  ultimately show ?thesis
    using terminal_putc_scroll [OF assms] aterm_ok_putc [OF assms(2)] by auto
qed

theorem putc_on_active_terminal_witness:
  "terminal (putc_scroll 65 sample) 0 = aterm_putc 65 (terminal sample 0) \<and>
   terminal (putc_scroll 65 sample) 1 = terminal sample 1"
  using putc_on_active_terminal [OF sample_video(1) sample_video(2), of 65] by simp

text \<open>
  C33: Displaying another terminal keeps the contents and the cursor of all three terminals and
  the invariant that the video window shows the terminal of the running process.
\<close>

theorem switch_keeps_terminals:
  assumes "video_inv k" "t \<in> {0, 1, 2}"
  shows "video_inv (set_disiplay_terminal t k) \<and> display_terminal (set_disiplay_terminal t k) = t \<and>
    (\<forall>s\<in>{0, 1, 2}. terminal (set_disiplay_terminal t k) s = terminal k s)"
  using video_inv_set_disiplay_terminal [OF assms] terminal_set_disiplay_terminal [OF assms]
  by (auto simp: set_disiplay_terminal_sel)

theorem switch_keeps_terminals_witness:
  "terminal (set_disiplay_terminal 2 sample) 0 = terminal sample 0 \<and>
   display_terminal (set_disiplay_terminal 2 sample) = 2"
  using switch_keeps_terminals [OF sample_video(1), of 2] by simp

text \<open>
  C34: Erasing right after a printed character brings the displayed terminal back to where it
  was, apart from a scroll that was due and the blanked cell, also across the end of a line.
\<close>

theorem backspace_undoes_typing:
  assumes "video_inv k" "d = display_terminal k" "aterm_ok (terminal k d)" "c \<noteq> 10" "c \<noteq> 13"
    and "T = aterm_fit (terminal k d)"
  shows "terminal (erase_last_ch_display (putc_scroll_display c k)) d =
    T\<lparr>agrid := (agrid T)[nat (80 * ay T + ax T) := blank]\<rparr>"
proof -
  let ?k = "putc_scroll_display c k"
  have d: "d \<in> {0, 1, 2}" using assms(1,2) by (simp add: video_inv_def)
  have v: "video_inv ?k" using assms(1) video_inv_cong [of ?k k] by simp
  have t: "terminal ?k d = aterm_putc c (terminal k d)"
    using terminal_putc_scroll_display [of k d] assms(1-3) d by simp
  have s: "ax (terminal ?k d) = screen_x_multi ?k d" "ay (terminal ?k d) = screen_y_multi ?k d"
    by (simp_all add: terminal_def)
  have "terminal (erase_last_ch_display ?k) d = aterm_erase (terminal ?k d)"
    using terminal_erase_last_ch_display [OF v _ d] aterm_ok_putc [OF assms(3)] aterm_putc_moves [OF assms(3-5)] t s
      assms(2) by simp
  then show ?thesis by (simp only: t aterm_erase_putc [OF assms(3-5)] assms(6))
qed

theorem backspace_undoes_typing_witness:
  "ax (terminal (erase_last_ch_display (putc_scroll_display 65 sample)) 0) = 3 \<and>
   ay (terminal (erase_last_ch_display (putc_scroll_display 65 sample)) 0) = 4"
  using backspace_undoes_typing [OF sample_video(1) _ sample_video(2) _ _ refl, of 0 65]
  by (simp add: aterm_fit_def terminal_def)

text \<open>
  C7: A \<^verbatim>\<open>write\<close> of fewer than 2050 bytes to descriptor 1 returns its
  length, with interrupts enabled, and the terminal of the running process becomes what an
  abstract 25 by 80 scrolling terminal becomes after those characters; the other two terminals
  keep their contents.
\<close>

theorem stdout_write_prints:
  fixes k :: "'a proc_scheme"
  assumes "video_inv k" "aterm_ok (terminal k (active_terminal k))"
    and "streams_ok (pcbs k (get_current_pcb k))" "n < PRINT_LIM"
    and "in_kernel (print_row k (active_terminal k)) (n + 1)"
    and "apart (translate k) (print_row k (active_terminal k)) n buf n"
  shows "\<exists>k'. write_file dev 1 buf (int n) k = Some (k', int n) \<and> iflag k' \<and>
    (\<forall>t\<in>{0, 1, 2}. terminal k' t = (if t = active_terminal k
       then fold aterm_putc (load_list ldb k buf n) (terminal k t) else terminal k t))"
proof -
  have "sint (word_of_int (int n) :: u32) = int n"
    using sint_of_nat_len [of n] assms(4) by (simp add: PRINT_LIM_def)
  then have "write_file dev 1 buf (int n) k = terminal_write buf (int n) k" if "terminal_write buf (int n) k = Some (k', int n)" for k'
    using assms(3) that by (simp add: write_file_def FDT_SIZE_def Let_def streams_ok_def call_op_def terminal_write_wrapper_def)
  then show ?thesis using terminal_write_eq [OF assms(1,2,4-6)] by metis
qed


theorem stdout_write_prints_witness:
  "\<exists>k'. write_file last_write 1 0x600000 5 sample = Some (k', 5) \<and>
    terminal k' 0 = fold aterm_putc (load_list ldb sample 0x600000 5) (terminal sample 0)"
proof -
  have "in_kernel (print_row sample 0) 6" "apart (translate sample) (print_row sample 0) 5 0x600000 5"
    using sample_paging_map by (auto intro!: apart_in_kernel simp: in_kernel_def print_row_def PRINT_LIM_def)
  then show ?thesis
    using stdout_write_prints [OF sample_video sample_free_fd(1), of 5 "0x600000" last_write] by (auto simp: PRINT_LIM_def)
qed


section \<open>The file system\<close>

text \<open>
  C23: On a well-formed image \<^verbatim>\<open>read_data\<close>, which copies block by block,
  returns the number of bytes up to the end of the file or the count and stores exactly those
  bytes of the file in the buffer, changing no other byte of memory and no other part of the
  state.
\<close>

theorem read_data_reads_file:
  fixes k :: "'a filesys_scheme"
  assumes "fs_ok k" "unat n < nat (num_inodes k)" "unat offset + unat count < 2 ^ 31"
    and "N = min (unat count) (unat (inode_length k n) - unat offset)"
    and "block (translate k) buf N" "apart (translate k) buf N (file_start k) (image_size k)"
  shows "\<exists>k'. read_data n offset buf count k = (k', int N) \<and>
    load_list ldb k' buf N = map (\<lambda>i. file_byte k n (unat offset + i)) [0..<N] \<and>
    (\<forall>b. (\<forall>i<N. translate k (buf + of_nat i) \<noteq> translate k b) \<longrightarrow> ldb k' b = ldb k b) \<and> mem_only k k'"
proof (intro exI conjI allI impI)
  let ?vs = "file_part k n (unat offset) (unat offset + N)"
  have vs: "?vs = map (\<lambda>i. file_byte k n (unat offset + i)) [0..<N]"
    by (intro nth_equalityI) (simp_all add: file_part_def)
  have len: "length ?vs = N" by simp
  show rd: "read_data n offset buf count k = (store_bytes k buf ?vs, int N)"
    using read_data_eq [OF assms(1-4,6)] .
  show "load_list ldb (store_bytes k buf ?vs) buf N = map (\<lambda>i. file_byte k n (unat offset + i)) [0..<N]"
    using load_list_store_bytes [of k buf ?vs N] assms(5) len vs by simp
  show "ldb (store_bytes k buf ?vs) b = ldb k b"
    if "\<forall>i<N. translate k (buf + of_nat i) \<noteq> translate k b" for b
    using ldb_store_apart [of k buf ?vs b 1 0] that len by (simp add: apart_def)
  show "mem_only k (store_bytes k buf ?vs)" by (simp add: mem_only_def store_bytes_def)
qed

theorem read_data_reads_file_witness:
  "\<exists>k'. read_data 0 24 0x610000 100 sample = (k', 16) \<and>
    load_list ldb k' 0x610000 16 = map (\<lambda>i. file_byte sample 0 (24 + i)) [0..<16]"
proof -
  have "block (translate sample) 0x610000 16" "apart (translate sample) 0x610000 16 (file_start sample) (image_size sample)"
    using sample_paging_map by (auto intro!: in_kernel_block apart_in_kernel simp: in_kernel_def image_size_def)
  then have "\<exists>k'. read_data 0 24 0x610000 100 sample = (k', int 16) \<and>
      load_list ldb k' 0x610000 16 = map (\<lambda>i. file_byte sample 0 (unat (24 :: u32) + i)) [0..<16] \<and>
      (\<forall>b. (\<forall>i<16. translate sample (0x610000 + of_nat i) \<noteq> translate sample b) \<longrightarrow> ldb k' b = ldb sample b) \<and>
      mem_only sample k'"
    by (intro read_data_reads_file [OF sample_fs_ok]) (simp_all add: sample_inode)
  then obtain k' where "read_data 0 24 0x610000 100 sample = (k', int 16)"
    "load_list ldb k' 0x610000 16 = map (\<lambda>i. file_byte sample 0 (unat (24 :: u32) + i)) [0..<16]" by blast
  then show ?thesis by (simp del: upt_rec_numeral)
qed

theorem read_data_continue_witness:
  "snd (read_data 0 20 0x610014 30 (fst (read_data 0 0 0x610000 20 sample))) = 20"
proof -
  have ap: "apart (translate sample) 0x610000 50 (file_start sample) (image_size sample)"
    using sample_paging_map by (auto intro!: apart_in_kernel simp: in_kernel_def image_size_def)
  have "snd (read_data 0 0 0x610000 50 sample) = 40"
    using read_data_eq [OF sample_fs_ok, of 0 0 50 40 "0x610000"] sample_inode apart_mono [OF ap, of 40] by simp
  then show ?thesis
    using read_data_continue [OF sample_fs_ok, of 0 0 20 30 "0x610000"] ap sample_inode by simp
qed

text \<open>
  C25: Looking up a file name returns the first directory entry whose name agrees with it on the
  32 characters a name can have, and fails exactly when there is none; the comparison loop
  returns for every C string.
\<close>

theorem lookup_finds_first:
  fixes k :: "'a filesys_scheme"
  assumes "entry_names k names" "cstring (ldb k) name cs" "length cs < 2 ^ 31"
  shows "read_dentry_by_name k name =
    Some (map_option (\<lambda>i. copy_dentry k (of_nat i))
      (find (\<lambda>i. take 32 (names i) = take 32 cs) [0..<nat (num_dir_entry k)]))"
  using assms by (rule read_dentry_by_name_eq)

theorem lookup_finds_first_witness:
  "read_dentry_by_name sample 0x600000 = Some None"
proof -
  have "length sample_command < 2 ^ 31" by (simp add: sample_command_def)
  from lookup_finds_first [OF sample_entry_names sample_command_string this] show ?thesis
    by (simp add: sample_names_def sample_entries_def sample_command_def upt_rec)
qed



section \<open>Devices\<close>




theorem rtc_write_rejects_witness: "snd (rtc_write last_write 0x600008 4 sample) = -1"
  using rtc_write_rejects [of "0x600008" sample last_write] by (simp add: sample_eval)

section \<open>Processes and files\<close>

text \<open>
  The slot search returns the lowest free process id from 1 to 7, and -1 exactly when all
  are in use.
\<close>

theorem empty_pid_is_free:
  "(get_empty_pid k = -1 \<longleftrightarrow> (\<forall>q. 1 \<le> q \<and> q < 8 \<longrightarrow> process_status k q \<noteq> 0)) \<and>
   (get_empty_pid k \<noteq> -1 \<longrightarrow> 1 \<le> get_empty_pid k \<and> get_empty_pid k < 8 \<and> process_status k (get_empty_pid k) = 0 \<and>
      (\<forall>q. 1 \<le> q \<and> q < get_empty_pid k \<longrightarrow> process_status k q \<noteq> 0))"
  using get_empty_pid_None [of k] get_empty_pid_Some [of k] by blast

theorem empty_pid_is_free_witness: "process_status sample (get_empty_pid sample) = 0"
  using empty_pid_is_free [of sample] by (simp add: sample_empty_pid)

text \<open>
  C28: Opening a file that exists, with a free descriptor, returns a descriptor from 2 to 7;
  closing it succeeds, keeps standard input and output, and leaves exactly the descriptors open
  that were open before.
\<close>

theorem open_then_close:
  fixes k :: "'a proc_scheme"
  assumes "read_dentry_by_name k filename = Some (Some temp)"
    and "streams_ok (pcbs k (get_current_pcb k))" "free_fd_from (pcbs k (get_current_pcb k)) 0 < 8"
  shows "\<exists>k' fd. open_file filename k = Some (k', fd) \<and> 2 \<le> fd \<and> fd < 8 \<and>
    snd (close_file fd k') = 0 \<and> streams_ok (pcbs (fst (close_file fd k')) (get_current_pcb k)) \<and>
    (\<forall>j. (flags (file_array (pcbs (fst (close_file fd k')) (get_current_pcb k)) j) = 0) =
         (flags (file_array (pcbs k (get_current_pcb k)) j) = 0))"
proof -
  let ?i = "free_fd_from (pcbs k (get_current_pcb k)) 0"
  obtain k' where k': "open_file filename k = Some (k', int ?i)"
    "file_array (pcbs k' (get_current_pcb k)) = (file_array (pcbs k (get_current_pcb k)))
       (?i := opened temp (file_array (pcbs k (get_current_pcb k)) ?i))" "current_pid k' = current_pid k"
    using open_file_found [OF assms(1) refl assms(3)] by blast
  have "streams_ok (pcbs k' (get_current_pcb k'))" "get_current_pcb k' = get_current_pcb k"
    using assms(2) k'(2,3) free_fd_streams [OF assms(2)] by (auto simp: streams_ok_def get_current_pcb_def)
  then show ?thesis
    using open_close_roundtrip [OF assms] streams_ok_close [of k'] k'(1) by fastforce
qed

theorem open_then_close_witness:
  "\<exists>k' fd. open_file 0x500080 sample = Some (k', fd) \<and> 2 \<le> fd \<and> fd < 8 \<and> snd (close_file fd k') = 0"
  using open_then_close [OF sample_lookup sample_free_fd(1)] sample_free_fd(2) by auto

text \<open>
  C29: Opening a name that no directory entry has, or opening with all eight descriptors in use,
  returns -1 and leaves the state as it was.
\<close>

theorem open_fails:
  fixes k :: "'a proc_scheme"
  assumes "entry_names k names" "cstring (ldb k) filename cs" "length cs < 2 ^ 31"
    and "(\<forall>i<nat (num_dir_entry k). take 32 (names i) \<noteq> take 32 cs) \<or>
      (\<forall>i<8. flags (file_array (pcbs k (get_current_pcb k)) i) \<noteq> 0)"
  shows "open_file filename k = Some (k, -1)"
proof (cases "find (\<lambda>i. take 32 (names i) = take 32 cs) [0..<nat (num_dir_entry k)]")
  case None
  then show ?thesis using read_dentry_by_name_eq [OF assms(1-3)] by (simp add: open_file_def)
next
  case (Some i)
  then have "i < nat (num_dir_entry k)" "take 32 (names i) = take 32 cs" by (auto simp: find_Some_iff)
  then show ?thesis
    using open_file_full [of k filename] read_dentry_by_name_eq [OF assms(1-3)] assms(4) Some by auto
qed

theorem open_fails_witness: "open_file 0x600000 sample = Some (sample, -1)"
proof -
  have "length sample_command < 2 ^ 31" by (simp add: sample_command_def)
  from open_fails [OF sample_entry_names sample_command_string this] show ?thesis
    by (auto simp: sample_names_def sample_entries_def sample_command_def five_cases)
qed

text \<open>
  C30: Reading, writing or closing a descriptor outside 0 to 7 or one that is not open returns
  -1 and leaves the state as it was.
\<close>

theorem bad_descriptor_fails:
  fixes k :: "'a proc_scheme"
  assumes "fd < 0 \<or> 8 \<le> fd \<or> flags (file_array (pcbs k (get_current_pcb k)) (nat fd)) = 0"
  shows "read_file dev fd buf n k = Some (k, -1) \<and> write_file dev fd buf n k = Some (k, -1) \<and>
    close_file fd k = (k, -1)"
  using bad_fd [OF assms] by simp

theorem bad_descriptor_fails_witness: "read_file (\<lambda>h p. 0) 5 0x600000 10 sample = Some (sample, -1)"
  using bad_descriptor_fails [of 5 sample] by (simp add: fresh_pcb_def)

text \<open>
  C31: Reading from an open regular file stores the next bytes of the file in the buffer,
  returns their number and advances the position of that descriptor by it.
\<close>

theorem file_read_advances:
  fixes k :: "'a proc_scheme"
  assumes "0 \<le> fd" "fd < 8" "fd \<noteq> 1"
    and "d = file_array (pcbs k (get_current_pcb k)) (nat fd)" "flags d \<noteq> 0" "fd_read d = Op_filesys_read"
    and "fs_ok k" "unat (fd_inode d) < nat (num_inodes k)" "unat (file_position d) + n < 2 ^ 31"
    and "N = min n (unat (inode_length k (fd_inode d)) - unat (file_position d))"
    and "apart (translate k) buf N (file_start k) (image_size k)"
  shows "read_file dev fd buf (int n) k =
    Some (upd_pcb (get_current_pcb k) (upd_fd (nat fd) (\<lambda>d. d\<lparr>file_position := file_position d + of_nat N\<rparr>))
        (store_bytes k buf (file_part k (fd_inode d) (unat (file_position d)) (unat (file_position d) + N))),
      int N)"
  using assms by (rule read_file_regular)

theorem file_read_advances_witness:
  "\<exists>k'. read_file (\<lambda>h p. 0) 2 0x610000 100 sample_open = Some (k', 40)"
proof -
  define d where "d = file_array (pcbs sample_open (get_current_pcb sample_open)) (nat 2)"
  have d: "fd_inode d = 0" "flags d \<noteq> 0" "fd_read d = Op_filesys_read" "file_position d = 0"
    using sample_names_file
    by (simp_all add: d_def sample_open_sel opened_def Let_def names_file_def copy_dentry_def dentry_addr_def
        sizeof_dentry_def sample_eval)
  have ok: "fs_ok sample_open" using same_image_fs_ok [OF sample_open_image sample_fs_ok] .
  have len: "unat (inode_length sample_open 0) = 40"
    using same_image_inode(1) [OF sample_fs_ok sample_open_image, of 0] by (simp add: sample_inode)
  have "apart (translate sample_open) 0x610000 40 (file_start sample_open) (image_size sample_open)"
    using sample_paging_map by (auto intro!: apart_in_kernel simp: in_kernel_def sample_open_sel)
  then have "read_file (\<lambda>h p. 0) 2 0x610000 (int 100) sample_open = Some (upd_pcb (get_current_pcb sample_open)
      (upd_fd (nat 2) (\<lambda>d. d\<lparr>file_position := file_position d + of_nat 40\<rparr>))
        (store_bytes sample_open 0x610000 (file_part sample_open (fd_inode d) (unat (file_position d)) (unat (file_position d) + 40))),
      int 40)"
    by (intro file_read_advances [OF _ _ _ d_def d(2,3) ok]) (simp_all add: d sample_open_sel len)
  then show ?thesis by simp
qed

section \<open>Scheduling\<close>

text \<open>
  C17: A process that is running and has no running child becomes the current one after at most
  as many timer ticks as it is places away in the cyclic order of process ids, if the processes
  only compute in between.
\<close>

theorem ready_process_runs:
  fixes k :: "'a proc_scheme"
  assumes "sched_ok k" "ready k j"
  shows "\<exists>n. int n \<le> (j - current_pid k) mod 8 \<and> current_pid ((tick ^^ n) k) = j"
  using sched.eventually_current [OF assms(1) _ _ assms(2)] assms(2) by (simp add: ready_def)

theorem ready_process_runs_witness: "\<exists>n. n \<le> 1 \<and> current_pid ((tick ^^ n) sample_two) = 2"
  using ready_process_runs [OF sample_two_sched, of 2] by (simp add: sample_two_ready)

theorem preempted_resumed_witness:
  "\<exists>k' k3 e b. pit_handler sample_two = Some (Resume k' e b) \<and> pit_handler k' = Some (Resume k3 0x7fdf00 0x7fdf10)"
proof -
  obtain k' e b where k': "pit_handler sample_two = Some (Resume k' e b)" "current_pid k' = 2" "sched_ok k'"
    "ready k' = ready sample_two" by (rule sample_two_switch)
  from k'(3) have "\<exists>k3 e' b'. pit_handler k' = Some (Resume k3 e' b') \<and> current_pid k3 = 1"
  proof (cases rule: pit_handler_cases)
    case (stay k3)
    then show ?thesis using sample_two_ready [of 1] k'(2,4) by auto
  next
    case (switch k3 m i)
    then have "i = 1" using sample_two_ready [of i] k'(2,4) by auto
    then show ?thesis using switch by auto
  qed
  then obtain k3 e' b' where k3: "pit_handler k' = Some (Resume k3 e' b')" "current_pid k3 = 1" by blast
  then show ?thesis
    using preempted_resumed [OF sample_two_sched k'(1,3) k3(1)] k'(1) by auto
qed

theorem switched_address_space_witness:
  "\<exists>k' e b. pit_handler sample_two = Some (Resume k' e b) \<and> walk (pg k') 0x8048000 = Some 0x1048000"
proof -
  obtain k' e b where k': "pit_handler sample_two = Some (Resume k' e b)" "current_pid k' = 2" by (rule sample_two_switch)
  have "kernel_map (of_nat VIDEO_IND) (pg sample_two)" by (simp add: sample_paging_map)
  from switched_address_space [OF sample_two_sched this k'(1), of "0x48000"] k' show ?thesis by simp
qed

section \<open>Typing\<close>


section \<open>User programs\<close>

section \<open>The whole system\<close>







text \<open>
  C8: Every covered system call (all but \<^verbatim>\<open>halt\<close> and
  \<^verbatim>\<open>execute\<close>, with buffers in the program page and input to deliver
  where it would block) returns, has exactly the effect on the memory, the descriptors, the
  terminal, the directory position and the arguments of the calling program that the abstract
  interface prescribes, and keeps the invariant of the system.
\<close>

theorem system_call_implements:
  assumes "user_inv img k" "call_ok eax ebx ecx edx (kview k)"
  shows "\<exists>k'. system_call dev eax ebx ecx edx k = Some (Ret k' (snd (u_call img eax ebx ecx edx (kview k)))) \<and>
    user_inv img k' \<and> kview k' = fst (u_call img eax ebx ecx edx (kview k))"
  using system_call_refines [OF assms] by blast

theorem system_call_implements_witness:
  "\<exists>k'. system_call last_write 5 (sample_lit ''.'') 0 0 sample_user = Some (Ret k' 2) \<and>
     user_inv sample_files k' \<and> ufds (kview k') 2 = Fd_directory"
proof -
  have l: "cstring (umem (kview sample_user)) (sample_lit ''.'') (chars ''.'')" "ubuf (sample_lit ''.'') (length ''.'' + 1)"
    using sample_literals by (simp_all add: literals_def sample_text_def)
  have ok: "call_ok 5 (sample_lit ''.'') 0 0 (kview sample_user)"
    using l by (auto simp: call_ok_def string_ok_def)
  obtain d s rt fa fb where f: "sample_files = [d, s, rt, fa, fb]" "uf_name d = chars ''.''" "uf_type d = 1" by (rule sample_files_eq)
  have "u_call sample_files 5 (sample_lit ''.'') 0 0 (kview sample_user) =
      ((set_fd 2 Fd_directory (kview sample_user))\<lparr>udir := 0\<rparr>, 2)"
    by (simp add: u_call_def u_open_def name_at_cstring [OF l(1)] fd_for_def f sample_first_closed)
  then show ?thesis
    using system_call_implements [OF sample_user_inv ok, of last_write] by (auto simp: set_fd_def)
qed

text \<open>
  C10: Run on the kernel with the name of a regular file as its argument,
  \<^verbatim>\<open>cat\<close> returns 0 after printing exactly the bytes of that file,
  whatever its length, on the terminal of the process.
\<close>

theorem cat_prints_file:
  assumes "user_inv img k" "ubuf buf 1024" "uargs (kview k) = Some raw" "0 \<in> set (take 1024 raw)"
    and "name = takeWhile (\<lambda>c. c \<noteq> 0) raw"
    and "find (\<lambda>e. uf_name e = take 32 name) img = Some e" "uf_type e = 2"
    and "first_closed (ufds (kview k)) \<noteq> 8"
  shows "\<exists>k'. cat_main (kernel_os dev) lit buf k = Some (k', 0) \<and> user_inv img k' \<and>
    terminal k' (active_terminal k') = fold aterm_putc (uf_data e) (terminal k (active_terminal k))"
  using kos.cat_file [OF assms, of dev lit] unfolding kview_out .


text \<open>
  C9: At the keyboard, the shell answers every empty line with a new prompt and every line that
  names no file with the message, through the real \<^verbatim>\<open>read\<close>,
  \<^verbatim>\<open>write\<close> and \<^verbatim>\<open>execute\<close> of the kernel, and the
  line \<^verbatim>\<open>exit\<close> ends it with status 0; the terminal shows exactly the
  prompts, the echoed lines and the messages.
\<close>

theorem shell_session_ends:
  assumes "console_inv img w" "\<not> uready (kview (fst w))"
    "console_lines w = map (\<lambda>cs. cs @ [10]) (css @ [chars ''exit'']) @ rest" "ubuf buf 1024"
    "literals lit shell_strings (umem (kview (fst w)))" "away lit shell_strings buf 1024"
    "\<forall>cs\<in>set css. unknown_command img cs"
  shows "\<exists>w'. shell_main (console_os dev) lit buf w = Some (w', 0) \<and> console_inv img w' \<and> console_lines w' = rest \<and>
    terminal (fst w') (active_terminal (fst w')) =
      fold aterm_putc (chars (''Starting 391 Shell'' @ nl) @ concat (map shell_reply css) @ chars ''391OS> exit'' @ [10])
        (terminal (fst w) (active_terminal (fst w)))"
  using cos.shell_runs [OF assms] by (auto simp: kview_def)

text \<open>
  C14: The self-test \<^verbatim>\<open>syserr\<close> with choice 0 passes on the kernel: all
  eight tests of bad descriptors, full descriptor tables, unknown names, unopened descriptors,
  bad pointers, the wrong directions of the standard streams and bad call numbers print PASS,
  and it returns 0.
\<close>

theorem syserr_tests_pass:
  assumes "console_inv img w" "\<not> uready (kview (fst w))" "console_lines w = (48 # cs) # rest" "length cs < 126" "ubuf buf 127"
    and "ss = ''Choose from tests 1-8. 0 to run all: '' # [''.'', ''helloo'', ''shel'', ''''] @ pass_lines"
    and "literals lit ss (umem (kview (fst w)))" "away lit ss buf 127"
    and "find (\<lambda>e. uf_name e = chars ''.'') img = Some e" "uf_type e = 1"
      "\<forall>e\<in>set img. uf_name e \<notin> set [chars ''helloo'', chars ''shel'', []]"
    and "\<forall>i. 2 \<le> i \<and> i < 8 \<longrightarrow> ufds (kview (fst w)) i = Fd_closed"
  shows "\<exists>w'. syserr_main (console_os dev) lit buf tbuf ebx ecx edx w = Some (w', 0) \<and> console_inv img w' \<and>
    terminal (fst w') (active_terminal (fst w')) =
      fold aterm_putc (chars ''Choose from tests 1-8. 0 to run all: '' @ (48 # cs) @ chars (concat pass_lines))
        (terminal (fst w) (active_terminal (fst w)))"
  using cos.syserr_all [OF assms, of dev tbuf ebx ecx edx] unfolding kview_out by blast

text \<open>
  C15: Run on the kernel with one of its three choices typed, \<^verbatim>\<open>counter\<close>
  terminates with status 0 after printing the decimal numerals from 1 to the chosen limit, one a
  line.
\<close>

theorem counter_terminates:
  assumes "console_inv img w" "\<not> uready (kview (fst w))" "console_lines w = [48 + of_nat c, 10] # rest" "c < 3" "ubuf buf 1024"
    and "ss = [''Enter the Test Number: (0): 100, (1): 10000, (2): 100000'' @ nl, nl]"
    and "literals lit ss (umem (kview (fst w)))" "away lit ss buf 1024"
  shows "\<exists>w'. counter_main (console_os dev) lit buf w = Some (w', 0) \<and> console_inv img w' \<and>
    terminal (fst w') (active_terminal (fst w')) =
      fold aterm_putc (chars (''Enter the Test Number: (0): 100, (1): 10000, (2): 100000'' @ nl) @
        [48 + of_nat c, 10] @ count_lines 1 ([100, 10000, 100000] ! c + 1)) (terminal (fst w) (active_terminal (fst w)))"
  using cos.counter_counts [OF assms, of dev] unfolding kview_out by blast


text \<open>
  C12: Run on the kernel with the clock running, \<^verbatim>\<open>fish\<close> adds a blinking
  character for every cell of the two picture files that has a mark, runs the list for 100 ticks
  before and after each of adding, synchronising and removing a mark of its own, and returns 0;
  the screen is exactly what this sequence of operations on an abstract list of blinking
  characters leaves. Locations that wrap to 0 are excluded, which two files of fewer than 800
  bytes never have.
\<close>

theorem fish_plays:
  assumes "user_inv img k" "names_in lit L (umem (kview k))" "locals_layout E L" "names_layout E lit L"
    and "int_at (umem (kview k)) (mp1_list_head E) = 0"
    and "find (\<lambda>e. uf_name e = chars ''rtc'') img = Some e" "uf_type e = 0"
    and "find (\<lambda>e. uf_name e = chars ''frame0.txt'') img = Some e0" "uf_type e0 = 2"
      "find (\<lambda>e. uf_name e = chars ''frame1.txt'') img = Some e1" "uf_type e1 = 2"
    and "ufds (kview k) 2 = Fd_closed" "ufds (kview k) 3 = Fd_closed" "ufds (kview k) 4 = Fd_closed"
    and "\<forall>x\<in>set (picture 0 (split_lines (uf_data e0)) (split_lines (uf_data e1))). location x \<noteq> 0"
  shows "\<exists>k'. fish_main (clock_os dev) lit E L k = Some (k', 0) \<and> user_inv img k' \<and>
    terminal k' (active_terminal k') = snd (fish_show (uf_data e0) (uf_data e1) (terminal k (active_terminal k)))"
  using scr.fish_ok [OF assms, of dev] unfolding kview_out .

text \<open>
  C13: The linked list of blinking characters in the memory of the program, with its allocator
  over a fixed array, implements an abstract list: the tick of the clock, the removal, the
  synchronisation and the addition of a character at a location other than 0 return and do to
  the list and the screen what the abstract operations do, and leave the array, the links and
  the free slots consistent.
\<close>

theorem blink_list_refines:
  assumes "user_inv img k" "showing E s (kview k)"
  shows "(\<exists>k'. mp1_rtc_tasklet (clock_os dev) E k = Some k' \<and> user_inv img k' \<and> showing E (show_tick s) (kview k')) \<and>
    (\<exists>k' r. mp1_ioctl (clock_os dev) E a RTC_REMOVE k = Some (k', r) \<and> user_inv img k' \<and> showing E (show_remove (ucast a) s) (kview k')) \<and>
    (\<exists>k' r. mp1_ioctl (clock_os dev) E a RTC_SYNC k = Some (k', r) \<and> user_inv img k' \<and>
      showing E (show_sync (ucast (drop_bit 16 a)) (ucast a) s) (kview k')) \<and>
    (apart_from E a 16 \<and> location (struct_at (umem (kview k)) a) \<noteq> 0 \<longrightarrow>
      (\<exists>k' r. mp1_ioctl (clock_os dev) E a RTC_ADD k = Some (k', r) \<and> user_inv img k' \<and>
        showing E (show_add (blink.truncate (struct_at (umem (kview k)) a)) s) (kview k')))"
proof (intro conjI impI)
  show "\<exists>k'. mp1_rtc_tasklet (clock_os dev) E k = Some k' \<and> user_inv img k' \<and> showing E (show_tick s) (kview k')"
    using scr.show_tick_ok [OF assms, of dev] by blast
  show "\<exists>k' r. mp1_ioctl (clock_os dev) E a RTC_REMOVE k = Some (k', r) \<and> user_inv img k' \<and> showing E (show_remove (ucast a) s) (kview k')"
    using scr.show_remove_ok [OF assms, of dev a] by blast
  show "\<exists>k' r. mp1_ioctl (clock_os dev) E a RTC_SYNC k = Some (k', r) \<and> user_inv img k' \<and>
      showing E (show_sync (ucast (drop_bit 16 a)) (ucast a) s) (kview k')"
    using scr.show_sync_ok [OF assms, of dev a] by blast
  assume a: "apart_from E a 16 \<and> location (struct_at (umem (kview k)) a) \<noteq> 0"
  show "\<exists>k' r. mp1_ioctl (clock_os dev) E a RTC_ADD k = Some (k', r) \<and> user_inv img k' \<and>
      showing E (show_add (blink.truncate (struct_at (umem (kview k)) a)) s) (kview k')"
    using scr.show_add_ok [OF assms conjunct1 [OF a] refl conjunct2 [OF a], of dev] by blast
qed

text \<open>
  C37: The allocator of the animation takes a slot with location 0 for free: adding a character
  at location 0 to an empty list succeeds twice, the second one links the slot to itself, and
  the next tick of the clock does not return.
\<close>

theorem location_zero_hangs:
  assumes "user_inv img k" "blinks E (kview k) []" "apart_from E a 16" "location (struct_at (umem (kview k)) a) = 0"
  shows "\<exists>k1 k2. mp1_ioctl (clock_os dev) E a RTC_ADD k = Some (k1, 0) \<and> mp1_ioctl (clock_os dev) E a RTC_ADD k1 = Some (k2, 0) \<and>
    mp1_rtc_tasklet (clock_os dev) E k2 = None"
  using scr.location_zero_loops [OF assms, of dev] by (auto simp: mp1_ioctl_def RTC_ADD_def)


theorem cat_prints_file_witness:
  "\<exists>k' e. e \<in> set sample_files \<and> uf_name e = chars ''shell'' \<and>
     cat_main (kernel_os last_write) sample_lit 0x83FF000 sample_user = Some (k', 0) \<and>
     terminal k' (active_terminal k') = fold aterm_putc (uf_data e) (terminal sample_user 0)"
proof -
  obtain raw where r: "uargs (kview sample_user) = Some raw" "0 \<in> set (take 1024 raw)" "takeWhile (\<lambda>c. c \<noteq> 0) raw = chars ''shell''"
    using sample_args by blast
  obtain d s rt fa fb where f: "sample_files = [d, s, rt, fa, fb]" "uf_name d = chars ''.''" "uf_name s = chars ''shell''" "uf_type s = 2"
    by (rule sample_files_eq)
  have "find (\<lambda>e. uf_name e = take 32 (chars ''shell'')) sample_files = Some s" by (simp add: f)
  moreover have "s \<in> set sample_files" by (simp add: f)
  ultimately show ?thesis
    using cat_prints_file [OF sample_user_inv _ r(1,2) r(3) [symmetric], of "0x83FF000" s last_write sample_lit] f sample_first_closed
    by (auto simp: ubuf_def)
qed


text \<open>A state of the sample machine with an empty list on the window of \<^verbatim>\<open>vidmap\<close>.\<close>

lemma sample_blinks:
  "\<exists>k :: proc. user_inv sample_files k \<and> showing sample_vars ([], terminal sample_user 0) (kview k)"
  using scr.fish_init [OF sample_user_inv sample_names_layout(2) sample_fish_layout(1) sample_names_layout(1) sample_list_head, of last_write]
    kview_out [of sample_user] by auto

theorem fish_plays_witness:
  "\<exists>k'. fish_main (clock_os last_write) sample_lit sample_vars sample_locals sample_user = Some (k', 0) \<and>
     terminal k' (active_terminal k') = snd (fish_show sample_program sample_program (terminal sample_user 0))"
proof -
  obtain d s rt fa fb where f: "sample_files = [d, s, rt, fa, fb]" "uf_name d = chars ''.''" "uf_name s = chars ''shell''"
    "uf_name rt = chars ''rtc''" "uf_type rt = 0" "uf_name fa = chars ''frame0.txt''" "uf_type fa = 2" "uf_name fb = chars ''frame1.txt''" "uf_type fb = 2"
    "uf_data fa = sample_program" "uf_data fb = sample_program"
    by (rule sample_files_eq)
  have "find (\<lambda>e. uf_name e = chars ''rtc'') sample_files = Some rt" "find (\<lambda>e. uf_name e = chars ''frame0.txt'') sample_files = Some fa"
    "find (\<lambda>e. uf_name e = chars ''frame1.txt'') sample_files = Some fb" by (simp_all add: f)
  note img = this(1) f(5) this(2) f(7) this(3) f(9)
  have fds: "ufds (kview sample_user) 2 = Fd_closed" "ufds (kview sample_user) 3 = Fd_closed" "ufds (kview sample_user) 4 = Fd_closed"
    by (simp_all add: sample_user_streams)
  have "\<forall>x\<in>set (picture 0 (split_lines (uf_data fa)) (split_lines (uf_data fb))). location x \<noteq> 0"
    by (rule small_pictures) (simp_all add: f(10,11) sample_program_def)
  from fish_plays [OF sample_user_inv sample_names_layout(2) sample_fish_layout(2) sample_names_layout(1) sample_list_head img fds this, of last_write]
  show ?thesis by (auto simp: f(10,11))
qed

lemma sample_blink_at:
  "\<exists>k :: proc. user_inv sample_files k \<and> showing sample_vars ([], terminal sample_user 0) (kview k) \<and>
     location (struct_at (umem (kview k)) (main_blink sample_locals)) = l"
proof -
  obtain k :: proc where k: "user_inv sample_files k" "showing sample_vars ([], terminal sample_user 0) (kview k)" using sample_blinks by blast
  note lay = locals_layoutD [OF sample_fish_layout(2)]
  define k0 where "k0 = os_store_short (clock_os last_write) k (main_blink sample_locals + LOCATION) l"
  note s = scr.struct_char_stores(5,6) [OF k(1) lay(10), where v = l and dev = last_write, folded k0_def]
  note U = upd_structD [OF s(2)]
  have "showing sample_vars ([], terminal sample_user 0) (kview k0)" by (rule showing_outside [OF k(2) U(3) umem_only(1) [OF U(1)] lay(5)])
  then show ?thesis using s(1) U(2) by auto
qed

theorem blink_list_refines_witness:
  "\<exists>(k :: proc) k' k'' r b. mp1_ioctl (clock_os last_write) sample_vars (main_blink sample_locals) RTC_ADD k = Some (k', r) \<and> location b = 5 \<and>
     showing sample_vars (show_add b ([], terminal sample_user 0)) (kview k') \<and>
     mp1_rtc_tasklet (clock_os last_write) sample_vars k' = Some k'' \<and>
     showing sample_vars (show_tick (show_add b ([], terminal sample_user 0))) (kview k'')"
proof -
  let ?a = "main_blink sample_locals"
  obtain k :: proc where k: "user_inv sample_files k" "showing sample_vars ([], terminal sample_user 0) (kview k)"
    "location (struct_at (umem (kview k)) ?a) = 5" using sample_blink_at by blast
  define b where "b = blink.truncate (struct_at (umem (kview k)) ?a)"
  have "apart_from sample_vars ?a 16" by (rule locals_layoutD(5) [OF sample_fish_layout(2)])
  with blink_list_refines [OF k(1,2), of last_write ?a] k(3) obtain k' r where
    k': "mp1_ioctl (clock_os last_write) sample_vars ?a RTC_ADD k = Some (k', r)" "user_inv sample_files k'"
    "showing sample_vars (show_add b ([], terminal sample_user 0)) (kview k')" by (auto simp: b_def)
  have "location b = 5" using k(3) by (simp add: b_def)
  then show ?thesis using k' blink_list_refines [OF k'(2,3), of last_write ?a] by blast
qed

theorem location_zero_hangs_witness:
  "\<exists>(k :: proc) k1 k2. mp1_ioctl (clock_os last_write) sample_vars (main_blink sample_locals) RTC_ADD k = Some (k1, 0) \<and>
     mp1_ioctl (clock_os last_write) sample_vars (main_blink sample_locals) RTC_ADD k1 = Some (k2, 0) \<and>
     mp1_rtc_tasklet (clock_os last_write) sample_vars k2 = None"
proof -
  obtain k :: proc where k: "user_inv sample_files k" "showing sample_vars ([], terminal sample_user 0) (kview k)"
    "location (struct_at (umem (kview k)) (main_blink sample_locals)) = 0" using sample_blink_at by blast
  have "blinks sample_vars (kview k) []" using k(2) by (auto simp: showing_def blink_list_def)
  from location_zero_hangs [OF k(1) this locals_layoutD(5) [OF sample_fish_layout(2)] k(3), of last_write] show ?thesis by blast
qed


theorem shell_session_ends_witness:
  "\<exists>w'. shell_main (console_os last_write) sample_lit 0x83FF000 (sample_user, [[38, 31, 28], [18, 45, 23, 20, 28]]) = Some (w', 0) \<and>
    terminal (fst w') (active_terminal (fst w')) =
      fold aterm_putc (chars (''Starting 391 Shell'' @ nl) @ chars (''391OS> ls'' @ nl) @ chars (''no such command'' @ nl) @
        chars (''391OS> exit'' @ nl)) (terminal sample_user 0)"
proof -
  let ?w = "(sample_user, [[38, 31, 28], [18, 45, 23, 20, 28]])"
  have t: "\<forall>ks\<in>set [[38, 31, 28], [18, 45, 23, 20, 28]]. types_line sample_user ks" using sample_lines by simp
  note C = sample_console [OF t]
  have l: "console_lines ?w = map (\<lambda>cs. cs @ [10]) ([chars ''ls''] @ [chars ''exit'']) @ []"
    using C(3) sample_lines by simp
  have lit: "literals sample_lit shell_strings (umem (kview (fst ?w)))" "away sample_lit shell_strings 0x83FF000 1024"
    using literals_sub [OF sample_literals, of shell_strings] sample_away [of shell_strings "0x83FF000"] by (auto simp: sample_text_def)
  obtain d s rt fa fb where f: "sample_files = [d, s, rt, fa, fb]" "uf_name d = chars ''.''" "uf_name s = chars ''shell''"
    "uf_name rt = chars ''rtc''" "uf_name fa = chars ''frame0.txt''" "uf_name fb = chars ''frame1.txt''" by (rule sample_files_eq)
  have u: "\<forall>cs\<in>set [chars ''ls'']. unknown_command sample_files cs" by (simp add: unknown_command_def f)
  have b: "ubuf 0x83FF000 1024" by (simp add: ubuf_def)
  show ?thesis
    using shell_session_ends [OF C(1,2) l b lit u, of last_write] by (auto simp: shell_reply_def)
qed

theorem syserr_tests_pass_witness:
  "\<exists>w'. syserr_main (console_os last_write) sample_lit 0x83FF000 0x83FE000 0 0 0 (sample_user, [[11, 28]]) = Some (w', 0) \<and>
    terminal (fst w') (active_terminal (fst w')) =
      fold aterm_putc (chars (''Choose from tests 1-8. 0 to run all: 0'' @ nl @ concat pass_lines)) (terminal sample_user 0)"
proof -
  have t: "\<forall>ks\<in>set [[11, 28]]. types_line sample_user ks" using sample_lines by simp
  note C = sample_console [OF t]
  have l: "console_lines (sample_user, [[11, 28]]) = (48 # [10]) # []" using C(3) sample_lines by simp
  let ?ss = "''Choose from tests 1-8. 0 to run all: '' # [''.'', ''helloo'', ''shel'', ''''] @ pass_lines"
  have lit: "literals sample_lit ?ss (umem (kview (fst (sample_user, [[11 :: u8, 28]]))))" "away sample_lit ?ss 0x83FF000 127"
    using literals_sub [OF sample_literals, of ?ss] sample_away [of ?ss "0x83FF000"] by (auto simp: sample_text_def)
  obtain d s rt fa fb where f: "sample_files = [d, s, rt, fa, fb]" "uf_name d = chars ''.''" "uf_type d = 1" "uf_name s = chars ''shell''"
    "uf_name rt = chars ''rtc''" "uf_name fa = chars ''frame0.txt''" "uf_name fb = chars ''frame1.txt''" by (rule sample_files_eq)
  have i: "find (\<lambda>e. uf_name e = chars ''.'') sample_files = Some d"
    "\<forall>e\<in>set sample_files. uf_name e \<notin> set [chars ''helloo'', chars ''shel'', []]" by (simp_all add: f)
  have c: "\<forall>i. 2 \<le> i \<and> i < 8 \<longrightarrow> ufds (kview (fst (sample_user, [[11 :: u8, 28]]))) i = Fd_closed" by (simp add: sample_user_streams)
  have b: "ubuf 0x83FF000 127" by (simp add: ubuf_def)
  show ?thesis
    using syserr_tests_pass [OF C(1,2) l _ b refl lit i(1) f(3) i(2) c, of last_write "0x83FE000" 0 0 0] by (auto simp del: fold_simps)
qed

theorem counter_terminates_witness:
  "\<exists>w'. counter_main (console_os last_write) sample_lit 0x83FF000 (sample_user, [[11, 28]]) = Some (w', 0) \<and>
    terminal (fst w') (active_terminal (fst w')) =
      fold aterm_putc (chars (''Enter the Test Number: (0): 100, (1): 10000, (2): 100000'' @ nl) @ [48, 10] @ count_lines 1 101)
        (terminal sample_user 0)"
proof -
  have t: "\<forall>ks\<in>set [[11, 28]]. types_line sample_user ks" using sample_lines by simp
  note C = sample_console [OF t]
  have l: "console_lines (sample_user, [[11, 28]]) = [48 + of_nat 0, 10] # []" using C(3) sample_lines by simp
  let ?ss = "[''Enter the Test Number: (0): 100, (1): 10000, (2): 100000'' @ nl, nl]"
  have lit: "literals sample_lit ?ss (umem (kview (fst (sample_user, [[11 :: u8, 28]]))))" "away sample_lit ?ss 0x83FF000 1024"
    using literals_sub [OF sample_literals, of ?ss] sample_away [of ?ss "0x83FF000"] by (auto simp: sample_text_def)
  have b: "ubuf 0x83FF000 1024" by (simp add: ubuf_def)
  show ?thesis
    using counter_terminates [OF C(1,2) l _ b refl lit, of last_write] by (auto simp del: fold_simps)
qed

end
